(* ===== verification/C_Prelude.thy ===== *)
theory C_Prelude
  imports Main "HOL-Library.Word" "HOL-Library.Monad_Syntax"
begin

text \<open>
  What every component shares: the C integer types as words, undefined behaviour as
  \<^theory_text>\<open>None\<close>, array reads and writes with their bounds, and the little-endian
  macros of \<^verbatim>\<open>libuvc_internal.h\<close> (\<^verbatim>\<open>SW_TO_SHORT\<close>, \<^verbatim>\<open>DW_TO_INT\<close>,
  \<^verbatim>\<open>QW_TO_LONG\<close> and their inverses) with their round trips.

  A C function that can run into undefined behaviour (an access outside an object, a null
  pointer, a division by zero, a failing \<^verbatim>\<open>assert\<close>) has an \<^theory_text>\<open>option\<close>
  result; \<^theory_text>\<open>None\<close> says that the run has no defined result. A run that does not
  return is \<^theory_text>\<open>None\<close> as well. The do-notation is the one of the option type.
\<close>

unbundle bit_operations_syntax

section \<open>C types\<close>

type_synonym u8 = "8 word"
type_synonym u16 = "16 word"
type_synonym u32 = "32 word"
type_synonym u64 = "64 word"

text \<open>Facts that open the option monad and the checked array accesses.\<close>

named_theorems ub_simps

lemmas [ub_simps] = Option.bind_eq_Some_conv Option.bind_eq_None_conv

section \<open>Arrays\<close>

definition rd :: "'a list \<Rightarrow> nat \<Rightarrow> 'a option" where
  "rd xs i = (if i < length xs then Some (xs ! i) else None)"

definition wr :: "'a list \<Rightarrow> nat \<Rightarrow> 'a \<Rightarrow> 'a list option" where
  "wr xs i v = (if i < length xs then Some (xs[i := v]) else None)"

lemma rd_Some_iff [ub_simps]: "rd xs i = Some v \<longleftrightarrow> i < length xs \<and> v = xs ! i"
  by (auto simp: rd_def)

lemma rd_None_iff [ub_simps]: "rd xs i = None \<longleftrightarrow> length xs \<le> i"
  by (auto simp: rd_def)

lemma rd_in [simp]: "i < length xs \<Longrightarrow> rd xs i = Some (xs ! i)"
  by (simp add: rd_def)

lemma rd_out [simp]: "length xs \<le> i \<Longrightarrow> rd xs i = None"
  by (simp add: rd_def)

lemma wr_Some_iff [ub_simps]: "wr xs i v = Some ys \<longleftrightarrow> i < length xs \<and> ys = xs[i := v]"
  by (auto simp: wr_def)

lemma wr_in [simp]: "i < length xs \<Longrightarrow> wr xs i v = Some (xs[i := v])"
  by (simp add: wr_def)

lemma wr_out [simp]: "length xs \<le> i \<Longrightarrow> wr xs i v = None"
  by (simp add: wr_def)

lemma rd_append_left: "i < length xs \<Longrightarrow> rd (xs @ ys) i = rd xs i"
  by (simp add: nth_append)

text \<open>\<^verbatim>\<open>memcpy\<close> of \<open>n\<close> bytes from offset \<open>i\<close> of an object.\<close>

definition rd_bytes :: "'a list \<Rightarrow> nat \<Rightarrow> nat \<Rightarrow> 'a list option" where
  "rd_bytes xs i n = (if i + n \<le> length xs then Some (take n (drop i xs)) else None)"

lemma rd_bytes_Some_iff [ub_simps]:
  "rd_bytes xs i n = Some ys \<longleftrightarrow> i + n \<le> length xs \<and> ys = take n (drop i xs)"
  by (auto simp: rd_bytes_def)

lemma rd_bytes_in [simp]: "i + n \<le> length xs \<Longrightarrow> rd_bytes xs i n = Some (take n (drop i xs))"
  by (simp add: rd_bytes_def)

text \<open>Arithmetic on \<^verbatim>\<open>int\<close>s: a result that leaves 32 bits is undefined.\<close>

definition c_int :: "int \<Rightarrow> int option" where
  "c_int i = (if - (2 ^ 31) \<le> i \<and> i < 2 ^ 31 then Some i else None)"

text \<open>\<^verbatim>\<open>memcpy\<close> of \<open>d\<close> to offset \<open>i\<close> of an object.\<close>

definition wr_bytes :: "'a list \<Rightarrow> nat \<Rightarrow> 'a list \<Rightarrow> 'a list option" where
  "wr_bytes buf i d =
     (if i + length d \<le> length buf then Some (take i buf @ d @ drop (i + length d) buf) else None)"

lemma wr_bytes_Some_iff [ub_simps]:
  "wr_bytes buf i d = Some r \<longleftrightarrow>
     i + length d \<le> length buf \<and> r = take i buf @ d @ drop (i + length d) buf"
  by (auto simp: wr_bytes_def)

section \<open>Little-endian integers\<close>

text \<open>
  \<open>SW_TO_SHORT\<close> and \<open>DW_TO_INT\<close> combine bytes that are promoted to \<^verbatim>\<open>int\<close>; the
  result has exactly the bits of a 16-bit or 32-bit word.
\<close>

definition SW_TO_SHORT :: "u8 \<Rightarrow> u8 \<Rightarrow> u16" where
  "SW_TO_SHORT b0 b1 = ucast b0 OR push_bit 8 (ucast b1)"

definition DW_TO_INT :: "u8 \<Rightarrow> u8 \<Rightarrow> u8 \<Rightarrow> u8 \<Rightarrow> u32" where
  "DW_TO_INT b0 b1 b2 b3 =
     ucast b0 OR push_bit 8 (ucast b1) OR push_bit 16 (ucast b2) OR push_bit 24 (ucast b3)"

text \<open>
  In \<open>QW_TO_LONG\<close> the four low bytes are combined as an \<^verbatim>\<open>int\<close>, which is then
  converted to \<^verbatim>\<open>uint64_t\<close> with its sign; only the high bytes are widened first.
\<close>

definition QW_TO_LONG :: "u8 \<Rightarrow> u8 \<Rightarrow> u8 \<Rightarrow> u8 \<Rightarrow> u8 \<Rightarrow> u8 \<Rightarrow> u8 \<Rightarrow> u8 \<Rightarrow> u64" where
  "QW_TO_LONG b0 b1 b2 b3 b4 b5 b6 b7 =
     scast (DW_TO_INT b0 b1 b2 b3)
       OR push_bit 32 (ucast b4) OR push_bit 40 (ucast b5)
       OR push_bit 48 (ucast b6) OR push_bit 56 (ucast b7)"

definition SHORT_TO_SW :: "u16 \<Rightarrow> u8 list" where
  "SHORT_TO_SW s = [ucast s, ucast (drop_bit 8 s)]"

definition INT_TO_DW :: "u32 \<Rightarrow> u8 list" where
  "INT_TO_DW i = [ucast i, ucast (drop_bit 8 i), ucast (drop_bit 16 i), ucast (drop_bit 24 i)]"

definition LONG_TO_QW :: "u64 \<Rightarrow> u8 list" where
  "LONG_TO_QW i =
     [ucast i, ucast (drop_bit 8 i), ucast (drop_bit 16 i), ucast (drop_bit 24 i),
      ucast (drop_bit 32 i), ucast (drop_bit 40 i), ucast (drop_bit 48 i), ucast (drop_bit 56 i)]"

lemma length_SHORT_TO_SW [simp]: "length (SHORT_TO_SW s) = 2"
  by (simp add: SHORT_TO_SW_def)

lemma length_INT_TO_DW [simp]: "length (INT_TO_DW i) = 4"
  by (simp add: INT_TO_DW_def)

lemma length_LONG_TO_QW [simp]: "length (LONG_TO_QW i) = 8"
  by (simp add: LONG_TO_QW_def)

text \<open>The macros applied to a pointer: the bytes at an offset of an object.\<close>

definition sw_at :: "u8 list \<Rightarrow> nat \<Rightarrow> u16 option" where
  "sw_at p i = do { b0 \<leftarrow> rd p i; b1 \<leftarrow> rd p (i + 1); Some (SW_TO_SHORT b0 b1) }"

definition dw_at :: "u8 list \<Rightarrow> nat \<Rightarrow> u32 option" where
  "dw_at p i = do { b0 \<leftarrow> rd p i; b1 \<leftarrow> rd p (i + 1); b2 \<leftarrow> rd p (i + 2); b3 \<leftarrow> rd p (i + 3);
     Some (DW_TO_INT b0 b1 b2 b3) }"

definition qw_at :: "u8 list \<Rightarrow> nat \<Rightarrow> u64 option" where
  "qw_at p i = do { b0 \<leftarrow> rd p i; b1 \<leftarrow> rd p (i + 1); b2 \<leftarrow> rd p (i + 2); b3 \<leftarrow> rd p (i + 3);
     b4 \<leftarrow> rd p (i + 4); b5 \<leftarrow> rd p (i + 5); b6 \<leftarrow> rd p (i + 6); b7 \<leftarrow> rd p (i + 7);
     Some (QW_TO_LONG b0 b1 b2 b3 b4 b5 b6 b7) }"

lemma sw_at_in [simp]: "i + 1 < length p \<Longrightarrow> sw_at p i = Some (SW_TO_SHORT (p ! i) (p ! (i + 1)))"
  by (simp add: sw_at_def)

lemma dw_at_in [simp]:
  "i + 3 < length p \<Longrightarrow>
     dw_at p i = Some (DW_TO_INT (p ! i) (p ! (i + 1)) (p ! (i + 2)) (p ! (i + 3)))"
  by (simp add: dw_at_def)

lemma qw_at_in [simp]:
  "i + 7 < length p \<Longrightarrow>
     qw_at p i = Some (QW_TO_LONG (p ! i) (p ! (i + 1)) (p ! (i + 2)) (p ! (i + 3))
       (p ! (i + 4)) (p ! (i + 5)) (p ! (i + 6)) (p ! (i + 7)))"
  by (simp add: qw_at_def)

lemma SW_TO_SHORT_bytes [simp]: "SW_TO_SHORT (ucast s) (ucast (drop_bit 8 s)) = s"
  by (rule bit_word_eqI) (auto simp: SW_TO_SHORT_def bit_simps)

lemma DW_TO_INT_bytes [simp]:
  "DW_TO_INT (ucast i) (ucast (drop_bit 8 i)) (ucast (drop_bit 16 i)) (ucast (drop_bit 24 i)) = i"
proof (rule bit_word_eqI)
  fix n assume "n < LENGTH(32)"
  then show "bit (DW_TO_INT (ucast i) (ucast (drop_bit 8 i)) (ucast (drop_bit 16 i))
      (ucast (drop_bit 24 i))) n = bit i n"
    by (cases "n < 8"; cases "n < 16"; cases "n < 24")
      (auto simp: DW_TO_INT_def bit_simps)
qed

lemma DW_TO_INT_low_bytes:
  "DW_TO_INT (ucast i) (ucast (drop_bit 8 i)) (ucast (drop_bit 16 i)) (ucast (drop_bit 24 i))
     = ucast i" for i :: u64
proof (rule bit_word_eqI)
  fix n assume "n < LENGTH(32)"
  then show "bit (DW_TO_INT (ucast i) (ucast (drop_bit 8 i)) (ucast (drop_bit 16 i))
      (ucast (drop_bit 24 i))) n = bit (ucast i :: u32) n"
    by (cases "n < 8"; cases "n < 16"; cases "n < 24")
      (auto simp: DW_TO_INT_def bit_simps)
qed

text \<open>
  Reading back an eight-byte value: the four low bytes come back as written, and the result
  is the value only where the sign of the low half does not spill into the high half.
\<close>

lemma bit_QW_TO_LONG_bytes:
  "bit (QW_TO_LONG (ucast i) (ucast (drop_bit 8 i)) (ucast (drop_bit 16 i)) (ucast (drop_bit 24 i))
      (ucast (drop_bit 32 i)) (ucast (drop_bit 40 i)) (ucast (drop_bit 48 i))
      (ucast (drop_bit 56 i))) n
    \<longleftrightarrow> n < 64 \<and> (bit i n \<or> 32 \<le> n \<and> bit i 31)" for i :: u64
  unfolding QW_TO_LONG_def DW_TO_INT_low_bytes
  by (cases "n = 31"; cases "n < 32"; cases "n < 40"; cases "n < 48"; cases "n < 56";
      cases "n < 64")
    (auto simp: bit_simps min_def)

lemma word_mod_less: "a < b \<Longrightarrow> a mod b = a" for a b :: "'a::len word"
  by (simp add: word_unat_eq_iff unat_mod word_less_nat_alt)

end
