(* ===== verification/Posix_Dev.thy ===== *)
theory Posix_Dev
  imports C_Prelude
begin

text \<open>
  The system calls the sensor driver makes on its character devices. The kernel is not part
  of the repository: it is the record \<open>posix\<close> of functions over a world of type \<open>'w\<close>,
  an argument of every definition that calls it. \<open>sys_read\<close> returns the call's value and
  the bytes it stored; the driver sees a prefix of its buffer overwritten with them.
  \<open>stack_junk\<close> is what an uninitialised automatic variable or array element holds.
\<close>

record 'w posix =
  sys_open :: "string \<Rightarrow> 'w \<Rightarrow> int \<times> 'w"
  sys_close :: "int \<Rightarrow> 'w \<Rightarrow> 'w"
  sys_read :: "int \<Rightarrow> nat \<Rightarrow> 'w \<Rightarrow> int \<times> u8 list \<times> 'w"
  sys_write :: "int \<Rightarrow> u8 list \<Rightarrow> 'w \<Rightarrow> int \<times> 'w"
  sys_ioctl :: "int \<Rightarrow> int \<Rightarrow> int \<Rightarrow> 'w \<Rightarrow> int \<times> 'w"
  stack_junk :: "'w \<Rightarrow> nat \<Rightarrow> u8"

text \<open>The buffer after a \<^verbatim>\<open>read\<close> that returned \<open>ret\<close> and stored \<open>bs\<close>.\<close>

definition after_read :: "'a list \<Rightarrow> int \<Rightarrow> 'a list \<Rightarrow> 'a list" where
  "after_read buf ret bs =
     (let got = take (length buf) (take (nat ret) bs) in got @ drop (length got) buf)"

lemma length_after_read [simp]: "length (after_read buf ret bs) = length buf"
  by (simp add: after_read_def Let_def)

lemma after_read_failed [simp]: "ret \<le> 0 \<Longrightarrow> after_read buf ret bs = buf"
  by (simp add: after_read_def)

text \<open>An array of \<open>n\<close> uninitialised bytes.\<close>

definition junk_array :: "'w posix \<Rightarrow> 'w \<Rightarrow> nat \<Rightarrow> u8 list" where
  "junk_array os w n = map (stack_junk os w) [0..<n]"

lemma length_junk_array [simp]: "length (junk_array os w n) = n"
  by (simp add: junk_array_def)

text \<open>
  A tracing kernel: the same world, with the byte strings written to a device appended to a
  log. What is proved about the log holds for whatever the kernel and the device answer.
\<close>

definition traced :: "'w posix \<Rightarrow> ('w \<times> u8 list list) posix" where
  "traced os = \<lparr>
     sys_open = (\<lambda>p (w, l). (let (r, w') = sys_open os p w in (r, (w', l)))),
     sys_close = (\<lambda>fd (w, l). (sys_close os fd w, l)),
     sys_read = (\<lambda>fd n (w, l). (let (r, bs, w') = sys_read os fd n w in (r, bs, (w', l)))),
     sys_write = (\<lambda>fd bs (w, l). (let (r, w') = sys_write os fd bs w in (r, (w', l @ [bs])))),
     sys_ioctl = (\<lambda>fd r a (w, l). (let (x, w') = sys_ioctl os fd r a w in (x, (w', l)))),
     stack_junk = (\<lambda>(w, l). stack_junk os w) \<rparr>"

lemma traced_write [simp]:
  "sys_write (traced os) fd bs s
     = (fst (sys_write os fd bs (fst s)), (snd (sys_write os fd bs (fst s)), snd s @ [bs]))"
  by (simp add: traced_def split: prod.splits)

lemma traced_read [simp]:
  "sys_read (traced os) fd n s
     = (fst (sys_read os fd n (fst s)), fst (snd (sys_read os fd n (fst s))),
        (snd (snd (sys_read os fd n (fst s))), snd s))"
  by (simp add: traced_def split: prod.splits)

end
