(* ===== verification/Rc522.thy ===== *)
theory Rc522
  imports Posix_Dev
begin

text \<open>
  The RFID reader driver, \<^verbatim>\<open>sensordriver/src/main/jni/com_bupt_sensordriver_rfid.c\<close>:
  register access over the SPI character device, the RC522 command exchange
  (\<open>PcdComMF522\<close>), the card operations built on it, and the JNI entry points. The state of
  the file's three globals is the record \<open>rfid\<close>; \<open>usleep\<close>, \<open>printf\<close> and the Android log
  have no effect the model could show and are left out.
\<close>

section \<open>Constants of spidev_test.h\<close>

abbreviation (input) "MAXRLEN \<equiv> 18 :: nat"

abbreviation (input) "PCD_IDLE \<equiv> 0x00 :: u8"
abbreviation (input) "PCD_AUTHENT \<equiv> 0x0E :: u8"
abbreviation (input) "PCD_TRANSCEIVE \<equiv> 0x0C :: u8"
abbreviation (input) "PCD_RESETPHASE \<equiv> 0x0F :: u8"
abbreviation (input) "PICC_ANTICOLL1 \<equiv> 0x93 :: u8"

abbreviation (input) "CommandReg \<equiv> 0x01 :: u8"
abbreviation (input) "ComIEnReg \<equiv> 0x02 :: u8"
abbreviation (input) "ComIrqReg \<equiv> 0x04 :: u8"
abbreviation (input) "ErrorReg \<equiv> 0x06 :: u8"
abbreviation (input) "Status2Reg \<equiv> 0x08 :: u8"
abbreviation (input) "FIFODataReg \<equiv> 0x09 :: u8"
abbreviation (input) "FIFOLevelReg \<equiv> 0x0A :: u8"
abbreviation (input) "ControlReg \<equiv> 0x0C :: u8"
abbreviation (input) "BitFramingReg \<equiv> 0x0D :: u8"
abbreviation (input) "CollReg \<equiv> 0x0E :: u8"
abbreviation (input) "ModeReg \<equiv> 0x11 :: u8"
abbreviation (input) "TxControlReg \<equiv> 0x14 :: u8"
abbreviation (input) "TxASKReg \<equiv> 0x15 :: u8"
abbreviation (input) "TModeReg \<equiv> 0x2A :: u8"
abbreviation (input) "TPrescalerReg \<equiv> 0x2B :: u8"
abbreviation (input) "TReloadRegH \<equiv> 0x2C :: u8"
abbreviation (input) "TReloadRegL \<equiv> 0x2D :: u8"
abbreviation (input) "VersionReg \<equiv> 0x37 :: u8"

abbreviation (input) "MI_OK \<equiv> 0 :: u8"
abbreviation (input) "MI_ERR \<equiv> 0xFE :: u8"
abbreviation (input) "MI_NOTAGERR \<equiv> 0xFF :: u8"

section \<open>Register access\<close>

text \<open>
  A register access is one or two SPI frames. The address byte has the register number in
  bits 6 to 1; bit 7 set asks for a read.
\<close>

definition write_frame :: "u8 \<Rightarrow> u8 \<Rightarrow> u8 list" where
  "write_frame addr data = [push_bit 1 addr AND 0x7E, data]"

definition read_frame :: "u8 \<Rightarrow> u8 list" where
  "read_frame addr = [(push_bit 1 addr OR 0x80) AND NOT 1]"

definition WriteRawRC :: "'w posix \<Rightarrow> int \<Rightarrow> u8 \<Rightarrow> u8 \<Rightarrow> 'w \<Rightarrow> int \<times> 'w" where
  "WriteRawRC os fd addr data w = sys_write os fd (write_frame addr data) w"

definition ReadRawRC :: "'w posix \<Rightarrow> int \<Rightarrow> u8 \<Rightarrow> 'w \<Rightarrow> u8 \<times> 'w" where
  "ReadRawRC os fd addr w =
     (let ReData = stack_junk os w 0;
          (ret, w1) = sys_write os fd (read_frame addr) w;
          (ret, bs, w2) = sys_read os fd 1 w1
      in (hd (after_read [ReData] ret bs), w2))"

definition SetBitMask :: "'w posix \<Rightarrow> int \<Rightarrow> u8 \<Rightarrow> u8 \<Rightarrow> 'w \<Rightarrow> 'w" where
  "SetBitMask os fd reg bits w =
     (let (v, w1) = ReadRawRC os fd reg w; tmp = v OR bits
      in snd (WriteRawRC os fd reg (tmp OR bits) w1))"

definition ClearBitMask :: "'w posix \<Rightarrow> int \<Rightarrow> u8 \<Rightarrow> u8 \<Rightarrow> 'w \<Rightarrow> 'w" where
  "ClearBitMask os fd reg bits w =
     (let (v, w1) = ReadRawRC os fd reg w; tmp = v AND NOT bits
      in snd (WriteRawRC os fd reg tmp w1))"

abbreviation wreg :: "'w posix \<Rightarrow> int \<Rightarrow> u8 \<Rightarrow> u8 \<Rightarrow> 'w \<Rightarrow> 'w" where
  "wreg os fd addr data w \<equiv> snd (WriteRawRC os fd addr data w)"

definition rc522_init :: "'w posix \<Rightarrow> int \<Rightarrow> 'w \<Rightarrow> int \<times> 'w" where
  "rc522_init os fd w =
     (let w = wreg os fd CommandReg PCD_RESETPHASE w;
          w = wreg os fd ModeReg 0x3D w;
          w = wreg os fd TReloadRegL 30 w;
          w = wreg os fd TReloadRegH 0 w;
          w = wreg os fd TModeReg 0x8D w;
          w = wreg os fd TPrescalerReg 0x3E w;
          (version, w) = ReadRawRC os fd VersionReg w
      in (0, w))"

definition PcdAntennaOn :: "'w posix \<Rightarrow> int \<Rightarrow> 'w \<Rightarrow> 'w" where
  "PcdAntennaOn os fd w =
     (let w = wreg os fd TxASKReg 0x40 w;
          (i, w) = ReadRawRC os fd TxControlReg w;
          w = (if i AND 0x03 = 0 then SetBitMask os fd TxControlReg 0x03 w else w);
          (i, w) = ReadRawRC os fd TxASKReg w
      in w)"

section \<open>The command exchange\<close>

text \<open>
  The three loops of \<open>PcdComMF522\<close>: filling the FIFO from the caller's buffer, polling the
  interrupt register, and draining the FIFO into the caller's buffer. The buffers are read and
  written with their bounds. The callers pass the same array for both; every byte is sent
  before the first one is stored, so the two arguments may be one object.
\<close>

fun write_fifo :: "'w posix \<Rightarrow> int \<Rightarrow> u8 list \<Rightarrow> nat \<Rightarrow> nat \<Rightarrow> 'w \<Rightarrow> 'w option" where
  "write_fifo os fd pInData i 0 w = Some w"
| "write_fifo os fd pInData i (Suc k) w =
     do { b \<leftarrow> rd pInData i; write_fifo os fd pInData (Suc i) k (wreg os fd FIFODataReg b w) }"

text \<open>
  The \<^verbatim>\<open>do\<close> loop reads the register, counts down, and goes on while the counter is not
  zero and neither the timer bit nor a bit of \<open>waitFor\<close> is set. It returns the last value
  read and the counter.
\<close>

function poll_irq :: "'w posix \<Rightarrow> int \<Rightarrow> u8 \<Rightarrow> nat \<Rightarrow> 'w \<Rightarrow> u8 \<times> nat \<times> 'w" where
  "poll_irq os fd waitFor i w =
     (let (n, w) = ReadRawRC os fd ComIrqReg w; i' = i - 1
      in if i' \<noteq> 0 \<and> n AND 0x01 = 0 \<and> n AND waitFor = 0
         then poll_irq os fd waitFor i' w
         else (n, i', w))"
  by pat_completeness auto
termination
  by (relation "measure (\<lambda>(os, fd, waitFor, i, w). i)") auto

declare poll_irq.simps [simp del]

fun read_fifo :: "'w posix \<Rightarrow> int \<Rightarrow> u8 list \<Rightarrow> nat \<Rightarrow> nat \<Rightarrow> 'w \<Rightarrow> (u8 list \<times> 'w) option" where
  "read_fifo os fd pOutData i 0 w = Some (pOutData, w)"
| "read_fifo os fd pOutData i (Suc k) w =
     (let (v, w) = ReadRawRC os fd FIFODataReg w
      in do { pOutData' \<leftarrow> wr pOutData i v; read_fifo os fd pOutData' (Suc i) k w })"

text \<open>The interrupt enable mask and the bits to wait for, by command.\<close>

definition irq_masks :: "u8 \<Rightarrow> u8 \<times> u8" where
  "irq_masks Command =
     (if Command = PCD_AUTHENT then (0x12, 0x10)
      else if Command = PCD_TRANSCEIVE then (0x77, 0x30)
      else (0, 0))"

text \<open>
  The number of received bits: \<^verbatim>\<open>(n-1)*8 + lastBits\<close> is an \<^verbatim>\<open>int\<close> that is stored
  in an \<^verbatim>\<open>unsigned int\<close>, so it is computed modulo \<open>2 ^ 32\<close>.
\<close>

definition rx_bits :: "u8 \<Rightarrow> u8 \<Rightarrow> u32" where
  "rx_bits n lastBits =
     (if lastBits \<noteq> 0 then (ucast n - 1) * 8 + ucast lastBits else ucast n * 8)"

definition clip_len :: "u8 \<Rightarrow> nat" where
  "clip_len n = (let n = (if n = 0 then 1 else unat n) in if n > MAXRLEN then MAXRLEN else n)"

text \<open>The branch taken when the card answered: status, output buffer, bit count.\<close>

definition fetch_answer ::
  "'w posix \<Rightarrow> int \<Rightarrow> u8 \<Rightarrow> u8 \<Rightarrow> u8 \<Rightarrow> u8 list \<Rightarrow> u32 option \<Rightarrow> 'w
     \<Rightarrow> (u8 \<times> u8 list \<times> u32 option \<times> 'w) option" where
  "fetch_answer os fd Command n irqEn pOutData pOutLenBit w =
     (let (e, w) = ReadRawRC os fd ErrorReg w
      in if e AND 0x1B = 0 then
           (let status = (if n AND irqEn AND 0x01 \<noteq> 0 then MI_NOTAGERR else MI_OK)
            in if Command = PCD_TRANSCEIVE then
                 (let (n, w) = ReadRawRC os fd FIFOLevelReg w;
                      (c, w) = ReadRawRC os fd ControlReg w;
                      lastBits = c AND 0x07
                  in do { (out, w) \<leftarrow> read_fifo os fd pOutData 0 (clip_len n) w;
                          Some (status, out, Some (rx_bits n lastBits), w) })
               else Some (status, pOutData, pOutLenBit, w))
         else Some (MI_ERR, pOutData, pOutLenBit, w))"

text \<open>The function in its order: set up, fill the FIFO, start, poll, answer, stop.\<close>

definition com_setup :: "'w posix \<Rightarrow> int \<Rightarrow> u8 \<Rightarrow> 'w \<Rightarrow> 'w" where
  "com_setup os fd Command w =
     (let w = wreg os fd ComIEnReg (fst (irq_masks Command) OR 0x80) w;
          w = ClearBitMask os fd ComIrqReg 0x80 w;
          w = wreg os fd CommandReg PCD_IDLE w
      in SetBitMask os fd FIFOLevelReg 0x80 w)"

definition com_start :: "'w posix \<Rightarrow> int \<Rightarrow> u8 \<Rightarrow> 'w \<Rightarrow> 'w" where
  "com_start os fd Command w =
     (let w = wreg os fd CommandReg Command w
      in if Command = PCD_TRANSCEIVE then SetBitMask os fd BitFramingReg 0x80 w else w)"

definition com_answer ::
  "'w posix \<Rightarrow> int \<Rightarrow> u8 \<Rightarrow> u8 \<Rightarrow> nat \<Rightarrow> u8 list \<Rightarrow> u32 option \<Rightarrow> 'w
     \<Rightarrow> (u8 \<times> u8 list \<times> u32 option \<times> 'w) option" where
  "com_answer os fd Command n i pOutData pOutLenBit w =
     (let w = ClearBitMask os fd BitFramingReg 0x80 w
      in if i \<noteq> 0 then fetch_answer os fd Command n (fst (irq_masks Command)) pOutData pOutLenBit w
         else Some (MI_ERR, pOutData, pOutLenBit, w))"

definition com_stop :: "'w posix \<Rightarrow> int \<Rightarrow> 'w \<Rightarrow> 'w" where
  "com_stop os fd w = wreg os fd CommandReg PCD_IDLE (SetBitMask os fd ControlReg 0x80 w)"

definition PcdComMF522 ::
  "'w posix \<Rightarrow> int \<Rightarrow> u8 \<Rightarrow> u8 list \<Rightarrow> u8 \<Rightarrow> u8 list \<Rightarrow> u32 option \<Rightarrow> 'w
     \<Rightarrow> (u8 \<times> u8 list \<times> u32 option \<times> 'w) option" where
  "PcdComMF522 os fd Command pInData InLenByte pOutData pOutLenBit w =
     do { w \<leftarrow> write_fifo os fd pInData 0 (unat InLenByte) (com_setup os fd Command w);
          let (n, i, w) =
            poll_irq os fd (snd (irq_masks Command)) 6000 (com_start os fd Command w);
          (status, out, bits, w) \<leftarrow> com_answer os fd Command n i pOutData pOutLenBit w;
          Some (status, out, bits, com_stop os fd w) }"

section \<open>Card operations\<close>

text \<open>
  \<open>PcdRequest\<close>: the answer to a request must be exactly 16 bits long. Comparing an
  \<open>unLen\<close> that was never assigned is undefined. Results: status and the two-byte tag type.
\<close>

definition PcdRequest ::
  "'w posix \<Rightarrow> int \<Rightarrow> u8 \<Rightarrow> u8 list \<Rightarrow> 'w \<Rightarrow> (u8 \<times> u8 list \<times> 'w) option" where
  "PcdRequest os fd req_code pTagType w =
     (let buf = junk_array os w MAXRLEN;
          w = ClearBitMask os fd Status2Reg 0x08 w;
          w = wreg os fd BitFramingReg 0x07 w;
          w = SetBitMask os fd TxControlReg 0x03 w
      in do {
        buf \<leftarrow> wr buf 0 req_code;
        (status, buf, unLen, w) \<leftarrow> PcdComMF522 os fd PCD_TRANSCEIVE buf 1 buf None w;
        matched \<leftarrow> (if status = MI_OK then map_option (\<lambda>n. n = 0x10) unLen else Some False);
        if matched then do {
          b0 \<leftarrow> rd buf 0;
          tag \<leftarrow> wr pTagType 0 b0;
          b1 \<leftarrow> rd buf 1;
          tag \<leftarrow> wr tag 1 b1;
          Some (status, tag, w) }
        else Some (MI_ERR, pTagType, w) })"

text \<open>
  The serial number loop of \<open>PcdAnticoll\<close>: four bytes are copied out and folded into the
  check byte with exclusive or; the fifth byte of the buffer is compared with the result.
\<close>

fun copy_snr :: "u8 list \<Rightarrow> nat \<Rightarrow> nat \<Rightarrow> u8 list \<Rightarrow> u8 \<Rightarrow> (u8 list \<times> u8) option" where
  "copy_snr buf i 0 pSnr snr_check = Some (pSnr, snr_check)"
| "copy_snr buf i (Suc k) pSnr snr_check =
     do { b \<leftarrow> rd buf i; pSnr' \<leftarrow> wr pSnr i b; copy_snr buf (Suc i) k pSnr' (snr_check XOR b) }"

definition PcdAnticoll ::
  "'w posix \<Rightarrow> int \<Rightarrow> u8 list \<Rightarrow> 'w \<Rightarrow> (u8 \<times> u8 list \<times> 'w) option" where
  "PcdAnticoll os fd pSnr w =
     (let buf = junk_array os w MAXRLEN;
          w = ClearBitMask os fd Status2Reg 0x08 w;
          w = wreg os fd BitFramingReg 0x00 w;
          w = ClearBitMask os fd CollReg 0x80 w
      in do {
        buf \<leftarrow> wr buf 0 PICC_ANTICOLL1;
        buf \<leftarrow> wr buf 1 0x20;
        (status, buf, unLen, w) \<leftarrow> PcdComMF522 os fd PCD_TRANSCEIVE buf 2 buf None w;
        (status, pSnr) \<leftarrow>
          (if status = MI_OK then do {
             (pSnr, snr_check) \<leftarrow> copy_snr buf 0 4 pSnr 0;
             b4 \<leftarrow> rd buf 4;
             Some (if snr_check \<noteq> b4 then MI_ERR else status, pSnr) }
           else Some (status, pSnr));
        Some (status, pSnr, SetBitMask os fd CollReg 0x80 w) })"

section \<open>Reading a card and the JNI entry points\<close>

record rfid =
  rfid_fd :: int
  UID :: "u8 list"
  Temp :: "u8 list"

text \<open>The globals at load time.\<close>

definition rfid_init :: rfid where
  "rfid_init = \<lparr>rfid_fd = 0, UID = replicate 5 0, Temp = replicate 4 0\<rparr>"

definition Auto_Reader :: "'w posix \<Rightarrow> rfid \<Rightarrow> 'w \<Rightarrow> (int \<times> rfid \<times> 'w) option" where
  "Auto_Reader os s w =
     (let s = s\<lparr>UID := replicate 5 0\<rparr>
      in do {
        (status, tag, w) \<leftarrow> PcdRequest os (rfid_fd s) 0x52 (Temp s) w;
        let s = s\<lparr>Temp := tag\<rparr>;
        if status = MI_OK then do {
          (status, snr, w) \<leftarrow> PcdAnticoll os (rfid_fd s) (UID s) w;
          let s = s\<lparr>UID := snr\<rparr>;
          if status = MI_OK then do {
            (_, tag, w) \<leftarrow> PcdRequest os (rfid_fd s) 0x52 (Temp s) w;
            Some (4, s\<lparr>Temp := tag\<rparr>, w) }
          else Some (0, s, w) }
        else Some (0, s, w) })"

definition rfid_Open :: "'w posix \<Rightarrow> rfid \<Rightarrow> 'w \<Rightarrow> rfid \<times> 'w" where
  "rfid_Open os s w =
     (let (s, w) = (if rfid_fd s \<le> 0
                    then (let (r, w) = sys_open os ''/dev/rc522'' w in (s\<lparr>rfid_fd := r\<rparr>, w))
                    else (s, w))
      in if rfid_fd s \<le> 0 then (s, w)
         else (let (_, w) = rc522_init os (rfid_fd s) w in (s, PcdAntennaOn os (rfid_fd s) w)))"

definition rfid_Close :: "'w posix \<Rightarrow> rfid \<Rightarrow> 'w \<Rightarrow> rfid \<times> 'w" where
  "rfid_Close os s w = (if rfid_fd s > 0 then (s, sys_close os (rfid_fd s) w) else (s, w))"

definition rfid_Ioctl :: "'w posix \<Rightarrow> int \<Rightarrow> int \<Rightarrow> rfid \<Rightarrow> 'w \<Rightarrow> rfid \<times> 'w" where
  "rfid_Ioctl os num en s w = (s, snd (sys_ioctl os (rfid_fd s) en num w))"

text \<open>
  The array results: \<open>None\<close> inside is Java's null. \<^verbatim>\<open>Read\<close> copies the bytes the kernel
  stored; a kernel that claims more than the buffer holds would make the loop overrun it.
\<close>

definition rfid_Read :: "'w posix \<Rightarrow> rfid \<Rightarrow> 'w \<Rightarrow> (int list option \<times> 'w) option" where
  "rfid_Read os s w =
     (let (len, bs, w) = sys_read os (rfid_fd s) 512 w;
          buffer = after_read (replicate 512 0) len bs
      in if len \<le> 0 then Some (None, w)
         else if nat len \<le> 512 then Some (Some (map uint (take (nat len) buffer)), w)
         else None)"

definition rfid_ReadCardNum ::
  "'w posix \<Rightarrow> rfid \<Rightarrow> 'w \<Rightarrow> (u8 list option \<times> rfid \<times> 'w) option" where
  "rfid_ReadCardNum os s w =
     do { (len, s, w) \<leftarrow> Auto_Reader os s w;
          if len \<le> 0 then Some (None, s, w)
          else do { array \<leftarrow> rd_bytes (UID s) 0 (nat len); Some (Some array, s, w) } }"

section \<open>The SPI frames\<close>

lemma u8_bits: "(\<forall>n < 8. P n) \<longleftrightarrow> P 0 \<and> P 1 \<and> P 2 \<and> P 3 \<and> P 4 \<and> P 5 \<and> P 6 \<and> P (7::nat)"
  by (simp add: numeral_eq_Suc less_Suc_eq all_conj_distrib)

lemma bit_read_frame:
  assumes "n < 8" shows "bit (hd (read_frame addr)) n \<longleftrightarrow> n = 7 \<or> 0 < n \<and> bit addr (n - 1)"
proof -
  have "\<forall>n < 8. bit (hd (read_frame addr)) n \<longleftrightarrow> n = 7 \<or> 0 < n \<and> bit addr (n - 1)"
    unfolding u8_bits read_frame_def list.sel bit_or_iff bit_and_iff bit_push_bit_iff bit_not_iff
    by simp
  with assms show ?thesis by blast
qed

lemma bit_write_frame:
  assumes "n < 8"
  shows "bit (hd (write_frame addr data)) n \<longleftrightarrow> n \<noteq> 7 \<and> 0 < n \<and> bit addr (n - 1)"
proof -
  have "\<forall>n < 8. bit (hd (write_frame addr data)) n \<longleftrightarrow> n \<noteq> 7 \<and> 0 < n \<and> bit addr (n - 1)"
    unfolding u8_bits write_frame_def list.sel bit_or_iff bit_and_iff bit_push_bit_iff bit_not_iff
    by simp
  with assms show ?thesis by blast
qed

lemma and_3F: "x AND 0x3F = take_bit 6 x" for x :: u8
  by (simp add: take_bit_eq_mask mask_eq_exp_minus_1)

lemma write_frame_addr: "drop_bit 1 (hd (write_frame addr data)) AND 0x3F = take_bit 6 addr"
  unfolding and_3F
  by (rule bit_word_eqI) (auto simp: bit_take_bit_iff bit_drop_bit_eq bit_write_frame)

lemma read_frame_addr: "drop_bit 1 (hd (read_frame addr)) AND 0x3F = take_bit 6 addr"
  unfolding and_3F
  by (rule bit_word_eqI) (auto simp: bit_take_bit_iff bit_drop_bit_eq bit_read_frame)

lemma take_bit_6_addr: "addr < 64 \<Longrightarrow> take_bit 6 addr = addr" for addr :: u8
  by (simp add: take_bit_eq_mod word_mod_less)

section \<open>What goes over the wire\<close>

text \<open>
  \<open>sent s s' n\<close>: between two states of a traced run at most \<open>n\<close> frames were written.
\<close>
definition sent :: "'w \<times> u8 list list \<Rightarrow> 'w \<times> u8 list list \<Rightarrow> nat \<Rightarrow> bool" where
  "sent s s' n \<longleftrightarrow> (\<exists>l. snd s' = snd s @ l \<and> length l \<le> n)"

lemma sent_refl: "sent s s 0"
  by (simp add: sent_def)

lemma sent_trans: "sent s s' m \<Longrightarrow> sent s' s'' n \<Longrightarrow> m + n \<le> k \<Longrightarrow> sent s s'' k"
  by (fastforce simp: sent_def)

lemma sent_wreg: "sent s (wreg (traced os) h a d s) 1"
  by (simp add: sent_def WriteRawRC_def)

lemma log_wreg [simp]: "snd (wreg (traced os) h a d s) = snd s @ [write_frame a d]"
  by (simp add: WriteRawRC_def)

lemma log_ReadRawRC: "ReadRawRC (traced os) h a s = (v, s') \<Longrightarrow> snd s' = snd s @ [read_frame a]"
  by (auto simp: ReadRawRC_def)

lemma log_SetBitMask:
  "\<exists>v. snd (SetBitMask (traced os) h a m s) = snd s @ [read_frame a, write_frame a (v OR m)]"
  by (auto simp: SetBitMask_def dest!: log_ReadRawRC split: prod.splits)

lemma log_ClearBitMask:
  "\<exists>v. snd (ClearBitMask (traced os) h a m s) = snd s @ [read_frame a, write_frame a (v AND NOT m)]"
  by (auto simp: ClearBitMask_def dest!: log_ReadRawRC split: prod.splits)

lemma sent_ReadRawRC: "ReadRawRC (traced os) h a s = (v, s') \<Longrightarrow> sent s s' 1"
  by (auto simp: sent_def dest: log_ReadRawRC)
lemma sent_SetBitMask: "sent s (SetBitMask (traced os) h a m s) 2"
  using log_SetBitMask [of os h a m s] by (auto simp: sent_def)
lemma sent_ClearBitMask: "sent s (ClearBitMask (traced os) h a m s) 2"
  using log_ClearBitMask [of os h a m s] by (auto simp: sent_def)

lemma sent_write_fifo: "write_fifo (traced os) h p i k s = Some s' \<Longrightarrow> sent s s' k"
proof (induction k arbitrary: i s)
  case 0
  then show ?case by (simp add: sent_refl)
next
  case (Suc k)
  then obtain b where "write_fifo (traced os) h p (Suc i) k (wreg (traced os) h FIFODataReg b s) = Some s'"
    by (auto simp: ub_simps)
  then have "sent (wreg (traced os) h FIFODataReg b s) s' k" by (rule Suc.IH)
  with sent_wreg show ?case by (rule sent_trans) simp
qed

lemma poll_irq_unfold:
  "ReadRawRC os h ComIrqReg w = (v, w1) \<Longrightarrow> poll_irq os h wt i w =
     (if i - 1 \<noteq> 0 \<and> v AND 0x01 = 0 \<and> v AND wt = 0 then poll_irq os h wt (i - 1) w1
      else (v, i - 1, w1))"
  by (subst poll_irq.simps) (simp add: Let_def)

lemma sent_poll_irq: "poll_irq (traced os) h wt i s = (n, i', s') \<Longrightarrow> sent s s' (max 1 i)"
proof (induction "traced os" h wt i s rule: poll_irq.induct)
  case (1 h wt i s)
  obtain v s1 where r: "ReadRawRC (traced os) h ComIrqReg s = (v, s1)" by (rule prod.exhaust)
  from "1.prems" r consider "(n, i', s') = (v, i - 1, s1)"
    | "poll_irq (traced os) h wt (i - 1) s1 = (n, i', s')" "1 < i" "sent s1 s' (max 1 (i - 1))"
    using "1.hyps" [OF r [symmetric] refl refl]
    unfolding poll_irq_unfold [OF r] by (auto split: if_splits)
  then show ?case
  proof cases
    case 1
    with sent_ReadRawRC [OF r] show ?thesis by (auto simp: sent_def)
  next
    case 2
    show ?thesis
      by (rule sent_trans [OF sent_ReadRawRC [OF r] 2(3)]) (use 2 in simp)
  qed
qed

lemma sent_read_fifo: "read_fifo (traced os) h p i k s = Some (p', s') \<Longrightarrow> sent s s' k"
proof (induction k arbitrary: i p s)
  case 0
  then show ?case by (simp add: sent_refl)
next
  case (Suc k)
  obtain v s1 where r: "ReadRawRC (traced os) h FIFODataReg s = (v, s1)" by (rule prod.exhaust)
  with Suc.prems obtain q where "read_fifo (traced os) h q (Suc i) k s1 = Some (p', s')"
    by (auto simp: ub_simps)
  then have "sent s1 s' k" by (rule Suc.IH)
  with sent_ReadRawRC [OF r] show ?case by (rule sent_trans) simp
qed

lemma sent_fetch_answer:
  assumes "fetch_answer (traced os) h c n e out bl s = Some (st, out', bl', s')"
  shows "sent s s' 21"
proof -
  obtain v s1 where r: "ReadRawRC (traced os) h ErrorReg s = (v, s1)" by (rule prod.exhaust)
  obtain n' s2 where r2: "ReadRawRC (traced os) h FIFOLevelReg s1 = (n', s2)" by (rule prod.exhaust)
  obtain v' s3 where r3: "ReadRawRC (traced os) h ControlReg s2 = (v', s3)" by (rule prod.exhaust)
  have c: "clip_len n' \<le> 18" by (simp add: clip_len_def Let_def)
  consider "s' = s1" | q where "read_fifo (traced os) h out 0 (clip_len n') s3 = Some (q, s')"
    using assms r r2 r3 by (auto simp: fetch_answer_def ub_simps split: if_splits)
  then show ?thesis
  proof cases
    case 1
    with sent_ReadRawRC [OF r] show ?thesis by (auto simp: sent_def)
  next
    case 2
    have "sent s s3 3"
      by (rule sent_trans [OF sent_ReadRawRC [OF r] sent_trans [OF sent_ReadRawRC [OF r2] sent_ReadRawRC [OF r3] order_refl]]) simp
    then show ?thesis by (rule sent_trans [OF _ sent_read_fifo [OF 2]]) (use c in simp)
  qed
qed

section \<open>No undefined behaviour in the exchange\<close>

lemma write_fifo_total:
  "i + k \<le> length p \<Longrightarrow> \<exists>w'. write_fifo os h p i k w = Some w'"
  by (induction k arbitrary: i w) auto

lemma drop_list_update_le: "i < n \<Longrightarrow> drop n (xs[i := v]) = drop n xs"
  by (simp add: drop_update_swap)

lemma read_fifo_total:
  "i + k \<le> length p \<Longrightarrow> \<exists>p' w'. read_fifo os h p i k w = Some (p', w')
     \<and> length p' = length p \<and> drop (i + k) p' = drop (i + k) p"
proof (induction k arbitrary: i p w)
  case 0
  then show ?case by simp
next
  case (Suc k)
  obtain v w1 where r: "ReadRawRC os h FIFODataReg w = (v, w1)" by (rule prod.exhaust)
  from Suc.prems have "Suc i + k \<le> length (p[i := v])" by simp
  from Suc.IH [OF this, of w1] Suc.prems r show ?case by auto
qed

lemma clip_len_le: "clip_len n \<le> 18"
  by (simp add: clip_len_def Let_def)

lemma fetch_answer_total:
  assumes "18 \<le> length out"
  shows "\<exists>st out' bl' w'. fetch_answer os h c n e out bl w = Some (st, out', bl', w')
    \<and> length out' = length out \<and> drop 18 out' = drop 18 out
    \<and> (st = MI_OK \<and> c = PCD_TRANSCEIVE \<longrightarrow> bl' \<noteq> None) \<and> st \<in> {MI_OK, MI_ERR, MI_NOTAGERR}"
proof -
  obtain v s1 where r: "ReadRawRC os h ErrorReg w = (v, s1)" by (rule prod.exhaust)
  obtain n' s2 where r2: "ReadRawRC os h FIFOLevelReg s1 = (n', s2)" by (rule prod.exhaust)
  obtain v' s3 where r3: "ReadRawRC os h ControlReg s2 = (v', s3)" by (rule prod.exhaust)
  have "0 + clip_len n' \<le> length out" using clip_len_le [of n'] assms by simp
  from read_fifo_total [OF this, of os h s3] obtain p' w' where
    f: "read_fifo os h out 0 (clip_len n') s3 = Some (p', w')"
    and l: "length p' = length out" and d: "drop (clip_len n') p' = drop (clip_len n') out" by auto
  have "drop 18 p' = drop 18 out"
    using arg_cong [OF d, of "drop (18 - clip_len n')"] clip_len_le [of n'] by simp
  with r r2 r3 f l show ?thesis by (simp add: fetch_answer_def)
qed


lemma com_answer_total:
  assumes "18 \<le> length out"
  shows "\<exists>st out' bl' w'. com_answer os h c n i out bl w = Some (st, out', bl', w')
    \<and> length out' = length out \<and> drop 18 out' = drop 18 out
    \<and> (st = MI_OK \<and> c = PCD_TRANSCEIVE \<longrightarrow> bl' \<noteq> None) \<and> st \<in> {MI_OK, MI_ERR, MI_NOTAGERR}"
  using fetch_answer_total [OF assms] by (auto simp: com_answer_def Let_def)

lemma PcdComMF522_returns:
  assumes "unat n \<le> length pin" "18 \<le> length out"
  shows "\<exists>st out' bl' w'. PcdComMF522 os h c pin n out bl w = Some (st, out', bl', w')
    \<and> length out' = length out \<and> drop 18 out' = drop 18 out
    \<and> (st = MI_OK \<and> c = PCD_TRANSCEIVE \<longrightarrow> bl' \<noteq> None) \<and> st \<in> {MI_OK, MI_ERR, MI_NOTAGERR}"
proof -
  obtain w2 where w2: "write_fifo os h pin 0 (unat n) (com_setup os h c w) = Some w2"
    using write_fifo_total [of 0 "unat n" pin os h "com_setup os h c w"] assms by auto
  obtain q i w5 where q: "poll_irq os h (snd (irq_masks c)) 6000 (com_start os h c w2) = (q, i, w5)"
    by (rule prod_cases3)
  from com_answer_total [OF assms(2), of os h c q i bl w5] w2 q show ?thesis
    by (auto simp: PcdComMF522_def)
qed

lemma PcdComMF522_cases:
  assumes "PcdComMF522 os h c pin n out bl w = Some (st, out', bl', w')"
  obtains w2 q i w5 w7 where
    "write_fifo os h pin 0 (unat n) (com_setup os h c w) = Some w2"
    "poll_irq os h (snd (irq_masks c)) 6000 (com_start os h c w2) = (q, i, w5)"
    "com_answer os h c q i out bl w5 = Some (st, out', bl', w7)"
    "w' = com_stop os h w7"
proof -
  from assms obtain w2 where w2: "write_fifo os h pin 0 (unat n) (com_setup os h c w) = Some w2"
    by (cases "write_fifo os h pin 0 (unat n) (com_setup os h c w)") (auto simp: PcdComMF522_def)
  obtain q i w5 where q: "poll_irq os h (snd (irq_masks c)) 6000 (com_start os h c w2) = (q, i, w5)"
    by (rule prod_cases3)
  from assms w2 q obtain w7 where "com_answer os h c q i out bl w5 = Some (st, out', bl', w7)"
    "w' = com_stop os h w7" by (auto simp: PcdComMF522_def ub_simps)
  with w2 q show thesis by (rule that)
qed

lemma sent_com_setup: "sent s (com_setup (traced os) h c s) 6"
  unfolding com_setup_def Let_def
  by (rule sent_trans [OF sent_trans [OF sent_trans [OF sent_wreg sent_ClearBitMask order_refl]
      sent_wreg order_refl] sent_SetBitMask]) simp

lemma sent_com_start: "sent s (com_start (traced os) h c s) 3"
  unfolding com_start_def Let_def
  by (auto intro: sent_trans [OF sent_wreg sent_SetBitMask] sent_trans [OF sent_wreg sent_refl])

lemma sent_com_answer:
  assumes "com_answer (traced os) h c n i out bl s = Some (st, out', bl', s')"
  shows "sent s s' 23"
proof (cases "i = 0")
  case True
  with assms have "s' = ClearBitMask (traced os) h BitFramingReg 0x80 s"
    by (simp add: com_answer_def)
  then show ?thesis by (auto intro: sent_trans [OF sent_ClearBitMask sent_refl])
next
  case False
  with assms have "fetch_answer (traced os) h c n (fst (irq_masks c)) out bl
      (ClearBitMask (traced os) h BitFramingReg 0x80 s) = Some (st, out', bl', s')"
    by (simp add: com_answer_def)
  from sent_fetch_answer [OF this] show ?thesis
    by (rule sent_trans [OF sent_ClearBitMask]) simp
qed

section \<open>What a status of MI_OK means\<close>

lemma poll_irq_seen:
  "poll_irq os h wt i w = (n, i', w') \<Longrightarrow> 0 < i \<Longrightarrow>
     i' < i \<and> (i' \<noteq> 0 \<longrightarrow> n AND 1 \<noteq> 0 \<or> n AND wt \<noteq> 0)"
proof (induction os h wt i w rule: poll_irq.induct)
  case (1 os h wt i w)
  obtain v w1 where r: "ReadRawRC os h ComIrqReg w = (v, w1)" by (rule prod.exhaust)
  show ?case
    using "1.prems" "1.IH" [OF r [symmetric] refl refl]
    unfolding poll_irq_unfold [OF r] by (force split: if_splits)
qed

lemma fetch_answer_ok:
  assumes "fetch_answer os h c n e out bl w = Some (MI_OK, out', bl', w')"
  shows "fst (ReadRawRC os h ErrorReg w) AND 0x1B = 0" "n AND e AND 1 = 0"
  using assms
  by (auto simp: fetch_answer_def ub_simps split: prod.splits if_splits)

lemma PcdRequest_total:
  assumes "2 \<le> length tag"
  shows "\<exists>st tag' w'. PcdRequest os h rq tag w = Some (st, tag', w') \<and> length tag' = length tag
    \<and> st \<in> {MI_OK, MI_ERR}"
proof -
  define buf where "buf = (junk_array os w MAXRLEN)[0 := rq]"
  define w1 where "w1 = SetBitMask os h TxControlReg 0x03 (wreg os h BitFramingReg 0x07
      (ClearBitMask os h Status2Reg 0x08 w))"
  have tag: "0 < length tag" "1 < length tag" using assms by auto
  have "unat (1::u8) \<le> length buf" "18 \<le> length buf" by (simp_all add: buf_def)
  from PcdComMF522_returns [OF this, of os h PCD_TRANSCEIVE None w1] obtain st out bl w2 where
    c: "PcdComMF522 os h PCD_TRANSCEIVE buf 1 buf None w1 = Some (st, out, bl, w2)"
    "length out = 18" "st = MI_OK \<longrightarrow> bl \<noteq> None" by (auto simp: buf_def)
  then show ?thesis
    using tag by (auto simp: PcdRequest_def buf_def [symmetric] w1_def [symmetric] Let_def simp del: One_nat_def)
qed


lemma copy_snr_Some:
  "i + k \<le> length buf \<Longrightarrow> i + k \<le> length p \<Longrightarrow>
     copy_snr buf i k p c = Some (take i p @ take k (drop i buf) @ drop (i + k) p,
       foldl (XOR) c (take k (drop i buf)))"
proof (induction k arbitrary: i p c)
  case 0
  then show ?case by simp
next
  case (Suc k)
  then have "take (Suc k) (drop i buf) = buf ! i # take k (drop (Suc i) buf)"
    by (simp add: Cons_nth_drop_Suc [symmetric])
  moreover have "take (Suc i) (p[i := buf ! i]) = take i p @ [buf ! i]"
    using Suc.prems by (simp add: take_Suc_conv_app_nth)
  moreover have "drop (Suc i + k) (p[i := buf ! i]) = drop (Suc i + k) p"
    by simp
  ultimately show ?case using Suc.prems Suc.IH [of "Suc i" "p[i := buf ! i]"] by simp
qed

lemma PcdAnticoll_total:
  assumes "4 \<le> length snr"
  shows "\<exists>st snr' w'. PcdAnticoll os h snr w = Some (st, snr', w') \<and> length snr' = length snr"
proof -
  define buf where "buf = (junk_array os w MAXRLEN)[0 := PICC_ANTICOLL1, 1 := 0x20]"
  define w1 where "w1 = ClearBitMask os h CollReg 0x80 (wreg os h BitFramingReg 0x00
      (ClearBitMask os h Status2Reg 0x08 w))"
  have "unat (2::u8) \<le> length buf" "18 \<le> length buf" by (simp_all add: buf_def)
  from PcdComMF522_returns [OF this, of os h PCD_TRANSCEIVE None w1] obtain st out bl w2 where
    c: "PcdComMF522 os h PCD_TRANSCEIVE buf 2 buf None w1 = Some (st, out, bl, w2)"
    "length out = 18" by (auto simp: buf_def)
  then show ?thesis
    using assms copy_snr_Some [of 0 4 out snr 0]
    by (auto simp: PcdAnticoll_def buf_def [symmetric] w1_def [symmetric] Let_def simp del: One_nat_def)
qed

definition rfid_ok :: "rfid \<Rightarrow> bool" where
  "rfid_ok s \<longleftrightarrow> length (UID s) = 5 \<and> length (Temp s) = 4"

lemma Auto_Reader_total:
  assumes "rfid_ok s"
  shows "\<exists>r s' w'. Auto_Reader os s w = Some (r, s', w') \<and> r \<in> {0, 4} \<and> rfid_ok s'
    \<and> rfid_fd s' = rfid_fd s"
proof -
  have T: "2 \<le> length t" if "length t = 4" for t :: "u8 list" using that by simp
  define u where "u = replicate 5 (0::u8)"
  have U: "4 \<le> length u" "length u = 5" by (simp_all add: u_def)
  from assms have "length (Temp s) = 4" by (simp add: rfid_ok_def)
  from PcdRequest_total [OF T [OF this], of os "rfid_fd s" "0x52" w] this obtain st t w1 where
    1: "PcdRequest os (rfid_fd s) 0x52 (Temp s) w = Some (st, t, w1)" "length t = 4" by auto
  from PcdAnticoll_total [OF U(1), of os "rfid_fd s" w1] U(2) obtain st' u' w2 where
    2: "PcdAnticoll os (rfid_fd s) u w1 = Some (st', u', w2)" "length u' = 5" by auto
  from PcdRequest_total [OF T [OF 1(2)], of os "rfid_fd s" "0x52" w2] 1 obtain st'' t' w3 where
    3: "PcdRequest os (rfid_fd s) 0x52 t w2 = Some (st'', t', w3)" "length t' = 4" by auto
  show ?thesis using 1 2 3 U(2)
    by (auto simp: Auto_Reader_def Let_def rfid_ok_def u_def [symmetric])
qed

section \<open>The chip's registers\<close>

text \<open>
  \<open>register_port\<close> is what the driver's read-modify-write relies on: a register read returns
  the register and changes none, a write changes exactly the register it names.
\<close>

locale register_port =
  fixes rdr :: "u8 \<Rightarrow> 'w \<Rightarrow> u8 \<times> 'w"
    and wrr :: "u8 \<Rightarrow> u8 \<Rightarrow> 'w \<Rightarrow> 'w"
    and reg :: "'w \<Rightarrow> u8 \<Rightarrow> u8"
  assumes rdr_value: "a < 64 \<Longrightarrow> fst (rdr a w) = reg w a"
    and rdr_keeps: "a < 64 \<Longrightarrow> reg (snd (rdr a w)) = reg w"
    and wrr_reg: "a < 64 \<Longrightarrow> reg (wrr a v w) = (reg w)(a := v)"
begin

lemma read_modify_write:
  "a < 64 \<Longrightarrow> rdr a w = (v, w1) \<Longrightarrow> reg (wrr a (f v) w1) = (reg w)(a := f (reg w a))"
  using rdr_value [of a w] rdr_keeps [of a w] by (simp add: wrr_reg)

end

lemma SetBitMask_reg:
  assumes "register_port (ReadRawRC os h) (wreg os h) reg" "a < 64"
  shows "reg (SetBitMask os h a m w) = (reg w)(a := reg w a OR m)"
  using register_port.read_modify_write [OF assms, of w _ _ "\<lambda>v. (v OR m) OR m"]
  by (auto simp: SetBitMask_def or.assoc split: prod.splits)

lemma ClearBitMask_reg:
  assumes "register_port (ReadRawRC os h) (wreg os h) reg" "a < 64"
  shows "reg (ClearBitMask os h a m w) = (reg w)(a := reg w a AND NOT m)"
  using register_port.read_modify_write [OF assms, of w _ _ "\<lambda>v. v AND NOT m"]
  by (auto simp: ClearBitMask_def split: prod.splits)

text \<open>
  A chip that decodes the address byte as the driver's comments give it (bits 6 to 1 the
  register, bit 7 the direction) provides the port through the driver's own frames.
\<close>

type_synonym chip = "(u8 \<Rightarrow> u8) \<times> u8"

definition chip_addr :: "u8 \<Rightarrow> u8" where
  "chip_addr b = drop_bit 1 b AND 0x3F"

definition spi_chip :: "chip posix" where
  "spi_chip = \<lparr>
     sys_open = (\<lambda>p w. (3, w)), sys_close = (\<lambda>h w. w),
     sys_read = (\<lambda>h n (r, sel). (1, [r sel], (r, sel))),
     sys_write = (\<lambda>h bs (r, sel). (int (length bs),
        if bit (hd bs) 7 then (r, chip_addr (hd bs))
        else (r(chip_addr (hd bs) := bs ! 1), sel))),
     sys_ioctl = (\<lambda>h q a w. (0, w)), stack_junk = (\<lambda>w i. 0) \<rparr>"

lemma chip_read: "a < 64 \<Longrightarrow> ReadRawRC spi_chip h a (r, sel) = (r a, (r, a))"
  using read_frame_addr [of a]
  by (simp add: ReadRawRC_def spi_chip_def chip_addr_def take_bit_6_addr
      bit_read_frame after_read_def)

lemma chip_write: "a < 64 \<Longrightarrow> wreg spi_chip h a v (r, sel) = (r(a := v), sel)"
proof -
  have "write_frame a v ! 1 = v" by (simp add: write_frame_def)
  then show "a < 64 \<Longrightarrow> ?thesis"
    using write_frame_addr [of a v]
    by (simp add: WriteRawRC_def spi_chip_def chip_addr_def take_bit_6_addr bit_write_frame)
qed

interpretation chip: register_port "ReadRawRC spi_chip h" "wreg spi_chip h" fst for h
  by unfold_locales (auto simp: chip_read chip_write)



lemma other_open [simp]:
  "WriteRawRC (os\<lparr>sys_open := f\<rparr>) = WriteRawRC os"
  "ReadRawRC (os\<lparr>sys_open := f\<rparr>) = ReadRawRC os"
  by (simp_all add: fun_eq_iff WriteRawRC_def ReadRawRC_def)

lemma other_open_SetBitMask [simp]: "SetBitMask (os\<lparr>sys_open := f\<rparr>) = SetBitMask os"
  by (simp add: fun_eq_iff SetBitMask_def)

lemma other_open_setup [simp]:
  "rc522_init (os\<lparr>sys_open := f\<rparr>) = rc522_init os"
  "PcdAntennaOn (os\<lparr>sys_open := f\<rparr>) = PcdAntennaOn os"
  by (simp_all add: fun_eq_iff rc522_init_def PcdAntennaOn_def cong: if_cong)

lemma ReadCardNum_result:
  assumes "rfid_ok s"
  shows "\<exists>a s' w'. rfid_ReadCardNum os s w = Some (a, s', w') \<and> rfid_ok s'
    \<and> (a = None \<or> a = Some (take 4 (UID s')))"
proof -
  obtain r s' w' where "Auto_Reader os s w = Some (r, s', w')" "r \<in> {0, 4}" "rfid_ok s'"
    using Auto_Reader_total [OF assms, of os w] by blast
  then show ?thesis
    by (cases "r = 0") (simp_all add: rfid_ReadCardNum_def rfid_ok_def)
qed

text \<open>A silent chip: the request is answered with 16 bits, the anticollision with nothing.\<close>

definition silent_chip :: "u8 posix" where
  "silent_chip = \<lparr>
     sys_open = (\<lambda>p w. (3, w)), sys_close = (\<lambda>h w. w),
     sys_read = (\<lambda>h n sel. (1, [if sel = ComIrqReg then 0x30 else if sel = FIFODataReg then 0x20 else 0], sel)),
     sys_write = (\<lambda>h bs sel. (int (length bs), if bit (hd bs) 7 then chip_addr (hd bs) else sel)),
     sys_ioctl = (\<lambda>h q a w. (0, w)), stack_junk = (\<lambda>w i. 0) \<rparr>"

lemma silent_read: "a < 64 \<Longrightarrow> ReadRawRC silent_chip h a sel =
    ((if a = ComIrqReg then 0x30 else if a = FIFODataReg then 0x20 else 0), a)"
  using read_frame_addr [of a]
  by (simp add: ReadRawRC_def silent_chip_def chip_addr_def take_bit_6_addr bit_read_frame after_read_def)

lemma silent_write: "wreg silent_chip h a v sel = sel"
  by (simp add: WriteRawRC_def silent_chip_def bit_write_frame)

lemma silent_poll: "poll_irq silent_chip h 0x30 6000 sel = (0x30, 5999, ComIrqReg)"
  by (subst poll_irq.simps) (simp add: silent_read Let_def)

lemma silent_fifo: "i + k \<le> length p \<Longrightarrow> write_fifo silent_chip h p i k w = Some w"
  by (induction k arbitrary: i) (simp_all add: silent_write)

lemma silent_exchange:
  "PcdComMF522 silent_chip 3 PCD_TRANSCEIVE (147 # 32 # replicate 16 0) 2
      (147 # 32 # replicate 16 0) None w
    = Some (MI_OK, 32 # 32 # replicate 16 0, Some 0, ControlReg)"
  by (simp add: PcdComMF522_def com_setup_def com_start_def com_answer_def com_stop_def
      irq_masks_def fetch_answer_def SetBitMask_def ClearBitMask_def silent_read silent_write
      silent_poll Let_def silent_fifo clip_len_def rx_bits_def)

lemma silent_anticoll:
  "PcdAnticoll silent_chip 3 (replicate 5 0) 0 = Some (MI_OK, [0x20, 0x20, 0, 0, 0], CollReg)"
proof -
  have j: "junk_array silent_chip w n = replicate n 0" for w n
    by (simp add: junk_array_def silent_chip_def map_replicate_const)
  have two: "(replicate 18 0)[0 := 147, Suc 0 := 32] = 147 # 32 # replicate 16 (0::u8)"
      "replicate 5 0 = [0, 0, 0, 0, 0::u8]" "rd xs 4 = rd xs (Suc (Suc (Suc (Suc 0))))"
      "copy_snr xs 0 4 = copy_snr xs 0 (Suc (Suc (Suc (Suc 0))))" for xs
    by (simp_all add: numeral_eq_Suc)
  show ?thesis
    by (simp add: PcdAnticoll_def j SetBitMask_def ClearBitMask_def silent_read silent_write
        Let_def silent_exchange two)
qed

section \<open>Properties\<close>

text \<open>
  The SPI protocol of the driver: for a register number below 64 the write frame is two
  bytes, the address byte with bit 7 and bit 0 clear and the data; the read frame is one byte
  with bit 7 set and bit 0 clear; and bits 6 to 1 of both are the register number.
\<close>
theorem spi_frames:
  assumes "addr < 64"
  shows "\<not> bit (hd (write_frame addr d)) 7 \<and> \<not> bit (hd (write_frame addr d)) 0
    \<and> drop_bit 1 (hd (write_frame addr d)) AND 0x3F = addr
    \<and> tl (write_frame addr d) = [d]
    \<and> bit (hd (read_frame addr)) 7 \<and> \<not> bit (hd (read_frame addr)) 0
    \<and> drop_bit 1 (hd (read_frame addr)) AND 0x3F = addr \<and> tl (read_frame addr) = []"
proof -
  have "tl (write_frame addr d) = [d]" "tl (read_frame addr) = []"
    by (simp_all add: write_frame_def read_frame_def)
  then show ?thesis
    unfolding write_frame_addr read_frame_addr take_bit_6_addr [OF assms]
    by (simp add: bit_write_frame bit_read_frame)
qed

theorem spi_frames_witness:
  "drop_bit 1 (hd (write_frame ControlReg 0x80)) AND 0x3F = ControlReg"
  using spi_frames [of ControlReg "0x80"] by simp

text \<open>
  C33. The command exchange always returns, whatever the chip and the kernel answer: with at
  least \<open>n\<close> bytes of input and an output buffer of at least 18 bytes it has no undefined
  behaviour, stores at most the first 18 bytes of the buffer, and has set the caller's bit
  count when it reports success for a transceive.
\<close>
theorem PcdComMF522_total:
  assumes "unat n \<le> length pin" "18 \<le> length out"
  shows "\<exists>st out' bl' w'. PcdComMF522 os h c pin n out bl w = Some (st, out', bl', w')
    \<and> length out' = length out \<and> drop 18 out' = drop 18 out
    \<and> (st = MI_OK \<and> c = PCD_TRANSCEIVE \<longrightarrow> bl' \<noteq> None) \<and> st \<in> {MI_OK, MI_ERR, MI_NOTAGERR}"
  using assms by (rule PcdComMF522_returns)

theorem PcdComMF522_total_witness:
  "\<exists>r. PcdComMF522 silent_chip 3 PCD_IDLE [1, 2] 2 (replicate 20 0) None 0 = Some r"
  using PcdComMF522_total [of 2 "[1, 2]" "replicate 20 0" silent_chip 3 PCD_IDLE None 0]
  by auto

text \<open>
  C34. However the exchange ends (answer, error, timeout), the last frames it writes stop
  the chip's timer and put it back to the idle command, and the frames before them are
  bounded: 6032 (the 6000 polls of the interrupt register included) and the bytes sent.
\<close>
theorem PcdComMF522_idle:
  assumes "PcdComMF522 (traced os) h c pin n out bl s = Some (st, out', bl', s')"
  shows "\<exists>l v. snd s' = snd s @ l @ [read_frame ControlReg, write_frame ControlReg (v OR 0x80),
      write_frame CommandReg PCD_IDLE] \<and> length l \<le> 6032 + unat n"
proof -
  from assms obtain s2 q i s5 s7 where
    w: "write_fifo (traced os) h pin 0 (unat n) (com_setup (traced os) h c s) = Some s2" and
    q: "poll_irq (traced os) h (snd (irq_masks c)) 6000 (com_start (traced os) h c s2) = (q, i, s5)" and
    a: "com_answer (traced os) h c q i out bl s5 = Some (st, out', bl', s7)" and
    e: "s' = com_stop (traced os) h s7" by (rule PcdComMF522_cases)
  have "sent s s7 (6032 + unat n)"
    by (rule sent_trans [OF sent_trans [OF sent_trans [OF sent_trans
      [OF sent_com_setup sent_write_fifo [OF w] order_refl] sent_com_start order_refl]
      sent_poll_irq [OF q] order_refl] sent_com_answer [OF a]]) simp
  then obtain l where "snd s7 = snd s @ l" "length l \<le> 6032 + unat n" by (auto simp: sent_def)
  then show ?thesis
    using log_SetBitMask [of os h ControlReg "0x80" s7] by (auto simp: e com_stop_def)
qed

theorem PcdComMF522_idle_witness:
  "\<exists>r l v. PcdComMF522 (traced silent_chip) 3 PCD_IDLE [1] 1 (replicate 18 0) None (0, [[9]]) = Some r
    \<and> snd (snd (snd (snd r))) = [9] # l @ [read_frame ControlReg, write_frame ControlReg (v OR 0x80),
      write_frame CommandReg PCD_IDLE] \<and> length l \<le> 6033"
proof -
  obtain st out bl s where
    r: "PcdComMF522 (traced silent_chip) 3 PCD_IDLE [1] 1 (replicate 18 0) None (0, [[9]])
      = Some (st, out, bl, s)"
    using PcdComMF522_returns [of 1 "[1]" "replicate 18 0" "traced silent_chip" 3 PCD_IDLE None
        "(0, [[9]])"] by auto
  from PcdComMF522_idle [OF r] r show ?thesis by auto
qed

text \<open>
  A transceive that reports \<open>MI_OK\<close> was answered: the last poll of the interrupt
  register, before the 6000 polls ran out, had a receive or idle bit set and the timer bit
  clear, and the chip's error register had none of the bits the driver looks at.
\<close>
theorem PcdComMF522_ok:
  assumes "PcdComMF522 os h PCD_TRANSCEIVE pin n out bl w = Some (MI_OK, out', bl', w')"
  shows "\<exists>w1 q i w2. poll_irq os h 0x30 6000 w1 = (q, i, w2) \<and> i \<noteq> 0
    \<and> q AND 0x30 \<noteq> 0 \<and> q AND 1 = 0
    \<and> fst (ReadRawRC os h ErrorReg (ClearBitMask os h BitFramingReg 0x80 w2)) AND 0x1B = 0"
proof -
  from assms obtain w2 q i w5 w7 where
    q: "poll_irq os h (snd (irq_masks PCD_TRANSCEIVE)) 6000 (com_start os h PCD_TRANSCEIVE w2) = (q, i, w5)" and
    a: "com_answer os h PCD_TRANSCEIVE q i out bl w5 = Some (MI_OK, out', bl', w7)"
    by (rule PcdComMF522_cases)
  have f: "i \<noteq> 0" "fetch_answer os h PCD_TRANSCEIVE q 0x77 out bl (ClearBitMask os h BitFramingReg 0x80 w5)
      = Some (MI_OK, out', bl', w7)"
    using a by (auto simp: com_answer_def irq_masks_def Let_def split: if_splits)
  have "q AND 1 = 0" using fetch_answer_ok(2) [OF f(2)] by (simp add: and.assoc)
  moreover have p: "poll_irq os h 0x30 6000 (com_start os h PCD_TRANSCEIVE w2) = (q, i, w5)"
    using q by (simp add: irq_masks_def)
  moreover from poll_irq_seen [OF p] f(1) have "q AND 1 \<noteq> 0 \<or> q AND 0x30 \<noteq> 0" by simp
  ultimately show ?thesis using f fetch_answer_ok(1) [OF f(2)] by blast
qed

theorem PcdComMF522_ok_witness:
  "\<exists>w1 q i w2. poll_irq silent_chip 3 0x30 6000 w1 = (q, i, w2) \<and> i \<noteq> 0
    \<and> q AND 0x30 \<noteq> 0 \<and> q AND 1 = 0"
  using PcdComMF522_ok [OF silent_exchange] by blast

text \<open>
  Anticollision: when \<open>PcdAnticoll\<close> reports success, the serial number it stored is the
  first four bytes of the exchange's buffer and their exclusive or is the fifth byte, the
  check byte; the fifth byte of the caller's array is untouched.
\<close>
theorem PcdAnticoll_check:
  assumes "PcdAnticoll os h snr w = Some (MI_OK, snr', w')" "length snr = 5"
  shows "\<exists>w1 buf bits w2. PcdComMF522 os h PCD_TRANSCEIVE
        ((junk_array os w MAXRLEN)[0 := PICC_ANTICOLL1, 1 := 0x20]) 2
        ((junk_array os w MAXRLEN)[0 := PICC_ANTICOLL1, 1 := 0x20]) None w1 = Some (MI_OK, buf, bits, w2)
      \<and> take 4 snr' = take 4 buf \<and> snr' ! 4 = snr ! 4
      \<and> snr' ! 0 XOR snr' ! 1 XOR snr' ! 2 XOR snr' ! 3 = buf ! 4"
proof -
  define buf where "buf = (junk_array os w MAXRLEN)[0 := PICC_ANTICOLL1, 1 := 0x20]"
  define w1 where "w1 = ClearBitMask os h CollReg 0x80 (wreg os h BitFramingReg 0x00
      (ClearBitMask os h Status2Reg 0x08 w))"
  have "unat (2::u8) \<le> length buf" "18 \<le> length buf" by (simp_all add: buf_def)
  from PcdComMF522_total [OF this, of os h PCD_TRANSCEIVE None w1] obtain st out bl w2 where
    c: "PcdComMF522 os h PCD_TRANSCEIVE buf 2 buf None w1 = Some (st, out, bl, w2)"
    "length out = 18" by (auto simp: buf_def)
  have x: "foldl (XOR) 0 (take 4 out) = out ! 0 XOR out ! 1 XOR out ! 2 XOR out ! 3"
    using c(2) by (simp add: numeral_eq_Suc take_Suc_conv_app_nth xor.assoc)
  have n: "(take 4 out @ drop 4 snr) ! i = (if i < 4 then out ! i else snr ! i)" if "i < 5" for i
    using that c(2) assms(2) by (cases "i = 4") (auto simp: nth_append)
  have "st = MI_OK" "snr' = take 4 out @ drop 4 snr" "foldl (XOR) 0 (take 4 out) = out ! 4"
    using assms c copy_snr_Some [of 0 4 out snr 0]
    by (auto simp: PcdAnticoll_def buf_def [symmetric] w1_def [symmetric] Let_def simp del: One_nat_def split: if_splits)
  with c(1) x n [of 0] n [of 1] n [of 2] n [of 3] n [of 4] c(2) show ?thesis
    unfolding buf_def [symmetric] by (intro exI conjI) auto
qed

theorem PcdAnticoll_check_witness:
  "\<exists>buf. take 4 [0x20, 0x20, 0, 0, 0 :: u8] = take 4 buf
      \<and> (0x20 :: u8) XOR 0x20 XOR 0 XOR 0 = buf ! 4"
  using PcdAnticoll_check [OF silent_anticoll] by auto

text \<open>
  The check byte is the only test: \<open>PcdAnticoll\<close> never looks at the bit count it is
  given, so a chip that reports a receive interrupt with an empty FIFO is read as a card. Its
  serial number is then one stale FIFO byte, the command byte left in the buffer, and
  whatever the uninitialised buffer held.
\<close>
theorem PcdAnticoll_silent:
  "PcdAnticoll silent_chip 3 (replicate 5 0) 0 = Some (MI_OK, [0x20, 0x20, 0, 0, 0], CollReg)"
  by (rule silent_anticoll)

text \<open>
  Reading a card number never fails to return: the result is Java's null or the four
  bytes of the serial number, and the globals keep their sizes.
\<close>
theorem rfid_ReadCardNum_total:
  assumes "rfid_ok s"
  shows "\<exists>a s' w'. rfid_ReadCardNum os s w = Some (a, s', w') \<and> rfid_ok s'
    \<and> (a = None \<or> a = Some (take 4 (UID s')))"
  using assms by (rule ReadCardNum_result)

theorem rfid_ReadCardNum_total_witness:
  "\<exists>r. rfid_ReadCardNum silent_chip rfid_init 0 = Some r"
proof -
  have "rfid_ok rfid_init" by (simp add: rfid_ok_def rfid_init_def)
  from rfid_ReadCardNum_total [OF this, of silent_chip 0] show ?thesis by blast
qed

text \<open>
  What \<open>Open\<close> leaves in a chip whose registers read back what was written: the
  reset command, the mode and timer registers the driver programs, forced 100 percent ASK,
  and both antenna bits set where neither was.
\<close>
theorem rfid_Open_regs:
  assumes p: "register_port (ReadRawRC os (rfid_fd s)) (wreg os (rfid_fd s)) reg" "0 < rfid_fd s"
  shows "reg (snd (rfid_Open os s w)) = (reg w)
    (CommandReg := PCD_RESETPHASE, ModeReg := 0x3D, TReloadRegL := 30, TReloadRegH := 0,
     TModeReg := 0x8D, TPrescalerReg := 0x3E, TxASKReg := 0x40,
     TxControlReg := (if reg w TxControlReg AND 0x03 = 0 then reg w TxControlReg OR 0x03
                      else reg w TxControlReg))"
proof -
  note r = register_port.rdr_value [OF p(1)] register_port.rdr_keeps [OF p(1)]
    register_port.wrr_reg [OF p(1)] SetBitMask_reg [OF p(1)]
  show ?thesis using p(2)
    by (auto simp: rfid_Open_def rc522_init_def PcdAntennaOn_def Let_def r fun_upd_twist split_beta)
qed

theorem rfid_Open_regs_witness:
  "fst (snd (rfid_Open spi_chip (rfid_init\<lparr>rfid_fd := 3\<rparr>) (\<lambda>a. 0, 0))) TxControlReg = 3"
  by (subst rfid_Open_regs [where reg = fst, OF chip.register_port_axioms])
    (simp_all add: rfid_init_def)

text \<open>
  \<open>Close\<close> leaves the closed descriptor in the global, so the next \<open>Open\<close> does not
  open the device: it keeps the state, and its result does not depend on what the kernel's
  \<open>open\<close> would return. It programs the chip through the closed descriptor.
\<close>
theorem rfid_reopen_stale:
  assumes "0 < rfid_fd s"
  shows "fst (rfid_Close os s w) = s
    \<and> fst (rfid_Open os (fst (rfid_Close os s w)) w') = s
    \<and> rfid_Open (os\<lparr>sys_open := f\<rparr>) (fst (rfid_Close os s w)) w' = rfid_Open os s w'"
  using assms by (simp add: rfid_Close_def rfid_Open_def split_beta)

theorem rfid_reopen_stale_witness:
  "fst (rfid_Open spi_chip (fst (rfid_Close spi_chip (rfid_init\<lparr>rfid_fd := 3\<rparr>) (\<lambda>a. 0, 0)))
      (\<lambda>a. 0, 0)) = rfid_init\<lparr>rfid_fd := 3\<rparr>"
  by (rule rfid_reopen_stale [THEN conjunct2, THEN conjunct1]) simp

end
