(* ===== verification/Sensor_Devices.thy ===== *)
theory Sensor_Devices
  imports Posix_Dev
begin

text \<open>
  The three small JNI drivers \<^verbatim>\<open>com_bupt_sensordriver_adc.c\<close>, \<^verbatim>\<open>_led.c\<close> and
  \<^verbatim>\<open>_sensor.c\<close>: a file-static descriptor each (two for the sensor), opened when it is
  not positive, and a read into a fixed buffer. The \<^verbatim>\<open>jint\<close> entry points have no return
  statement, so they are modelled by their effect alone.
\<close>

section \<open>The analog input\<close>

record adc = adc_fd :: int

definition adc_Open :: "'w posix \<Rightarrow> adc \<Rightarrow> 'w \<Rightarrow> adc \<times> 'w" where
  "adc_Open os s w =
     (if adc_fd s \<le> 0 then (let (r, w) = sys_open os ''/dev/adc'' w in (s\<lparr>adc_fd := r\<rparr>, w))
      else (s, w))"

definition adc_Close :: "'w posix \<Rightarrow> adc \<Rightarrow> 'w \<Rightarrow> adc \<times> 'w" where
  "adc_Close os s w = (if adc_fd s > 0 then (s, sys_close os (adc_fd s) w) else (s, w))"

definition adc_Ioctl :: "'w posix \<Rightarrow> int \<Rightarrow> int \<Rightarrow> adc \<Rightarrow> 'w \<Rightarrow> adc \<times> 'w" where
  "adc_Ioctl os num en s w = (s, snd (sys_ioctl os (adc_fd s) en num w))"

text \<open>\<^verbatim>\<open>strlen\<close> of an array: undefined when no byte of it is zero.\<close>

fun c_strlen :: "u8 list \<Rightarrow> nat option" where
  "c_strlen [] = None"
| "c_strlen (b # bs) = (if b = 0 then Some 0 else map_option Suc (c_strlen bs))"

text \<open>The value of \<open>read\<close> is not looked at; the length is \<open>strlen\<close> of the buffer.\<close>

definition adc_Read :: "'w posix \<Rightarrow> adc \<Rightarrow> 'w \<Rightarrow> (int list \<times> 'w) option" where
  "adc_Read os s w =
     (let (ret, bs, w) = sys_read os (adc_fd s) 512 w;
          buffer = after_read (replicate 512 0) ret bs
      in do { len \<leftarrow> c_strlen buffer; Some (map uint (take len buffer), w) })"

section \<open>The LEDs\<close>

record led = led_fd :: int

definition led_Open :: "'w posix \<Rightarrow> led \<Rightarrow> 'w \<Rightarrow> led \<times> 'w" where
  "led_Open os s w =
     (if led_fd s \<le> 0 then (let (r, w) = sys_open os ''/dev/leds'' w in (s\<lparr>led_fd := r\<rparr>, w))
      else (s, w))"

definition led_Close :: "'w posix \<Rightarrow> led \<Rightarrow> 'w \<Rightarrow> led \<times> 'w" where
  "led_Close os s w = (if led_fd s > 0 then (s, sys_close os (led_fd s) w) else (s, w))"

definition led_Ioctl :: "'w posix \<Rightarrow> int \<Rightarrow> int \<Rightarrow> led \<Rightarrow> 'w \<Rightarrow> led \<times> 'w" where
  "led_Ioctl os num en s w = (s, snd (sys_ioctl os (led_fd s) en num w))"

section \<open>The motion sensor\<close>

record sensor =
  sensor_fd :: int
  sensor_fd2 :: int

definition sensor_init :: sensor where
  "sensor_init = \<lparr>sensor_fd = 0, sensor_fd2 = 0\<rparr>"

definition sensor_Open :: "'w posix \<Rightarrow> sensor \<Rightarrow> 'w \<Rightarrow> sensor \<times> 'w" where
  "sensor_Open os s w =
     (if sensor_fd s \<le> 0
      then (let (r, w) = sys_open os ''/dev/sensor_irq'' w in (s\<lparr>sensor_fd := r\<rparr>, w))
      else (s, w))"

definition sensor_Close :: "'w posix \<Rightarrow> sensor \<Rightarrow> 'w \<Rightarrow> sensor \<times> 'w" where
  "sensor_Close os s w =
     (let w = (if sensor_fd s > 0 then sys_close os (sensor_fd s) w else w);
          w = (if sensor_fd2 s > 0 then sys_close os (sensor_fd2 s) w else w)
      in (s, w))"

definition sensor_Ioctl :: "'w posix \<Rightarrow> int \<Rightarrow> int \<Rightarrow> sensor \<Rightarrow> 'w \<Rightarrow> sensor \<times> 'w" where
  "sensor_Ioctl os num en s w = (s, snd (sys_ioctl os (sensor_fd2 s) en num w))"

text \<open>
  The buffer is of plain \<^verbatim>\<open>char\<close>, whose sign depends on the target; \<open>char_val\<close> is the
  conversion to \<^verbatim>\<open>int\<close>. The result always has six elements.
\<close>

definition char_val :: "bool \<Rightarrow> u8 \<Rightarrow> int" where
  "char_val sg b = (if sg then sint b else uint b)"

definition sensor_Read :: "bool \<Rightarrow> 'w posix \<Rightarrow> sensor \<Rightarrow> 'w \<Rightarrow> int list \<times> 'w" where
  "sensor_Read sg os s w =
     (let (ret, bs, w) = sys_read os (sensor_fd s) 6 w;
          buffer = after_read (replicate 6 0) ret bs @ replicate 4 0
      in (map (char_val sg) (take 6 buffer), w))"

section \<open>Lemmas\<close>

lemma c_strlen_Some:
  "c_strlen bs = Some n \<longleftrightarrow> n < length bs \<and> bs ! n = 0 \<and> 0 \<notin> set (take n bs)"
proof (induction bs arbitrary: n)
  case Nil
  then show ?case by simp
next
  case (Cons b bs)
  then show ?case by (cases n) auto
qed

lemma c_strlen_None: "c_strlen bs = None \<longleftrightarrow> 0 \<notin> set bs"
  by (induction bs) auto

text \<open>
  Runs of the sensor driver: any order of the entry points, under any kernel.
\<close>

inductive sensor_run :: "'w posix \<Rightarrow> sensor \<times> 'w \<Rightarrow> bool" for os where
  load: "sensor_run os (sensor_init, w)"
| opened: "sensor_run os (s, w) \<Longrightarrow> sensor_run os (sensor_Open os s w)"
| closed: "sensor_run os (s, w) \<Longrightarrow> sensor_run os (sensor_Close os s w)"
| controlled: "sensor_run os (s, w) \<Longrightarrow> sensor_run os (sensor_Ioctl os num en s w)"
| read: "sensor_run os (s, w) \<Longrightarrow> sensor_run os (s, snd (sensor_Read sg os s w))"

lemma sensor_run_fd2: "sensor_run os sw \<Longrightarrow> sensor_fd2 (fst sw) = 0"
  by (induction rule: sensor_run.induct)
    (auto simp: sensor_init_def sensor_Open_def sensor_Close_def sensor_Ioctl_def split: prod.splits)

section \<open>Properties\<close>

text \<open>
  Whatever sequence of entry points ran before, the sensor driver's \<open>Ioctl\<close> goes to
  descriptor 0, never to the sensor's: the second descriptor is read but never assigned.
\<close>
theorem sensor_Ioctl_wrong_handle:
  assumes "sensor_run os (s, w)"
  shows "sensor_Ioctl os num en s w = (s, snd (sys_ioctl os 0 en num w))"
  using sensor_run_fd2 [OF assms] by (simp add: sensor_Ioctl_def)

theorem sensor_Ioctl_wrong_handle_witness:
  "sensor_Ioctl
     \<lparr>sys_open = \<lambda>p w. (7, w), sys_close = \<lambda>h w. w, sys_read = \<lambda>h n w. (0, [], w),
      sys_write = \<lambda>h b w. (0, w), sys_ioctl = \<lambda>h r a w. (0, h), stack_junk = \<lambda>w i. 0\<rparr>
     1 2 \<lparr>sensor_fd = 7, sensor_fd2 = 0\<rparr> (5 :: int) = (\<lparr>sensor_fd = 7, sensor_fd2 = 0\<rparr>, 0)"
proof -
  let ?os = "\<lparr>sys_open = \<lambda>p w. (7, w), sys_close = \<lambda>h w. w, sys_read = \<lambda>h n w. (0, [], w),
      sys_write = \<lambda>h b w. (0, w), sys_ioctl = \<lambda>h r a w. (0, h), stack_junk = \<lambda>w i. 0\<rparr>
      :: int posix"
  have "sensor_run ?os (sensor_Open ?os sensor_init 5)"
    by (rule sensor_run.opened) (rule sensor_run.load)
  then have "sensor_run ?os (\<lparr>sensor_fd = 7, sensor_fd2 = 0\<rparr>, 5)"
    by (simp add: sensor_Open_def sensor_init_def)
  from sensor_Ioctl_wrong_handle [OF this, of 1 2] show ?thesis by simp
qed

text \<open>
  Reading the analog input: when the kernel stores fewer than 512 bytes the call returns,
  and the Java array holds exactly the bytes before the first zero byte (the stored bytes cut
  at their first zero, or all of them).
\<close>
theorem adc_Read_string:
  assumes "sys_read os (adc_fd s) 512 w = (int (length bs), bs, w')" "length bs < 512"
  shows "adc_Read os s w = Some (map uint (takeWhile (\<lambda>b. b \<noteq> 0) bs), w')"
proof -
  let ?n = "length (takeWhile (\<lambda>b. b \<noteq> 0) bs)" and ?buf = "bs @ replicate (512 - length bs) (0::u8)"
  have n: "?n \<le> length bs" by (rule length_takeWhile_le)
  have t: "take ?n ?buf = takeWhile (\<lambda>b. b \<noteq> 0) bs"
    using n by (simp add: takeWhile_eq_take [symmetric])
  have "?buf ! ?n = 0"
    using n assms(2) nth_length_takeWhile [of "\<lambda>b. b \<noteq> 0" bs] by (auto simp: nth_append)
  moreover have "0 \<notin> set (take ?n ?buf)" unfolding t by (auto dest: set_takeWhileD)
  ultimately have "c_strlen ?buf = Some ?n" using n assms(2) by (simp add: c_strlen_Some)
  moreover have "after_read (replicate 512 0) (int (length bs)) bs = ?buf"
    using assms(2) by (simp add: after_read_def)
  ultimately show ?thesis
    using assms(1) t by (simp add: adc_Read_def del: take_append)
qed

theorem adc_Read_string_witness:
  "adc_Read
     \<lparr>sys_open = \<lambda>p w. (7, w), sys_close = \<lambda>h w. w, sys_read = \<lambda>h n w. (4, [50, 48, 0, 9], w),
      sys_write = \<lambda>h b w. (0, w), sys_ioctl = \<lambda>h r a w. (0, w), stack_junk = \<lambda>w i. 0\<rparr>
     \<lparr>adc_fd = 7\<rparr> () = Some ([50, 48], ())"
  by (subst adc_Read_string [where bs = "[50, 48, 0, 9]" and w' = "()"]) simp_all

text \<open>
  The one defect of that read: it has no defined result exactly when the kernel fills the
  whole buffer with non-zero bytes, since \<open>strlen\<close> then runs past its end.
\<close>
theorem adc_Read_undefined:
  "adc_Read os s w = None \<longleftrightarrow>
     (let (ret, bs, w') = sys_read os (adc_fd s) 512 w
      in 0 \<notin> set (after_read (replicate 512 0) ret bs))"
  by (auto simp: adc_Read_def Let_def c_strlen_None ub_simps split: prod.splits)

end
