(* ===== verification/Libusb_Sync.thy ===== *)
theory Libusb_Sync
  imports C_Prelude
begin

text \<open>
  The synchronous transfers of libusb, \<^verbatim>\<open>libusb/libusb/sync.c\<close>: a transfer is allocated,
  filled, submitted, waited for by handling events until its callback has set the completion
  flag, and its status is turned into a libusb error code. The asynchronous layer below
  (\<^verbatim>\<open>io.c\<close> and the kernel) is the record \<open>usb\<close> over a world \<open>'w\<close>, an argument of every
  definition.
\<close>

section \<open>Error codes\<close>

text \<open>The values are shared by \<^verbatim>\<open>enum libusb_error\<close> and libuvc's \<^verbatim>\<open>uvc_error_t\<close>.\<close>

abbreviation (input) "UVC_SUCCESS \<equiv> 0 :: int"
abbreviation (input) "LIBUSB_ERROR_IO \<equiv> -1 :: int"
abbreviation (input) "LIBUSB_ERROR_NO_DEVICE \<equiv> -4 :: int"
abbreviation (input) "LIBUSB_ERROR_TIMEOUT \<equiv> -7 :: int"
abbreviation (input) "LIBUSB_ERROR_OVERFLOW \<equiv> -8 :: int"
abbreviation (input) "LIBUSB_ERROR_PIPE \<equiv> -9 :: int"
abbreviation (input) "LIBUSB_ERROR_INTERRUPTED \<equiv> -10 :: int"
abbreviation (input) "LIBUSB_ERROR_NO_MEM \<equiv> -11 :: int"
abbreviation (input) "LIBUSB_ERROR_OTHER \<equiv> -99 :: int"

section \<open>Transfers\<close>

datatype transfer_status =
  TRANSFER_COMPLETED | TRANSFER_ERROR | TRANSFER_TIMED_OUT | TRANSFER_CANCELLED
| TRANSFER_STALL | TRANSFER_NO_DEVICE | TRANSFER_OVERFLOW | TRANSFER_UNKNOWN nat

text \<open>The fields the fill functions set; the callback is always \<open>sync_transfer_cb\<close>.\<close>

record transfer =
  t_endpoint :: u8
  t_type :: u8
  t_timeout :: u32
  t_buffer :: "u8 list"
  t_length :: int

text \<open>What is read of a transfer once it has completed.\<close>

record outcome =
  x_status :: transfer_status
  x_actual :: int
  x_buffer :: "u8 list"

text \<open>
  The asynchronous layer: allocation of a transfer and of memory (which may fail), submission
  (a negative code refuses it), one round of event handling, cancellation, whether the
  callback has run, and what became of the transfer. An \<open>outcome\<close> holds the contents of the
  transfer's buffer. The interface calls that libuvc makes on a device handle are here too:
  claiming and releasing an interface, selecting an altsetting, clearing a halted endpoint.
\<close>

record 'w usb =
  usb_alloc :: "'w \<Rightarrow> bool \<times> 'w"
  usb_malloc :: "nat \<Rightarrow> 'w \<Rightarrow> bool \<times> 'w"
  usb_submit :: "transfer \<Rightarrow> 'w \<Rightarrow> int \<times> 'w"
  usb_events :: "'w \<Rightarrow> int \<times> 'w"
  usb_cancel :: "'w \<Rightarrow> 'w"
  usb_completed :: "'w \<Rightarrow> bool"
  usb_outcome :: "transfer \<Rightarrow> 'w \<Rightarrow> outcome"
  usb_claim :: "u8 \<Rightarrow> 'w \<Rightarrow> int \<times> 'w"
  usb_release :: "u8 \<Rightarrow> 'w \<Rightarrow> int \<times> 'w"
  usb_set_alt :: "u8 \<Rightarrow> u8 \<Rightarrow> 'w \<Rightarrow> int \<times> 'w"
  usb_clear_halt :: "u8 \<Rightarrow> 'w \<Rightarrow> int \<times> 'w"

text \<open>
  One pass of the waiting loop: handle events, and cancel the transfer when that failed with
  anything but an interruption.
\<close>

definition wait_step :: "'w usb \<Rightarrow> 'w \<Rightarrow> 'w" where
  "wait_step u w =
     (let (r, w) = usb_events u w
      in if r < 0 then (if r = LIBUSB_ERROR_INTERRUPTED then w else usb_cancel u w) else w)"

partial_function (option) sync_transfer_wait_for_completion :: "'w usb \<Rightarrow> 'w \<Rightarrow> 'w option" where
  "sync_transfer_wait_for_completion u w =
     (if usb_completed u w then Some w else sync_transfer_wait_for_completion u (wait_step u w))"

declare sync_transfer_wait_for_completion.simps [code]

section \<open>Control transfers\<close>

definition fill_control_setup :: "u8 \<Rightarrow> u8 \<Rightarrow> u16 \<Rightarrow> u16 \<Rightarrow> u16 \<Rightarrow> u8 list" where
  "fill_control_setup bmRequestType bRequest wValue wIndex wLength =
     [bmRequestType, bRequest] @ SHORT_TO_SW wValue @ SHORT_TO_SW wIndex @ SHORT_TO_SW wLength"

definition fill_control_transfer ::
  "u8 \<Rightarrow> u8 \<Rightarrow> u16 \<Rightarrow> u16 \<Rightarrow> u16 \<Rightarrow> u8 list \<Rightarrow> u32 \<Rightarrow> transfer" where
  "fill_control_transfer bmRequestType bRequest wValue wIndex wLength payload timeout =
     \<lparr>t_endpoint = 0, t_type = 0, t_timeout = timeout,
      t_buffer = fill_control_setup bmRequestType bRequest wValue wIndex wLength @ payload,
      t_length = 8 + int (unat wLength)\<rparr>"

text \<open>The status switch of a control transfer; a completed one gives the length.\<close>

fun status_code :: "transfer_status \<Rightarrow> int \<Rightarrow> int" where
  "status_code TRANSFER_COMPLETED ok = ok"
| "status_code TRANSFER_TIMED_OUT ok = LIBUSB_ERROR_TIMEOUT"
| "status_code TRANSFER_STALL ok = LIBUSB_ERROR_PIPE"
| "status_code TRANSFER_NO_DEVICE ok = LIBUSB_ERROR_NO_DEVICE"
| "status_code TRANSFER_OVERFLOW ok = LIBUSB_ERROR_OVERFLOW"
| "status_code TRANSFER_ERROR ok = LIBUSB_ERROR_IO"
| "status_code TRANSFER_CANCELLED ok = LIBUSB_ERROR_IO"
| "status_code (TRANSFER_UNKNOWN n) ok = LIBUSB_ERROR_OTHER"

text \<open>\<^verbatim>\<open>memcpy\<close> of \<open>n\<close> bytes from \<open>src\<close> to the start of \<open>dst\<close>.\<close>

definition copy_in :: "u8 list \<Rightarrow> u8 list \<Rightarrow> int \<Rightarrow> u8 list option" where
  "copy_in dst src n =
     (if 0 \<le> n \<and> nat n \<le> length dst \<and> nat n \<le> length src
      then Some (take (nat n) src @ drop (nat n) dst) else None)"

definition is_in :: "u8 \<Rightarrow> bool" where
  "is_in bmRequestType \<longleftrightarrow> bmRequestType AND 0x80 = 0x80"

text \<open>The result: the return value, the caller's data array, the world.\<close>

definition libusb_control_transfer ::
  "'w usb \<Rightarrow> u8 \<Rightarrow> u8 \<Rightarrow> u16 \<Rightarrow> u16 \<Rightarrow> u8 list \<Rightarrow> u16 \<Rightarrow> u32 \<Rightarrow> 'w
     \<Rightarrow> (int \<times> u8 list \<times> 'w) option" where
  "libusb_control_transfer u bmRequestType bRequest wValue wIndex data wLength timeout w =
     (let (ok, w) = usb_alloc u w
      in if \<not> ok then Some (LIBUSB_ERROR_NO_MEM, data, w)
         else let (ok, w) = usb_malloc u (8 + unat wLength) w
      in if \<not> ok then Some (LIBUSB_ERROR_NO_MEM, data, w)
         else do {
           payload \<leftarrow> (if is_in bmRequestType then Some (replicate (unat wLength) 0)
                       else rd_bytes data 0 (unat wLength));
           let t = fill_control_transfer bmRequestType bRequest wValue wIndex wLength
                     payload timeout;
           let (r, w) = usb_submit u t w;
           if r < 0 then Some (r, data, w)
           else do {
             w \<leftarrow> sync_transfer_wait_for_completion u w;
             let x = usb_outcome u t w;
             data \<leftarrow> (if is_in bmRequestType then copy_in data (drop 8 (x_buffer x)) (x_actual x)
                      else Some data);
             Some (status_code (x_status x) (x_actual x), data, w) } })"

section \<open>Bulk and interrupt transfers\<close>

text \<open>
  The caller's buffer is the transfer's own. The results are the code, the value stored in
  \<^verbatim>\<open>*transferred\<close> (none on the paths that do not store it), the buffer and the world.
\<close>

definition do_sync_bulk_transfer ::
  "'w usb \<Rightarrow> u8 \<Rightarrow> u8 list \<Rightarrow> int \<Rightarrow> u32 \<Rightarrow> u8 \<Rightarrow> 'w
     \<Rightarrow> (int \<times> int option \<times> u8 list \<times> 'w) option" where
  "do_sync_bulk_transfer u endpoint buffer len timeout type w =
     (let (ok, w) = usb_alloc u w
      in if \<not> ok then Some (LIBUSB_ERROR_NO_MEM, None, buffer, w)
         else let t = \<lparr>t_endpoint = endpoint, t_type = type, t_timeout = timeout,
                       t_buffer = buffer, t_length = len\<rparr>;
                  (r, w) = usb_submit u t w
      in if r < 0 then Some (r, None, buffer, w)
         else do {
           w \<leftarrow> sync_transfer_wait_for_completion u w;
           let x = usb_outcome u t w;
           Some (status_code (x_status x) 0, Some (x_actual x), x_buffer x, w) })"

definition libusb_bulk_transfer where
  "libusb_bulk_transfer u endpoint data len timeout w =
     do_sync_bulk_transfer u endpoint data len timeout 2 w"

definition libusb_interrupt_transfer where
  "libusb_interrupt_transfer u endpoint data len timeout w =
     do_sync_bulk_transfer u endpoint data len timeout 3 w"

section \<open>Waiting\<close>

lemma wait_completed:
  "usb_completed u ((wait_step u ^^ n) w) \<Longrightarrow>
     \<exists>k \<le> n. sync_transfer_wait_for_completion u w = Some ((wait_step u ^^ k) w)
       \<and> usb_completed u ((wait_step u ^^ k) w) \<and> (\<forall>j < k. \<not> usb_completed u ((wait_step u ^^ j) w))"
proof (induction n arbitrary: w)
  case 0
  then show ?case by (subst sync_transfer_wait_for_completion.simps) simp
next
  case (Suc n)
  show ?case
  proof (cases "usb_completed u w")
    case True
    then show ?thesis by (intro exI [of _ 0]) (simp add: sync_transfer_wait_for_completion.simps)
  next
    case False
    from Suc.prems have "usb_completed u ((wait_step u ^^ n) (wait_step u w))"
      by (simp add: funpow_swap1)
    from Suc.IH [OF this] obtain k where k: "k \<le> n"
      "sync_transfer_wait_for_completion u (wait_step u w) = Some ((wait_step u ^^ k) (wait_step u w))"
      "usb_completed u ((wait_step u ^^ k) (wait_step u w))"
      "\<forall>j < k. \<not> usb_completed u ((wait_step u ^^ j) (wait_step u w))" by blast
    have "\<not> usb_completed u ((wait_step u ^^ j) w)" if "j < Suc k" for j
      using that False k(4) by (cases j) (auto simp: funpow_swap1)
    with False k show ?thesis
      by (intro exI [of _ "Suc k"]) (simp add: sync_transfer_wait_for_completion.simps funpow_swap1)
  qed
qed

lemma wait_reached:
  "sync_transfer_wait_for_completion u w = Some w' \<Longrightarrow>
     \<exists>n. w' = (wait_step u ^^ n) w \<and> usb_completed u w'"
proof (rule sync_transfer_wait_for_completion.raw_induct
    [where P = "\<lambda>u w w'. \<exists>n. w' = (wait_step u ^^ n) w \<and> usb_completed u w'"])
  fix f :: "'w usb \<Rightarrow> 'w \<Rightarrow> 'w option" and u w w'
  assume IH: "\<And>u w w'. f u w = Some w' \<Longrightarrow> \<exists>n. w' = (wait_step u ^^ n) w \<and> usb_completed u w'"
    and e: "(if usb_completed u w then Some w else f u (wait_step u w)) = Some w'"
  show "\<exists>n. w' = (wait_step u ^^ n) w \<and> usb_completed u w'"
  proof (cases "usb_completed u w")
    case True
    with e show ?thesis by (intro exI [of _ 0]) simp
  next
    case False
    with e have "f u (wait_step u w) = Some w'" by simp
    from IH [OF this] obtain n where
      "w' = (wait_step u ^^ n) (wait_step u w)" "usb_completed u w'" by blast
    then show ?thesis by (intro exI [of _ "Suc n"]) (simp add: funpow_swap1)
  qed
qed

section \<open>The contract of the asynchronous layer\<close>

text \<open>
  \<open>usb_backend\<close>: every pass of the waiting loop brings a submitted transfer nearer to its
  callback (\<open>rank\<close>), and a transfer keeps the size of its buffer and does not transfer more
  than its data stage.
\<close>

locale usb_backend =
  fixes u :: "'w usb" and rank :: "'w \<Rightarrow> nat"
  assumes progress: "\<not> usb_completed u w \<Longrightarrow> rank (wait_step u w) < rank w"
    and buffer_kept: "length (x_buffer (usb_outcome u t w)) = length (t_buffer t)"
    and actual_nonneg: "0 \<le> x_actual (usb_outcome u t w)"
    and actual_le: "t_type t = 0 \<Longrightarrow> 8 \<le> t_length t \<Longrightarrow> x_actual (usb_outcome u t w) \<le> t_length t - 8"
begin

lemma reaches_completion: "\<exists>n. usb_completed u ((wait_step u ^^ n) w)"
proof (induction "rank w" arbitrary: w rule: less_induct)
  case less
  show ?case
  proof (cases "usb_completed u w")
    case True
    then show ?thesis by (intro exI [of _ 0]) simp
  next
    case False
    from less [OF progress [OF this]] obtain n where
      "usb_completed u ((wait_step u ^^ n) (wait_step u w))" by blast
    then show ?thesis by (intro exI [of _ "Suc n"]) (simp add: funpow_swap1)
  qed
qed

lemma wait_returns: "\<exists>w'. sync_transfer_wait_for_completion u w = Some w' \<and> usb_completed u w'"
  using reaches_completion [of w] wait_completed [of u _ w] by blast

lemma control_transfer_returns:
  assumes "unat n \<le> length data"
  shows "\<exists>r data' w'. libusb_control_transfer u rt rq v i data n tmo w = Some (r, data', w')
    \<and> length data' = length data \<and> drop (unat n) data' = drop (unat n) data
    \<and> r \<le> int (unat n) \<and> (\<not> is_in rt \<longrightarrow> data' = data)"
proof -
  obtain a w1 where a: "usb_alloc u w = (a, w1)" by (rule prod.exhaust)
  obtain b w2 where b: "usb_malloc u (8 + unat n) w1 = (b, w2)" by (rule prod.exhaust)
  define p where "p = (if is_in rt then replicate (unat n) 0 else take (unat n) data)"
  define t where "t = fill_control_transfer rt rq v i n p tmo"
  obtain r w3 where r: "usb_submit u t w2 = (r, w3)" by (rule prod.exhaust)
  obtain w4 where w4: "sync_transfer_wait_for_completion u w3 = Some w4" using wait_returns by blast
  define x where "x = usb_outcome u t w4"
  have l: "length (x_buffer x) = 8 + unat n"
    using assms by (simp add: x_def buffer_kept t_def p_def fill_control_transfer_def fill_control_setup_def)
  have m: "0 \<le> x_actual x" "x_actual x \<le> int (unat n)"
    using actual_nonneg actual_le [of t] by (simp_all add: x_def t_def fill_control_transfer_def)
  then have k: "nat (x_actual x) \<le> unat n" by (simp add: nat_le_iff)
  define d where "d = (if is_in rt then take (nat (x_actual x)) (drop 8 (x_buffer x))
      @ drop (nat (x_actual x)) data else data)"
  have c: "copy_in data (drop 8 (x_buffer x)) (x_actual x) = Some d" if "is_in rt"
    using that l m k assms by (simp add: copy_in_def d_def)
  have s: "status_code (x_status x) (x_actual x) \<le> int (unat n)"
    using m by (cases "x_status x") auto
  have e: "libusb_control_transfer u rt rq v i data n tmo w =
      (if \<not> a then Some (LIBUSB_ERROR_NO_MEM, data, w1)
       else if \<not> b then Some (LIBUSB_ERROR_NO_MEM, data, w2)
       else if r < 0 then Some (r, data, w3)
       else Some (status_code (x_status x) (x_actual x), d, w4))"
  proof -
    have "(if is_in rt then Some (replicate (unat n) 0) else rd_bytes data 0 (unat n)) = Some p"
      using assms by (simp add: p_def)
    moreover have "(if is_in rt then copy_in data (drop 8 (x_buffer x)) (x_actual x)
        else Some data) = Some d" using c by (simp add: d_def)
    ultimately show ?thesis
      using a b r w4 by (cases "is_in rt") (simp_all add: libusb_control_transfer_def t_def [symmetric] x_def [symmetric] Let_def)
  qed
  have d: "length d = length data \<and> drop (unat n) d = drop (unat n) data"
    using l k assms by (auto simp: d_def)
  have z: "r < 0 \<Longrightarrow> r \<le> int (unat n)" by linarith
  have "\<not> is_in rt \<longrightarrow> d = data" by (simp add: d_def)
  moreover have "(if r < 0 then r else status_code (x_status x) (x_actual x)) \<le> int (unat n)"
    using s z by simp
  ultimately show ?thesis using d unfolding e by (cases a; cases b; cases "r < 0") (simp_all add: order_trans [of _ 0])
qed

end

text \<open>
  What a caller of the control transfer relies on: it returns, within the requested length,
  and touches only the bytes it was given.
\<close>

type_synonym 'w pipe =
  "u8 \<Rightarrow> u8 \<Rightarrow> u16 \<Rightarrow> u16 \<Rightarrow> u8 list \<Rightarrow> u16 \<Rightarrow> u32 \<Rightarrow> 'w \<Rightarrow> (int \<times> u8 list \<times> 'w) option"

locale control_pipe =
  fixes xfer :: "'w pipe"
  assumes xfer_returns: "unat n \<le> length data \<Longrightarrow>
    \<exists>r data' w'. xfer rt rq v i data n tmo w = Some (r, data', w')
      \<and> length data' = length data \<and> drop (unat n) data' = drop (unat n) data
      \<and> r \<le> int (unat n) \<and> (\<not> is_in rt \<longrightarrow> data' = data)"

sublocale usb_backend < pipe: control_pipe "libusb_control_transfer u"
  by unfold_locales (rule control_transfer_returns)

section \<open>A device that keeps what it is sent\<close>

text \<open>
  A backend for concrete runs: the value last sent for each pair of \<open>wValue\<close> and
  \<open>wIndex\<close> is kept and sent back on request, cut or zero-filled to the requested length.
\<close>

type_synonym echo_world = "(u16 \<times> u16 \<Rightarrow> u8 list) \<times> bool"

definition setup_value :: "u8 list \<Rightarrow> u16 \<times> u16" where
  "setup_value p = (SW_TO_SHORT (p ! 2) (p ! 3), SW_TO_SHORT (p ! 4) (p ! 5))"

definition echo_usb :: "echo_world usb" where
  "echo_usb = \<lparr>
     usb_alloc = \<lambda>w. (True, w), usb_malloc = \<lambda>n w. (True, w),
     usb_submit = \<lambda>t (s, d). (0,
       (if is_in (t_buffer t ! 0) then s else s(setup_value (t_buffer t) := drop 8 (t_buffer t)),
        False)),
     usb_events = \<lambda>(s, d). (0, (s, True)),
     usb_cancel = \<lambda>w. w,
     usb_completed = snd,
     usb_outcome = \<lambda>t (s, d). (let n = length (t_buffer t) - 8 in
       \<lparr>x_status = TRANSFER_COMPLETED,
        x_actual = max 0 (t_length t - 8),
        x_buffer = take 8 (t_buffer t) @
          (if is_in (t_buffer t ! 0)
           then take n (s (setup_value (t_buffer t)) @ replicate n 0) else drop 8 (t_buffer t))\<rparr>),
     usb_claim = \<lambda>i w. (0, w), usb_release = \<lambda>i w. (0, w), usb_set_alt = \<lambda>i a w. (0, w),
     usb_clear_halt = \<lambda>e w. (0, w) \<rparr>"

lemma setup_value_fill [simp]: "setup_value (fill_control_setup rt rq v i n @ xs) = (v, i)"
  by (simp add: setup_value_def fill_control_setup_def SHORT_TO_SW_def nth_append)

lemma fill_control_setup_0 [simp]: "(fill_control_setup rt rq v i n @ xs) ! 0 = rt"
  by (simp add: fill_control_setup_def)

lemma length_fill_control_setup [simp]: "length (fill_control_setup rt rq v i n) = 8"
  by (simp add: fill_control_setup_def)

lemma echo_simps:
  "usb_alloc echo_usb w = (True, w)"
  "usb_malloc echo_usb k w = (True, w)"
  "usb_completed echo_usb w = snd w"
  "wait_step echo_usb w = (fst w, True)"
  "usb_submit echo_usb (fill_control_transfer rt rq v i n p tmo) (s, d) =
     (0, (if is_in rt then s else s((v, i) := p), False))"
  "usb_outcome echo_usb (fill_control_transfer rt rq v i n p tmo) (s, d) =
     \<lparr>x_status = TRANSFER_COMPLETED, x_actual = int (unat n),
      x_buffer = fill_control_setup rt rq v i n
        @ (if is_in rt then take (length p) (s (v, i) @ replicate (length p) 0) else p)\<rparr>"
  by (simp_all add: echo_usb_def wait_step_def fill_control_transfer_def Let_def split_beta)

lemma echo_wait: "sync_transfer_wait_for_completion echo_usb w = Some (fst w, True)"
proof -
  have "sync_transfer_wait_for_completion echo_usb (fst w, True) = Some (fst w, True)"
    by (subst sync_transfer_wait_for_completion.simps) (simp add: echo_simps)
  then show ?thesis
    by (subst sync_transfer_wait_for_completion.simps) (cases w; simp add: echo_simps)
qed

lemma echo_transfer:
  assumes "unat n \<le> length data"
  shows "libusb_control_transfer echo_usb rt rq v i data n tmo (s, d) =
    Some (int (unat n),
      (if is_in rt then take (unat n) (s (v, i) @ replicate (unat n) 0) @ drop (unat n) data else data),
      (if is_in rt then s else s((v, i) := take (unat n) data), True))"
proof -
  define q where "q = take (unat n) (s (v, i) @ replicate (unat n) 0)"
  have "length q = unat n" by (simp add: q_def)
  with assms show ?thesis
    by (cases "is_in rt")
      (simp_all add: libusb_control_transfer_def echo_simps echo_wait copy_in_def Let_def
        q_def [symmetric] del: take_append)
qed

lemma echo_interfaces [simp]:
  "usb_claim echo_usb i w = (0, w)" "usb_release echo_usb i w = (0, w)"
  "usb_set_alt echo_usb i a w = (0, w)" "usb_clear_halt echo_usb e w = (0, w)"
  by (simp_all add: echo_usb_def)

interpretation echo: usb_backend echo_usb "\<lambda>w. if snd w then 0 else 1"
  by unfold_locales
    (auto simp: echo_simps, auto simp: echo_usb_def Let_def split_beta min_def)

section \<open>Properties\<close>

text \<open>
  Waiting is exactly as live as the backend: the loop of a synchronous transfer has no
  result if and only if no number of event rounds (with the cancellations the loop requests
  after a failed round) ever completes the transfer.
\<close>
theorem wait_for_completion_live:
  "sync_transfer_wait_for_completion u w = None
    \<longleftrightarrow> (\<forall>n. \<not> usb_completed u ((wait_step u ^^ n) w))"
proof
  assume "sync_transfer_wait_for_completion u w = None"
  then show "\<forall>n. \<not> usb_completed u ((wait_step u ^^ n) w)"
    using wait_completed [of u _ w] by fastforce
next
  assume "\<forall>n. \<not> usb_completed u ((wait_step u ^^ n) w)"
  then show "sync_transfer_wait_for_completion u w = None"
    using wait_reached [of u w] by (cases "sync_transfer_wait_for_completion u w") auto
qed



text \<open>
  The setup packet on the wire is eight bytes, and its little-endian fields read back as
  the arguments of the call.
\<close>
theorem control_setup_roundtrip:
  "length (fill_control_setup rt rq v i n) = 8
    \<and> (let p = fill_control_setup rt rq v i n in
        p ! 0 = rt \<and> p ! 1 = rq \<and> sw_at p 2 = Some v \<and> sw_at p 4 = Some i \<and> sw_at p 6 = Some n)"
  by (simp add: fill_control_setup_def SHORT_TO_SW_def)

end
