(* ===== verification/Uvc_Types.thy ===== *)
theory Uvc_Types
  imports Libusb_Sync
begin

text \<open>
  The data of libuvc (\<^verbatim>\<open>libuvc/include/libuvc/libuvc.h\<close> and
  \<^verbatim>\<open>libuvc_internal.h\<close>): the parsed device description that \<^verbatim>\<open>device.c\<close> builds
  and \<^verbatim>\<open>ctrl.c\<close> and \<^verbatim>\<open>stream.c\<close> read. The doubly linked lists of the C structs are
  lists here, in their order; \<^verbatim>\<open>parent\<close> pointers are left out, since a value is only
  reached through its parent. The USB descriptors that libusb hands over are records too.
\<close>

section \<open>Error codes\<close>

abbreviation (input) "UVC_ERROR_IO \<equiv> -1 :: int"
abbreviation (input) "UVC_ERROR_INVALID_PARAM \<equiv> -2 :: int"
abbreviation (input) "UVC_ERROR_NO_DEVICE \<equiv> -4 :: int"
abbreviation (input) "UVC_ERROR_NOT_FOUND \<equiv> -5 :: int"
abbreviation (input) "UVC_ERROR_BUSY \<equiv> -6 :: int"
abbreviation (input) "UVC_ERROR_TIMEOUT \<equiv> -7 :: int"
abbreviation (input) "UVC_ERROR_NO_MEM \<equiv> -11 :: int"
abbreviation (input) "UVC_ERROR_NOT_SUPPORTED \<equiv> -12 :: int"
abbreviation (input) "UVC_ERROR_INVALID_DEVICE \<equiv> -50 :: int"
abbreviation (input) "UVC_ERROR_INVALID_MODE \<equiv> -51 :: int"
abbreviation (input) "UVC_ERROR_CALLBACK_EXISTS \<equiv> -52 :: int"

section \<open>USB descriptors\<close>

text \<open>
  \<open>extra\<close> is the object libusb allocates for the class-specific bytes, of exactly
  \<^verbatim>\<open>extra_length\<close> bytes; a configuration is the altsettings of each interface.
\<close>

record usb_endpoint =
  ep_bEndpointAddress :: u8
  ep_wMaxPacketSize :: u16
  ep_extra :: "u8 list"

record usb_altsetting =
  as_bInterfaceNumber :: u8
  as_bAlternateSetting :: u8
  as_bInterfaceClass :: u8
  as_bInterfaceSubClass :: u8
  as_endpoints :: "usb_endpoint list"
  as_extra :: "u8 list"

type_synonym usb_config = "usb_altsetting list list"

section \<open>The VideoControl interface\<close>

record input_terminal =
  it_bTerminalID :: u8
  it_wTerminalType :: u16
  it_wObjectiveFocalLengthMin :: u16
  it_wObjectiveFocalLengthMax :: u16
  it_wOcularFocalLength :: u16
  it_bmControls :: u64
  it_request :: u16

record output_terminal =
  ot_bTerminalID :: u8
  ot_wTerminalType :: u16
  ot_bAssocTerminal :: u16
  ot_bSourceID :: u8
  ot_iTerminal :: u8
  ot_request :: u16

record processing_unit =
  pu_bUnitID :: u8
  pu_bSourceID :: u8
  pu_bmControls :: u64
  pu_request :: u16

record extension_unit =
  xu_bUnitID :: u8
  xu_guidExtensionCode :: "u8 list"
  xu_bmControls :: u64
  xu_request :: u16

record uvc_control_interface =
  input_term_descs :: "input_terminal list"
  output_term_descs :: "output_terminal list"
  processing_unit_descs :: "processing_unit list"
  extension_unit_descs :: "extension_unit list"
  ci_bcdUVC :: u16
  ci_bEndpointAddress :: u8
  ci_bInterfaceNumber :: u8

section \<open>The VideoStreaming interfaces\<close>

text \<open>
  \<open>fr_intervals\<close> is \<open>None\<close> for the null pointer. The union of \<^verbatim>\<open>guidFormat\<close> and
  \<^verbatim>\<open>fourccFormat\<close> is the sixteen bytes of the former, and the union of
  \<^verbatim>\<open>bBitsPerPixel\<close> and \<^verbatim>\<open>bmFlags\<close> is one byte.
\<close>

record frame_desc =
  fr_bDescriptorSubtype :: u8
  fr_bFrameIndex :: u8
  fr_bmCapabilities :: u8
  fr_wWidth :: u16
  fr_wHeight :: u16
  fr_dwMinBitRate :: u32
  fr_dwMaxBitRate :: u32
  fr_dwMaxVideoFrameBufferSize :: u32
  fr_dwDefaultFrameInterval :: u32
  fr_dwMinFrameInterval :: u32
  fr_dwMaxFrameInterval :: u32
  fr_dwFrameIntervalStep :: u32
  fr_bFrameIntervalType :: u8
  fr_dwBytesPerLine :: u32
  fr_intervals :: "u32 list option"

record format_desc =
  fm_bDescriptorSubtype :: u8
  fm_bFormatIndex :: u8
  fm_bNumFrameDescriptors :: u8
  fm_guidFormat :: "u8 list"
  fm_bBitsPerPixel :: u8
  fm_bDefaultFrameIndex :: u8
  fm_bAspectRatioX :: u8
  fm_bAspectRatioY :: u8
  fm_bmInterlaceFlags :: u8
  fm_bCopyProtect :: u8
  fm_bVariableSize :: u8
  fm_frame_descs :: "frame_desc list"

record streaming_interface =
  si_bInterfaceNumber :: u8
  si_format_descs :: "format_desc list"
  si_bEndpointAddress :: u8
  si_bTerminalLink :: u8
  si_bmInfo :: u8
  si_bStillCaptureMethod :: u8
  si_bTriggerSupport :: u8
  si_bTriggerUsage :: u8
  si_bmaControls :: "u64 list option"

record uvc_device_info =
  di_config :: "usb_config option"
  ctrl_if :: uvc_control_interface
  stream_ifs :: "streaming_interface list"

text \<open>
  An opened device: its parsed description and the flags the code reads. The
  \<^verbatim>\<open>usb_devh\<close> of the struct is the record \<open>usb\<close> and the world it acts on.
\<close>

record device_handle =
  dh_info :: uvc_device_info
  dh_is_isight :: bool
  dh_reset_on_release_if :: bool

text \<open>The structs as \<^verbatim>\<open>calloc\<close> leaves them.\<close>

definition zero_frame :: frame_desc where
  "zero_frame = \<lparr>fr_bDescriptorSubtype = 0, fr_bFrameIndex = 0, fr_bmCapabilities = 0,
     fr_wWidth = 0, fr_wHeight = 0, fr_dwMinBitRate = 0, fr_dwMaxBitRate = 0,
     fr_dwMaxVideoFrameBufferSize = 0, fr_dwDefaultFrameInterval = 0,
     fr_dwMinFrameInterval = 0, fr_dwMaxFrameInterval = 0, fr_dwFrameIntervalStep = 0,
     fr_bFrameIntervalType = 0, fr_dwBytesPerLine = 0, fr_intervals = None\<rparr>"

definition zero_format :: format_desc where
  "zero_format = \<lparr>fm_bDescriptorSubtype = 0, fm_bFormatIndex = 0, fm_bNumFrameDescriptors = 0,
     fm_guidFormat = replicate 16 0, fm_bBitsPerPixel = 0, fm_bDefaultFrameIndex = 0,
     fm_bAspectRatioX = 0, fm_bAspectRatioY = 0, fm_bmInterlaceFlags = 0, fm_bCopyProtect = 0,
     fm_bVariableSize = 0, fm_frame_descs = []\<rparr>"

definition zero_stream_if :: streaming_interface where
  "zero_stream_if = \<lparr>si_bInterfaceNumber = 0, si_format_descs = [], si_bEndpointAddress = 0,
     si_bTerminalLink = 0, si_bmInfo = 0, si_bStillCaptureMethod = 0, si_bTriggerSupport = 0,
     si_bTriggerUsage = 0, si_bmaControls = None\<rparr>"

definition zero_ctrl_if :: uvc_control_interface where
  "zero_ctrl_if = \<lparr>input_term_descs = [], output_term_descs = [], processing_unit_descs = [],
     extension_unit_descs = [], ci_bcdUVC = 0, ci_bEndpointAddress = 0, ci_bInterfaceNumber = 0\<rparr>"

section \<open>Bitmaps of controls\<close>

text \<open>
  The loop \<^verbatim>\<open>for (i = start + n - 1; i >= start; i--) acc = block[i] + (acc << 8)\<close>
  that several parsers use to read a little-endian bitmap of \<open>n\<close> bytes.
\<close>

fun bm_controls :: "u8 list \<Rightarrow> nat \<Rightarrow> nat \<Rightarrow> u64 \<Rightarrow> u64 option" where
  "bm_controls block start 0 acc = Some acc"
| "bm_controls block start (Suc k) acc =
     do { b \<leftarrow> rd block (start + k); bm_controls block start k (ucast b + push_bit 8 acc) }"

lemma bm_controls_total:
  "start + n \<le> length block \<Longrightarrow> \<exists>v. bm_controls block start n acc = Some v"
  by (induction n arbitrary: acc) auto

lemma bm_controls_None:
  "bm_controls block start n acc = None \<longleftrightarrow> 0 < n \<and> length block < start + n"
proof (induction n arbitrary: acc)
  case 0
  then show ?case by simp
next
  case (Suc n)
  then show ?case by (auto simp: ub_simps)
qed

lemma bit_shift_in:
  "bit (ucast b + push_bit 8 acc) i \<longleftrightarrow>
     (if i < 8 then bit b i else i < 64 \<and> bit acc (i - 8))" for b :: u8 and acc :: u64
proof -
  have "ucast b + push_bit 8 acc = ucast b OR push_bit 8 acc"
    by (rule disjunctive_add) (auto simp: bit_simps dest: bit_imp_le_length)
  then show ?thesis by (auto simp: bit_simps dest: bit_imp_le_length)
qed

text \<open>Bit \<open>j\<close> of the \<open>k\<close>-th control byte is bit \<open>8 k + j\<close> of the bitmap.\<close>

lemma bit_bm_controls:
  assumes "bm_controls block start n acc = Some v"
  shows "bit v i \<longleftrightarrow> i < 64 \<and>
    (if i < 8 * n then bit (block ! (start + i div 8)) (i mod 8) else bit acc (i - 8 * n))"
  using assms
proof (induction n arbitrary: acc)
  case 0
  then show ?case by (auto dest: bit_imp_le_length)
next
  case (Suc n)
  then have v: "bm_controls block start n (ucast (block ! (start + n)) + push_bit 8 acc) = Some v"
    by (auto simp: ub_simps)
  show ?case
  proof (cases "i < 8 * n")
    case True
    then show ?thesis using Suc.IH [OF v] by simp
  next
    case False
    then obtain j where j: "i = 8 * n + j" using le_Suc_ex linorder_not_less by blast
    show ?thesis using Suc.IH [OF v] unfolding bit_shift_in by (auto simp: j)
  qed
qed

end
