(* ===== verification/Uvc_Descriptors.thy ===== *)
theory Uvc_Descriptors
  imports Uvc_Types
begin

text \<open>
  The descriptor parser of \<^verbatim>\<open>libuvc/src/device.c\<close>: \<open>uvc_scan_control\<close> finds the
  VideoControl interface and walks its class-specific blocks, the VideoControl header leads to
  \<open>uvc_scan_streaming\<close> for each streaming interface, and the \<open>uvc_parse_...\<close> functions turn
  one block each into a struct. A block argument is the rest of the \<open>extra\<close> object from the
  block's first byte, so a read beyond the object is \<open>None\<close> and a read beyond the block but
  within the object is not. Every function gives the error code and the updated struct.
\<close>

section \<open>Constants\<close>

abbreviation (input) "LIBUSB_CLASS_VIDEO \<equiv> 14 :: u8"
abbreviation (input) "LIBUSB_DT_CS_INTERFACE \<equiv> 0x24 :: u8"
abbreviation (input) "UVC_VC_HEADER \<equiv> 0x01 :: u8"
abbreviation (input) "UVC_VC_INPUT_TERMINAL \<equiv> 0x02 :: u8"
abbreviation (input) "UVC_VC_OUTPUT_TERMINAL \<equiv> 0x03 :: u8"
abbreviation (input) "UVC_VC_SELECTOR_UNIT \<equiv> 0x04 :: u8"
abbreviation (input) "UVC_VC_PROCESSING_UNIT \<equiv> 0x05 :: u8"
abbreviation (input) "UVC_VC_EXTENSION_UNIT \<equiv> 0x06 :: u8"
abbreviation (input) "UVC_ITT_CAMERA \<equiv> 0x0201 :: u16"
abbreviation (input) "UVC_OTT_DISPLAY \<equiv> 0x0301 :: u16"
abbreviation (input) "UVC_VS_INPUT_HEADER \<equiv> 0x01 :: u8"
abbreviation (input) "UVC_VS_FORMAT_UNCOMPRESSED \<equiv> 0x04 :: u8"
abbreviation (input) "UVC_VS_FRAME_UNCOMPRESSED \<equiv> 0x05 :: u8"
abbreviation (input) "UVC_VS_FORMAT_MJPEG \<equiv> 0x06 :: u8"
abbreviation (input) "UVC_VS_FRAME_MJPEG \<equiv> 0x07 :: u8"
abbreviation (input) "UVC_VS_FORMAT_FRAME_BASED \<equiv> 0x10 :: u8"
abbreviation (input) "UVC_VS_FRAME_FRAME_BASED \<equiv> 0x11 :: u8"

section \<open>Walking the blocks\<close>

text \<open>
  The loop shared by \<open>uvc_scan_control\<close> and \<open>uvc_scan_streaming\<close>: while three bytes are
  left, parse the block at the front and advance by its first byte. A block longer than what
  is left wraps \<^verbatim>\<open>buffer_left\<close> around and the next read is outside the object. A block
  of length 0 does not advance, and the loop need not end.
\<close>

partial_function (option) scan_blocks ::
  "(u8 list \<Rightarrow> nat \<Rightarrow> 's \<Rightarrow> (int \<times> 's) option) \<Rightarrow> u8 list \<Rightarrow> 's \<Rightarrow> (int \<times> 's) option" where
  "scan_blocks parse buffer s =
     (if length buffer < 3 then Some (UVC_SUCCESS, s)
      else do {
        block_size \<leftarrow> rd buffer 0;
        (parse_ret, s) \<leftarrow> parse buffer (unat block_size) s;
        if parse_ret \<noteq> UVC_SUCCESS then Some (parse_ret, s)
        else if length buffer < unat block_size then None
        else scan_blocks parse (drop (unat block_size) buffer) s })"

declare scan_blocks.simps [code]

section \<open>VideoStreaming blocks\<close>

text \<open>The bitmaps of the input header, one per format; \<open>p\<close> bitmaps of \<open>n\<close> bytes.\<close>

fun vs_controls :: "u8 list \<Rightarrow> nat \<Rightarrow> nat \<Rightarrow> u64 list option" where
  "vs_controls block n 0 = Some []"
| "vs_controls block n (Suc k) =
     do { cs \<leftarrow> vs_controls block n k;
          c \<leftarrow> bm_controls block (12 + Suc k * n + 1 - n) n 0;
          Some (cs @ [c]) }"

text \<open>
  \<^verbatim>\<open>(block_size - 13) / n\<close> is a \<^verbatim>\<open>size_t\<close> division stored in a \<^verbatim>\<open>uint8_t\<close>;
  \<open>size_bits\<close> is the width of \<^verbatim>\<open>size_t\<close> on the target (32 or 64).
\<close>

definition header_p :: "nat \<Rightarrow> nat \<Rightarrow> u8 \<Rightarrow> u8" where
  "header_p size_bits block_size n =
     of_nat (nat ((int block_size - 13) mod 2 ^ size_bits) div unat n)"

definition uvc_parse_vs_input_header ::
  "nat \<Rightarrow> u8 list \<Rightarrow> nat \<Rightarrow> streaming_interface \<Rightarrow> (int \<times> streaming_interface) option" where
  "uvc_parse_vs_input_header size_bits block block_size si =
     do { b6 \<leftarrow> rd block 6; b8 \<leftarrow> rd block 8; b7 \<leftarrow> rd block 7; b9 \<leftarrow> rd block 9;
          b10 \<leftarrow> rd block 10; b11 \<leftarrow> rd block 11; n \<leftarrow> rd block 12;
          let si = si\<lparr>si_bEndpointAddress := b6 AND 0x8F, si_bTerminalLink := b8, si_bmInfo := b7,
                    si_bStillCaptureMethod := b9, si_bTriggerSupport := b10, si_bTriggerUsage := b11,
                    si_bmaControls := None\<rparr>;
          if n \<noteq> 0 then
            let p = header_p size_bits block_size n in
            if p \<noteq> 0 then do {
              cs \<leftarrow> vs_controls block (unat n) (unat p);
              Some (UVC_SUCCESS, si\<lparr>si_bmaControls := Some cs\<rparr>) }
            else Some (UVC_SUCCESS, si)
          else Some (UVC_SUCCESS, si) }"

definition append_format :: "streaming_interface \<Rightarrow> format_desc \<Rightarrow> streaming_interface" where
  "append_format si f = si\<lparr>si_format_descs := si_format_descs si @ [f]\<rparr>"

definition uvc_parse_vs_format_uncompressed ::
  "u8 list \<Rightarrow> nat \<Rightarrow> streaming_interface \<Rightarrow> (int \<times> streaming_interface) option" where
  "uvc_parse_vs_format_uncompressed block block_size si =
     do { b2 \<leftarrow> rd block 2; b3 \<leftarrow> rd block 3; guid \<leftarrow> rd_bytes block 5 16; b21 \<leftarrow> rd block 21;
          b22 \<leftarrow> rd block 22; b23 \<leftarrow> rd block 23; b24 \<leftarrow> rd block 24; b25 \<leftarrow> rd block 25;
          b26 \<leftarrow> rd block 26;
          Some (UVC_SUCCESS, append_format si (zero_format\<lparr>fm_bDescriptorSubtype := b2,
            fm_bFormatIndex := b3, fm_guidFormat := guid, fm_bBitsPerPixel := b21,
            fm_bDefaultFrameIndex := b22, fm_bAspectRatioX := b23, fm_bAspectRatioY := b24,
            fm_bmInterlaceFlags := b25, fm_bCopyProtect := b26\<rparr>)) }"

definition uvc_parse_vs_frame_format ::
  "u8 list \<Rightarrow> nat \<Rightarrow> streaming_interface \<Rightarrow> (int \<times> streaming_interface) option" where
  "uvc_parse_vs_frame_format block block_size si =
     do { b2 \<leftarrow> rd block 2; b3 \<leftarrow> rd block 3; b4 \<leftarrow> rd block 4; guid \<leftarrow> rd_bytes block 5 16;
          b21 \<leftarrow> rd block 21; b22 \<leftarrow> rd block 22; b23 \<leftarrow> rd block 23; b24 \<leftarrow> rd block 24;
          b25 \<leftarrow> rd block 25; b26 \<leftarrow> rd block 26; b27 \<leftarrow> rd block 27;
          Some (UVC_SUCCESS, append_format si (zero_format\<lparr>fm_bDescriptorSubtype := b2,
            fm_bFormatIndex := b3, fm_bNumFrameDescriptors := b4, fm_guidFormat := guid,
            fm_bBitsPerPixel := b21, fm_bDefaultFrameIndex := b22, fm_bAspectRatioX := b23,
            fm_bAspectRatioY := b24, fm_bmInterlaceFlags := b25, fm_bCopyProtect := b26,
            fm_bVariableSize := b27\<rparr>)) }"

text \<open>The fourcc overlays the first bytes of the zeroed GUID; \<open>bmFlags\<close> is overwritten.\<close>

definition uvc_parse_vs_format_mjpeg ::
  "u8 list \<Rightarrow> nat \<Rightarrow> streaming_interface \<Rightarrow> (int \<times> streaming_interface) option" where
  "uvc_parse_vs_format_mjpeg block block_size si =
     do { b2 \<leftarrow> rd block 2; b3 \<leftarrow> rd block 3; b5 \<leftarrow> rd block 5; b6 \<leftarrow> rd block 6;
          b7 \<leftarrow> rd block 7; b8 \<leftarrow> rd block 8; b9 \<leftarrow> rd block 9; b10 \<leftarrow> rd block 10;
          let f = zero_format\<lparr>fm_bDescriptorSubtype := b2, fm_bFormatIndex := b3,
            fm_guidFormat := [0x4D, 0x4A, 0x50, 0x47] @ replicate 12 0, fm_bBitsPerPixel := b5\<rparr>;
          Some (UVC_SUCCESS, append_format si (f\<lparr>fm_bBitsPerPixel := 0,
            fm_bDefaultFrameIndex := b6, fm_bAspectRatioX := b7, fm_bAspectRatioY := b8,
            fm_bmInterlaceFlags := b9, fm_bCopyProtect := b10\<rparr>)) }"

text \<open>
  A frame goes to the last format; without one, \<^verbatim>\<open>format_descs->prev\<close> follows a null
  pointer. \<open>read_intervals\<close> is the loop over the discrete frame intervals.
\<close>

definition last_format :: "streaming_interface \<Rightarrow> format_desc option" where
  "last_format si = (if si_format_descs si = [] then None else Some (last (si_format_descs si)))"

definition append_frame :: "streaming_interface \<Rightarrow> frame_desc \<Rightarrow> streaming_interface" where
  "append_frame si fr =
     (let f = last (si_format_descs si)
      in si\<lparr>si_format_descs :=
              butlast (si_format_descs si) @ [f\<lparr>fm_frame_descs := fm_frame_descs f @ [fr]\<rparr>]\<rparr>)"

fun read_intervals :: "u8 list \<Rightarrow> nat \<Rightarrow> nat \<Rightarrow> u32 list option" where
  "read_intervals block p 0 = Some []"
| "read_intervals block p (Suc k) =
     do { v \<leftarrow> dw_at block p; vs \<leftarrow> read_intervals block (p + 4) k; Some (v # vs) }"

definition word_le_at :: "u8 list \<Rightarrow> nat \<Rightarrow> u16 option" where
  "word_le_at block i =
     do { lo \<leftarrow> rd block i; hi \<leftarrow> rd block (i + 1); Some (ucast lo + push_bit 8 (ucast hi)) }"

text \<open>The parts of the two frame parsers: fixed fields, a range, a list of intervals.\<close>

definition frame_based_head :: "u8 list \<Rightarrow> frame_desc option" where
  "frame_based_head block =
     do { b2 \<leftarrow> rd block 2; b3 \<leftarrow> rd block 3; b4 \<leftarrow> rd block 4;
          wid \<leftarrow> word_le_at block 5; hei \<leftarrow> word_le_at block 7;
          minbr \<leftarrow> dw_at block 9; maxbr \<leftarrow> dw_at block 13; deflt \<leftarrow> dw_at block 17;
          n \<leftarrow> rd block 21; bpl \<leftarrow> dw_at block 22;
          Some (zero_frame\<lparr>fr_bDescriptorSubtype := b2, fr_bFrameIndex := b3,
            fr_bmCapabilities := b4, fr_wWidth := wid, fr_wHeight := hei,
            fr_dwMinBitRate := minbr, fr_dwMaxBitRate := maxbr,
            fr_dwDefaultFrameInterval := deflt, fr_bFrameIntervalType := n,
            fr_dwBytesPerLine := bpl\<rparr>) }"

definition frame_range :: "u8 list \<Rightarrow> frame_desc \<Rightarrow> frame_desc option" where
  "frame_range block fr =
     do { a \<leftarrow> dw_at block 26; b \<leftarrow> dw_at block 30; c \<leftarrow> dw_at block 34;
          Some (fr\<lparr>fr_dwMinFrameInterval := a, fr_dwMaxFrameInterval := b,
                   fr_dwFrameIntervalStep := c\<rparr>) }"

definition frame_list :: "u8 list \<Rightarrow> frame_desc \<Rightarrow> frame_desc option" where
  "frame_list block fr =
     do { vs \<leftarrow> read_intervals block 26 (unat (fr_bFrameIntervalType fr));
          Some (fr\<lparr>fr_intervals := Some (vs @ [0])\<rparr>) }"

definition uvc_parse_vs_frame_frame ::
  "u8 list \<Rightarrow> nat \<Rightarrow> streaming_interface \<Rightarrow> (int \<times> streaming_interface) option" where
  "uvc_parse_vs_frame_frame block block_size si =
     do { format \<leftarrow> last_format si;
          fr \<leftarrow> frame_based_head block;
          fr \<leftarrow> (if fr_bFrameIntervalType fr = 0 then frame_range block fr
                else frame_list block fr);
          Some (UVC_SUCCESS, append_frame si fr) }"

definition uncompressed_head :: "u8 list \<Rightarrow> frame_desc option" where
  "uncompressed_head block =
     do { b2 \<leftarrow> rd block 2; b3 \<leftarrow> rd block 3; b4 \<leftarrow> rd block 4;
          wid \<leftarrow> word_le_at block 5; hei \<leftarrow> word_le_at block 7;
          minbr \<leftarrow> dw_at block 9; maxbr \<leftarrow> dw_at block 13; maxsize \<leftarrow> dw_at block 17;
          deflt \<leftarrow> dw_at block 21; n \<leftarrow> rd block 25;
          Some (zero_frame\<lparr>fr_bDescriptorSubtype := b2, fr_bFrameIndex := b3,
            fr_bmCapabilities := b4, fr_wWidth := wid, fr_wHeight := hei,
            fr_dwMinBitRate := minbr, fr_dwMaxBitRate := maxbr,
            fr_dwMaxVideoFrameBufferSize := maxsize, fr_dwDefaultFrameInterval := deflt,
            fr_bFrameIntervalType := n\<rparr>) }"

text \<open>
  Zero intervals of an uncompressed or MJPEG frame are replaced by 1, and the default is
  brought between the first and the last interval.
\<close>

definition frame_list_clamped :: "u8 list \<Rightarrow> frame_desc \<Rightarrow> frame_desc option" where
  "frame_list_clamped block fr =
     do { vs \<leftarrow> read_intervals block 26 (unat (fr_bFrameIntervalType fr));
          let vs = map (\<lambda>v. if v \<noteq> 0 then v else 1) vs;
          Some (fr\<lparr>fr_intervals := Some (vs @ [0]),
                   fr_dwDefaultFrameInterval :=
                     min (last vs) (max (hd vs) (fr_dwDefaultFrameInterval fr))\<rparr>) }"

text \<open>
  \<^verbatim>\<open>bBitsPerPixel * wWidth * wHeight / 8\<close> is an \<^verbatim>\<open>int\<close> computation: undefined when
  it exceeds \<open>2 ^ 31 - 1\<close>.
\<close>

definition frame_bytes :: "u8 \<Rightarrow> u16 \<Rightarrow> u16 \<Rightarrow> u32 option" where
  "frame_bytes bpp wid hei =
     (let n = uint bpp * uint wid * uint hei in if n < 2 ^ 31 then Some (of_int (n div 8)) else None)"

definition frame_size :: "format_desc \<Rightarrow> frame_desc \<Rightarrow> frame_desc option" where
  "frame_size format fr =
     (if fr_bDescriptorSubtype fr = UVC_VS_FRAME_UNCOMPRESSED
      then do { m \<leftarrow> frame_bytes (fm_bBitsPerPixel format) (fr_wWidth fr) (fr_wHeight fr);
                Some (fr\<lparr>fr_dwMaxVideoFrameBufferSize := m\<rparr>) }
      else Some fr)"

definition uvc_parse_vs_frame_uncompressed ::
  "u8 list \<Rightarrow> nat \<Rightarrow> streaming_interface \<Rightarrow> (int \<times> streaming_interface) option" where
  "uvc_parse_vs_frame_uncompressed block block_size si =
     do { format \<leftarrow> last_format si;
          fr \<leftarrow> uncompressed_head block;
          fr \<leftarrow> (if fr_bFrameIntervalType fr = 0 then frame_range block fr
                else frame_list_clamped block fr);
          fr \<leftarrow> frame_size format fr;
          Some (UVC_SUCCESS, append_frame si fr) }"

definition uvc_parse_vs ::
  "nat \<Rightarrow> u8 list \<Rightarrow> nat \<Rightarrow> streaming_interface \<Rightarrow> (int \<times> streaming_interface) option" where
  "uvc_parse_vs size_bits block block_size si =
     do { descriptor_subtype \<leftarrow> rd block 2;
          if descriptor_subtype = UVC_VS_INPUT_HEADER
          then uvc_parse_vs_input_header size_bits block block_size si
          else if descriptor_subtype = UVC_VS_FORMAT_UNCOMPRESSED
          then uvc_parse_vs_format_uncompressed block block_size si
          else if descriptor_subtype = UVC_VS_FORMAT_MJPEG
          then uvc_parse_vs_format_mjpeg block block_size si
          else if descriptor_subtype = UVC_VS_FRAME_UNCOMPRESSED
                \<or> descriptor_subtype = UVC_VS_FRAME_MJPEG
          then uvc_parse_vs_frame_uncompressed block block_size si
          else if descriptor_subtype = UVC_VS_FORMAT_FRAME_BASED
          then uvc_parse_vs_frame_format block block_size si
          else if descriptor_subtype = UVC_VS_FRAME_FRAME_BASED
          then uvc_parse_vs_frame_frame block block_size si
          else Some (UVC_SUCCESS, si) }"

text \<open>
  A new streaming interface is appended and its blocks are parsed into it; on an error it
  stays in the list as far as it was filled.
\<close>

definition stream_extra :: "usb_altsetting \<Rightarrow> u8 list" where
  "stream_extra if_desc =
     (if as_extra if_desc = []
      then (case as_endpoints if_desc of [] \<Rightarrow> [] | ep # _ \<Rightarrow> ep_extra ep)
      else as_extra if_desc)"

definition first_altsetting :: "uvc_device_info \<Rightarrow> nat \<Rightarrow> usb_altsetting option" where
  "first_altsetting info i =
     do { cfg \<leftarrow> di_config info; alts \<leftarrow> rd cfg i; rd alts 0 }"

definition uvc_scan_streaming ::
  "nat \<Rightarrow> uvc_device_info \<Rightarrow> nat \<Rightarrow> (int \<times> uvc_device_info) option" where
  "uvc_scan_streaming size_bits info interface_idx =
     do { if_desc \<leftarrow> first_altsetting info interface_idx;
          let si = zero_stream_if\<lparr>si_bInterfaceNumber := as_bInterfaceNumber if_desc\<rparr>;
          (ret, si) \<leftarrow> scan_blocks (uvc_parse_vs size_bits) (stream_extra if_desc) si;
          Some (ret, info\<lparr>stream_ifs := stream_ifs info @ [si]\<rparr>) }"

section \<open>VideoControl blocks\<close>

text \<open>\<^verbatim>\<open>(id << 8) | bInterfaceNumber\<close>, the \<open>wIndex\<close> of requests to an entity.\<close>

definition entity_request :: "u8 \<Rightarrow> u8 \<Rightarrow> u16" where
  "entity_request bid ifnum = push_bit 8 (ucast bid) OR ucast ifnum"

definition upd_ctrl_if ::
  "(uvc_control_interface \<Rightarrow> uvc_control_interface) \<Rightarrow> uvc_device_info \<Rightarrow> uvc_device_info" where
  "upd_ctrl_if f info = info\<lparr>ctrl_if := f (ctrl_if info)\<rparr>"

text \<open>The header's loop over the streaming interface numbers, from index \<open>i\<close> on.\<close>

fun scan_interfaces ::
  "nat \<Rightarrow> u8 list \<Rightarrow> nat \<Rightarrow> nat \<Rightarrow> uvc_device_info \<Rightarrow> (int \<times> uvc_device_info) option" where
  "scan_interfaces size_bits block i 0 info = Some (UVC_SUCCESS, info)"
| "scan_interfaces size_bits block i (Suc k) info =
     do { b \<leftarrow> rd block i;
          (scan_ret, info) \<leftarrow> uvc_scan_streaming size_bits info (unat b);
          if scan_ret \<noteq> UVC_SUCCESS then Some (scan_ret, info)
          else scan_interfaces size_bits block (Suc i) k info }"

definition uvc_parse_vc_header ::
  "nat \<Rightarrow> u8 list \<Rightarrow> nat \<Rightarrow> uvc_device_info \<Rightarrow> (int \<times> uvc_device_info) option" where
  "uvc_parse_vc_header size_bits block block_size info =
     do { ver \<leftarrow> sw_at block 3;
          let info = upd_ctrl_if (\<lambda>c. c\<lparr>ci_bcdUVC := ver\<rparr>) info;
          if ver = 0x0100 \<or> ver = 0x010A \<or> ver = 0x0110 \<or> ver = 0x0150
          then scan_interfaces size_bits block 12 (block_size - 12) info
          else Some (UVC_ERROR_NOT_SUPPORTED, info) }"

definition uvc_parse_vc_input_terminal ::
  "u8 list \<Rightarrow> nat \<Rightarrow> uvc_device_info \<Rightarrow> (int \<times> uvc_device_info) option" where
  "uvc_parse_vc_input_terminal block block_size info =
     do { ttype \<leftarrow> sw_at block 4;
          if ttype \<noteq> UVC_ITT_CAMERA then Some (UVC_SUCCESS, info)
          else do {
            tid \<leftarrow> rd block 3; fmin \<leftarrow> sw_at block 8; fmax \<leftarrow> sw_at block 10; focal \<leftarrow> sw_at block 12;
            n \<leftarrow> rd block 14; ctrls \<leftarrow> bm_controls block 15 (unat n) 0;
            Some (UVC_SUCCESS, upd_ctrl_if (\<lambda>c. c\<lparr>input_term_descs := input_term_descs c @
              [\<lparr>it_bTerminalID = tid, it_wTerminalType = ttype, it_wObjectiveFocalLengthMin = fmin,
                it_wObjectiveFocalLengthMax = fmax, it_wOcularFocalLength = focal,
                it_bmControls = ctrls,
                it_request = entity_request tid (ci_bInterfaceNumber c)\<rparr>]\<rparr>) info) } }"

text \<open>This one is defined in the file and called by nothing.\<close>

definition uvc_parse_vc_output_terminal ::
  "u8 list \<Rightarrow> nat \<Rightarrow> uvc_device_info \<Rightarrow> (int \<times> uvc_device_info) option" where
  "uvc_parse_vc_output_terminal block block_size info =
     do { ttype \<leftarrow> sw_at block 4;
          if ttype \<noteq> UVC_OTT_DISPLAY then Some (UVC_SUCCESS, info)
          else do {
            tid \<leftarrow> rd block 3; assoc \<leftarrow> rd block 6; src \<leftarrow> rd block 7; istr \<leftarrow> rd block 8;
            Some (UVC_SUCCESS, upd_ctrl_if (\<lambda>c. c\<lparr>output_term_descs := output_term_descs c @
              [\<lparr>ot_bTerminalID = tid, ot_wTerminalType = ttype, ot_bAssocTerminal = ucast assoc,
                ot_bSourceID = src, ot_iTerminal = istr,
                ot_request = entity_request tid (ci_bInterfaceNumber c)\<rparr>]\<rparr>) info) } }"

definition uvc_parse_vc_processing_unit ::
  "u8 list \<Rightarrow> nat \<Rightarrow> uvc_device_info \<Rightarrow> (int \<times> uvc_device_info) option" where
  "uvc_parse_vc_processing_unit block block_size info =
     do { uid \<leftarrow> rd block 3; src \<leftarrow> rd block 4; n \<leftarrow> rd block 7;
          ctrls \<leftarrow> bm_controls block 8 (unat n) 0;
          Some (UVC_SUCCESS, upd_ctrl_if (\<lambda>c. c\<lparr>processing_unit_descs := processing_unit_descs c @
            [\<lparr>pu_bUnitID = uid, pu_bSourceID = src, pu_bmControls = ctrls,
              pu_request = entity_request uid (ci_bInterfaceNumber c)\<rparr>]\<rparr>) info) }"

definition uvc_parse_vc_extension_unit ::
  "u8 list \<Rightarrow> nat \<Rightarrow> uvc_device_info \<Rightarrow> (int \<times> uvc_device_info) option" where
  "uvc_parse_vc_extension_unit block block_size info =
     do { uid \<leftarrow> rd block 3; guid \<leftarrow> rd_bytes block 4 16; pins \<leftarrow> rd block 21;
          n \<leftarrow> rd block (22 + unat pins);
          ctrls \<leftarrow> bm_controls block (23 + unat pins) (unat n) 0;
          Some (UVC_SUCCESS, upd_ctrl_if (\<lambda>c. c\<lparr>extension_unit_descs := extension_unit_descs c @
            [\<lparr>xu_bUnitID = uid, xu_guidExtensionCode = guid, xu_bmControls = ctrls,
              xu_request = entity_request uid (ci_bInterfaceNumber c)\<rparr>]\<rparr>) info) }"

definition uvc_parse_vc ::
  "nat \<Rightarrow> u8 list \<Rightarrow> nat \<Rightarrow> uvc_device_info \<Rightarrow> (int \<times> uvc_device_info) option" where
  "uvc_parse_vc size_bits block block_size info =
     do { b1 \<leftarrow> rd block 1;
          if b1 \<noteq> LIBUSB_DT_CS_INTERFACE then Some (UVC_SUCCESS, info)
          else do {
            descriptor_subtype \<leftarrow> rd block 2;
            if descriptor_subtype = UVC_VC_HEADER
            then uvc_parse_vc_header size_bits block block_size info
            else if descriptor_subtype = UVC_VC_INPUT_TERMINAL
            then uvc_parse_vc_input_terminal block block_size info
            else if descriptor_subtype = UVC_VC_OUTPUT_TERMINAL
                  \<or> descriptor_subtype = UVC_VC_SELECTOR_UNIT
            then Some (UVC_SUCCESS, info)
            else if descriptor_subtype = UVC_VC_PROCESSING_UNIT
            then uvc_parse_vc_processing_unit block block_size info
            else if descriptor_subtype = UVC_VC_EXTENSION_UNIT
            then uvc_parse_vc_extension_unit block block_size info
            else Some (UVC_ERROR_INVALID_DEVICE, info) } }"

section \<open>Finding the VideoControl interface\<close>

text \<open>
  The loop over the interfaces from \<open>i\<close> on: the first one whose altsetting 0 is VideoControl,
  or is vendor-specific on an Imaging Source camera. \<open>ids\<close> is what the device descriptor
  query of the second test yields: the vendor and product, or none when it fails, in which
  case the C reads an uninitialised pointer. The result is the index and altsetting found.
\<close>

fun find_control ::
  "(u16 \<times> u16) option \<Rightarrow> usb_config \<Rightarrow> nat \<Rightarrow> ((nat \<times> usb_altsetting) option) option" where
  "find_control ids [] i = Some None"
| "find_control ids (alts # rest) i =
     do { if_desc \<leftarrow> rd alts 0;
          if as_bInterfaceClass if_desc = LIBUSB_CLASS_VIDEO \<and> as_bInterfaceSubClass if_desc = 1
          then Some (Some (i, if_desc))
          else if as_bInterfaceClass if_desc = 255 \<and> as_bInterfaceSubClass if_desc = 1
          then do {
            (vendor, product) \<leftarrow> ids;
            if vendor = 0x199E \<and> product = 0x8101 then Some (Some (i, if_desc))
            else find_control ids rest (Suc i) }
          else find_control ids rest (Suc i) }"

text \<open>What is recorded of the interface found, before its blocks are walked.\<close>

definition open_ctrl_if :: "nat \<Rightarrow> usb_altsetting \<Rightarrow> uvc_device_info \<Rightarrow> uvc_device_info" where
  "open_ctrl_if interface_idx if_desc info =
     (let info = upd_ctrl_if (\<lambda>c. c\<lparr>ci_bInterfaceNumber := of_nat interface_idx\<rparr>) info
      in case as_endpoints if_desc of
           [] \<Rightarrow> info
         | ep # _ \<Rightarrow> upd_ctrl_if (\<lambda>c. c\<lparr>ci_bEndpointAddress := ep_bEndpointAddress ep\<rparr>) info)"

definition uvc_scan_control ::
  "nat \<Rightarrow> (u16 \<times> u16) option \<Rightarrow> uvc_device_info \<Rightarrow> (int \<times> uvc_device_info) option" where
  "uvc_scan_control size_bits ids info =
     do { found \<leftarrow> (case di_config info of None \<Rightarrow> Some None | Some cfg \<Rightarrow> find_control ids cfg 0);
          (case found of
             None \<Rightarrow> Some (UVC_ERROR_INVALID_DEVICE, info)
           | Some (interface_idx, if_desc) \<Rightarrow>
               scan_blocks (uvc_parse_vc size_bits) (as_extra if_desc)
                 (open_ctrl_if interface_idx if_desc info)) }"

section \<open>The walk over well-formed blocks\<close>

text \<open>
  \<open>blocks_ok\<close>: the bytes split into blocks that start with their own length, at least 3, and
  a rest of at most two bytes. \<open>fold_blocks\<close> is the walk as a fold over the block starts,
  ended by the first error.
\<close>

fun fold_blocks :: "(u8 list \<Rightarrow> nat \<Rightarrow> 's \<Rightarrow> (int \<times> 's) option) \<Rightarrow> u8 list list \<Rightarrow> u8 list \<Rightarrow> 's
    \<Rightarrow> (int \<times> 's) option" where
  "fold_blocks parse [] rest s = Some (UVC_SUCCESS, s)"
| "fold_blocks parse (b # bs) rest s =
     do { (r, s) \<leftarrow> parse (b @ concat bs @ rest) (length b) s;
          if r \<noteq> UVC_SUCCESS then Some (r, s) else fold_blocks parse bs rest s }"

definition block_ok :: "u8 list \<Rightarrow> bool" where
  "block_ok b \<longleftrightarrow> 3 \<le> length b \<and> unat (hd b) = length b"

lemma scan_blocks_fold:
  assumes "\<forall>b \<in> set bs. block_ok b" "length rest < 3"
  shows "scan_blocks parse (concat bs @ rest) s = fold_blocks parse bs rest s"
  using assms(1)
proof (induction bs arbitrary: s)
  case Nil
  then show ?case using assms(2) by (simp add: scan_blocks.simps)
next
  case (Cons b bs)
  then have b: "3 \<le> length b" "unat (hd b) = length b" by (auto simp: block_ok_def)
  then obtain x ys where x: "b = x # ys" by (cases b) auto
  have "scan_blocks parse (concat (b # bs) @ rest) s = do {
      (r, s) \<leftarrow> parse (b @ concat bs @ rest) (length b) s;
      if r \<noteq> UVC_SUCCESS then Some (r, s) else scan_blocks parse (concat bs @ rest) s }"
    using b by (subst scan_blocks.simps) (simp add: x cong: if_cong)
  with Cons show ?case by (simp cong: if_cong)
qed

section \<open>What every parsed block keeps\<close>

text \<open>
  \<open>block_parser\<close> is the contract between the walk and the parser of one block: whatever the
  block holds, the parser keeps the invariant, errors included.
\<close>

locale block_parser =
  fixes parse :: "u8 list \<Rightarrow> nat \<Rightarrow> 's \<Rightarrow> (int \<times> 's) option" and inv :: "'s \<Rightarrow> bool"
  assumes keeps: "inv s \<Longrightarrow> parse block block_size s = Some (r, s') \<Longrightarrow> inv s'"
begin

lemma scan_keeps:
  assumes "scan_blocks parse buffer s = Some (r, s')" "inv s"
  shows "inv s'"
proof -
  define P where "P = (\<lambda>(p :: u8 list \<Rightarrow> nat \<Rightarrow> 's \<Rightarrow> (int \<times> 's) option) (b :: u8 list) s (rs :: int \<times> 's).
    p = parse \<longrightarrow> inv s \<longrightarrow> inv (snd rs))"
  have "P parse buffer s (r, s')"
  proof (rule scan_blocks.raw_induct [OF _ assms(1)])
    fix f p b s rs
    assume IH: "\<And>p b s rs. f p b s = Some rs \<Longrightarrow> P p b s rs"
      and e: "(if length b < 3 then Some (UVC_SUCCESS, s)
        else do { block_size \<leftarrow> rd b 0; (parse_ret, s) \<leftarrow> p b (unat block_size) s;
          if parse_ret \<noteq> UVC_SUCCESS then Some (parse_ret, s)
          else if length b < unat block_size then None
          else f p (drop (unat block_size) b) s }) = Some rs"
    show "P p b s rs"
      unfolding P_def
    proof (intro impI)
      assume [simp]: "p = parse" and s: "inv s"
      show "inv (snd rs)"
      proof (cases "length b < 3")
        case True
        with e s show ?thesis by auto
      next
        case False
        with e obtain q s1 where q: "parse b (unat (b ! 0)) s = Some (q, s1)"
          and rest: "(if q \<noteq> UVC_SUCCESS then Some (q, s1) else if length b < unat (b ! 0) then None
            else f p (drop (unat (b ! 0)) b) s1) = Some rs"
          by (auto simp: ub_simps)
        from keeps [OF s q] rest IH show ?thesis by (fastforce simp: P_def split: if_splits)
      qed
    qed
  qed
  with assms(2) show ?thesis by (simp add: P_def)
qed

end

text \<open>
  A parsed frame: its intervals are absent just when it has a range of intervals, otherwise
  they are as many as the descriptor says and a closing zero; those of uncompressed and MJPEG
  frames are not zero, and neither is their default interval, which does not exceed the last
  of them; an uncompressed frame has the buffer size of its format and dimensions.
\<close>

definition frame_ok :: "u8 \<Rightarrow> frame_desc \<Rightarrow> bool" where
  "frame_ok bpp fr \<longleftrightarrow>
     (case fr_intervals fr of
        None \<Rightarrow> fr_bFrameIntervalType fr = 0
      | Some vs \<Rightarrow> fr_bFrameIntervalType fr \<noteq> 0
          \<and> length vs = unat (fr_bFrameIntervalType fr) + 1 \<and> last vs = 0
          \<and> (fr_bDescriptorSubtype fr \<noteq> UVC_VS_FRAME_FRAME_BASED \<longrightarrow>
               0 \<notin> set (butlast vs) \<and> fr_dwDefaultFrameInterval fr \<noteq> 0
               \<and> fr_dwDefaultFrameInterval fr \<le> last (butlast vs)))
     \<and> (fr_bDescriptorSubtype fr = UVC_VS_FRAME_UNCOMPRESSED \<longrightarrow>
          frame_bytes bpp (fr_wWidth fr) (fr_wHeight fr) = Some (fr_dwMaxVideoFrameBufferSize fr))"

definition format_ok :: "format_desc \<Rightarrow> bool" where
  "format_ok f \<longleftrightarrow> length (fm_guidFormat f) = 16
     \<and> (\<forall>fr \<in> set (fm_frame_descs f). frame_ok (fm_bBitsPerPixel f) fr)"

definition stream_ok :: "streaming_interface \<Rightarrow> bool" where
  "stream_ok si \<longleftrightarrow> (\<forall>f \<in> set (si_format_descs si). format_ok f)"

lemma stream_ok_append_format:
  "stream_ok si \<Longrightarrow> format_ok f \<Longrightarrow> stream_ok (append_format si f)"
  by (auto simp: stream_ok_def append_format_def)

lemma stream_ok_append_frame:
  assumes "stream_ok si" "last_format si = Some f" "frame_ok (fm_bBitsPerPixel f) fr"
  shows "stream_ok (append_frame si fr)"
proof -
  from assms(2) have n: "si_format_descs si \<noteq> []" and l: "last (si_format_descs si) = f"
    by (auto simp: last_format_def split: if_splits)
  from n l assms(1) have "format_ok f" by (auto simp: stream_ok_def)
  with assms(3) have "format_ok (f\<lparr>fm_frame_descs := fm_frame_descs f @ [fr]\<rparr>)"
    by (auto simp: format_ok_def)
  with assms(1) l show ?thesis
    by (auto simp: stream_ok_def append_frame_def Let_def dest: in_set_butlastD)
qed

lemma read_intervals_length: "read_intervals block p n = Some vs \<Longrightarrow> length vs = n"
  by (induction n arbitrary: p vs) (auto simp: ub_simps)

lemma frame_range_intervals:
  "frame_range block fr = Some fr' \<Longrightarrow> fr_intervals fr' = fr_intervals fr
     \<and> fr_bFrameIntervalType fr' = fr_bFrameIntervalType fr
     \<and> fr_bDescriptorSubtype fr' = fr_bDescriptorSubtype fr"
  by (auto simp: frame_range_def ub_simps)

lemma uncompressed_head_fields:
  "uncompressed_head block = Some fr \<Longrightarrow> fr_intervals fr = None \<and> rd block 2 = Some (fr_bDescriptorSubtype fr)"
  by (auto simp: uncompressed_head_def ub_simps zero_frame_def)

lemma frame_based_head_fields:
  "frame_based_head block = Some fr \<Longrightarrow> fr_intervals fr = None \<and> rd block 2 = Some (fr_bDescriptorSubtype fr)"
  by (auto simp: frame_based_head_def ub_simps zero_frame_def)

lemma clamp_default:
  fixes d :: u32
  assumes "0 \<notin> set vs" "vs \<noteq> []"
  shows "min (last vs) (max (hd vs) d) \<noteq> 0"
proof -
  have "hd vs \<noteq> 0" "last vs \<noteq> 0"
    using assms by (metis list.set_sel(1), metis last_in_set)
  then show ?thesis by (auto simp: min_def max_def word_le_nat_alt unat_eq_zero)
qed

lemma frame_list_clamped_ok:
  assumes "frame_list_clamped block fr = Some fr'" "fr_bFrameIntervalType fr \<noteq> 0"
    "fr_bDescriptorSubtype fr \<noteq> UVC_VS_FRAME_UNCOMPRESSED"
  shows "frame_ok bpp fr'"
proof -
  from assms(1) obtain us where us: "read_intervals block 26 (unat (fr_bFrameIntervalType fr)) = Some us"
    by (auto simp: frame_list_clamped_def ub_simps)
  define vs where "vs = map (\<lambda>v. if v \<noteq> 0 then v else 1) us"
  have fr': "fr' = fr\<lparr>fr_intervals := Some (vs @ [0]),
      fr_dwDefaultFrameInterval := min (last vs) (max (hd vs) (fr_dwDefaultFrameInterval fr))\<rparr>"
    using assms(1) us by (simp add: frame_list_clamped_def vs_def Let_def)
  have z: "0 \<notin> set vs" by (auto simp: vs_def)
  have l: "length vs = unat (fr_bFrameIntervalType fr)"
    using read_intervals_length [OF us] by (simp add: vs_def)
  with assms(2) have "vs \<noteq> []" by (auto simp: unat_eq_zero)
  with z l assms(2,3) clamp_default [OF z, of "fr_dwDefaultFrameInterval fr"] show ?thesis
    by (simp add: frame_ok_def fr')
qed

lemma frame_size_ok:
  assumes "frame_size f fr = Some fr'"
    "frame_ok b (fr\<lparr>fr_bDescriptorSubtype := UVC_VS_FRAME_MJPEG\<rparr>)"
    "fr_bDescriptorSubtype fr \<noteq> UVC_VS_FRAME_FRAME_BASED"
  shows "frame_ok (fm_bBitsPerPixel f) fr'"
  using assms
  by (auto simp: frame_size_def frame_ok_def ub_simps split: if_splits option.splits)

lemma stream_ok_frame_uncompressed:
  assumes "stream_ok si" "uvc_parse_vs_frame_uncompressed block n si = Some (r, si')"
    "rd block 2 \<noteq> Some UVC_VS_FRAME_FRAME_BASED"
  shows "stream_ok si'"
proof -
  from assms(2) obtain f fr1 fr2 fr3 where f: "last_format si = Some f"
    and 1: "uncompressed_head block = Some fr1"
    and 2: "(if fr_bFrameIntervalType fr1 = 0 then frame_range block fr1
             else frame_list_clamped block fr1) = Some fr2"
    and 3: "frame_size f fr2 = Some fr3" and si': "si' = append_frame si fr3"
    by (auto simp: uvc_parse_vs_frame_uncompressed_def ub_simps)
  have h: "fr_intervals fr1 = None" "fr_bDescriptorSubtype fr1 \<noteq> UVC_VS_FRAME_FRAME_BASED"
    using uncompressed_head_fields [OF 1] assms(3) by auto
  have "frame_ok 0 (fr2\<lparr>fr_bDescriptorSubtype := UVC_VS_FRAME_MJPEG\<rparr>)"
    "fr_bDescriptorSubtype fr2 = fr_bDescriptorSubtype fr1"
  proof (atomize (full), cases "fr_bFrameIntervalType fr1 = 0")
    case True
    with 2 frame_range_intervals [of block fr1 fr2] h
    show "frame_ok 0 (fr2\<lparr>fr_bDescriptorSubtype := UVC_VS_FRAME_MJPEG\<rparr>)
        \<and> fr_bDescriptorSubtype fr2 = fr_bDescriptorSubtype fr1" by (simp add: frame_ok_def)
  next
    case False
    with 2 have c: "frame_list_clamped block fr1 = Some fr2" by simp
    then have "frame_list_clamped block (fr1\<lparr>fr_bDescriptorSubtype := UVC_VS_FRAME_MJPEG\<rparr>)
        = Some (fr2\<lparr>fr_bDescriptorSubtype := UVC_VS_FRAME_MJPEG\<rparr>)"
      by (auto simp: frame_list_clamped_def ub_simps Let_def)
    from frame_list_clamped_ok [OF this] False c
    show "frame_ok 0 (fr2\<lparr>fr_bDescriptorSubtype := UVC_VS_FRAME_MJPEG\<rparr>)
        \<and> fr_bDescriptorSubtype fr2 = fr_bDescriptorSubtype fr1"
      by (auto simp: frame_list_clamped_def ub_simps Let_def)
  qed
  with frame_size_ok [OF 3] h(2) have "frame_ok (fm_bBitsPerPixel f) fr3" by simp
  with assms(1) f show ?thesis by (auto simp: si' intro: stream_ok_append_frame)
qed

lemma stream_ok_frame_frame:
  assumes "stream_ok si" "uvc_parse_vs_frame_frame block n si = Some (r, si')"
    "rd block 2 = Some UVC_VS_FRAME_FRAME_BASED"
  shows "stream_ok si'"
proof -
  from assms(2) obtain f fr1 fr2 where f: "last_format si = Some f"
    and 1: "frame_based_head block = Some fr1"
    and 2: "(if fr_bFrameIntervalType fr1 = 0 then frame_range block fr1
             else frame_list block fr1) = Some fr2" and si': "si' = append_frame si fr2"
    by (auto simp: uvc_parse_vs_frame_frame_def ub_simps)
  have h: "fr_intervals fr1 = None" "fr_bDescriptorSubtype fr1 = UVC_VS_FRAME_FRAME_BASED"
    using frame_based_head_fields [OF 1] assms(3) by auto
  have "frame_ok (fm_bBitsPerPixel f) fr2"
  proof (cases "fr_bFrameIntervalType fr1 = 0")
    case True
    with 2 frame_range_intervals [of block fr1 fr2] h show ?thesis by (simp add: frame_ok_def)
  next
    case False
    with 2 h show ?thesis
      by (auto simp: frame_list_def frame_ok_def ub_simps dest: read_intervals_length)
  qed
  with assms(1) f show ?thesis by (auto simp: si' intro: stream_ok_append_frame)
qed

lemma stream_ok_parse_vs:
  assumes "stream_ok si" "uvc_parse_vs sb block n si = Some (r, si')"
  shows "stream_ok si'"
proof -
  obtain t where t: "rd block 2 = Some t"
    using assms(2) by (auto simp: uvc_parse_vs_def ub_simps)
  have fmts: "si_format_descs si' = si_format_descs si" if "uvc_parse_vs_input_header sb block n si = Some (r, si')"
    using that by (auto simp: uvc_parse_vs_input_header_def ub_simps Let_def split: if_splits)
  have un: "\<exists>f. si' = append_format si f \<and> format_ok f"
    if "uvc_parse_vs_format_uncompressed block n si = Some (r, si')"
    using that by (fastforce simp: uvc_parse_vs_format_uncompressed_def ub_simps format_ok_def zero_format_def)
  have fb: "\<exists>f. si' = append_format si f \<and> format_ok f"
    if "uvc_parse_vs_frame_format block n si = Some (r, si')"
    using that by (fastforce simp: uvc_parse_vs_frame_format_def ub_simps format_ok_def zero_format_def)
  have mj: "\<exists>f. si' = append_format si f \<and> format_ok f"
    if "uvc_parse_vs_format_mjpeg block n si = Some (r, si')"
    using that by (fastforce simp: uvc_parse_vs_format_mjpeg_def ub_simps Let_def format_ok_def zero_format_def)
  show ?thesis
    using assms t fmts un fb mj stream_ok_append_format [OF assms(1)]
      stream_ok_frame_uncompressed [OF assms(1), of block n r si']
      stream_ok_frame_frame [OF assms(1), of block n r si']
    by (auto simp: uvc_parse_vs_def stream_ok_def split: if_splits)
qed

interpretation vs: block_parser "uvc_parse_vs sb" stream_ok for sb
  by unfold_locales (rule stream_ok_parse_vs)

section \<open>What the device description keeps\<close>

text \<open>
  Every entity carries the \<open>wIndex\<close> of its own id and the control interface; only camera
  terminals are listed; no output terminal is; and every streaming interface is well formed.
\<close>

definition ctrl_if_ok :: "uvc_control_interface \<Rightarrow> bool" where
  "ctrl_if_ok c \<longleftrightarrow>
     (\<forall>t \<in> set (input_term_descs c). it_wTerminalType t = UVC_ITT_CAMERA
        \<and> it_request t = entity_request (it_bTerminalID t) (ci_bInterfaceNumber c))
     \<and> output_term_descs c = []
     \<and> (\<forall>p \<in> set (processing_unit_descs c).
          pu_request p = entity_request (pu_bUnitID p) (ci_bInterfaceNumber c))
     \<and> (\<forall>x \<in> set (extension_unit_descs c). length (xu_guidExtensionCode x) = 16
          \<and> xu_request x = entity_request (xu_bUnitID x) (ci_bInterfaceNumber c))"

definition info_ok :: "uvc_device_info \<Rightarrow> bool" where
  "info_ok info \<longleftrightarrow> ctrl_if_ok (ctrl_if info) \<and> (\<forall>si \<in> set (stream_ifs info). stream_ok si)"

lemma scan_streaming_ok:
  assumes "uvc_scan_streaming sb info i = Some (r, info')"
  shows "ctrl_if info' = ctrl_if info"
    and "\<exists>si. stream_ifs info' = stream_ifs info @ [si] \<and> stream_ok si"
proof -
  from assms obtain d si where
    s: "scan_blocks (uvc_parse_vs sb) (stream_extra d)
        (zero_stream_if\<lparr>si_bInterfaceNumber := as_bInterfaceNumber d\<rparr>) = Some (r, si)"
    and i: "info' = info\<lparr>stream_ifs := stream_ifs info @ [si]\<rparr>"
    by (auto simp: uvc_scan_streaming_def ub_simps Let_def)
  have "stream_ok (zero_stream_if\<lparr>si_bInterfaceNumber := as_bInterfaceNumber d\<rparr>)"
    by (simp add: stream_ok_def zero_stream_if_def)
  from vs.scan_keeps [OF s this] i
  show "ctrl_if info' = ctrl_if info"
    and "\<exists>si. stream_ifs info' = stream_ifs info @ [si] \<and> stream_ok si" by auto
qed

lemma scan_interfaces_ok:
  "scan_interfaces sb block i k info = Some (r, info') \<Longrightarrow> info_ok info \<Longrightarrow> info_ok info'"
proof (induction k arbitrary: i info)
  case 0
  then show ?case by simp
next
  case (Suc k)
  then obtain b r1 info1 where s: "uvc_scan_streaming sb info b = Some (r1, info1)"
    and rest: "(if r1 \<noteq> UVC_SUCCESS then Some (r1, info1)
      else scan_interfaces sb block (Suc i) k info1) = Some (r, info')"
    by (auto simp: ub_simps)
  from scan_streaming_ok [OF s] Suc.prems(2) have "info_ok info1" by (auto simp: info_ok_def)
  with Suc.IH [of "Suc i" info1] rest show ?case by (auto split: if_splits)
qed

lemma info_ok_upd:
  "info_ok info \<Longrightarrow> ctrl_if_ok (f (ctrl_if info)) \<Longrightarrow> info_ok (upd_ctrl_if f info)"
  by (simp add: info_ok_def upd_ctrl_if_def)

lemma info_ok_parse_vc:
  assumes "info_ok info" "uvc_parse_vc sb block n info = Some (r, info')"
  shows "info_ok info'"
proof -
  have c: "ctrl_if_ok (ctrl_if info)" using assms(1) by (simp add: info_ok_def)
  have 1: "info_ok info'" if h: "uvc_parse_vc_header sb block n info = Some (r, info')"
  proof -
    obtain v where v: "sw_at block 3 = Some v" using h
      by (cases "sw_at block 3") (auto simp: uvc_parse_vc_header_def)
    have "info_ok (upd_ctrl_if (\<lambda>c. c\<lparr>ci_bcdUVC := v\<rparr>) info)"
      using assms(1) c by (intro info_ok_upd) (auto simp: ctrl_if_ok_def)
    with h v scan_interfaces_ok show ?thesis
      by (fastforce simp: uvc_parse_vc_header_def Let_def split: if_splits)
  qed
  have 2: "info_ok info'" if "uvc_parse_vc_input_terminal block n info = Some (r, info')"
    using that assms(1) c
    by (auto simp: uvc_parse_vc_input_terminal_def ub_simps ctrl_if_ok_def split: if_splits
        intro!: info_ok_upd)
  have 3: "info_ok info'" if "uvc_parse_vc_processing_unit block n info = Some (r, info')"
    using that assms(1) c
    by (auto simp: uvc_parse_vc_processing_unit_def ub_simps ctrl_if_ok_def intro!: info_ok_upd)
  have 4: "info_ok info'" if "uvc_parse_vc_extension_unit block n info = Some (r, info')"
    using that assms(1) c
    by (auto simp: uvc_parse_vc_extension_unit_def ub_simps ctrl_if_ok_def intro!: info_ok_upd)
  from assms 1 2 3 4 show ?thesis
    by (auto simp: uvc_parse_vc_def ub_simps split: if_splits)
qed

interpretation vc: block_parser "uvc_parse_vc sb" info_ok for sb
  by unfold_locales (rule info_ok_parse_vc)

section \<open>Complete blocks\<close>

text \<open>
  A streaming block is complete when it has the bytes its type and counts call for, a frame
  comes after a format, and an uncompressed frame is not larger than \<open>2 ^ 23\<close> pixels (so that
  its size in bits fits an \<^verbatim>\<open>int\<close> for every depth).
\<close>

definition frame_tail :: "u8 list \<Rightarrow> nat \<Rightarrow> bool" where
  "frame_tail b i \<longleftrightarrow> i < length b \<and> 26 + (if b ! i = 0 then 12 else 4 * unat (b ! i)) \<le> length b"

definition vs_complete :: "bool \<Rightarrow> u8 list \<Rightarrow> bool" where
  "vs_complete has_format b \<longleftrightarrow> 3 \<le> length b \<and>
     (b ! 2 = UVC_VS_INPUT_HEADER \<longrightarrow> 13 \<le> length b)
     \<and> (b ! 2 = UVC_VS_FORMAT_UNCOMPRESSED \<longrightarrow> 27 \<le> length b)
     \<and> (b ! 2 = UVC_VS_FORMAT_MJPEG \<longrightarrow> 11 \<le> length b)
     \<and> (b ! 2 = UVC_VS_FORMAT_FRAME_BASED \<longrightarrow> 28 \<le> length b)
     \<and> (b ! 2 \<in> {UVC_VS_FRAME_UNCOMPRESSED, UVC_VS_FRAME_MJPEG} \<longrightarrow>
          has_format \<and> 26 \<le> length b \<and> frame_tail b 25)
     \<and> (b ! 2 = UVC_VS_FRAME_UNCOMPRESSED \<longrightarrow>
          (uint (b ! 5) + 256 * uint (b ! 6)) * (uint (b ! 7) + 256 * uint (b ! 8)) < 2 ^ 23)
     \<and> (b ! 2 = UVC_VS_FRAME_FRAME_BASED \<longrightarrow> has_format \<and> 26 \<le> length b \<and> frame_tail b 21)"

definition is_format :: "u8 list \<Rightarrow> bool" where
  "is_format b \<longleftrightarrow> b ! 2 \<in> {UVC_VS_FORMAT_UNCOMPRESSED, UVC_VS_FORMAT_MJPEG, UVC_VS_FORMAT_FRAME_BASED}"

fun vs_blocks_complete :: "bool \<Rightarrow> u8 list list \<Rightarrow> bool" where
  "vs_blocks_complete has_format [] = True"
| "vs_blocks_complete has_format (b # bs) \<longleftrightarrow>
     vs_complete has_format b \<and> vs_blocks_complete (has_format \<or> is_format b) bs"

lemma read_intervals_total:
  "p + 4 * n \<le> length block \<Longrightarrow> \<exists>vs. read_intervals block p n = Some vs"
proof (induction n arbitrary: p)
  case 0
  then show ?case by simp
next
  case (Suc n)
  from Suc.prems have "p + 4 + 4 * n \<le> length block" by simp
  from Suc.IH [OF this] Suc.prems show ?case by auto
qed

lemma vs_controls_total:
  "12 + k * n + 1 \<le> length block \<Longrightarrow> \<exists>cs. vs_controls block n k = Some cs"
proof (induction k)
  case 0
  then show ?case by simp
next
  case (Suc k)
  have "12 + Suc k * n + 1 - n + n \<le> length block" using Suc.prems by simp
  from bm_controls_total [OF this, of 0] Suc show ?case by auto
qed

lemma frame_tail_total:
  assumes "frame_tail b i" "26 \<le> length b" "b ! i = fr_bFrameIntervalType fr"
  shows "fr_bFrameIntervalType fr = 0 \<Longrightarrow> \<exists>fr'. frame_range b fr = Some (fr' :: frame_desc)
      \<and> fr_wWidth fr' = fr_wWidth fr \<and> fr_wHeight fr' = fr_wHeight fr"
    and "fr_bFrameIntervalType fr \<noteq> 0 \<Longrightarrow> \<exists>fr'. frame_list b fr = Some fr'"
    and "fr_bFrameIntervalType fr \<noteq> 0 \<Longrightarrow> \<exists>fr'. frame_list_clamped b fr = Some (fr' :: frame_desc)
      \<and> fr_wWidth fr' = fr_wWidth fr \<and> fr_wHeight fr' = fr_wHeight fr"
proof -
  show "\<exists>fr'. frame_range b fr = Some (fr' :: frame_desc)
      \<and> fr_wWidth fr' = fr_wWidth fr \<and> fr_wHeight fr' = fr_wHeight fr"
    if "fr_bFrameIntervalType fr = 0"
    using assms that by (simp add: frame_tail_def frame_range_def)
  show "\<exists>fr'. frame_list b fr = Some fr'" if "fr_bFrameIntervalType fr \<noteq> 0"
    using assms that read_intervals_total [of 26 "unat (b ! i)" b]
    by (auto simp: frame_tail_def frame_list_def)
  show "\<exists>fr'. frame_list_clamped b fr = Some (fr' :: frame_desc)
      \<and> fr_wWidth fr' = fr_wWidth fr \<and> fr_wHeight fr' = fr_wHeight fr"
    if "fr_bFrameIntervalType fr \<noteq> 0"
    using assms that read_intervals_total [of 26 "unat (b ! i)" b]
    by (auto simp: frame_tail_def frame_list_clamped_def Let_def)
qed


lemma word_le_at_in [simp]:
  "i + 1 < length b \<Longrightarrow> word_le_at b i = Some (SW_TO_SHORT (b ! i) (b ! (i + 1)))"
proof -
  have "ucast lo + push_bit 8 (ucast hi) = SW_TO_SHORT lo hi" for lo hi :: u8
    unfolding SW_TO_SHORT_def
    by (rule disjunctive_add) (auto simp: bit_simps dest: bit_imp_le_length)
  then show "i + 1 < length b \<Longrightarrow> ?thesis" by (simp add: word_le_at_def)
qed

lemma uint_SW_TO_SHORT: "uint (SW_TO_SHORT lo hi) = uint lo + 256 * uint hi"
proof -
  have "SW_TO_SHORT lo hi = ucast lo + push_bit 8 (ucast hi)"
    unfolding SW_TO_SHORT_def
    by (rule disjunctive_add [symmetric]) (auto simp: bit_simps dest: bit_imp_le_length)
  moreover have "uint lo < 256" "uint hi < 256"
    using uint_bounded [of lo] uint_bounded [of hi] by simp_all
  ultimately show ?thesis
    by (simp add: uint_word_ariths push_bit_eq_mult unsigned_ucast_eq take_bit_eq_mod)
qed

lemma header_p_le:
  assumes "13 \<le> block_size" "block_size < 2 ^ size_bits"
  shows "unat (header_p size_bits block_size n) * unat n \<le> block_size - 13"
proof -
  have "int block_size < int (2 ^ size_bits)" using assms(2) by (simp only: of_nat_less_iff)
  moreover have "int (2 ^ size_bits) = 2 ^ size_bits" by simp
  ultimately have "int block_size - 13 < 2 ^ size_bits" by linarith
  then have "(int block_size - 13) mod 2 ^ size_bits = int (block_size - 13)"
    using assms(1) by (subst mod_pos_pos_trivial) (simp_all add: of_nat_diff)
  then have "unat (header_p size_bits block_size n) \<le> (block_size - 13) div unat n"
    by (simp add: header_p_def unat_of_nat)
  then have "unat (header_p size_bits block_size n) * unat n \<le> (block_size - 13) div unat n * unat n"
    by (rule mult_le_mono1)
  also have "\<dots> \<le> block_size - 13" by simp
  finally show ?thesis .
qed

lemma frame_bytes_total:
  assumes "uint w * uint h < 2 ^ 23" shows "\<exists>m. frame_bytes bpp w h = Some m"
proof -
  have "uint bpp \<le> 255" using uint_bounded [of bpp] by simp
  then have "uint bpp * (uint w * uint h) \<le> 255 * (uint w * uint h)"
    by (intro mult_right_mono) auto
  also have "\<dots> < 2 ^ 31" using assms by simp
  finally show ?thesis by (simp add: frame_bytes_def Let_def mult.assoc)
qed

lemma parse_vs_total:
  assumes "vs_complete has_format b" "has_format \<longrightarrow> si_format_descs si \<noteq> []" "length b < 2 ^ sb"
  shows "\<exists>si'. uvc_parse_vs sb (b @ rest) (length b) si = Some (UVC_SUCCESS, si')
    \<and> (is_format b \<or> si_format_descs si \<noteq> [] \<longrightarrow> si_format_descs si' \<noteq> [])"
proof -
  let ?p = "b @ rest"
  have n: "i < length b \<Longrightarrow> ?p ! i = b ! i" for i by (simp add: nth_append)
  have t: "frame_tail ?p i" if "frame_tail b i" for i
    using that by (auto simp: frame_tail_def nth_append)
  have l3: "3 \<le> length b" using assms(1) by (simp add: vs_complete_def)
  consider "b ! 2 = UVC_VS_INPUT_HEADER" | "b ! 2 = UVC_VS_FORMAT_UNCOMPRESSED"
    | "b ! 2 = UVC_VS_FORMAT_MJPEG" | "b ! 2 \<in> {UVC_VS_FRAME_UNCOMPRESSED, UVC_VS_FRAME_MJPEG}"
    | "b ! 2 = UVC_VS_FORMAT_FRAME_BASED" | "b ! 2 = UVC_VS_FRAME_FRAME_BASED"
    | "b ! 2 \<notin> {UVC_VS_INPUT_HEADER, UVC_VS_FORMAT_UNCOMPRESSED, UVC_VS_FORMAT_MJPEG,
        UVC_VS_FRAME_UNCOMPRESSED, UVC_VS_FRAME_MJPEG, UVC_VS_FORMAT_FRAME_BASED, UVC_VS_FRAME_FRAME_BASED}"
    by auto
  then show ?thesis
  proof cases
    case 1
    then have l: "13 \<le> length b" using assms(1) by (simp add: vs_complete_def)
    have "unat (header_p sb (length b) (b ! 12)) * unat (b ! 12) + 13 \<le> length ?p"
      using header_p_le [OF l assms(3), of "b ! 12"] l by simp
    then obtain cs where "vs_controls ?p (unat (b ! 12)) (unat (header_p sb (length b) (b ! 12))) = Some cs"
      using vs_controls_total [of "unat (header_p sb (length b) (b ! 12))" "unat (b ! 12)" ?p] by auto
    with 1 l n show ?thesis
      by (auto simp: uvc_parse_vs_def uvc_parse_vs_input_header_def Let_def is_format_def)
  next
    case 2
    then have "27 \<le> length b" using assms(1) by (simp add: vs_complete_def)
    with 2 n show ?thesis
      by (simp add: uvc_parse_vs_def uvc_parse_vs_format_uncompressed_def append_format_def)
  next
    case 3
    then have "11 \<le> length b" using assms(1) by (simp add: vs_complete_def)
    with 3 n show ?thesis
      by (simp add: uvc_parse_vs_def uvc_parse_vs_format_mjpeg_def append_format_def Let_def)
  next
    case 4
    then have f: "has_format" and l: "26 \<le> length b" and tl: "frame_tail ?p 25"
      using assms(1) t by (auto simp: vs_complete_def)
    from f assms(2) obtain fmt where fmt: "last_format si = Some fmt" by (simp add: last_format_def)
    obtain fr where fr: "uncompressed_head ?p = Some fr" "fr_bFrameIntervalType fr = ?p ! 25"
      "fr_wWidth fr = SW_TO_SHORT (b ! 5) (b ! 6)" "fr_wHeight fr = SW_TO_SHORT (b ! 7) (b ! 8)"
      "fr_bDescriptorSubtype fr = b ! 2"
      using l n by (simp add: uncompressed_head_def)
    have l': "26 \<le> length ?p" using l by simp
    obtain fr2 where fr2: "(if fr_bFrameIntervalType fr = 0 then frame_range ?p fr
        else frame_list_clamped ?p fr) = Some fr2" "fr_wWidth fr2 = fr_wWidth fr"
        "fr_wHeight fr2 = fr_wHeight fr"
      using frame_tail_total(1,3) [OF tl l' fr(2) [symmetric]]
      by (cases "fr_bFrameIntervalType fr = 0") auto
    have s2: "fr_bDescriptorSubtype fr2 = fr_bDescriptorSubtype fr"
      using fr2(1) by (auto simp: frame_range_def frame_list_clamped_def ub_simps Let_def split: if_splits)
    obtain fr3 where "frame_size fmt fr2 = Some fr3"
    proof (cases "b ! 2 = UVC_VS_FRAME_UNCOMPRESSED")
      case True
      then have "uint (fr_wWidth fr2) * uint (fr_wHeight fr2) < 2 ^ 23"
        using assms(1) fr fr2 by (simp add: vs_complete_def uint_SW_TO_SHORT)
      from frame_bytes_total [OF this, of "fm_bBitsPerPixel fmt"] obtain m where
        "frame_bytes (fm_bBitsPerPixel fmt) (fr_wWidth fr2) (fr_wHeight fr2) = Some m" by blast
      with that show thesis using True s2 fr(5) by (simp add: frame_size_def)
    next
      case False
      with s2 fr(5) that show thesis by (simp add: frame_size_def)
    qed
    with 4 fmt fr(1) fr2(1) n [of 2] l3 show ?thesis
      by (auto simp: uvc_parse_vs_def uvc_parse_vs_frame_uncompressed_def append_frame_def Let_def)
  next
    case 5
    then have "28 \<le> length b" using assms(1) by (simp add: vs_complete_def)
    with 5 n show ?thesis
      by (simp add: uvc_parse_vs_def uvc_parse_vs_frame_format_def append_format_def)
  next
    case 6
    then have f: "has_format" and l: "26 \<le> length b" and tl: "frame_tail ?p 21"
      using assms(1) t by (auto simp: vs_complete_def)
    from f assms(2) obtain fmt where fmt: "last_format si = Some fmt" by (simp add: last_format_def)
    obtain fr where fr: "frame_based_head ?p = Some fr" "fr_bFrameIntervalType fr = ?p ! 21"
      using l by (simp add: frame_based_head_def)
    have l': "26 \<le> length ?p" using l by simp
    obtain fr2 where "(if fr_bFrameIntervalType fr = 0 then frame_range ?p fr
        else frame_list ?p fr) = Some fr2"
      using frame_tail_total(1,2) [OF tl l' fr(2) [symmetric]]
      by (cases "fr_bFrameIntervalType fr = 0") auto
    with 6 fmt fr(1) n [of 2] l3 show ?thesis
      by (auto simp: uvc_parse_vs_def uvc_parse_vs_frame_frame_def append_frame_def Let_def)
  next
    case 7
    with l3 n [of 2] show ?thesis by (auto simp: uvc_parse_vs_def is_format_def)
  qed
qed

lemma fold_vs_total:
  "vs_blocks_complete hf bs \<Longrightarrow> (hf \<longrightarrow> si_format_descs si \<noteq> []) \<Longrightarrow>
     \<forall>b \<in> set bs. length b < 2 ^ sb \<Longrightarrow>
     \<exists>si'. fold_blocks (uvc_parse_vs sb) bs rest si = Some (UVC_SUCCESS, si')"
proof (induction bs arbitrary: hf si)
  case Nil
  then show ?case by simp
next
  case (Cons b bs)
  then obtain si1 where p: "uvc_parse_vs sb (b @ concat bs @ rest) (length b) si = Some (UVC_SUCCESS, si1)"
    and k: "is_format b \<or> si_format_descs si \<noteq> [] \<longrightarrow> si_format_descs si1 \<noteq> []"
    using parse_vs_total [of hf b si sb "concat bs @ rest"] by auto
  have "\<exists>si'. fold_blocks (uvc_parse_vs sb) bs rest si1 = Some (UVC_SUCCESS, si')"
    using Cons.prems k by (intro Cons.IH [of "hf \<or> is_format b"]) auto
  with p show ?case by simp
qed

lemma block_ok_length: "block_ok b \<Longrightarrow> 8 \<le> sb \<Longrightarrow> length b < 2 ^ sb"
proof -
  assume "block_ok b" "8 \<le> sb"
  then have "length b = unat (hd b)" by (simp add: block_ok_def)
  also have "\<dots> < 2 ^ 8" using unsigned_less [of "hd b"] by simp
  also have "\<dots> \<le> 2 ^ sb" using \<open>8 \<le> sb\<close> by (intro power_increasing) simp_all
  finally show ?thesis .
qed

text \<open>A block that the parser skips, at the front of what is left.\<close>

lemma scan_blocks_skip:
  fixes s :: 's
  assumes "3 \<le> length buffer" "parse buffer (unat (buffer ! 0)) s = Some (UVC_SUCCESS, s)"
  shows "buffer ! 0 = 0 \<Longrightarrow> scan_blocks parse buffer s = None"
    and "length buffer < unat (buffer ! 0) \<Longrightarrow> scan_blocks parse buffer s = None"
proof -
  assume z: "buffer ! 0 = 0"
  define P where "P = (\<lambda>(p :: u8 list \<Rightarrow> nat \<Rightarrow> 's \<Rightarrow> (int \<times> 's) option) (b :: u8 list) s1 (rs :: int \<times> 's).
    \<not> (p = parse \<and> b = buffer \<and> s1 = s))"
  have "P parse buffer s rs" if "scan_blocks parse buffer s = Some rs" for rs
  proof (rule scan_blocks.raw_induct [OF _ that])
    fix f p b s1 rs
    assume IH: "\<And>p b s rs. f p b s = Some rs \<Longrightarrow> P p b s rs"
      and e: "(if length b < 3 then Some (UVC_SUCCESS, s1)
        else do { block_size \<leftarrow> rd b 0; (parse_ret, s) \<leftarrow> p b (unat block_size) s1;
          if parse_ret \<noteq> UVC_SUCCESS then Some (parse_ret, s)
          else if length b < unat block_size then None
          else f p (drop (unat block_size) b) s }) = Some rs"
    show "P p b s1 rs"
      unfolding P_def
    proof
      assume eq: "p = parse \<and> b = buffer \<and> s1 = s"
      have "buffer \<noteq> []" using assms(1) by auto
      with e eq assms z have "f parse buffer s = Some rs" by simp
      from IH [OF this] show False by (simp add: P_def)
    qed
  qed
  then show "scan_blocks parse buffer s = None"
    by (cases "scan_blocks parse buffer s") (auto simp: P_def)
next
  assume "length buffer < unat (buffer ! 0)"
  moreover have "buffer \<noteq> []" using assms(1) by auto
  ultimately show "scan_blocks parse buffer s = None"
    using assms by (subst scan_blocks.simps) simp
qed

section \<open>Encoding a frame descriptor\<close>

text \<open>
  The bytes of a frame descriptor with discrete intervals, as the device sends it: the layout
  that the fixed offsets of \<open>uvc_parse_vs_frame_uncompressed\<close> stand for.
\<close>

definition encode_frame :: "frame_desc \<Rightarrow> u32 list \<Rightarrow> u8 list" where
  "encode_frame fr vs =
     [of_nat (26 + 4 * length vs), LIBUSB_DT_CS_INTERFACE, fr_bDescriptorSubtype fr,
      fr_bFrameIndex fr, fr_bmCapabilities fr]
     @ SHORT_TO_SW (fr_wWidth fr) @ SHORT_TO_SW (fr_wHeight fr)
     @ INT_TO_DW (fr_dwMinBitRate fr) @ INT_TO_DW (fr_dwMaxBitRate fr)
     @ INT_TO_DW (fr_dwMaxVideoFrameBufferSize fr) @ INT_TO_DW (fr_dwDefaultFrameInterval fr)
     @ [fr_bFrameIntervalType fr] @ concat (map INT_TO_DW vs)"

lemma dw_at_append: "dw_at (pre @ INT_TO_DW v @ post) (length pre) = Some v"
  by (simp add: nth_append INT_TO_DW_def)

lemma read_intervals_encode:
  "read_intervals (pre @ concat (map INT_TO_DW vs) @ post) (length pre) (length vs) = Some vs"
proof (induction vs arbitrary: pre)
  case Nil
  then show ?case by simp
next
  case (Cons v vs)
  have "read_intervals ((pre @ INT_TO_DW v) @ concat (map INT_TO_DW vs) @ post)
      (length (pre @ INT_TO_DW v)) (length vs) = Some vs" by (rule Cons.IH)
  with dw_at_append [of pre v "concat (map INT_TO_DW vs) @ post"] show ?case by simp
qed

lemma uncompressed_head_encode:
  "uncompressed_head (encode_frame fr vs @ post) = Some (zero_frame\<lparr>
     fr_bDescriptorSubtype := fr_bDescriptorSubtype fr, fr_bFrameIndex := fr_bFrameIndex fr,
     fr_bmCapabilities := fr_bmCapabilities fr, fr_wWidth := fr_wWidth fr,
     fr_wHeight := fr_wHeight fr, fr_dwMinBitRate := fr_dwMinBitRate fr,
     fr_dwMaxBitRate := fr_dwMaxBitRate fr,
     fr_dwMaxVideoFrameBufferSize := fr_dwMaxVideoFrameBufferSize fr,
     fr_dwDefaultFrameInterval := fr_dwDefaultFrameInterval fr,
     fr_bFrameIntervalType := fr_bFrameIntervalType fr\<rparr>)"
  by (simp add: uncompressed_head_def encode_frame_def SHORT_TO_SW_def INT_TO_DW_def)

lemma frame_list_clamped_encode:
  assumes "vs \<noteq> []" "0 \<notin> set vs" "unat (fr_bFrameIntervalType fr) = length vs"
    and "hd vs \<le> fr_dwDefaultFrameInterval fr" "fr_dwDefaultFrameInterval fr \<le> last vs"
    and "fr_bFrameIntervalType fr1 = fr_bFrameIntervalType fr"
      "fr_dwDefaultFrameInterval fr1 = fr_dwDefaultFrameInterval fr"
  shows "frame_list_clamped (encode_frame fr vs @ post) fr1 = Some (fr1\<lparr>fr_intervals := Some (vs @ [0])\<rparr>)"
proof -
  have pre: "encode_frame fr vs @ post = pre' @ concat (map INT_TO_DW vs) @ post \<and> length pre' = 26"
    if "pre' = [of_nat (26 + 4 * length vs), LIBUSB_DT_CS_INTERFACE, fr_bDescriptorSubtype fr,
      fr_bFrameIndex fr, fr_bmCapabilities fr]
     @ SHORT_TO_SW (fr_wWidth fr) @ SHORT_TO_SW (fr_wHeight fr)
     @ INT_TO_DW (fr_dwMinBitRate fr) @ INT_TO_DW (fr_dwMaxBitRate fr)
     @ INT_TO_DW (fr_dwMaxVideoFrameBufferSize fr) @ INT_TO_DW (fr_dwDefaultFrameInterval fr)
     @ [fr_bFrameIntervalType fr]" for pre'
    by (simp add: that encode_frame_def)
  then obtain pre' where e: "encode_frame fr vs @ post = pre' @ concat (map INT_TO_DW vs) @ post"
    and l: "length pre' = 26" by blast
  have "read_intervals (encode_frame fr vs @ post) 26 (length vs) = Some vs"
    using read_intervals_encode [of pre' vs post] by (simp add: e l)
  moreover have "map (\<lambda>v. if v \<noteq> 0 then v else 1) vs = vs"
    using assms(2) by (intro map_idI) auto
  moreover have "min (last vs) (max (hd vs) (fr_dwDefaultFrameInterval fr)) = fr_dwDefaultFrameInterval fr"
    using assms(4,5) by (simp add: min_def max_def)
  ultimately show ?thesis
    using assms(3,6,7) by (simp add: frame_list_clamped_def)
qed

section \<open>Properties\<close>

text \<open>
  C15. Scanning a streaming interface is total on well-formed descriptors: when the
  class-specific bytes are blocks that start with their length, each complete for its type
  and with a format before the first frame, the scan succeeds and appends one well-formed
  streaming interface, leaving the rest of the description alone.
\<close>
theorem scan_streaming_total:
  assumes "first_altsetting info i = Some d" "stream_extra d = concat bs @ rest"
    and "\<forall>b \<in> set bs. block_ok b" "length rest < 3" "vs_blocks_complete False bs" "8 \<le> sb"
  shows "\<exists>si. uvc_scan_streaming sb info i
      = Some (UVC_SUCCESS, info\<lparr>stream_ifs := stream_ifs info @ [si]\<rparr>) \<and> stream_ok si"
proof -
  have "\<forall>b \<in> set bs. length b < 2 ^ sb" using assms(3,6) block_ok_length by blast
  from fold_vs_total [OF assms(5) _ this] obtain si where
    "fold_blocks (uvc_parse_vs sb) bs rest
       (zero_stream_if\<lparr>si_bInterfaceNumber := as_bInterfaceNumber d\<rparr>) = Some (UVC_SUCCESS, si)"
    by auto
  with assms(1,2) have "uvc_scan_streaming sb info i
      = Some (UVC_SUCCESS, info\<lparr>stream_ifs := stream_ifs info @ [si]\<rparr>)"
    by (simp add: uvc_scan_streaming_def scan_blocks_fold [OF assms(3,4)])
  moreover from scan_streaming_ok(2) [OF this] have "stream_ok si" by simp
  ultimately show ?thesis by blast
qed

definition sample_vs :: "u8 list list" where
  "sample_vs = [[11, 0x24, 0x06, 1, 1, 0, 1, 0, 0, 0, 0],
     encode_frame (zero_frame\<lparr>fr_bDescriptorSubtype := UVC_VS_FRAME_MJPEG, fr_bFrameIndex := 1,
       fr_wWidth := 640, fr_wHeight := 480, fr_dwDefaultFrameInterval := 333333,
       fr_bFrameIntervalType := 1\<rparr>) [333333]]"

definition sample_if :: usb_altsetting where
  "sample_if = \<lparr>as_bInterfaceNumber = 1, as_bAlternateSetting = 0, as_bInterfaceClass = 14,
     as_bInterfaceSubClass = 2, as_endpoints = [], as_extra = concat sample_vs\<rparr>"

definition sample_info :: uvc_device_info where
  "sample_info = \<lparr>di_config = Some [[], [sample_if]], ctrl_if = zero_ctrl_if, stream_ifs = []\<rparr>"

theorem scan_streaming_total_witness:
  "\<exists>si. uvc_scan_streaming 32 sample_info 1 = Some (UVC_SUCCESS, sample_info\<lparr>stream_ifs := [si]\<rparr>)"
proof -
  have "first_altsetting sample_info 1 = Some sample_if"
    by (simp add: first_altsetting_def sample_info_def)
  moreover have "stream_extra sample_if = concat sample_vs @ []"
    by (simp add: stream_extra_def sample_if_def sample_vs_def)
  moreover have "\<forall>b \<in> set sample_vs. block_ok b"
    by (simp add: sample_vs_def block_ok_def encode_frame_def)
  moreover have "vs_blocks_complete False sample_vs"
    by (simp add: sample_vs_def vs_complete_def is_format_def encode_frame_def frame_tail_def
        SHORT_TO_SW_def INT_TO_DW_def zero_frame_def)
  ultimately have "\<exists>si. uvc_scan_streaming 32 sample_info 1
      = Some (UVC_SUCCESS, sample_info\<lparr>stream_ifs := stream_ifs sample_info @ [si]\<rparr>) \<and> stream_ok si"
    by (intro scan_streaming_total [where d = sample_if and bs = sample_vs and rest = "[]"]) simp_all
  then show ?thesis by (auto simp: sample_info_def)
qed

text \<open>
  Malformed lengths have no defined result: a block the parser has no case for makes the
  scan of a streaming interface loop for ever when its length byte is 0, and makes it read
  outside the descriptor when its length exceeds what is left.
\<close>
theorem scan_streaming_bad_length:
  assumes "first_altsetting info i = Some d" "3 \<le> length (stream_extra d)"
    and "stream_extra d ! 2 = 0x03"
    and "stream_extra d ! 0 = 0 \<or> length (stream_extra d) < unat (stream_extra d ! 0)"
  shows "uvc_scan_streaming sb info i = None"
proof -
  have "uvc_parse_vs sb (stream_extra d) n si = Some (UVC_SUCCESS, si)" for n si
    using assms(2,3) by (simp add: uvc_parse_vs_def)
  from scan_blocks_skip [where parse = "uvc_parse_vs sb", OF assms(2) this] assms(1,4)
  show ?thesis by (auto simp: uvc_scan_streaming_def Let_def)
qed

theorem scan_streaming_bad_length_witness:
  "uvc_scan_streaming 32 \<lparr>di_config = Some [[sample_if\<lparr>as_extra := [0, 0x24, 0x03, 0]\<rparr>]],
     ctrl_if = zero_ctrl_if, stream_ifs = []\<rparr> 0 = None"
  by (rule scan_streaming_bad_length [where d = "sample_if\<lparr>as_extra := [0, 0x24, 0x03, 0]\<rparr>"])
    (simp_all add: first_altsetting_def stream_extra_def)

lemma scan_control_info_ok:
  assumes "uvc_scan_control sb ids \<lparr>di_config = cfg, ctrl_if = zero_ctrl_if, stream_ifs = []\<rparr>
    = Some (r, info)"
  shows "info_ok info"
proof -
  let ?z = "\<lparr>di_config = cfg, ctrl_if = zero_ctrl_if, stream_ifs = []\<rparr>"
  have z: "info_ok ?z" by (simp add: info_ok_def ctrl_if_ok_def zero_ctrl_if_def)
  have oc: "info_ok (open_ctrl_if i d ?z)" for i d
    by (auto simp: open_ctrl_if_def Let_def info_ok_def upd_ctrl_if_def ctrl_if_ok_def zero_ctrl_if_def
        split: list.splits)
  from assms obtain found where f: "(case found of None \<Rightarrow> Some (UVC_ERROR_INVALID_DEVICE, ?z)
      | Some (i, d) \<Rightarrow> scan_blocks (uvc_parse_vc sb) (as_extra d) (open_ctrl_if i d ?z)) = Some (r, info)"
    by (auto simp: uvc_scan_control_def ub_simps)
  then show ?thesis
    using z oc by (auto split: option.splits dest: vc.scan_keeps)
qed

text \<open>
  C1. Whatever bytes a device sends, a scan that returns keeps the description well formed,
  errors included: requests address the parsed entity on the control interface, intervals
  are zero-terminated with the announced count, those of uncompressed and MJPEG frames are
  positive with the default among them, and frame sizes follow from format and dimensions.
\<close>
theorem scan_control_ok:
  assumes "uvc_scan_control sb ids \<lparr>di_config = cfg, ctrl_if = zero_ctrl_if, stream_ifs = []\<rparr>
    = Some (r, info)"
  shows "info_ok info"
  using assms by (rule scan_control_info_ok)

theorem scan_control_ok_witness:
  "info_ok (upd_ctrl_if (\<lambda>c. c\<lparr>ci_bInterfaceNumber := 0\<rparr>)
     \<lparr>di_config = Some [[sample_if\<lparr>as_bInterfaceSubClass := 1, as_extra := []\<rparr>]],
      ctrl_if = zero_ctrl_if, stream_ifs = []\<rparr>)"
  by (rule scan_control_ok [where sb = 32 and ids = None and r = 0
      and cfg = "Some [[sample_if\<lparr>as_bInterfaceSubClass := 1, as_extra := []\<rparr>]]"])
    (simp add: uvc_scan_control_def sample_if_def scan_blocks.simps open_ctrl_if_def)

text \<open>
  The bitmap of a processing unit: its bit \<open>i\<close> is bit \<open>i mod 8\<close> of control byte
  \<open>i div 8\<close> of the block, for the bytes the block announces and the 64 bits there are.
\<close>
theorem processing_unit_bitmap:
  assumes "uvc_parse_vc_processing_unit block n info = Some (r, info')"
  shows "\<exists>p. r = UVC_SUCCESS
    \<and> processing_unit_descs (ctrl_if info') = processing_unit_descs (ctrl_if info) @ [p]
    \<and> pu_bUnitID p = block ! 3 \<and> pu_bSourceID p = block ! 4
    \<and> (\<forall>i. bit (pu_bmControls p) i \<longleftrightarrow>
         i < 64 \<and> i < 8 * unat (block ! 7) \<and> bit (block ! (8 + i div 8)) (i mod 8))"
  using assms
  by (auto simp: uvc_parse_vc_processing_unit_def ub_simps upd_ctrl_if_def bit_bm_controls)

theorem processing_unit_bitmap_witness:
  "\<exists>info' p. uvc_parse_vc_processing_unit [11, 0x24, 5, 2, 1, 0, 0, 2, 0x7F, 0x14, 0] 11 sample_info
      = Some (UVC_SUCCESS, info') \<and> processing_unit_descs (ctrl_if info') = [p]
    \<and> bit (pu_bmControls p) 10 \<and> \<not> bit (pu_bmControls p) 9"
proof -
  obtain r info' where p: "uvc_parse_vc_processing_unit [11, 0x24, 5, 2, 1, 0, 0, 2, 0x7F, 0x14, 0] 11
      sample_info = Some (r, info')"
    using bm_controls_total [of 8 2 "[11, 0x24, 5, 2, 1, 0, 0, 2, 0x7F, 0x14, 0]" 0]
    by (auto simp: uvc_parse_vc_processing_unit_def)
  from processing_unit_bitmap [OF p] p show ?thesis
    by (auto simp: sample_info_def zero_ctrl_if_def)
qed

text \<open>
  Round trip of an MJPEG frame descriptor: parsing the bytes of a frame with discrete,
  positive intervals and a default between the first and the last gives the frame back, as
  the last frame of the last format.
\<close>
theorem frame_descriptor_roundtrip:
  assumes "last_format si = Some f" "fr_bDescriptorSubtype fr = UVC_VS_FRAME_MJPEG"
    and "vs \<noteq> []" "0 \<notin> set vs" "unat (fr_bFrameIntervalType fr) = length vs"
    and "hd vs \<le> fr_dwDefaultFrameInterval fr" "fr_dwDefaultFrameInterval fr \<le> last vs"
    and "fr_dwMinFrameInterval fr = 0" "fr_dwMaxFrameInterval fr = 0"
      "fr_dwFrameIntervalStep fr = 0" "fr_dwBytesPerLine fr = 0"
      "fr_intervals fr = Some (vs @ [0])"
  shows "uvc_parse_vs sb (encode_frame fr vs @ post) n si = Some (UVC_SUCCESS, append_frame si fr)"
proof -
  define fr1 where "fr1 = zero_frame\<lparr>
     fr_bDescriptorSubtype := fr_bDescriptorSubtype fr, fr_bFrameIndex := fr_bFrameIndex fr,
     fr_bmCapabilities := fr_bmCapabilities fr, fr_wWidth := fr_wWidth fr,
     fr_wHeight := fr_wHeight fr, fr_dwMinBitRate := fr_dwMinBitRate fr,
     fr_dwMaxBitRate := fr_dwMaxBitRate fr,
     fr_dwMaxVideoFrameBufferSize := fr_dwMaxVideoFrameBufferSize fr,
     fr_dwDefaultFrameInterval := fr_dwDefaultFrameInterval fr,
     fr_bFrameIntervalType := fr_bFrameIntervalType fr\<rparr>"
  have h: "uncompressed_head (encode_frame fr vs @ post) = Some fr1"
    unfolding fr1_def by (rule uncompressed_head_encode)
  have t: "rd (encode_frame fr vs @ post) 2 = Some UVC_VS_FRAME_MJPEG"
    using assms(2) by (simp add: encode_frame_def)
  have "fr_bFrameIntervalType fr1 \<noteq> 0" using assms(3,5) by (auto simp: fr1_def)
  moreover have "frame_list_clamped (encode_frame fr vs @ post) fr1
      = Some (fr1\<lparr>fr_intervals := Some (vs @ [0])\<rparr>)"
    by (rule frame_list_clamped_encode [OF assms(3-7)]) (simp_all add: fr1_def)
  moreover have "fr1\<lparr>fr_intervals := Some (vs @ [0])\<rparr> = fr"
    using assms(8-12) by (simp add: fr1_def zero_frame_def)
  ultimately have "uvc_parse_vs_frame_uncompressed (encode_frame fr vs @ post) n si
      = Some (UVC_SUCCESS, append_frame si fr)"
    using assms(1,2) by (simp add: uvc_parse_vs_frame_uncompressed_def h frame_size_def)
  with t show ?thesis by (simp add: uvc_parse_vs_def)
qed

theorem frame_descriptor_roundtrip_witness:
  "uvc_parse_vs 32 (encode_frame (zero_frame\<lparr>fr_bDescriptorSubtype := UVC_VS_FRAME_MJPEG,
      fr_dwDefaultFrameInterval := 400000, fr_bFrameIntervalType := 2,
      fr_intervals := Some [333333, 666666, 0]\<rparr>) [333333, 666666] @ []) 34
      (append_format zero_stream_if zero_format)
    = Some (UVC_SUCCESS, append_frame (append_format zero_stream_if zero_format)
      (zero_frame\<lparr>fr_bDescriptorSubtype := UVC_VS_FRAME_MJPEG,
      fr_dwDefaultFrameInterval := 400000, fr_bFrameIntervalType := 2,
      fr_intervals := Some [333333, 666666, 0]\<rparr>))"
  by (rule frame_descriptor_roundtrip [where f = zero_format])
    (simp_all add: last_format_def append_format_def zero_frame_def zero_stream_if_def)

end
