(* ===== verification/Uvc_Controls.thy ===== *)
theory Uvc_Controls
  imports Uvc_Types
begin

text \<open>
  The camera and processing unit controls, \<^verbatim>\<open>libuvc/src/ctrl.c\<close>. Every getter and
  setter of the file is a definition with the file's name; all share the two bodies
  \<open>get_control\<close> and \<open>set_control\<close>, which the C repeats. A result is the error code, the
  value stored through the output pointers (none when they are not written) and the world.
  Values are words of the C type's width; the pairs and tuples are the output pointers in
  their order. The entity a request goes to is the first input terminal or processing unit
  of the device; a device without one makes the C follow a null pointer, which is
  \<open>None\<close>.
\<close>

section \<open>Requests\<close>

abbreviation (input) "REQ_TYPE_SET \<equiv> 0x21 :: u8"
abbreviation (input) "REQ_TYPE_GET \<equiv> 0xA1 :: u8"
abbreviation (input) "UVC_SET_CUR \<equiv> 0x01 :: u8"
abbreviation (input) "UVC_GET_CUR \<equiv> 0x81 :: u8"
abbreviation (input) "UVC_GET_LEN \<equiv> 0x85 :: u8"
abbreviation (input) "UVC_GET_DEF \<equiv> 0x87 :: u8"
abbreviation (input) "UVC_VC_VIDEO_POWER_MODE_CONTROL \<equiv> 0x01 :: u8"
abbreviation (input) "UVC_VC_REQUEST_ERROR_CODE_CONTROL \<equiv> 0x02 :: u8"
abbreviation (input) "UVC_CT_AE_MODE_CONTROL \<equiv> 0x02 :: u8"
abbreviation (input) "UVC_CT_AE_PRIORITY_CONTROL \<equiv> 0x03 :: u8"
abbreviation (input) "UVC_CT_EXPOSURE_TIME_ABSOLUTE_CONTROL \<equiv> 0x04 :: u8"
abbreviation (input) "UVC_CT_EXPOSURE_TIME_RELATIVE_CONTROL \<equiv> 0x05 :: u8"
abbreviation (input) "UVC_CT_SCANNING_MODE_CONTROL \<equiv> 0x01 :: u8"
abbreviation (input) "UVC_CT_FOCUS_AUTO_CONTROL \<equiv> 0x08 :: u8"
abbreviation (input) "UVC_CT_FOCUS_ABSOLUTE_CONTROL \<equiv> 0x06 :: u8"
abbreviation (input) "UVC_CT_FOCUS_RELATIVE_CONTROL \<equiv> 0x07 :: u8"
abbreviation (input) "UVC_CT_ZOOM_ABSOLUTE_CONTROL \<equiv> 0x0b :: u8"
abbreviation (input) "UVC_CT_ZOOM_RELATIVE_CONTROL \<equiv> 0x0c :: u8"
abbreviation (input) "UVC_CT_PANTILT_ABSOLUTE_CONTROL \<equiv> 0x0d :: u8"
abbreviation (input) "UVC_CT_PANTILT_RELATIVE_CONTROL \<equiv> 0x0e :: u8"
abbreviation (input) "UVC_CT_ROLL_ABSOLUTE_CONTROL \<equiv> 0x0f :: u8"
abbreviation (input) "UVC_CT_ROLL_RELATIVE_CONTROL \<equiv> 0x10 :: u8"
abbreviation (input) "UVC_CT_PRIVACY_CONTROL \<equiv> 0x11 :: u8"
abbreviation (input) "UVC_CT_DIGITAL_WINDOW_CONTROL \<equiv> 0x13 :: u8"
abbreviation (input) "UVC_CT_REGION_OF_INTEREST_CONTROL \<equiv> 0x14 :: u8"
abbreviation (input) "UVC_PU_BACKLIGHT_COMPENSATION_CONTROL \<equiv> 0x01 :: u8"
abbreviation (input) "UVC_PU_BRIGHTNESS_CONTROL \<equiv> 0x02 :: u8"
abbreviation (input) "UVC_PU_CONTRAST_CONTROL \<equiv> 0x03 :: u8"
abbreviation (input) "UVC_PU_CONTRAST_AUTO_CONTROL \<equiv> 0x13 :: u8"
abbreviation (input) "UVC_PU_GAIN_CONTROL \<equiv> 0x04 :: u8"
abbreviation (input) "UVC_PU_POWER_LINE_FREQUENCY_CONTROL \<equiv> 0x05 :: u8"
abbreviation (input) "UVC_PU_HUE_CONTROL \<equiv> 0x06 :: u8"
abbreviation (input) "UVC_PU_HUE_AUTO_CONTROL \<equiv> 0x10 :: u8"
abbreviation (input) "UVC_PU_SATURATION_CONTROL \<equiv> 0x07 :: u8"
abbreviation (input) "UVC_PU_SHARPNESS_CONTROL \<equiv> 0x08 :: u8"
abbreviation (input) "UVC_PU_GAMMA_CONTROL \<equiv> 0x09 :: u8"
abbreviation (input) "UVC_PU_WHITE_BALANCE_TEMPERATURE_CONTROL \<equiv> 0x0a :: u8"
abbreviation (input) "UVC_PU_WHITE_BALANCE_TEMPERATURE_AUTO_CONTROL \<equiv> 0x0b :: u8"
abbreviation (input) "UVC_PU_WHITE_BALANCE_COMPONENT_CONTROL \<equiv> 0x0c :: u8"
abbreviation (input) "UVC_PU_WHITE_BALANCE_COMPONENT_AUTO_CONTROL \<equiv> 0x0d :: u8"
abbreviation (input) "UVC_PU_DIGITAL_MULTIPLIER_CONTROL \<equiv> 0x0e :: u8"
abbreviation (input) "UVC_PU_DIGITAL_MULTIPLIER_LIMIT_CONTROL \<equiv> 0x0f :: u8"
abbreviation (input) "UVC_PU_ANALOG_VIDEO_STANDARD_CONTROL \<equiv> 0x11 :: u8"
abbreviation (input) "UVC_PU_ANALOG_LOCK_STATUS_CONTROL \<equiv> 0x12 :: u8"
abbreviation (input) "UVC_CT_IRIS_ABSOLUTE_CONTROL \<equiv> 0x09 :: u8"
abbreviation (input) "UVC_CT_IRIS_RELATIVE_CONTROL \<equiv> 0x0a :: u8"

text \<open>\<^verbatim>\<open>selector << 8\<close>, and the three ways \<^verbatim>\<open>wIndex\<close> is formed.\<close>

definition sel_value :: "u8 \<Rightarrow> u16" where
  "sel_value sel = push_bit 8 (ucast sel)"

definition ct_index :: "uvc_control_interface \<Rightarrow> u16 option" where
  "ct_index ci = (case input_term_descs ci of [] \<Rightarrow> None | t # _ \<Rightarrow> Some (it_request t))"

definition pu_index :: "uvc_control_interface \<Rightarrow> u16 option" where
  "pu_index ci = (case processing_unit_descs ci of [] \<Rightarrow> None | p # _ \<Rightarrow> Some (pu_request p))"

definition if_index :: "uvc_control_interface \<Rightarrow> u16 option" where
  "if_index ci = Some (ucast (ci_bInterfaceNumber ci))"

text \<open>
  The shared bodies. The array of a getter is only decoded when the transfer filled it, so
  what it holds before does not matter.
\<close>

definition get_control ::
  "'w usb \<Rightarrow> u16 option \<Rightarrow> u8 \<Rightarrow> u8 \<Rightarrow> nat \<Rightarrow> (u8 list \<Rightarrow> 'a) \<Rightarrow> 'w
     \<Rightarrow> (int \<times> 'a option \<times> 'w) option" where
  "get_control u index req sel n decode w =
     do { i \<leftarrow> index;
          (ret, data, w) \<leftarrow>
            libusb_control_transfer u REQ_TYPE_GET req (sel_value sel) i (replicate n 0) (of_nat n) 0 w;
          if ret = int n then Some (UVC_SUCCESS, Some (decode data), w)
          else Some (ret, None, w) }"

definition set_control ::
  "'w usb \<Rightarrow> u16 option \<Rightarrow> u8 \<Rightarrow> u8 list \<Rightarrow> 'w \<Rightarrow> (int \<times> 'w) option" where
  "set_control u index sel data w =
     do { i \<leftarrow> index;
          (ret, _, w) \<leftarrow>
            libusb_control_transfer u REQ_TYPE_SET UVC_SET_CUR (sel_value sel) i data
              (of_nat (length data)) 0 w;
          Some (if ret = int (length data) then UVC_SUCCESS else ret, w) }"

section \<open>Encodings\<close>

definition dec_8 :: "u8 list \<Rightarrow> u8" where "dec_8 d = d ! 0"
definition enc_8 :: "u8 \<Rightarrow> u8 list" where "enc_8 v = [v]"
definition dec_16 :: "u8 list \<Rightarrow> u16" where "dec_16 d = SW_TO_SHORT (d ! 0) (d ! 1)"
definition enc_16 :: "u16 \<Rightarrow> u8 list" where "enc_16 v = SHORT_TO_SW v"
definition dec_32 :: "u8 list \<Rightarrow> u32" where
  "dec_32 d = DW_TO_INT (d ! 0) (d ! 1) (d ! 2) (d ! 3)"
definition enc_32 :: "u32 \<Rightarrow> u8 list" where "enc_32 v = INT_TO_DW v"
definition dec_8_2 :: "u8 list \<Rightarrow> u8 \<times> u8" where "dec_8_2 d = (d ! 0, d ! 1)"
definition enc_8_2 :: "u8 \<times> u8 \<Rightarrow> u8 list" where "enc_8_2 v = (case v of (a, b) \<Rightarrow> [a, b])"
definition dec_8_3 :: "u8 list \<Rightarrow> u8 \<times> u8 \<times> u8" where "dec_8_3 d = (d ! 0, d ! 1, d ! 2)"
definition enc_8_3 :: "u8 \<times> u8 \<times> u8 \<Rightarrow> u8 list" where
  "enc_8_3 v = (case v of (a, b, c) \<Rightarrow> [a, b, c])"
definition dec_8_4 :: "u8 list \<Rightarrow> u8 \<times> u8 \<times> u8 \<times> u8" where
  "dec_8_4 d = (d ! 0, d ! 1, d ! 2, d ! 3)"
definition enc_8_4 :: "u8 \<times> u8 \<times> u8 \<times> u8 \<Rightarrow> u8 list" where
  "enc_8_4 v = (case v of (a, b, c, e) \<Rightarrow> [a, b, c, e])"
definition dec_32_2 :: "u8 list \<Rightarrow> u32 \<times> u32" where
  "dec_32_2 d = (dec_32 d, dec_32 (drop 4 d))"
definition enc_32_2 :: "u32 \<times> u32 \<Rightarrow> u8 list" where
  "enc_32_2 v = (case v of (a, b) \<Rightarrow> INT_TO_DW a @ INT_TO_DW b)"
definition dec_16_6 :: "u8 list \<Rightarrow> u16 \<times> u16 \<times> u16 \<times> u16 \<times> u16 \<times> u16" where
  "dec_16_6 d = (dec_16 d, dec_16 (drop 2 d), dec_16 (drop 4 d), dec_16 (drop 6 d),
     dec_16 (drop 8 d), dec_16 (drop 10 d))"
definition enc_16_6 :: "u16 \<times> u16 \<times> u16 \<times> u16 \<times> u16 \<times> u16 \<Rightarrow> u8 list" where
  "enc_16_6 v = (case v of (a, b, c, e, f, g) \<Rightarrow> SHORT_TO_SW a @ SHORT_TO_SW b @ SHORT_TO_SW c
     @ SHORT_TO_SW e @ SHORT_TO_SW f @ SHORT_TO_SW g)"
definition dec_16_5 :: "u8 list \<Rightarrow> u16 \<times> u16 \<times> u16 \<times> u16 \<times> u16" where
  "dec_16_5 d = (dec_16 d, dec_16 (drop 2 d), dec_16 (drop 4 d), dec_16 (drop 6 d),
     dec_16 (drop 8 d))"
definition enc_16_5 :: "u16 \<times> u16 \<times> u16 \<times> u16 \<times> u16 \<Rightarrow> u8 list" where
  "enc_16_5 v = (case v of (a, b, c, e, f) \<Rightarrow> SHORT_TO_SW a @ SHORT_TO_SW b @ SHORT_TO_SW c
     @ SHORT_TO_SW e @ SHORT_TO_SW f)"

text \<open>
  The relative exposure step is an \<^verbatim>\<open>int\<close> in the interface and an unsigned byte in the
  array; the switches of the automatic controls are sent as 0 or 1.
\<close>

definition dec_step :: "u8 list \<Rightarrow> u32" where "dec_step d = ucast (d ! 0)"
definition enc_step :: "u32 \<Rightarrow> u8 list" where "enc_step v = [ucast v]"
definition enc_auto :: "u8 \<Rightarrow> u8 list" where "enc_auto v = [if v \<noteq> 0 then 1 else 0]"

section \<open>Generic controls\<close>

text \<open>
  These form \<^verbatim>\<open>wIndex\<close> from the unit alone. \<open>uvc_get_ctrl_len\<close> decodes its buffer
  after any non-negative result, so it has the buffer's indeterminate contents as an argument.
\<close>

definition uvc_get_ctrl_len :: "'w usb \<Rightarrow> u8 list \<Rightarrow> u8 \<Rightarrow> u8 \<Rightarrow> 'w \<Rightarrow> (int \<times> 'w) option" where
  "uvc_get_ctrl_len u buf unit ctrl w =
     do { (ret, buf, w) \<leftarrow>
            libusb_control_transfer u REQ_TYPE_GET UVC_GET_LEN (sel_value ctrl) (sel_value unit) buf 2 0 w;
          if ret < 0 then Some (ret, w)
          else do { n \<leftarrow> sw_at buf 0; Some (uint n, w) } }"

definition uvc_get_ctrl ::
  "'w usb \<Rightarrow> u8 \<Rightarrow> u8 \<Rightarrow> u8 list \<Rightarrow> int \<Rightarrow> u8 \<Rightarrow> 'w \<Rightarrow> (int \<times> u8 list \<times> 'w) option" where
  "uvc_get_ctrl u unit ctrl data len req_code w =
     libusb_control_transfer u REQ_TYPE_GET req_code (sel_value ctrl) (sel_value unit) data
       (of_int len) 0 w"

definition uvc_set_ctrl ::
  "'w usb \<Rightarrow> u8 \<Rightarrow> u8 \<Rightarrow> u8 list \<Rightarrow> int \<Rightarrow> 'w \<Rightarrow> (int \<times> u8 list \<times> 'w) option" where
  "uvc_set_ctrl u unit ctrl data len w =
     libusb_control_transfer u REQ_TYPE_SET UVC_SET_CUR (sel_value ctrl) (sel_value unit) data
       (of_int len) 0 w"

section \<open>Interface controls\<close>

definition uvc_vc_get_error_code ::
  "'w usb \<Rightarrow> uvc_control_interface \<Rightarrow> u8 \<Rightarrow> 'w \<Rightarrow> (int \<times> u32 option \<times> 'w) option" where
  "uvc_vc_get_error_code u ci req w =
     get_control u (if_index ci) req UVC_VC_REQUEST_ERROR_CODE_CONTROL 1 dec_step w"

text \<open>The query in \<open>uvc_vs_get_error_code\<close> is compiled out; it only reports success.\<close>

definition uvc_vs_get_error_code :: "'w \<Rightarrow> (int \<times> u32 option \<times> 'w) option" where
  "uvc_vs_get_error_code w = Some (UVC_SUCCESS, None, w)"

definition uvc_get_power_mode ::
  "'w usb \<Rightarrow> uvc_control_interface \<Rightarrow> u8 \<Rightarrow> 'w \<Rightarrow> (int \<times> u32 option \<times> 'w) option" where
  "uvc_get_power_mode u ci req w =
     get_control u (if_index ci) req UVC_VC_VIDEO_POWER_MODE_CONTROL 1 dec_step w"

definition uvc_set_power_mode ::
  "'w usb \<Rightarrow> uvc_control_interface \<Rightarrow> u32 \<Rightarrow> 'w \<Rightarrow> (int \<times> 'w) option" where
  "uvc_set_power_mode u ci v w =
     set_control u (if_index ci) UVC_VC_VIDEO_POWER_MODE_CONTROL (enc_step v) w"

section \<open>Terminal and unit controls\<close>

definition uvc_get_ae_mode :: "'w usb \<Rightarrow> uvc_control_interface \<Rightarrow> u8 \<Rightarrow> 'w \<Rightarrow> (int \<times> (u8) option \<times> 'w) option" where
  "uvc_get_ae_mode u ci req w = get_control u (ct_index ci) req UVC_CT_AE_MODE_CONTROL 1 dec_8 w"

definition uvc_set_ae_mode :: "'w usb \<Rightarrow> uvc_control_interface \<Rightarrow> u8 \<Rightarrow> 'w \<Rightarrow> (int \<times> 'w) option" where
  "uvc_set_ae_mode u ci v w = set_control u (ct_index ci) UVC_CT_AE_MODE_CONTROL (enc_8 v) w"

definition uvc_get_ae_priority :: "'w usb \<Rightarrow> uvc_control_interface \<Rightarrow> u8 \<Rightarrow> 'w \<Rightarrow> (int \<times> (u8) option \<times> 'w) option" where
  "uvc_get_ae_priority u ci req w = get_control u (ct_index ci) req UVC_CT_AE_PRIORITY_CONTROL 1 dec_8 w"

definition uvc_set_ae_priority :: "'w usb \<Rightarrow> uvc_control_interface \<Rightarrow> u8 \<Rightarrow> 'w \<Rightarrow> (int \<times> 'w) option" where
  "uvc_set_ae_priority u ci v w = set_control u (ct_index ci) UVC_CT_AE_PRIORITY_CONTROL (enc_8 v) w"

definition uvc_get_exposure_abs :: "'w usb \<Rightarrow> uvc_control_interface \<Rightarrow> u8 \<Rightarrow> 'w \<Rightarrow> (int \<times> (u32) option \<times> 'w) option" where
  "uvc_get_exposure_abs u ci req w = get_control u (ct_index ci) req UVC_CT_EXPOSURE_TIME_ABSOLUTE_CONTROL 4 dec_32 w"

definition uvc_set_exposure_abs :: "'w usb \<Rightarrow> uvc_control_interface \<Rightarrow> u32 \<Rightarrow> 'w \<Rightarrow> (int \<times> 'w) option" where
  "uvc_set_exposure_abs u ci v w = set_control u (ct_index ci) UVC_CT_EXPOSURE_TIME_ABSOLUTE_CONTROL (enc_32 v) w"

definition uvc_get_exposure_rel :: "'w usb \<Rightarrow> uvc_control_interface \<Rightarrow> u8 \<Rightarrow> 'w \<Rightarrow> (int \<times> (u32) option \<times> 'w) option" where
  "uvc_get_exposure_rel u ci req w = get_control u (ct_index ci) req UVC_CT_EXPOSURE_TIME_RELATIVE_CONTROL 1 dec_step w"

definition uvc_set_exposure_rel :: "'w usb \<Rightarrow> uvc_control_interface \<Rightarrow> u32 \<Rightarrow> 'w \<Rightarrow> (int \<times> 'w) option" where
  "uvc_set_exposure_rel u ci v w = set_control u (ct_index ci) UVC_CT_EXPOSURE_TIME_RELATIVE_CONTROL (enc_step v) w"

definition uvc_get_scanning_mode :: "'w usb \<Rightarrow> uvc_control_interface \<Rightarrow> u8 \<Rightarrow> 'w \<Rightarrow> (int \<times> (u8) option \<times> 'w) option" where
  "uvc_get_scanning_mode u ci req w = get_control u (ct_index ci) req UVC_CT_SCANNING_MODE_CONTROL 1 dec_8 w"

definition uvc_set_scanning_mode :: "'w usb \<Rightarrow> uvc_control_interface \<Rightarrow> u8 \<Rightarrow> 'w \<Rightarrow> (int \<times> 'w) option" where
  "uvc_set_scanning_mode u ci v w = set_control u (ct_index ci) UVC_CT_SCANNING_MODE_CONTROL (enc_8 v) w"

definition uvc_get_focus_auto :: "'w usb \<Rightarrow> uvc_control_interface \<Rightarrow> u8 \<Rightarrow> 'w \<Rightarrow> (int \<times> (u8) option \<times> 'w) option" where
  "uvc_get_focus_auto u ci req w = get_control u (ct_index ci) req UVC_CT_FOCUS_AUTO_CONTROL 1 dec_8 w"

definition uvc_set_focus_auto :: "'w usb \<Rightarrow> uvc_control_interface \<Rightarrow> u8 \<Rightarrow> 'w \<Rightarrow> (int \<times> 'w) option" where
  "uvc_set_focus_auto u ci v w = set_control u (ct_index ci) UVC_CT_FOCUS_AUTO_CONTROL (enc_8 v) w"

definition uvc_get_focus_abs :: "'w usb \<Rightarrow> uvc_control_interface \<Rightarrow> u8 \<Rightarrow> 'w \<Rightarrow> (int \<times> (u16) option \<times> 'w) option" where
  "uvc_get_focus_abs u ci req w = get_control u (ct_index ci) req UVC_CT_FOCUS_ABSOLUTE_CONTROL 2 dec_16 w"

definition uvc_set_focus_abs :: "'w usb \<Rightarrow> uvc_control_interface \<Rightarrow> u16 \<Rightarrow> 'w \<Rightarrow> (int \<times> 'w) option" where
  "uvc_set_focus_abs u ci v w = set_control u (ct_index ci) UVC_CT_FOCUS_ABSOLUTE_CONTROL (enc_16 v) w"

definition uvc_get_focus_rel :: "'w usb \<Rightarrow> uvc_control_interface \<Rightarrow> u8 \<Rightarrow> 'w \<Rightarrow> (int \<times> (u8 \<times> u8) option \<times> 'w) option" where
  "uvc_get_focus_rel u ci req w = get_control u (ct_index ci) req UVC_CT_FOCUS_RELATIVE_CONTROL 2 dec_8_2 w"

definition uvc_set_focus_rel :: "'w usb \<Rightarrow> uvc_control_interface \<Rightarrow> u8 \<times> u8 \<Rightarrow> 'w \<Rightarrow> (int \<times> 'w) option" where
  "uvc_set_focus_rel u ci v w = set_control u (ct_index ci) UVC_CT_FOCUS_RELATIVE_CONTROL (enc_8_2 v) w"

definition uvc_get_iris_abs :: "'w usb \<Rightarrow> uvc_control_interface \<Rightarrow> u8 \<Rightarrow> 'w \<Rightarrow> (int \<times> (u16) option \<times> 'w) option" where
  "uvc_get_iris_abs u ci req w = get_control u (ct_index ci) req UVC_CT_FOCUS_ABSOLUTE_CONTROL 2 dec_16 w"

definition uvc_set_iris_abs :: "'w usb \<Rightarrow> uvc_control_interface \<Rightarrow> u16 \<Rightarrow> 'w \<Rightarrow> (int \<times> 'w) option" where
  "uvc_set_iris_abs u ci v w = set_control u (ct_index ci) UVC_CT_FOCUS_ABSOLUTE_CONTROL (enc_16 v) w"

definition uvc_get_iris_rel :: "'w usb \<Rightarrow> uvc_control_interface \<Rightarrow> u8 \<Rightarrow> 'w \<Rightarrow> (int \<times> (u8) option \<times> 'w) option" where
  "uvc_get_iris_rel u ci req w = get_control u (ct_index ci) req UVC_CT_FOCUS_RELATIVE_CONTROL 1 dec_8 w"

definition uvc_set_iris_rel :: "'w usb \<Rightarrow> uvc_control_interface \<Rightarrow> u8 \<Rightarrow> 'w \<Rightarrow> (int \<times> 'w) option" where
  "uvc_set_iris_rel u ci v w = set_control u (ct_index ci) UVC_CT_FOCUS_RELATIVE_CONTROL (enc_8 v) w"

definition uvc_get_zoom_abs :: "'w usb \<Rightarrow> uvc_control_interface \<Rightarrow> u8 \<Rightarrow> 'w \<Rightarrow> (int \<times> (u16) option \<times> 'w) option" where
  "uvc_get_zoom_abs u ci req w = get_control u (ct_index ci) req UVC_CT_ZOOM_ABSOLUTE_CONTROL 2 dec_16 w"

definition uvc_set_zoom_abs :: "'w usb \<Rightarrow> uvc_control_interface \<Rightarrow> u16 \<Rightarrow> 'w \<Rightarrow> (int \<times> 'w) option" where
  "uvc_set_zoom_abs u ci v w = set_control u (ct_index ci) UVC_CT_ZOOM_ABSOLUTE_CONTROL (enc_16 v) w"

definition uvc_get_zoom_rel :: "'w usb \<Rightarrow> uvc_control_interface \<Rightarrow> u8 \<Rightarrow> 'w \<Rightarrow> (int \<times> (u8 \<times> u8 \<times> u8) option \<times> 'w) option" where
  "uvc_get_zoom_rel u ci req w = get_control u (ct_index ci) req UVC_CT_ZOOM_RELATIVE_CONTROL 3 dec_8_3 w"

definition uvc_set_zoom_rel :: "'w usb \<Rightarrow> uvc_control_interface \<Rightarrow> u8 \<times> u8 \<times> u8 \<Rightarrow> 'w \<Rightarrow> (int \<times> 'w) option" where
  "uvc_set_zoom_rel u ci v w = set_control u (ct_index ci) UVC_CT_ZOOM_RELATIVE_CONTROL (enc_8_3 v) w"

definition uvc_get_pantilt_abs :: "'w usb \<Rightarrow> uvc_control_interface \<Rightarrow> u8 \<Rightarrow> 'w \<Rightarrow> (int \<times> (u32 \<times> u32) option \<times> 'w) option" where
  "uvc_get_pantilt_abs u ci req w = get_control u (ct_index ci) req UVC_CT_PANTILT_ABSOLUTE_CONTROL 8 dec_32_2 w"

definition uvc_set_pantilt_abs :: "'w usb \<Rightarrow> uvc_control_interface \<Rightarrow> u32 \<times> u32 \<Rightarrow> 'w \<Rightarrow> (int \<times> 'w) option" where
  "uvc_set_pantilt_abs u ci v w = set_control u (ct_index ci) UVC_CT_PANTILT_ABSOLUTE_CONTROL (enc_32_2 v) w"

definition uvc_get_pantilt_rel :: "'w usb \<Rightarrow> uvc_control_interface \<Rightarrow> u8 \<Rightarrow> 'w \<Rightarrow> (int \<times> (u8 \<times> u8 \<times> u8 \<times> u8) option \<times> 'w) option" where
  "uvc_get_pantilt_rel u ci req w = get_control u (ct_index ci) req UVC_CT_PANTILT_RELATIVE_CONTROL 4 dec_8_4 w"

definition uvc_set_pantilt_rel :: "'w usb \<Rightarrow> uvc_control_interface \<Rightarrow> u8 \<times> u8 \<times> u8 \<times> u8 \<Rightarrow> 'w \<Rightarrow> (int \<times> 'w) option" where
  "uvc_set_pantilt_rel u ci v w = set_control u (ct_index ci) UVC_CT_PANTILT_RELATIVE_CONTROL (enc_8_4 v) w"

definition uvc_get_roll_abs :: "'w usb \<Rightarrow> uvc_control_interface \<Rightarrow> u8 \<Rightarrow> 'w \<Rightarrow> (int \<times> (u16) option \<times> 'w) option" where
  "uvc_get_roll_abs u ci req w = get_control u (ct_index ci) req UVC_CT_ROLL_ABSOLUTE_CONTROL 2 dec_16 w"

definition uvc_set_roll_abs :: "'w usb \<Rightarrow> uvc_control_interface \<Rightarrow> u16 \<Rightarrow> 'w \<Rightarrow> (int \<times> 'w) option" where
  "uvc_set_roll_abs u ci v w = set_control u (ct_index ci) UVC_CT_ROLL_ABSOLUTE_CONTROL (enc_16 v) w"

definition uvc_get_roll_rel :: "'w usb \<Rightarrow> uvc_control_interface \<Rightarrow> u8 \<Rightarrow> 'w \<Rightarrow> (int \<times> (u8 \<times> u8) option \<times> 'w) option" where
  "uvc_get_roll_rel u ci req w = get_control u (ct_index ci) req UVC_CT_ROLL_RELATIVE_CONTROL 2 dec_8_2 w"

definition uvc_set_roll_rel :: "'w usb \<Rightarrow> uvc_control_interface \<Rightarrow> u8 \<times> u8 \<Rightarrow> 'w \<Rightarrow> (int \<times> 'w) option" where
  "uvc_set_roll_rel u ci v w = set_control u (ct_index ci) UVC_CT_ROLL_RELATIVE_CONTROL (enc_8_2 v) w"

definition uvc_get_privacy :: "'w usb \<Rightarrow> uvc_control_interface \<Rightarrow> u8 \<Rightarrow> 'w \<Rightarrow> (int \<times> (u8) option \<times> 'w) option" where
  "uvc_get_privacy u ci req w = get_control u (ct_index ci) req UVC_CT_PRIVACY_CONTROL 1 dec_8 w"

definition uvc_set_privacy :: "'w usb \<Rightarrow> uvc_control_interface \<Rightarrow> u8 \<Rightarrow> 'w \<Rightarrow> (int \<times> 'w) option" where
  "uvc_set_privacy u ci v w = set_control u (ct_index ci) UVC_CT_PRIVACY_CONTROL (enc_8 v) w"

definition uvc_get_digital_window :: "'w usb \<Rightarrow> uvc_control_interface \<Rightarrow> u8 \<Rightarrow> 'w \<Rightarrow> (int \<times> (u16 \<times> u16 \<times> u16 \<times> u16 \<times> u16 \<times> u16) option \<times> 'w) option" where
  "uvc_get_digital_window u ci req w = get_control u (ct_index ci) req UVC_CT_DIGITAL_WINDOW_CONTROL 12 dec_16_6 w"

definition uvc_set_digital_window :: "'w usb \<Rightarrow> uvc_control_interface \<Rightarrow> u16 \<times> u16 \<times> u16 \<times> u16 \<times> u16 \<times> u16 \<Rightarrow> 'w \<Rightarrow> (int \<times> 'w) option" where
  "uvc_set_digital_window u ci v w = set_control u (ct_index ci) UVC_CT_DIGITAL_WINDOW_CONTROL (enc_16_6 v) w"

definition uvc_get_digital_roi :: "'w usb \<Rightarrow> uvc_control_interface \<Rightarrow> u8 \<Rightarrow> 'w \<Rightarrow> (int \<times> (u16 \<times> u16 \<times> u16 \<times> u16 \<times> u16) option \<times> 'w) option" where
  "uvc_get_digital_roi u ci req w = get_control u (ct_index ci) req UVC_CT_REGION_OF_INTEREST_CONTROL 10 dec_16_5 w"

definition uvc_set_digital_roi :: "'w usb \<Rightarrow> uvc_control_interface \<Rightarrow> u16 \<times> u16 \<times> u16 \<times> u16 \<times> u16 \<Rightarrow> 'w \<Rightarrow> (int \<times> 'w) option" where
  "uvc_set_digital_roi u ci v w = set_control u (ct_index ci) UVC_CT_REGION_OF_INTEREST_CONTROL (enc_16_5 v) w"

definition uvc_get_backlight_compensation :: "'w usb \<Rightarrow> uvc_control_interface \<Rightarrow> u8 \<Rightarrow> 'w \<Rightarrow> (int \<times> (u16) option \<times> 'w) option" where
  "uvc_get_backlight_compensation u ci req w = get_control u (pu_index ci) req UVC_PU_BACKLIGHT_COMPENSATION_CONTROL 2 dec_16 w"

definition uvc_set_backlight_compensation :: "'w usb \<Rightarrow> uvc_control_interface \<Rightarrow> u16 \<Rightarrow> 'w \<Rightarrow> (int \<times> 'w) option" where
  "uvc_set_backlight_compensation u ci v w = set_control u (pu_index ci) UVC_PU_BACKLIGHT_COMPENSATION_CONTROL (enc_16 v) w"

definition uvc_get_brightness :: "'w usb \<Rightarrow> uvc_control_interface \<Rightarrow> u8 \<Rightarrow> 'w \<Rightarrow> (int \<times> (u16) option \<times> 'w) option" where
  "uvc_get_brightness u ci req w = get_control u (pu_index ci) req UVC_PU_BRIGHTNESS_CONTROL 2 dec_16 w"

definition uvc_set_brightness :: "'w usb \<Rightarrow> uvc_control_interface \<Rightarrow> u16 \<Rightarrow> 'w \<Rightarrow> (int \<times> 'w) option" where
  "uvc_set_brightness u ci v w = set_control u (pu_index ci) UVC_PU_BRIGHTNESS_CONTROL (enc_16 v) w"

definition uvc_get_contrast :: "'w usb \<Rightarrow> uvc_control_interface \<Rightarrow> u8 \<Rightarrow> 'w \<Rightarrow> (int \<times> (u16) option \<times> 'w) option" where
  "uvc_get_contrast u ci req w = get_control u (pu_index ci) req UVC_PU_CONTRAST_CONTROL 2 dec_16 w"

definition uvc_set_contrast :: "'w usb \<Rightarrow> uvc_control_interface \<Rightarrow> u16 \<Rightarrow> 'w \<Rightarrow> (int \<times> 'w) option" where
  "uvc_set_contrast u ci v w = set_control u (pu_index ci) UVC_PU_CONTRAST_CONTROL (enc_16 v) w"

definition uvc_get_contrast_auto :: "'w usb \<Rightarrow> uvc_control_interface \<Rightarrow> u8 \<Rightarrow> 'w \<Rightarrow> (int \<times> (u8) option \<times> 'w) option" where
  "uvc_get_contrast_auto u ci req w = get_control u (pu_index ci) req UVC_PU_CONTRAST_AUTO_CONTROL 1 dec_8 w"

definition uvc_set_contrast_auto :: "'w usb \<Rightarrow> uvc_control_interface \<Rightarrow> u8 \<Rightarrow> 'w \<Rightarrow> (int \<times> 'w) option" where
  "uvc_set_contrast_auto u ci v w = set_control u (pu_index ci) UVC_PU_CONTRAST_AUTO_CONTROL (enc_auto v) w"

definition uvc_get_gain :: "'w usb \<Rightarrow> uvc_control_interface \<Rightarrow> u8 \<Rightarrow> 'w \<Rightarrow> (int \<times> (u16) option \<times> 'w) option" where
  "uvc_get_gain u ci req w = get_control u (pu_index ci) req UVC_PU_GAIN_CONTROL 2 dec_16 w"

definition uvc_set_gain :: "'w usb \<Rightarrow> uvc_control_interface \<Rightarrow> u16 \<Rightarrow> 'w \<Rightarrow> (int \<times> 'w) option" where
  "uvc_set_gain u ci v w = set_control u (pu_index ci) UVC_PU_GAIN_CONTROL (enc_16 v) w"

definition uvc_get_powerline_freqency :: "'w usb \<Rightarrow> uvc_control_interface \<Rightarrow> u8 \<Rightarrow> 'w \<Rightarrow> (int \<times> (u8) option \<times> 'w) option" where
  "uvc_get_powerline_freqency u ci req w = get_control u (pu_index ci) req UVC_PU_POWER_LINE_FREQUENCY_CONTROL 1 dec_8 w"

text \<open>
  The power line frequency: the value \<open>0xff\<close>, and \<open>3\<close> (automatic) on a device below
  UVC 1.5, are replaced by the device's default; what is sent is the value's low two bits.
  A query that reports success without a value leaves the argument as it was.
\<close>

definition uvc_set_powerline_freqency :: "'w usb \<Rightarrow> uvc_control_interface \<Rightarrow> u8 \<Rightarrow> 'w \<Rightarrow> (int \<times> 'w) option" where
  "uvc_set_powerline_freqency u ci freq w =
     (if freq AND 0xFF = 0xFF \<or> freq AND 0x03 = 0x03 \<and> ci_bcdUVC ci < 0x0150
      then do {
        (ret, def, w) \<leftarrow> uvc_get_powerline_freqency u ci UVC_GET_DEF w;
        if ret \<noteq> 0 then Some (ret, w)
        else set_control u (pu_index ci) UVC_PU_POWER_LINE_FREQUENCY_CONTROL
               [(case def of Some d \<Rightarrow> d | None \<Rightarrow> freq) AND 0x03] w }
      else set_control u (pu_index ci) UVC_PU_POWER_LINE_FREQUENCY_CONTROL [freq AND 0x03] w)"

definition uvc_get_hue :: "'w usb \<Rightarrow> uvc_control_interface \<Rightarrow> u8 \<Rightarrow> 'w \<Rightarrow> (int \<times> (u16) option \<times> 'w) option" where
  "uvc_get_hue u ci req w = get_control u (pu_index ci) req UVC_PU_HUE_CONTROL 2 dec_16 w"

definition uvc_set_hue :: "'w usb \<Rightarrow> uvc_control_interface \<Rightarrow> u16 \<Rightarrow> 'w \<Rightarrow> (int \<times> 'w) option" where
  "uvc_set_hue u ci v w = set_control u (pu_index ci) UVC_PU_HUE_CONTROL (enc_16 v) w"

definition uvc_get_hue_auto :: "'w usb \<Rightarrow> uvc_control_interface \<Rightarrow> u8 \<Rightarrow> 'w \<Rightarrow> (int \<times> (u8) option \<times> 'w) option" where
  "uvc_get_hue_auto u ci req w = get_control u (pu_index ci) req UVC_PU_HUE_AUTO_CONTROL 1 dec_8 w"

definition uvc_set_hue_auto :: "'w usb \<Rightarrow> uvc_control_interface \<Rightarrow> u8 \<Rightarrow> 'w \<Rightarrow> (int \<times> 'w) option" where
  "uvc_set_hue_auto u ci v w = set_control u (pu_index ci) UVC_PU_HUE_AUTO_CONTROL (enc_auto v) w"

definition uvc_get_saturation :: "'w usb \<Rightarrow> uvc_control_interface \<Rightarrow> u8 \<Rightarrow> 'w \<Rightarrow> (int \<times> (u16) option \<times> 'w) option" where
  "uvc_get_saturation u ci req w = get_control u (pu_index ci) req UVC_PU_SATURATION_CONTROL 2 dec_16 w"

definition uvc_set_saturation :: "'w usb \<Rightarrow> uvc_control_interface \<Rightarrow> u16 \<Rightarrow> 'w \<Rightarrow> (int \<times> 'w) option" where
  "uvc_set_saturation u ci v w = set_control u (pu_index ci) UVC_PU_SATURATION_CONTROL (enc_16 v) w"

definition uvc_get_sharpness :: "'w usb \<Rightarrow> uvc_control_interface \<Rightarrow> u8 \<Rightarrow> 'w \<Rightarrow> (int \<times> (u16) option \<times> 'w) option" where
  "uvc_get_sharpness u ci req w = get_control u (pu_index ci) req UVC_PU_SHARPNESS_CONTROL 2 dec_16 w"

definition uvc_set_sharpness :: "'w usb \<Rightarrow> uvc_control_interface \<Rightarrow> u16 \<Rightarrow> 'w \<Rightarrow> (int \<times> 'w) option" where
  "uvc_set_sharpness u ci v w = set_control u (pu_index ci) UVC_PU_SHARPNESS_CONTROL (enc_16 v) w"

definition uvc_get_gamma :: "'w usb \<Rightarrow> uvc_control_interface \<Rightarrow> u8 \<Rightarrow> 'w \<Rightarrow> (int \<times> (u16) option \<times> 'w) option" where
  "uvc_get_gamma u ci req w = get_control u (pu_index ci) req UVC_PU_GAMMA_CONTROL 2 dec_16 w"

definition uvc_set_gamma :: "'w usb \<Rightarrow> uvc_control_interface \<Rightarrow> u16 \<Rightarrow> 'w \<Rightarrow> (int \<times> 'w) option" where
  "uvc_set_gamma u ci v w = set_control u (pu_index ci) UVC_PU_GAMMA_CONTROL (enc_16 v) w"

definition uvc_get_white_balance_temperature :: "'w usb \<Rightarrow> uvc_control_interface \<Rightarrow> u8 \<Rightarrow> 'w \<Rightarrow> (int \<times> (u16) option \<times> 'w) option" where
  "uvc_get_white_balance_temperature u ci req w = get_control u (pu_index ci) req UVC_PU_WHITE_BALANCE_TEMPERATURE_CONTROL 2 dec_16 w"

definition uvc_set_white_balance_temperature :: "'w usb \<Rightarrow> uvc_control_interface \<Rightarrow> u16 \<Rightarrow> 'w \<Rightarrow> (int \<times> 'w) option" where
  "uvc_set_white_balance_temperature u ci v w = set_control u (pu_index ci) UVC_PU_WHITE_BALANCE_TEMPERATURE_CONTROL (enc_16 v) w"

definition uvc_get_white_balance_temperature_auto :: "'w usb \<Rightarrow> uvc_control_interface \<Rightarrow> u8 \<Rightarrow> 'w \<Rightarrow> (int \<times> (u8) option \<times> 'w) option" where
  "uvc_get_white_balance_temperature_auto u ci req w = get_control u (pu_index ci) req UVC_PU_WHITE_BALANCE_TEMPERATURE_AUTO_CONTROL 1 dec_8 w"

definition uvc_set_white_balance_temperature_auto :: "'w usb \<Rightarrow> uvc_control_interface \<Rightarrow> u8 \<Rightarrow> 'w \<Rightarrow> (int \<times> 'w) option" where
  "uvc_set_white_balance_temperature_auto u ci v w = set_control u (pu_index ci) UVC_PU_WHITE_BALANCE_TEMPERATURE_AUTO_CONTROL (enc_auto v) w"

definition uvc_get_white_balance_component :: "'w usb \<Rightarrow> uvc_control_interface \<Rightarrow> u8 \<Rightarrow> 'w \<Rightarrow> (int \<times> (u32) option \<times> 'w) option" where
  "uvc_get_white_balance_component u ci req w = get_control u (pu_index ci) req UVC_PU_WHITE_BALANCE_COMPONENT_CONTROL 4 dec_32 w"

definition uvc_set_white_balance_component :: "'w usb \<Rightarrow> uvc_control_interface \<Rightarrow> u32 \<Rightarrow> 'w \<Rightarrow> (int \<times> 'w) option" where
  "uvc_set_white_balance_component u ci v w = set_control u (pu_index ci) UVC_PU_WHITE_BALANCE_COMPONENT_CONTROL (enc_32 v) w"

definition uvc_get_white_balance_component_auto :: "'w usb \<Rightarrow> uvc_control_interface \<Rightarrow> u8 \<Rightarrow> 'w \<Rightarrow> (int \<times> (u8) option \<times> 'w) option" where
  "uvc_get_white_balance_component_auto u ci req w = get_control u (pu_index ci) req UVC_PU_WHITE_BALANCE_COMPONENT_AUTO_CONTROL 1 dec_8 w"

definition uvc_set_white_balance_component_auto :: "'w usb \<Rightarrow> uvc_control_interface \<Rightarrow> u8 \<Rightarrow> 'w \<Rightarrow> (int \<times> 'w) option" where
  "uvc_set_white_balance_component_auto u ci v w = set_control u (pu_index ci) UVC_PU_WHITE_BALANCE_COMPONENT_AUTO_CONTROL (enc_auto v) w"

definition uvc_get_digital_multiplier :: "'w usb \<Rightarrow> uvc_control_interface \<Rightarrow> u8 \<Rightarrow> 'w \<Rightarrow> (int \<times> (u16) option \<times> 'w) option" where
  "uvc_get_digital_multiplier u ci req w = get_control u (pu_index ci) req UVC_PU_DIGITAL_MULTIPLIER_CONTROL 2 dec_16 w"

definition uvc_set_digital_multiplier :: "'w usb \<Rightarrow> uvc_control_interface \<Rightarrow> u16 \<Rightarrow> 'w \<Rightarrow> (int \<times> 'w) option" where
  "uvc_set_digital_multiplier u ci v w = set_control u (pu_index ci) UVC_PU_DIGITAL_MULTIPLIER_CONTROL (enc_16 v) w"

definition uvc_get_digital_multiplier_limit :: "'w usb \<Rightarrow> uvc_control_interface \<Rightarrow> u8 \<Rightarrow> 'w \<Rightarrow> (int \<times> (u16) option \<times> 'w) option" where
  "uvc_get_digital_multiplier_limit u ci req w = get_control u (pu_index ci) req UVC_PU_DIGITAL_MULTIPLIER_LIMIT_CONTROL 2 dec_16 w"

definition uvc_set_digital_multiplier_limit :: "'w usb \<Rightarrow> uvc_control_interface \<Rightarrow> u16 \<Rightarrow> 'w \<Rightarrow> (int \<times> 'w) option" where
  "uvc_set_digital_multiplier_limit u ci v w = set_control u (pu_index ci) UVC_PU_DIGITAL_MULTIPLIER_LIMIT_CONTROL (enc_16 v) w"

definition uvc_get_analog_video_standard :: "'w usb \<Rightarrow> uvc_control_interface \<Rightarrow> u8 \<Rightarrow> 'w \<Rightarrow> (int \<times> (u8) option \<times> 'w) option" where
  "uvc_get_analog_video_standard u ci req w = get_control u (pu_index ci) req UVC_PU_ANALOG_VIDEO_STANDARD_CONTROL 1 dec_8 w"

definition uvc_set_analog_video_standard :: "'w usb \<Rightarrow> uvc_control_interface \<Rightarrow> u8 \<Rightarrow> 'w \<Rightarrow> (int \<times> 'w) option" where
  "uvc_set_analog_video_standard u ci v w = set_control u (pu_index ci) UVC_PU_ANALOG_VIDEO_STANDARD_CONTROL (enc_8 v) w"

definition uvc_get_analog_video_lockstate :: "'w usb \<Rightarrow> uvc_control_interface \<Rightarrow> u8 \<Rightarrow> 'w \<Rightarrow> (int \<times> (u8) option \<times> 'w) option" where
  "uvc_get_analog_video_lockstate u ci req w = get_control u (pu_index ci) req UVC_PU_ANALOG_LOCK_STATUS_CONTROL 1 dec_8 w"

definition uvc_set_analog_video_lockstate :: "'w usb \<Rightarrow> uvc_control_interface \<Rightarrow> u8 \<Rightarrow> 'w \<Rightarrow> (int \<times> 'w) option" where
  "uvc_set_analog_video_lockstate u ci v w = set_control u (pu_index ci) UVC_PU_ANALOG_LOCK_STATUS_CONTROL (enc_8 v) w"

section \<open>Setting and reading back\<close>

text \<open>
  \<open>control_store\<close> is the contract of a pipe to a device that keeps its current values: an
  accepted \<open>SET_CUR\<close> transfers all its bytes, and the next \<open>GET_CUR\<close> of the same selector,
  entity and length returns them.
\<close>

locale control_store = control_pipe +
  assumes set_whole: "unat n \<le> length data \<Longrightarrow>
      xfer REQ_TYPE_SET UVC_SET_CUR v i data n 0 w = Some (r, d, w') \<Longrightarrow> 0 \<le> r \<Longrightarrow> r = int (unat n)"
    and cur_kept: "unat n \<le> length data \<Longrightarrow> unat n \<le> length buf \<Longrightarrow>
      xfer REQ_TYPE_SET UVC_SET_CUR v i data n 0 w = Some (int (unat n), d, w') \<Longrightarrow>
      \<exists>w''. xfer REQ_TYPE_GET UVC_GET_CUR v i buf n 0 w'
        = Some (int (unat n), take (unat n) data @ drop (unat n) buf, w'')"

lemma set_get_control:
  assumes "control_store (libusb_control_transfer u)"
    and "set_control u idx sel data w = Some (UVC_SUCCESS, w')" "0 < length data" "length data < 65536"
  shows "\<exists>w''. get_control u idx UVC_GET_CUR sel (length data) decode w'
    = Some (UVC_SUCCESS, Some (decode data), w'')"
proof -
  have n: "unat (of_nat (length data) :: u16) = length data"
    using assms(4) by (simp add: unat_of_nat)
  from assms(2) obtain i r d where i: "idx = Some i" and
    x: "libusb_control_transfer u REQ_TYPE_SET UVC_SET_CUR (sel_value sel) i data
        (of_nat (length data)) 0 w = Some (r, d, w')"
    and r: "(if r = int (length data) then UVC_SUCCESS else r) = UVC_SUCCESS"
    by (auto simp: set_control_def ub_simps)
  from r assms(3) have "0 \<le> r" by (auto split: if_splits)
  from control_store.set_whole [OF assms(1) _ x this] x n have
    "libusb_control_transfer u REQ_TYPE_SET UVC_SET_CUR (sel_value sel) i data
        (of_nat (length data)) 0 w = Some (int (unat (of_nat (length data) :: u16)), d, w')" by simp
  from control_store.cur_kept [OF assms(1) _ _ this, of "replicate (length data) 0"] i n
  show ?thesis by (auto simp: get_control_def)
qed

text \<open>\<open>byte_codec\<close>: a fixed-size encoding with its inverse.\<close>

locale byte_codec =
  fixes enc :: "'a \<Rightarrow> u8 list" and dec :: "u8 list \<Rightarrow> 'a" and n :: nat
  assumes length_enc: "length (enc v) = n"
    and dec_enc: "dec (enc v) = v"
    and size: "0 < n" "n < 65536"

definition sets_back :: "('a \<Rightarrow> 'w \<Rightarrow> (int \<times> 'w) option) \<Rightarrow> ('w \<Rightarrow> (int \<times> 'a option \<times> 'w) option) \<Rightarrow> bool" where
  "sets_back st gt \<longleftrightarrow> (\<forall>v w w'. st v w = Some (UVC_SUCCESS, w') \<longrightarrow>
     (\<exists>w''. gt w' = Some (UVC_SUCCESS, Some v, w'')))"

context byte_codec
begin

lemma reads_back:
  assumes "control_store (libusb_control_transfer u)"
    and s: "\<And>v w. st v w = set_control u idx sel (enc v) w"
    and g: "\<And>w. gt w = get_control u idx UVC_GET_CUR sel n dec w"
  shows "sets_back st gt"
  unfolding sets_back_def s g
proof (intro allI impI)
  fix v w w' assume "set_control u idx sel (enc v) w = Some (UVC_SUCCESS, w')"
  from set_get_control [OF assms(1) this, of dec]
  show "\<exists>w''. get_control u idx UVC_GET_CUR sel n dec w' = Some (UVC_SUCCESS, Some v, w'')"
    by (simp add: length_enc dec_enc size)
qed

end

interpretation c_8: byte_codec enc_8 dec_8 1
  by unfold_locales (simp_all add: enc_8_def dec_8_def)
interpretation c_16: byte_codec enc_16 dec_16 2
  by unfold_locales (simp_all add: enc_16_def dec_16_def SHORT_TO_SW_def)
interpretation c_32: byte_codec enc_32 dec_32 4
  by unfold_locales (simp_all add: enc_32_def dec_32_def INT_TO_DW_def)
interpretation c_8_2: byte_codec enc_8_2 dec_8_2 2
  by unfold_locales (simp_all add: enc_8_2_def dec_8_2_def split: prod.splits)
interpretation c_8_3: byte_codec enc_8_3 dec_8_3 3
  by unfold_locales (simp_all add: enc_8_3_def dec_8_3_def split: prod.splits)
interpretation c_8_4: byte_codec enc_8_4 dec_8_4 4
  by unfold_locales (simp_all add: enc_8_4_def dec_8_4_def split: prod.splits)
interpretation c_32_2: byte_codec enc_32_2 dec_32_2 8
  by unfold_locales (simp_all add: enc_32_2_def dec_32_2_def dec_32_def INT_TO_DW_def split: prod.splits)
interpretation c_16_6: byte_codec enc_16_6 dec_16_6 12
  by unfold_locales (simp_all add: enc_16_6_def dec_16_6_def dec_16_def SHORT_TO_SW_def split: prod.splits)
interpretation c_16_5: byte_codec enc_16_5 dec_16_5 10
  by unfold_locales (simp_all add: enc_16_5_def dec_16_5_def dec_16_def SHORT_TO_SW_def split: prod.splits)

lemma is_in_requests [simp]: "is_in REQ_TYPE_GET" "\<not> is_in REQ_TYPE_SET"
  by (simp_all add: is_in_def)

interpretation echo_store: control_store "libusb_control_transfer echo_usb"
  by (intro control_store.intro echo.pipe.control_pipe_axioms control_store_axioms.intro)
    (auto simp: echo_transfer split_paired_all)

section \<open>Runs of a request\<close>

text \<open>A device that accepts every request and transfers nothing.\<close>

definition mute_usb :: "unit usb" where
  "mute_usb = \<lparr>usb_alloc = \<lambda>w. (True, w), usb_malloc = \<lambda>n w. (True, w), usb_submit = \<lambda>t w. (0, w),
     usb_events = \<lambda>w. (0, w), usb_cancel = \<lambda>w. w, usb_completed = \<lambda>w. True,
     usb_outcome = \<lambda>t w. \<lparr>x_status = TRANSFER_COMPLETED, x_actual = 0, x_buffer = t_buffer t\<rparr>,
     usb_claim = \<lambda>i w. (0, w), usb_release = \<lambda>i w. (0, w), usb_set_alt = \<lambda>i a w. (0, w),
     usb_clear_halt = \<lambda>e w. (0, w)\<rparr>"

lemma mute_transfer:
  assumes "unat n \<le> length data"
  shows "libusb_control_transfer mute_usb rt rq v i data n tmo w = Some (0, data, w)"
proof -
  have "sync_transfer_wait_for_completion mute_usb w = Some w" for w
    by (subst sync_transfer_wait_for_completion.simps) (simp add: mute_usb_def)
  with assms show ?thesis
    by (cases "is_in rt") (simp_all add: libusb_control_transfer_def mute_usb_def copy_in_def Let_def)
qed

context control_pipe
begin

lemma get_shape:
  assumes "n < 65536"
  shows "\<exists>r d w'. xfer rt rq v i (replicate n 0) (of_nat n) 0 w = Some (r, d, w') \<and> length d = n \<and> r \<le> int n"
proof -
  have n: "unat (of_nat n :: u16) = n" using assms by (simp add: unat_of_nat)
  then have "unat (of_nat n :: u16) \<le> length (replicate n (0::u8))" by simp
  from xfer_returns [OF this, of rt rq v i 0 w] show ?thesis unfolding n by auto
qed

lemma set_shape:
  assumes "length data < 65536"
  shows "\<exists>r d w'. xfer rt rq v i data (of_nat (length data)) 0 w = Some (r, d, w') \<and> r \<le> int (length data)"
proof -
  have n: "unat (of_nat (length data) :: u16) = length data" using assms by (simp add: unat_of_nat)
  then have "unat (of_nat (length data) :: u16) \<le> length data" by simp
  from xfer_returns [OF this, of rt rq v i 0 w] show ?thesis unfolding n by auto
qed

end

lemma get_control_runs:
  assumes "control_pipe (libusb_control_transfer u)" "n < 65536"
  shows "get_control u None req sel n dec w = None"
    and "\<exists>r out w'. get_control u (Some i) req sel n dec w = Some (r, out, w') \<and> r < max 1 (int n)
      \<and> (out = None \<or> r = UVC_SUCCESS)"
  using control_pipe.get_shape [OF assms, of REQ_TYPE_GET req "sel_value sel" i w] assms(2)
  by (auto simp: get_control_def)

lemma set_control_runs:
  assumes "control_pipe (libusb_control_transfer u)" "length data < 65536"
  shows "set_control u None sel data w = None"
    and "\<exists>r w'. set_control u (Some i) sel data w = Some (r, w') \<and> r < max 1 (int (length data))"
  using control_pipe.set_shape [OF assms, of REQ_TYPE_SET UVC_SET_CUR "sel_value sel" i w]
  by (auto simp: set_control_def)

lemma get_control_None_iff:
  assumes "control_pipe (libusb_control_transfer u)" "n < 65536"
  shows "get_control u idx rq sel n dec w = None \<longleftrightarrow> idx = None"
  using get_control_runs(2) [OF assms, of "the idx" rq sel dec w]
  by (cases idx) (auto simp: get_control_runs(1) [OF assms])

lemma set_control_None_iff:
  assumes "control_pipe (libusb_control_transfer u)" "length d < 65536"
  shows "set_control u idx sel d w = None \<longleftrightarrow> idx = None"
  using set_control_runs(2) [OF assms, of "the idx" sel w]
  by (cases idx) (auto simp: set_control_runs(1) [OF assms])

lemma ct_index_None [simp]: "ct_index ci = None \<longleftrightarrow> input_term_descs ci = []"
  by (simp add: ct_index_def split: list.splits)

lemma pu_index_None [simp]: "pu_index ci = None \<longleftrightarrow> processing_unit_descs ci = []"
  by (simp add: pu_index_def split: list.splits)

section \<open>Properties\<close>



text \<open>
  The setters that do not send their argument as it is: the automatic switches read back
  as 1 for any non-zero argument, and the relative exposure step reads back as the low byte
  of the step, so a negative step does not come back.
\<close>
theorem controls_normalised:
  assumes "control_store (libusb_control_transfer u)"
  shows "(uvc_set_contrast_auto u ci b w = Some (UVC_SUCCESS, w1) \<longrightarrow>
      (\<exists>w2. uvc_get_contrast_auto u ci UVC_GET_CUR w1 = Some (UVC_SUCCESS, Some (if b \<noteq> 0 then 1 else 0), w2)))
    \<and> (uvc_set_hue_auto u ci b w = Some (UVC_SUCCESS, w1) \<longrightarrow>
      (\<exists>w2. uvc_get_hue_auto u ci UVC_GET_CUR w1 = Some (UVC_SUCCESS, Some (if b \<noteq> 0 then 1 else 0), w2)))
    \<and> (uvc_set_white_balance_temperature_auto u ci b w = Some (UVC_SUCCESS, w1) \<longrightarrow>
      (\<exists>w2. uvc_get_white_balance_temperature_auto u ci UVC_GET_CUR w1
         = Some (UVC_SUCCESS, Some (if b \<noteq> 0 then 1 else 0), w2)))
    \<and> (uvc_set_white_balance_component_auto u ci b w = Some (UVC_SUCCESS, w1) \<longrightarrow>
      (\<exists>w2. uvc_get_white_balance_component_auto u ci UVC_GET_CUR w1
         = Some (UVC_SUCCESS, Some (if b \<noteq> 0 then 1 else 0), w2)))
    \<and> (uvc_set_exposure_rel u ci s w = Some (UVC_SUCCESS, w1) \<longrightarrow>
      (\<exists>w2. uvc_get_exposure_rel u ci UVC_GET_CUR w1 = Some (UVC_SUCCESS, Some (s AND 0xFF), w2)))"
proof -
  have auto: "get_control u idx UVC_GET_CUR sel 1 dec_8 w1 = Some (UVC_SUCCESS, Some (if b \<noteq> 0 then 1 else 0), w2)
      \<longleftrightarrow> get_control u idx UVC_GET_CUR sel (length (enc_auto b)) dec_8 w1
        = Some (UVC_SUCCESS, Some (dec_8 (enc_auto b)), w2)" for idx sel w2
    by (simp add: enc_auto_def dec_8_def)
  have ff: "ucast (ucast s :: u8) = s AND 0xFF"
  proof -
    have "(0xFF :: u32) = mask 8" by (simp add: mask_eq_exp_minus_1)
    then have "s AND 0xFF = take_bit 8 s" by (simp add: take_bit_eq_mask)
    moreover have "ucast (ucast s :: u8) = take_bit 8 s"
      by (rule bit_word_eqI) (auto simp: bit_simps dest: bit_imp_le_length)
    ultimately show ?thesis by simp
  qed
  have step: "get_control u idx UVC_GET_CUR sel 1 dec_step w1 = Some (UVC_SUCCESS, Some (s AND 0xFF), w2)
      \<longleftrightarrow> get_control u idx UVC_GET_CUR sel (length (enc_step s)) dec_step w1
        = Some (UVC_SUCCESS, Some (dec_step (enc_step s)), w2)" for idx sel w2
    by (simp add: enc_step_def dec_step_def ff)
  have l: "0 < length (enc_auto b)" "length (enc_auto b) < 65536"
      "0 < length (enc_step s)" "length (enc_step s) < 65536"
    by (simp_all add: enc_auto_def enc_step_def)
  show ?thesis
    unfolding uvc_set_contrast_auto_def uvc_get_contrast_auto_def uvc_set_hue_auto_def
      uvc_get_hue_auto_def uvc_set_white_balance_temperature_auto_def
      uvc_get_white_balance_temperature_auto_def uvc_set_white_balance_component_auto_def
      uvc_get_white_balance_component_auto_def uvc_set_exposure_rel_def uvc_get_exposure_rel_def
      auto step
    using set_get_control [OF assms _ l(1,2)] set_get_control [OF assms _ l(3,4)] by blast
qed

theorem controls_normalised_witness:
  "\<exists>w2. uvc_get_exposure_rel echo_usb (zero_ctrl_if\<lparr>input_term_descs := [\<lparr>it_bTerminalID = 1,
      it_wTerminalType = 0x201, it_wObjectiveFocalLengthMin = 0, it_wObjectiveFocalLengthMax = 0,
      it_wOcularFocalLength = 0, it_bmControls = 0, it_request = 0x100\<rparr>]\<rparr>) UVC_GET_CUR
      (\<lambda>k. if k = (0x500, 0x100) then [0xFF] else [], True) = Some (UVC_SUCCESS, Some 255, w2)"
proof -
  let ?ci = "zero_ctrl_if\<lparr>input_term_descs := [\<lparr>it_bTerminalID = 1,
      it_wTerminalType = 0x201, it_wObjectiveFocalLengthMin = 0, it_wObjectiveFocalLengthMax = 0,
      it_wOcularFocalLength = 0, it_bmControls = 0, it_request = 0x100\<rparr>]\<rparr>"
  have "uvc_set_exposure_rel echo_usb ?ci 0xFFFFFFFF (\<lambda>_. [], False)
      = Some (UVC_SUCCESS, (\<lambda>k. if k = (0x500, 0x100) then [0xFF] else [], True))"
    by (simp add: uvc_set_exposure_rel_def set_control_def ct_index_def enc_step_def
        sel_value_def echo_transfer fun_eq_iff fun_upd_def)
  moreover have "uvc_set_exposure_rel echo_usb ?ci 0xFFFFFFFF w = Some (UVC_SUCCESS, w1) \<longrightarrow>
      (\<exists>w2. uvc_get_exposure_rel echo_usb ?ci UVC_GET_CUR w1
         = Some (UVC_SUCCESS, Some (0xFFFFFFFF AND 0xFF), w2))" for w w1
    using controls_normalised [OF echo_store.control_store_axioms, of ?ci 0 w w1 "0xFFFFFFFF"]
    by (elim conjE)
  ultimately show ?thesis by fastforce
qed

text \<open>
  The iris controls are the focus controls: the four iris functions use the focus
  selectors, so setting the iris on a device that keeps its values changes what the focus
  reads back.
\<close>
theorem iris_is_focus:
  assumes "control_store (libusb_control_transfer u)"
    and "uvc_set_iris_abs u ci v w = Some (UVC_SUCCESS, w1)"
  shows "\<exists>w2. uvc_get_focus_abs u ci UVC_GET_CUR w1 = Some (UVC_SUCCESS, Some v, w2)"
  using set_get_control [OF assms(1), of "ct_index ci" UVC_CT_FOCUS_ABSOLUTE_CONTROL "enc_16 v" w w1
      dec_16] assms(2)
  by (simp add: uvc_set_iris_abs_def uvc_get_focus_abs_def c_16.length_enc c_16.dec_enc)

theorem iris_is_focus_witness:
  "\<exists>w2. uvc_get_focus_abs echo_usb (zero_ctrl_if\<lparr>input_term_descs := [\<lparr>it_bTerminalID = 1,
      it_wTerminalType = 0x201, it_wObjectiveFocalLengthMin = 0, it_wObjectiveFocalLengthMax = 0,
      it_wOcularFocalLength = 0, it_bmControls = 0, it_request = 0x100\<rparr>]\<rparr>) UVC_GET_CUR
      (\<lambda>k. if k = (0x600, 0x100) then [7, 0] else [], True) = Some (UVC_SUCCESS, Some 7, w2)"
proof -
  let ?ci = "zero_ctrl_if\<lparr>input_term_descs := [\<lparr>it_bTerminalID = 1,
      it_wTerminalType = 0x201, it_wObjectiveFocalLengthMin = 0, it_wObjectiveFocalLengthMax = 0,
      it_wOcularFocalLength = 0, it_bmControls = 0, it_request = 0x100\<rparr>]\<rparr>"
  have "uvc_set_iris_abs echo_usb ?ci 7 (\<lambda>_. [], False)
      = Some (UVC_SUCCESS, (\<lambda>k. if k = (0x600, 0x100) then [7, 0] else [], True))"
    by (simp add: uvc_set_iris_abs_def set_control_def ct_index_def enc_16_def SHORT_TO_SW_def
        sel_value_def echo_transfer fun_eq_iff fun_upd_def)
  from iris_is_focus [OF echo_store.control_store_axioms this] show ?thesis .
qed

text \<open>
  The controls reach a device exactly when it has the entity: over any backend that makes
  progress, the terminal controls have no result (a null pointer is followed) just when the
  device has no camera terminal, the unit controls just when it has no processing unit, and
  the interface controls always have one.
\<close>
theorem controls_defined:
  assumes "usb_backend u rank"
  shows "(uvc_get_ae_mode u ci req w = None \<longleftrightarrow> input_term_descs ci = [])
    \<and> (uvc_set_zoom_rel u ci z w = None \<longleftrightarrow> input_term_descs ci = [])
    \<and> (uvc_get_digital_window u ci req w = None \<longleftrightarrow> input_term_descs ci = [])
    \<and> (uvc_get_brightness u ci req w = None \<longleftrightarrow> processing_unit_descs ci = [])
    \<and> (uvc_set_white_balance_component u ci c w = None \<longleftrightarrow> processing_unit_descs ci = [])
    \<and> (uvc_set_powerline_freqency u ci f w = None \<longleftrightarrow> processing_unit_descs ci = [])
    \<and> uvc_get_power_mode u ci req w \<noteq> None \<and> uvc_set_power_mode u ci m w \<noteq> None"
proof -
  have p: "control_pipe (libusb_control_transfer u)"
    by unfold_locales (rule usb_backend.control_transfer_returns [OF assms])
  note g = get_control_None_iff [OF p] and s = set_control_None_iff [OF p]
  have "uvc_set_powerline_freqency u ci f w = None \<longleftrightarrow> pu_index ci = None"
  proof (cases "pu_index ci")
    case None
    then show ?thesis
      by (simp add: uvc_set_powerline_freqency_def uvc_get_powerline_freqency_def g s
          get_control_runs(1) [OF p]
          del: pu_index_None)
  next
    case (Some i)
    then obtain r out w' where "uvc_get_powerline_freqency u ci UVC_GET_DEF w = Some (r, out, w')"
      using get_control_runs(2) [OF p, of 1 i UVC_GET_DEF
          UVC_PU_POWER_LINE_FREQUENCY_CONTROL dec_8 w]
      by (auto simp: uvc_get_powerline_freqency_def)
    moreover have "\<exists>a b. set_control u (Some i) UVC_PU_POWER_LINE_FREQUENCY_CONTROL [x] w0 = Some (a, b)"
      for x w0
      using set_control_runs(2) [OF p, of "[x]" i UVC_PU_POWER_LINE_FREQUENCY_CONTROL w0] by auto
    ultimately show ?thesis using Some
      by (simp add: uvc_set_powerline_freqency_def del: pu_index_None)
  qed
  moreover have "length (enc_8_3 z) < 65536" "length (enc_32 c) < 65536" "length (enc_step m) < 65536"
    by (simp_all add: c_8_3.length_enc c_32.length_enc enc_step_def)
  ultimately show ?thesis
    by (simp add: g s uvc_get_ae_mode_def uvc_set_zoom_rel_def uvc_get_digital_window_def
        uvc_get_brightness_def uvc_set_white_balance_component_def uvc_get_power_mode_def
        uvc_set_power_mode_def if_index_def)
qed

theorem controls_defined_witness:
  "uvc_get_brightness echo_usb zero_ctrl_if UVC_GET_CUR (\<lambda>_. [], True) = None
    \<and> uvc_get_power_mode echo_usb zero_ctrl_if UVC_GET_CUR (\<lambda>_. [], True) \<noteq> None"
  using controls_defined [OF echo.usb_backend_axioms, of zero_ctrl_if UVC_GET_CUR "(\<lambda>_. [], True)"]
  by (simp add: zero_ctrl_if_def)

text \<open>
  A short answer is not an error: when the device completes a request without sending a
  byte, a getter reports success and leaves the caller's variable unset, and the control
  length that is reported is whatever the buffer on the stack held.
\<close>
theorem short_read_is_success:
  "processing_unit_descs ci \<noteq> [] \<Longrightarrow>
     uvc_get_brightness mute_usb ci req w = Some (UVC_SUCCESS, None, w)
     \<and> uvc_get_ctrl_len mute_usb [b0, b1] unit c w = Some (uint (SW_TO_SHORT b0 b1), w)"
  by (cases "processing_unit_descs ci")
    (simp_all add: uvc_get_brightness_def get_control_def pu_index_def mute_transfer
      uvc_get_ctrl_len_def)

theorem short_read_is_success_witness:
  "uvc_get_ctrl_len mute_usb [0x34, 0x12] 3 1 () = Some (0x1234, ())"
  using short_read_is_success [of "zero_ctrl_if\<lparr>processing_unit_descs := [\<lparr>pu_bUnitID = 2,
      pu_bSourceID = 1, pu_bmControls = 0, pu_request = 0x200\<rparr>]\<rparr>" UVC_GET_CUR "()" "0x34" "0x12" 3 1]
  by (simp add: SW_TO_SHORT_def)

text \<open>
  Setting the power line frequency to a value the device supports sends that value: for
  0, 1 and 2, and for 3 (automatic) from UVC 1.5 on, a successful set is read back.
\<close>
theorem powerline_sends_value:
  assumes "control_store (libusb_control_transfer u)"
    and "freq < 3 \<or> freq = 3 \<and> 0x0150 \<le> ci_bcdUVC ci"
    and "uvc_set_powerline_freqency u ci freq w = Some (UVC_SUCCESS, w1)"
  shows "\<exists>w2. uvc_get_powerline_freqency u ci UVC_GET_CUR w1 = Some (UVC_SUCCESS, Some freq, w2)"
proof -
  have "unat freq < 4" using assms(2) by (auto simp: word_less_nat_alt)
  then have "unat freq = 0 \<or> unat freq = 1 \<or> unat freq = 2 \<or> unat freq = 3" by arith
  then have "freq \<in> {0, 1, 2, 3}" by (auto simp: word_unat_eq_iff)
  then have "uvc_set_powerline_freqency u ci freq w
      = set_control u (pu_index ci) UVC_PU_POWER_LINE_FREQUENCY_CONTROL [freq] w"
    using assms(2) by (auto simp: uvc_set_powerline_freqency_def)
  with assms(3) have "set_control u (pu_index ci) UVC_PU_POWER_LINE_FREQUENCY_CONTROL [freq] w
      = Some (UVC_SUCCESS, w1)" by simp
  from set_get_control [OF assms(1) this, of dec_8] show ?thesis
    by (simp add: uvc_get_powerline_freqency_def dec_8_def)
qed

theorem powerline_sends_value_witness:
  "\<exists>w2. uvc_get_powerline_freqency echo_usb (zero_ctrl_if\<lparr>processing_unit_descs := [\<lparr>pu_bUnitID = 2,
      pu_bSourceID = 1, pu_bmControls = 0, pu_request = 0x200\<rparr>]\<rparr>) UVC_GET_CUR
      (\<lambda>k. if k = (0x500, 0x200) then [2] else [], True) = Some (UVC_SUCCESS, Some 2, w2)"
proof -
  let ?ci = "zero_ctrl_if\<lparr>processing_unit_descs := [\<lparr>pu_bUnitID = 2,
      pu_bSourceID = 1, pu_bmControls = 0, pu_request = 0x200\<rparr>]\<rparr>"
  have "uvc_set_powerline_freqency echo_usb ?ci 2 (\<lambda>_. [], False)
      = Some (UVC_SUCCESS, (\<lambda>k. if k = (0x500, 0x200) then [2] else [], True))"
    by (simp add: uvc_set_powerline_freqency_def set_control_def pu_index_def
        sel_value_def echo_transfer fun_eq_iff fun_upd_def)
  from powerline_sends_value [OF echo_store.control_store_axioms _ this] show ?thesis by simp
qed

text \<open>
  The guard against the automatic value does not hold for the default: on a device below
  UVC 1.5 whose default is itself 3, a request for 3 (or for the default, \<open>0xff\<close>) sends 3.
\<close>
theorem powerline_auto_below_1_5:
  "uvc_set_powerline_freqency echo_usb (zero_ctrl_if\<lparr>ci_bcdUVC := 0x0110, processing_unit_descs :=
      [\<lparr>pu_bUnitID = 2, pu_bSourceID = 1, pu_bmControls = 0, pu_request = 0x200\<rparr>]\<rparr>) 3
      (\<lambda>k. [3], True) = Some (UVC_SUCCESS, (\<lambda>k. [3], True))"
  by (simp add: uvc_set_powerline_freqency_def uvc_get_powerline_freqency_def get_control_def
      set_control_def pu_index_def sel_value_def echo_transfer dec_8_def fun_eq_iff)

end
