(* ===== verification/Uvc_Stream_Ctrl.thy ===== *)
theory Uvc_Stream_Ctrl
  imports Uvc_Descriptors Uvc_Controls "HOL-Library.Signed_Division"
begin

text \<open>
  The negotiation half of \<^verbatim>\<open>libuvc/src/stream.c\<close>: the table of frame formats and
  their GUIDs, the probe and commit requests with their control block, the search for a
  frame and an interval that meet a requested size and rate, and the claiming and releasing
  of interfaces (\<^verbatim>\<open>device.c\<close>). A function that takes a pointer to a control block
  returns the block as it leaves it.
\<close>

section \<open>Frame formats\<close>

text \<open>\<^verbatim>\<open>UVC_FRAME_FORMAT_UNKNOWN\<close> is another name of \<open>UVC_FRAME_FORMAT_ANY\<close>.\<close>

datatype uvc_frame_format =
  UVC_FRAME_FORMAT_ANY | UVC_FRAME_FORMAT_UNCOMPRESSED | UVC_FRAME_FORMAT_COMPRESSED
| UVC_FRAME_FORMAT_YUYV | UVC_FRAME_FORMAT_UYVY | UVC_FRAME_FORMAT_RGB565 | UVC_FRAME_FORMAT_RGB
| UVC_FRAME_FORMAT_BGR | UVC_FRAME_FORMAT_RGBX | UVC_FRAME_FORMAT_MJPEG | UVC_FRAME_FORMAT_GRAY8
| UVC_FRAME_FORMAT_BY8

abbreviation (input) "UVC_FRAME_FORMAT_UNKNOWN \<equiv> UVC_FRAME_FORMAT_ANY"

text \<open>The values below \<^verbatim>\<open>UVC_FRAME_FORMAT_COUNT\<close>, in their order.\<close>

definition frame_formats :: "uvc_frame_format list" where
  "frame_formats =
     [UVC_FRAME_FORMAT_ANY, UVC_FRAME_FORMAT_UNCOMPRESSED, UVC_FRAME_FORMAT_COMPRESSED,
      UVC_FRAME_FORMAT_YUYV, UVC_FRAME_FORMAT_UYVY, UVC_FRAME_FORMAT_RGB565, UVC_FRAME_FORMAT_RGB,
      UVC_FRAME_FORMAT_BGR, UVC_FRAME_FORMAT_RGBX, UVC_FRAME_FORMAT_MJPEG, UVC_FRAME_FORMAT_GRAY8,
      UVC_FRAME_FORMAT_BY8]"

record format_table_entry =
  fe_format :: uvc_frame_format
  fe_abstract_fmt :: u8
  fe_guid :: "u8 list"
  fe_children :: "uvc_frame_format list"

definition ABS_FMT :: "uvc_frame_format \<Rightarrow> uvc_frame_format list \<Rightarrow> format_table_entry option" where
  "ABS_FMT fmt children = Some \<lparr>fe_format = fmt, fe_abstract_fmt = 0, fe_guid = replicate 16 0,
     fe_children = children\<rparr>"

definition FMT :: "uvc_frame_format \<Rightarrow> u8 list \<Rightarrow> format_table_entry option" where
  "FMT fmt guid = Some \<lparr>fe_format = fmt, fe_abstract_fmt = 0, fe_guid = guid, fe_children = []\<rparr>"

fun get_format_entry :: "uvc_frame_format \<Rightarrow> format_table_entry option" where
  "get_format_entry UVC_FRAME_FORMAT_ANY =
     ABS_FMT UVC_FRAME_FORMAT_ANY [UVC_FRAME_FORMAT_UNCOMPRESSED, UVC_FRAME_FORMAT_COMPRESSED]"
| "get_format_entry UVC_FRAME_FORMAT_UNCOMPRESSED =
     ABS_FMT UVC_FRAME_FORMAT_UNCOMPRESSED
       [UVC_FRAME_FORMAT_YUYV, UVC_FRAME_FORMAT_UYVY, UVC_FRAME_FORMAT_GRAY8]"
| "get_format_entry UVC_FRAME_FORMAT_YUYV =
     FMT UVC_FRAME_FORMAT_YUYV
       [0x59, 0x55, 0x59, 0x32, 0x00, 0x00, 0x10, 0x00, 0x80, 0x00, 0x00, 0xaa, 0x00, 0x38, 0x9b, 0x71]"
| "get_format_entry UVC_FRAME_FORMAT_UYVY =
     FMT UVC_FRAME_FORMAT_UYVY
       [0x55, 0x59, 0x56, 0x59, 0x00, 0x00, 0x10, 0x00, 0x80, 0x00, 0x00, 0xaa, 0x00, 0x38, 0x9b, 0x71]"
| "get_format_entry UVC_FRAME_FORMAT_GRAY8 =
     FMT UVC_FRAME_FORMAT_GRAY8
       [0x59, 0x38, 0x30, 0x30, 0x00, 0x00, 0x10, 0x00, 0x80, 0x00, 0x00, 0xaa, 0x00, 0x38, 0x9b, 0x71]"
| "get_format_entry UVC_FRAME_FORMAT_BY8 =
     FMT UVC_FRAME_FORMAT_BY8
       [0x42, 0x59, 0x38, 0x20, 0x00, 0x00, 0x10, 0x00, 0x80, 0x00, 0x00, 0xaa, 0x00, 0x38, 0x9b, 0x71]"
| "get_format_entry UVC_FRAME_FORMAT_COMPRESSED =
     ABS_FMT UVC_FRAME_FORMAT_COMPRESSED [UVC_FRAME_FORMAT_MJPEG]"
| "get_format_entry UVC_FRAME_FORMAT_MJPEG =
     FMT UVC_FRAME_FORMAT_MJPEG [0x4d, 0x4a, 0x50, 0x47, 0, 0, 0, 0, 0, 0, 0, 0, 0, 0, 0, 0]"
| "get_format_entry _ = None"

text \<open>The nesting of the table; every child is nested less deeply than its parent.\<close>

fun format_depth :: "uvc_frame_format \<Rightarrow> nat" where
  "format_depth UVC_FRAME_FORMAT_ANY = 2"
| "format_depth UVC_FRAME_FORMAT_UNCOMPRESSED = 1"
| "format_depth UVC_FRAME_FORMAT_COMPRESSED = 1"
| "format_depth _ = 0"

lemma format_depth_child:
  "get_format_entry fmt = Some e \<Longrightarrow> c \<in> set (fe_children e) \<Longrightarrow> format_depth c < format_depth fmt"
  by (cases fmt) (auto simp: ABS_FMT_def FMT_def)

text \<open>A GUID is the sixteen bytes of the C array.\<close>

function frame_format_matches_guid :: "uvc_frame_format \<Rightarrow> u8 list \<Rightarrow> bool" where
  "frame_format_matches_guid fmt guid =
     (case get_format_entry fmt of
        None \<Rightarrow> False
      | Some format \<Rightarrow>
          if fe_abstract_fmt format = 0 \<and> guid = fe_guid format then True
          else list_ex (\<lambda>child. frame_format_matches_guid child guid) (fe_children format))"
  by pat_completeness auto

termination
  by (relation "measure (\<lambda>(fmt, guid). format_depth fmt)") (auto dest: format_depth_child)

declare frame_format_matches_guid.simps [simp del]

fun format_for_guid_from :: "uvc_frame_format list \<Rightarrow> u8 list \<Rightarrow> uvc_frame_format" where
  "format_for_guid_from [] guid = UVC_FRAME_FORMAT_UNKNOWN"
| "format_for_guid_from (fmt # fmts) guid =
     (case get_format_entry fmt of
        None \<Rightarrow> format_for_guid_from fmts guid
      | Some format \<Rightarrow>
          if fe_abstract_fmt format \<noteq> 0 then format_for_guid_from fmts guid
          else if fe_guid format = guid then fe_format format
          else format_for_guid_from fmts guid)"

definition uvc_frame_format_for_guid :: "u8 list \<Rightarrow> uvc_frame_format" where
  "uvc_frame_format_for_guid guid = format_for_guid_from frame_formats guid"

section \<open>Interfaces\<close>

definition uvc_claim_if :: "'w usb \<Rightarrow> u8 \<Rightarrow> 'w \<Rightarrow> int \<times> 'w" where
  "uvc_claim_if u idx w = usb_claim u idx w"

definition uvc_release_if :: "'w usb \<Rightarrow> device_handle \<Rightarrow> u8 \<Rightarrow> 'w \<Rightarrow> int \<times> 'w" where
  "uvc_release_if u devh idx w =
     (let w = (if dh_reset_on_release_if devh then snd (usb_set_alt u idx 0 w) else w)
      in usb_release u idx w)"

section \<open>Frame descriptors\<close>

fun find_frame :: "frame_desc list \<Rightarrow> u16 \<Rightarrow> frame_desc option" where
  "find_frame [] frame_id = None"
| "find_frame (f # fs) frame_id =
     (if ucast (fr_bFrameIndex f) = frame_id then Some f else find_frame fs frame_id)"

fun find_frame_in_formats :: "format_desc list \<Rightarrow> u16 \<Rightarrow> u16 \<Rightarrow> frame_desc option" where
  "find_frame_in_formats [] format_id frame_id = None"
| "find_frame_in_formats (f # fs) format_id frame_id =
     (case (if ucast (fm_bFormatIndex f) = format_id then find_frame (fm_frame_descs f) frame_id
            else None) of
        Some fr \<Rightarrow> Some fr
      | None \<Rightarrow> find_frame_in_formats fs format_id frame_id)"

definition find_frame_desc_stream_if :: "streaming_interface \<Rightarrow> u16 \<Rightarrow> u16 \<Rightarrow> frame_desc option" where
  "find_frame_desc_stream_if stream_if format_id frame_id =
     find_frame_in_formats (si_format_descs stream_if) format_id frame_id"

fun find_frame_in_streams :: "streaming_interface list \<Rightarrow> u16 \<Rightarrow> u16 \<Rightarrow> frame_desc option" where
  "find_frame_in_streams [] format_id frame_id = None"
| "find_frame_in_streams (si # sis) format_id frame_id =
     (case find_frame_desc_stream_if si format_id frame_id of
        Some fr \<Rightarrow> Some fr
      | None \<Rightarrow> find_frame_in_streams sis format_id frame_id)"

definition uvc_find_frame_desc :: "device_handle \<Rightarrow> u16 \<Rightarrow> u16 \<Rightarrow> frame_desc option" where
  "uvc_find_frame_desc devh format_id frame_id =
     find_frame_in_streams (stream_ifs (dh_info devh)) format_id frame_id"

section \<open>The control block\<close>

record stream_ctrl =
  sc_bmHint :: u16
  sc_bFormatIndex :: u8
  sc_bFrameIndex :: u8
  sc_dwFrameInterval :: u32
  sc_wKeyFrameRate :: u16
  sc_wPFrameRate :: u16
  sc_wCompQuality :: u16
  sc_wCompWindowSize :: u16
  sc_wDelay :: u16
  sc_dwMaxVideoFrameSize :: u32
  sc_dwMaxPayloadTransferSize :: u32
  sc_dwClockFrequency :: u32
  sc_bmFramingInfo :: u8
  sc_bPreferedVersion :: u8
  sc_bMinVersion :: u8
  sc_bMaxVersion :: u8
  sc_bUsage :: u8
  sc_bBitDepthLuma :: u8
  sc_bmSettings :: u8
  sc_bMaxNumberOfRefFramesPlus1 :: u8
  sc_bmRateControlModes :: u16
  sc_bmLayoutPerStream :: u64
  sc_bInterfaceNumber :: u8

definition zero_stream_ctrl :: stream_ctrl where
  "zero_stream_ctrl = \<lparr>sc_bmHint = 0, sc_bFormatIndex = 0, sc_bFrameIndex = 0,
     sc_dwFrameInterval = 0, sc_wKeyFrameRate = 0, sc_wPFrameRate = 0, sc_wCompQuality = 0,
     sc_wCompWindowSize = 0, sc_wDelay = 0, sc_dwMaxVideoFrameSize = 0,
     sc_dwMaxPayloadTransferSize = 0, sc_dwClockFrequency = 0, sc_bmFramingInfo = 0,
     sc_bPreferedVersion = 0, sc_bMinVersion = 0, sc_bMaxVersion = 0, sc_bUsage = 0,
     sc_bBitDepthLuma = 0, sc_bmSettings = 0, sc_bMaxNumberOfRefFramesPlus1 = 0,
     sc_bmRateControlModes = 0, sc_bmLayoutPerStream = 0, sc_bInterfaceNumber = 0\<rparr>"

text \<open>The length of the block in the versions 1.0, 1.1 and 1.5 of the class.\<close>

definition ctrl_len :: "u16 \<Rightarrow> nat" where
  "ctrl_len bcdUVC = (if bcdUVC \<ge> 0x0150 then 48 else if bcdUVC \<ge> 0x0110 then 34 else 26)"

text \<open>The 48-byte array a SET request fills; what a shorter block leaves out stays zero.\<close>

definition encode_ctrl :: "nat \<Rightarrow> stream_ctrl \<Rightarrow> u8 list" where
  "encode_ctrl len ctrl =
     SHORT_TO_SW (sc_bmHint ctrl) @ [sc_bFormatIndex ctrl, sc_bFrameIndex ctrl]
       @ INT_TO_DW (sc_dwFrameInterval ctrl) @ SHORT_TO_SW (sc_wKeyFrameRate ctrl)
       @ SHORT_TO_SW (sc_wPFrameRate ctrl) @ SHORT_TO_SW (sc_wCompQuality ctrl)
       @ SHORT_TO_SW (sc_wCompWindowSize ctrl) @ SHORT_TO_SW (sc_wDelay ctrl)
       @ INT_TO_DW (sc_dwMaxVideoFrameSize ctrl) @ INT_TO_DW (sc_dwMaxPayloadTransferSize ctrl)
       @ (if len > 26
          then INT_TO_DW (sc_dwClockFrequency ctrl)
            @ [sc_bmFramingInfo ctrl, sc_bPreferedVersion ctrl, sc_bMinVersion ctrl, sc_bMaxVersion ctrl]
            @ (if len = 48
               then [sc_bUsage ctrl, sc_bBitDepthLuma ctrl, sc_bmSettings ctrl,
                     sc_bMaxNumberOfRefFramesPlus1 ctrl]
                 @ SHORT_TO_SW (sc_bmRateControlModes ctrl) @ LONG_TO_QW (sc_bmLayoutPerStream ctrl)
               else replicate 14 0)
          else replicate 22 0)"

definition decode_1_0 :: "u8 list \<Rightarrow> stream_ctrl \<Rightarrow> stream_ctrl option" where
  "decode_1_0 buf ctrl =
     do { bmHint \<leftarrow> sw_at buf 0; bFormatIndex \<leftarrow> rd buf 2; bFrameIndex \<leftarrow> rd buf 3;
          dwFrameInterval \<leftarrow> dw_at buf 4; wKeyFrameRate \<leftarrow> sw_at buf 8; wPFrameRate \<leftarrow> sw_at buf 10;
          wCompQuality \<leftarrow> sw_at buf 12; wCompWindowSize \<leftarrow> sw_at buf 14; wDelay \<leftarrow> sw_at buf 16;
          dwMaxVideoFrameSize \<leftarrow> dw_at buf 18; dwMaxPayloadTransferSize \<leftarrow> dw_at buf 22;
          Some (ctrl\<lparr>sc_bmHint := bmHint, sc_bFormatIndex := bFormatIndex,
            sc_bFrameIndex := bFrameIndex, sc_dwFrameInterval := dwFrameInterval,
            sc_wKeyFrameRate := wKeyFrameRate, sc_wPFrameRate := wPFrameRate,
            sc_wCompQuality := wCompQuality, sc_wCompWindowSize := wCompWindowSize,
            sc_wDelay := wDelay, sc_dwMaxVideoFrameSize := dwMaxVideoFrameSize,
            sc_dwMaxPayloadTransferSize := dwMaxPayloadTransferSize\<rparr>) }"

definition decode_1_1 :: "u8 list \<Rightarrow> stream_ctrl \<Rightarrow> stream_ctrl option" where
  "decode_1_1 buf ctrl =
     do { dwClockFrequency \<leftarrow> dw_at buf 26; bmFramingInfo \<leftarrow> rd buf 30;
          bPreferedVersion \<leftarrow> rd buf 31; bMinVersion \<leftarrow> rd buf 32; bMaxVersion \<leftarrow> rd buf 33;
          Some (ctrl\<lparr>sc_dwClockFrequency := dwClockFrequency, sc_bmFramingInfo := bmFramingInfo,
            sc_bPreferedVersion := bPreferedVersion, sc_bMinVersion := bMinVersion,
            sc_bMaxVersion := bMaxVersion\<rparr>) }"

definition decode_1_5 :: "u8 list \<Rightarrow> stream_ctrl \<Rightarrow> stream_ctrl option" where
  "decode_1_5 buf ctrl =
     do { bUsage \<leftarrow> rd buf 34; bBitDepthLuma \<leftarrow> rd buf 35; bmSettings \<leftarrow> rd buf 36;
          bMaxNumberOfRefFramesPlus1 \<leftarrow> rd buf 37; bmRateControlModes \<leftarrow> sw_at buf 38;
          bmLayoutPerStream \<leftarrow> qw_at buf 40;
          Some (ctrl\<lparr>sc_bUsage := bUsage, sc_bBitDepthLuma := bBitDepthLuma,
            sc_bmSettings := bmSettings, sc_bMaxNumberOfRefFramesPlus1 := bMaxNumberOfRefFramesPlus1,
            sc_bmRateControlModes := bmRateControlModes,
            sc_bmLayoutPerStream := bmLayoutPerStream\<rparr>) }"

definition decode_ctrl :: "nat \<Rightarrow> u8 list \<Rightarrow> stream_ctrl \<Rightarrow> stream_ctrl option" where
  "decode_ctrl len buf ctrl =
     do { ctrl \<leftarrow> decode_1_0 buf ctrl;
          if len > 26
          then do { ctrl \<leftarrow> decode_1_1 buf ctrl;
                    if len \<ge> 48 then decode_1_5 buf ctrl else Some ctrl }
          else Some ctrl }"

text \<open>The replacement of a zero \<^verbatim>\<open>dwMaxVideoFrameSize\<close>.\<close>

definition fix_max_size :: "device_handle \<Rightarrow> stream_ctrl \<Rightarrow> stream_ctrl" where
  "fix_max_size devh ctrl =
     (if sc_dwMaxVideoFrameSize ctrl = 0
      then (case uvc_find_frame_desc devh (ucast (sc_bFormatIndex ctrl)) (ucast (sc_bFrameIndex ctrl)) of
              Some fr \<Rightarrow> ctrl\<lparr>sc_dwMaxVideoFrameSize := fr_dwMaxVideoFrameBufferSize fr\<rparr>
            | None \<Rightarrow> ctrl)
      else ctrl)"

abbreviation (input) "UVC_GET_MIN \<equiv> 0x82 :: u8"
abbreviation (input) "UVC_GET_MAX \<equiv> 0x83 :: u8"
abbreviation (input) "UVC_VS_PROBE_CONTROL \<equiv> 1 :: u16"
abbreviation (input) "UVC_VS_COMMIT_CONTROL \<equiv> 2 :: u16"

definition uvc_query_stream_ctrl ::
  "'w usb \<Rightarrow> device_handle \<Rightarrow> stream_ctrl \<Rightarrow> bool \<Rightarrow> u8 \<Rightarrow> 'w \<Rightarrow> (int \<times> stream_ctrl \<times> 'w) option" where
  "uvc_query_stream_ctrl u devh ctrl probe req w =
     (let len = ctrl_len (ci_bcdUVC (ctrl_if (dh_info devh)));
          buf = (if req = UVC_SET_CUR then encode_ctrl len ctrl else replicate 48 0)
      in do {
        (err, buf, w) \<leftarrow>
          libusb_control_transfer u (if req = UVC_SET_CUR then REQ_TYPE_SET else REQ_TYPE_GET) req
            (push_bit 8 (if probe then UVC_VS_PROBE_CONTROL else UVC_VS_COMMIT_CONTROL))
            (ucast (sc_bInterfaceNumber ctrl)) buf (of_nat len) 0 w;
        if err \<le> 0 then Some (if err = 0 then LIBUSB_ERROR_OTHER else err, ctrl, w)
        else if err < int len then Some (LIBUSB_ERROR_OTHER, ctrl, w)
        else if req \<noteq> UVC_SET_CUR
        then do { ctrl \<leftarrow> decode_ctrl len buf ctrl; Some (UVC_SUCCESS, fix_max_size devh ctrl, w) }
        else Some (UVC_SUCCESS, ctrl, w) })"

definition prepare_stream_ctrl ::
  "'w usb \<Rightarrow> device_handle \<Rightarrow> stream_ctrl \<Rightarrow> 'w \<Rightarrow> (int \<times> stream_ctrl \<times> 'w) option" where
  "prepare_stream_ctrl u devh ctrl w =
     do { (result, ctrl, w) \<leftarrow> uvc_query_stream_ctrl u devh ctrl True UVC_GET_CUR w;
          if result \<noteq> 0 then Some (result, ctrl, w)
          else do {
            (result, ctrl, w) \<leftarrow> uvc_query_stream_ctrl u devh ctrl True UVC_GET_MIN w;
            if result \<noteq> 0 then Some (result, ctrl, w)
            else uvc_query_stream_ctrl u devh ctrl True UVC_GET_MAX w } }"

section \<open>Choosing a frame and an interval\<close>

text \<open>
  The zero-terminated list of intervals, and the range of intervals walked from the highest
  rate down. Rates are C \<^verbatim>\<open>int\<close>s: the decrement below the least one, and a zero step where
  a remainder is taken, have no result.
\<close>

fun pick_listed :: "u32 list \<Rightarrow> int \<Rightarrow> int \<Rightarrow> u32 option option" where
  "pick_listed [] min_fps max_fps = None"
| "pick_listed (interval # intervals) min_fps max_fps =
     (if interval = 0 then Some None
      else let it = 10000000 div interval
           in if word_of_int min_fps \<le> it \<and> it \<le> word_of_int max_fps then Some (Some interval)
              else pick_listed intervals min_fps max_fps)"

function pick_ranged :: "frame_desc \<Rightarrow> int \<Rightarrow> int \<Rightarrow> u32 option option" where
  "pick_ranged frame min_fps fps =
     (if fps < min_fps then Some None
      else let next = (if fps = - 2147483648 then None else pick_ranged frame min_fps (fps - 1))
      in if fps = 0 then next
         else let interval_100ns = word_of_int (10000000 sdiv fps);
                  interval_offset = interval_100ns - fr_dwMinFrameInterval frame
         in if interval_100ns \<ge> fr_dwMinFrameInterval frame \<and> interval_100ns \<le> fr_dwMaxFrameInterval frame
            then (if interval_offset = 0 then Some (Some interval_100ns)
                  else if fr_dwFrameIntervalStep frame = 0 then None
                  else if interval_offset mod fr_dwFrameIntervalStep frame = 0
                  then Some (Some interval_100ns) else next)
            else next)"
  by pat_completeness auto

termination
  by (relation "measure (\<lambda>(frame, min_fps, fps). nat (fps - min_fps + 1))") auto

declare pick_ranged.simps [simp del]

definition pick_interval :: "frame_desc \<Rightarrow> int \<Rightarrow> int \<Rightarrow> u32 option option" where
  "pick_interval frame min_fps max_fps =
     (case fr_intervals frame of
        Some intervals \<Rightarrow> pick_listed intervals min_fps max_fps
      | None \<Rightarrow> pick_ranged frame min_fps max_fps)"

fun pick_frame :: "frame_desc list \<Rightarrow> int \<Rightarrow> int \<Rightarrow> int \<Rightarrow> int \<Rightarrow> (frame_desc \<times> u32) option option" where
  "pick_frame [] width height min_fps max_fps = Some None"
| "pick_frame (frame # frames) width height min_fps max_fps =
     (if uint (fr_wWidth frame) \<noteq> width \<or> uint (fr_wHeight frame) \<noteq> height
      then pick_frame frames width height min_fps max_fps
      else do {
        r \<leftarrow> pick_interval frame min_fps max_fps;
        (case r of
           Some interval \<Rightarrow> Some (Some (frame, interval))
         | None \<Rightarrow> pick_frame frames width height min_fps max_fps) })"

definition get_stream_ctrl_format ::
  "'w usb \<Rightarrow> device_handle \<Rightarrow> streaming_interface \<Rightarrow> stream_ctrl \<Rightarrow> format_desc \<Rightarrow> int \<Rightarrow> int \<Rightarrow> int \<Rightarrow> int
     \<Rightarrow> 'w \<Rightarrow> (int \<times> stream_ctrl \<times> 'w) option" where
  "get_stream_ctrl_format u devh stream_if ctrl format width height min_fps max_fps w =
     (let ctrl = ctrl\<lparr>sc_bInterfaceNumber := si_bInterfaceNumber stream_if\<rparr>;
          fail = (\<lambda>result ctrl w.
            Some (result, ctrl, snd (uvc_release_if u devh (sc_bInterfaceNumber ctrl) w)));
          (result, w) = uvc_claim_if u (sc_bInterfaceNumber ctrl) w
      in if result \<noteq> 0 then fail result ctrl w
      else do {
        (result, ctrl, w) \<leftarrow> prepare_stream_ctrl u devh ctrl w;
        (result, ctrl, w) \<leftarrow> prepare_stream_ctrl u devh ctrl w;
        if result \<noteq> 0 then fail result ctrl w
        else do {
          r \<leftarrow> pick_frame (fm_frame_descs format) width height min_fps max_fps;
          (case r of
             Some (frame, interval) \<Rightarrow>
               Some (UVC_SUCCESS, ctrl\<lparr>sc_bmHint := 1, sc_bFormatIndex := fm_bFormatIndex format,
                 sc_bFrameIndex := fr_bFrameIndex frame, sc_dwFrameInterval := interval\<rparr>, w)
           | None \<Rightarrow> fail UVC_ERROR_INVALID_MODE ctrl w) } })"

definition uvc_probe_stream_ctrl ::
  "'w usb \<Rightarrow> device_handle \<Rightarrow> stream_ctrl \<Rightarrow> 'w \<Rightarrow> (int \<times> stream_ctrl \<times> 'w) option" where
  "uvc_probe_stream_ctrl u devh ctrl w =
     (let (err, w) = uvc_claim_if u (sc_bInterfaceNumber ctrl) w
      in if err \<noteq> 0 then Some (err, ctrl, w)
      else do {
        (err, ctrl, w) \<leftarrow> uvc_query_stream_ctrl u devh ctrl True UVC_SET_CUR w;
        if err \<noteq> 0 then Some (err, ctrl, w)
        else uvc_query_stream_ctrl u devh ctrl True UVC_GET_CUR w })"

text \<open>
  The two nested loops over the interfaces and their formats, flattened to the pairs they
  visit; the result is whether the search ended at \<^verbatim>\<open>found\<close>.
\<close>

fun search_formats ::
  "'w usb \<Rightarrow> device_handle \<Rightarrow> (streaming_interface \<times> format_desc) list \<Rightarrow> stream_ctrl \<Rightarrow> uvc_frame_format
     \<Rightarrow> int \<Rightarrow> int \<Rightarrow> int \<Rightarrow> int \<Rightarrow> 'w \<Rightarrow> (bool \<times> stream_ctrl \<times> 'w) option" where
  "search_formats u devh [] ctrl cf width height min_fps max_fps w = Some (False, ctrl, w)"
| "search_formats u devh ((stream_if, format) # rest) ctrl cf width height min_fps max_fps w =
     (if \<not> frame_format_matches_guid cf (fm_guidFormat format)
      then search_formats u devh rest ctrl cf width height min_fps max_fps w
      else do {
        (result, ctrl, w) \<leftarrow>
          get_stream_ctrl_format u devh stream_if ctrl format width height min_fps max_fps w;
        if result = 0 then Some (True, ctrl, w)
        else search_formats u devh rest ctrl cf width height min_fps max_fps w })"

definition formats_of :: "device_handle \<Rightarrow> (streaming_interface \<times> format_desc) list" where
  "formats_of devh =
     concat (map (\<lambda>si. map (Pair si) (si_format_descs si)) (stream_ifs (dh_info devh)))"

definition uvc_get_stream_ctrl_format_size_fps ::
  "'w usb \<Rightarrow> device_handle \<Rightarrow> uvc_frame_format \<Rightarrow> int \<Rightarrow> int \<Rightarrow> int \<Rightarrow> int \<Rightarrow> 'w
     \<Rightarrow> (int \<times> stream_ctrl \<times> 'w) option" where
  "uvc_get_stream_ctrl_format_size_fps u devh cf width height min_fps max_fps w =
     do { (found, ctrl, w) \<leftarrow>
            search_formats u devh (formats_of devh) zero_stream_ctrl cf width height min_fps max_fps w;
          if found then uvc_probe_stream_ctrl u devh ctrl w
          else Some (UVC_ERROR_INVALID_MODE, ctrl, w) }"

definition uvc_get_stream_ctrl_format_size ::
  "'w usb \<Rightarrow> device_handle \<Rightarrow> uvc_frame_format \<Rightarrow> int \<Rightarrow> int \<Rightarrow> int \<Rightarrow> 'w
     \<Rightarrow> (int \<times> stream_ctrl \<times> 'w) option" where
  "uvc_get_stream_ctrl_format_size u devh cf width height fps w =
     uvc_get_stream_ctrl_format_size_fps u devh cf width height fps fps w"

section \<open>The control block round trip\<close>

text \<open>What a block of the version carries: the fields of \<open>ctrl\<close> over those of \<open>c0\<close>.\<close>

definition carried :: "u16 \<Rightarrow> stream_ctrl \<Rightarrow> stream_ctrl \<Rightarrow> stream_ctrl" where
  "carried bcdUVC ctrl c0 =
     (let c48 = ctrl\<lparr>sc_bInterfaceNumber := sc_bInterfaceNumber c0\<rparr>;
          c34 = c48\<lparr>sc_bUsage := sc_bUsage c0, sc_bBitDepthLuma := sc_bBitDepthLuma c0,
            sc_bmSettings := sc_bmSettings c0,
            sc_bMaxNumberOfRefFramesPlus1 := sc_bMaxNumberOfRefFramesPlus1 c0,
            sc_bmRateControlModes := sc_bmRateControlModes c0,
            sc_bmLayoutPerStream := sc_bmLayoutPerStream c0\<rparr>;
          c26 = c34\<lparr>sc_dwClockFrequency := sc_dwClockFrequency c0,
            sc_bmFramingInfo := sc_bmFramingInfo c0, sc_bPreferedVersion := sc_bPreferedVersion c0,
            sc_bMinVersion := sc_bMinVersion c0, sc_bMaxVersion := sc_bMaxVersion c0\<rparr>
      in if bcdUVC \<ge> 0x0150 then c48 else if bcdUVC \<ge> 0x0110 then c34 else c26)"

lemma ctrl_len_cases: "ctrl_len v = 26 \<or> ctrl_len v = 34 \<or> ctrl_len v = 48"
  by (simp add: ctrl_len_def)

lemma ctrl_len_word [simp]: "unat (word_of_nat (ctrl_len v) :: u16) = ctrl_len v"
  using ctrl_len_cases [of v] by auto

lemma length_encode_ctrl [simp]: "length (encode_ctrl len ctrl) = 48"
  by (simp add: encode_ctrl_def)

lemma encode_ctrl_padded:
  "take (ctrl_len v) (encode_ctrl (ctrl_len v) ctrl) @ replicate (48 - ctrl_len v) 0
     = encode_ctrl (ctrl_len v) ctrl"
  using ctrl_len_cases [of v] by (auto simp: encode_ctrl_def)

lemma decode_ctrl_total: "length buf = 48 \<Longrightarrow> \<exists>c. decode_ctrl len buf ctrl = Some c"
  by (simp add: decode_ctrl_def decode_1_0_def decode_1_1_def decode_1_5_def)

lemmas encode_bytes = encode_ctrl_def SHORT_TO_SW_def INT_TO_DW_def

lemma decode_1_0_encode:
  "decode_1_0 (encode_ctrl len c) c0 = Some (c0\<lparr>sc_bmHint := sc_bmHint c,
     sc_bFormatIndex := sc_bFormatIndex c, sc_bFrameIndex := sc_bFrameIndex c,
     sc_dwFrameInterval := sc_dwFrameInterval c, sc_wKeyFrameRate := sc_wKeyFrameRate c,
     sc_wPFrameRate := sc_wPFrameRate c, sc_wCompQuality := sc_wCompQuality c,
     sc_wCompWindowSize := sc_wCompWindowSize c, sc_wDelay := sc_wDelay c,
     sc_dwMaxVideoFrameSize := sc_dwMaxVideoFrameSize c,
     sc_dwMaxPayloadTransferSize := sc_dwMaxPayloadTransferSize c\<rparr>)"
  by (simp add: decode_1_0_def) (simp add: encode_bytes)

lemma decode_1_1_encode:
  assumes "26 < len"
  shows "decode_1_1 (encode_ctrl len c) c0 = Some (c0\<lparr>sc_dwClockFrequency := sc_dwClockFrequency c,
     sc_bmFramingInfo := sc_bmFramingInfo c, sc_bPreferedVersion := sc_bPreferedVersion c,
     sc_bMinVersion := sc_bMinVersion c, sc_bMaxVersion := sc_bMaxVersion c\<rparr>)"
  using assms by (simp add: decode_1_1_def) (simp add: encode_bytes)

lemma QW_TO_LONG_bytes:
  fixes i :: u64
  assumes "\<not> bit i 31"
  shows "QW_TO_LONG (ucast i) (ucast (drop_bit 8 i)) (ucast (drop_bit 16 i)) (ucast (drop_bit 24 i))
      (ucast (drop_bit 32 i)) (ucast (drop_bit 40 i)) (ucast (drop_bit 48 i))
      (ucast (drop_bit 56 i)) = i"
proof (rule bit_word_eqI)
  fix n assume "n < LENGTH(64)"
  with assms show "bit (QW_TO_LONG (ucast i) (ucast (drop_bit 8 i)) (ucast (drop_bit 16 i))
      (ucast (drop_bit 24 i)) (ucast (drop_bit 32 i)) (ucast (drop_bit 40 i)) (ucast (drop_bit 48 i))
      (ucast (drop_bit 56 i))) n = bit i n"
    unfolding bit_QW_TO_LONG_bytes by simp
qed

lemma encode_1_5:
  "drop 34 (encode_ctrl 48 c) = [sc_bUsage c, sc_bBitDepthLuma c, sc_bmSettings c,
      sc_bMaxNumberOfRefFramesPlus1 c] @ SHORT_TO_SW (sc_bmRateControlModes c)
        @ LONG_TO_QW (sc_bmLayoutPerStream c)"
  by (simp add: encode_ctrl_def)

lemma decode_1_5_encode:
  assumes "\<not> bit (sc_bmLayoutPerStream c) 31"
  shows "decode_1_5 (encode_ctrl 48 c) c0 = Some (c0\<lparr>sc_bUsage := sc_bUsage c,
     sc_bBitDepthLuma := sc_bBitDepthLuma c, sc_bmSettings := sc_bmSettings c,
     sc_bMaxNumberOfRefFramesPlus1 := sc_bMaxNumberOfRefFramesPlus1 c,
     sc_bmRateControlModes := sc_bmRateControlModes c,
     sc_bmLayoutPerStream := sc_bmLayoutPerStream c\<rparr>)"
proof -
  define e where "e = encode_ctrl 48 c"
  have l: "length e = 48" by (simp add: e_def)
  have n: "e ! (34 + k) = ([sc_bUsage c, sc_bBitDepthLuma c, sc_bmSettings c,
      sc_bMaxNumberOfRefFramesPlus1 c] @ SHORT_TO_SW (sc_bmRateControlModes c)
        @ LONG_TO_QW (sc_bmLayoutPerStream c)) ! k" for k
    unfolding encode_1_5 [symmetric] by (simp add: e_def)
  show ?thesis
    unfolding e_def [symmetric]
    using n [of 0] n [of 1] n [of 2] n [of 3] n [of 4] n [of 5] n [of 6] n [of 7] n [of 8] n [of 9]
      n [of 10] n [of 11] n [of 12] n [of 13]
    by (simp add: decode_1_5_def l SHORT_TO_SW_def LONG_TO_QW_def QW_TO_LONG_bytes [OF assms])
qed

lemma decode_encode_ctrl:
  assumes "v \<ge> 0x0150 \<longrightarrow> \<not> bit (sc_bmLayoutPerStream c) 31"
  shows "decode_ctrl (ctrl_len v) (encode_ctrl (ctrl_len v) c) c0 = Some (carried v c c0)"
proof -
  consider (a) "v \<ge> 0x0150" "ctrl_len v = 48" | (b) "\<not> v \<ge> 0x0150" "v \<ge> 0x0110" "ctrl_len v = 34"
    | (c) "\<not> v \<ge> 0x0150" "\<not> v \<ge> 0x0110" "ctrl_len v = 26"
    by (cases "v \<ge> 0x0150"; cases "v \<ge> 0x0110") (simp_all add: ctrl_len_def)
  then show ?thesis
  proof cases
    case a
    with assms have "\<not> bit (sc_bmLayoutPerStream c) 31" by simp
    then show ?thesis unfolding a(2) decode_ctrl_def carried_def
      by (simp only: a(1) decode_1_0_encode decode_1_1_encode decode_1_5_encode Let_def if_True bind.bind_lunit) (simp add: decode_1_1_encode decode_1_5_encode)
  next
    case b
    show ?thesis unfolding b(3) decode_ctrl_def carried_def
      by (simp only: b(1,2) decode_1_0_encode Let_def if_True if_False bind.bind_lunit) (simp add: decode_1_1_encode)
  next
    case c
    show ?thesis unfolding c(3) decode_ctrl_def carried_def
      by (simp only: c(1,2) decode_1_0_encode Let_def if_True if_False bind.bind_lunit) simp
  qed
qed

section \<open>Requests\<close>

lemma decode_1_0_interface:
  "decode_1_0 buf ctrl = Some c \<Longrightarrow> sc_bInterfaceNumber c = sc_bInterfaceNumber ctrl"
  unfolding decode_1_0_def by (auto split: Option.bind_splits)
lemma decode_1_1_interface:
  "decode_1_1 buf ctrl = Some c \<Longrightarrow> sc_bInterfaceNumber c = sc_bInterfaceNumber ctrl"
  unfolding decode_1_1_def by (auto split: Option.bind_splits)
lemma decode_1_5_interface:
  "decode_1_5 buf ctrl = Some c \<Longrightarrow> sc_bInterfaceNumber c = sc_bInterfaceNumber ctrl"
  unfolding decode_1_5_def by (auto split: Option.bind_splits)
lemma decode_keeps_interface:
  "decode_ctrl len buf ctrl = Some c \<Longrightarrow> sc_bInterfaceNumber c = sc_bInterfaceNumber ctrl"
  by (auto simp: decode_ctrl_def decode_1_0_interface decode_1_1_interface decode_1_5_interface
      split: Option.bind_splits if_splits)

lemma fix_max_size_interface [simp]:
  "sc_bInterfaceNumber (fix_max_size devh ctrl) = sc_bInterfaceNumber ctrl"
  by (simp add: fix_max_size_def split: option.split)

lemma ctrl_len_le: "ctrl_len v \<le> 48"
  by (simp add: ctrl_len_def)

lemma query_returns:
  assumes "control_pipe (libusb_control_transfer u)"
  shows "\<exists>r c w'. uvc_query_stream_ctrl u devh ctrl probe req w = Some (r, c, w') \<and> r \<le> 0
    \<and> (req = UVC_SET_CUR \<or> r < 0 \<longrightarrow> c = ctrl)
    \<and> sc_bInterfaceNumber c = sc_bInterfaceNumber ctrl"
proof -
  define len where "len = ctrl_len (ci_bcdUVC (ctrl_if (dh_info devh)))"
  define buf where "buf = (if req = UVC_SET_CUR then encode_ctrl len ctrl else replicate 48 0)"
  have "unat (word_of_nat len :: u16) \<le> length buf"
    by (simp add: buf_def len_def ctrl_len_le)
  from control_pipe.xfer_returns [OF assms this] obtain r d w1 where
    x: "libusb_control_transfer u (if req = UVC_SET_CUR then REQ_TYPE_SET else REQ_TYPE_GET) req
        (push_bit 8 (if probe then UVC_VS_PROBE_CONTROL else UVC_VS_COMMIT_CONTROL))
        (ucast (sc_bInterfaceNumber ctrl)) buf (of_nat len) 0 w = Some (r, d, w1)"
      "length d = length buf" by blast
  then have "length d = 48" by (simp add: buf_def)
  then obtain c where "decode_ctrl len d ctrl = Some c" using decode_ctrl_total by blast
  with x(1) show ?thesis
    by (simp add: uvc_query_stream_ctrl_def Let_def len_def [symmetric] buf_def [symmetric]
      decode_keeps_interface)
qed

lemma prepare_returns:
  assumes "control_pipe (libusb_control_transfer u)"
  shows "\<exists>r c w'. prepare_stream_ctrl u devh ctrl w = Some (r, c, w') \<and> r \<le> 0
    \<and> sc_bInterfaceNumber c = sc_bInterfaceNumber ctrl"
proof -
  obtain r1 c1 w1 where 1: "uvc_query_stream_ctrl u devh ctrl True UVC_GET_CUR w = Some (r1, c1, w1)"
    "r1 \<le> 0" "sc_bInterfaceNumber c1 = sc_bInterfaceNumber ctrl" using query_returns [OF assms] by blast
  obtain r2 c2 w2 where 2: "uvc_query_stream_ctrl u devh c1 True UVC_GET_MIN w1 = Some (r2, c2, w2)"
    "r2 \<le> 0" "sc_bInterfaceNumber c2 = sc_bInterfaceNumber c1" using query_returns [OF assms] by blast
  obtain r3 c3 w3 where 3: "uvc_query_stream_ctrl u devh c2 True UVC_GET_MAX w2 = Some (r3, c3, w3)"
    "r3 \<le> 0" "sc_bInterfaceNumber c3 = sc_bInterfaceNumber c2" using query_returns [OF assms] by blast
  from 1 2 3 show ?thesis by (simp add: prepare_stream_ctrl_def)
qed

section \<open>The format table\<close>

lemma zero_guid: "replicate 16 (0 :: u8) = [0, 0, 0, 0, 0, 0, 0, 0, 0, 0, 0, 0, 0, 0, 0, 0]"
  by (simp add: numeral_eq_Suc)

text \<open>The formats with a GUID of their own that stand under a format of the table.\<close>

fun concrete_formats :: "uvc_frame_format \<Rightarrow> uvc_frame_format list" where
  "concrete_formats UVC_FRAME_FORMAT_ANY =
     [UVC_FRAME_FORMAT_YUYV, UVC_FRAME_FORMAT_UYVY, UVC_FRAME_FORMAT_GRAY8, UVC_FRAME_FORMAT_MJPEG]"
| "concrete_formats UVC_FRAME_FORMAT_UNCOMPRESSED =
     [UVC_FRAME_FORMAT_YUYV, UVC_FRAME_FORMAT_UYVY, UVC_FRAME_FORMAT_GRAY8]"
| "concrete_formats UVC_FRAME_FORMAT_COMPRESSED = [UVC_FRAME_FORMAT_MJPEG]"
| "concrete_formats fmt = (if get_format_entry fmt = None then [] else [fmt])"

text \<open>
  The GUID table. A format of the table matches exactly the GUIDs of the concrete formats
  under it, and an abstract one (any, uncompressed, compressed) the all-zero GUID as well; a
  format without an entry matches nothing. Looking up the GUID of a concrete format gives the
  format back, and the all-zero GUID is looked up as any format.
\<close>
theorem format_guid_table:
  "(frame_format_matches_guid fmt guid \<longleftrightarrow>
     (\<exists>leaf \<in> set (concrete_formats fmt). map_option fe_guid (get_format_entry leaf) = Some guid)
     \<or> fmt \<in> {UVC_FRAME_FORMAT_ANY, UVC_FRAME_FORMAT_UNCOMPRESSED, UVC_FRAME_FORMAT_COMPRESSED}
       \<and> guid = replicate 16 0)
   \<and> (\<forall>e. get_format_entry fmt = Some e \<and> fe_children e = [] \<longrightarrow>
     uvc_frame_format_for_guid (fe_guid e) = fmt)
   \<and> uvc_frame_format_for_guid (replicate 16 0) = UVC_FRAME_FORMAT_ANY"
proof (intro conjI allI impI)
  show "frame_format_matches_guid fmt guid \<longleftrightarrow>
     (\<exists>leaf \<in> set (concrete_formats fmt). map_option fe_guid (get_format_entry leaf) = Some guid)
     \<or> fmt \<in> {UVC_FRAME_FORMAT_ANY, UVC_FRAME_FORMAT_UNCOMPRESSED, UVC_FRAME_FORMAT_COMPRESSED}
       \<and> guid = replicate 16 0"
    by (cases fmt) (auto simp: frame_format_matches_guid.simps ABS_FMT_def FMT_def)
  show "uvc_frame_format_for_guid (fe_guid e) = fmt"
    if "get_format_entry fmt = Some e \<and> fe_children e = []" for e
    using that by (cases fmt)
      (auto simp: uvc_frame_format_for_guid_def frame_formats_def ABS_FMT_def FMT_def zero_guid)
  show "uvc_frame_format_for_guid (replicate 16 0) = UVC_FRAME_FORMAT_ANY"
    by (simp add: uvc_frame_format_for_guid_def frame_formats_def ABS_FMT_def)
qed

theorem format_guid_table_witness:
  "uvc_frame_format_for_guid
     [0x59, 0x55, 0x59, 0x32, 0x00, 0x00, 0x10, 0x00, 0x80, 0x00, 0x00, 0xaa, 0x00, 0x38, 0x9b, 0x71]
   = UVC_FRAME_FORMAT_YUYV"
  using format_guid_table [of UVC_FRAME_FORMAT_YUYV "[]"] by (simp add: FMT_def)

section \<open>Intervals\<close>

text \<open>The intervals the code accepts for a frame and a range of rates.\<close>

definition range_fits :: "frame_desc \<Rightarrow> u32 \<Rightarrow> bool" where
  "range_fits frame v \<longleftrightarrow> fr_dwMinFrameInterval frame \<le> v \<and> v \<le> fr_dwMaxFrameInterval frame
     \<and> (v = fr_dwMinFrameInterval frame
         \<or> (v - fr_dwMinFrameInterval frame) mod fr_dwFrameIntervalStep frame = 0)"

definition interval_fits :: "frame_desc \<Rightarrow> int \<Rightarrow> int \<Rightarrow> u32 \<Rightarrow> bool" where
  "interval_fits frame min_fps max_fps v \<longleftrightarrow>
     (case fr_intervals frame of
        Some vs \<Rightarrow> v \<in> set (takeWhile (\<lambda>v. v \<noteq> 0) vs)
          \<and> word_of_int min_fps \<le> 10000000 div v \<and> 10000000 div v \<le> word_of_int max_fps
      | None \<Rightarrow> range_fits frame v
          \<and> (\<exists>fps \<in> {min_fps..max_fps}. fps \<noteq> 0 \<and> v = word_of_int (10000000 sdiv fps)))"

text \<open>A frame whose search has a result: a terminated list, or a range with a step.\<close>

definition searchable :: "frame_desc \<Rightarrow> bool" where
  "searchable frame \<longleftrightarrow>
     (case fr_intervals frame of Some vs \<Rightarrow> 0 \<in> set vs | None \<Rightarrow> fr_dwFrameIntervalStep frame \<noteq> 0)"

lemma pick_listed_total: "0 \<in> set vs \<Longrightarrow> pick_listed vs min_fps max_fps \<noteq> None"
  by (induction vs) (auto simp: Let_def)

lemma pick_listed_Some:
  "pick_listed vs min_fps max_fps = Some (Some v) \<Longrightarrow>
     v \<in> set (takeWhile (\<lambda>v. v \<noteq> 0) vs)
       \<and> word_of_int min_fps \<le> 10000000 div v \<and> 10000000 div v \<le> word_of_int max_fps"
  by (induction vs) (auto simp: Let_def split: if_splits)

lemma pick_listed_none:
  "pick_listed vs min_fps max_fps = Some None \<Longrightarrow> v \<in> set (takeWhile (\<lambda>v. v \<noteq> 0) vs) \<Longrightarrow>
     \<not> (word_of_int min_fps \<le> 10000000 div v \<and> 10000000 div v \<le> word_of_int max_fps)"
  by (induction vs) (auto simp: Let_def split: if_splits)

lemma pick_ranged_total:
  "fr_dwFrameIntervalStep frame \<noteq> 0 \<Longrightarrow> - 2147483648 < min_fps \<Longrightarrow>
     pick_ranged frame min_fps fps \<noteq> None"
proof (induction frame min_fps fps rule: pick_ranged.induct)
  case (1 frame min_fps fps)
  then show ?case by (subst pick_ranged.simps) (auto simp: Let_def)
qed

lemma pick_ranged_Some:
  "pick_ranged frame min_fps fps = Some (Some v) \<Longrightarrow> range_fits frame v
     \<and> (\<exists>f \<in> {min_fps..fps}. f \<noteq> 0 \<and> v = word_of_int (10000000 sdiv f))"
proof (induction frame min_fps fps rule: pick_ranged.induct)
  case (1 frame min_fps fps)
  let ?v = "word_of_int (10000000 sdiv fps) :: u32"
  from 1(2) have n: "\<not> fps < min_fps" by (subst (asm) pick_ranged.simps) (auto split: if_splits)
  show ?case
  proof (cases "fps \<noteq> 0 \<and> v = ?v \<and> range_fits frame ?v")
    case True
    with n show ?thesis by auto
  next
    case False
    with 1(2) n have "fps \<noteq> - 2147483648" "pick_ranged frame min_fps (fps - 1) = Some (Some v)"
      by (subst (asm) pick_ranged.simps; auto simp: Let_def range_fits_def split: if_splits)+
    with 1(1) [OF n] show ?thesis by fastforce
  qed
qed

lemma pick_ranged_none:
  "pick_ranged frame min_fps fps = Some None \<Longrightarrow> f \<in> {min_fps..fps} \<Longrightarrow> f \<noteq> 0 \<Longrightarrow>
     \<not> range_fits frame (word_of_int (10000000 sdiv f))"
proof (induction frame min_fps fps rule: pick_ranged.induct)
  case (1 frame min_fps fps)
  from 1(3) have n: "\<not> fps < min_fps" by simp
  with 1(2) have "\<not> (fps \<noteq> 0 \<and> range_fits frame (word_of_int (10000000 sdiv fps)))"
    "f \<noteq> fps \<longrightarrow> fps \<noteq> - 2147483648 \<and> pick_ranged frame min_fps (fps - 1) = Some None"
    using 1(3) by (subst (asm) pick_ranged.simps; auto simp: Let_def range_fits_def split: if_splits)+
  then show ?case using 1(1) [OF n] 1(3,4) by (cases "f = fps") auto
qed

lemma pick_interval_Some:
  "pick_interval frame min_fps max_fps = Some (Some v) \<Longrightarrow> interval_fits frame min_fps max_fps v"
  by (auto simp: pick_interval_def interval_fits_def split: option.splits
      dest!: pick_listed_Some pick_ranged_Some)

lemma pick_interval_none:
  "pick_interval frame min_fps max_fps = Some None \<Longrightarrow> \<not> interval_fits frame min_fps max_fps v"
  using pick_listed_none pick_ranged_none
  by (fastforce simp: pick_interval_def interval_fits_def split: option.splits)

lemma pick_interval_total:
  "searchable frame \<Longrightarrow> - 2147483648 < min_fps \<Longrightarrow> pick_interval frame min_fps max_fps \<noteq> None"
  using pick_listed_total pick_ranged_total
  by (auto simp: pick_interval_def searchable_def split: option.splits)

section \<open>Frames\<close>

definition has_size :: "int \<Rightarrow> int \<Rightarrow> frame_desc \<Rightarrow> bool" where
  "has_size width height frame \<longleftrightarrow>
     uint (fr_wWidth frame) = width \<and> uint (fr_wHeight frame) = height"

lemma pick_frame_Some:
  "pick_frame frames width height min_fps max_fps = Some (Some (frame, v)) \<Longrightarrow>
     frame \<in> set frames \<and> has_size width height frame \<and> interval_fits frame min_fps max_fps v"
  by (induction frames)
    (auto simp: has_size_def ub_simps split: if_splits option.splits dest: pick_interval_Some)

lemma pick_frame_none:
  "pick_frame frames width height min_fps max_fps = Some None \<Longrightarrow> frame \<in> set frames \<Longrightarrow>
     has_size width height frame \<Longrightarrow> \<not> interval_fits frame min_fps max_fps v"
  by (induction frames)
    (auto simp: has_size_def ub_simps split: if_splits option.splits dest: pick_interval_none)

lemma pick_frame_total:
  "\<forall>frame \<in> set frames. searchable frame \<Longrightarrow> - 2147483648 < min_fps \<Longrightarrow>
     pick_frame frames width height min_fps max_fps \<noteq> None"
proof (induction frames)
  case Nil
  then show ?case by simp
next
  case (Cons fr frs)
  then have "pick_interval fr min_fps max_fps \<noteq> None" using pick_interval_total by simp
  with Cons show ?case by (auto split: option.splits)
qed

section \<open>Negotiation\<close>

lemma query_keeps_interface:
  "uvc_query_stream_ctrl u devh ctrl probe req w = Some (r, c, w') \<Longrightarrow>
     sc_bInterfaceNumber c = sc_bInterfaceNumber ctrl"
  by (auto simp: uvc_query_stream_ctrl_def Let_def ub_simps decode_keeps_interface split: if_splits)

lemma prepare_keeps_interface:
  "prepare_stream_ctrl u devh ctrl w = Some (r, c, w') \<Longrightarrow>
     sc_bInterfaceNumber c = sc_bInterfaceNumber ctrl"
  by (auto simp: prepare_stream_ctrl_def ub_simps split: if_splits dest!: query_keeps_interface)

text \<open>The control block asks for an interval of a frame of the format, on the interface.\<close>

definition asks_for ::
  "stream_ctrl \<Rightarrow> streaming_interface \<Rightarrow> format_desc \<Rightarrow> frame_desc \<Rightarrow> u32 \<Rightarrow> bool" where
  "asks_for ctrl si fm frame v \<longleftrightarrow> sc_bInterfaceNumber ctrl = si_bInterfaceNumber si \<and> sc_bmHint ctrl = 1
     \<and> sc_bFormatIndex ctrl = fm_bFormatIndex fm \<and> sc_bFrameIndex ctrl = fr_bFrameIndex frame
     \<and> sc_dwFrameInterval ctrl = v"

lemma format_cases:
  assumes "get_stream_ctrl_format u devh si ctrl fm width height min_fps max_fps w = Some (r, c, w')"
  shows "r \<noteq> 0 \<and> (\<exists>w1. w' = snd (uvc_release_if u devh (si_bInterfaceNumber si) w1))
    \<or> r = 0 \<and> (\<exists>frame v. pick_frame (fm_frame_descs fm) width height min_fps max_fps = Some (Some (frame, v))
        \<and> asks_for c si fm frame v)"
proof -
  obtain r0 w0 where 0: "uvc_claim_if u (si_bInterfaceNumber si) w = (r0, w0)" by (rule prod.exhaust)
  show ?thesis
  proof (cases "r0 = 0")
    case False
    with 0 assms show ?thesis by (auto simp: get_stream_ctrl_format_def)
  next
    case True
    define c0 where "c0 = ctrl\<lparr>sc_bInterfaceNumber := si_bInterfaceNumber si\<rparr>"
  have i0: "sc_bInterfaceNumber c0 = si_bInterfaceNumber si" by (simp add: c0_def)
    from assms 0 True obtain r1 c1 w1 r2 c2 w2 where
      1: "prepare_stream_ctrl u devh c0 w0 = Some (r1, c1, w1)" and
      2: "prepare_stream_ctrl u devh c1 w1 = Some (r2, c2, w2)"
      by (auto simp: get_stream_ctrl_format_def ub_simps c0_def)
    from prepare_keeps_interface [OF 1] prepare_keeps_interface [OF 2]
    have c2: "sc_bInterfaceNumber c2 = si_bInterfaceNumber si" by (simp add: c0_def)
    show ?thesis
    proof (cases "r2 = 0")
      case False
      with 0 1 2 True c2 assms show ?thesis
        by (auto simp: get_stream_ctrl_format_def c0_def [symmetric] i0)
    next
      case r2: True
      with 0 1 2 True assms obtain p where
        p: "pick_frame (fm_frame_descs fm) width height min_fps max_fps = Some p"
        by (auto simp: get_stream_ctrl_format_def c0_def [symmetric] i0 ub_simps)
      with 0 1 2 r2 True assms c2 show ?thesis
        by (cases p) (auto simp: get_stream_ctrl_format_def c0_def [symmetric] i0 asks_for_def)
    qed
  qed
qed

lemma search_found:
  "search_formats u devh sfs ctrl cf width height min_fps max_fps w = Some (True, c, w') \<Longrightarrow>
     \<exists>si fm frame v. (si, fm) \<in> set sfs \<and> frame_format_matches_guid cf (fm_guidFormat fm)
       \<and> frame \<in> set (fm_frame_descs fm) \<and> has_size width height frame
       \<and> interval_fits frame min_fps max_fps v \<and> asks_for c si fm frame v"
proof (induction sfs arbitrary: ctrl w)
  case Nil
  then show ?case by simp
next
  case (Cons sf rest)
  obtain si fm where sf: "sf = (si, fm)" by (rule prod.exhaust)
  show ?case
  proof (cases "frame_format_matches_guid cf (fm_guidFormat fm)")
    case False
    with Cons sf show ?thesis by fastforce
  next
    case True
    with Cons.prems sf obtain r c1 w1 where g:
      "get_stream_ctrl_format u devh si ctrl fm width height min_fps max_fps w = Some (r, c1, w1)"
      and s: "if r = 0 then c = c1 else
        search_formats u devh rest c1 cf width height min_fps max_fps w1 = Some (True, c, w')"
      by (auto simp: ub_simps split: if_splits)
    show ?thesis
    proof (cases "r = 0")
      case True
      with g s format_cases [OF g] obtain frame v where
        "pick_frame (fm_frame_descs fm) width height min_fps max_fps = Some (Some (frame, v))"
        "asks_for c si fm frame v" by auto
      with pick_frame_Some \<open>frame_format_matches_guid cf (fm_guidFormat fm)\<close> sf show ?thesis by fastforce
    next
      case False
      with s Cons.IH [of c1 w1] show ?thesis by auto
    qed
  qed
qed

lemma set_formats_of:
  "(si, fm) \<in> set (formats_of devh) \<longleftrightarrow> si \<in> set (stream_ifs (dh_info devh)) \<and> fm \<in> set (si_format_descs si)"
  by (auto simp: formats_of_def)

section \<open>Completeness\<close>

text \<open>A device on which every claim and every query succeeds.\<close>

definition obliging :: "'w usb \<Rightarrow> device_handle \<Rightarrow> bool" where
  "obliging u devh \<longleftrightarrow> (\<forall>i w. fst (usb_claim u i w) = 0)
     \<and> (\<forall>ctrl probe req w. \<exists>c w'. uvc_query_stream_ctrl u devh ctrl probe req w = Some (0, c, w'))"

lemma obliging_prepare:
  assumes "obliging u devh"
  shows "\<exists>c w'. prepare_stream_ctrl u devh ctrl w = Some (0, c, w')"
proof -
  from assms have q: "\<And>ctrl probe req w. \<exists>c w'. uvc_query_stream_ctrl u devh ctrl probe req w = Some (0, c, w')"
    by (simp add: obliging_def)
  obtain c1 w1 where 1: "uvc_query_stream_ctrl u devh ctrl True UVC_GET_CUR w = Some (0, c1, w1)" using q by blast
  obtain c2 w2 where 2: "uvc_query_stream_ctrl u devh c1 True UVC_GET_MIN w1 = Some (0, c2, w2)" using q by blast
  obtain c3 w3 where 3: "uvc_query_stream_ctrl u devh c2 True UVC_GET_MAX w2 = Some (0, c3, w3)" using q by blast
  from 1 2 3 show ?thesis by (simp add: prepare_stream_ctrl_def)
qed

lemma obliging_probe:
  assumes "obliging u devh"
  shows "\<exists>c w'. uvc_probe_stream_ctrl u devh ctrl w = Some (0, c, w')"
proof -
  from assms have q: "\<And>ctrl probe req w. \<exists>c w'. uvc_query_stream_ctrl u devh ctrl probe req w = Some (0, c, w')"
    and cl: "\<And>i w. fst (usb_claim u i w) = 0" by (simp_all add: obliging_def)
  obtain w0 where 0: "usb_claim u (sc_bInterfaceNumber ctrl) w = (0, w0)"
    using cl by (metis prod.collapse)
  obtain c1 w1 where 1: "uvc_query_stream_ctrl u devh ctrl True UVC_SET_CUR w0 = Some (0, c1, w1)" using q by blast
  obtain c2 w2 where 2: "uvc_query_stream_ctrl u devh c1 True UVC_GET_CUR w1 = Some (0, c2, w2)" using q by blast
  from 0 1 2 show ?thesis by (simp add: uvc_probe_stream_ctrl_def uvc_claim_if_def)
qed

lemma obliging_format:
  assumes "obliging u devh" "\<forall>frame \<in> set (fm_frame_descs fm). searchable frame" "- 2147483648 < min_fps"
  shows "\<exists>r c w'. get_stream_ctrl_format u devh si ctrl fm width height min_fps max_fps w = Some (r, c, w')
    \<and> (r = 0 \<longleftrightarrow> (\<exists>frame \<in> set (fm_frame_descs fm). has_size width height frame
        \<and> (\<exists>v. interval_fits frame min_fps max_fps v)))"
proof -
  obtain w0 where 0: "usb_claim u (si_bInterfaceNumber si) w = (0, w0)"
    using assms(1) unfolding obliging_def by (metis prod.collapse)
  define c0 where "c0 = ctrl\<lparr>sc_bInterfaceNumber := si_bInterfaceNumber si\<rparr>"
  have i0: "sc_bInterfaceNumber c0 = si_bInterfaceNumber si" by (simp add: c0_def)
  obtain c1 w1 where 1: "prepare_stream_ctrl u devh c0 w0 = Some (0, c1, w1)"
    using obliging_prepare [OF assms(1)] by blast
  obtain c2 w2 where 2: "prepare_stream_ctrl u devh c1 w1 = Some (0, c2, w2)"
    using obliging_prepare [OF assms(1)] by blast
  obtain r where r: "pick_frame (fm_frame_descs fm) width height min_fps max_fps = Some r"
    using pick_frame_total [OF assms(2,3)] by fast
  have e: "get_stream_ctrl_format u devh si ctrl fm width height min_fps max_fps w =
      (case r of Some (frame, v) \<Rightarrow>
         Some (0, c2\<lparr>sc_bmHint := 1, sc_bFormatIndex := fm_bFormatIndex fm,
           sc_bFrameIndex := fr_bFrameIndex frame, sc_dwFrameInterval := v\<rparr>, w2)
       | None \<Rightarrow> Some (UVC_ERROR_INVALID_MODE, c2, snd (uvc_release_if u devh (sc_bInterfaceNumber c2) w2)))"
    using 0 1 2 r by (simp add: get_stream_ctrl_format_def uvc_claim_if_def c0_def [symmetric] i0)
  show ?thesis
  proof (cases r)
    case None
    with r have "\<not> (\<exists>frame \<in> set (fm_frame_descs fm). has_size width height frame
        \<and> (\<exists>v. interval_fits frame min_fps max_fps v))"
      using pick_frame_none by blast
    with None show ?thesis unfolding e by simp
  next
    case (Some fv)
    then obtain frame v where f: "r = Some (frame, v)" by (cases fv) simp
    with r pick_frame_Some [of "fm_frame_descs fm" width height min_fps max_fps frame v] show ?thesis
      unfolding e by auto
  qed
qed

text \<open>The format has a frame of the size with an interval within the bounds.\<close>

definition offers :: "uvc_frame_format \<Rightarrow> int \<Rightarrow> int \<Rightarrow> int \<Rightarrow> int \<Rightarrow> format_desc \<Rightarrow> bool" where
  "offers cf width height min_fps max_fps fm \<longleftrightarrow> frame_format_matches_guid cf (fm_guidFormat fm)
     \<and> (\<exists>frame \<in> set (fm_frame_descs fm). has_size width height frame
          \<and> (\<exists>v. interval_fits frame min_fps max_fps v))"

lemma obliging_search:
  assumes "obliging u devh" "\<forall>sf \<in> set sfs. \<forall>frame \<in> set (fm_frame_descs (snd sf)). searchable frame"
    "- 2147483648 < min_fps"
  shows "\<exists>found c w'. search_formats u devh sfs ctrl cf width height min_fps max_fps w = Some (found, c, w')
    \<and> (found \<longleftrightarrow> (\<exists>sf \<in> set sfs. offers cf width height min_fps max_fps (snd sf)))"
  using assms(2)
proof (induction sfs arbitrary: ctrl w)
  case Nil
  then show ?case by auto
next
  case (Cons sf rest)
  obtain si fm where sf: "sf = (si, fm)" by (rule prod.exhaust)
  from Cons.prems sf have s: "\<forall>frame \<in> set (fm_frame_descs fm). searchable frame"
    "\<forall>sf \<in> set rest. \<forall>frame \<in> set (fm_frame_descs (snd sf)). searchable frame" by simp_all
  show ?case
  proof (cases "frame_format_matches_guid cf (fm_guidFormat fm)")
    case False
    with Cons.IH [OF s(2)] sf show ?thesis by (simp add: offers_def)
  next
    case True
    obtain r c1 w1 where g: "get_stream_ctrl_format u devh si ctrl fm width height min_fps max_fps w
        = Some (r, c1, w1)"
      "r = 0 \<longleftrightarrow> offers cf width height min_fps max_fps fm"
      using obliging_format [OF assms(1) s(1) assms(3)] True unfolding offers_def by blast
    show ?thesis
    proof (cases "r = 0")
      case True
      with g sf \<open>frame_format_matches_guid cf _\<close> show ?thesis by auto
    next
      case False
      with g sf \<open>frame_format_matches_guid cf _\<close> Cons.IH [OF s(2), of c1 w1] show ?thesis by simp
    qed
  qed
qed

lemma obliging_negotiation:
  assumes "obliging u devh"
    and "\<forall>si \<in> set (stream_ifs (dh_info devh)). \<forall>fm \<in> set (si_format_descs si).
      \<forall>frame \<in> set (fm_frame_descs fm). searchable frame"
    and "- 2147483648 < min_fps"
  shows "\<exists>r c w'. uvc_get_stream_ctrl_format_size_fps u devh cf width height min_fps max_fps w = Some (r, c, w')
    \<and> r = (if \<exists>si \<in> set (stream_ifs (dh_info devh)). \<exists>fm \<in> set (si_format_descs si).
             offers cf width height min_fps max_fps fm
           then UVC_SUCCESS else UVC_ERROR_INVALID_MODE)"
proof -
  from assms(2) have "\<forall>sf \<in> set (formats_of devh). \<forall>frame \<in> set (fm_frame_descs (snd sf)). searchable frame"
    by (auto simp: formats_of_def)
  from obliging_search [OF assms(1) this assms(3)] obtain found c1 w1 where
    s: "search_formats u devh (formats_of devh) zero_stream_ctrl cf width height min_fps max_fps w
      = Some (found, c1, w1)"
    and f: "found \<longleftrightarrow> (\<exists>sf \<in> set (formats_of devh). offers cf width height min_fps max_fps (snd sf))"
    by blast
  obtain c2 w2 where p: "uvc_probe_stream_ctrl u devh c1 w1 = Some (0, c2, w2)"
    using obliging_probe [OF assms(1)] by blast
  have "found \<longleftrightarrow> (\<exists>si \<in> set (stream_ifs (dh_info devh)). \<exists>fm \<in> set (si_format_descs si).
      offers cf width height min_fps max_fps fm)"
    unfolding f by (auto simp: formats_of_def)
  with s p show ?thesis
    by (cases found) (simp_all add: uvc_get_stream_ctrl_format_size_fps_def)
qed

text \<open>A handle on a device with one MJPEG frame of 640 by 480 at 10 and 30 frames per second.\<close>

definition demo_frame :: frame_desc where
  "demo_frame = zero_frame\<lparr>fr_bFrameIndex := 3, fr_wWidth := 640, fr_wHeight := 480,
     fr_intervals := Some [1000000, 333333, 0]\<rparr>"

definition demo_format :: format_desc where
  "demo_format = zero_format\<lparr>fm_bFormatIndex := 2, fm_frame_descs := [demo_frame],
     fm_guidFormat := [0x4d, 0x4a, 0x50, 0x47, 0, 0, 0, 0, 0, 0, 0, 0, 0, 0, 0, 0]\<rparr>"

definition demo_devh :: device_handle where
  "demo_devh = \<lparr>dh_info = \<lparr>di_config = None, ctrl_if = zero_ctrl_if\<lparr>ci_bcdUVC := 0x0110\<rparr>,
     stream_ifs = [zero_stream_if\<lparr>si_bInterfaceNumber := 1, si_format_descs := [demo_format]\<rparr>]\<rparr>,
     dh_is_isight = False, dh_reset_on_release_if = True\<rparr>"

lemma obliging_echo: "obliging echo_usb devh"
proof -
  have "\<exists>c w'. uvc_query_stream_ctrl echo_usb devh ctrl probe req (s, d) = Some (0, c, w')"
    for ctrl probe req s d
  proof -
    define v where "v = ci_bcdUVC (ctrl_if (dh_info devh))"
    define buf where "buf = (if req = UVC_SET_CUR then encode_ctrl (ctrl_len v) ctrl else replicate 48 0)"
    have l: "length buf = 48" by (simp add: buf_def)
    have "0 < ctrl_len v" using ctrl_len_cases [of v] by auto
    moreover define xs where "xs = s (push_bit 8 (if probe then UVC_VS_PROBE_CONTROL
        else UVC_VS_COMMIT_CONTROL), ucast (sc_bInterfaceNumber ctrl))"
    moreover obtain c where "decode_ctrl (ctrl_len v)
        (take (ctrl_len v) (xs @ replicate (ctrl_len v) 0) @ drop (ctrl_len v) buf) ctrl = Some c"
    proof -
      have "length (take (ctrl_len v) (xs @ replicate (ctrl_len v) 0) @ drop (ctrl_len v) buf) = 48"
        using ctrl_len_le [of v] l by (simp add: min_def)
      from decode_ctrl_total [OF this] that show thesis by blast
    qed
    ultimately show ?thesis
      using echo_transfer [of "of_nat (ctrl_len v)" buf] ctrl_len_le [of v] l
      by (auto simp: uvc_query_stream_ctrl_def Let_def v_def [symmetric] buf_def [symmetric] simp del: take_append)
  qed
  then show ?thesis by (simp add: obliging_def split_paired_all)
qed

lemma demo_searchable:
  "\<forall>si \<in> set (stream_ifs (dh_info demo_devh)). \<forall>fm \<in> set (si_format_descs si).
     \<forall>frame \<in> set (fm_frame_descs fm). searchable frame"
  by (simp add: demo_devh_def demo_format_def demo_frame_def searchable_def)

lemma demo_offers: "offers UVC_FRAME_FORMAT_MJPEG 640 480 25 30 demo_format"
  unfolding offers_def
  by (intro conjI bexI [of _ demo_frame] exI [of _ 333333])
    (simp_all add: demo_format_def demo_frame_def frame_format_matches_guid.simps FMT_def has_size_def
      interval_fits_def word_less_eq_iff_unsigned)

lemma demo_offered:
  "\<exists>si \<in> set (stream_ifs (dh_info demo_devh)). \<exists>fm \<in> set (si_format_descs si).
     offers UVC_FRAME_FORMAT_MJPEG 640 480 25 30 fm"
  using demo_offers by (simp add: demo_devh_def)

lemma demo_negotiation:
  obtains c w' where "uvc_get_stream_ctrl_format_size_fps echo_usb demo_devh UVC_FRAME_FORMAT_MJPEG
    640 480 25 30 (\<lambda>_. [], False) = Some (UVC_SUCCESS, c, w')"
  using obliging_negotiation [OF obliging_echo demo_searchable, of 25 UVC_FRAME_FORMAT_MJPEG 640 480 30
      "(\<lambda>_. [], False)"] demo_offered by auto

section \<open>Properties\<close>

text \<open>
  C35. Over a device that keeps what it is sent, a control block set by a probe or a commit is
  read back by the same request: every field that the device's version of the class carries,
  the others as the caller had them, a zero frame size replaced as on every reading. The
  eight-byte field comes back only where bit 31 of it is clear, since reading it extends the
  sign of its low half.
\<close>
theorem stream_ctrl_roundtrip:
  assumes "control_store (libusb_control_transfer u)"
    and "uvc_query_stream_ctrl u devh c probe UVC_SET_CUR w = Some (UVC_SUCCESS, c', w')"
    and "sc_bInterfaceNumber c0 = sc_bInterfaceNumber c"
    and "ci_bcdUVC (ctrl_if (dh_info devh)) < 0x0150 \<or> \<not> bit (sc_bmLayoutPerStream c) 31"
  shows "\<exists>w''. uvc_query_stream_ctrl u devh c0 probe UVC_GET_CUR w' =
    Some (UVC_SUCCESS, fix_max_size devh (carried (ci_bcdUVC (ctrl_if (dh_info devh))) c c0), w'')"
proof -
  define v where "v = ci_bcdUVC (ctrl_if (dh_info devh))"
  let ?n = "of_nat (ctrl_len v) :: u16"
  let ?v = "push_bit 8 (if probe then UVC_VS_PROBE_CONTROL else UVC_VS_COMMIT_CONTROL) :: u16"
  let ?e = "encode_ctrl (ctrl_len v) c"
  have n: "unat ?n \<le> length ?e" "unat ?n \<le> length (replicate 48 (0 :: u8))"
    by (simp_all add: ctrl_len_le)
  from assms(2) obtain r d where x: "libusb_control_transfer u REQ_TYPE_SET UVC_SET_CUR ?v
      (ucast (sc_bInterfaceNumber c)) ?e ?n 0 w = Some (r, d, w')" and r: "0 < r"
    by (auto simp: uvc_query_stream_ctrl_def Let_def v_def ub_simps split: if_splits)
  from control_store.set_whole [OF assms(1) n(1) x] r have "r = int (unat ?n)" by simp
  from control_store.cur_kept [OF assms(1) n x [unfolded this]] obtain w'' where
    "libusb_control_transfer u REQ_TYPE_GET UVC_GET_CUR ?v (ucast (sc_bInterfaceNumber c))
      (replicate 48 0) ?n 0 w' = Some (int (ctrl_len v), ?e, w'')"
    using ctrl_len_le [of v] by (auto simp: encode_ctrl_padded)
  moreover have "0 < ctrl_len v" using ctrl_len_cases [of v] by auto
  moreover have "decode_ctrl (ctrl_len v) ?e c0 = Some (carried v c c0)"
    using assms(4) by (intro decode_encode_ctrl) (auto simp: v_def)
  ultimately show ?thesis
    by (simp add: uvc_query_stream_ctrl_def Let_def assms(3) v_def [symmetric])
qed

theorem stream_ctrl_roundtrip_witness:
  "\<exists>w' w''. uvc_query_stream_ctrl echo_usb demo_devh (zero_stream_ctrl\<lparr>sc_bMinVersion := 7, sc_bUsage := 5\<rparr>)
      True UVC_SET_CUR (\<lambda>_. [], False)
      = Some (UVC_SUCCESS, zero_stream_ctrl\<lparr>sc_bMinVersion := 7, sc_bUsage := 5\<rparr>, w')
    \<and> uvc_query_stream_ctrl echo_usb demo_devh zero_stream_ctrl True UVC_GET_CUR w'
      = Some (UVC_SUCCESS, zero_stream_ctrl\<lparr>sc_bMinVersion := 7\<rparr>, w'')"
proof -
  let ?c = "zero_stream_ctrl\<lparr>sc_bMinVersion := 7, sc_bUsage := 5\<rparr>"
  obtain c' w' where s: "uvc_query_stream_ctrl echo_usb demo_devh ?c True UVC_SET_CUR (\<lambda>_. [], False)
      = Some (UVC_SUCCESS, c', w')"
    using obliging_echo unfolding obliging_def by blast
  moreover from query_returns [OF echo.pipe.control_pipe_axioms, of demo_devh ?c True UVC_SET_CUR] s
  have "c' = ?c" by (metis option.inject prod.inject)
  moreover have "fix_max_size demo_devh (carried 0x0110 ?c zero_stream_ctrl)
      = zero_stream_ctrl\<lparr>sc_bMinVersion := 7\<rparr>"
    by (simp add: carried_def fix_max_size_def uvc_find_frame_desc_def demo_devh_def demo_format_def
      find_frame_desc_stream_if_def zero_stream_if_def zero_stream_ctrl_def word_le_nat_alt)
  ultimately show ?thesis
    using stream_ctrl_roundtrip [OF echo_store.control_store_axioms s, of zero_stream_ctrl]
    by (auto simp: demo_devh_def zero_stream_ctrl_def word_less_nat_alt)
qed

text \<open>
  C9. Whatever the device answers, a negotiation that succeeds has put to the device, in its
  final probe, an interval of a frame that the device describes: a frame of the requested
  width and height, of a format whose GUID matches the requested kind, on the interface that
  has that format, with an interval of the frame whose rate is within the bounds.
\<close>
theorem negotiation_sound:
  assumes "uvc_get_stream_ctrl_format_size_fps u devh cf width height min_fps max_fps w
      = Some (UVC_SUCCESS, ctrl', w')"
  shows "\<exists>si fm frame v ctrl w1.
    si \<in> set (stream_ifs (dh_info devh)) \<and> fm \<in> set (si_format_descs si)
    \<and> frame_format_matches_guid cf (fm_guidFormat fm) \<and> frame \<in> set (fm_frame_descs fm)
    \<and> has_size width height frame \<and> interval_fits frame min_fps max_fps v
    \<and> asks_for ctrl si fm frame v \<and> uvc_probe_stream_ctrl u devh ctrl w1 = Some (UVC_SUCCESS, ctrl', w')"
proof -
  from assms obtain ctrl w1 where
    s: "search_formats u devh (formats_of devh) zero_stream_ctrl cf width height min_fps max_fps w
      = Some (True, ctrl, w1)"
    and p: "uvc_probe_stream_ctrl u devh ctrl w1 = Some (UVC_SUCCESS, ctrl', w')"
    by (auto simp: uvc_get_stream_ctrl_format_size_fps_def ub_simps split: if_splits)
  from search_found [OF s] p show ?thesis unfolding set_formats_of by blast
qed

theorem negotiation_sound_witness:
  "\<exists>si \<in> set (stream_ifs (dh_info demo_devh)). \<exists>fm \<in> set (si_format_descs si).
    \<exists>frame \<in> set (fm_frame_descs fm). has_size 640 480 frame
      \<and> (\<exists>v ctrl. interval_fits frame 25 30 v \<and> asks_for ctrl si fm frame v)"
proof -
  obtain c w' where "uvc_get_stream_ctrl_format_size_fps echo_usb demo_devh UVC_FRAME_FORMAT_MJPEG
    640 480 25 30 (\<lambda>_. [], False) = Some (UVC_SUCCESS, c, w')" by (rule demo_negotiation)
  from negotiation_sound [OF this] show ?thesis by blast
qed

text \<open>
  C36. Over a device on which every claim and every query succeeds, and whose frames have a
  terminated list of intervals or a range with a step, the negotiation always returns: with
  success exactly when the device describes a frame of the requested size and kind with an
  interval of a rate within the bounds, and with \<open>UVC_ERROR_INVALID_MODE\<close> otherwise.
\<close>
theorem negotiation_complete:
  assumes "obliging u devh"
    and "\<forall>si \<in> set (stream_ifs (dh_info devh)). \<forall>fm \<in> set (si_format_descs si).
      \<forall>frame \<in> set (fm_frame_descs fm). searchable frame"
    and "- 2147483648 < min_fps"
  shows "\<exists>r c w'. uvc_get_stream_ctrl_format_size_fps u devh cf width height min_fps max_fps w = Some (r, c, w')
    \<and> r = (if \<exists>si \<in> set (stream_ifs (dh_info devh)). \<exists>fm \<in> set (si_format_descs si).
             offers cf width height min_fps max_fps fm
           then UVC_SUCCESS else UVC_ERROR_INVALID_MODE)"
  using assms by (rule obliging_negotiation)

theorem negotiation_complete_witness:
  "\<exists>c w'. uvc_get_stream_ctrl_format_size_fps echo_usb demo_devh UVC_FRAME_FORMAT_MJPEG 640 480 25 30
     (\<lambda>_. [], False) = Some (UVC_SUCCESS, c, w')"
proof -
  have "\<exists>si \<in> set (stream_ifs (dh_info demo_devh)). \<exists>fm \<in> set (si_format_descs si).
      offers UVC_FRAME_FORMAT_MJPEG 640 480 25 30 fm"
    using demo_offers by (simp add: demo_devh_def)
  with negotiation_complete [OF obliging_echo demo_searchable, of 25 UVC_FRAME_FORMAT_MJPEG 640 480 30
      "(\<lambda>_. [], False)"] show ?thesis by auto
qed

text \<open>
  A format on which the negotiation fails leaves its interface released: whatever the
  failing step was, the last thing done to the device is the release of the interface of
  that format (preceded by the reset of its altsetting where the handle asks for it).
\<close>
theorem failed_format_released:
  assumes "get_stream_ctrl_format u devh si ctrl fm width height min_fps max_fps w = Some (r, c, w')"
    and "r \<noteq> UVC_SUCCESS"
  shows "\<exists>w1. w' = snd (usb_release u (si_bInterfaceNumber si)
    (if dh_reset_on_release_if devh then snd (usb_set_alt u (si_bInterfaceNumber si) 0 w1) else w1))"
  using format_cases [OF assms(1)] assms(2) by (auto simp: uvc_release_if_def Let_def)

theorem failed_format_released_witness:
  "\<exists>r c w1. get_stream_ctrl_format echo_usb demo_devh zero_stream_if zero_stream_ctrl demo_format 1 1 0 99
     (\<lambda>_. [], False) = Some (r, c, snd (usb_release echo_usb 0 (snd (usb_set_alt echo_usb 0 0 w1))))"
proof -
  have "\<forall>frame \<in> set (fm_frame_descs demo_format). searchable frame"
    using demo_searchable by (simp add: demo_devh_def)
  from obliging_format [OF obliging_echo this, of 0 demo_devh zero_stream_if zero_stream_ctrl 1 1 99
      "(\<lambda>_. [], False)"]
  obtain r c w' where f: "get_stream_ctrl_format echo_usb demo_devh zero_stream_if zero_stream_ctrl
      demo_format 1 1 0 99 (\<lambda>_. [], False) = Some (r, c, w')" "r \<noteq> 0"
    by (auto simp: demo_format_def demo_frame_def has_size_def)
  from failed_format_released [OF this] f(1) show ?thesis
    by (auto simp: zero_stream_if_def demo_devh_def)
qed

text \<open>
  The hole in the search: a frame described by a range of intervals whose step is zero
  makes the remainder by the step undefined, as soon as the interval of the highest rate
  asked for lies inside the range but is not its least.
\<close>
theorem zero_step_undefined:
  assumes "obliging u devh" "fm_frame_descs fm = frame # frames" "has_size width height frame"
    and "fr_intervals frame = None" "fr_dwFrameIntervalStep frame = 0"
    and "min_fps \<le> max_fps" "max_fps \<noteq> 0"
    and "fr_dwMinFrameInterval frame < word_of_int (10000000 sdiv max_fps)"
    and "word_of_int (10000000 sdiv max_fps) \<le> fr_dwMaxFrameInterval frame"
  shows "get_stream_ctrl_format u devh si ctrl fm width height min_fps max_fps w = None"
proof -
  have "pick_ranged frame min_fps max_fps = None"
    using assms(5-9) by (subst pick_ranged.simps) (auto simp: Let_def)
  with assms(3,4) have p: "pick_frame (fm_frame_descs fm) width height min_fps max_fps = None"
    by (simp add: assms(2) has_size_def pick_interval_def)
  obtain w0 where 0: "usb_claim u (si_bInterfaceNumber si) w = (0, w0)"
    using assms(1) unfolding obliging_def by (metis prod.collapse)
  define c0 where "c0 = ctrl\<lparr>sc_bInterfaceNumber := si_bInterfaceNumber si\<rparr>"
  obtain c1 w1 where 1: "prepare_stream_ctrl u devh c0 w0 = Some (0, c1, w1)"
    using obliging_prepare [OF assms(1)] by blast
  obtain c2 w2 where 2: "prepare_stream_ctrl u devh c1 w1 = Some (0, c2, w2)"
    using obliging_prepare [OF assms(1)] by blast
  from 0 1 2 p show ?thesis
    by (simp add: get_stream_ctrl_format_def uvc_claim_if_def c0_def)
qed

theorem zero_step_undefined_witness:
  "get_stream_ctrl_format echo_usb demo_devh zero_stream_if zero_stream_ctrl
     (zero_format\<lparr>fm_frame_descs := [zero_frame\<lparr>fr_dwMinFrameInterval := 333333,
        fr_dwMaxFrameInterval := 2000000\<rparr>]\<rparr>) 0 0 5 20 (\<lambda>_. [], False) = None"
  by (rule zero_step_undefined [OF obliging_echo, where frames = "[]"
      and frame = "zero_frame\<lparr>fr_dwMinFrameInterval := 333333, fr_dwMaxFrameInterval := 2000000\<rparr>"])
    (simp_all add: zero_format_def zero_frame_def has_size_def signed_divide_int_def)

end
