(* ===== verification/Uvc_Payload.thy ===== *)
theory Uvc_Payload
  imports Uvc_Stream_Ctrl
begin

text \<open>
  The assembly of frames in \<^verbatim>\<open>libuvc/src/stream.c\<close>: the stream handle, the swap of
  the working buffer with the presented one, the payloads of bulk transfers and the packets
  of isochronous transfers. A payload is the list of the bytes received. Sums of
  \<^verbatim>\<open>size_t\<close> stay far below its range here (a buffer has 16 MB, a transfer less than
  2 GB), so they are natural numbers. The buffers are \<open>None\<close> for the null pointer.
\<close>

section \<open>The stream handle\<close>

record uvc_frame =
  uf_data :: "u8 list option"
  uf_data_bytes :: nat
  uf_actual_bytes :: nat
  uf_width :: u32
  uf_height :: u32
  uf_frame_format :: uvc_frame_format
  uf_step :: nat
  uf_sequence :: u32
  uf_library_owns_data :: bool

text \<open>
  The fields of \<^verbatim>\<open>struct uvc_stream_handle\<close>; of the user callback only whether it is
  set, of the transfers the ones that are not null.
\<close>

record stream_handle =
  st_stream_if :: streaming_interface
  st_running :: bool
  st_cur_ctrl :: stream_ctrl
  st_bfh_err :: u8
  st_hold_bfh_err :: u8
  st_fid :: u8
  st_seq :: u32
  st_hold_seq :: u32
  st_pts :: u32
  st_hold_pts :: u32
  st_last_scr :: u32
  st_hold_last_scr :: u32
  st_got_bytes :: nat
  st_hold_bytes :: nat
  st_size_buf :: nat
  st_outbuf :: "u8 list option"
  st_holdbuf :: "u8 list option"
  st_last_polled_seq :: u32
  st_user_cb :: bool
  st_transfers :: "nat option list"
  st_frame :: uvc_frame
  st_frame_format :: uvc_frame_format

abbreviation (input) "UVC_STREAM_ERR \<equiv> 0x40 :: u8"
abbreviation (input) "UVC_STREAM_SCR \<equiv> 0x08 :: u8"
abbreviation (input) "UVC_STREAM_PTS \<equiv> 0x04 :: u8"
abbreviation (input) "UVC_STREAM_EOF \<equiv> 0x02 :: u8"
abbreviation (input) "UVC_STREAM_FID \<equiv> 0x01 :: u8"

definition swap_buffers :: "stream_handle \<Rightarrow> stream_handle" where
  "swap_buffers s = s\<lparr>
     st_hold_bfh_err := st_bfh_err s, st_hold_bytes := st_got_bytes s,
     st_holdbuf := st_outbuf s, st_outbuf := st_holdbuf s,
     st_hold_last_scr := st_last_scr s, st_hold_pts := st_pts s, st_hold_seq := st_seq s,
     st_seq := st_seq s + 1, st_got_bytes := 0, st_last_scr := 0, st_pts := 0, st_bfh_err := 0\<rparr>"

text \<open>Publish what was collected when the frame ID flips, and keep the new ID.\<close>

definition toggle_fid :: "u8 \<Rightarrow> stream_handle \<Rightarrow> stream_handle" where
  "toggle_fid info s =
     (let s = (if st_fid s \<noteq> info AND UVC_STREAM_FID \<and> st_got_bytes s \<noteq> 0 then swap_buffers s else s)
      in s\<lparr>st_fid := info AND UVC_STREAM_FID\<rparr>)"

definition store_data :: "u8 list \<Rightarrow> stream_handle \<Rightarrow> stream_handle option" where
  "store_data d s =
     do { buf \<leftarrow> st_outbuf s;
          buf \<leftarrow> wr_bytes buf (st_got_bytes s) d;
          Some (s\<lparr>st_outbuf := Some buf, st_got_bytes := st_got_bytes s + length d\<rparr>) }"

definition stream_error :: "stream_handle \<Rightarrow> stream_handle" where
  "stream_error s = s\<lparr>st_bfh_err := st_bfh_err s OR UVC_STREAM_ERR\<rparr>"

text \<open>What the code does about a payload with the error bit.\<close>

definition report_error :: "'w usb \<Rightarrow> stream_handle \<Rightarrow> 'w \<Rightarrow> 'w option" where
  "report_error u s w =
     do { (_, _, w) \<leftarrow> uvc_vs_get_error_code (snd (usb_clear_halt u (si_bEndpointAddress (st_stream_if s)) w));
          Some w }"

definition isight_tag :: "u8 list" where
  "isight_tag = [0x11, 0x22, 0x33, 0x44, 0xde, 0xad, 0xbe, 0xef, 0xde, 0xad, 0xfa, 0xce]"

definition no_isight_tag :: "u8 list \<Rightarrow> nat \<Rightarrow> bool option" where
  "no_isight_tag p i = do { t \<leftarrow> rd_bytes p i 12; Some (t \<noteq> isight_tag) }"

section \<open>Bulk payloads\<close>

text \<open>
  Whether an iSight payload is all image data, and the lengths of header and data;
  \<open>Some None\<close> is the bogus packet.
\<close>

definition payload_is_image :: "bool \<Rightarrow> u8 list \<Rightarrow> bool option" where
  "payload_is_image is_isight p =
     (if \<not> is_isight then Some False
      else do {
        t2 \<leftarrow> (if length p < 14 then Some True else no_isight_tag p 2);
        if \<not> t2 then Some False
        else if length p < 15 then Some True else no_isight_tag p 3 })"

definition payload_lengths :: "bool \<Rightarrow> u8 list \<Rightarrow> (nat \<times> nat) option option" where
  "payload_lengths is_isight p =
     do { image \<leftarrow> payload_is_image is_isight p;
          if image then Some (Some (0, length p))
          else do {
            h \<leftarrow> rd p 0;
            if unat h > length p then Some None
            else Some (Some (unat h, if is_isight then 0 else length p - unat h)) } }"

text \<open>The time stamp and the clock, at a variable offset.\<close>

definition payload_pts :: "u8 \<Rightarrow> nat \<Rightarrow> u8 list \<Rightarrow> stream_handle \<Rightarrow> (nat \<times> stream_handle) option" where
  "payload_pts info header_len p s =
     (if info AND UVC_STREAM_PTS \<noteq> 0
      then if 2 + 4 \<le> header_len
           then do { v \<leftarrow> dw_at p 2; Some (6, s\<lparr>st_pts := v\<rparr>) }
           else Some (2, s\<lparr>st_pts := 0\<rparr>)
      else Some (2, s))"

definition payload_scr :: "u8 \<Rightarrow> nat \<Rightarrow> nat \<Rightarrow> u8 list \<Rightarrow> stream_handle \<Rightarrow> stream_handle option" where
  "payload_scr info header_len offset p s =
     (if info AND UVC_STREAM_SCR \<noteq> 0
      then if offset + 4 \<le> header_len
           then do { v \<leftarrow> dw_at p offset; Some (s\<lparr>st_last_scr := v\<rparr>) }
           else Some (s\<lparr>st_last_scr := 0\<rparr>)
      else Some s)"

definition payload_header ::
  "'w usb \<Rightarrow> nat \<Rightarrow> u8 list \<Rightarrow> stream_handle \<Rightarrow> 'w \<Rightarrow> (u8 \<times> stream_handle \<times> 'w) option" where
  "payload_header u header_len p s w =
     (if header_len < 2 then Some (0, s, w)
      else do {
        info \<leftarrow> rd p 1;
        w \<leftarrow> (if info AND UVC_STREAM_ERR \<noteq> 0 then report_error u s w else Some w);
        let s = toggle_fid info s;
        (offset, s) \<leftarrow> payload_pts info header_len p s;
        s \<leftarrow> payload_scr info header_len offset p s;
        Some (info, s, w) })"

definition process_payload ::
  "'w usb \<Rightarrow> device_handle \<Rightarrow> u8 list \<Rightarrow> stream_handle \<Rightarrow> 'w \<Rightarrow> (stream_handle \<times> 'w) option" where
  "process_payload u devh p s w =
     (if p = [] \<or> st_outbuf s = None then Some (s, w)
      else do {
        lens \<leftarrow> payload_lengths (dh_is_isight devh) p;
        (case lens of
           None \<Rightarrow> Some (stream_error s, w)
         | Some (header_len, data_len) \<Rightarrow> do {
             (info, s, w) \<leftarrow> payload_header u header_len p s w;
             if data_len > 0
             then do {
               s \<leftarrow> (if st_got_bytes s + data_len < st_size_buf s
                     then do { d \<leftarrow> rd_bytes p header_len data_len; store_data d s }
                     else Some (stream_error s));
               Some (if info AND UVC_STREAM_EOF \<noteq> 0 then swap_buffers s else s, w) }
             else Some (s, w) }) })"

section \<open>Isochronous packets\<close>

record iso_packet =
  pk_length :: u32
  pk_actual_length :: u32
  pk_status :: transfer_status

text \<open>
  The buffer of packet \<open>k\<close> starts at this offset of the transfer's buffer; the length is
  that of the first packet. The packet exists, so the pointer is never null.
\<close>

definition libusb_get_iso_packet_buffer_simple :: "iso_packet list \<Rightarrow> nat \<Rightarrow> nat" where
  "libusb_get_iso_packet_buffer_simple pkts k = unat (pk_length (pkts ! 0)) * k"

text \<open>The header length, and whether the packet has a header to be checked.\<close>

definition iso_is_image :: "bool \<Rightarrow> u8 list \<Rightarrow> nat \<Rightarrow> nat \<Rightarrow> bool option" where
  "iso_is_image is_isight buf off actual_length =
     (if \<not> is_isight then Some False
      else if actual_length < 30 then Some True
      else do { t2 \<leftarrow> no_isight_tag buf (off + 2);
                if \<not> t2 then Some False else no_isight_tag buf (off + 3) })"

definition iso_header :: "bool \<Rightarrow> u8 list \<Rightarrow> nat \<Rightarrow> nat \<Rightarrow> (nat \<times> bool) option" where
  "iso_header is_isight buf off actual_length =
     do { image \<leftarrow> iso_is_image is_isight buf off actual_length;
          if image then Some (0, False) else do { h \<leftarrow> rd buf off; Some (unat h, True) } }"

definition iso_times :: "u8 \<Rightarrow> nat \<Rightarrow> u8 list \<Rightarrow> nat \<Rightarrow> stream_handle \<Rightarrow> stream_handle option" where
  "iso_times info header_len buf off s =
     do { s \<leftarrow> (if info AND UVC_STREAM_PTS \<noteq> 0
                then if header_len \<ge> 6 then do { v \<leftarrow> dw_at buf (off + 2); Some (s\<lparr>st_pts := v\<rparr>) }
                     else Some (s\<lparr>st_pts := 0\<rparr>)
                else Some s);
          if info AND UVC_STREAM_SCR \<noteq> 0
          then if header_len \<ge> 10 then do { v \<leftarrow> dw_at buf (off + 6); Some (s\<lparr>st_last_scr := v\<rparr>) }
               else Some (s\<lparr>st_last_scr := 0\<rparr>)
          else Some s }"

text \<open>
  The part after the header: the asserted copy of the data and the end-of-frame flag. A
  failing \<^verbatim>\<open>assert\<close> ends the program.
\<close>

definition iso_data :: "u8 list \<Rightarrow> nat \<Rightarrow> nat \<Rightarrow> nat \<Rightarrow> stream_handle \<Rightarrow> stream_handle option" where
  "iso_data buf off actual_length header_len s =
     (if actual_length < header_len then Some (stream_error s)
      else do {
        s \<leftarrow> (if actual_length > header_len
              then let odd_bytes = actual_length - header_len
                   in if st_got_bytes s + odd_bytes < st_size_buf s
                      then do { d \<leftarrow> rd_bytes buf (off + header_len) odd_bytes; store_data d s }
                      else None
              else Some s);
        flags \<leftarrow> rd buf (off + 1);
        Some (if flags AND UVC_STREAM_EOF \<noteq> 0 \<and> st_got_bytes s \<noteq> 0 then swap_buffers s else s) })"

definition process_iso_packet ::
  "'w usb \<Rightarrow> device_handle \<Rightarrow> u8 list \<Rightarrow> nat \<Rightarrow> iso_packet \<Rightarrow> stream_handle \<Rightarrow> 'w
     \<Rightarrow> (stream_handle \<times> 'w) option" where
  "process_iso_packet u devh buf off pkt s w =
     (let actual_length = unat (pk_actual_length pkt)
      in if pk_status pkt \<noteq> TRANSFER_COMPLETED
      then Some (stream_error s, snd (usb_clear_halt u (si_bEndpointAddress (st_stream_if s)) w))
      else if actual_length = 0 then Some (s, w)
      else do {
        (header_len, check_header) \<leftarrow> iso_header (dh_is_isight devh) buf off actual_length;
        if check_header
        then do {
          info \<leftarrow> rd buf (off + 1);
          if info AND UVC_STREAM_ERR \<noteq> 0 then do { w \<leftarrow> report_error u s w; Some (s, w) }
          else do {
            s \<leftarrow> iso_times info header_len buf off (toggle_fid info s);
            if dh_is_isight devh then Some (s, w)
            else do { s \<leftarrow> iso_data buf off actual_length header_len s; Some (s, w) } } }
        else do { s \<leftarrow> iso_data buf off actual_length header_len s; Some (s, w) } })"

fun process_iso_from ::
  "'w usb \<Rightarrow> device_handle \<Rightarrow> u8 list \<Rightarrow> (nat \<times> iso_packet) list \<Rightarrow> stream_handle \<Rightarrow> 'w
     \<Rightarrow> (stream_handle \<times> 'w) option" where
  "process_iso_from u devh buf [] s w = Some (s, w)"
| "process_iso_from u devh buf ((off, pkt) # pkts) s w =
     do { (s, w) \<leftarrow> process_iso_packet u devh buf off pkt s w;
          process_iso_from u devh buf pkts s w }"

definition process_payload_iso ::
  "'w usb \<Rightarrow> device_handle \<Rightarrow> u8 list \<Rightarrow> iso_packet list \<Rightarrow> stream_handle \<Rightarrow> 'w
     \<Rightarrow> (stream_handle \<times> 'w) option" where
  "process_payload_iso u devh buf pkts s w =
     process_iso_from u devh buf
       (map (\<lambda>i. (libusb_get_iso_packet_buffer_simple pkts i, pkts ! i)) [0..<length pkts]) s w"

section \<open>The buffers stay within their bounds\<close>

text \<open>Both buffers are allocated with the size the handle states, and are not overfull.\<close>

definition stream_inv :: "stream_handle \<Rightarrow> bool" where
  "stream_inv s \<longleftrightarrow>
     map_option length (st_outbuf s) = Some (st_size_buf s)
     \<and> map_option length (st_holdbuf s) = Some (st_size_buf s)
     \<and> st_got_bytes s \<le> st_size_buf s \<and> st_hold_bytes s \<le> st_size_buf s"

lemma stream_inv_swap [simp]: "stream_inv s \<Longrightarrow> stream_inv (swap_buffers s)"
  by (simp add: stream_inv_def swap_buffers_def)

lemma stream_inv_toggle [simp]: "stream_inv s \<Longrightarrow> stream_inv (toggle_fid info s)"
  by (simp add: toggle_fid_def Let_def) (simp add: stream_inv_def swap_buffers_def)

lemma stream_inv_error [simp]: "stream_inv (stream_error s) = stream_inv s"
  by (simp add: stream_inv_def stream_error_def)

lemma stream_inv_times [simp]:
  "stream_inv (s\<lparr>st_pts := v\<rparr>) = stream_inv s" "stream_inv (s\<lparr>st_last_scr := v\<rparr>) = stream_inv s"
  by (simp_all add: stream_inv_def)

lemma store_data_total:
  assumes "stream_inv s" "st_got_bytes s + length d \<le> st_size_buf s"
  shows "\<exists>s'. store_data d s = Some s' \<and> stream_inv s' \<and> st_got_bytes s' = st_got_bytes s + length d
    \<and> st_size_buf s' = st_size_buf s"
  using assms by (auto simp: store_data_def wr_bytes_def stream_inv_def)

lemma report_error_total: "\<exists>w'. report_error u s w = Some w'"
  by (simp add: report_error_def uvc_vs_get_error_code_def)

lemma no_isight_tag_total: "i + 12 \<le> length p \<Longrightarrow> \<exists>t. no_isight_tag p i = Some t"
  by (simp add: no_isight_tag_def)

lemma payload_is_image_total: "\<exists>t. payload_is_image isight p = Some t"
  using no_isight_tag_total [of 2 p] no_isight_tag_total [of 3 p]
  by (cases "14 \<le> length p"; cases "15 \<le> length p") (auto simp: payload_is_image_def)

lemma payload_lengths_total:
  assumes "p \<noteq> []"
  obtains "payload_lengths isight p = Some None"
  | h n where "payload_lengths isight p = Some (Some (h, n))" "h \<le> length p" "n \<le> length p - h"
proof -
  from payload_is_image_total [of isight p] obtain t where "payload_is_image isight p = Some t" by blast
  with assms that show thesis by (cases t; cases "unat (p ! 0) \<le> length p") (simp_all add: payload_lengths_def)
qed

lemma payload_pts_total:
  assumes "h \<le> length p" "stream_inv s"
  shows "\<exists>off s'. payload_pts info h p s = Some (off, s') \<and> stream_inv s' \<and> st_size_buf s' = st_size_buf s
    \<and> st_got_bytes s' = st_got_bytes s"
  using assms by (simp add: payload_pts_def)

lemma payload_scr_total:
  assumes "h \<le> length p" "stream_inv s"
  shows "\<exists>s'. payload_scr info h off p s = Some s' \<and> stream_inv s' \<and> st_size_buf s' = st_size_buf s
    \<and> st_got_bytes s' = st_got_bytes s"
  using assms by (simp add: payload_scr_def)

lemma payload_header_total:
  assumes "h \<le> length p" "stream_inv s"
  shows "\<exists>info s' w'. payload_header u h p s w = Some (info, s', w') \<and> stream_inv s'"
proof (cases "h < 2")
  case True
  then show ?thesis using assms(2) by (simp add: payload_header_def)
next
  case False
  define info where "info = p ! 1"
  have 1: "stream_inv (toggle_fid info s)" using assms(2) by simp
  obtain w' where w: "(if info AND UVC_STREAM_ERR \<noteq> 0 then report_error u s w else Some w) = Some w'"
    using report_error_total [of u s w] by (cases "info AND UVC_STREAM_ERR \<noteq> 0") auto
  obtain off s2 where 2: "payload_pts info h p (toggle_fid info s) = Some (off, s2)" "stream_inv s2"
    using payload_pts_total [OF assms(1) 1] by blast
  obtain s3 where 3: "payload_scr info h off p s2 = Some s3" "stream_inv s3"
    using payload_scr_total [OF assms(1) 2(2)] by blast
  have "payload_header u h p s w = Some (info, s3, w')"
  proof -
    have "rd p 1 = Some info" using False assms(1) by (simp add: info_def)
    with False w 2(1) 3(1) show ?thesis by (simp add: payload_header_def del: rd_in)
  qed
  with 3 show ?thesis by blast
qed

lemma process_payload_runs:
  assumes "stream_inv s"
  shows "\<exists>s' w'. process_payload u devh p s w = Some (s', w') \<and> stream_inv s'"
proof (cases "p = []")
  case True
  then show ?thesis using assms by (simp add: process_payload_def)
next
  case False
  have o: "st_outbuf s \<noteq> None" using assms by (auto simp: stream_inv_def)
  from False show ?thesis
  proof (cases rule: payload_lengths_total [where isight = "dh_is_isight devh"])
    case 1
    then show ?thesis using False assms by (simp add: process_payload_def)
  next
    case (2 h n)
    obtain info s1 w1 where h: "payload_header u h p s w = Some (info, s1, w1)" "stream_inv s1"
      using payload_header_total [OF 2(2) assms, of u w] by blast
    have t: "h + n \<le> length p" using 2(2,3) by simp
    show ?thesis
    proof (cases "0 < n \<and> st_got_bytes s1 + n < st_size_buf s1")
      case True
      then obtain s2 where "store_data (take n (drop h p)) s1 = Some s2" "stream_inv s2"
        using store_data_total [OF h(2), of "take n (drop h p)"] t by auto
      with True False o 2(1) h t show ?thesis by (auto simp: process_payload_def)
    next
      case n: False
      with False o 2(1) h show ?thesis by (auto simp: process_payload_def)
    qed
  qed
qed

section \<open>The assembly of a frame\<close>

text \<open>The image data of a payload with a header, and what a handle has collected.\<close>

definition image_data :: "u8 list \<Rightarrow> u8 list" where
  "image_data p = drop (unat (p ! 0)) p"

definition collected :: "stream_handle \<Rightarrow> u8 list" where
  "collected s = take (st_got_bytes s) (the (st_outbuf s))"

definition held :: "stream_handle \<Rightarrow> u8 list" where
  "held s = take (st_hold_bytes s) (the (st_holdbuf s))"

text \<open>A payload of a frame with the given frame ID: a header of at least two bytes, and data.\<close>

definition frame_payload :: "u8 \<Rightarrow> bool \<Rightarrow> u8 list \<Rightarrow> bool" where
  "frame_payload fid eof p \<longleftrightarrow> 2 \<le> unat (p ! 0) \<and> unat (p ! 0) < length p
     \<and> p ! 1 AND UVC_STREAM_FID = fid \<and> (p ! 1 AND UVC_STREAM_EOF \<noteq> 0 \<longleftrightarrow> eof)"

text \<open>The bookkeeping that a header leaves alone.\<close>

definition same_frame :: "stream_handle \<Rightarrow> stream_handle \<Rightarrow> bool" where
  "same_frame s s' \<longleftrightarrow> st_seq s' = st_seq s \<and> st_bfh_err s' = st_bfh_err s
     \<and> st_hold_seq s' = st_hold_seq s \<and> st_hold_bfh_err s' = st_hold_bfh_err s
     \<and> st_size_buf s' = st_size_buf s \<and> held s' = held s"

lemma same_frame_refl [simp]: "same_frame s s"
  by (simp add: same_frame_def)

lemma same_frame_trans: "same_frame s t \<Longrightarrow> same_frame t v \<Longrightarrow> same_frame s v"
  by (simp add: same_frame_def)

lemma toggle_same_fid:
  assumes "st_fid s = info AND UVC_STREAM_FID \<or> st_got_bytes s = 0"
  shows "toggle_fid info s = s\<lparr>st_fid := info AND UVC_STREAM_FID\<rparr>"
  using assms by (auto simp: toggle_fid_def)

lemma header_keeps:
  assumes "2 \<le> h" "h \<le> length p" "st_fid s = p ! 1 AND UVC_STREAM_FID \<or> st_got_bytes s = 0"
  shows "\<exists>x y w'. payload_header u h p s w =
    Some (p ! 1, s\<lparr>st_fid := p ! 1 AND UVC_STREAM_FID, st_pts := x, st_last_scr := y\<rparr>, w')"
proof -
  define info where "info = p ! 1"
  define s1 where "s1 = s\<lparr>st_fid := info AND UVC_STREAM_FID\<rparr>"
  have r: "rd p 1 = Some info" using assms(1,2) by (simp add: info_def)
  obtain w' where w: "(if info AND UVC_STREAM_ERR \<noteq> 0 then report_error u s w else Some w) = Some w'"
    using report_error_total [of u s w] by (cases "info AND UVC_STREAM_ERR \<noteq> 0") auto
  have t: "toggle_fid info s = s1" using toggle_same_fid assms(3) by (simp add: s1_def info_def)
  have "\<exists>off x. payload_pts info h p s1 = Some (off, s1\<lparr>st_pts := x\<rparr>)"
    using assms(2) by (auto simp: payload_pts_def intro: exI [of _ "st_pts s1"])
  then obtain off x where 2: "payload_pts info h p s1 = Some (off, s1\<lparr>st_pts := x\<rparr>)" by blast
  have "\<exists>y. payload_scr info h off p (s1\<lparr>st_pts := x\<rparr>) = Some (s1\<lparr>st_pts := x, st_last_scr := y\<rparr>)"
    using assms(2) by (auto simp: payload_scr_def intro: exI [of _ "st_last_scr s1"])
  then obtain y where 3: "payload_scr info h off p (s1\<lparr>st_pts := x\<rparr>)
      = Some (s1\<lparr>st_pts := x, st_last_scr := y\<rparr>)" by blast
  have "payload_header u h p s w = Some (info, s1\<lparr>st_pts := x, st_last_scr := y\<rparr>, w')"
    using assms(1) r w t 2 3 by (simp add: payload_header_def del: rd_in)
  then show ?thesis by (auto simp: s1_def info_def)
qed

lemma collect_data:
  assumes "stream_inv s" "st_got_bytes s + length d < st_size_buf s"
  obtains s' where "store_data d s = Some s'" "stream_inv s'" "collected s' = collected s @ d"
    "same_frame s s'" "st_got_bytes s' = st_got_bytes s + length d" "st_fid s' = st_fid s"
proof -
  obtain b where b: "st_outbuf s = Some b" "length b = st_size_buf s" using assms(1) by (auto simp: stream_inv_def)
  define s' where "s' = s\<lparr>st_outbuf := Some (take (st_got_bytes s) b @ d @ drop (st_got_bytes s + length d) b),
    st_got_bytes := st_got_bytes s + length d\<rparr>"
  have "store_data d s = Some s'" using b assms(2) by (simp add: store_data_def wr_bytes_def s'_def)
  moreover have "stream_inv s'" using b assms by (simp add: stream_inv_def s'_def)
  moreover have "collected s' = collected s @ d" using b assms by (simp add: collected_def s'_def)
  moreover have "same_frame s s'" by (simp add: same_frame_def s'_def held_def)
  ultimately show thesis using that by (simp add: s'_def)
qed

text \<open>One payload of a frame: its data is appended, and published when it ends the frame.\<close>

lemma frame_payload_step:
  assumes "stream_inv s" "\<not> dh_is_isight devh" "frame_payload fid eof p"
    and "st_fid s = fid \<or> st_got_bytes s = 0"
    and "st_got_bytes s + length (image_data p) < st_size_buf s"
  obtains s' w' where "process_payload u devh p s w = Some (if eof then swap_buffers s' else s', w')"
    "stream_inv s'" "collected s' = collected s @ image_data p" "same_frame s s'" "st_fid s' = fid"
    "st_got_bytes s' = st_got_bytes s + length (image_data p)"
proof -
  define h where "h = unat (p ! 0)"
  have h: "2 \<le> h" "h < length p" using assms(3) by (simp_all add: frame_payload_def h_def)
  have f: "p ! 1 AND UVC_STREAM_FID = fid" "(p ! 1 AND UVC_STREAM_EOF \<noteq> 0) = eof"
    using assms(3) by (simp_all add: frame_payload_def)
  then obtain x y w' where hd: "payload_header u h p s w =
      Some (p ! 1, s\<lparr>st_fid := fid, st_pts := x, st_last_scr := y\<rparr>, w')"
    using header_keeps [of h p s u w] h assms(4) by auto
  define s1 where "s1 = s\<lparr>st_fid := fid, st_pts := x, st_last_scr := y\<rparr>"
  have 1: "stream_inv s1" "collected s1 = collected s" "same_frame s s1" "st_fid s1 = fid"
    "st_got_bytes s1 = st_got_bytes s" "st_size_buf s1 = st_size_buf s"
    using assms(1) by (simp_all add: s1_def stream_inv_def collected_def same_frame_def held_def)
  from assms(5) 1(5,6) have "st_got_bytes s1 + length (image_data p) < st_size_buf s1" by simp
  from collect_data [OF 1(1) this] obtain s2 where
    2: "store_data (image_data p) s1 = Some s2" "stream_inv s2" "collected s2 = collected s1 @ image_data p"
      "same_frame s1 s2" "st_got_bytes s2 = st_got_bytes s1 + length (image_data p)" "st_fid s2 = st_fid s1"
    by blast
  have "p \<noteq> []" using h by auto
  then obtain b where o: "st_outbuf s = Some b" "p \<noteq> []" using assms(1) by (auto simp: stream_inv_def)
  have k: "take (length p - h) (image_data p) = image_data p" by (simp add: image_data_def h_def)
  have l: "payload_lengths (dh_is_isight devh) p = Some (Some (h, length p - h))"
    using assms(2) h o(2) by (simp add: payload_lengths_def payload_is_image_def h_def)
  have d: "rd_bytes p h (length p - h) = Some (image_data p)"
    using h by (simp add: image_data_def h_def)
  have g: "st_got_bytes s1 + (length p - h) < st_size_buf s1"
    using assms(5) 1(5,6) by (simp add: image_data_def h_def)
  have "process_payload u devh p s w = Some (if eof then swap_buffers s2 else s2, w')"
    using o l hd d g 2(1) h f(2) k by (simp add: process_payload_def s1_def [symmetric])
  moreover note 2(2)
  moreover have "collected s2 = collected s @ image_data p" using 1(2) 2(3) by simp
  moreover note same_frame_trans [OF 1(3) 2(4)]
  moreover have "st_fid s2 = fid" "st_got_bytes s2 = st_got_bytes s + length (image_data p)"
    using 1(4,5) 2(5,6) by simp_all
  ultimately show thesis by (rule that)
qed

fun run_payloads ::
  "'w usb \<Rightarrow> device_handle \<Rightarrow> u8 list list \<Rightarrow> stream_handle \<Rightarrow> 'w \<Rightarrow> (stream_handle \<times> 'w) option" where
  "run_payloads u devh [] s w = Some (s, w)"
| "run_payloads u devh (p # ps) s w =
     do { (s, w) \<leftarrow> process_payload u devh p s w; run_payloads u devh ps s w }"

lemma frame_payloads_run:
  assumes "stream_inv s" "\<not> dh_is_isight devh" "\<forall>p \<in> set ps. frame_payload fid False p"
    and "st_fid s = fid \<or> st_got_bytes s = 0"
    and "st_got_bytes s + length (concat (map image_data ps)) < st_size_buf s"
  obtains s' w' where "run_payloads u devh ps s w = Some (s', w')"
    "stream_inv s'" "collected s' = collected s @ concat (map image_data ps)" "same_frame s s'"
    "st_fid s' = fid \<or> st_got_bytes s' = 0"
    "st_got_bytes s' = st_got_bytes s + length (concat (map image_data ps))"
proof -
  have "\<exists>s' w'. run_payloads u devh ps s w = Some (s', w') \<and> stream_inv s'
    \<and> collected s' = collected s @ concat (map image_data ps) \<and> same_frame s s'
    \<and> (st_fid s' = fid \<or> st_got_bytes s' = 0)
    \<and> st_got_bytes s' = st_got_bytes s + length (concat (map image_data ps))"
    using assms
  proof (induction ps arbitrary: s w)
    case Nil
    then show ?case by simp
  next
    case (Cons p ps)
    from Cons.prems have p: "frame_payload fid False p"
      "st_got_bytes s + length (image_data p) < st_size_buf s" by simp_all
    obtain s1 w1 where 1: "process_payload u devh p s w = Some (s1, w1)" "stream_inv s1"
      "collected s1 = collected s @ image_data p" "same_frame s s1" "st_fid s1 = fid"
      "st_got_bytes s1 = st_got_bytes s + length (image_data p)"
      by (rule frame_payload_step [OF Cons.prems(1,2) p(1) Cons.prems(4) p(2), of u w]) simp
    have "st_got_bytes s1 + length (concat (map image_data ps)) < st_size_buf s1"
      using 1(4,6) Cons.prems(5) by (simp add: same_frame_def)
    from Cons.IH [OF 1(2) Cons.prems(2) _ _ this, of w1] Cons.prems(3) 1
    obtain s2 w2 where "run_payloads u devh ps s1 w1 = Some (s2, w2)" "stream_inv s2"
      "collected s2 = collected s1 @ concat (map image_data ps)" "same_frame s1 s2"
      "st_fid s2 = fid \<or> st_got_bytes s2 = 0"
      "st_got_bytes s2 = st_got_bytes s1 + length (concat (map image_data ps))" by auto
    with 1 same_frame_trans [of s s1 s2] show ?case by simp
  qed
  with that show thesis by blast
qed

lemma swap_published:
  assumes "stream_inv s"
  shows "held (swap_buffers s) = collected s" "st_hold_bytes (swap_buffers s) = st_got_bytes s"
    "st_hold_seq (swap_buffers s) = st_seq s" "st_seq (swap_buffers s) = st_seq s + 1"
    "st_hold_bfh_err (swap_buffers s) = st_bfh_err s" "st_bfh_err (swap_buffers s) = 0"
    "st_got_bytes (swap_buffers s) = 0" "st_fid (swap_buffers s) = st_fid s"
  by (simp_all add: swap_buffers_def held_def collected_def)

lemma run_payloads_append:
  "run_payloads u devh (ps @ qs) s w =
     do { (s, w) \<leftarrow> run_payloads u devh ps s w; run_payloads u devh qs s w }"
  by (induction ps arbitrary: s w) (simp_all add: bind_assoc split_beta split: Option.bind_split)

text \<open>A payload of the next frame first publishes what was collected.\<close>

lemma flipped_payload:
  assumes "stream_inv s" "\<not> dh_is_isight devh" "frame_payload fid eof p"
    and "st_fid s \<noteq> fid" "st_got_bytes s \<noteq> 0"
  shows "process_payload u devh p s w = process_payload u devh p (swap_buffers s) w"
proof -
  define h where "h = unat (p ! 0)"
  have h: "2 \<le> h" "h < length p" using assms(3) by (simp_all add: frame_payload_def h_def)
  from h have "p \<noteq> []" by auto
  then have h0: "rd p 0 = Some (p ! 0)" "p \<noteq> []" by simp_all
  have f: "p ! 1 AND UVC_STREAM_FID = fid" using assms(3) by (simp add: frame_payload_def)
  have l: "payload_lengths (dh_is_isight devh) p = Some (Some (h, length p - h))"
    using assms(2) h h0 by (simp add: payload_lengths_def payload_is_image_def h_def)
  have t: "toggle_fid (p ! 1) s = toggle_fid (p ! 1) (swap_buffers s)"
    using assms(4,5) f by (auto simp: toggle_fid_def swap_buffers_def)
  have e: "report_error u (swap_buffers s) w = report_error u s w"
    by (simp add: report_error_def swap_buffers_def)
  have "payload_header u h p (swap_buffers s) w = payload_header u h p s w"
    using h(1,2) t e by (simp add: payload_header_def)
  moreover obtain b b' where "st_outbuf s = Some b" "st_outbuf (swap_buffers s) = Some b'"
    using assms(1) by (auto simp: stream_inv_def swap_buffers_def)
  ultimately show ?thesis using l h0(2) by (simp add: process_payload_def)
qed

section \<open>Isochronous packets stay inside the transfer\<close>

lemma iso_header_total:
  assumes "off + actual \<le> length buf" "0 < actual"
  shows "\<exists>h c. iso_header isight buf off actual = Some (h, c)"
proof -
  have "\<exists>t. iso_is_image isight buf off actual = Some t"
    using no_isight_tag_total [of "off + 2" buf] no_isight_tag_total [of "off + 3" buf] assms(1)
    by (cases "actual < 30") (auto simp: iso_is_image_def)
  then obtain t where "iso_is_image isight buf off actual = Some t" by blast
  then show ?thesis using assms by (cases t) (auto simp: iso_header_def)
qed

lemma iso_times_total:
  assumes "off + 10 \<le> length buf" "stream_inv s"
  shows "\<exists>s'. iso_times info h buf off s = Some s' \<and> stream_inv s' \<and> st_size_buf s' = st_size_buf s
    \<and> st_got_bytes s' = st_got_bytes s"
  using assms by (simp add: iso_times_def)

lemma iso_data_total:
  assumes "off + actual \<le> length buf" "off + 2 \<le> length buf" "stream_inv s"
    and "st_got_bytes s + actual < st_size_buf s"
  shows "\<exists>s'. iso_data buf off actual h s = Some s' \<and> stream_inv s' \<and> st_size_buf s' = st_size_buf s
    \<and> st_got_bytes s' \<le> st_got_bytes s + actual"
proof (cases "actual \<le> h")
  case True
  then show ?thesis using assms by (auto simp: iso_data_def stream_error_def) (auto simp: swap_buffers_def stream_inv_def)
next
  case False
  then have d: "rd_bytes buf (off + h) (actual - h) = Some (take (actual - h) (drop (off + h) buf))"
    using assms(1) by simp
  have "length (take (actual - h) (drop (off + h) buf)) = actual - h" using False assms(1) by simp
  then obtain s1 where 1: "store_data (take (actual - h) (drop (off + h) buf)) s = Some s1" "stream_inv s1"
    "st_got_bytes s1 = st_got_bytes s + (actual - h)" "st_size_buf s1 = st_size_buf s"
    using store_data_total [OF assms(3), of "take (actual - h) (drop (off + h) buf)"] assms(4)
    by (metis diff_le_self add_le_mono1 add.commute order.strict_implies_order order_trans)
  have g: "st_got_bytes s + (actual - h) < st_size_buf s" using assms(4) by simp
  have "iso_data buf off actual h s = Some (if buf ! (off + 1) AND UVC_STREAM_EOF \<noteq> 0 \<and> st_got_bytes s1 \<noteq> 0
      then swap_buffers s1 else s1)"
    using False d 1(1) g assms(2) by (simp add: iso_data_def)
  then show ?thesis using 1 by (auto simp: swap_buffers_def stream_inv_def)
qed

lemma toggle_got: "st_got_bytes (toggle_fid info s) \<le> st_got_bytes s" "st_size_buf (toggle_fid info s) = st_size_buf s"
  by (simp_all add: toggle_fid_def swap_buffers_def)

lemma process_iso_packet_runs:
  assumes "stream_inv s" "off + unat (pk_actual_length pkt) \<le> length buf" "off + 10 \<le> length buf"
    and "st_got_bytes s + unat (pk_actual_length pkt) < st_size_buf s"
  shows "\<exists>s' w'. process_iso_packet u devh buf off pkt s w = Some (s', w') \<and> stream_inv s'
    \<and> st_size_buf s' = st_size_buf s
    \<and> st_got_bytes s' \<le> st_got_bytes s + unat (pk_actual_length pkt)"
proof (cases "pk_status pkt \<noteq> TRANSFER_COMPLETED \<or> unat (pk_actual_length pkt) = 0")
  case True
  then show ?thesis using assms(1) by (auto simp: process_iso_packet_def stream_error_def stream_inv_def)
next
  case False
  let ?a = "unat (pk_actual_length pkt)"
  have a: "0 < ?a" using False by simp
  obtain h c where h: "iso_header (dh_is_isight devh) buf off ?a = Some (h, c)"
    using iso_header_total [OF assms(2) a] by blast
  define info where "info = buf ! (off + 1)"
  have r: "rd buf (off + 1) = Some info" using assms(3) by (simp add: info_def)
  obtain w' where w: "report_error u s w = Some w'" using report_error_total [of u s w] by blast
  have "stream_inv (toggle_fid info s)" using assms(1) by simp
  from iso_times_total [OF assms(3) this, of info h] obtain s1 where
    1: "iso_times info h buf off (toggle_fid info s) = Some s1" "stream_inv s1"
    "st_size_buf s1 = st_size_buf s" "st_got_bytes s1 \<le> st_got_bytes s"
    using toggle_got by (metis)
  have o: "off + 2 \<le> length buf" using assms(3) by simp
  obtain s2 where 2: "iso_data buf off ?a h s1 = Some s2" "stream_inv s2" "st_size_buf s2 = st_size_buf s"
    "st_got_bytes s2 \<le> st_got_bytes s + ?a"
    using iso_data_total [OF assms(2) o 1(2), of h] 1(3,4) assms(4) by fastforce
  obtain s3 where 3: "iso_data buf off ?a h s = Some s3" "stream_inv s3" "st_size_buf s3 = st_size_buf s"
    "st_got_bytes s3 \<le> st_got_bytes s + ?a"
    using iso_data_total [OF assms(2) o assms(1,4), of h] by blast
  show ?thesis
  proof (cases c)
    case True
    with False h r w 1 2 assms(1) show ?thesis
      by (cases "info AND UVC_STREAM_ERR = 0"; cases "dh_is_isight devh")
        (auto simp: process_iso_packet_def simp del: rd_in)
  next
    case c: False
    with False h 3 show ?thesis by (auto simp: process_iso_packet_def)
  qed
qed

lemma assembled_frame:
  assumes "stream_inv s" "\<not> dh_is_isight devh" "st_got_bytes s = 0"
    and "\<forall>p \<in> set ps. frame_payload fid False p" "frame_payload fid True q"
    and "length (concat (map image_data (ps @ [q]))) < st_size_buf s"
  shows "\<exists>s' w'. run_payloads u devh (ps @ [q]) s w = Some (s', w') \<and> stream_inv s'
    \<and> held s' = concat (map image_data (ps @ [q])) \<and> st_hold_seq s' = st_seq s
    \<and> st_hold_bfh_err s' = st_bfh_err s
    \<and> st_seq s' = st_seq s + 1 \<and> st_got_bytes s' = 0 \<and> st_bfh_err s' = 0"
proof -
  have c0: "collected s = []" using assms(3) by (simp add: collected_def)
  have "st_fid s = fid \<or> st_got_bytes s = 0"
    "st_got_bytes s + length (concat (map image_data ps)) < st_size_buf s" using assms(3,6) by simp_all
  from frame_payloads_run [OF assms(1,2,4) this, of u w] obtain s1 w1 where
    1: "run_payloads u devh ps s w = Some (s1, w1)" "stream_inv s1"
      "collected s1 = collected s @ concat (map image_data ps)" "same_frame s s1"
      "st_fid s1 = fid \<or> st_got_bytes s1 = 0"
      "st_got_bytes s1 = st_got_bytes s + length (concat (map image_data ps))" .
  have "st_got_bytes s1 + length (image_data q) < st_size_buf s1"
    using 1(4,6) assms(3,6) by (simp add: same_frame_def)
  then obtain s2 w2 where
    2: "process_payload u devh q s1 w1 = Some (swap_buffers s2, w2)" "stream_inv s2"
      "collected s2 = collected s1 @ image_data q" "same_frame s1 s2"
    by (rule frame_payload_step [OF 1(2) assms(2,5) 1(5), of u w1]) simp
  have "run_payloads u devh (ps @ [q]) s w = Some (swap_buffers s2, w2)"
    using 1(1) 2(1) by (simp add: run_payloads_append)
  then show ?thesis
    using 1(3,4) 2 c0 by (simp add: swap_published same_frame_def)
qed

section \<open>Properties\<close>

text \<open>
  C20. Whatever bytes a bulk transfer delivers, a payload is processed without undefined
  behaviour (every read is inside the payload and every write inside the buffer), and the
  buffers keep their sizes and bounds.
\<close>
theorem process_payload_total:
  assumes "stream_inv s"
  shows "\<exists>s' w'. process_payload u devh p s w = Some (s', w') \<and> stream_inv s'"
  using assms by (rule process_payload_runs)

text \<open>A fresh handle with two buffers of the given size.\<close>

definition fresh_stream :: "nat \<Rightarrow> stream_handle" where
  "fresh_stream n = \<lparr>st_stream_if = zero_stream_if, st_running = True, st_cur_ctrl = zero_stream_ctrl,
     st_bfh_err = 0, st_hold_bfh_err = 0, st_fid = 0, st_seq = 0, st_hold_seq = 0, st_pts = 0,
     st_hold_pts = 0, st_last_scr = 0, st_hold_last_scr = 0, st_got_bytes = 0, st_hold_bytes = 0,
     st_size_buf = n, st_outbuf = Some (replicate n 0), st_holdbuf = Some (replicate n 0),
     st_last_polled_seq = 0, st_user_cb = True, st_transfers = replicate 10 None,
     st_frame = \<lparr>uf_data = None, uf_data_bytes = 0, uf_actual_bytes = 0, uf_width = 0, uf_height = 0,
       uf_frame_format = UVC_FRAME_FORMAT_UNKNOWN, uf_step = 0, uf_sequence = 0,
       uf_library_owns_data = True\<rparr>,
     st_frame_format = UVC_FRAME_FORMAT_MJPEG\<rparr>"

lemma fresh_stream_inv [simp]: "stream_inv (fresh_stream n)"
  by (simp add: stream_inv_def fresh_stream_def)

theorem process_payload_total_witness:
  "\<exists>s' w'. process_payload echo_usb demo_devh [0xff, 0x0c] (fresh_stream 8) (\<lambda>_. [], False) = Some (s', w')
     \<and> stream_inv s'"
  by (rule process_payload_total [OF fresh_stream_inv])

text \<open>
  C4. The assembly of a frame. A handle that has collected nothing, given payloads with the
  same frame ID whose last one carries the end-of-frame flag and whose image data fits the
  buffer, publishes exactly the concatenation of their image data, under the current
  sequence number and with the error flag it had, and starts the next frame empty.
\<close>
theorem frame_assembled:
  assumes "stream_inv s" "\<not> dh_is_isight devh" "st_got_bytes s = 0"
    and "\<forall>p \<in> set ps. frame_payload fid False p" "frame_payload fid True q"
    and "length (concat (map image_data (ps @ [q]))) < st_size_buf s"
  shows "\<exists>s' w'. run_payloads u devh (ps @ [q]) s w = Some (s', w') \<and> stream_inv s'
    \<and> held s' = concat (map image_data (ps @ [q])) \<and> st_hold_seq s' = st_seq s
    \<and> st_hold_bfh_err s' = st_bfh_err s
    \<and> st_seq s' = st_seq s + 1 \<and> st_got_bytes s' = 0 \<and> st_bfh_err s' = 0"
  using assms by (rule assembled_frame)

theorem frame_assembled_witness:
  "\<exists>s' w'. run_payloads echo_usb demo_devh [[2, 1, 10, 11], [2, 3, 12]] (fresh_stream 8) (\<lambda>_. [], False)
     = Some (s', w') \<and> held s' = [10, 11, 12] \<and> st_hold_seq s' = 0 \<and> st_seq s' = 1"
  using frame_assembled [of "fresh_stream 8" demo_devh "[[2, 1, 10, 11]]" 1 "[2, 3, 12]" echo_usb
      "(\<lambda>_. [], False)"]
  by (auto simp: fresh_stream_def demo_devh_def frame_payload_def image_data_def stream_inv_def)

text \<open>
  A camera that sends no end-of-frame flag. When payloads of one frame ID have been
  collected, the first payload with the other ID publishes exactly what they carried before
  its own data starts the next frame.
\<close>
theorem frame_assembled_by_id:
  assumes "stream_inv s" "\<not> dh_is_isight devh" "st_got_bytes s = 0" "ps \<noteq> []"
    and "\<forall>p \<in> set ps. frame_payload fid False p" "frame_payload fid' False q" "fid' \<noteq> fid"
    and "length (concat (map image_data ps)) < st_size_buf s" "length (image_data q) < st_size_buf s"
  shows "\<exists>s' w'. run_payloads u devh (ps @ [q]) s w = Some (s', w') \<and> stream_inv s'
    \<and> held s' = concat (map image_data ps) \<and> st_hold_seq s' = st_seq s
    \<and> st_hold_bfh_err s' = st_bfh_err s
    \<and> st_seq s' = st_seq s + 1 \<and> collected s' = image_data q \<and> st_fid s' = fid'"
proof -
  have c0: "collected s = []" using assms(3) by (simp add: collected_def)
  have "st_fid s = fid \<or> st_got_bytes s = 0"
    "st_got_bytes s + length (concat (map image_data ps)) < st_size_buf s" using assms(3,8) by simp_all
  from frame_payloads_run [OF assms(1,2,5) this, of u w] obtain s1 w1 where
    1: "run_payloads u devh ps s w = Some (s1, w1)" "stream_inv s1"
      "collected s1 = collected s @ concat (map image_data ps)" "same_frame s s1"
      "st_fid s1 = fid \<or> st_got_bytes s1 = 0"
      "st_got_bytes s1 = st_got_bytes s + length (concat (map image_data ps))" .
  have g: "st_got_bytes s1 \<noteq> 0"
    using 1(6) assms(4,5) by (cases ps) (auto simp: frame_payload_def image_data_def)
  with 1(5) assms(7) have f: "st_fid s1 \<noteq> fid'" by simp
  let ?t = "swap_buffers s1"
  have t: "stream_inv ?t" "st_fid ?t = fid' \<or> st_got_bytes ?t = 0"
    "st_got_bytes ?t + length (image_data q) < st_size_buf ?t"
    using 1(2,4) assms(9) by (simp_all add: swap_published same_frame_def) (simp add: swap_buffers_def)
  obtain s2 w2 where
    2: "process_payload u devh q ?t w1 = Some (s2, w2)" "stream_inv s2"
      "collected s2 = collected ?t @ image_data q" "same_frame ?t s2" "st_fid s2 = fid'"
    by (rule frame_payload_step [OF t(1) assms(2,6) t(2,3), of u w1]) simp
  have "run_payloads u devh (ps @ [q]) s w = Some (s2, w2)"
    using 1(1) 2(1) flipped_payload [OF 1(2) assms(2,6) f g, of u w1] by (simp add: run_payloads_append)
  moreover have "collected ?t = []" by (simp add: collected_def swap_published [OF 1(2)])
  ultimately show ?thesis
    using 1(2,3,4) 2 c0 by (simp add: same_frame_def swap_published)
qed

theorem frame_assembled_by_id_witness:
  "\<exists>s' w'. run_payloads echo_usb demo_devh [[2, 1, 10, 11], [2, 0, 12]] (fresh_stream 8) (\<lambda>_. [], False)
     = Some (s', w') \<and> held s' = [10, 11] \<and> collected s' = [12]"
  using frame_assembled_by_id [of "fresh_stream 8" demo_devh "[[2, 1, 10, 11]]" 1 0 "[2, 0, 12]" echo_usb
      "(\<lambda>_. [], False)"]
  by (auto simp: fresh_stream_def demo_devh_def frame_payload_def image_data_def stream_inv_def)

lemma process_iso_runs:
  assumes "\<forall>(off, pkt) \<in> set pkts. off + unat (pk_actual_length pkt) \<le> length buf \<and> off + 10 \<le> length buf"
    and "stream_inv s"
    and "st_got_bytes s + (\<Sum>(off, pkt)\<leftarrow>pkts. unat (pk_actual_length pkt)) < st_size_buf s"
  shows "\<exists>s' w'. process_iso_from u devh buf pkts s w = Some (s', w') \<and> stream_inv s'"
  using assms
proof (induction pkts arbitrary: s w)
  case Nil
  then show ?case by simp
next
  case (Cons a pkts)
  obtain off pkt where a: "a = (off, pkt)" by (rule prod.exhaust)
  have "off + unat (pk_actual_length pkt) \<le> length buf" "off + 10 \<le> length buf"
    "st_got_bytes s + unat (pk_actual_length pkt) < st_size_buf s" using Cons.prems a by auto
  from process_iso_packet_runs [OF Cons.prems(2) this, of u devh w] obtain s1 w1 where
    1: "process_iso_packet u devh buf off pkt s w = Some (s1, w1)" "stream_inv s1"
    "st_size_buf s1 = st_size_buf s" "st_got_bytes s1 \<le> st_got_bytes s + unat (pk_actual_length pkt)" by blast
  have "st_got_bytes s1 + (\<Sum>(off, pkt)\<leftarrow>pkts. unat (pk_actual_length pkt)) < st_size_buf s1"
    using 1(3,4) Cons.prems(3) a by simp
  with Cons.IH [OF _ 1(2), of w1] Cons.prems(1) 1(1) a show ?case by auto
qed

text \<open>
  The packets of an isochronous transfer are processed without undefined behaviour where
  each lies in the transfer's buffer, with room for ten bytes from its start (the longest
  header the code reads), and where all their bytes together still fit the frame buffer.
\<close>
theorem process_payload_iso_total:
  assumes "stream_inv s"
    and "\<forall>i < length pkts. unat (pk_length (pkts ! 0)) * i + max 10 (unat (pk_actual_length (pkts ! i))) \<le> length buf"
    and "st_got_bytes s + (\<Sum>pkt\<leftarrow>pkts. unat (pk_actual_length pkt)) < st_size_buf s"
  shows "\<exists>s' w'. process_payload_iso u devh buf pkts s w = Some (s', w') \<and> stream_inv s'"
proof -
  let ?l = "map (\<lambda>i. (libusb_get_iso_packet_buffer_simple pkts i, pkts ! i)) [0..<length pkts]"
  have "(\<Sum>(off, pkt)\<leftarrow>?l. unat (pk_actual_length pkt)) = (\<Sum>pkt\<leftarrow>pkts. unat (pk_actual_length pkt))"
    by (simp add: comp_def) (metis (no_types, lifting) map_eq_conv map_nth map_map comp_apply)
  moreover have "\<forall>(off, pkt) \<in> set ?l. off + unat (pk_actual_length pkt) \<le> length buf \<and> off + 10 \<le> length buf"
    using assms(2) by (auto simp: libusb_get_iso_packet_buffer_simple_def)
  ultimately show ?thesis
    unfolding process_payload_iso_def using assms(1,3) by (intro process_iso_runs) simp_all
qed

theorem process_payload_iso_total_witness:
  "\<exists>s' w'. process_payload_iso echo_usb demo_devh [2, 3, 9, 0, 0, 0, 0, 0, 0, 0]
     [\<lparr>pk_length = 10, pk_actual_length = 3, pk_status = TRANSFER_COMPLETED\<rparr>] (fresh_stream 8)
     (\<lambda>_. [], False) = Some (s', w') \<and> stream_inv s'"
  by (rule process_payload_iso_total) (simp_all, simp add: fresh_stream_def)

text \<open>
  The same data that does not fit the frame buffer is handled differently by the two
  kinds of transfer: a bulk payload is dropped and the frame marked as broken, while the
  isochronous packet runs into the failing assertion.
\<close>
theorem iso_overrun_undefined:
  assumes "stream_inv s" "\<not> dh_is_isight devh" "frame_payload (st_fid s) False p"
    and "p ! 1 AND UVC_STREAM_ERR = 0" "10 \<le> length p"
    and "unat (pk_actual_length pkt) = length p" "pk_status pkt = TRANSFER_COMPLETED"
    and "st_size_buf s \<le> st_got_bytes s + length (image_data p)"
  shows "(\<exists>s' w'. process_payload u devh p s w = Some (s', w') \<and> st_bfh_err s' AND UVC_STREAM_ERR \<noteq> 0
      \<and> collected s' = collected s)
    \<and> process_payload_iso u devh p [pkt] s w = None"
proof
  define h where "h = unat (p ! 0)"
  have h: "2 \<le> h" "h < length p" "p \<noteq> []" using assms(3,5) by (auto simp: frame_payload_def h_def)
  then have h0: "rd p 0 = Some (p ! 0)" by simp
  have f: "p ! 1 AND UVC_STREAM_FID = st_fid s" "p ! 1 AND UVC_STREAM_EOF = 0"
    using assms(3) by (simp_all add: frame_payload_def)
  have l: "payload_lengths (dh_is_isight devh) p = Some (Some (h, length p - h))"
    using assms(2) h h0 by (simp add: payload_lengths_def payload_is_image_def h_def)
  have hl: "h \<le> length p" using h(2) by simp
  obtain x y w' where hd: "payload_header u h p s w =
      Some (p ! 1, s\<lparr>st_fid := st_fid s, st_pts := x, st_last_scr := y\<rparr>, w')"
    using header_keeps [OF h(1) hl, of s u w] f by auto
  obtain b where b: "st_outbuf s = Some b" using assms(1) by (auto simp: stream_inv_def)
  have g: "\<not> st_got_bytes s + (length p - h) < st_size_buf s" using assms(8) by (simp add: image_data_def h_def)
  have n: "0 < length p - h" using h by simp
  define s1 where "s1 = stream_error (s\<lparr>st_fid := st_fid s, st_pts := x, st_last_scr := y\<rparr>)"
  have "process_payload u devh p s w = Some (s1, w')"
    using b h(3) l hd n g f(2) by (simp add: process_payload_def s1_def)
  moreover have "st_bfh_err s1 AND UVC_STREAM_ERR \<noteq> 0"
  proof -
    have "bit (st_bfh_err s1 AND UVC_STREAM_ERR) 6" by (simp add: s1_def stream_error_def bit_simps)
    then show ?thesis by (metis bit_0_eq bot_apply bot_bool_def)
  qed
  moreover have "collected s1 = collected s" by (simp add: s1_def stream_error_def collected_def)
  ultimately show "\<exists>s' w'. process_payload u devh p s w = Some (s', w')
      \<and> st_bfh_err s' AND UVC_STREAM_ERR \<noteq> 0 \<and> collected s' = collected s" by blast
  have t: "toggle_fid (p ! 1) s = s" using toggle_same_fid [of s "p ! 1"] f(1) by simp
  obtain s2 where 2: "iso_times (p ! 1) h p 0 s = Some s2" "st_size_buf s2 = st_size_buf s"
    "st_got_bytes s2 = st_got_bytes s"
    using iso_times_total [of 0 p s "p ! 1" h] assms(1,5) by auto
  have ih: "iso_header (dh_is_isight devh) p 0 (length p) = Some (h, True)"
    using assms(2) h0 by (simp add: iso_header_def iso_is_image_def h_def)
  have r: "rd p (0 + 1) = Some (p ! 1)" using assms(5) by simp
  have "iso_data p 0 (length p) h s2 = None"
    using h g 2 by (simp add: iso_data_def)
  then have "process_iso_packet u devh p 0 pkt s w = None"
    using assms(2,4,6,7) h(3) ih r t 2(1) by (simp add: process_iso_packet_def del: rd_in)
  then show "process_payload_iso u devh p [pkt] s w = None"
    by (simp add: process_payload_iso_def libusb_get_iso_packet_buffer_simple_def)
qed

theorem iso_overrun_undefined_witness:
  "process_payload_iso echo_usb demo_devh [2, 0, 1, 2, 3, 4, 5, 6, 7, 8]
     [\<lparr>pk_length = 10, pk_actual_length = 10, pk_status = TRANSFER_COMPLETED\<rparr>] (fresh_stream 8)
     (\<lambda>_. [], False) = None"
  using iso_overrun_undefined [of "fresh_stream 8" demo_devh "[2, 0, 1, 2, 3, 4, 5, 6, 7, 8]"
      "\<lparr>pk_length = 10, pk_actual_length = 10, pk_status = TRANSFER_COMPLETED\<rparr>" echo_usb "(\<lambda>_. [], False)"]
  by (simp add: frame_payload_def image_data_def demo_devh_def) (simp add: fresh_stream_def)

end
