(* ===== verification/Uvc_Frame.thy ===== *)
theory Uvc_Frame
  imports Uvc_Payload Complex_Main
begin

text \<open>
  Frames and their conversions, \<^verbatim>\<open>libuvc/src/frame.c\<close>: allocating and growing a frame's
  buffer, duplicating a frame, and the conversions between YUYV, UYVY, RGB888, BGR888, RGB565,
  RGBX8888 and the planar YUV 4:2:0 layouts. A conversion is a loop over groups of eight pixels;
  its macro reads the group at a position of the source and writes it at a position of the
  destination. \<open>None\<close> stands for an access outside of a buffer.
\<close>

section \<open>Buffers\<close>

text \<open>
  What the heap gives for a number of bytes: a block of any contents, or nothing. Of the fields
  copied from frame to frame, the capture time and the source handle play no part in any decision
  and are left out.
\<close>

type_synonym heap = "nat \<Rightarrow> u8 list option"

definition heap_ok :: "heap \<Rightarrow> bool" where
  "heap_ok heap \<longleftrightarrow> (\<forall>n b. heap n = Some b \<longrightarrow> length b = n)"

definition c_realloc :: "heap \<Rightarrow> u8 list option \<Rightarrow> nat \<Rightarrow> u8 list option" where
  "c_realloc heap old n =
     map_option (\<lambda>b. case old of None \<Rightarrow> b | Some d \<Rightarrow> take n d @ drop (length d) b) (heap n)"

definition uvc_ensure_frame_size :: "heap \<Rightarrow> uvc_frame \<Rightarrow> nat \<Rightarrow> int \<times> uvc_frame" where
  "uvc_ensure_frame_size heap frame need_bytes =
     (if uf_library_owns_data frame
      then let frame = (if uf_data frame = None \<or> uf_data_bytes frame \<noteq> need_bytes
                        then frame\<lparr>uf_actual_bytes := need_bytes, uf_data_bytes := need_bytes,
                               uf_data := c_realloc heap (uf_data frame) need_bytes\<rparr>
                        else frame)
           in (if uf_data frame = None \<or> need_bytes = 0 then UVC_ERROR_NO_MEM else UVC_SUCCESS, frame)
      else (if uf_data frame = None \<or> uf_data_bytes frame < need_bytes then UVC_ERROR_NO_MEM
            else UVC_SUCCESS, frame))"

text \<open>
  On Android a new frame is not cleared: \<open>junk\<close> is what \<^verbatim>\<open>malloc\<close> left in it (\<open>None\<close> when the
  struct itself could not be allocated).
\<close>

definition uvc_allocate_frame :: "heap \<Rightarrow> uvc_frame option \<Rightarrow> nat \<Rightarrow> uvc_frame option" where
  "uvc_allocate_frame heap junk data_bytes =
     do { frame \<leftarrow> junk;
          if data_bytes > 0
          then do { d \<leftarrow> heap data_bytes;
                    Some (frame\<lparr>uf_library_owns_data := True, uf_actual_bytes := data_bytes,
                      uf_data_bytes := data_bytes, uf_data := Some d\<rparr>) }
          else Some frame }"

text \<open>Freeing a frame: whether its buffer is freed with it.\<close>

definition uvc_free_frame :: "uvc_frame \<Rightarrow> bool" where
  "uvc_free_frame frame \<longleftrightarrow> uf_data_bytes frame > 0 \<and> uf_library_owns_data frame"

section \<open>Duplicating\<close>

text \<open>The loop over the rows is unrolled four times.\<close>

definition copy_row :: "u8 list \<Rightarrow> nat \<Rightarrow> nat \<Rightarrow> nat \<Rightarrow> u8 list \<Rightarrow> u8 list option" where
  "copy_row src n ip op dst = do { d \<leftarrow> rd_bytes src ip n; wr_bytes dst op d }"

function copy_rows :: "nat \<Rightarrow> nat \<Rightarrow> int \<Rightarrow> int \<Rightarrow> u8 list \<Rightarrow> nat \<Rightarrow> nat \<Rightarrow> u8 list \<Rightarrow> u8 list option" where
  "copy_rows istep ostep hh h src ip op dst =
     (if h < hh
      then do {
        let rowbytes = min istep ostep;
        dst \<leftarrow> copy_row src rowbytes ip op dst;
        dst \<leftarrow> copy_row src rowbytes (ip + istep) (op + ostep) dst;
        dst \<leftarrow> copy_row src rowbytes (ip + 2 * istep) (op + 2 * ostep) dst;
        dst \<leftarrow> copy_row src rowbytes (ip + 3 * istep) (op + 3 * ostep) dst;
        copy_rows istep ostep hh (h + 4) src (ip + 4 * istep) (op + 4 * ostep) dst }
      else Some dst)"
  by auto
termination by (relation "measure (\<lambda>(istep, ostep, hh, h, _). nat (hh - h))") auto

declare copy_rows.simps [simp del]

definition duplicate_fields :: "uvc_frame \<Rightarrow> uvc_frame \<Rightarrow> uvc_frame" where
  "duplicate_fields inp out =
     out\<lparr>uf_width := uf_width inp, uf_height := uf_height inp, uf_frame_format := uf_frame_format inp,
       uf_step := (if uf_library_owns_data out then uf_step inp else uf_step out),
       uf_sequence := uf_sequence inp, uf_actual_bytes := uf_actual_bytes inp\<rparr>"

definition uvc_duplicate_frame :: "heap \<Rightarrow> uvc_frame \<Rightarrow> uvc_frame \<Rightarrow> (int \<times> uvc_frame) option" where
  "uvc_duplicate_frame heap inp out =
     (let (ret, out) = uvc_ensure_frame_size heap out (uf_data_bytes inp)
      in if ret < 0 then Some (UVC_ERROR_NO_MEM, out)
      else do {
        let out = duplicate_fields inp out;
        src \<leftarrow> uf_data inp;
        dst \<leftarrow> uf_data out;
        dst \<leftarrow> (if uf_step inp \<noteq> 0 \<and> uf_step out \<noteq> 0
                then copy_rows (uf_step inp) (uf_step out)
                       (sint (if uf_height inp < uf_height out then uf_height inp else uf_height out))
                       0 src 0 0 dst
                else copy_row src (uf_actual_bytes inp) 0 0 dst);
        Some (UVC_SUCCESS, out\<lparr>uf_data := Some dst\<rparr>) })"

section \<open>Pixel macros\<close>

abbreviation (input) "PIXEL_RGB565 \<equiv> 2 :: nat"
abbreviation (input) "PIXEL_UYVY \<equiv> 2 :: nat"
abbreviation (input) "PIXEL_YUYV \<equiv> 2 :: nat"
abbreviation (input) "PIXEL_RGB \<equiv> 3 :: nat"
abbreviation (input) "PIXEL_BGR \<equiv> 3 :: nat"
abbreviation (input) "PIXEL_RGBX \<equiv> 4 :: nat"

definition sat :: "int \<Rightarrow> u8" where
  "sat i = word_of_int (if i \<ge> 255 then 255 else if i < 0 then 0 else i)"

text \<open>The fixed point coefficients; the shift of a negative \<open>int\<close> is arithmetic.\<close>

definition chroma_r :: "u8 \<Rightarrow> u8 \<Rightarrow> int" where
  "chroma_r d1 d3 = drop_bit 14 (22987 * (uint d3 - 128))"

definition chroma_g :: "u8 \<Rightarrow> u8 \<Rightarrow> int" where
  "chroma_g d1 d3 = drop_bit 14 (- 5636 * (uint d1 - 128) - 11698 * (uint d3 - 128))"

definition chroma_b :: "u8 \<Rightarrow> u8 \<Rightarrow> int" where
  "chroma_b d1 d3 = drop_bit 14 (29049 * (uint d1 - 128))"

definition rgb_of :: "u8 \<Rightarrow> u8 \<Rightarrow> u8 \<Rightarrow> u8 list" where
  "rgb_of y d1 d3 =
     [sat (uint y + chroma_r d1 d3), sat (uint y + chroma_g d1 d3), sat (uint y + chroma_b d1 d3)]"

text \<open>
  A macro is called with the source and a position \<open>p\<close> in it, an offset \<open>ax\<close>, and the destination
  with the position to write at. The source and the destination are different buffers.
\<close>

type_synonym pixel_macro = "u8 list \<Rightarrow> nat \<Rightarrow> nat \<Rightarrow> u8 list \<Rightarrow> nat \<Rightarrow> u8 list option"

text \<open>The \<^verbatim>\<open>_4\<close>, \<^verbatim>\<open>_8\<close> macros: the macro of half the pixels, twice.\<close>

definition twice :: "pixel_macro \<Rightarrow> nat \<Rightarrow> nat \<Rightarrow> pixel_macro" where
  "twice m da db src p ax dst bx = do { dst \<leftarrow> m src p ax dst bx; m src p (ax + da) dst (bx + db) }"

definition RGB2RGBX_2 :: pixel_macro where
  "RGB2RGBX_2 src p ax dst bx =
     do { r \<leftarrow> rd_bytes src (p + ax) 6;
          wr_bytes dst bx [r ! 0, r ! 1, r ! 2, 0xff, r ! 3, r ! 4, r ! 5, 0xff] }"

definition RGB2RGBX_8 :: pixel_macro where
  "RGB2RGBX_8 = twice (twice RGB2RGBX_2 (PIXEL_RGB * 2) (PIXEL_RGBX * 2)) (PIXEL_RGB * 4) (PIXEL_RGBX * 4)"

definition rgb565_of :: "u8 \<Rightarrow> u8 \<Rightarrow> u8 \<Rightarrow> u8 list" where
  "rgb565_of r g b =
     [push_bit 3 g AND 0b11100000 OR drop_bit 3 b AND 0b00011111,
      r AND 0b11111000 OR drop_bit 5 g AND 0b00000111]"

definition RGB2RGB565_2 :: pixel_macro where
  "RGB2RGB565_2 src p ax dst bx =
     do { r \<leftarrow> rd_bytes src (p + ax) 6;
          wr_bytes dst bx (rgb565_of (r ! 0) (r ! 1) (r ! 2) @ rgb565_of (r ! 3) (r ! 4) (r ! 5)) }"

definition RGB2RGB565_8 :: pixel_macro where
  "RGB2RGB565_8 =
     twice (twice RGB2RGB565_2 (PIXEL_RGB * 2) (PIXEL_RGB565 * 2)) (PIXEL_RGB * 4) (PIXEL_RGB565 * 4)"

definition IYUYV2RGB_2 :: pixel_macro where
  "IYUYV2RGB_2 src p ax dst bx =
     do { y \<leftarrow> rd_bytes src (p + ax) 4;
          wr_bytes dst bx (rgb_of (y ! 0) (y ! 1) (y ! 3) @ rgb_of (y ! 2) (y ! 1) (y ! 3)) }"

definition IYUYV2RGB_8 :: pixel_macro where
  "IYUYV2RGB_8 = twice (twice IYUYV2RGB_2 (PIXEL_YUYV * 2) (PIXEL_RGB * 2)) (PIXEL_YUYV * 4) (PIXEL_RGB * 4)"

definition IYUYV2RGBX_2 :: pixel_macro where
  "IYUYV2RGBX_2 src p ax dst bx =
     do { y \<leftarrow> rd_bytes src (p + ax) 4;
          wr_bytes dst bx (rgb_of (y ! 0) (y ! 1) (y ! 3) @ [0xff]
            @ rgb_of (y ! 2) (y ! 1) (y ! 3) @ [0xff]) }"

definition IYUYV2RGBX_8 :: pixel_macro where
  "IYUYV2RGBX_8 =
     twice (twice IYUYV2RGBX_2 (PIXEL_YUYV * 2) (PIXEL_RGBX * 2)) (PIXEL_YUYV * 4) (PIXEL_RGBX * 4)"

text \<open>This one takes the chrominance from the start of the group, without the offset.\<close>

definition IYUYV2BGR_2 :: pixel_macro where
  "IYUYV2BGR_2 src p ax dst bx =
     do { d1 \<leftarrow> rd src (p + 1);
          d3 \<leftarrow> rd src (p + 3);
          y0 \<leftarrow> rd src (p + ax + 0);
          y2 \<leftarrow> rd src (p + ax + 2);
          wr_bytes dst bx (rev (rgb_of y0 d1 d3) @ rev (rgb_of y2 d1 d3)) }"

definition IYUYV2BGR_8 :: pixel_macro where
  "IYUYV2BGR_8 = twice (twice IYUYV2BGR_2 (PIXEL_YUYV * 2) (PIXEL_BGR * 2)) (PIXEL_YUYV * 4) (PIXEL_BGR * 4)"

definition IUYVY2RGB_2 :: pixel_macro where
  "IUYVY2RGB_2 src p ax dst bx =
     do { y \<leftarrow> rd_bytes src (p + ax) 4;
          wr_bytes dst bx (rgb_of (y ! 1) (y ! 0) (y ! 2) @ rgb_of (y ! 3) (y ! 0) (y ! 2)) }"

definition IUYVY2RGB_8 :: pixel_macro where
  "IUYVY2RGB_8 = twice (twice IUYVY2RGB_2 4 6) 8 12"

definition IUYVY2RGBX_2 :: pixel_macro where
  "IUYVY2RGBX_2 src p ax dst bx =
     do { y \<leftarrow> rd_bytes src (p + ax) 4;
          wr_bytes dst bx (rgb_of (y ! 1) (y ! 0) (y ! 2) @ [0xff]
            @ rgb_of (y ! 3) (y ! 0) (y ! 2) @ [0xff]) }"

definition IUYVY2RGBX_8 :: pixel_macro where
  "IUYVY2RGBX_8 =
     twice (twice IUYVY2RGBX_2 (PIXEL_UYVY * 2) (PIXEL_RGBX * 2)) (PIXEL_UYVY * 4) (PIXEL_RGBX * 4)"

definition IUYVY2BGR_2 :: pixel_macro where
  "IUYVY2BGR_2 src p ax dst bx =
     do { y \<leftarrow> rd_bytes src (p + ax) 4;
          wr_bytes dst bx (rev (rgb_of (y ! 1) (y ! 0) (y ! 2)) @ rev (rgb_of (y ! 3) (y ! 0) (y ! 2))) }"

definition IUYVY2BGR_8 :: pixel_macro where
  "IUYVY2BGR_8 = twice (twice IUYVY2BGR_2 (PIXEL_UYVY * 2) (PIXEL_BGR * 2)) (PIXEL_UYVY * 4) (PIXEL_BGR * 4)"

text \<open>RGB565 goes through a buffer of eight RGB888 pixels, which the first macro fills.\<close>

definition via_tmp :: "pixel_macro \<Rightarrow> pixel_macro" where
  "via_tmp m src p ax dst bx =
     do { tmp \<leftarrow> m src p ax (replicate (PIXEL_RGB * 8) 0) 0; RGB2RGB565_8 tmp 0 0 dst bx }"

section \<open>Conversion loops\<close>

text \<open>
  The loop over the groups of one row (\<open>Some ww\<close>, its width) or of the whole buffer (\<open>None\<close>).
  Positions are compared as offsets; the end pointers lie a group before the end of the buffers.
\<close>

partial_function (option) convert_run ::
  "pixel_macro \<Rightarrow> nat \<Rightarrow> nat \<Rightarrow> int option \<Rightarrow> u8 list \<Rightarrow> nat \<Rightarrow> nat \<Rightarrow> nat \<Rightarrow> nat \<Rightarrow> int \<Rightarrow> u8 list
     \<Rightarrow> u8 list option" where
  "convert_run m bi bo ww src n_in n_out ip op w dst =
     (if int op \<le> int n_out - int (bo * 8) \<and> int ip \<le> int n_in - int (bi * 8)
         \<and> (case ww of None \<Rightarrow> True | Some ww \<Rightarrow> w < ww)
      then do { dst \<leftarrow> m src ip 0 dst op;
                convert_run m bi bo ww src n_in n_out (ip + bi * 8) (op + bo * 8) (w + 8) dst }
      else Some dst)"

fun convert_rows :: "(nat \<Rightarrow> u8 list \<Rightarrow> u8 list option) \<Rightarrow> nat list \<Rightarrow> u8 list \<Rightarrow> u8 list option" where
  "convert_rows row [] dst = Some dst"
| "convert_rows row (h # hs) dst = do { dst \<leftarrow> row h dst; convert_rows row hs dst }"

definition convert_pixels :: "pixel_macro \<Rightarrow> nat \<Rightarrow> nat \<Rightarrow> uvc_frame \<Rightarrow> uvc_frame \<Rightarrow> (int \<times> uvc_frame) option" where
  "convert_pixels m bi bo inp out =
     do { src \<leftarrow> uf_data inp;
          dst \<leftarrow> uf_data out;
          dst \<leftarrow> (if uf_step inp \<noteq> 0 \<and> uf_step out \<noteq> 0 \<and> uf_step inp \<noteq> uf_step out
            then let hh = sint (if uf_height inp < uf_height out then uf_height inp else uf_height out);
                     ww = sint (if uf_width inp < uf_width out then uf_width inp else uf_width out)
                 in convert_rows
                      (\<lambda>h. convert_run m bi bo (Some ww) src (uf_data_bytes inp) (uf_data_bytes out)
                             (uf_step inp * h) (uf_step out * h) 0) [0..<nat hh] dst
            else convert_run m bi bo None src (uf_data_bytes inp) (uf_data_bytes out) 0 0 0 dst);
          Some (UVC_SUCCESS, out\<lparr>uf_data := Some dst\<rparr>) }"

definition converted_fields :: "uvc_frame_format \<Rightarrow> nat \<Rightarrow> uvc_frame \<Rightarrow> uvc_frame \<Rightarrow> uvc_frame" where
  "converted_fields fmt bo inp out =
     out\<lparr>uf_width := uf_width inp, uf_height := uf_height inp, uf_frame_format := fmt,
       uf_step := (if uf_library_owns_data out then unat (uf_width inp * of_nat bo) else uf_step out),
       uf_sequence := uf_sequence inp\<rparr>"

definition convert_frame ::
  "heap \<Rightarrow> uvc_frame_format \<Rightarrow> uvc_frame_format \<Rightarrow> pixel_macro \<Rightarrow> nat \<Rightarrow> nat \<Rightarrow> uvc_frame \<Rightarrow> uvc_frame
     \<Rightarrow> (int \<times> uvc_frame) option" where
  "convert_frame heap from_fmt to_fmt m bi bo inp out =
     (if uf_frame_format inp \<noteq> from_fmt then Some (UVC_ERROR_INVALID_PARAM, out)
      else let (ret, out) = uvc_ensure_frame_size heap out (unat (uf_width inp * uf_height inp * of_nat bo))
      in if ret < 0 then Some (UVC_ERROR_NO_MEM, out)
      else convert_pixels m bi bo inp (converted_fields to_fmt bo inp out))"

definition uvc_rgb2rgbx where
  "uvc_rgb2rgbx heap = convert_frame heap UVC_FRAME_FORMAT_RGB UVC_FRAME_FORMAT_RGBX RGB2RGBX_8 PIXEL_RGB PIXEL_RGBX"

definition uvc_rgb2rgb565 where
  "uvc_rgb2rgb565 heap =
     convert_frame heap UVC_FRAME_FORMAT_RGB UVC_FRAME_FORMAT_RGB565 RGB2RGB565_8 PIXEL_RGB PIXEL_RGB565"

definition uvc_yuyv2rgb where
  "uvc_yuyv2rgb heap = convert_frame heap UVC_FRAME_FORMAT_YUYV UVC_FRAME_FORMAT_RGB IYUYV2RGB_8 PIXEL_YUYV PIXEL_RGB"

definition uvc_yuyv2rgb565 where
  "uvc_yuyv2rgb565 heap =
     convert_frame heap UVC_FRAME_FORMAT_YUYV UVC_FRAME_FORMAT_RGB565 (via_tmp IYUYV2RGB_8) PIXEL_YUYV PIXEL_RGB565"

definition uvc_yuyv2rgbx where
  "uvc_yuyv2rgbx heap =
     convert_frame heap UVC_FRAME_FORMAT_YUYV UVC_FRAME_FORMAT_RGBX IYUYV2RGBX_8 PIXEL_YUYV PIXEL_RGBX"

definition uvc_yuyv2bgr where
  "uvc_yuyv2bgr heap = convert_frame heap UVC_FRAME_FORMAT_YUYV UVC_FRAME_FORMAT_BGR IYUYV2BGR_8 PIXEL_YUYV PIXEL_BGR"

definition uvc_uyvy2rgb where
  "uvc_uyvy2rgb heap = convert_frame heap UVC_FRAME_FORMAT_UYVY UVC_FRAME_FORMAT_RGB IUYVY2RGB_8 PIXEL_UYVY PIXEL_RGB"

definition uvc_uyvy2rgb565 where
  "uvc_uyvy2rgb565 heap =
     convert_frame heap UVC_FRAME_FORMAT_UYVY UVC_FRAME_FORMAT_RGB565 (via_tmp IUYVY2RGB_8) PIXEL_UYVY PIXEL_RGB565"

definition uvc_uyvy2rgbx where
  "uvc_uyvy2rgbx heap =
     convert_frame heap UVC_FRAME_FORMAT_UYVY UVC_FRAME_FORMAT_RGBX IUYVY2RGBX_8 PIXEL_UYVY PIXEL_RGBX"

definition uvc_uyvy2bgr where
  "uvc_uyvy2bgr heap = convert_frame heap UVC_FRAME_FORMAT_UYVY UVC_FRAME_FORMAT_BGR IUYVY2BGR_8 PIXEL_UYVY PIXEL_BGR"


section \<open>The planar layouts\<close>

text \<open>
  These loops have no end pointers: positions are \<^verbatim>\<open>int\<close>s relative to the start of a buffer, and
  signed arithmetic that leaves 32 bits is undefined.
\<close>

definition rd_at :: "u8 list \<Rightarrow> int \<Rightarrow> u8 option" where
  "rd_at buf i = (if i < 0 then None else rd buf (nat i))"

definition wr_at :: "u8 list \<Rightarrow> int \<Rightarrow> u8 \<Rightarrow> u8 list option" where
  "wr_at buf i v = (if i < 0 then None else wr buf (nat i) v)"

fun rd_all :: "u8 list \<Rightarrow> int list \<Rightarrow> u8 list option" where
  "rd_all src [] = Some []"
| "rd_all src (i # is) = do { v \<leftarrow> rd_at src i; vs \<leftarrow> rd_all src is; Some (v # vs) }"

fun wr_all :: "u8 list \<Rightarrow> int \<Rightarrow> u8 list \<Rightarrow> u8 list option" where
  "wr_all dst i [] = Some dst"
| "wr_all dst i (v # vs) = do { dst \<leftarrow> wr_at dst i v; wr_all dst (i + 1) vs }"

definition yuv420_fields :: "uvc_frame \<Rightarrow> uvc_frame \<Rightarrow> uvc_frame" where
  "yuv420_fields inp out =
     out\<lparr>uf_step := unat (uf_width inp), uf_width := uf_width inp, uf_height := uf_height inp\<rparr>"

text \<open>Four pixels of a row: the positions of the planes advance.\<close>

record planes =
  pl_y :: int
  pl_u :: int
  pl_v :: int
  pl_dest :: "u8 list"

definition planar_group :: "bool \<Rightarrow> u8 list \<Rightarrow> int \<Rightarrow> planes \<Rightarrow> planes option" where
  "planar_group odd_row src yuv s =
     do { ys \<leftarrow> rd_all src [yuv, yuv + 2, yuv + 4, yuv + 6];
          dest \<leftarrow> wr_all (pl_dest s) (pl_y s) ys;
          let s = s\<lparr>pl_y := pl_y s + 4, pl_dest := dest\<rparr>;
          if odd_row
          then do { us \<leftarrow> rd_all src [yuv + 3, yuv + 7];
                    dest \<leftarrow> wr_all (pl_dest s) (pl_u s) us;
                    Some (s\<lparr>pl_u := pl_u s + 2, pl_dest := dest\<rparr>) }
          else do { vs \<leftarrow> rd_all src [yuv + 1, yuv + 5];
                    dest \<leftarrow> wr_all (pl_dest s) (pl_v s) vs;
                    Some (s\<lparr>pl_v := pl_v s + 2, pl_dest := dest\<rparr>) } }"

function planar_row :: "bool \<Rightarrow> u8 list \<Rightarrow> int \<Rightarrow> int \<Rightarrow> int \<Rightarrow> planes \<Rightarrow> planes option" where
  "planar_row odd_row src width w yuv s =
     (if w < width
      then do { s \<leftarrow> planar_group odd_row src yuv s; planar_row odd_row src width (w + 4) (yuv + 8) s }
      else Some s)"
  by auto
termination by (relation "measure (\<lambda>(_, _, width, w, _). nat (width - w))") auto

function planar_rows :: "u8 list \<Rightarrow> int \<Rightarrow> int \<Rightarrow> nat \<Rightarrow> nat \<Rightarrow> planes \<Rightarrow> planes option" where
  "planar_rows src src_width width hh h s =
     (if h < hh
      then do { yuv \<leftarrow> c_int (src_width * int h);
                s \<leftarrow> planar_row (odd h) src width 0 yuv s;
                planar_rows src src_width width hh (h + 1) s }
      else Some s)"
  by auto
termination by (relation "measure (\<lambda>(_, _, _, hh, h, _). hh - h)") auto

declare planar_row.simps [simp del] planar_rows.simps [simp del]

text \<open>\<open>ps\<close> says where the two chrominance planes start.\<close>

definition yuyv_planar ::
  "heap \<Rightarrow> (int \<Rightarrow> int \<Rightarrow> (int \<times> int) option) \<Rightarrow> uvc_frame \<Rightarrow> uvc_frame \<Rightarrow> (int \<times> uvc_frame) option" where
  "yuyv_planar heap ps inp out =
     (if uf_frame_format inp \<noteq> UVC_FRAME_FORMAT_YUYV then Some (UVC_ERROR_INVALID_PARAM, out)
      else let (ret, out) = uvc_ensure_frame_size heap out (unat ((uf_width inp * uf_height inp * 3) div 2))
      in if ret < 0 then Some (UVC_ERROR_NO_MEM, out)
      else do {
        let out = yuv420_fields inp out;
        src \<leftarrow> uf_data inp;
        dest \<leftarrow> uf_data out;
        let src_width = sint (of_nat (uf_step inp) :: u32);
        (u, v) \<leftarrow> ps (sint (uf_width inp)) (sint (uf_height inp));
        s \<leftarrow> planar_rows src src_width (sint (uf_width inp)) (unat (uf_height inp)) 0
               \<lparr>pl_y = 0, pl_u = u, pl_v = v, pl_dest = dest\<rparr>;
        Some (0, out\<lparr>uf_data := Some (pl_dest s)\<rparr>) })"

definition uvc_yuyv2yuv420P where
  "uvc_yuyv2yuv420P heap =
     yuyv_planar heap (\<lambda>dest_width dest_height.
       do { v \<leftarrow> c_int (dest_width * dest_height);
            u \<leftarrow> c_int (v * 5);
            Some (u div 4, v) })"

definition uvc_yuyv2iyuv420P where
  "uvc_yuyv2iyuv420P heap =
     yuyv_planar heap (\<lambda>dest_width dest_height.
       do { n \<leftarrow> c_int (dest_width * dest_height);
            u \<leftarrow> c_int (n * 5);
            Some (u div 4, u div 4) })"

text \<open>Semi-planar: two rows of luminance and one of chrominance pairs in an order \<open>chroma\<close>.\<close>

record semi_planes =
  sp_y0 :: int
  sp_y1 :: int
  sp_uv :: int
  sp_dest :: "u8 list"

definition semi_group :: "int list \<Rightarrow> u8 list \<Rightarrow> int \<Rightarrow> int \<Rightarrow> semi_planes \<Rightarrow> semi_planes option" where
  "semi_group chroma src src_width yuv s =
     do { ys \<leftarrow> rd_all src [yuv, yuv + 2, yuv + 4, yuv + 6];
          dest \<leftarrow> wr_all (sp_dest s) (sp_y0 s) ys;
          cs \<leftarrow> rd_all src (map (\<lambda>c. yuv + c) chroma);
          dest \<leftarrow> wr_all dest (sp_uv s) cs;
          ys \<leftarrow> rd_all src [yuv + src_width, yuv + src_width + 2, yuv + src_width + 4, yuv + src_width + 6];
          dest \<leftarrow> wr_all dest (sp_y1 s) ys;
          Some (s\<lparr>sp_y0 := sp_y0 s + 4, sp_y1 := sp_y1 s + 4, sp_uv := sp_uv s + 4, sp_dest := dest\<rparr>) }"

function semi_row :: "int list \<Rightarrow> u8 list \<Rightarrow> int \<Rightarrow> int \<Rightarrow> int \<Rightarrow> int \<Rightarrow> semi_planes \<Rightarrow> semi_planes option" where
  "semi_row chroma src src_width width w yuv s =
     (if w < width
      then do { s \<leftarrow> semi_group chroma src src_width yuv s;
                semi_row chroma src src_width width (w + 4) (yuv + 8) s }
      else Some s)"
  by auto
termination by (relation "measure (\<lambda>(_, _, _, width, w, _). nat (width - w))") auto

function semi_rows ::
  "int list \<Rightarrow> u8 list \<Rightarrow> int \<Rightarrow> int \<Rightarrow> u32 \<Rightarrow> nat \<Rightarrow> int \<Rightarrow> u8 list \<Rightarrow> u8 list option" where
  "semi_rows chroma src src_width width hh h uv dest =
     (if h < unat (hh - 1)
      then do { y0 \<leftarrow> c_int (width * int h);
                yuv \<leftarrow> c_int (src_width * int h);
                s \<leftarrow> semi_row chroma src src_width width 0 yuv
                       \<lparr>sp_y0 = y0, sp_y1 = y0 + width, sp_uv = uv, sp_dest = dest\<rparr>;
                semi_rows chroma src src_width width hh (h + 2) (sp_uv s) (sp_dest s) }
      else Some dest)"
  by auto
termination by (relation "measure (\<lambda>(_, _, _, _, hh, h, _). unat (hh - 1) - h)") auto

declare semi_row.simps [simp del] semi_rows.simps [simp del]

definition yuyv_semi_planar :: "heap \<Rightarrow> int list \<Rightarrow> uvc_frame \<Rightarrow> uvc_frame \<Rightarrow> (int \<times> uvc_frame) option" where
  "yuyv_semi_planar heap chroma inp out =
     (if uf_frame_format inp \<noteq> UVC_FRAME_FORMAT_YUYV then Some (UVC_ERROR_INVALID_PARAM, out)
      else let (ret, out) = uvc_ensure_frame_size heap out (unat ((uf_width inp * uf_height inp * 3) div 2))
      in if ret < 0 then Some (UVC_ERROR_NO_MEM, out)
      else do {
        let out = yuv420_fields inp out;
        src \<leftarrow> uf_data inp;
        dest \<leftarrow> uf_data out;
        let src_width = sint (of_nat (uf_step inp) :: u32);
        uv \<leftarrow> c_int (sint (uf_width inp) * sint (uf_height inp));
        dest \<leftarrow> semi_rows chroma src src_width (sint (uf_width inp)) (uf_height inp) 0 uv dest;
        Some (UVC_SUCCESS, out\<lparr>uf_data := Some dest\<rparr>) })"

definition uvc_yuyv2yuv420SP where
  "uvc_yuyv2yuv420SP heap = yuyv_semi_planar heap [1, 3, 5, 7]"

definition uvc_yuyv2iyuv420SP where
  "uvc_yuyv2iyuv420SP heap = yuyv_semi_planar heap [3, 1, 7, 5]"

section \<open>Conversion by the format of the input\<close>

text \<open>\<^verbatim>\<open>LIBUVC_HAS_JPEG\<close> is not defined: MJPEG frames are not supported here.\<close>

definition uvc_any2rgb565 where
  "uvc_any2rgb565 heap inp out = (case uf_frame_format inp of
       UVC_FRAME_FORMAT_YUYV \<Rightarrow> uvc_yuyv2rgb565 heap inp out
     | UVC_FRAME_FORMAT_UYVY \<Rightarrow> uvc_uyvy2rgb565 heap inp out
     | UVC_FRAME_FORMAT_RGB565 \<Rightarrow> uvc_duplicate_frame heap inp out
     | UVC_FRAME_FORMAT_RGB \<Rightarrow> uvc_rgb2rgb565 heap inp out
     | _ \<Rightarrow> Some (UVC_ERROR_NOT_SUPPORTED, out))"

definition uvc_any2rgb where
  "uvc_any2rgb heap inp out = (case uf_frame_format inp of
       UVC_FRAME_FORMAT_YUYV \<Rightarrow> uvc_yuyv2rgb heap inp out
     | UVC_FRAME_FORMAT_UYVY \<Rightarrow> uvc_uyvy2rgb heap inp out
     | UVC_FRAME_FORMAT_RGB \<Rightarrow> uvc_duplicate_frame heap inp out
     | _ \<Rightarrow> Some (UVC_ERROR_NOT_SUPPORTED, out))"

definition uvc_any2bgr where
  "uvc_any2bgr heap inp out = (case uf_frame_format inp of
       UVC_FRAME_FORMAT_YUYV \<Rightarrow> uvc_yuyv2bgr heap inp out
     | UVC_FRAME_FORMAT_UYVY \<Rightarrow> uvc_uyvy2bgr heap inp out
     | UVC_FRAME_FORMAT_BGR \<Rightarrow> uvc_duplicate_frame heap inp out
     | _ \<Rightarrow> Some (UVC_ERROR_NOT_SUPPORTED, out))"

definition uvc_any2rgbx where
  "uvc_any2rgbx heap inp out = (case uf_frame_format inp of
       UVC_FRAME_FORMAT_YUYV \<Rightarrow> uvc_yuyv2rgbx heap inp out
     | UVC_FRAME_FORMAT_UYVY \<Rightarrow> uvc_uyvy2rgbx heap inp out
     | UVC_FRAME_FORMAT_RGBX \<Rightarrow> uvc_duplicate_frame heap inp out
     | UVC_FRAME_FORMAT_RGB \<Rightarrow> uvc_rgb2rgbx heap inp out
     | _ \<Rightarrow> Some (UVC_ERROR_NOT_SUPPORTED, out))"

definition uvc_any2yuyv where
  "uvc_any2yuyv heap inp out = (case uf_frame_format inp of
       UVC_FRAME_FORMAT_YUYV \<Rightarrow> uvc_duplicate_frame heap inp out
     | _ \<Rightarrow> Some (UVC_ERROR_NOT_SUPPORTED, out))"

text \<open>Through an intermediate YUYV frame, freed afterwards.\<close>

definition via_yuyv where
  "via_yuyv heap junk convert inp out =
     (case uvc_allocate_frame heap junk (unat ((uf_width inp * uf_height inp * 3) div 2)) of
        None \<Rightarrow> Some (UVC_ERROR_NO_MEM, out)
      | Some yuv \<Rightarrow>
          do { (result, yuv) \<leftarrow> uvc_any2yuyv heap inp yuv;
               if result = 0 then convert yuv out else Some (result, out) })"

definition uvc_any2yuv420SP where
  "uvc_any2yuv420SP heap junk inp out = via_yuyv heap junk (uvc_yuyv2yuv420SP heap) inp out"

definition uvc_any2iyuv420SP where
  "uvc_any2iyuv420SP heap junk inp out = via_yuyv heap junk (uvc_yuyv2iyuv420SP heap) inp out"


section \<open>The loops over any macro\<close>

fun chunks :: "nat \<Rightarrow> nat \<Rightarrow> 'a list \<Rightarrow> 'a list list" where
  "chunks k 0 xs = []"
| "chunks k (Suc n) xs = take k xs # chunks k n (drop k xs)"

lemma length_chunks [simp]: "length (chunks k n xs) = n"
  by (induction n arbitrary: xs) simp_all

lemma chunks_lengths: "n * k \<le> length xs \<Longrightarrow> c \<in> set (chunks k n xs) \<Longrightarrow> length c = k"
proof (induction n arbitrary: xs)
  case (Suc n)
  then show ?case using Suc.IH [of "drop k xs"] by auto
qed simp

lemma length_concat_const: "(\<And>x. x \<in> set xs \<Longrightarrow> length x = k) \<Longrightarrow> length (concat xs) = length xs * k"
  by (induction xs) auto

text \<open>
  A macro that reads \<open>na\<close> bytes at the offset and writes \<open>f\<close> of them, \<open>nb\<close> bytes: at one position
  of one source, and everywhere.
\<close>

definition macro_at :: "pixel_macro \<Rightarrow> u8 list \<Rightarrow> nat \<Rightarrow> nat \<Rightarrow> nat \<Rightarrow> (u8 list \<Rightarrow> u8 list) \<Rightarrow> bool" where
  "macro_at m src p na nb f \<longleftrightarrow>
     (\<forall>g. length g = na \<longrightarrow> length (f g) = nb)
     \<and> (\<forall>ax dst bx. p + ax + na \<le> length src \<longrightarrow> bx + nb \<le> length dst \<longrightarrow>
          m src p ax dst bx = Some (take bx dst @ f (take na (drop (p + ax) src)) @ drop (bx + nb) dst))"

definition macro_for :: "pixel_macro \<Rightarrow> nat \<Rightarrow> nat \<Rightarrow> (u8 list \<Rightarrow> u8 list) \<Rightarrow> bool" where
  "macro_for m na nb f \<longleftrightarrow> (\<forall>src p. macro_at m src p na nb f)"

definition doubled :: "nat \<Rightarrow> (u8 list \<Rightarrow> u8 list) \<Rightarrow> u8 list \<Rightarrow> u8 list" where
  "doubled na f g = f (take na g) @ f (drop na g)"

lemma macro_atD:
  assumes "macro_at m src p na nb f" "p + ax + na \<le> length src" "bx + nb \<le> length dst"
  shows "m src p ax dst bx = Some (take bx dst @ f (take na (drop (p + ax) src)) @ drop (bx + nb) dst)"
  using assms by (simp add: macro_at_def)

lemma macro_at_length: "macro_at m src p na nb f \<Longrightarrow> length g = na \<Longrightarrow> length (f g) = nb"
  by (simp add: macro_at_def)

lemma macro_at_twice:
  assumes "macro_at m src p na nb f"
  shows "macro_at (twice m na nb) src p (na * 2) (nb * 2) (doubled na f)"
  unfolding macro_at_def
proof (intro conjI allI impI)
  fix g :: "u8 list" assume "length g = na * 2"
  then show "length (doubled na f g) = nb * 2"
    using macro_at_length [OF assms, of "take na g"] macro_at_length [OF assms, of "drop na g"]
    by (simp add: doubled_def)
next
  fix dst :: "u8 list" and ax bx
  assume a: "p + ax + na * 2 \<le> length src" "bx + nb * 2 \<le> length dst"
  let ?f = "\<lambda>i. f (take na (drop i src))"
  have l: "length (?f (p + ax)) = nb" "length (?f (p + ax + na)) = nb"
    using a by (auto intro: macro_at_length [OF assms])
  let ?d = "take bx dst @ ?f (p + ax) @ drop (bx + nb) dst"
  have 1: "m src p ax dst bx = Some ?d" using a by (intro macro_atD [OF assms]) simp_all
  have 2: "m src p (ax + na) ?d (bx + nb) = Some (take (bx + nb) ?d @ ?f (p + ax + na) @ drop (bx + nb + nb) ?d)"
    using a l macro_atD [OF assms, of "ax + na" "bx + nb" ?d] by (simp add: add.assoc)
  have 3: "doubled na f (take (na * 2) (drop (p + ax) src)) = ?f (p + ax) @ ?f (p + ax + na)"
    by (simp add: doubled_def drop_take add.commute min_def)
  show "twice m na nb src p ax dst bx =
      Some (take bx dst @ doubled na f (take (na * 2) (drop (p + ax) src)) @ drop (bx + nb * 2) dst)"
    using a l by (simp add: twice_def 1 2 3) (simp add: algebra_simps mult_2_right)
qed

lemma macro_forD:
  assumes "macro_for m na nb f" "p + ax + na \<le> length src" "bx + nb \<le> length dst"
  shows "m src p ax dst bx = Some (take bx dst @ f (take na (drop (p + ax) src)) @ drop (bx + nb) dst)"
  using assms by (simp add: macro_for_def macro_at_def)

lemma macro_for_length: "macro_for m na nb f \<Longrightarrow> length g = na \<Longrightarrow> length (f g) = nb"
  by (simp add: macro_for_def macro_at_def)

lemma macro_for_read:
  assumes "\<And>src p ax dst bx. m src p ax dst bx = do { g \<leftarrow> rd_bytes src (p + ax) na; wr_bytes dst bx (h g) }"
    and "\<And>g. length g = na \<Longrightarrow> h g = f g \<and> length (f g) = nb"
  shows "macro_for m na nb f"
  using assms(2) by (simp add: macro_for_def macro_at_def assms(1) wr_bytes_def)

text \<open>The condition of the loops, and the destination after \<open>n\<close> groups.\<close>

definition group_fits :: "nat \<Rightarrow> nat \<Rightarrow> int option \<Rightarrow> nat \<Rightarrow> nat \<Rightarrow> nat \<Rightarrow> nat \<Rightarrow> int \<Rightarrow> bool" where
  "group_fits bi bo ww n_in n_out ip op w \<longleftrightarrow> op + bo * 8 \<le> n_out \<and> ip + bi * 8 \<le> n_in
     \<and> (case ww of None \<Rightarrow> True | Some ww \<Rightarrow> w < ww)"

definition written :: "nat \<Rightarrow> nat \<Rightarrow> (u8 list \<Rightarrow> u8 list) \<Rightarrow> nat \<Rightarrow> u8 list \<Rightarrow> nat \<Rightarrow> nat \<Rightarrow> u8 list \<Rightarrow> u8 list" where
  "written bi bo f n src ip op dst =
     take op dst @ concat (map f (chunks (bi * 8) n (drop ip src))) @ drop (op + n * (bo * 8)) dst"

locale pixel_macro =
  fixes m :: pixel_macro and bi bo :: nat and f :: "u8 list \<Rightarrow> u8 list"
  assumes bi: "0 < bi" and bo: "0 < bo"
    and f_length: "length g = bi * 8 \<Longrightarrow> length (f g) = bo * 8"
    and m_run: "ip + bi * 8 \<le> length src \<Longrightarrow> op + bo * 8 \<le> length dst \<Longrightarrow>
      m src ip 0 dst op = Some (take op dst @ f (take (bi * 8) (drop ip src)) @ drop (op + bo * 8) dst)"
begin

lemma run_unfold:
  "convert_run m bi bo ww src n_in n_out ip op w dst =
     (if group_fits bi bo ww n_in n_out ip op w
      then do { dst \<leftarrow> m src ip 0 dst op;
                convert_run m bi bo ww src n_in n_out (ip + bi * 8) (op + bo * 8) (w + 8) dst }
      else Some dst)"
  by (subst convert_run.simps) (auto simp: group_fits_def of_nat_diff algebra_simps)

lemma concat_length:
  assumes "ip + n * (bi * 8) \<le> length src"
  shows "length (concat (map f (chunks (bi * 8) n (drop ip src)))) = n * (bo * 8)"
proof -
  have "n * (bi * 8) \<le> length (drop ip src)" using assms by simp
  then have "\<And>c. c \<in> set (chunks (bi * 8) n (drop ip src)) \<Longrightarrow> length (f c) = bo * 8"
    using chunks_lengths f_length by blast
  then show ?thesis by (subst length_concat_const [where k = "bo * 8"]) auto
qed

lemma written_length:
  assumes "ip + n * (bi * 8) \<le> length src" "op + n * (bo * 8) \<le> length dst"
  shows "length (written bi bo f n src ip op dst) = length dst"
  using assms concat_length [OF assms(1)] by (simp add: written_def)

text \<open>The loop for as many groups as its condition allows.\<close>

lemma run_groups:
  assumes "n_in \<le> length src" "n_out \<le> length dst"
    and "\<And>k. k < n \<Longrightarrow> group_fits bi bo ww n_in n_out (ip + k * (bi * 8)) (op + k * (bo * 8)) (w + 8 * int k)"
    and "\<not> group_fits bi bo ww n_in n_out (ip + n * (bi * 8)) (op + n * (bo * 8)) (w + 8 * int n)"
  shows "convert_run m bi bo ww src n_in n_out ip op w dst = Some (written bi bo f n src ip op dst)"
  using assms(2,3,4)
proof (induction n arbitrary: ip op w dst)
  case 0
  then show ?case by (subst run_unfold) (simp add: written_def)
next
  case (Suc n)
  have m: "group_fits bi bo ww n_in n_out ip op w" using Suc.prems(2) [of 0] by simp
  let ?g = "f (take (bi * 8) (drop ip src))"
  let ?d = "take op dst @ ?g @ drop (op + bo * 8) dst"
  have b: "ip + bi * 8 \<le> length src" "op + bo * 8 \<le> length dst"
    using m assms(1) Suc.prems(1) by (auto simp: group_fits_def)
  have l: "length ?g = bo * 8" using b by (intro f_length) simp
  have e: "group_fits bi bo ww n_in n_out (ip + bi * 8 + k * (bi * 8)) (op + bo * 8 + k * (bo * 8)) (w + 8 + 8 * int k)
      = group_fits bi bo ww n_in n_out (ip + Suc k * (bi * 8)) (op + Suc k * (bo * 8)) (w + 8 * int (Suc k))" for k
    by (simp add: algebra_simps)
  have ih: "convert_run m bi bo ww src n_in n_out (ip + bi * 8) (op + bo * 8) (w + 8) ?d =
      Some (written bi bo f n src (ip + bi * 8) (op + bo * 8) ?d)"
  proof (rule Suc.IH)
    show "n_out \<le> length ?d" using b l Suc.prems(1) by simp
    show "group_fits bi bo ww n_in n_out (ip + bi * 8 + k * (bi * 8)) (op + bo * 8 + k * (bo * 8)) (w + 8 + 8 * int k)"
      if "k < n" for k using that unfolding e by (intro Suc.prems(2)) simp
    show "\<not> group_fits bi bo ww n_in n_out (ip + bi * 8 + n * (bi * 8)) (op + bo * 8 + n * (bo * 8)) (w + 8 + 8 * int n)"
      unfolding e by (rule Suc.prems(3))
  qed
  have "written bi bo f n src (ip + bi * 8) (op + bo * 8) ?d = written bi bo f (Suc n) src ip op dst"
    using b l by (simp add: written_def) (simp add: algebra_simps)
  then show ?case using m ih m_run [OF b] by (subst run_unfold) simp
qed

lemma run_total:
  assumes "n_in \<le> length src" "n_out \<le> length dst"
  obtains n where "convert_run m bi bo ww src n_in n_out ip op w dst = Some (written bi bo f n src ip op dst)"
    "\<And>k. k < n \<Longrightarrow> group_fits bi bo ww n_in n_out (ip + k * (bi * 8)) (op + k * (bo * 8)) (w + 8 * int k)"
    "\<not> group_fits bi bo ww n_in n_out (ip + n * (bi * 8)) (op + n * (bo * 8)) (w + 8 * int n)"
proof -
  let ?P = "\<lambda>n. \<not> group_fits bi bo ww n_in n_out (ip + n * (bi * 8)) (op + n * (bo * 8)) (w + 8 * int n)"
  have "?P (Suc n_out)"
  proof -
    have "n_out < Suc n_out * (bo * 8)" using bo by (cases bo) (simp_all add: algebra_simps)
    then show ?thesis by (simp add: group_fits_def)
  qed
  then have P: "?P (LEAST n. ?P n)" by (rule LeastI)
  have L: "\<not> ?P k" if "k < (LEAST n. ?P n)" for k using not_less_Least [OF that] .
  show thesis
  proof (rule that [of "LEAST n. ?P n"])
    show "group_fits bi bo ww n_in n_out (ip + k * (bi * 8)) (op + k * (bo * 8)) (w + 8 * int k)"
      if "k < (LEAST n. ?P n)" for k using L [OF that] by simp
    then show "convert_run m bi bo ww src n_in n_out ip op w dst =
        Some (written bi bo f (LEAST n. ?P n) src ip op dst)"
      using P by (intro run_groups [OF assms]) simp_all
  qed (rule P)
qed

lemma run_length:
  assumes "n_in \<le> length src" "n_out \<le> length dst"
  shows "\<exists>dst'. convert_run m bi bo ww src n_in n_out ip op w dst = Some dst' \<and> length dst' = length dst"
proof -
  obtain n where n: "convert_run m bi bo ww src n_in n_out ip op w dst = Some (written bi bo f n src ip op dst)"
    "\<And>k. k < n \<Longrightarrow> group_fits bi bo ww n_in n_out (ip + k * (bi * 8)) (op + k * (bo * 8)) (w + 8 * int k)"
    by (rule run_total [OF assms, of ww ip op w]) blast
  show ?thesis
  proof (cases n)
    case 0
    then show ?thesis using n(1) by (simp add: written_def)
  next
    case (Suc k)
    then have "ip + n * (bi * 8) \<le> length src" "op + n * (bo * 8) \<le> length dst"
      using n(2) [of k] assms by (auto simp: group_fits_def algebra_simps)
    then show ?thesis using n(1) written_length by auto
  qed
qed

lemma run_flat:
  assumes "n_in \<le> length src" "n_out \<le> length dst"
  shows "convert_run m bi bo None src n_in n_out 0 0 w dst =
    Some (written bi bo f (min (n_in div (bi * 8)) (n_out div (bo * 8))) src 0 0 dst)"
proof (rule run_groups [OF assms])
  let ?n = "min (n_in div (bi * 8)) (n_out div (bo * 8))"
  have k: "Suc k * (bi * 8) \<le> n_in \<and> Suc k * (bo * 8) \<le> n_out \<longleftrightarrow> k < ?n" for k
  proof -
    have "Suc k * (bi * 8) \<le> n_in \<longleftrightarrow> Suc k \<le> n_in div (bi * 8)"
      using bi by (intro less_eq_div_iff_mult_less_eq [symmetric]) simp
    moreover have "Suc k * (bo * 8) \<le> n_out \<longleftrightarrow> Suc k \<le> n_out div (bo * 8)"
      using bo by (intro less_eq_div_iff_mult_less_eq [symmetric]) simp
    ultimately show ?thesis by (simp only: min_less_iff_conj Suc_le_eq)
  qed
  show "group_fits bi bo None n_in n_out (0 + k * (bi * 8)) (0 + k * (bo * 8)) (w + 8 * int k)"
    if "k < ?n" for k using that k [of k] by (simp add: group_fits_def add.commute)
  show "\<not> group_fits bi bo None n_in n_out (0 + ?n * (bi * 8)) (0 + ?n * (bo * 8)) (w + 8 * int ?n)"
    using k [of ?n] by (auto simp: group_fits_def add.commute)
qed

text \<open>A row of \<open>8 * n\<close> pixels that lies in both buffers.\<close>

lemma run_row:
  assumes "n_in \<le> length src" "n_out \<le> length dst"
    and "ip + n * (bi * 8) \<le> n_in" "op + n * (bo * 8) \<le> n_out"
  shows "convert_run m bi bo (Some (8 * int n)) src n_in n_out ip op 0 dst =
    Some (written bi bo f n src ip op dst)"
proof (rule run_groups [OF assms(1,2)])
  show "group_fits bi bo (Some (8 * int n)) n_in n_out (ip + k * (bi * 8)) (op + k * (bo * 8)) (0 + 8 * int k)"
    if "k < n" for k
  proof -
    have "Suc k * (bi * 8) \<le> n * (bi * 8)" "Suc k * (bo * 8) \<le> n * (bo * 8)"
      using that by (intro mult_le_mono1; simp)+
    then show ?thesis using assms(3,4) that by (simp add: group_fits_def)
  qed
  show "\<not> group_fits bi bo (Some (8 * int n)) n_in n_out (ip + n * (bi * 8)) (op + n * (bo * 8)) (0 + 8 * int n)"
    by (simp add: group_fits_def)
qed

lemma rows_length:
  assumes "n_in \<le> length src" "n_out \<le> length dst"
  shows "\<exists>dst'. convert_rows (\<lambda>h. convert_run m bi bo ww src n_in n_out (si * h) (so * h) 0) hs dst = Some dst'
    \<and> length dst' = length dst"
  using assms(2)
proof (induction hs arbitrary: dst)
  case (Cons h hs)
  obtain d where "convert_run m bi bo ww src n_in n_out (si * h) (so * h) 0 dst = Some d" "length d = length dst"
    using run_length [OF assms(1) Cons.prems, of ww "si * h" "so * h" 0] by blast
  with Cons.IH [of d] Cons.prems show ?case by auto
qed simp

text \<open>Rows that follow each other in the destination.\<close>

lemma rows_tile:
  assumes "n_in \<le> length src" "n_out \<le> length dst" "0 < n" "n * (bi * 8) \<le> si"
    and "hs = [k..<k + r]" "0 < r \<longrightarrow> si * (k + r - 1) + n * (bi * 8) \<le> n_in" "(k + r) * (n * (bo * 8)) \<le> n_out"
  shows "convert_rows (\<lambda>h. convert_run m bi bo (Some (8 * int n)) src n_in n_out (si * h) (n * (bo * 8) * h) 0) hs dst =
    Some (take (k * (n * (bo * 8))) dst
      @ concat (map (\<lambda>h. concat (map f (chunks (bi * 8) n (drop (si * h) src)))) hs)
      @ drop ((k + r) * (n * (bo * 8))) dst)"
  using assms
proof (induction r arbitrary: k hs dst)
  case 0
  then show ?case by simp
next
  case (Suc r)
  let ?row = "\<lambda>h. concat (map f (chunks (bi * 8) n (drop (si * h) src)))"
  let ?w = "n * (bo * 8)"
  have hs: "hs = k # [Suc k..<Suc k + r]" using Suc.prems(5) by (simp add: upt_conv_Cons)
  have last: "si * k + n * (bi * 8) \<le> n_in"
  proof -
    have "si * k \<le> si * (k + Suc r - 1)" by (intro mult_le_mono2) simp
    then show ?thesis using Suc.prems(6) by linarith
  qed
  have o: "?w * k + ?w \<le> n_out"
  proof -
    have "(k + 1) * ?w \<le> (k + Suc r) * ?w" by (intro mult_le_mono1) simp
    then show ?thesis using Suc.prems(7) by (simp add: algebra_simps)
  qed
  let ?d = "written bi bo f n src (si * k) (?w * k) dst"
  have row: "convert_run m bi bo (Some (8 * int n)) src n_in n_out (si * k) (?w * k) 0 dst = Some ?d"
    by (rule run_row [OF Suc.prems(1,2) last o])
  have cl: "length (?row k) = ?w" using last Suc.prems(1) by (intro concat_length) simp
  have dl: "length ?d = length dst" using last o Suc.prems(1,2) by (intro written_length) auto
  have "convert_rows (\<lambda>h. convert_run m bi bo (Some (8 * int n)) src n_in n_out (si * h) (?w * h) 0)
      [Suc k..<Suc k + r] ?d =
    Some (take (Suc k * ?w) ?d @ concat (map ?row [Suc k..<Suc k + r]) @ drop ((Suc k + r) * ?w) ?d)"
    using Suc.prems dl by (intro Suc.IH) (auto simp: add.assoc)
  moreover have "take (Suc k * ?w) ?d = take (k * ?w) dst @ ?row k"
  proof -
    have "length (take (?w * k) dst) = k * ?w" using o Suc.prems(2) by (simp add: mult.commute)
    then show ?thesis using cl by (simp add: written_def mult.commute add.commute)
  qed
  moreover have "drop ((Suc k + r) * ?w) ?d = drop ((k + Suc r) * ?w) dst"
  proof -
    have l: "length (take (?w * k) dst @ ?row k) = Suc k * ?w" using o Suc.prems(2) cl
      by (simp add: mult.commute)
    have "(Suc k + r) * ?w = r * ?w + Suc k * ?w" by (simp add: add_mult_distrib)
    then have "drop ((Suc k + r) * ?w) ?d = drop (r * ?w) (drop (Suc k * ?w) ?d)"
      by (simp only: drop_drop)
    also have "drop (Suc k * ?w) ?d = drop (?w * k + ?w) dst"
      using l by (simp add: written_def flip: append_assoc)
    finally show ?thesis by (simp add: algebra_simps)
  qed
  ultimately show ?case by (simp add: hs row)
qed

end

section \<open>A reference for the macros\<close>

text \<open>
  An image is decoded pair of pixels by pair of pixels, and every pixel, three bytes of RGB, is
  encoded by itself.
\<close>

definition pair_with :: "(u8 list \<Rightarrow> u8 list list) \<Rightarrow> (u8 list \<Rightarrow> u8 list) \<Rightarrow> u8 list \<Rightarrow> u8 list" where
  "pair_with dec enc g = concat (map enc (dec g))"

definition ref_image :: "nat \<Rightarrow> (u8 list \<Rightarrow> u8 list list) \<Rightarrow> (u8 list \<Rightarrow> u8 list) \<Rightarrow> nat \<Rightarrow> u8 list \<Rightarrow> u8 list" where
  "ref_image bi dec enc n_pairs xs = concat (map (pair_with dec enc) (chunks (bi * 2) n_pairs xs))"

definition dec_rgb :: "u8 list \<Rightarrow> u8 list list" where
  "dec_rgb g = [take 3 g, drop 3 g]"

definition dec_yuyv :: "u8 list \<Rightarrow> u8 list list" where
  "dec_yuyv g = [rgb_of (g ! 0) (g ! 1) (g ! 3), rgb_of (g ! 2) (g ! 1) (g ! 3)]"

definition dec_uyvy :: "u8 list \<Rightarrow> u8 list list" where
  "dec_uyvy g = [rgb_of (g ! 1) (g ! 0) (g ! 2), rgb_of (g ! 3) (g ! 0) (g ! 2)]"

definition enc_rgbx :: "u8 list \<Rightarrow> u8 list" where "enc_rgbx p = p @ [0xff]"

definition enc_565 :: "u8 list \<Rightarrow> u8 list" where "enc_565 p = rgb565_of (p ! 0) (p ! 1) (p ! 2)"

definition eight :: "nat \<Rightarrow> (u8 list \<Rightarrow> u8 list) \<Rightarrow> u8 list \<Rightarrow> u8 list" where
  "eight bi f = doubled (bi * 4) (doubled (bi * 2) f)"

lemmas dec_enc_defs = pair_with_def dec_rgb_def dec_yuyv_def dec_uyvy_def enc_rgbx_def enc_565_def
  rgb_of_def rgb565_of_def

lemma concat_doubled:
  "concat (map (doubled na f) (chunks (na * 2) n xs)) = concat (map f (chunks na (n * 2) xs))"
proof (induction n arbitrary: xs)
  case (Suc n)
  then show ?case by (simp add: doubled_def drop_take add.commute mult_2_right)
qed simp

lemma concat_eight:
  "concat (map (eight bi f) (chunks (bi * 8) n xs)) = concat (map f (chunks (bi * 2) (n * 4) xs))"
proof -
  have "bi * 8 = bi * 4 * 2" "bi * 4 = bi * 2 * 2" "n * 4 = n * 2 * 2" by simp_all
  then show ?thesis
    using concat_doubled [of "bi * 4" "doubled (bi * 2) f" n xs] concat_doubled [of "bi * 2" f "n * 2" xs]
    by (simp only: eight_def)
qed

lemma macro_at_eight:
  assumes "macro_at m src p (bi * 2) (bo * 2) f"
  shows "macro_at (twice (twice m (bi * 2) (bo * 2)) (bi * 4) (bo * 4)) src p (bi * 8) (bo * 8) (eight bi f)"
proof -
  have "bi * 8 = bi * 4 * 2" "bi * 4 = bi * 2 * 2" "bo * 8 = bo * 4 * 2" "bo * 4 = bo * 2 * 2" by simp_all
  then show ?thesis using macro_at_twice [OF macro_at_twice [OF assms]] by (simp only: eight_def)
qed

lemma macro_for_eight:
  "macro_for m (bi * 2) (bo * 2) f \<Longrightarrow>
     macro_for (twice (twice m (bi * 2) (bo * 2)) (bi * 4) (bo * 4)) (bi * 8) (bo * 8) (eight bi f)"
  unfolding macro_for_def by (blast intro: macro_at_eight)

lemma pixel_macro_from:
  assumes "macro_for m (bi * 8) (bo * 8) f" "0 < bi" "0 < bo"
  shows "pixel_macro m bi bo f"
  using assms macro_forD [OF assms(1), where ax = 0]
  by unfold_locales (auto dest: macro_for_length)

lemma rgb_parts:
  "length g = 6 \<Longrightarrow> take 3 g = [g ! 0, g ! 1, g ! 2] \<and> drop 3 g = [g ! 3, g ! 4, g ! 5]"
  by (intro conjI nth_equalityI) (auto simp: less_Suc_eq numeral_nat)

lemma rgb_of_length [simp]: "length (rgb_of y u v) = 3" "length (rgb565_of r g b) = 2"
  by (simp_all add: rgb_of_def rgb565_of_def)

lemma RGB2RGBX_2_for: "macro_for RGB2RGBX_2 6 8 (pair_with dec_rgb enc_rgbx)"
  by (rule macro_for_read, rule RGB2RGBX_2_def) (auto simp: dec_enc_defs dest!: rgb_parts)

lemma RGB2RGB565_2_for: "macro_for RGB2RGB565_2 6 4 (pair_with dec_rgb enc_565)"
  by (rule macro_for_read, rule RGB2RGB565_2_def) (auto simp: dec_enc_defs dest!: rgb_parts)

lemma IYUYV2RGB_2_for: "macro_for IYUYV2RGB_2 4 6 (pair_with dec_yuyv id)"
  by (rule macro_for_read, rule IYUYV2RGB_2_def) (auto simp: dec_enc_defs)

lemma IYUYV2RGBX_2_for: "macro_for IYUYV2RGBX_2 4 8 (pair_with dec_yuyv enc_rgbx)"
  by (rule macro_for_read, rule IYUYV2RGBX_2_def) (auto simp: dec_enc_defs)

lemma IUYVY2RGB_2_for: "macro_for IUYVY2RGB_2 4 6 (pair_with dec_uyvy id)"
  by (rule macro_for_read, rule IUYVY2RGB_2_def) (auto simp: dec_enc_defs)

lemma IUYVY2RGBX_2_for: "macro_for IUYVY2RGBX_2 4 8 (pair_with dec_uyvy enc_rgbx)"
  by (rule macro_for_read, rule IUYVY2RGBX_2_def) (auto simp: dec_enc_defs)

lemma IUYVY2BGR_2_for: "macro_for IUYVY2BGR_2 4 6 (pair_with dec_uyvy rev)"
  by (rule macro_for_read, rule IUYVY2BGR_2_def) (auto simp: dec_enc_defs)

lemma via_tmp_for:
  assumes "macro_for m (bi * 8) 24 f"
  shows "macro_for (via_tmp m) (bi * 8) 16 (\<lambda>g. eight 3 (pair_with dec_rgb enc_565) (f g))"
proof -
  have r: "macro_for RGB2RGB565_8 24 16 (eight 3 (pair_with dec_rgb enc_565))"
    using macro_for_eight [of RGB2RGB565_2 3 2 "pair_with dec_rgb enc_565"] RGB2RGB565_2_for
    by (simp add: RGB2RGB565_8_def)
  show ?thesis
    unfolding macro_for_def macro_at_def
  proof (intro conjI allI impI)
    show "length (eight 3 (pair_with dec_rgb enc_565) (f g)) = 16" if "length g = bi * 8" for g
      using macro_for_length [OF r] macro_for_length [OF assms that] by simp
    fix src dst :: "u8 list" and p ax bx
    assume a: "p + ax + bi * 8 \<le> length src" "bx + 16 \<le> length dst"
    have l: "length (f (take (bi * 8) (drop (p + ax) src))) = 24"
      using a by (intro macro_for_length [OF assms]) simp
    have m: "m src p ax (replicate 24 0) 0 = Some (f (take (bi * 8) (drop (p + ax) src)))"
      using macro_forD [OF assms a(1), of 0 "replicate 24 0"] l by simp
    show "via_tmp m src p ax dst bx = Some (take bx dst
        @ eight 3 (pair_with dec_rgb enc_565) (f (take (bi * 8) (drop (p + ax) src))) @ drop (bx + 16) dst)"
      using macro_forD [OF r, of 0 0 "f (take (bi * 8) (drop (p + ax) src))" bx dst] l a(2)
      by (simp add: via_tmp_def m)
  qed
qed

text \<open>Eight pixels through RGB888 are eight pixels in RGB565.\<close>

lemma doubled_comp:
  assumes "\<And>g. length g = na \<Longrightarrow> A (B g) = C g \<and> length (B g) = nb" "length g = na * 2"
  shows "doubled nb A (doubled na B g) = doubled na C g \<and> length (doubled na B g) = nb * 2"
  using assms(1) [of "take na g"] assms(1) [of "drop na g"] assms(2) by (simp add: doubled_def)

lemma eight_comp:
  assumes "\<And>g. length g = bi * 2 \<Longrightarrow> A (B g) = C g \<and> length (B g) = 6" "length g = bi * 8"
  shows "eight 3 A (eight bi B g) = eight bi C g"
proof -
  have 2: "doubled 6 A (doubled (bi * 2) B g) = doubled (bi * 2) C g \<and> length (doubled (bi * 2) B g) = 12"
    if "length g = bi * 4" for g
    using doubled_comp [of "bi * 2" A B C 6 g] assms(1) that by simp
  show ?thesis
    using doubled_comp [of "bi * 4" "doubled 6 A" "doubled (bi * 2) B" "doubled (bi * 2) C" 12 g] 2 assms(2)
    by (simp add: eight_def)
qed

lemma macro_for_cong:
  assumes "macro_for m na nb f" "\<And>g. length g = na \<Longrightarrow> f g = f' g"
  shows "macro_for m na nb f'"
  using assms by (simp add: macro_for_def macro_at_def)

lemma via_tmp_yuyv: "macro_for (via_tmp IYUYV2RGB_8) (2 * 8) (2 * 8) (eight 2 (pair_with dec_yuyv enc_565))"
proof -
  have m: "macro_for IYUYV2RGB_8 (2 * 8) 24 (eight 2 (pair_with dec_yuyv id))"
    using macro_for_eight [of IYUYV2RGB_2 2 3 "pair_with dec_yuyv id"] IYUYV2RGB_2_for
    by (simp add: IYUYV2RGB_8_def)
  have "macro_for (via_tmp IYUYV2RGB_8) (2 * 8) 16 (eight 2 (pair_with dec_yuyv enc_565))"
    by (rule macro_for_cong [OF via_tmp_for [OF m]], rule eight_comp) (auto simp: dec_enc_defs)
  then show ?thesis by simp
qed

lemma via_tmp_uyvy: "macro_for (via_tmp IUYVY2RGB_8) (2 * 8) (2 * 8) (eight 2 (pair_with dec_uyvy enc_565))"
proof -
  have m: "macro_for IUYVY2RGB_8 (2 * 8) 24 (eight 2 (pair_with dec_uyvy id))"
    using macro_for_eight [of IUYVY2RGB_2 2 3 "pair_with dec_uyvy id"] IUYVY2RGB_2_for
    by (simp add: IUYVY2RGB_8_def)
  have "macro_for (via_tmp IUYVY2RGB_8) (2 * 8) 16 (eight 2 (pair_with dec_uyvy enc_565))"
    by (rule macro_for_cong [OF via_tmp_for [OF m]], rule eight_comp) (auto simp: dec_enc_defs)
  then show ?thesis by simp
qed

text \<open>The YUYV to BGR macro: the chrominance of the first pair for all eight pixels.\<close>

definition dec_first_chroma :: "u8 \<Rightarrow> u8 \<Rightarrow> u8 list \<Rightarrow> u8 list list" where
  "dec_first_chroma d1 d3 g = [rgb_of (g ! 0) d1 d3, rgb_of (g ! 2) d1 d3]"

definition bgr_group :: "u8 list \<Rightarrow> u8 list" where
  "bgr_group g = eight 2 (pair_with (dec_first_chroma (g ! 1) (g ! 3)) rev) g"

lemma IYUYV2BGR_2_at:
  assumes "p + 4 \<le> length src"
  shows "macro_at IYUYV2BGR_2 src p 4 6 (pair_with (dec_first_chroma (src ! (p + 1)) (src ! (p + 3))) rev)"
  using assms by (auto simp: macro_at_def IYUYV2BGR_2_def pair_with_def dec_first_chroma_def wr_bytes_def)

lemma IYUYV2BGR_8_run:
  assumes "ip + 2 * 8 \<le> length src" "op + 3 * 8 \<le> length dst"
  shows "IYUYV2BGR_8 src ip 0 dst op =
    Some (take op dst @ bgr_group (take (2 * 8) (drop ip src)) @ drop (op + 3 * 8) dst)"
proof -
  have "macro_at IYUYV2BGR_8 src ip (2 * 8) (3 * 8)
      (eight 2 (pair_with (dec_first_chroma (src ! (ip + 1)) (src ! (ip + 3))) rev))"
    using macro_at_eight [of IYUYV2BGR_2 src ip 2 3] IYUYV2BGR_2_at [of ip src] assms(1)
    by (simp add: IYUYV2BGR_8_def)
  from macro_atD [OF this, of 0 op dst] assms show ?thesis
    by (simp add: bgr_group_def)
qed

lemma bgr_group_length: "length g = 2 * 8 \<Longrightarrow> length (bgr_group g) = 3 * 8"
  by (simp add: bgr_group_def eight_def doubled_def pair_with_def dec_first_chroma_def)

section \<open>Whole frames\<close>

definition buffer_ok :: "uvc_frame \<Rightarrow> bool" where
  "buffer_ok frame \<longleftrightarrow> (\<forall>d. uf_data frame = Some d \<longrightarrow> length d = uf_data_bytes frame)"

lemma sint_small:
  fixes x :: u32
  assumes "unat x < 2 ^ 31"
  shows "sint x = int (unat x)"
proof -
  have "uint x < 2 ^ 31"
    using assms unfolding unat_eq_nat_uint by (subst (asm) nat_less_iff) simp_all
  moreover have "- (2 ^ 31) \<le> uint x" by (rule order.trans [of _ 0]) simp_all
  ultimately have "signed_take_bit 31 (uint x) = uint x" by (intro signed_take_bit_int_eq_self)
  then have "sint x = uint x" by (simp only: sint_uint) simp
  then show ?thesis by (simp only: uint_nat)
qed

lemma realloc_length: "heap_ok heap \<Longrightarrow> c_realloc heap old n = Some d \<Longrightarrow> length d = n"
  by (auto simp: c_realloc_def heap_ok_def split: option.splits)

lemma ensure_ok:
  assumes "heap_ok heap" "buffer_ok out" "uvc_ensure_frame_size heap out n = (ret, out')"
  shows "buffer_ok out'" "ret = UVC_SUCCESS \<or> ret = UVC_ERROR_NO_MEM"
    "uf_library_owns_data out' = uf_library_owns_data out" "uf_step out' = uf_step out"
    "ret = UVC_SUCCESS \<Longrightarrow> \<exists>d. uf_data out' = Some d \<and> n \<le> length d
      \<and> (uf_library_owns_data out \<longrightarrow> length d = n)"
proof -
  have r: "length d = n" if "c_realloc heap (uf_data out) n = Some d" for d
    using realloc_length [OF assms(1) that] .
  show "buffer_ok out'"
    using assms(2,3) r by (auto simp: uvc_ensure_frame_size_def buffer_ok_def Let_def split: if_splits)
  show "ret = UVC_SUCCESS \<or> ret = UVC_ERROR_NO_MEM"
    "uf_library_owns_data out' = uf_library_owns_data out" "uf_step out' = uf_step out"
    using assms(3) by (auto simp: uvc_ensure_frame_size_def Let_def split: if_splits)
  show "\<exists>d. uf_data out' = Some d \<and> n \<le> length d \<and> (uf_library_owns_data out \<longrightarrow> length d = n)"
    if "ret = UVC_SUCCESS"
    using assms(2,3) that r by (auto simp: uvc_ensure_frame_size_def buffer_ok_def Let_def split: if_splits)
qed

text \<open>A buffer the library owns, with memory to grow it.\<close>

lemma ensure_owned:
  assumes "heap_ok heap" "buffer_ok out" "uf_library_owns_data out" "heap n \<noteq> None" "n \<noteq> 0"
  obtains out' d where "uvc_ensure_frame_size heap out n = (UVC_SUCCESS, out')" "uf_data out' = Some d"
    "length d = n" "uf_data_bytes out' = n" "uf_library_owns_data out'"
proof -
  obtain ret out' where e: "uvc_ensure_frame_size heap out n = (ret, out')" by (rule prod.exhaust)
  have r: "ret = UVC_SUCCESS"
    using e assms(3,4,5) by (auto simp: uvc_ensure_frame_size_def c_realloc_def Let_def split: if_splits)
  obtain d where d: "uf_data out' = Some d" "length d = n"
    using ensure_ok(5) [OF assms(1,2) e r] assms(3) by blast
  then have "uf_data_bytes out' = n" using ensure_ok(1) [OF assms(1,2) e] by (simp add: buffer_ok_def)
  then show thesis using that e r d ensure_ok(3) [OF assms(1,2) e] assms(3) by blast
qed

lemma converted_fields_simps [simp]:
  "uf_data (converted_fields fmt bo inp out) = uf_data out"
  "uf_data_bytes (converted_fields fmt bo inp out) = uf_data_bytes out"
  "uf_width (converted_fields fmt bo inp out) = uf_width inp"
  "uf_height (converted_fields fmt bo inp out) = uf_height inp"
  "uf_frame_format (converted_fields fmt bo inp out) = fmt"
  by (simp_all add: converted_fields_def)

context pixel_macro begin

lemma convert_pixels_total:
  assumes "uf_data inp = Some src" "uf_data_bytes inp \<le> length src"
    and "uf_data out = Some dst" "uf_data_bytes out \<le> length dst"
  shows "\<exists>d. convert_pixels m bi bo inp out = Some (UVC_SUCCESS, out\<lparr>uf_data := Some d\<rparr>) \<and> length d = length dst"
proof -
  let ?f = "\<lambda>ww si so hs. convert_rows (\<lambda>h. convert_run m bi bo ww src (uf_data_bytes inp) (uf_data_bytes out)
      (si * h) (so * h) 0) hs dst"
  have r: "\<exists>d. ?f ww si so hs = Some d \<and> length d = length dst" for ww si so hs
    using rows_length [OF assms(2,4)] .
  show ?thesis
  proof (cases "uf_step inp \<noteq> 0 \<and> uf_step out \<noteq> 0 \<and> uf_step inp \<noteq> uf_step out")
    case True
    then show ?thesis
      using r [of "Some (sint (if uf_width inp < uf_width out then uf_width inp else uf_width out))" "uf_step inp"
        "uf_step out" "[0..<nat (sint (if uf_height inp < uf_height out then uf_height inp else uf_height out))]"]
        assms by (auto simp: convert_pixels_def Let_def)
  next
    case False
    then show ?thesis using run_length [OF assms(2,4), of None 0 0 0] assms
      by (auto simp: convert_pixels_def)
  qed
qed

lemma convert_frame_total:
  assumes "heap_ok heap" "buffer_ok inp" "uf_data inp \<noteq> None" "buffer_ok out"
  shows "\<exists>ret out'. convert_frame heap from_fmt to_fmt m bi bo inp out = Some (ret, out') \<and> buffer_ok out'
    \<and> ret \<in> {UVC_SUCCESS, UVC_ERROR_INVALID_PARAM, UVC_ERROR_NO_MEM}
    \<and> (ret = UVC_SUCCESS \<longrightarrow> uf_width out' = uf_width inp \<and> uf_height out' = uf_height inp
        \<and> uf_frame_format inp = from_fmt \<and> uf_frame_format out' = to_fmt)"
proof (cases "uf_frame_format inp = from_fmt")
  case False
  then show ?thesis using assms(4) by (simp add: convert_frame_def)
next
  case True
  let ?n = "unat (uf_width inp * uf_height inp * of_nat bo)"
  obtain ret o1 where e: "uvc_ensure_frame_size heap out ?n = (ret, o1)" by (rule prod.exhaust)
  note ok = ensure_ok [OF assms(1,4) e]
  show ?thesis
  proof (cases "ret = UVC_SUCCESS")
    case False
    then show ?thesis using True e ok(1,2) by (simp add: convert_frame_def)
  next
    case ret: True
    obtain src where s: "uf_data inp = Some src" "length src = uf_data_bytes inp"
      using assms(2,3) by (auto simp: buffer_ok_def)
    obtain d where d: "uf_data o1 = Some d" using ok(5) ret by blast
    then have dl: "length d = uf_data_bytes o1" using ok(1) by (simp add: buffer_ok_def)
    let ?o = "converted_fields to_fmt bo inp o1"
    obtain d' where c: "convert_pixels m bi bo inp ?o = Some (UVC_SUCCESS, ?o\<lparr>uf_data := Some d'\<rparr>)"
      "length d' = length d"
      using convert_pixels_total [of inp src ?o d] s d dl by auto
    then have "convert_frame heap from_fmt to_fmt m bi bo inp out = Some (UVC_SUCCESS, ?o\<lparr>uf_data := Some d'\<rparr>)"
      using True e ret by (simp add: convert_frame_def)
    then show ?thesis using c(2) dl True by (auto simp: buffer_ok_def)
  qed
qed

lemma convert_pixels_rows:
  assumes "uf_data inp = Some src" "length src = uf_data_bytes inp"
    and "uf_data out = Some d" "length d = uf_data_bytes out" "uf_data_bytes out = n * r * (bo * 8)"
    and "sint (uf_width inp) = 8 * int n" "uf_width out = uf_width inp"
    and "sint (uf_height inp) = int r" "uf_height out = uf_height inp" "uf_step out = n * (bo * 8)"
    and "0 < n" "0 < r" "n * (bi * 8) \<le> uf_step inp" "uf_step inp * (r - 1) + n * (bi * 8) \<le> length src"
    and "uf_step inp \<noteq> n * (bo * 8)"
  shows "convert_pixels m bi bo inp out = Some (UVC_SUCCESS, out\<lparr>uf_data := Some
    (concat (map (\<lambda>h. concat (map f (chunks (bi * 8) n (drop (uf_step inp * h) src)))) [0..<r]))\<rparr>)"
proof -
  have s: "uf_step inp \<noteq> 0 \<and> uf_step out \<noteq> 0 \<and> uf_step inp \<noteq> uf_step out"
  proof -
    have "0 < n * (bi * 8)" "0 < n * (bo * 8)" using assms(11) bi bo by simp_all
    then show ?thesis using assms(10,13,15) by linarith
  qed
  have t: "convert_rows (\<lambda>h. convert_run m bi bo (Some (8 * int n)) src (uf_data_bytes inp) (uf_data_bytes out)
        (uf_step inp * h) (n * (bo * 8) * h) 0) [0..<r] d =
      Some (take (0 * (n * (bo * 8))) d
        @ concat (map (\<lambda>h. concat (map f (chunks (bi * 8) n (drop (uf_step inp * h) src)))) [0..<r])
        @ drop ((0 + r) * (n * (bo * 8))) d)"
    using assms by (intro rows_tile) (auto simp: algebra_simps)
  have z: "length d \<le> (0 + r) * (n * (bo * 8))" using assms(4,5) by (simp add: algebra_simps)
  show ?thesis using t z s by (simp add: convert_pixels_def assms)
qed

lemma convert_pixels_flat:
  assumes "uf_data inp = Some src" "length src = uf_data_bytes inp"
    and "uf_data out = Some d" "length d = uf_data_bytes out" "uf_data_bytes out = k * (bo * 8)"
    and "uf_data_bytes inp = k * (bi * 8)" "uf_step inp = 0 \<or> uf_step inp = uf_step out"
  shows "convert_pixels m bi bo inp out =
    Some (UVC_SUCCESS, out\<lparr>uf_data := Some (concat (map f (chunks (bi * 8) k src)))\<rparr>)"
proof -
  have "min (uf_data_bytes inp div (bi * 8)) (uf_data_bytes out div (bo * 8)) = k"
    using bi bo by (simp add: assms(5,6))
  moreover have "convert_run m bi bo None src (uf_data_bytes inp) (uf_data_bytes out) 0 0 0 d =
      Some (written bi bo f (min (uf_data_bytes inp div (bi * 8)) (uf_data_bytes out div (bo * 8))) src 0 0 d)"
    using assms(2,4) by (intro run_flat) simp_all
  ultimately show ?thesis using assms by (auto simp: convert_pixels_def written_def)
qed

text \<open>
  A frame of \<open>r\<close> rows of \<open>8 * n\<close> pixels: with a step that is not the output's, row by row; without
  a step, or with the output's, as a whole.
\<close>

lemma convert_frame_owned:
  assumes "heap_ok heap" "buffer_ok out" "uf_library_owns_data out" "heap (n * r * (bo * 8)) \<noteq> None"
    and "uf_frame_format inp = from_fmt" "uf_data inp = Some src" "buffer_ok inp"
    and "unat (uf_width inp) = 8 * n" "unat (uf_height inp) = r" "0 < n" "0 < r" "n * r * (bo * 8) < 2 ^ 31"
    and "rows \<longrightarrow> n * (bi * 8) \<le> uf_step inp \<and> uf_step inp * (r - 1) + n * (bi * 8) \<le> length src
      \<and> uf_step inp \<noteq> n * (bo * 8)"
    and "\<not> rows \<longrightarrow> length src = n * r * (bi * 8) \<and> (uf_step inp = 0 \<or> uf_step inp = n * (bo * 8))"
  shows "\<exists>out'. convert_frame heap from_fmt to_fmt m bi bo inp out = Some (UVC_SUCCESS, out')
    \<and> uf_width out' = uf_width inp \<and> uf_height out' = uf_height inp \<and> uf_frame_format out' = to_fmt
    \<and> uf_step out' = n * (bo * 8) \<and> uf_data out' = Some (if rows
      then concat (map (\<lambda>h. concat (map f (chunks (bi * 8) n (drop (uf_step inp * h) src)))) [0..<r])
      else concat (map f (chunks (bi * 8) (n * r) src)))"
proof -
  have b: "n * (bo * 8) \<le> n * r * (bo * 8)" "r \<le> n * r * (bo * 8)" "8 * n \<le> n * r * (bo * 8)" "bo \<le> n * r * (bo * 8)"
  proof -
    have p: "0 < n * r * (bo * 8)" using assms(10,11) bo by simp
    show "n * (bo * 8) \<le> n * r * (bo * 8)" by (rule dvd_imp_le [OF dvdI [of _ _ r] p]) simp
    show "r \<le> n * r * (bo * 8)" by (rule dvd_imp_le [OF dvdI [of _ _ "n * (bo * 8)"] p]) simp
    show "8 * n \<le> n * r * (bo * 8)" by (rule dvd_imp_le [OF dvdI [of _ _ "r * bo"] p]) simp
    show "bo \<le> n * r * (bo * 8)" by (rule dvd_imp_le [OF dvdI [of _ _ "n * r * 8"] p]) simp
  qed
  have of_w: "uf_width inp = of_nat (8 * n)" and of_h: "uf_height inp = of_nat r"
    by (simp_all only: flip: assms(8,9)) simp_all
  have wr: "unat (uf_width inp * uf_height inp * of_nat bo) = n * r * (bo * 8)"
  proof -
    have "uf_width inp * uf_height inp * of_nat bo = of_nat (8 * n * r * bo)"
      by (simp only: of_w of_h of_nat_mult)
    moreover have "8 * n * r * bo = n * r * (bo * 8)" by simp
    ultimately show ?thesis using assms(12) by (simp only: unat_of_nat) (simp add: take_bit_eq_mod)
  qed
  have st: "unat (uf_width inp * of_nat bo) = n * (bo * 8)"
  proof -
    have "uf_width inp * of_nat bo = of_nat (8 * n * bo)"
      by (simp only: of_w of_nat_mult)
    moreover have "8 * n * bo = n * (bo * 8)" by simp
    moreover have "n * (bo * 8) mod 2 ^ 32 = n * (bo * 8)"
    proof (rule mod_less)
      have "n * (bo * 8) < 2 ^ 31" using b(1) assms(12) by (rule order.strict_trans1)
      also have "(2 :: nat) ^ 31 < 2 ^ 32" by simp
      finally show "n * (bo * 8) < 2 ^ 32" .
    qed
    ultimately show ?thesis by (simp only: unat_of_nat) simp
  qed
  have sw: "sint (uf_width inp) = 8 * int n" "sint (uf_height inp) = int r"
  proof -
    have "unat (uf_width inp) < 2 ^ 31" "unat (uf_height inp) < 2 ^ 31"
      using order.strict_trans1 [OF b(3) assms(12)] order.strict_trans1 [OF b(2) assms(12)]
      by (simp_all only: assms(8,9))
    then show "sint (uf_width inp) = 8 * int n" "sint (uf_height inp) = int r"
      by (simp_all only: sint_small assms(8,9))
  qed
  obtain o1 d where e: "uvc_ensure_frame_size heap out (n * r * (bo * 8)) = (UVC_SUCCESS, o1)"
    "uf_data o1 = Some d" "length d = n * r * (bo * 8)" "uf_data_bytes o1 = n * r * (bo * 8)"
    "uf_library_owns_data o1"
    by (rule ensure_owned [OF assms(1-4)]) (use assms(10,11) bo in auto)
  let ?o = "converted_fields to_fmt bo inp o1"
  have so: "uf_step ?o = n * (bo * 8)" using e(5) st by (simp add: converted_fields_def)
  have sl: "length src = uf_data_bytes inp" using assms(6,7) by (simp add: buffer_ok_def)
  have "convert_frame heap from_fmt to_fmt m bi bo inp out = convert_pixels m bi bo inp ?o"
    by (simp add: convert_frame_def assms(5) wr e(1))
  also have "\<dots> = Some (UVC_SUCCESS, ?o\<lparr>uf_data := Some (if rows
      then concat (map (\<lambda>h. concat (map f (chunks (bi * 8) n (drop (uf_step inp * h) src)))) [0..<r])
      else concat (map f (chunks (bi * 8) (n * r) src)))\<rparr>)"
  proof (cases rows)
    case True
    then show ?thesis using assms(6,10,11,13) sl e(2-4) sw so
      by (subst convert_pixels_rows [where n = n and r = r]) simp_all
  next
    case False
    then show ?thesis using assms(6,14) sl e(2-4) so
      by (subst convert_pixels_flat [where k = "n * r"]) simp_all
  qed
  finally show ?thesis using so by simp
qed

end

section \<open>The macros of the code\<close>

lemma macros:
  "macro_for RGB2RGBX_8 (3 * 8) (4 * 8) (eight 3 (pair_with dec_rgb enc_rgbx))"
  "macro_for RGB2RGB565_8 (3 * 8) (2 * 8) (eight 3 (pair_with dec_rgb enc_565))"
  "macro_for IYUYV2RGB_8 (2 * 8) (3 * 8) (eight 2 (pair_with dec_yuyv id))"
  "macro_for IYUYV2RGBX_8 (2 * 8) (4 * 8) (eight 2 (pair_with dec_yuyv enc_rgbx))"
  "macro_for IUYVY2RGB_8 (2 * 8) (3 * 8) (eight 2 (pair_with dec_uyvy id))"
  "macro_for IUYVY2RGBX_8 (2 * 8) (4 * 8) (eight 2 (pair_with dec_uyvy enc_rgbx))"
  "macro_for IUYVY2BGR_8 (2 * 8) (3 * 8) (eight 2 (pair_with dec_uyvy rev))"
  using macro_for_eight [of RGB2RGBX_2 3 4] macro_for_eight [of RGB2RGB565_2 3 2]
    macro_for_eight [of IYUYV2RGB_2 2 3] macro_for_eight [of IYUYV2RGBX_2 2 4]
    macro_for_eight [of IUYVY2RGB_2 2 3] macro_for_eight [of IUYVY2RGBX_2 2 4]
    macro_for_eight [of IUYVY2BGR_2 2 3]
    RGB2RGBX_2_for RGB2RGB565_2_for IYUYV2RGB_2_for IYUYV2RGBX_2_for IUYVY2RGB_2_for
    IUYVY2RGBX_2_for IUYVY2BGR_2_for
  by (simp_all add: RGB2RGBX_8_def RGB2RGB565_8_def IYUYV2RGB_8_def IYUYV2RGBX_8_def IUYVY2RGB_8_def
      IUYVY2RGBX_8_def IUYVY2BGR_8_def)

interpretation rgb2rgbx: pixel_macro RGB2RGBX_8 3 4 "eight 3 (pair_with dec_rgb enc_rgbx)"
  by (rule pixel_macro_from, rule macros) simp_all

interpretation rgb2rgb565: pixel_macro RGB2RGB565_8 3 2 "eight 3 (pair_with dec_rgb enc_565)"
  by (rule pixel_macro_from, rule macros) simp_all

interpretation yuyv2rgb: pixel_macro IYUYV2RGB_8 2 3 "eight 2 (pair_with dec_yuyv id)"
  by (rule pixel_macro_from, rule macros) simp_all

interpretation yuyv2rgb565: pixel_macro "via_tmp IYUYV2RGB_8" 2 2 "eight 2 (pair_with dec_yuyv enc_565)"
  by (rule pixel_macro_from, rule via_tmp_yuyv) simp_all

interpretation yuyv2rgbx: pixel_macro IYUYV2RGBX_8 2 4 "eight 2 (pair_with dec_yuyv enc_rgbx)"
  by (rule pixel_macro_from, rule macros) simp_all

interpretation yuyv2bgr: pixel_macro IYUYV2BGR_8 2 3 bgr_group
  using bgr_group_length IYUYV2BGR_8_run by unfold_locales simp_all

interpretation uyvy2rgb: pixel_macro IUYVY2RGB_8 2 3 "eight 2 (pair_with dec_uyvy id)"
  by (rule pixel_macro_from, rule macros) simp_all

interpretation uyvy2rgb565: pixel_macro "via_tmp IUYVY2RGB_8" 2 2 "eight 2 (pair_with dec_uyvy enc_565)"
  by (rule pixel_macro_from, rule via_tmp_uyvy) simp_all

interpretation uyvy2rgbx: pixel_macro IUYVY2RGBX_8 2 4 "eight 2 (pair_with dec_uyvy enc_rgbx)"
  by (rule pixel_macro_from, rule macros) simp_all

interpretation uyvy2bgr: pixel_macro IUYVY2BGR_8 2 3 "eight 2 (pair_with dec_uyvy rev)"
  by (rule pixel_macro_from, rule macros) simp_all

section \<open>The table of the conversions\<close>

text \<open>
  Every conversion but YUYV to BGR, with its formats, the bytes of a pixel and the reference for a
  pair of pixels.
\<close>

record conversion =
  cv_run :: "uvc_frame \<Rightarrow> uvc_frame \<Rightarrow> (int \<times> uvc_frame) option"
  cv_from :: uvc_frame_format
  cv_to :: uvc_frame_format
  cv_in :: nat
  cv_out :: nat
  cv_dec :: "u8 list \<Rightarrow> u8 list list"
  cv_enc :: "u8 list \<Rightarrow> u8 list"

definition conversions :: "heap \<Rightarrow> conversion list" where
  "conversions heap = [
     \<lparr>cv_run = uvc_rgb2rgbx heap, cv_from = UVC_FRAME_FORMAT_RGB, cv_to = UVC_FRAME_FORMAT_RGBX,
       cv_in = 3, cv_out = 4, cv_dec = dec_rgb, cv_enc = enc_rgbx\<rparr>,
     \<lparr>cv_run = uvc_rgb2rgb565 heap, cv_from = UVC_FRAME_FORMAT_RGB, cv_to = UVC_FRAME_FORMAT_RGB565,
       cv_in = 3, cv_out = 2, cv_dec = dec_rgb, cv_enc = enc_565\<rparr>,
     \<lparr>cv_run = uvc_yuyv2rgb heap, cv_from = UVC_FRAME_FORMAT_YUYV, cv_to = UVC_FRAME_FORMAT_RGB,
       cv_in = 2, cv_out = 3, cv_dec = dec_yuyv, cv_enc = id\<rparr>,
     \<lparr>cv_run = uvc_yuyv2rgb565 heap, cv_from = UVC_FRAME_FORMAT_YUYV, cv_to = UVC_FRAME_FORMAT_RGB565,
       cv_in = 2, cv_out = 2, cv_dec = dec_yuyv, cv_enc = enc_565\<rparr>,
     \<lparr>cv_run = uvc_yuyv2rgbx heap, cv_from = UVC_FRAME_FORMAT_YUYV, cv_to = UVC_FRAME_FORMAT_RGBX,
       cv_in = 2, cv_out = 4, cv_dec = dec_yuyv, cv_enc = enc_rgbx\<rparr>,
     \<lparr>cv_run = uvc_uyvy2rgb heap, cv_from = UVC_FRAME_FORMAT_UYVY, cv_to = UVC_FRAME_FORMAT_RGB,
       cv_in = 2, cv_out = 3, cv_dec = dec_uyvy, cv_enc = id\<rparr>,
     \<lparr>cv_run = uvc_uyvy2rgb565 heap, cv_from = UVC_FRAME_FORMAT_UYVY, cv_to = UVC_FRAME_FORMAT_RGB565,
       cv_in = 2, cv_out = 2, cv_dec = dec_uyvy, cv_enc = enc_565\<rparr>,
     \<lparr>cv_run = uvc_uyvy2rgbx heap, cv_from = UVC_FRAME_FORMAT_UYVY, cv_to = UVC_FRAME_FORMAT_RGBX,
       cv_in = 2, cv_out = 4, cv_dec = dec_uyvy, cv_enc = enc_rgbx\<rparr>,
     \<lparr>cv_run = uvc_uyvy2bgr heap, cv_from = UVC_FRAME_FORMAT_UYVY, cv_to = UVC_FRAME_FORMAT_BGR,
       cv_in = 2, cv_out = 3, cv_dec = dec_uyvy, cv_enc = rev\<rparr>]"

lemmas conversion_defs = uvc_rgb2rgbx_def uvc_rgb2rgb565_def uvc_yuyv2rgb_def uvc_yuyv2rgb565_def
  uvc_yuyv2rgbx_def uvc_yuyv2bgr_def uvc_uyvy2rgb_def uvc_uyvy2rgb565_def uvc_uyvy2rgbx_def uvc_uyvy2bgr_def

text \<open>Each is \<open>convert_frame\<close> of a macro that is eight pixels of its reference.\<close>

lemma conversion_macro:
  assumes "c \<in> set (conversions heap)"
  obtains m where "cv_run c = convert_frame heap (cv_from c) (cv_to c) m (cv_in c) (cv_out c)"
    "pixel_macro m (cv_in c) (cv_out c) (eight (cv_in c) (pair_with (cv_dec c) (cv_enc c)))"
  using assms rgb2rgbx.pixel_macro_axioms rgb2rgb565.pixel_macro_axioms yuyv2rgb.pixel_macro_axioms
    yuyv2rgb565.pixel_macro_axioms yuyv2rgbx.pixel_macro_axioms uyvy2rgb.pixel_macro_axioms
    uyvy2rgb565.pixel_macro_axioms uyvy2rgbx.pixel_macro_axioms uyvy2bgr.pixel_macro_axioms
  by (auto simp: conversions_def conversion_defs)

lemma ref_image_eight:
  "concat (map (eight bi (pair_with dec enc)) (chunks (bi * 8) n xs)) = ref_image bi dec enc (n * 4) xs"
  by (simp add: ref_image_def concat_eight)

text \<open>
  A conversion out of a frame whose buffer has the announced size returns for every width,
  height and step: it stays inside both buffers, its code is success, a wrong format or missing
  memory, and the buffer of the output has its announced size again.
\<close>
theorem conversions_total:
  assumes "conv \<in> set (uvc_yuyv2bgr heap # map cv_run (conversions heap))"
    and "heap_ok heap" "buffer_ok inp" "uf_data inp \<noteq> None" "buffer_ok out"
  shows "\<exists>ret out'. conv inp out = Some (ret, out') \<and> buffer_ok out'
    \<and> ret \<in> {UVC_SUCCESS, UVC_ERROR_INVALID_PARAM, UVC_ERROR_NO_MEM}
    \<and> (ret = UVC_SUCCESS \<longrightarrow> uf_width out' = uf_width inp \<and> uf_height out' = uf_height inp)"
proof (cases "conv = uvc_yuyv2bgr heap")
  case True
  then show ?thesis
    using yuyv2bgr.convert_frame_total [OF assms(2-5), of UVC_FRAME_FORMAT_YUYV UVC_FRAME_FORMAT_BGR]
    by (auto simp: uvc_yuyv2bgr_def)
next
  case False
  with assms(1) obtain c where c: "c \<in> set (conversions heap)" "conv = cv_run c" by auto
  obtain m where m: "cv_run c = convert_frame heap (cv_from c) (cv_to c) m (cv_in c) (cv_out c)"
    "pixel_macro m (cv_in c) (cv_out c) (eight (cv_in c) (pair_with (cv_dec c) (cv_enc c)))"
    by (rule conversion_macro [OF c(1)])
  show ?thesis
    using pixel_macro.convert_frame_total [OF m(2) assms(2-5), of "cv_from c" "cv_to c"] c(2) m(1) by auto
qed

text \<open>
  Conversion of a frame of \<open>r\<close> rows of \<open>8 * n\<close> pixels whose rows are \<open>uf_step\<close> bytes apart (not
  the step of the output): every row of the output is the pixel by pixel reference of the row of
  the input, without the bytes between the rows, and the output is tight.
\<close>
theorem conversion_rows:
  assumes "c \<in> set (conversions heap)" "heap_ok heap" "heap (n * r * (cv_out c * 8)) \<noteq> None"
    and "buffer_ok out" "uf_library_owns_data out"
    and "uf_frame_format inp = cv_from c" "uf_data inp = Some src" "buffer_ok inp"
    and "unat (uf_width inp) = 8 * n" "unat (uf_height inp) = r" "0 < n" "0 < r"
    and "n * r * (cv_out c * 8) < 2 ^ 31"
    and "n * (cv_in c * 8) \<le> uf_step inp" "uf_step inp * (r - 1) + n * (cv_in c * 8) \<le> length src"
    and "uf_step inp \<noteq> n * (cv_out c * 8)"
  shows "\<exists>out'. cv_run c inp out = Some (UVC_SUCCESS, out')
    \<and> uf_width out' = uf_width inp \<and> uf_height out' = uf_height inp \<and> uf_frame_format out' = cv_to c
    \<and> uf_step out' = n * (cv_out c * 8)
    \<and> uf_data out' = Some (concat (map (\<lambda>h.
        ref_image (cv_in c) (cv_dec c) (cv_enc c) (n * 4) (drop (uf_step inp * h) src)) [0..<r]))"
proof -
  obtain m where m: "cv_run c = convert_frame heap (cv_from c) (cv_to c) m (cv_in c) (cv_out c)"
    "pixel_macro m (cv_in c) (cv_out c) (eight (cv_in c) (pair_with (cv_dec c) (cv_enc c)))"
    by (rule conversion_macro [OF assms(1)])
  show ?thesis
    using pixel_macro.convert_frame_owned [OF m(2) assms(2,4,5,3,6-13), of True "cv_to c"] assms(14-16)
    by (simp only: m(1) ref_image_eight) simp
qed

text \<open>
  C16. Conversion of a frame without padding, with the step of the output or none: the output is the
  pixel by pixel reference of the input.
\<close>
theorem conversion_whole:
  assumes "c \<in> set (conversions heap)" "heap_ok heap" "heap (n * r * (cv_out c * 8)) \<noteq> None"
    and "buffer_ok out" "uf_library_owns_data out"
    and "uf_frame_format inp = cv_from c" "uf_data inp = Some src" "buffer_ok inp"
    and "unat (uf_width inp) = 8 * n" "unat (uf_height inp) = r" "0 < n" "0 < r"
    and "n * r * (cv_out c * 8) < 2 ^ 31"
    and "length src = n * r * (cv_in c * 8)" "uf_step inp = 0 \<or> uf_step inp = n * (cv_out c * 8)"
  shows "\<exists>out'. cv_run c inp out = Some (UVC_SUCCESS, out')
    \<and> uf_width out' = uf_width inp \<and> uf_height out' = uf_height inp \<and> uf_frame_format out' = cv_to c
    \<and> uf_step out' = n * (cv_out c * 8)
    \<and> uf_data out' = Some (ref_image (cv_in c) (cv_dec c) (cv_enc c) (n * r * 4) src)"
proof -
  obtain m where m: "cv_run c = convert_frame heap (cv_from c) (cv_to c) m (cv_in c) (cv_out c)"
    "pixel_macro m (cv_in c) (cv_out c) (eight (cv_in c) (pair_with (cv_dec c) (cv_enc c)))"
    by (rule conversion_macro [OF assms(1)])
  show ?thesis
    using pixel_macro.convert_frame_owned [OF m(2) assms(2,4,5,3,6-13), of False "cv_to c"] assms(14,15)
    by (simp only: m(1) ref_image_eight) simp
qed

section \<open>Witnesses and boundaries of the conversions\<close>

declare convert_run.simps [code]

definition demo_heap :: heap where "demo_heap n = Some (replicate n 0)"

definition demo_image :: "uvc_frame_format \<Rightarrow> nat \<Rightarrow> u32 \<Rightarrow> u32 \<Rightarrow> u8 list \<Rightarrow> uvc_frame" where
  "demo_image fmt step w h d = \<lparr>uf_data = Some d, uf_data_bytes = length d, uf_actual_bytes = length d,
     uf_width = w, uf_height = h, uf_frame_format = fmt, uf_step = step, uf_sequence = 0,
     uf_library_owns_data = True\<rparr>"

lemma demo_simps [simp]:
  "heap_ok demo_heap" "buffer_ok (demo_image fmt step w h d)" "demo_heap n = Some (replicate n 0)"
  "uf_data (demo_image fmt step w h d) = Some d" "uf_data_bytes (demo_image fmt step w h d) = length d"
  "uf_width (demo_image fmt step w h d) = w" "uf_height (demo_image fmt step w h d) = h"
  "uf_step (demo_image fmt step w h d) = step" "uf_frame_format (demo_image fmt step w h d) = fmt"
  "uf_library_owns_data (demo_image fmt step w h d)"
  by (simp_all add: demo_heap_def heap_ok_def buffer_ok_def demo_image_def)

definition demo_conversion :: conversion where
  "demo_conversion = \<lparr>cv_run = uvc_yuyv2rgb demo_heap, cv_from = UVC_FRAME_FORMAT_YUYV,
     cv_to = UVC_FRAME_FORMAT_RGB, cv_in = 2, cv_out = 3, cv_dec = dec_yuyv, cv_enc = id\<rparr>"

lemma demo_conversion_in: "demo_conversion \<in> set (conversions demo_heap)"
  by (simp add: demo_conversion_def conversions_def)

theorem conversions_total_witness:
  "\<exists>ret out'. uvc_yuyv2bgr demo_heap (demo_image UVC_FRAME_FORMAT_YUYV 7 5 3 [1, 2, 3])
      (demo_image UVC_FRAME_FORMAT_RGB 0 0 0 []) = Some (ret, out') \<and> buffer_ok out'
    \<and> ret \<in> {UVC_SUCCESS, UVC_ERROR_INVALID_PARAM, UVC_ERROR_NO_MEM}"
  using conversions_total [of "uvc_yuyv2bgr demo_heap" demo_heap "demo_image UVC_FRAME_FORMAT_YUYV 7 5 3 [1, 2, 3]"
    "demo_image UVC_FRAME_FORMAT_RGB 0 0 0 []"] by auto

theorem conversion_rows_witness:
  "\<exists>out'. cv_run demo_conversion (demo_image UVC_FRAME_FORMAT_YUYV 20 8 2 (replicate 36 128))
      (demo_image UVC_FRAME_FORMAT_RGB 0 0 0 []) = Some (UVC_SUCCESS, out')
    \<and> uf_step out' = 24 \<and> uf_data out' = Some (concat (map (\<lambda>h.
        ref_image 2 dec_yuyv id 4 (drop (20 * h) (replicate 36 128))) [0..<2]))"
  using conversion_rows [OF demo_conversion_in demo_simps(1), of 1 2 "demo_image UVC_FRAME_FORMAT_RGB 0 0 0 []"
    "demo_image UVC_FRAME_FORMAT_YUYV 20 8 2 (replicate 36 128)" "replicate 36 128"]
  by (simp add: demo_conversion_def) blast

theorem conversion_whole_witness:
  "\<exists>out'. cv_run demo_conversion (demo_image UVC_FRAME_FORMAT_YUYV 0 8 1 (replicate 16 128))
      (demo_image UVC_FRAME_FORMAT_RGB 0 0 0 []) = Some (UVC_SUCCESS, out')
    \<and> uf_step out' = 24 \<and> uf_data out' = Some (ref_image 2 dec_yuyv id 4 (replicate 16 128))"
  using conversion_whole [OF demo_conversion_in demo_simps(1), of 1 1 "demo_image UVC_FRAME_FORMAT_RGB 0 0 0 []"
    "demo_image UVC_FRAME_FORMAT_YUYV 0 8 1 (replicate 16 128)" "replicate 16 128"]
  by (simp add: demo_conversion_def) blast

text \<open>
  YUYV to BGR takes the colour of all eight pixels of a group from its first two: a row that is
  grey in its first pair of pixels comes out grey, whatever the colour of the other three pairs,
  while YUYV to RGB shows it.
\<close>

definition grey_row :: "u8 list" where "grey_row = [90, 128, 90, 128] @ concat (replicate 3 [90, 128, 90, 128])"

definition red_row :: "u8 list" where "red_row = [90, 128, 90, 128] @ concat (replicate 3 [90, 110, 90, 240])"

definition data_after :: "(int \<times> uvc_frame) option \<Rightarrow> u8 list option" where
  "data_after r = do { (ret, out) \<leftarrow> r; uf_data out }"

theorem yuyv2bgr_loses_colour:
  "data_after (uvc_yuyv2bgr demo_heap (demo_image UVC_FRAME_FORMAT_YUYV 16 8 1 red_row)
      (demo_image UVC_FRAME_FORMAT_BGR 0 0 0 [])) =
     data_after (uvc_yuyv2bgr demo_heap (demo_image UVC_FRAME_FORMAT_YUYV 16 8 1 grey_row)
      (demo_image UVC_FRAME_FORMAT_BGR 0 0 0 []))
   \<and> data_after (uvc_yuyv2bgr demo_heap (demo_image UVC_FRAME_FORMAT_YUYV 16 8 1 red_row)
      (demo_image UVC_FRAME_FORMAT_BGR 0 0 0 [])) = Some (replicate 24 90)
   \<and> data_after (uvc_yuyv2rgb demo_heap (demo_image UVC_FRAME_FORMAT_YUYV 16 8 1 red_row)
      (demo_image UVC_FRAME_FORMAT_RGB 0 0 0 [])) \<noteq> Some (replicate 24 90)"
  by code_simp

text \<open>
  A group is converted as a whole or not at all: a frame of fewer than eight pixels is reported
  as converted, and the output keeps what its buffer held.
\<close>
theorem small_frame_unconverted:
  assumes "c \<in> set (conversions heap)" "heap_ok heap" "buffer_ok inp" "buffer_ok out"
    and "uf_frame_format inp = cv_from c" "uf_data inp = Some src" "uf_data out = Some dst"
    and "length src < cv_in c * 8" "0 < unat (uf_width inp * uf_height inp * of_nat (cv_out c))"
    and "length dst = unat (uf_width inp * uf_height inp * of_nat (cv_out c))"
  shows "\<exists>out'. cv_run c inp out = Some (UVC_SUCCESS, out') \<and> uf_data out' = Some dst"
proof -
  obtain m where m: "cv_run c = convert_frame heap (cv_from c) (cv_to c) m (cv_in c) (cv_out c)"
    "pixel_macro m (cv_in c) (cv_out c) (eight (cv_in c) (pair_with (cv_dec c) (cv_enc c)))"
    by (rule conversion_macro [OF assms(1)])
  let ?n = "unat (uf_width inp * uf_height inp * of_nat (cv_out c))"
  have b: "uf_data_bytes inp = length src" "uf_data_bytes out = length dst"
    using assms(3,4,6,7) by (simp_all add: buffer_ok_def)
  have e: "uvc_ensure_frame_size heap out ?n = (UVC_SUCCESS, out)"
    using assms(7,9,10) b(2) by (simp add: uvc_ensure_frame_size_def Let_def)
  have z: "convert_run m (cv_in c) (cv_out c) ww src (length src) n_out ip op w d = Some d" for ww n_out ip op w d
    using assms(8) by (subst convert_run.simps) simp
  have "convert_rows (\<lambda>h. convert_run m (cv_in c) (cv_out c) ww src (length src) n_out (si * h) (so * h) 0) hs d
      = Some d" for ww n_out si so hs d
    by (induction hs) (simp_all add: z)
  then show ?thesis
    using assms(5-7) b by (simp add: m(1) convert_frame_def e convert_pixels_def Let_def z)
qed

theorem small_frame_unconverted_witness:
  "\<exists>out'. cv_run demo_conversion (demo_image UVC_FRAME_FORMAT_YUYV 0 6 1 (replicate 12 200))
      (demo_image UVC_FRAME_FORMAT_RGB 0 6 1 (replicate 18 0)) = Some (UVC_SUCCESS, out')
    \<and> uf_data out' = Some (replicate 18 0)"
  using small_frame_unconverted [OF demo_conversion_in demo_simps(1),
    of "demo_image UVC_FRAME_FORMAT_YUYV 0 6 1 (replicate 12 200)"
       "demo_image UVC_FRAME_FORMAT_RGB 0 6 1 (replicate 18 0)"]
  by (simp add: demo_conversion_def)

section \<open>The colour arithmetic\<close>

lemma div_bounds:
  fixes k :: int
  shows "16384 * real_of_int (drop_bit 14 k) \<le> real_of_int k"
    and "real_of_int k < 16384 * real_of_int (drop_bit 14 k) + 16384"
proof -
  have d: "drop_bit 14 k = k div 16384" by (simp add: drop_bit_eq_div)
  have "16384 * (k div 16384) \<le> k" "k < 16384 * (k div 16384) + 16384" by linarith+
  then have "real_of_int (16384 * (k div 16384)) \<le> real_of_int k"
    "real_of_int k < real_of_int (16384 * (k div 16384) + 16384)" by (simp_all only: of_int_le_iff of_int_less_iff)
  then show "16384 * real_of_int (drop_bit 14 k) \<le> real_of_int k"
    "real_of_int k < 16384 * real_of_int (drop_bit 14 k) + 16384" by (simp_all add: d)
qed

lemma offset_accuracy:
  fixes i j :: int
  assumes "0 \<le> i" "i < 256" "0 \<le> j" "j < 256"
  shows "\<bar>real_of_int (drop_bit 14 (22987 * (j - 128))) - 1.402 * (real_of_int j - 128)\<bar> < 1.2"
    and "\<bar>real_of_int (drop_bit 14 (- 5636 * (i - 128) - 11698 * (j - 128)))
      - (- 0.34414 * (real_of_int i - 128) - 0.71414 * (real_of_int j - 128))\<bar> < 1.2"
    and "\<bar>real_of_int (drop_bit 14 (29049 * (i - 128))) - 1.772 * (real_of_int i - 128)\<bar> < 1.2"
proof -
  have b: "0 \<le> real_of_int i" "real_of_int i \<le> 255" "0 \<le> real_of_int j" "real_of_int j \<le> 255"
    using assms by simp_all
  have k: "real_of_int (22987 * (j - 128)) = 22987 * (real_of_int j - 128)"
    "real_of_int (- 5636 * (i - 128) - 11698 * (j - 128)) =
       - 5636 * (real_of_int i - 128) - 11698 * (real_of_int j - 128)"
    "real_of_int (29049 * (i - 128)) = 29049 * (real_of_int i - 128)" by simp_all
  note d = div_bounds [of "22987 * (j - 128)", unfolded k]
    div_bounds [of "- 5636 * (i - 128) - 11698 * (j - 128)", unfolded k]
    div_bounds [of "29049 * (i - 128)", unfolded k]
  show "\<bar>real_of_int (drop_bit 14 (22987 * (j - 128))) - 1.402 * (real_of_int j - 128)\<bar> < 1.2"
    unfolding abs_less_iff using d(1,2) b by (intro conjI) (simp_all add: field_simps)
  show "\<bar>real_of_int (drop_bit 14 (- 5636 * (i - 128) - 11698 * (j - 128)))
      - (- 0.34414 * (real_of_int i - 128) - 0.71414 * (real_of_int j - 128))\<bar> < 1.2"
    unfolding abs_less_iff using d(3,4) b by (intro conjI) (simp_all add: field_simps)
  show "\<bar>real_of_int (drop_bit 14 (29049 * (i - 128))) - 1.772 * (real_of_int i - 128)\<bar> < 1.2"
    unfolding abs_less_iff using d(5,6) b by (intro conjI) (simp_all add: field_simps)
qed

lemma uint_u8 [simp]: "uint x < 256" for x :: u8
  using uint_lt2p [of x] by simp

lemma sat_uint: "sat (uint y) = y"
proof -
  have "(if uint y \<ge> 255 then 255 else if uint y < 0 then 0 else uint y) = uint y"
    using uint_u8 [of y] uint_ge_0 [of y] by (simp split: if_split del: uint_u8)
  then show ?thesis by (simp only: sat_def) simp
qed

text \<open>
  The fixed point colour offsets of the macros are within 1.2 of the floating point formula
  they replace (coefficients 1.402, -0.34414, -0.71414 and 1.772), and a pixel without colour is
  grey.
\<close>
theorem chroma_accuracy:
  "\<bar>real_of_int (chroma_r u v) - 1.402 * (real_of_int (uint v) - 128)\<bar> < 1.2
   \<and> \<bar>real_of_int (chroma_g u v)
        - (- 0.34414 * (real_of_int (uint u) - 128) - 0.71414 * (real_of_int (uint v) - 128))\<bar> < 1.2
   \<and> \<bar>real_of_int (chroma_b u v) - 1.772 * (real_of_int (uint u) - 128)\<bar> < 1.2
   \<and> rgb_of y 128 128 = [y, y, y]"
  using offset_accuracy [of "uint u" "uint v"]
  by (simp only: uint_ge_0 uint_u8 chroma_r_def chroma_g_def chroma_b_def)
    (simp add: rgb_of_def chroma_r_def chroma_g_def chroma_b_def sat_uint)

section \<open>Copies\<close>

definition pasted :: "nat \<Rightarrow> u8 list \<Rightarrow> nat \<Rightarrow> nat \<Rightarrow> u8 list \<Rightarrow> u8 list" where
  "pasted n src ip op dst = take op dst @ take n (drop ip src) @ drop (op + n) dst"

lemma copy_row_exact:
  "ip + n \<le> length src \<Longrightarrow> op + n \<le> length dst \<Longrightarrow> copy_row src n ip op dst = Some (pasted n src ip op dst)"
  by (simp add: copy_row_def wr_bytes_def pasted_def)

lemma length_pasted:
  "ip + n \<le> length src \<Longrightarrow> op + n \<le> length dst \<Longrightarrow> length (pasted n src ip op dst) = length dst"
  by (simp add: pasted_def)

lemma pasted_pasted:
  assumes "ip + a + b \<le> length src" "op + a + b \<le> length dst"
  shows "pasted b src (ip + a) (op + a) (pasted a src ip op dst) = pasted (a + b) src ip op dst"
proof -
  have "length (take op dst @ take a (drop ip src)) = op + a" using assms by simp
  then have "take (op + a) (pasted a src ip op dst) = take op dst @ take a (drop ip src)"
    "drop (op + a + b) (pasted a src ip op dst) = drop (op + a + b) dst"
    by (simp_all add: pasted_def add.commute flip: append_assoc)
  moreover have "take (a + b) (drop ip src) = take a (drop ip src) @ take b (drop (ip + a) src)"
    by (simp add: take_add add.commute)
  ultimately show ?thesis unfolding pasted_def [of b src "ip + a"] by (simp add: pasted_def add.assoc)
qed

lemma copy_four:
  assumes "ip + 4 * s \<le> length src" "op + 4 * s \<le> length dst"
  shows "do { d \<leftarrow> copy_row src s ip op dst; d \<leftarrow> copy_row src s (ip + s) (op + s) d;
      d \<leftarrow> copy_row src s (ip + 2 * s) (op + 2 * s) d; copy_row src s (ip + 3 * s) (op + 3 * s) d } =
    Some (pasted (4 * s) src ip op dst)"
proof -
  define p where "p n = pasted n src ip op dst" for n
  have n: "copy_row src s (ip + n) (op + n) (p n) = Some (p (n + s))" if "n + s \<le> 4 * s" for n
  proof -
    have le: "ip + n + s \<le> length src" "op + n + s \<le> length dst" using that assms by linarith+
    have "length (p n) = length dst" using le by (simp add: p_def length_pasted)
    then show ?thesis using le by (simp add: p_def copy_row_exact pasted_pasted)
  qed
  have "copy_row src s ip op dst = Some (p s)" using assms by (simp add: p_def copy_row_exact)
  moreover have "copy_row src s (ip + s) (op + s) (p s) = Some (p (2 * s))" using n [of s] by (simp add: mult_2)
  moreover have "copy_row src s (ip + 2 * s) (op + 2 * s) (p (2 * s)) = Some (p (3 * s))"
    using n [of "2 * s"] by simp
  moreover have "copy_row src s (ip + 3 * s) (op + 3 * s) (p (3 * s)) = Some (p (4 * s))"
    using n [of "3 * s"] by simp
  ultimately show ?thesis by (simp add: p_def)
qed

lemma copy_rows_step:
  assumes "h < hh"
  shows "copy_rows s s hh h src ip op dst =
    (case do { d \<leftarrow> copy_row src s ip op dst; d \<leftarrow> copy_row src s (ip + s) (op + s) d;
        d \<leftarrow> copy_row src s (ip + 2 * s) (op + 2 * s) d; copy_row src s (ip + 3 * s) (op + 3 * s) d }
     of None \<Rightarrow> None | Some d \<Rightarrow> copy_rows s s hh (h + 4) src (ip + 4 * s) (op + 4 * s) d)"
  using assms by (subst copy_rows.simps) (auto simp: Let_def split: Option.bind_splits)

lemma copy_rows_exact:
  assumes "hh - h = 4 * int k" "ip + 4 * k * s \<le> length src" "op + 4 * k * s \<le> length dst"
  shows "copy_rows s s hh h src ip op dst = Some (pasted (4 * k * s) src ip op dst)"
  using assms
proof (induction k arbitrary: h ip op dst)
  case 0
  then show ?case by (subst copy_rows.simps) (simp add: pasted_def)
next
  case (Suc k)
  have e: "4 * Suc k * s = 4 * s + 4 * k * s" by (simp add: add_mult_distrib)
  have l: "ip + 4 * s + 4 * k * s \<le> length src" "op + 4 * s + 4 * k * s \<le> length dst"
    using Suc.prems(2,3) unfolding e by (simp_all only: add.assoc)
  have h: "h < hh" "hh - (h + 4) = 4 * int k" using Suc.prems(1) by simp_all
  have 4: "ip + 4 * s \<le> length src" "op + 4 * s \<le> length dst" using l by linarith+
  have "copy_rows s s hh h src ip op dst =
      copy_rows s s hh (h + 4) src (ip + 4 * s) (op + 4 * s) (pasted (4 * s) src ip op dst)"
    by (simp only: copy_rows_step [OF h(1)] copy_four [OF 4] option.case)
  also have "\<dots> = Some (pasted (4 * k * s) src (ip + 4 * s) (op + 4 * s) (pasted (4 * s) src ip op dst))"
    using l 4 by (intro Suc.IH [OF h(2)]) (simp_all only: length_pasted)
  also have "\<dots> = Some (pasted (4 * Suc k * s) src ip op dst)"
    by (simp only: pasted_pasted [OF l] e)
  finally show ?case .
qed

text \<open>Rows that are not a multiple of four: the last block reads past the last row.\<close>

lemma copy_row_None: "length src < ip + n \<Longrightarrow> copy_row src n ip op dst = None"
  by (simp add: copy_row_def rd_bytes_def)

lemma copy_rows_overrun:
  assumes "hh - h = 4 * int k + int j" "0 < j" "j < 4" "length src < ip + (4 * k + j + 1) * s"
  shows "copy_rows s s hh h src ip op dst = None"
  using assms(1,4)
proof (induction k arbitrary: h ip op dst)
  case 0
  have "(j + 1) * s \<le> 4 * s" using assms(3) by (intro mult_le_mono1) simp
  then have "length src < ip + 3 * s + s" using 0(2) by (simp only: mult_0_right add_0)
  then have "copy_row src s (ip + 3 * s) op dst = None" for op dst by (rule copy_row_None)
  then show ?case using 0(1) assms(2) by (subst copy_rows.simps) (simp split: Option.bind_splits)
next
  case (Suc k)
  have "copy_rows s s hh (h + 4) src (ip + 4 * s) op dst = None" for op dst
    using Suc.prems by (intro Suc.IH) (simp_all add: algebra_simps)
  then show ?case by (subst copy_rows.simps) (use Suc.prems in \<open>simp split: Option.bind_splits\<close>)
qed

lemma ensure_owned_fields:
  "uvc_ensure_frame_size heap out n = (ret, o1) \<Longrightarrow> duplicate_fields inp o1 = (duplicate_fields inp out)
     \<lparr>uf_data := uf_data o1, uf_data_bytes := uf_data_bytes o1\<rparr>"
  by (auto simp: uvc_ensure_frame_size_def duplicate_fields_def Let_def split: if_splits)

lemma duplicate_start:
  assumes "heap_ok heap" "buffer_ok out" "uf_library_owns_data out" "heap (uf_data_bytes inp) \<noteq> None"
    "uf_data inp = Some src" "buffer_ok inp" "src \<noteq> []"
  obtains o1 d where "uvc_ensure_frame_size heap out (length src) = (UVC_SUCCESS, o1)" "uf_data o1 = Some d"
    "length d = length src" "uf_library_owns_data o1" "uf_data_bytes inp = length src"
proof -
  have l: "uf_data_bytes inp = length src" using assms(5,6) by (simp add: buffer_ok_def)
  show thesis
    by (rule ensure_owned [OF assms(1-4)]) (use that l assms(7) in auto)
qed

text \<open>
  Duplicating a frame into one the library owns: a compressed frame (no step) has its
  \<open>actual_bytes\<close> copied, a frame of rows whose number is a multiple of four has all its rows copied.
\<close>
theorem duplicate_copies:
  assumes "heap_ok heap" "buffer_ok out" "uf_library_owns_data out" "heap (uf_data_bytes inp) \<noteq> None"
    and "uf_data inp = Some src" "buffer_ok inp" "src \<noteq> []"
    and "uf_step inp = 0 \<longrightarrow> n = uf_actual_bytes inp"
    and "uf_step inp \<noteq> 0 \<longrightarrow> n = 4 * k * uf_step inp \<and> sint (uf_height inp) = 4 * int k"
    and "n \<le> length src"
  shows "\<exists>out' d. uvc_duplicate_frame heap inp out = Some (UVC_SUCCESS, out') \<and> uf_data out' = Some d
    \<and> length d = length src \<and> take n d = take n src
    \<and> uf_width out' = uf_width inp \<and> uf_height out' = uf_height inp \<and> uf_step out' = uf_step inp
    \<and> uf_frame_format out' = uf_frame_format inp \<and> uf_actual_bytes out' = uf_actual_bytes inp"
proof -
  obtain o1 d where e: "uvc_ensure_frame_size heap out (length src) = (UVC_SUCCESS, o1)" "uf_data o1 = Some d"
    "length d = length src" "uf_library_owns_data o1" "uf_data_bytes inp = length src"
    by (rule duplicate_start [OF assms(1-7)])
  have c: "copy_row src n 0 0 d = Some (take n src @ drop n d)"
    using copy_row_exact [of 0 n src 0 d] assms(10) e(3) by (simp add: pasted_def)
  have r: "copy_rows (uf_step inp) (uf_step inp) (sint (uf_height inp)) 0 src 0 0 d = Some (take n src @ drop n d)"
    if "uf_step inp \<noteq> 0"
    using copy_rows_exact [of "sint (uf_height inp)" 0 k 0 "uf_step inp" src 0 d] assms(9,10) e(3) that
    by (simp add: pasted_def)
  have "uvc_duplicate_frame heap inp out =
      Some (UVC_SUCCESS, (duplicate_fields inp o1)\<lparr>uf_data := Some (take n src @ drop n d)\<rparr>)"
    using e assms(5,8) c r by (cases "uf_step inp = 0") (simp_all add: uvc_duplicate_frame_def duplicate_fields_def)
  then show ?thesis using assms(10) e(3,4) by (simp add: duplicate_fields_def)
qed

theorem duplicate_copies_witness:
  "\<exists>out' d. uvc_duplicate_frame demo_heap (demo_image UVC_FRAME_FORMAT_YUYV 4 2 4 (replicate 16 7))
      (demo_image UVC_FRAME_FORMAT_RGB 0 0 0 []) = Some (UVC_SUCCESS, out') \<and> uf_data out' = Some d
    \<and> take 16 d = replicate 16 7"
  using duplicate_copies [OF demo_simps(1), of "demo_image UVC_FRAME_FORMAT_RGB 0 0 0 []"
    "demo_image UVC_FRAME_FORMAT_YUYV 4 2 4 (replicate 16 7)" "replicate 16 7" 16 1]
  by simp blast

text \<open>
  A frame whose rows fill its buffer and whose height is not a multiple of four: the unrolled
  loop of \<^verbatim>\<open>uvc_duplicate_frame\<close> copies up to three rows too many, beyond the buffer.
\<close>
theorem duplicate_overrun:
  assumes "heap_ok heap" "buffer_ok out" "uf_library_owns_data out" "heap (uf_data_bytes inp) \<noteq> None"
    and "uf_data inp = Some src" "buffer_ok inp" "0 < uf_step inp"
    and "0 < sint (uf_height inp)" "sint (uf_height inp) mod 4 \<noteq> 0"
    and "length src = nat (sint (uf_height inp)) * uf_step inp"
  shows "uvc_duplicate_frame heap inp out = None"
proof -
  have ne: "src \<noteq> []" using assms(7,8,10) by auto
  obtain o1 d where e: "uvc_ensure_frame_size heap out (length src) = (UVC_SUCCESS, o1)" "uf_data o1 = Some d"
    "length d = length src" "uf_library_owns_data o1" "uf_data_bytes inp = length src"
    by (rule duplicate_start [OF assms(1-6) ne])
  define k j where "k = nat (sint (uf_height inp)) div 4" and "j = nat (sint (uf_height inp)) mod 4"
  have n: "nat (sint (uf_height inp)) = 4 * k + j" unfolding k_def j_def by simp
  then have h: "sint (uf_height inp) = 4 * int k + int j" using assms(8) by linarith
  have "0 < j" using assms(9) unfolding h by (cases "j = 0") simp_all
  moreover have "j < 4" by (simp add: j_def)
  ultimately have j: "0 < j" "j < 4" by blast+
  have "copy_rows (uf_step inp) (uf_step inp) (sint (uf_height inp)) 0 src 0 0 d = None"
  proof (rule copy_rows_overrun [where k = k and j = j])
    show "length src < 0 + (4 * k + j + 1) * uf_step inp"
      unfolding assms(10) n using assms(7) by (simp only: add_0 mult_less_cancel2) simp
  qed (use h j in simp_all)
  then show ?thesis using e assms(5,7) by (simp add: uvc_duplicate_frame_def duplicate_fields_def)
qed

theorem duplicate_overrun_witness:
  "uvc_duplicate_frame demo_heap (demo_image UVC_FRAME_FORMAT_YUYV 4 2 2 (replicate 8 1))
      (demo_image UVC_FRAME_FORMAT_RGB 0 0 0 []) = None"
  by (rule duplicate_overrun [OF demo_simps(1), where src = "replicate 8 1"]) simp_all

section \<open>The semi-planar layout\<close>

lemma rd_all_ok:
  "(\<And>j. j \<in> set is \<Longrightarrow> j < length src) \<Longrightarrow> rd_all src (map int is) = Some (map (nth src) is)"
  by (induction "is") (simp_all add: rd_at_def)

lemma wr_all_ok:
  "i + length vs \<le> length dst \<Longrightarrow> \<exists>d. wr_all dst (int i) vs = Some d \<and> length d = length dst
     \<and> (\<forall>k < length dst. d ! k = (if i \<le> k \<and> k < i + length vs then vs ! (k - i) else dst ! k))"
proof (induction vs arbitrary: i dst)
  case Nil
  then show ?case by auto
next
  case (Cons v vs)
  have 1: "wr_at dst (int i) v = Some (dst[i := v])" using Cons.prems by (simp add: wr_at_def)
  have "Suc i + length vs \<le> length (dst[i := v])" using Cons.prems by simp
  from Cons.IH [OF this] obtain d where d: "wr_all (dst[i := v]) (int (Suc i)) vs = Some d"
    "length d = length dst"
    "\<forall>k < length dst. d ! k = (if Suc i \<le> k \<and> k < Suc i + length vs then vs ! (k - Suc i) else dst[i := v] ! k)"
    by auto
  have "d ! k = (if i \<le> k \<and> k < i + length (v # vs) then (v # vs) ! (k - i) else dst ! k)" if "k < length dst" for k
    using d(3) that by (cases "k = i") (auto simp: nth_Cons' nth_list_update)
  with d(1,2) 1 show ?case by (simp add: add.commute)
qed

text \<open>One row of pairs: the rows of luminance at \<open>y0\<close> and \<open>y1\<close>, the chrominance at \<open>uv\<close>.\<close>

definition chroma_at :: "int list \<Rightarrow> nat \<Rightarrow> nat" where
  "chroma_at chroma i = 8 * (i div 4) + nat (chroma ! (i mod 4))"

lemma chroma_at_step: "4 \<le> i \<Longrightarrow> chroma_at chroma i = 8 + chroma_at chroma (i - 4)"
  by (simp add: chroma_at_def le_div_geq le_mod_geq)

definition semi_spec ::
  "int list \<Rightarrow> u8 list \<Rightarrow> nat \<Rightarrow> nat \<Rightarrow> nat \<Rightarrow> nat \<Rightarrow> nat \<Rightarrow> nat \<Rightarrow> u8 list \<Rightarrow> nat \<Rightarrow> u8" where
  "semi_spec chroma src b s y0 y1 uv n dest k =
     (if y0 \<le> k \<and> k < y0 + n then src ! (b + 2 * (k - y0))
      else if y1 \<le> k \<and> k < y1 + n then src ! (b + s + 2 * (k - y1))
      else if uv \<le> k \<and> k < uv + n then src ! (b + chroma_at chroma (k - uv)) else dest ! k)"

lemma semi_group_ok:
  assumes "length chroma = 4" "\<forall>c \<in> set chroma. 0 \<le> c \<and> c < 8"
    and "b + 8 \<le> length src" "b + s + 8 \<le> length src"
    and "y0 + 4 \<le> y1" "y1 + 4 \<le> uv" "uv + 4 \<le> length dest"
  shows "\<exists>d. semi_group chroma src (int s) (int b)
      \<lparr>sp_y0 = int y0, sp_y1 = int y1, sp_uv = int uv, sp_dest = dest\<rparr> =
      Some \<lparr>sp_y0 = int (y0 + 4), sp_y1 = int (y1 + 4), sp_uv = int (uv + 4), sp_dest = d\<rparr>
    \<and> length d = length dest \<and> (\<forall>k < length dest. d ! k =
        semi_spec chroma src b s y0 y1 uv 4 dest k)"
proof -
  let ?l = "\<lambda>b. map (\<lambda>i. src ! (b + 2 * i)) [0..<4]"
  have l: "rd_all src [int b, int b + 2, int b + 4, int b + 6] = Some (?l b)" if "b + 8 \<le> length src" for b
  proof -
    have m: "map int [b, b + 2, b + 4, b + 6] = [int b, int b + 2, int b + 4, int b + 6]" by simp
    have "rd_all src (map int [b, b + 2, b + 4, b + 6]) = Some (map (nth src) [b, b + 2, b + 4, b + 6])"
      using that by (intro rd_all_ok) auto
    moreover have "map (nth src) [b, b + 2, b + 4, b + 6] = ?l b" by (simp add: upt_rec)
    ultimately show ?thesis by (simp only: m)
  qed
  obtain c0 c1 c2 c3 where c: "chroma = [c0, c1, c2, c3]"
    using assms(1) by (auto simp: length_Suc_conv eval_nat_numeral)
  have cr: "rd_all src (map (\<lambda>c. int b + c) chroma) = Some (map (\<lambda>i. src ! (b + chroma_at chroma i)) [0..<4])"
  proof -
    have m: "map int (map (\<lambda>c. b + nat c) chroma) = map (\<lambda>c. int b + c) chroma"
      using assms(2) by simp
    have "rd_all src (map int (map (\<lambda>c. b + nat c) chroma)) = Some (map (nth src) (map (\<lambda>c. b + nat c) chroma))"
      using assms(2,3) by (intro rd_all_ok) (force simp: nat_less_iff)
    moreover have "map (nth src) (map (\<lambda>c. b + nat c) chroma) = map (\<lambda>i. src ! (b + chroma_at chroma i)) [0..<4]"
      by (simp add: c chroma_at_def upt_rec)
    ultimately show ?thesis by (simp only: m)
  qed
  obtain d1 where d1: "wr_all dest (int y0) (?l b) = Some d1" "length d1 = length dest"
    "\<forall>k < length dest. d1 ! k = (if y0 \<le> k \<and> k < y0 + 4 then ?l b ! (k - y0) else dest ! k)"
    using wr_all_ok [of y0 "?l b" dest] assms(5-7) by auto
  obtain d2 where d2: "wr_all d1 (int uv) (map (\<lambda>i. src ! (b + chroma_at chroma i)) [0..<4]) = Some d2"
    "length d2 = length dest"
    "\<forall>k < length dest. d2 ! k = (if uv \<le> k \<and> k < uv + 4
       then map (\<lambda>i. src ! (b + chroma_at chroma i)) [0..<4] ! (k - uv) else d1 ! k)"
    using wr_all_ok [of uv "map (\<lambda>i. src ! (b + chroma_at chroma i)) [0..<4]" d1] assms(7) d1(2) by auto
  obtain d3 where d3: "wr_all d2 (int y1) (?l (b + s)) = Some d3" "length d3 = length dest"
    "\<forall>k < length dest. d3 ! k = (if y1 \<le> k \<and> k < y1 + 4 then ?l (b + s) ! (k - y1) else d2 ! k)"
    using wr_all_ok [of y1 "?l (b + s)" d2] assms(6,7) d2(2) by auto
  have g: "semi_group chroma src (int s) (int b)
      \<lparr>sp_y0 = int y0, sp_y1 = int y1, sp_uv = int uv, sp_dest = dest\<rparr> =
      Some \<lparr>sp_y0 = int (y0 + 4), sp_y1 = int (y1 + 4), sp_uv = int (uv + 4), sp_dest = d3\<rparr>"
    using l [OF assms(3)] l [OF assms(4)] cr d1(1) d2(1) d3(1) by (simp add: semi_group_def)
  have "d3 ! k = semi_spec chroma src b s y0 y1 uv 4 dest k"
    if "k < length dest" for k
  proof -
    note ds = d1(3) [rule_format, OF that] d2(3) [rule_format, OF that] d3(3) [rule_format, OF that]
    have m: "map f [0..<4] ! i = f i" if "i < 4" for f :: "nat \<Rightarrow> u8" and i using that by simp
    consider i where "k = y0 + i" "i < 4" | i where "k = y1 + i" "i < 4" | i where "k = uv + i" "i < 4"
      | "\<not> (y0 \<le> k \<and> k < y0 + 4)" "\<not> (y1 \<le> k \<and> k < y1 + 4)" "\<not> (uv \<le> k \<and> k < uv + 4)"
      by (metis add_less_cancel_left le_Suc_ex)
    then show ?thesis
    proof cases
      case 4
      then show ?thesis unfolding ds semi_spec_def by (simp only: if_False)
    qed (unfold ds semi_spec_def, use assms(5,6) in \<open>simp_all add: m del: upt_Suc\<close>)
  qed
  with g d3(2) show ?thesis by blast
qed

lemma split_rows:
  fixes y k m :: nat
  shows "(\<exists>i. k = y + i \<and> i < 4) \<or> (\<exists>i. k = y + 4 + i \<and> i < 4 * m) \<or> \<not> (y \<le> k \<and> k < y + (4 + 4 * m))"
proof -
  consider "k < y" | "y \<le> k" "k < y + 4" | "y + 4 \<le> k" by linarith
  then show ?thesis
  proof cases
    case 2
    then have "k = y + (k - y) \<and> k - y < 4" by linarith
    then show ?thesis by blast
  next
    case 3
    then have "k = y + 4 + (k - (y + 4))" by linarith
    then show ?thesis by (metis add.assoc add_less_cancel_left)
  qed simp
qed

lemma in_smaller:
  fixes y k m :: nat
  assumes "\<not> (y \<le> k \<and> k < y + (4 + 4 * m))"
  shows "(y \<le> k \<and> k < y + 4) = False" "(y + 4 \<le> k \<and> k < y + 4 + 4 * m) = False"
  using assms by auto

lemma semi_row_ok:
  assumes "length chroma = 4" "\<forall>c \<in> set chroma. 0 \<le> c \<and> c < 8" "width - w = 4 * int m"
    and "b + 8 * m \<le> length src" "b + s + 8 * m \<le> length src"
    and "y0 + 4 * m \<le> y1" "y1 + 4 * m \<le> uv" "uv + 4 * m \<le> length dest"
  shows "\<exists>s' d. semi_row chroma src (int s) width w (int b)
      \<lparr>sp_y0 = int y0, sp_y1 = int y1, sp_uv = int uv, sp_dest = dest\<rparr> = Some s'
    \<and> sp_uv s' = int (uv + 4 * m) \<and> sp_dest s' = d
    \<and> length d = length dest \<and> (\<forall>k < length dest. d ! k =
        semi_spec chroma src b s y0 y1 uv (4 * m) dest k)"
  using assms(3-)
proof (induction m arbitrary: w b y0 y1 uv dest)
  case 0
  then show ?case by (subst semi_row.simps) (auto simp: semi_spec_def)
next
  case (Suc m)
  obtain d where d: "semi_group chroma src (int s) (int b)
      \<lparr>sp_y0 = int y0, sp_y1 = int y1, sp_uv = int uv, sp_dest = dest\<rparr> =
      Some \<lparr>sp_y0 = int (y0 + 4), sp_y1 = int (y1 + 4), sp_uv = int (uv + 4), sp_dest = d\<rparr>"
    "length d = length dest" "\<forall>k < length dest. d ! k =
        semi_spec chroma src b s y0 y1 uv 4 dest k"
    using semi_group_ok [OF assms(1,2), of b src s y0 y1 uv dest] Suc.prems by auto
  obtain s' e where e: "semi_row chroma src (int s) width (w + 4) (int (b + 8))
      \<lparr>sp_y0 = int (y0 + 4), sp_y1 = int (y1 + 4), sp_uv = int (uv + 4), sp_dest = d\<rparr> = Some s'"
    "sp_uv s' = int (uv + 4 + 4 * m)" "sp_dest s' = e" "length e = length d" "\<forall>k < length d. e ! k =
        semi_spec chroma src (b + 8) s (y0 + 4) (y1 + 4) (uv + 4) (4 * m) d k"
  proof -
    have "width - (w + 4) = 4 * int m" "b + 8 + 8 * m \<le> length src" "b + 8 + s + 8 * m \<le> length src"
      "y0 + 4 + 4 * m \<le> y1 + 4" "y1 + 4 + 4 * m \<le> uv + 4" "uv + 4 + 4 * m \<le> length d"
      using Suc.prems d(2) by simp_all
    from Suc.IH [OF this] show thesis using that by blast
  qed
  have w: "w < width" using Suc.prems(1) by simp
  have r: "semi_row chroma src (int s) width w (int b)
      \<lparr>sp_y0 = int y0, sp_y1 = int y1, sp_uv = int uv, sp_dest = dest\<rparr> = Some s'"
    using w d(1) e(1) by (subst semi_row.simps) (simp add: add.commute)
  have "e ! k = semi_spec chroma src b s y0 y1 uv (4 * Suc m) dest k"
    if k: "k < length dest" for k
  proof -
    note dk = d(3) [rule_format, OF k] and ek = e(5) [rule_format, unfolded d(2), OF k]
    have o: "y0 + 4 + 4 * m \<le> y1" "y1 + 4 + 4 * m \<le> uv" using Suc.prems(4,5) by simp_all
    have S: "4 * Suc m = 4 + 4 * m" by simp
    consider i where "k = y0 + i" "i < 4" | i where "k = y0 + 4 + i" "i < 4 * m"
      | i where "k = y1 + i" "i < 4" | i where "k = y1 + 4 + i" "i < 4 * m"
      | i where "k = uv + i" "i < 4" | i where "k = uv + 4 + i" "i < 4 * m"
      | "\<not> (y0 \<le> k \<and> k < y0 + (4 + 4 * m))" "\<not> (y1 \<le> k \<and> k < y1 + (4 + 4 * m))"
        "\<not> (uv \<le> k \<and> k < uv + (4 + 4 * m))"
      using split_rows [of k y0 m] split_rows [of k y1 m] split_rows [of k uv m] by blast
    then show ?thesis
    proof cases
      case 7
      note n = in_smaller [OF 7(1)] in_smaller [OF 7(2)] in_smaller [OF 7(3)]
      show ?thesis unfolding S dk ek semi_spec_def by (simp only: 7 n if_False)
    qed (unfold S dk ek semi_spec_def, use o in \<open>simp_all add: chroma_at_step ac_simps\<close>)
  qed
  with r e d(2) show ?case by auto
qed

text \<open>
  The plane of luminance (\<open>2 * K\<close> rows of \<open>W\<close> bytes) and the plane of chrominance (\<open>K\<close> rows of \<open>W\<close>
  bytes) from the \<open>q\<close>-th pair of rows on.
\<close>

definition nv_spec :: "int list \<Rightarrow> u8 list \<Rightarrow> nat \<Rightarrow> nat \<Rightarrow> nat \<Rightarrow> nat \<Rightarrow> u8 list \<Rightarrow> nat \<Rightarrow> u8" where
  "nv_spec chroma src s W K q dest k =
     (if W * (2 * q) \<le> k \<and> k < W * (2 * K) then src ! (s * (k div W) + 2 * (k mod W))
      else if W * (2 * K) + W * q \<le> k \<and> k < W * (2 * K) + W * K
      then src ! (s * (2 * ((k - W * (2 * K)) div W)) + chroma_at chroma ((k - W * (2 * K)) mod W))
      else dest ! k)"

lemma nv_step:
  assumes "0 < W" "q < K"
    and "d = semi_spec chroma src (s * (2 * q)) s (W * (2 * q)) (W * (2 * q) + W) (W * (2 * K) + W * q) W dest k"
    and "e = (if W * (2 * Suc q) \<le> k \<and> k < W * (2 * K) then src ! (s * (k div W) + 2 * (k mod W))
      else if W * (2 * K) + W * Suc q \<le> k \<and> k < W * (2 * K) + W * K
      then src ! (s * (2 * ((k - W * (2 * K)) div W)) + chroma_at chroma ((k - W * (2 * K)) mod W))
      else d)"
  shows "e = nv_spec chroma src s W K q dest k"
proof -
  have qK: "W * (2 * Suc q) \<le> W * (2 * K)" "W * Suc q \<le> W * K" using assms(2) by (intro mult_le_mono2; simp)+
  have a: "W * (2 * Suc q) = W * (2 * q) + W + W" "W * Suc q = W * q + W" by (simp_all add: algebra_simps)
  consider i where "k = W * (2 * q) + i" "i < W" | i where "k = W * (2 * q) + W + i" "i < W"
    | i where "k = W * (2 * K) + W * q + i" "i < W"
    | "\<not> (W * (2 * q) \<le> k \<and> k < W * (2 * q) + W)" "\<not> (W * (2 * q) + W \<le> k \<and> k < W * (2 * q) + W + W)"
      "\<not> (W * (2 * K) + W * q \<le> k \<and> k < W * (2 * K) + W * q + W)"
    by (metis add_less_cancel_left le_Suc_ex)
  then show ?thesis
  proof cases
    case 1
    then have "k div W = 2 * q" "k mod W = i" using assms(1) by simp_all
    then show ?thesis using 1 qK a unfolding assms(3,4) nv_spec_def semi_spec_def by simp
  next
    case 2
    then have "k = W * (2 * q + 1) + i" by simp
    then have "k div W = 2 * q + 1" "k mod W = i" using assms(1) 2(2) by (simp_all only: div_mult_self4 mod_mult_self4) simp_all
    then show ?thesis using 2 qK a unfolding assms(3,4) nv_spec_def semi_spec_def by (simp add: algebra_simps)
  next
    case 3
    then have "k - W * (2 * K) = W * q + i" by simp
    then have "(k - W * (2 * K)) div W = q" "(k - W * (2 * K)) mod W = i" using assms(1) 3(2) by simp_all
    moreover have "W * q + i < W * K" using 3 qK a by linarith
    ultimately show ?thesis
      using 3 qK a unfolding assms(3,4) nv_spec_def semi_spec_def by (simp add: mult.commute [of K W])
  next
    case 4
    have d: "d = dest ! k" unfolding assms(3) semi_spec_def by (simp only: 4 if_False)
    have 1: "(W * (2 * Suc q) \<le> k \<and> k < W * (2 * K)) = (W * (2 * q) \<le> k \<and> k < W * (2 * K))"
      using 4(1,2) a(1) by linarith
    have 2: "(W * (2 * K) + W * Suc q \<le> k \<and> k < W * (2 * K) + W * K)
        = (W * (2 * K) + W * q \<le> k \<and> k < W * (2 * K) + W * K)"
      using 4(3) a(2) by linarith
    show ?thesis unfolding assms(4) nv_spec_def d 1 2 by (rule refl)
  qed
qed

lemma c_int_nat: "n < 2 ^ 31 \<Longrightarrow> c_int (int n) = Some (int n)"
proof -
  assume "n < 2 ^ 31"
  then have "int n < 2 ^ 31" by (metis of_nat_less_iff of_nat_numeral of_nat_power)
  moreover have "- (2 ^ 31) \<le> int n" by (rule order.trans [of _ 0]) simp_all
  ultimately show ?thesis by (simp only: c_int_def simp_thms if_True)
qed

lemma semi_rows_ok:
  assumes "length chroma = 4" "\<forall>c \<in> set chroma. 0 \<le> c \<and> c < 8" "0 < m" "W = 4 * m"
    and "unat hh = 2 * K" "0 < K" "s * (2 * K - 1) + 2 * W \<le> length src" "W * (2 * K) + W * K \<le> length dest"
    and "W * (2 * K) < 2 ^ 31" "s * (2 * K) < 2 ^ 31" "q \<le> K"
  shows "\<exists>d. semi_rows chroma src (int s) (int W) hh (2 * q) (int (W * (2 * K) + W * q)) dest = Some d
    \<and> length d = length dest \<and> (\<forall>k < length dest. d ! k = nv_spec chroma src s W K q dest k)"
  using assms(8,11)
proof (induction "K - q" arbitrary: q dest)
  case 0
  have h1: "unat (hh - 1) = 2 * K - 1" using assms(5,6) by (simp add: unat_sub word_le_nat_alt)
  have "semi_rows chroma src (int s) (int W) hh (2 * q) uv dest = Some dest" for uv
  proof -
    have "\<not> 2 * q < unat (hh - 1)" using 0 h1 by simp
    then show ?thesis by (subst semi_rows.simps) simp
  qed
  then show ?case using 0 by (auto simp: nv_spec_def)
next
  case (Suc n)
  have q: "q < K" using Suc.hyps(2) by simp
  have h1: "unat (hh - 1) = 2 * K - 1" using assms(5,6) by (simp add: unat_sub word_le_nat_alt)
  have qK: "W * (2 * Suc q) \<le> W * (2 * K)" "W * Suc q \<le> W * K" "s * (2 * q + 1) \<le> s * (2 * K - 1)"
    using q by (intro mult_le_mono2; simp)+
  have o: "W * (2 * q) + W + W \<le> W * (2 * K)" "W * q + W \<le> W * K" "s * (2 * q) + s \<le> s * (2 * K - 1)"
    using qK by (simp_all add: algebra_simps)
  have c: "c_int (int W * int (2 * q)) = Some (int (W * (2 * q)))" "c_int (int s * int (2 * q)) = Some (int (s * (2 * q)))"
  proof -
    have "s * (2 * q) \<le> s * (2 * K)" using q by (intro mult_le_mono2) simp
    then have "s * (2 * q) < 2 ^ 31" "W * (2 * q) < 2 ^ 31" using assms(9,10) o(1) by linarith+
    then show "c_int (int W * int (2 * q)) = Some (int (W * (2 * q)))"
      "c_int (int s * int (2 * q)) = Some (int (s * (2 * q)))"
      by (simp_all only: c_int_nat flip: of_nat_mult)
  qed
  have "int W - 0 = 4 * int m" "s * (2 * q) + 8 * m \<le> length src" "s * (2 * q) + s + 8 * m \<le> length src"
    "W * (2 * q) + 4 * m \<le> W * (2 * q) + W" "W * (2 * q) + W + 4 * m \<le> W * (2 * K) + W * q"
    "W * (2 * K) + W * q + 4 * m \<le> length dest"
    using o assms(4,7) Suc.prems(1) by linarith+
  from semi_row_ok [OF assms(1,2) this] obtain s' d where d:
    "semi_row chroma src (int s) (int W) 0 (int (s * (2 * q))) \<lparr>sp_y0 = int (W * (2 * q)),
       sp_y1 = int (W * (2 * q) + W), sp_uv = int (W * (2 * K) + W * q), sp_dest = dest\<rparr> = Some s'"
    "sp_uv s' = int (W * (2 * K) + W * q + 4 * m)" "sp_dest s' = d" "length d = length dest"
    "\<forall>k < length dest. d ! k = semi_spec chroma src (s * (2 * q)) s (W * (2 * q)) (W * (2 * q) + W)
       (W * (2 * K) + W * q) (4 * m) dest k" by blast
  have uv: "W * (2 * K) + W * q + 4 * m = W * (2 * K) + W * Suc q" using assms(4) by simp
  obtain e where e: "semi_rows chroma src (int s) (int W) hh (2 * Suc q) (int (W * (2 * K) + W * Suc q)) d = Some e"
    "length e = length d" "\<forall>k < length d. e ! k = nv_spec chroma src s W K (Suc q) d k"
  proof -
    have "n = K - Suc q" "W * (2 * K) + W * K \<le> length d" "Suc q \<le> K"
      using Suc.hyps(2) Suc.prems(1) d(4) q by simp_all
    from Suc.hyps(1) [OF this] show thesis using that by blast
  qed
  have r: "semi_rows chroma src (int s) (int W) hh (2 * q) (int (W * (2 * K) + W * q)) dest = Some e"
  proof -
    have "int (W * (2 * q)) + int W = int (W * (2 * q) + W)" by simp
    moreover have "2 * q < unat (hh - 1)" "2 * q + 2 = 2 * Suc q" using h1 q by simp_all
    ultimately show ?thesis
      using c d(1,3) e(1) d(2) [unfolded uv] by (subst semi_rows.simps) (simp add: add.commute)
  qed
  have "e ! k = nv_spec chroma src s W K q dest k" if "k < length dest" for k
  proof (rule nv_step [OF _ q])
    show "0 < W" using assms(3,4) by simp
    show "d ! k = semi_spec chroma src (s * (2 * q)) s (W * (2 * q)) (W * (2 * q) + W) (W * (2 * K) + W * q) W dest k"
      using d(5) that by (simp only: assms(4))
  qed (use e(3) that d(4) in \<open>simp only: nv_spec_def\<close>)
  with r e(2) d(4) show ?case by auto
qed

lemma chroma_at_uv: "chroma_at [1, 3, 5, 7] c = 2 * c + 1"
proof -
  have "c = 4 * (c div 4) + c mod 4" by simp
  moreover consider "c mod 4 = 0" | "c mod 4 = 1" | "c mod 4 = 2" | "c mod 4 = 3" by linarith
  then have "nat ([1, 3, 5, 7] ! (c mod 4)) = 2 * (c mod 4) + 1" by cases simp_all
  ultimately show ?thesis unfolding chroma_at_def by linarith
qed

lemma chroma_at_vu: "chroma_at [3, 1, 7, 5] c = (if even c then 2 * c + 3 else 2 * c - 1)"
proof -
  have c: "c = 4 * (c div 4) + c mod 4" by simp
  have e: "even c = even (c mod 4)" by (simp add: dvd_mod_iff)
  consider "c mod 4 = 0" | "c mod 4 = 1" | "c mod 4 = 2" | "c mod 4 = 3" by linarith
  then show ?thesis unfolding chroma_at_def e by cases (use c in simp_all)
qed

lemma semi_planar_runs:
  assumes "length chroma = 4" "\<forall>c \<in> set chroma. 0 \<le> c \<and> c < 8"
    and "heap_ok heap" "buffer_ok out" "uf_library_owns_data out" "heap (4 * m * (3 * K)) \<noteq> None"
    and "uf_frame_format inp = UVC_FRAME_FORMAT_YUYV" "uf_data inp = Some src"
    and "unat (uf_width inp) = 4 * m" "unat (uf_height inp) = 2 * K" "0 < m" "0 < K"
    and "uf_step inp * (2 * K - 1) + 8 * m \<le> length src"
    and "4 * m * (2 * K) < 2 ^ 29" "uf_step inp * (2 * K) < 2 ^ 31"
  shows "\<exists>out' d. yuyv_semi_planar heap chroma inp out = Some (UVC_SUCCESS, out') \<and> uf_data out' = Some d
    \<and> length d = 4 * m * (3 * K) \<and> uf_width out' = uf_width inp \<and> uf_height out' = uf_height inp
    \<and> uf_step out' = 4 * m \<and> (\<forall>k < length d. \<exists>d0. d ! k = nv_spec chroma src (uf_step inp) (4 * m) K 0 d0 k)"
proof -
  let ?W = "4 * m"
  have b: "?W \<le> ?W * (2 * K)" "2 * K \<le> ?W * (2 * K)" "uf_step inp \<le> uf_step inp * (2 * K)"
    using assms(11,12) by simp_all
  have of_w: "uf_width inp = of_nat ?W" and of_h: "uf_height inp = of_nat (2 * K)"
    by (simp_all only: flip: assms(9,10)) simp_all
  have n: "unat ((uf_width inp * uf_height inp * 3) div 2) = ?W * (3 * K)"
  proof -
    have "uf_width inp * uf_height inp * 3 = of_nat (?W * (2 * K) * 3)"
      by (simp only: of_w of_h of_nat_mult of_nat_numeral)
    moreover have "?W * (2 * K) * 3 mod 2 ^ 32 = ?W * (2 * K) * 3"
    proof (rule mod_less)
      have "?W * (2 * K) * 3 < 2 ^ 29 * 3" using assms(14) by (rule mult_strict_right_mono) simp
      also have "(2 :: nat) ^ 29 * 3 < 2 ^ 32" by simp
      finally show "?W * (2 * K) * 3 < 2 ^ 32" .
    qed
    ultimately have "unat (uf_width inp * uf_height inp * 3) = ?W * (2 * K) * 3"
      by (simp only: unat_of_nat) simp
    then show ?thesis by (simp add: unat_div)
  qed
  obtain o1 d where e: "uvc_ensure_frame_size heap out (?W * (3 * K)) = (UVC_SUCCESS, o1)"
    "uf_data o1 = Some d" "length d = ?W * (3 * K)" "uf_data_bytes o1 = ?W * (3 * K)" "uf_library_owns_data o1"
    by (rule ensure_owned [OF assms(3-6)]) (use assms(11,12) in auto)
  have w31: "?W * (2 * K) < 2 ^ 31" using assms(14) by (rule order.strict_trans) simp
  have sw: "sint (uf_width inp) = int ?W" "sint (uf_height inp) = int (2 * K)"
  proof -
    have "unat (uf_width inp) < 2 ^ 31" "unat (uf_height inp) < 2 ^ 31"
      using order.strict_trans1 [OF b(1) w31] order.strict_trans1 [OF b(2) w31] by (simp_all only: assms(9,10))
    then show "sint (uf_width inp) = int ?W" "sint (uf_height inp) = int (2 * K)"
      by (simp_all only: sint_small assms(9,10))
  qed
  have ss: "sint (of_nat (uf_step inp) :: u32) = int (uf_step inp)"
  proof -
    have "uf_step inp < 2 ^ 31" using assms(15) b(3) by linarith
    then have "unat (of_nat (uf_step inp) :: u32) = uf_step inp" by (simp add: unat_of_nat)
    then show ?thesis using \<open>uf_step inp < 2 ^ 31\<close> by (simp add: sint_small)
  qed
  have uv: "c_int (int ?W * int (2 * K)) = Some (int (?W * (2 * K) + ?W * 0))"
    using c_int_nat [OF w31] by (simp only: of_nat_mult [symmetric] mult_0_right add_0_right)
  have l: "?W * (2 * K) + ?W * K \<le> length d" "uf_step inp * (2 * K - 1) + 2 * ?W \<le> length src"
    using e(3) assms(13) by simp_all
  obtain d' where d': "semi_rows chroma src (int (uf_step inp)) (int ?W) (uf_height inp) (2 * 0)
      (int (?W * (2 * K) + ?W * 0)) d = Some d'" "length d' = length d"
      "\<forall>k < length d. d' ! k = nv_spec chroma src (uf_step inp) ?W K 0 d k"
    using semi_rows_ok [OF assms(1,2,11) refl assms(10,12) l(2,1) w31 assms(15), of 0] by auto
  have "yuyv_semi_planar heap chroma inp out = Some (UVC_SUCCESS, (yuv420_fields inp o1)\<lparr>uf_data := Some d'\<rparr>)"
    unfolding yuyv_semi_planar_def n e(1) Let_def prod.case sw ss uv
    using e(2) d'(1) assms(7,8) by (simp add: yuv420_fields_def)
  then show ?thesis using d'(2,3) e(3) assms(9) by (auto simp: yuv420_fields_def)
qed

text \<open>
  The semi-planar conversions of a frame of \<open>2 * K\<close> rows of \<open>W = 4 * m\<close> pixels into a frame the
  library owns: first every luminance byte, row by row; then, for every pair of rows, the
  chrominance of its first row, in the order U V for \<^verbatim>\<open>yuv420SP\<close> and V U for \<^verbatim>\<open>iyuv420SP\<close>.
\<close>
theorem semi_planar_layout:
  assumes "(convert, pick) \<in> {(uvc_yuyv2yuv420SP heap, \<lambda>c. 2 * c + 1),
      (uvc_yuyv2iyuv420SP heap, \<lambda>c. if even c then 2 * c + 3 else 2 * c - 1)}"
    and "heap_ok heap" "buffer_ok out" "uf_library_owns_data out" "heap (4 * m * (3 * K)) \<noteq> None"
    and "uf_frame_format inp = UVC_FRAME_FORMAT_YUYV" "uf_data inp = Some src"
    and "unat (uf_width inp) = 4 * m" "unat (uf_height inp) = 2 * K" "0 < m" "0 < K"
    and "uf_step inp * (2 * K - 1) + 8 * m \<le> length src"
    and "4 * m * (2 * K) < 2 ^ 29" "uf_step inp * (2 * K) < 2 ^ 31"
  shows "\<exists>out' d. convert inp out = Some (UVC_SUCCESS, out') \<and> uf_data out' = Some d
    \<and> length d = 4 * m * (3 * K) \<and> uf_width out' = uf_width inp \<and> uf_height out' = uf_height inp
    \<and> uf_step out' = 4 * m
    \<and> (\<forall>r < 2 * K. \<forall>c < 4 * m. d ! (4 * m * r + c) = src ! (uf_step inp * r + 2 * c))
    \<and> (\<forall>r < K. \<forall>c < 4 * m. d ! (4 * m * (2 * K) + (4 * m * r + c)) = src ! (uf_step inp * (2 * r) + pick c))"
proof -
  let ?W = "4 * m"
  obtain chroma where c: "length chroma = 4" "\<forall>c \<in> set chroma. 0 \<le> c \<and> c < 8"
    "convert = yuyv_semi_planar heap chroma" "pick = chroma_at chroma"
  proof -
    have p: "chroma_at [1, 3, 5, 7] = (\<lambda>c. 2 * c + 1)"
      "chroma_at [3, 1, 7, 5] = (\<lambda>c. if even c then 2 * c + 3 else 2 * c - 1)"
      using chroma_at_uv chroma_at_vu by blast+
    show thesis
      using assms(1) that [of "[1, 3, 5, 7]"] that [of "[3, 1, 7, 5]"]
      by (auto simp: p uvc_yuyv2yuv420SP_def uvc_yuyv2iyuv420SP_def)
  qed
  obtain out' d where d: "convert inp out = Some (UVC_SUCCESS, out')" "uf_data out' = Some d"
    "length d = ?W * (3 * K)" "uf_width out' = uf_width inp" "uf_height out' = uf_height inp"
    "uf_step out' = ?W" "\<forall>k < length d. \<exists>d0. d ! k = nv_spec chroma src (uf_step inp) ?W K 0 d0 k"
    using semi_planar_runs [OF c(1,2) assms(2-)] c(3) by blast
  have luma: "d ! (?W * r + c) = src ! (uf_step inp * r + 2 * c)" if "r < 2 * K" "c < ?W" for r c
  proof -
    have "?W * Suc r \<le> ?W * (2 * K)" using that(1) by (intro mult_le_mono2) simp
    then have k: "?W * r + c < ?W * (2 * K)" using that(2) by simp
    then have "?W * r + c < length d" using d(3) by simp
    with d(7) obtain d0 where "d ! (?W * r + c) = nv_spec chroma src (uf_step inp) ?W K 0 d0 (?W * r + c)" by blast
    moreover have "(?W * r + c) div ?W = r" "(?W * r + c) mod ?W = c"
      using that(2) assms(10) by (simp_all only: div_mult_self4 mod_mult_self4) simp_all
    ultimately show ?thesis using k by (simp add: nv_spec_def)
  qed
  have chroma: "d ! (?W * (2 * K) + (?W * r + c)) = src ! (uf_step inp * (2 * r) + pick c)"
    if "r < K" "c < ?W" for r c
  proof -
    have "?W * Suc r \<le> ?W * K" using that(1) by (intro mult_le_mono2) simp
    then have k: "?W * r + c < ?W * K" using that(2) by simp
    have e3: "?W * (3 * K) = ?W * (2 * K) + ?W * K" by simp
    have "?W * (2 * K) + (?W * r + c) < length d" using k by (simp only: d(3) e3 add_less_cancel_left)
    with d(7) obtain d0 where e: "d ! (?W * (2 * K) + (?W * r + c)) =
        nv_spec chroma src (uf_step inp) ?W K 0 d0 (?W * (2 * K) + (?W * r + c))" by blast
    have dm: "(?W * r + c) div ?W = r" "(?W * r + c) mod ?W = c"
      using that(2) assms(10) by (simp_all only: div_mult_self4 mod_mult_self4) simp_all
    have 1: "\<not> ?W * (2 * K) + (?W * r + c) < ?W * (2 * K)"
      "?W * (2 * K) + ?W * 0 \<le> ?W * (2 * K) + (?W * r + c)"
      "?W * (2 * K) + (?W * r + c) < ?W * (2 * K) + ?W * K" using k by linarith+
    show ?thesis unfolding e nv_spec_def c(4) by (simp only: 1 add_diff_cancel_left' dm simp_thms if_True if_False)
  qed
  from d luma chroma show ?thesis by blast
qed

theorem semi_planar_layout_witness:
  "\<exists>out' d. uvc_yuyv2iyuv420SP demo_heap (demo_image UVC_FRAME_FORMAT_YUYV 8 4 2 [1, 2, 3, 4, 5, 6, 7, 8,
      11, 12, 13, 14, 15, 16, 17, 18]) (demo_image UVC_FRAME_FORMAT_RGB 0 0 0 []) = Some (UVC_SUCCESS, out')
    \<and> uf_data out' = Some d \<and> length d = 12"
  using semi_planar_layout [of "uvc_yuyv2iyuv420SP demo_heap" "\<lambda>c. if even c then 2 * c + 3 else 2 * c - 1" demo_heap
    "demo_image UVC_FRAME_FORMAT_RGB 0 0 0 []" 1 1 "demo_image UVC_FRAME_FORMAT_YUYV 8 4 2 [1, 2, 3, 4, 5, 6, 7, 8,
      11, 12, 13, 14, 15, 16, 17, 18]"] by auto

text \<open>
  \<^verbatim>\<open>uvc_yuyv2iyuv420P\<close> starts both chrominance planes at the same place: the plane behind the
  luminance is never written, and the other holds the bytes of the odd rows only, while
  \<^verbatim>\<open>uvc_yuyv2yuv420P\<close> fills both.
\<close>
theorem iyuv420P_overlap:
  "data_after (uvc_yuyv2yuv420P demo_heap (demo_image UVC_FRAME_FORMAT_YUYV 8 4 2
      [1, 2, 3, 4, 5, 6, 7, 8, 11, 12, 13, 14, 15, 16, 17, 18]) (demo_image UVC_FRAME_FORMAT_RGB 0 0 0 [])) =
    Some [1, 3, 5, 7, 11, 13, 15, 17, 2, 6, 14, 18]
   \<and> data_after (uvc_yuyv2iyuv420P demo_heap (demo_image UVC_FRAME_FORMAT_YUYV 8 4 2
      [1, 2, 3, 4, 5, 6, 7, 8, 11, 12, 13, 14, 15, 16, 17, 18]) (demo_image UVC_FRAME_FORMAT_RGB 0 0 0 [])) =
    Some [1, 3, 5, 7, 11, 13, 15, 17, 0, 0, 14, 18]"
  by code_simp

text \<open>
  A frame without rows: the unsigned \<^verbatim>\<open>hh - 1\<close> wraps, and the semi-planar loop runs out of the
  buffers when the output is a buffer of the caller.
\<close>
theorem semi_planar_no_rows:
  assumes "convert \<in> {uvc_yuyv2yuv420SP heap, uvc_yuyv2iyuv420SP heap}"
    and "uf_frame_format inp = UVC_FRAME_FORMAT_YUYV" "uf_height inp = 0" "uf_data inp = Some []"
    and "0 < sint (uf_width inp)" "\<not> uf_library_owns_data out" "uf_data out \<noteq> None"
  shows "convert inp out = None"
proof -
  have n: "uvc_ensure_frame_size heap out 0 = (UVC_SUCCESS, out)"
    using assms(6,7) by (simp add: uvc_ensure_frame_size_def)
  have g: "semi_group chroma [] sw yuv s = None" for chroma sw yuv s
    by (simp add: semi_group_def rd_at_def)
  have r: "semi_row chroma [] sw (sint (uf_width inp)) 0 yuv s = None" for chroma sw yuv s
    using assms(5) by (subst semi_row.simps) (simp add: g)
  have "semi_rows chroma [] sw (sint (uf_width inp)) 0 0 uv dest = None" for chroma sw uv dest
    by (subst semi_rows.simps) (simp add: r unat_gt_0 split: Option.bind_splits)
  then show ?thesis
    using assms(1-4) n
    by (auto simp: uvc_yuyv2yuv420SP_def uvc_yuyv2iyuv420SP_def yuyv_semi_planar_def yuv420_fields_def
        split: Option.bind_splits)
qed

theorem semi_planar_no_rows_witness:
  "uvc_yuyv2yuv420SP demo_heap (demo_image UVC_FRAME_FORMAT_YUYV 8 4 0 [])
     ((demo_image UVC_FRAME_FORMAT_RGB 0 0 0 [1])\<lparr>uf_library_owns_data := False\<rparr>) = None"
  by (rule semi_planar_no_rows [where heap = demo_heap]) (simp_all del: demo_simps(3))

end
