(* ===== verification/Uvc_Stream.thy ===== *)
theory Uvc_Stream
  imports Uvc_Payload Complex_Main "HOL-Library.Log_Nat"
begin

text \<open>
  The life of a stream in \<^verbatim>\<open>libuvc/src/stream.c\<close>: opening it, choosing an altsetting and
  starting its transfers, the transfer callback, the thread that hands frames to the user's
  callback, polling for a frame, stopping and closing. The event thread, the callback thread
  and the caller of the library share the handle; what each does between taking and releasing
  the mutex is one definition, and \<open>stream_step\<close> interleaves them.
\<close>

section \<open>The asynchronous layer\<close>

text \<open>
  Transfers are named by numbers. An allocation of a transfer or of memory may fail
  (\<open>None\<close>); allocated memory has any contents.
\<close>

record 'w async =
  as_new_handle :: "'w \<Rightarrow> bool \<times> 'w"
  as_malloc :: "nat \<Rightarrow> 'w \<Rightarrow> u8 list option \<times> 'w"
  as_alloc_transfer :: "nat \<Rightarrow> 'w \<Rightarrow> nat option \<times> 'w"
  as_submit :: "nat \<Rightarrow> 'w \<Rightarrow> int \<times> 'w"
  as_cancel :: "nat \<Rightarrow> 'w \<Rightarrow> int \<times> 'w"

definition LIBUVC_NUM_TRANSFER_BUFS :: nat where "LIBUVC_NUM_TRANSFER_BUFS = 10"

definition LIBUVC_XFER_BUF_SIZE :: nat where "LIBUVC_XFER_BUF_SIZE = 16 * 1024 * 1024"

section \<open>Opening\<close>

definition uvc_stream_ctrl ::
  "'w usb \<Rightarrow> device_handle \<Rightarrow> stream_handle \<Rightarrow> stream_ctrl \<Rightarrow> 'w \<Rightarrow> (int \<times> stream_handle \<times> 'w) option" where
  "uvc_stream_ctrl u devh s ctrl w =
     (if si_bInterfaceNumber (st_stream_if s) \<noteq> sc_bInterfaceNumber ctrl
      then Some (UVC_ERROR_INVALID_PARAM, s, w)
      else if st_running s then Some (UVC_ERROR_BUSY, s, w)
      else do {
        (ret, ctrl, w) \<leftarrow> uvc_query_stream_ctrl u devh ctrl False UVC_SET_CUR w;
        if ret \<noteq> UVC_SUCCESS then Some (ret, s, w)
        else Some (UVC_SUCCESS, s\<lparr>st_cur_ctrl := ctrl\<rparr>, w) })"

fun get_stream_by_interface :: "stream_handle list \<Rightarrow> u8 \<Rightarrow> stream_handle option" where
  "get_stream_by_interface [] i = None"
| "get_stream_by_interface (s # ss) i =
     (if si_bInterfaceNumber (st_stream_if s) = i then Some s else get_stream_by_interface ss i)"

fun get_stream_if :: "streaming_interface list \<Rightarrow> u8 \<Rightarrow> streaming_interface option" where
  "get_stream_if [] i = None"
| "get_stream_if (si # sis) i = (if si_bInterfaceNumber si = i then Some si else get_stream_if sis i)"

text \<open>The handle as \<^verbatim>\<open>calloc\<close> leaves it, with the fields set at once.\<close>

definition new_stream :: "streaming_interface \<Rightarrow> stream_handle" where
  "new_stream si = \<lparr>st_stream_if = si, st_running = False, st_cur_ctrl = zero_stream_ctrl,
     st_bfh_err = 0, st_hold_bfh_err = 0, st_fid = 0, st_seq = 0, st_hold_seq = 0, st_pts = 0,
     st_hold_pts = 0, st_last_scr = 0, st_hold_last_scr = 0, st_got_bytes = 0, st_hold_bytes = 0,
     st_size_buf = 0, st_outbuf = None, st_holdbuf = None, st_last_polled_seq = 0,
     st_user_cb = False, st_transfers = replicate LIBUVC_NUM_TRANSFER_BUFS None,
     st_frame = \<lparr>uf_data = None, uf_data_bytes = 0, uf_actual_bytes = 0, uf_width = 0, uf_height = 0,
       uf_frame_format = UVC_FRAME_FORMAT_UNKNOWN, uf_step = 0, uf_sequence = 0,
       uf_library_owns_data = True\<rparr>,
     st_frame_format = UVC_FRAME_FORMAT_UNKNOWN\<rparr>"

text \<open>The result: the code, the device's list of streams (the new one last), the world.\<close>

definition uvc_stream_open_ctrl ::
  "'w usb \<Rightarrow> 'w async \<Rightarrow> device_handle \<Rightarrow> stream_handle list \<Rightarrow> stream_ctrl \<Rightarrow> 'w
     \<Rightarrow> (int \<times> stream_handle list \<times> 'w) option" where
  "uvc_stream_open_ctrl u a devh streams ctrl w =
     (if get_stream_by_interface streams (sc_bInterfaceNumber ctrl) \<noteq> None
      then Some (UVC_ERROR_BUSY, streams, w)
      else (case get_stream_if (stream_ifs (dh_info devh)) (sc_bInterfaceNumber ctrl) of
        None \<Rightarrow> Some (UVC_ERROR_INVALID_PARAM, streams, w)
      | Some stream_if \<Rightarrow>
          (let (ok, w) = as_new_handle a w
           in if \<not> ok then Some (UVC_ERROR_NO_MEM, streams, w)
           else let s = new_stream stream_if;
                    (ret, w) = uvc_claim_if u (si_bInterfaceNumber stream_if) w
           in if ret \<noteq> UVC_SUCCESS then Some (ret, streams, w)
           else do {
             (ret, s, w) \<leftarrow> uvc_stream_ctrl u devh s ctrl w;
             if ret \<noteq> UVC_SUCCESS then Some (ret, streams, w)
             else let (outbuf, w) = as_malloc a LIBUVC_XFER_BUF_SIZE w;
                      (holdbuf, w) = as_malloc a LIBUVC_XFER_BUF_SIZE w
             in Some (UVC_SUCCESS, streams @ [s\<lparr>st_running := False, st_outbuf := outbuf,
                  st_holdbuf := holdbuf, st_size_buf := LIBUVC_XFER_BUF_SIZE\<rparr>], w) })))"

section \<open>Choosing an altsetting\<close>

text \<open>
  Single-precision arithmetic on non-negative values of at least one half (below that, the
  value is cut to zero in any case): round to a multiple of the unit in the last place, to
  the even one of two neighbours at the same distance.
\<close>

definition round_even :: "rat \<Rightarrow> int" where
  "round_even y =
     (let f = \<lfloor>y\<rfloor>; d = y - of_int f
      in if d < 1 / 2 then f else if d > 1 / 2 then f + 1 else if even f then f else f + 1)"

definition fround :: "rat \<Rightarrow> rat" where
  "fround x = (let ulp = 2 ^ floorlog 2 (nat \<lfloor>x\<rfloor>) / 2 ^ 24 in of_int (round_even (x / ulp)) * ulp)"

definition scaled_payload :: "u32 \<Rightarrow> rat \<Rightarrow> u32" where
  "scaled_payload n factor =
     (let x = (if n = 0 then 0 else fround (of_nat (unat n))) * factor
      in if x < 1 / 2 then 0 else word_of_int \<lfloor>fround x\<rfloor>)"

text \<open>The bytes per packet that the negotiated block asks for; \<open>size_t\<close> has 32 bits.\<close>

definition config_bytes_per_packet :: "u32 \<Rightarrow> rat \<Rightarrow> u32" where
  "config_bytes_per_packet dwMaxPayloadTransferSize bandwidth_factor =
     (if 0 < bandwidth_factor \<and> bandwidth_factor < 1
      then let n = scaled_payload dwMaxPayloadTransferSize bandwidth_factor
           in if n = 0 then dwMaxPayloadTransferSize else n
      else dwMaxPayloadTransferSize)"

text \<open>The size of an endpoint's packets: eleven bits, times the transactions per microframe.\<close>

definition packet_size :: "u16 \<Rightarrow> u32" where
  "packet_size wMaxPacketSize =
     (let n = ucast wMaxPacketSize :: u32 in (n AND 0x07ff) * ((drop_bit 11 n AND 3) + 1))"

fun endpoint_bytes_per_packet :: "usb_endpoint list \<Rightarrow> u8 \<Rightarrow> u32" where
  "endpoint_bytes_per_packet [] address = 0"
| "endpoint_bytes_per_packet (ep # eps) address =
     (if ep_bEndpointAddress ep = address then packet_size (ep_wMaxPacketSize ep)
      else endpoint_bytes_per_packet eps address)"

definition packets_per_transfer :: "u32 \<Rightarrow> u32 \<Rightarrow> u32" where
  "packets_per_transfer dwMaxVideoFrameSize ep_bytes =
     (let n = (dwMaxVideoFrameSize + ep_bytes - 1) div ep_bytes in if n > 32 then 32 else n)"

text \<open>
  The search through the altsettings: the one chosen and the size of its packets, or none.
  When none is chosen the last one has no packets, so the sizes are not read.
\<close>

fun pick_altsetting :: "usb_altsetting list \<Rightarrow> u8 \<Rightarrow> u32 \<Rightarrow> (usb_altsetting \<times> u32) option" where
  "pick_altsetting [] address config = None"
| "pick_altsetting (alt # alts) address config =
     (let n = endpoint_bytes_per_packet (as_endpoints alt) address
      in if n \<noteq> 0 \<and> (n \<ge> config \<or> alts = []) then Some (alt, n) else pick_altsetting alts address config)"

section \<open>Starting\<close>

text \<open>Allocate the transfers; filling in one that could not be allocated is undefined.\<close>

fun alloc_transfers ::
  "'w usb \<Rightarrow> 'w async \<Rightarrow> nat \<Rightarrow> nat \<Rightarrow> nat \<Rightarrow> 'w \<Rightarrow> (nat list \<times> 'w) option" where
  "alloc_transfers u a packets bytes 0 w = Some ([], w)"
| "alloc_transfers u a packets bytes (Suc k) w =
     (let (t, w) = as_alloc_transfer a packets w; (_, w) = usb_malloc u bytes w
      in do { t \<leftarrow> t; (ts, w) \<leftarrow> alloc_transfers u a packets bytes k w; Some (t # ts, w) })"

fun submit_transfers :: "'w async \<Rightarrow> nat list \<Rightarrow> 'w \<Rightarrow> int \<times> 'w" where
  "submit_transfers a [] w = (UVC_SUCCESS, w)"
| "submit_transfers a (t # ts) w =
     (let (ret, w) = as_submit a t w in if ret \<noteq> UVC_SUCCESS then (ret, w) else submit_transfers a ts w)"

fun find_format_of_frame :: "format_desc list \<Rightarrow> u16 \<Rightarrow> u16 \<Rightarrow> (format_desc \<times> frame_desc) option" where
  "find_format_of_frame [] format_id frame_id = None"
| "find_format_of_frame (f # fs) format_id frame_id =
     (case (if ucast (fm_bFormatIndex f) = format_id then find_frame (fm_frame_descs f) frame_id
            else None) of
        Some fr \<Rightarrow> Some (f, fr)
      | None \<Rightarrow> find_format_of_frame fs format_id frame_id)"

text \<open>
  Choose the altsetting and allocate the transfers, in one of the two modes; the result is
  the error, if any, with the transfers.
\<close>

definition setup_iso ::
  "'w usb \<Rightarrow> 'w async \<Rightarrow> usb_altsetting list \<Rightarrow> u8 \<Rightarrow> u32 \<Rightarrow> u32 \<Rightarrow> 'w
     \<Rightarrow> (int \<times> nat list \<times> 'w) option" where
  "setup_iso u a alts address config dwMaxVideoFrameSize w =
     (if config = 0 then Some (UVC_ERROR_IO, [], w)
      else (case pick_altsetting alts address config of
        None \<Rightarrow> Some (UVC_ERROR_INVALID_MODE, [], w)
      | Some (alt, ep_bytes) \<Rightarrow>
          (let packets = packets_per_transfer dwMaxVideoFrameSize ep_bytes;
               bytes = packets * ep_bytes
           in if bytes = 0 then Some (UVC_ERROR_INVALID_MODE, [], w)
           else let (ret, w) = usb_set_alt u (as_bInterfaceNumber alt) (as_bAlternateSetting alt) w
           in if ret \<noteq> UVC_SUCCESS then Some (ret, [], w)
           else do {
             (ts, w) \<leftarrow> alloc_transfers u a (unat packets) (unat bytes) LIBUVC_NUM_TRANSFER_BUFS w;
             Some (UVC_SUCCESS, ts, w) })))"

text \<open>The transfers in one of the two modes: a single altsetting means bulk transfers.\<close>

definition setup_transfers ::
  "'w usb \<Rightarrow> 'w async \<Rightarrow> device_handle \<Rightarrow> streaming_interface \<Rightarrow> stream_ctrl \<Rightarrow> frame_desc \<Rightarrow> rat \<Rightarrow> 'w
     \<Rightarrow> (int \<times> nat list \<times> 'w) option" where
  "setup_transfers u a devh si ctrl frame_desc bandwidth_factor w =
     (let dwMax = (if sc_dwMaxVideoFrameSize ctrl \<le> fr_dwMaxVideoFrameBufferSize frame_desc
                   then sc_dwMaxVideoFrameSize ctrl else fr_dwMaxVideoFrameBufferSize frame_desc)
      in do {
        config \<leftarrow> di_config (dh_info devh);
        alts \<leftarrow> rd config (unat (si_bInterfaceNumber si));
        if length alts > 1
        then setup_iso u a alts (si_bEndpointAddress si)
               (config_bytes_per_packet (sc_dwMaxPayloadTransferSize ctrl) bandwidth_factor) dwMax w
        else do {
          (ts, w) \<leftarrow> alloc_transfers u a 0 (unat (sc_dwMaxPayloadTransferSize ctrl))
                       LIBUVC_NUM_TRANSFER_BUFS w;
          Some (UVC_SUCCESS, ts, w) } })"

definition start_failed :: "int \<Rightarrow> stream_handle \<Rightarrow> 'w \<Rightarrow> int \<times> stream_handle \<times> 'w" where
  "start_failed ret s w = (ret, s\<lparr>st_running := False\<rparr>, w)"

text \<open>Set up the transfers, note the callback (its thread starts here), submit.\<close>

definition start_transfers ::
  "'w usb \<Rightarrow> 'w async \<Rightarrow> device_handle \<Rightarrow> stream_handle \<Rightarrow> frame_desc \<Rightarrow> bool \<Rightarrow> rat \<Rightarrow> 'w
     \<Rightarrow> (int \<times> stream_handle \<times> 'w) option" where
  "start_transfers u a devh s frame_desc cb bandwidth_factor w =
     do { (ret, ts, w) \<leftarrow>
            setup_transfers u a devh (st_stream_if s) (st_cur_ctrl s) frame_desc bandwidth_factor w;
          if ret \<noteq> UVC_SUCCESS then Some (start_failed ret s w)
          else let s = s\<lparr>st_transfers := map Some ts, st_user_cb := cb\<rparr>;
                   (ret, w) = submit_transfers a ts w
          in if ret \<noteq> UVC_SUCCESS then Some (start_failed ret s w) else Some (ret, s, w) }"

definition uvc_stream_start_bandwidth ::
  "'w usb \<Rightarrow> 'w async \<Rightarrow> device_handle \<Rightarrow> stream_handle \<Rightarrow> bool \<Rightarrow> rat \<Rightarrow> 'w
     \<Rightarrow> (int \<times> stream_handle \<times> 'w) option" where
  "uvc_stream_start_bandwidth u a devh s cb bandwidth_factor w =
     (if st_running s then Some (UVC_ERROR_BUSY, s, w)
      else let s = s\<lparr>st_running := True, st_seq := 0, st_fid := 0, st_pts := 0, st_last_scr := 0,
                     st_bfh_err := 0\<rparr>;
               ctrl = st_cur_ctrl s
      in (case find_format_of_frame (si_format_descs (st_stream_if s)) (ucast (sc_bFormatIndex ctrl))
                 (ucast (sc_bFrameIndex ctrl)) of
        None \<Rightarrow> Some (start_failed UVC_ERROR_INVALID_PARAM s w)
      | Some (format_desc, frame_desc) \<Rightarrow>
          (let s = s\<lparr>st_frame_format := uvc_frame_format_for_guid (fm_guidFormat format_desc)\<rparr>
           in if st_frame_format s = UVC_FRAME_FORMAT_UNKNOWN
              then Some (start_failed UVC_ERROR_NOT_SUPPORTED s w)
              else start_transfers u a devh s frame_desc cb bandwidth_factor w)))"

definition uvc_stream_start where
  "uvc_stream_start u a devh s cb w = uvc_stream_start_bandwidth u a devh s cb 0 w"

section \<open>The transfer callback\<close>

text \<open>Cancel and free a transfer, and clear the first slot that holds it.\<close>

fun clear_slot :: "nat \<Rightarrow> nat option list \<Rightarrow> nat option list" where
  "clear_slot t [] = []"
| "clear_slot t (x # xs) = (if x = Some t then None # xs else x # clear_slot t xs)"

definition delete_transfer :: "'w async \<Rightarrow> nat \<Rightarrow> stream_handle \<Rightarrow> 'w \<Rightarrow> stream_handle \<times> 'w" where
  "delete_transfer a t s w =
     (if Some t \<in> set (st_transfers s)
      then (s\<lparr>st_transfers := clear_slot t (st_transfers s)\<rparr>, snd (as_cancel a t w))
      else (s, w))"

text \<open>
  What a finished transfer carries: its status, the bytes of its buffer, how many of them a
  bulk transfer received, and the packets of an isochronous one (none for a bulk transfer).
\<close>

record finished =
  fi_status :: transfer_status
  fi_buffer :: "u8 list"
  fi_actual_length :: nat
  fi_packets :: "iso_packet list"

definition callback_data ::
  "'w usb \<Rightarrow> device_handle \<Rightarrow> finished \<Rightarrow> stream_handle \<Rightarrow> 'w \<Rightarrow> (stream_handle \<times> 'w) option" where
  "callback_data u devh fi s w =
     (if fi_status fi = TRANSFER_COMPLETED
      then if fi_packets fi = []
           then do { p \<leftarrow> rd_bytes (fi_buffer fi) 0 (fi_actual_length fi); process_payload u devh p s w }
           else process_payload_iso u devh (fi_buffer fi) (fi_packets fi) s w
      else if fi_status fi = TRANSFER_NO_DEVICE then Some (s\<lparr>st_running := False\<rparr>, w)
      else Some (s, w))"

definition stream_callback ::
  "'w usb \<Rightarrow> 'w async \<Rightarrow> device_handle \<Rightarrow> nat \<Rightarrow> finished \<Rightarrow> stream_handle \<Rightarrow> 'w
     \<Rightarrow> (stream_handle \<times> 'w) option" where
  "stream_callback u a devh t fi s w =
     do { (s, w) \<leftarrow> callback_data u devh fi s w;
          let resubmit = (fi_status fi \<notin> {TRANSFER_NO_DEVICE, TRANSFER_CANCELLED, TRANSFER_ERROR});
          if st_running s \<and> resubmit then Some (s, snd (as_submit a t w))
          else Some (delete_transfer a t s w) }"

section \<open>Frames for the user\<close>

text \<open>The fields of the frame that is handed out, but for its data.\<close>

definition frame_fields :: "stream_handle \<Rightarrow> frame_desc \<Rightarrow> uvc_frame" where
  "frame_fields s frame_desc =
     (let width = ucast (fr_wWidth frame_desc)
      in (st_frame s)\<lparr>uf_frame_format := st_frame_format s, uf_width := width,
           uf_height := ucast (fr_wHeight frame_desc),
           uf_actual_bytes := (if st_hold_bfh_err s = 0 then st_hold_bytes s else 0),
           uf_step := (if st_frame_format s = UVC_FRAME_FORMAT_YUYV then unat (width * 2) else 0)\<rparr>)"

text \<open>
  The copy of the presented buffer. The first argument says whether a reallocation succeeds;
  a null buffer is only touched when bytes are copied.
\<close>

definition copy_held :: "bool \<Rightarrow> stream_handle \<Rightarrow> uvc_frame \<Rightarrow> uvc_frame option" where
  "copy_held mem s frame =
     (let grow = (uf_data_bytes frame < st_hold_bytes s)
      in if st_hold_bytes s = 0 then Some frame
      else if grow \<and> \<not> mem then None
      else do {
        held \<leftarrow> st_holdbuf s;
        d \<leftarrow> rd_bytes held 0 (st_hold_bytes s);
        old \<leftarrow> (if grow then Some (replicate (st_hold_bytes s) 0) else uf_data frame);
        new \<leftarrow> wr_bytes old 0 d;
        Some (frame\<lparr>uf_data := Some new,
          uf_data_bytes := (if grow then st_hold_bytes s else uf_data_bytes frame)\<rparr>) })"

definition populate_frame :: "bool \<Rightarrow> device_handle \<Rightarrow> stream_handle \<Rightarrow> stream_handle option" where
  "populate_frame mem devh s =
     do { frame_desc \<leftarrow> uvc_find_frame_desc devh (ucast (sc_bFormatIndex (st_cur_ctrl s)))
                         (ucast (sc_bFrameIndex (st_cur_ctrl s)));
          frame \<leftarrow> copy_held mem s (frame_fields s frame_desc);
          Some (s\<lparr>st_frame := frame\<rparr>) }"

text \<open>
  Polling: the part before a wait, and the part after it. The first result is the code, the
  second whether a frame is given out (\<open>None\<close> when the caller has to wait first).
\<close>

definition take_polled :: "bool \<Rightarrow> device_handle \<Rightarrow> stream_handle \<Rightarrow> (int \<times> bool \<times> stream_handle) option" where
  "take_polled mem devh s =
     do { s \<leftarrow> populate_frame mem devh s;
          Some (UVC_SUCCESS, True, s\<lparr>st_last_polled_seq := st_hold_seq s\<rparr>) }"

definition uvc_stream_get_frame ::
  "bool \<Rightarrow> device_handle \<Rightarrow> stream_handle \<Rightarrow> int \<Rightarrow> (int \<times> bool option \<times> stream_handle) option" where
  "uvc_stream_get_frame mem devh s timeout_us =
     (if \<not> st_running s then Some (UVC_ERROR_INVALID_PARAM, Some False, s)
      else if st_user_cb s then Some (UVC_ERROR_CALLBACK_EXISTS, Some False, s)
      else if st_last_polled_seq s < st_hold_seq s
      then do { (r, b, s) \<leftarrow> take_polled mem devh s; Some (r, Some b, s) }
      else if timeout_us \<noteq> - 1 then Some (UVC_SUCCESS, None, s)
      else Some (UVC_SUCCESS, Some False, s))"

definition get_frame_woken :: "bool \<Rightarrow> device_handle \<Rightarrow> stream_handle \<Rightarrow> (int \<times> bool \<times> stream_handle) option" where
  "get_frame_woken mem devh s =
     (if st_last_polled_seq s < st_hold_seq s then take_polled mem devh s
      else Some (UVC_SUCCESS, False, s))"

section \<open>Stopping and closing\<close>

fun cancel_all :: "'w async \<Rightarrow> nat option list \<Rightarrow> 'w \<Rightarrow> 'w" where
  "cancel_all a [] w = w"
| "cancel_all a (None # ts) w = cancel_all a ts w"
| "cancel_all a (Some t # ts) w = cancel_all a ts (snd (as_cancel a t w))"

text \<open>The transfer callbacks the event thread runs, one after the other.\<close>

fun run_callbacks ::
  "'w usb \<Rightarrow> 'w async \<Rightarrow> device_handle \<Rightarrow> (nat \<times> finished) list \<Rightarrow> stream_handle \<Rightarrow> 'w
     \<Rightarrow> (stream_handle \<times> 'w) option" where
  "run_callbacks u a devh [] s w = Some (s, w)"
| "run_callbacks u a devh ((t, fi) # cbs) s w =
     do { (s, w) \<leftarrow> stream_callback u a devh t fi s w; run_callbacks u a devh cbs s w }"

text \<open>
  Stopping cancels the transfers and waits, while callbacks run, until all slots are clear.
  The callbacks that run are an argument: when they leave a slot, the wait does not end. The
  callback thread, which is joined last, ends at its next look at the handle.
\<close>

definition stop_finished :: "stream_handle \<Rightarrow> bool" where
  "stop_finished s \<longleftrightarrow> (\<forall>x \<in> set (st_transfers s). x = None)"

definition uvc_stream_stop ::
  "'w usb \<Rightarrow> 'w async \<Rightarrow> device_handle \<Rightarrow> (nat \<times> finished) list \<Rightarrow> stream_handle \<Rightarrow> 'w
     \<Rightarrow> (int \<times> stream_handle \<times> 'w) option" where
  "uvc_stream_stop u a devh cbs s w =
     (if \<not> st_running s then Some (UVC_ERROR_INVALID_PARAM, s, w)
      else do {
        (s, w) \<leftarrow> run_callbacks u a devh cbs (s\<lparr>st_running := False\<rparr>) (cancel_all a (st_transfers s) w);
        if stop_finished s then Some (UVC_SUCCESS, s, w) else None })"

text \<open>
  Closing: the interface is released, and the handle, which alone has its interface, leaves
  the device's list and is freed.
\<close>

definition uvc_stream_close ::
  "'w usb \<Rightarrow> 'w async \<Rightarrow> device_handle \<Rightarrow> (nat \<times> finished) list \<Rightarrow> stream_handle list \<Rightarrow> stream_handle \<Rightarrow> 'w
     \<Rightarrow> (stream_handle list \<times> 'w) option" where
  "uvc_stream_close u a devh cbs streams s w =
     do { (_, s, w) \<leftarrow> (if st_running s then uvc_stream_stop u a devh cbs s w else Some (UVC_SUCCESS, s, w));
          Some (filter (\<lambda>t. si_bInterfaceNumber (st_stream_if t) \<noteq> si_bInterfaceNumber (st_stream_if s)) streams,
            snd (uvc_release_if u devh (si_bInterfaceNumber (st_stream_if s)) w)) }"

text \<open>Every stream with the callbacks of its stop.\<close>

fun uvc_stop_streaming ::
  "'w usb \<Rightarrow> 'w async \<Rightarrow> device_handle \<Rightarrow> (stream_handle \<times> (nat \<times> finished) list) list \<Rightarrow> stream_handle list \<Rightarrow> 'w
     \<Rightarrow> (stream_handle list \<times> 'w) option" where
  "uvc_stop_streaming u a devh [] streams w = Some (streams, w)"
| "uvc_stop_streaming u a devh ((s, cbs) # rest) streams w =
     do { (streams, w) \<leftarrow> uvc_stream_close u a devh cbs streams s w;
          uvc_stop_streaming u a devh rest streams w }"

definition uvc_start_streaming_bandwidth ::
  "'w usb \<Rightarrow> 'w async \<Rightarrow> device_handle \<Rightarrow> stream_handle list \<Rightarrow> stream_ctrl \<Rightarrow> bool \<Rightarrow> rat \<Rightarrow> 'w
     \<Rightarrow> (int \<times> stream_handle list \<times> 'w) option" where
  "uvc_start_streaming_bandwidth u a devh streams ctrl cb bandwidth_factor w =
     do { (ret, streams, w) \<leftarrow> uvc_stream_open_ctrl u a devh streams ctrl w;
          if ret \<noteq> UVC_SUCCESS then Some (ret, streams, w)
          else do {
            (ret, s, w) \<leftarrow> uvc_stream_start_bandwidth u a devh (last streams) cb bandwidth_factor w;
            if ret \<noteq> UVC_SUCCESS
            then do { (streams, w) \<leftarrow> uvc_stream_close u a devh [] streams s w; Some (ret, streams, w) }
            else Some (UVC_SUCCESS, butlast streams @ [s], w) } }"

definition uvc_start_streaming where
  "uvc_start_streaming u a devh streams ctrl cb w =
     uvc_start_streaming_bandwidth u a devh streams ctrl cb 0 w"

section \<open>The threads\<close>

text \<open>
  The callback thread waits for a frame, is between its two critical sections, or has ended;
  \<open>ca_seen\<close> is the list of the frames handed to the user's callback.
\<close>

datatype caller_pc = Caller_wait | Caller_call | Caller_done

record caller =
  ca_stream :: stream_handle
  ca_pc :: caller_pc
  ca_last_seq :: u32
  ca_seen :: "uvc_frame list"

inductive stream_step :: "'w usb \<Rightarrow> device_handle \<Rightarrow> caller \<Rightarrow> caller \<Rightarrow> bool" for u devh where
  ended: "ca_pc c = Caller_wait \<Longrightarrow> \<not> st_running (ca_stream c) \<Longrightarrow>
    stream_step u devh c (c\<lparr>ca_pc := Caller_done\<rparr>)"
| taken: "ca_pc c = Caller_wait \<Longrightarrow> st_running (ca_stream c) \<Longrightarrow>
    ca_last_seq c \<noteq> st_hold_seq (ca_stream c) \<Longrightarrow> st_hold_bfh_err (ca_stream c) = 0 \<Longrightarrow>
    populate_frame mem devh (ca_stream c) = Some s \<Longrightarrow>
    stream_step u devh c (c\<lparr>ca_stream := s, ca_last_seq := st_hold_seq s, ca_pc := Caller_call\<rparr>)"
| skipped: "ca_pc c = Caller_wait \<Longrightarrow> st_running (ca_stream c) \<Longrightarrow>
    ca_last_seq c \<noteq> st_hold_seq (ca_stream c) \<Longrightarrow> st_hold_bfh_err (ca_stream c) \<noteq> 0 \<Longrightarrow>
    stream_step u devh c (c\<lparr>ca_last_seq := st_hold_seq (ca_stream c), ca_pc := Caller_call\<rparr>)"
| called: "ca_pc c = Caller_call \<Longrightarrow> st_hold_bfh_err (ca_stream c) = 0 \<Longrightarrow>
    stream_step u devh c (c\<lparr>ca_seen := ca_seen c @ [st_frame (ca_stream c)], ca_pc := Caller_wait\<rparr>)"
| uncalled: "ca_pc c = Caller_call \<Longrightarrow> st_hold_bfh_err (ca_stream c) \<noteq> 0 \<Longrightarrow>
    stream_step u devh c (c\<lparr>ca_pc := Caller_wait\<rparr>)"
| payload: "process_payload u devh p (ca_stream c) w = Some (s, w') \<Longrightarrow>
    stream_step u devh c (c\<lparr>ca_stream := s\<rparr>)"
| stopped: "stream_step u devh c (c\<lparr>ca_stream := (ca_stream c)\<lparr>st_running := False\<rparr>\<rparr>)"

inductive_cases stream_stepE: "stream_step u devh c c'"

section \<open>What a payload leaves alone\<close>

definition session :: "stream_handle \<Rightarrow> stream_handle" where
  "session s = s\<lparr>st_bfh_err := 0, st_hold_bfh_err := 0, st_fid := 0, st_seq := 0, st_hold_seq := 0,
     st_pts := 0, st_hold_pts := 0, st_last_scr := 0, st_hold_last_scr := 0, st_got_bytes := 0,
     st_hold_bytes := 0, st_outbuf := None, st_holdbuf := None\<rparr>"

lemma session_simps [simp]:
  "session (swap_buffers s) = session s" "session (toggle_fid info s) = session s"
  "session (stream_error s) = session s"
  "session (s\<lparr>st_pts := v\<rparr>) = session s" "session (s\<lparr>st_last_scr := v\<rparr>) = session s"
  by (simp_all add: session_def swap_buffers_def toggle_fid_def stream_error_def Let_def)

lemma session_store: "store_data d s = Some s' \<Longrightarrow> session s' = session s"
  by (auto simp: store_data_def ub_simps session_def)

lemma session_header:
  assumes "payload_header u h p s w = Some (info, s', w')"
  shows "session s' = session s"
proof -
  have p: "session t' = session t" if "payload_pts i h p t = Some (off, t')" for i t off t'
    using that by (auto simp: payload_pts_def ub_simps split: if_splits)
  have c: "session t' = session t" if "payload_scr i h off p t = Some t'" for i t off t'
    using that by (auto simp: payload_scr_def ub_simps split: if_splits)
  from assms show ?thesis
    by (auto simp: payload_header_def ub_simps dest!: p c split: if_splits)
qed

lemma session_payload:
  assumes "process_payload u devh p s w = Some (s', w')"
  shows "session s' = session s"
  using assms
  by (auto simp: process_payload_def ub_simps dest!: session_header session_store split: if_splits option.splits)

lemma session_fields:
  "session s' = session s \<Longrightarrow> st_running s' = st_running s \<and> st_transfers s' = st_transfers s
     \<and> st_frame s' = st_frame s \<and> st_cur_ctrl s' = st_cur_ctrl s \<and> st_user_cb s' = st_user_cb s
     \<and> st_stream_if s' = st_stream_if s"
  by (drule arg_cong [of _ _ "\<lambda>s. (st_running s, st_transfers s, st_frame s, st_cur_ctrl s, st_user_cb s,
      st_stream_if s)"]) (simp add: session_def)

section \<open>The altsetting\<close>

lemma pick_altsetting_Some:
  "pick_altsetting alts address config = Some (alt, n) \<Longrightarrow>
     n \<noteq> 0 \<and> n = endpoint_bytes_per_packet (as_endpoints alt) address
     \<and> (\<exists>before after. alts = before @ alt # after \<and> (config \<le> n \<or> after = [])
          \<and> (\<forall>b \<in> set before. endpoint_bytes_per_packet (as_endpoints b) address = 0
               \<or> endpoint_bytes_per_packet (as_endpoints b) address < config))"
proof (induction alts)
  case Nil
  then show ?case by simp
next
  case (Cons x alts)
  let ?n = "endpoint_bytes_per_packet (as_endpoints x) address"
  show ?case
  proof (cases "?n \<noteq> 0 \<and> (?n \<ge> config \<or> alts = [])")
    case True
    with Cons.prems show ?thesis by (intro conjI exI [of _ "[]"] exI [of _ alts]) (auto simp: Let_def)
  next
    case False
    with Cons.prems have p: "pick_altsetting alts address config = Some (alt, n)"
      by (auto simp: Let_def split: if_splits)
    from Cons.IH [OF p] obtain before after where b: "n \<noteq> 0"
      "n = endpoint_bytes_per_packet (as_endpoints alt) address"
      "alts = before @ alt # after" "config \<le> n \<or> after = []"
      "\<forall>b \<in> set before. endpoint_bytes_per_packet (as_endpoints b) address = 0
         \<or> endpoint_bytes_per_packet (as_endpoints b) address < config" by blast
    from False b(3) have "?n = 0 \<or> ?n < config" by (auto simp: not_le)
    with b show ?thesis by (intro conjI exI [of _ "x # before"] exI [of _ after]) auto
  qed
qed

lemma packet_size_bound: "packet_size m \<le> 8188"
proof -
  let ?n = "ucast m :: u32"
  have a: "unat (?n AND 0x07ff) < 2048"
    using word_and_le1 [of ?n "0x07ff"] by (simp add: word_le_nat_alt)
  have b: "unat ((drop_bit 11 ?n AND 3) + 1) \<le> 4"
  proof -
    have "unat (drop_bit 11 ?n AND 3) \<le> 3"
      using word_and_le1 [of "drop_bit 11 ?n" 3] by (simp add: word_le_nat_alt)
    then show ?thesis by (simp add: unat_word_ariths)
  qed
  have "unat (?n AND 0x07ff) * unat ((drop_bit 11 ?n AND 3) + 1) \<le> 2047 * 4"
    using a b by (intro mult_le_mono) simp_all
  then show ?thesis by (simp add: packet_size_def Let_def word_le_nat_alt unat_word_ariths)
qed

lemma endpoint_bytes_bound: "endpoint_bytes_per_packet eps address \<le> 8188"
  by (induction eps) (simp_all add: packet_size_bound)

lemma packets_bound: "packets_per_transfer sz n \<le> 32"
  by (simp add: packets_per_transfer_def Let_def not_less)

lemma transfer_size_exact:
  assumes "n \<le> 8188"
  shows "unat (packets_per_transfer sz n * n) = unat (packets_per_transfer sz n) * unat n"
proof -
  have "unat (packets_per_transfer sz n) * unat n \<le> 32 * 8188"
    using packets_bound [of sz n] assms by (intro mult_le_mono) (simp_all add: word_le_nat_alt)
  then show ?thesis by (simp add: unat_word_ariths)
qed

text \<open>Below the wrap of the rounding sum, the packets hold a whole frame or are 32.\<close>

lemma packets_hold_frame:
  assumes "n \<noteq> 0" "unat sz + unat n < 2 ^ 32"
  shows "unat sz \<le> unat (packets_per_transfer sz n) * unat n \<or> packets_per_transfer sz n = 32"
    and "packets_per_transfer sz n = 0 \<longleftrightarrow> sz = 0"
proof -
  have n: "0 < unat n" using assms(1) by (simp add: unat_gt_0)
  have s: "unat (sz + n - 1) = unat sz + unat n - 1"
  proof -
    have "unat (sz + n) = unat sz + unat n" using assms(2) by (simp add: unat_word_ariths)
    moreover have "1 \<le> sz + n" using calculation n by (simp add: word_le_nat_alt)
    ultimately show ?thesis by (simp add: unat_sub)
  qed
  define q where "q = (unat sz + unat n - 1) div unat n"
  have q: "unat ((sz + n - 1) div n) = q" by (simp add: unat_div s q_def)
  have le: "unat sz \<le> q * unat n"
  proof -
    have "unat sz + unat n - 1 < (q + 1) * unat n"
      unfolding q_def using n by (metis add.commute div_less_iff_less_mult less_add_one plus_1_eq_Suc)
    then show ?thesis using n by (simp add: algebra_simps)
  qed
  have z: "q = 0 \<longleftrightarrow> unat sz = 0" using n by (simp add: q_def div_eq_0_iff) linarith
  show "unat sz \<le> unat (packets_per_transfer sz n) * unat n \<or> packets_per_transfer sz n = 32"
    using le q by (auto simp: packets_per_transfer_def Let_def)
  have "(sz + n - 1) div n = 0 \<longleftrightarrow> sz = 0"
    using z q by (metis unat_0 unat_eq_0)
  then show "packets_per_transfer sz n = 0 \<longleftrightarrow> sz = 0"
    by (auto simp: packets_per_transfer_def Let_def)
qed

lemma session_iso_data:
  "iso_data buf off n h s = Some s' \<Longrightarrow> session s' = session s"
  by (auto simp: iso_data_def Let_def ub_simps dest!: session_store split: if_splits)

lemma session_iso_times:
  "iso_times info h buf off s = Some s' \<Longrightarrow> session s' = session s"
  by (auto simp: iso_times_def ub_simps split: if_splits)

lemma session_iso_packet:
  assumes "process_iso_packet u devh buf off pkt s w = Some (s', w')"
  shows "session s' = session s"
  using assms
  by (auto simp: process_iso_packet_def Let_def ub_simps dest!: session_iso_data session_iso_times
      split: if_splits)

lemma session_iso:
  assumes "process_payload_iso u devh buf pkts s w = Some (s', w')"
  shows "session s' = session s"
proof -
  have "session s' = session s" if "process_iso_from u devh buf l s w = Some (s', w')" for l s w
    using that by (induction l arbitrary: s w) (auto simp: ub_simps dest!: session_iso_packet)
  with assms show ?thesis by (simp add: process_payload_iso_def)
qed

section \<open>Draining the transfers\<close>

definition live_transfers :: "stream_handle \<Rightarrow> nat list" where
  "live_transfers s = List.map_filter id (st_transfers s)"

lemma live_clear_slot: "List.map_filter id (clear_slot t xs) = remove1 t (List.map_filter id xs)"
  by (induction xs) (auto simp: List.map_filter_def)

lemma set_live: "t \<in> set (live_transfers s) \<longleftrightarrow> Some t \<in> set (st_transfers s)"
  by (force simp: live_transfers_def List.map_filter_def)

lemma stop_finished_live: "stop_finished s \<longleftrightarrow> live_transfers s = []"
  by (auto simp: stop_finished_def live_transfers_def List.map_filter_def filter_empty_conv)

lemma delete_transfer_live:
  "live_transfers (fst (delete_transfer a t s w)) = remove1 t (live_transfers s)"
proof (cases "Some t \<in> set (st_transfers s)")
  case True
  then show ?thesis by (simp add: delete_transfer_def live_transfers_def live_clear_slot)
next
  case False
  then have "t \<notin> set (live_transfers s)" by (simp add: set_live)
  with False show ?thesis by (simp add: delete_transfer_def remove1_idem)
qed

text \<open>A finished transfer that is not isochronous, with its bytes in its buffer.\<close>

definition bulk_or_failed :: "finished \<Rightarrow> bool" where
  "bulk_or_failed fi \<longleftrightarrow> fi_status fi \<noteq> TRANSFER_COMPLETED
     \<or> fi_packets fi = [] \<and> fi_actual_length fi \<le> length (fi_buffer fi)"

lemma stopped_data:
  assumes "\<not> st_running s" "stream_inv s" "bulk_or_failed fi"
  shows "\<exists>s1 w1. callback_data u devh fi s w = Some (s1, w1) \<and> \<not> st_running s1 \<and> stream_inv s1
    \<and> live_transfers s1 = live_transfers s"
proof (cases "fi_status fi = TRANSFER_COMPLETED")
  case True
  obtain s1 w1 where p: "process_payload u devh (take (fi_actual_length fi) (fi_buffer fi)) s w = Some (s1, w1)"
    "stream_inv s1"
    using process_payload_runs [OF assms(2), of u devh "take (fi_actual_length fi) (fi_buffer fi)" w] by blast
  from session_fields [OF session_payload [OF p(1)]] True p assms show ?thesis
    by (simp add: callback_data_def bulk_or_failed_def live_transfers_def)
next
  case False
  then show ?thesis using assms(1,2) by (auto simp: callback_data_def stream_inv_def live_transfers_def)
qed

lemma stopped_callback:
  assumes "\<not> st_running s" "stream_inv s" "bulk_or_failed fi"
  obtains s' w' where "stream_callback u a devh t fi s w = Some (s', w')" "\<not> st_running s'"
    "stream_inv s'" "live_transfers s' = remove1 t (live_transfers s)"
proof -
  obtain s1 w1 where 1: "callback_data u devh fi s w = Some (s1, w1)" "\<not> st_running s1" "stream_inv s1"
     "live_transfers s1 = live_transfers s" using stopped_data [OF assms, of u devh w] by blast
  obtain s2 w2 where d: "delete_transfer a t s1 w1 = (s2, w2)" by (rule prod.exhaust)
  have "stream_callback u a devh t fi s w = Some (s2, w2)"
    using 1(1,2) d by (simp add: stream_callback_def)
  moreover have "\<not> st_running s2" "stream_inv s2"
    using d 1(2,3) by (auto simp: delete_transfer_def stream_inv_def split: if_splits)
  moreover have "live_transfers s2 = remove1 t (live_transfers s)"
    using delete_transfer_live [of a t s1 w1] d 1(4) by simp
  ultimately show thesis by (rule that)
qed

lemma callbacks_drain:
  assumes "\<not> st_running s" "stream_inv s" "\<forall>(t, fi) \<in> set cbs. bulk_or_failed fi"
    and "distinct (live_transfers s)" "set (live_transfers s) \<subseteq> set (map fst cbs)"
  shows "\<exists>s' w'. run_callbacks u a devh cbs s w = Some (s', w') \<and> live_transfers s' = []
    \<and> \<not> st_running s'"
  using assms
proof (induction cbs arbitrary: s w)
  case Nil
  then show ?case by simp
next
  case (Cons c cbs)
  obtain t fi where c: "c = (t, fi)" by (rule prod.exhaust)
  from Cons.prems c have b: "bulk_or_failed fi" by simp
  obtain s1 w1 where 1: "stream_callback u a devh t fi s w = Some (s1, w1)" "\<not> st_running s1"
    "stream_inv s1" "live_transfers s1 = remove1 t (live_transfers s)"
    by (rule stopped_callback [OF Cons.prems(1,2) b, of u a devh t w])
  have "distinct (live_transfers s1)" "set (live_transfers s1) \<subseteq> set (map fst cbs)"
    using 1(4) Cons.prems(4,5) c by auto
  with Cons.IH [OF 1(2,3), of w1] Cons.prems(3) 1(1) c show ?case by auto
qed

section \<open>Frames\<close>

definition frame_inv :: "stream_handle \<Rightarrow> bool" where
  "frame_inv s \<longleftrightarrow> (case uf_data (st_frame s) of None \<Rightarrow> uf_data_bytes (st_frame s) = 0
     | Some d \<Rightarrow> length d = uf_data_bytes (st_frame s))"

lemma copy_held_runs:
  assumes "stream_inv s" "case uf_data fr of None \<Rightarrow> uf_data_bytes fr = 0 | Some d \<Rightarrow> length d = uf_data_bytes fr"
  shows "\<exists>d n. copy_held True s fr = Some (fr\<lparr>uf_data := d, uf_data_bytes := n\<rparr>)
    \<and> (case d of None \<Rightarrow> n = 0 | Some d \<Rightarrow> length d = n)
    \<and> (st_hold_bytes s \<noteq> 0 \<longrightarrow> d \<noteq> None \<and> take (st_hold_bytes s) (the d) = held s)"
proof -
  define n where "n = st_hold_bytes s"
  obtain b where b: "st_holdbuf s = Some b" "n \<le> length b"
    using assms(1) by (auto simp: stream_inv_def n_def)
  consider (none) "n = 0" | (grow) "n \<noteq> 0" "uf_data_bytes fr < n" | (keep) d where "n \<noteq> 0" "\<not> uf_data_bytes fr < n"
      "uf_data fr = Some d" "length d = uf_data_bytes fr"
    using assms(2) by (cases "uf_data fr") auto
  then show ?thesis
  proof cases
    case none
    then show ?thesis using assms(2)
      by (intro exI [of _ "uf_data fr"] exI [of _ "uf_data_bytes fr"]) (simp add: copy_held_def n_def [symmetric])
  next
    case grow
    then show ?thesis using b
      by (intro exI [of _ "Some (take n b)"] exI [of _ n])
        (simp add: copy_held_def n_def [symmetric] wr_bytes_def held_def)
  next
    case keep
    then show ?thesis using b
      by (intro exI [of _ "Some (take n b @ drop n d)"] exI [of _ "uf_data_bytes fr"])
        (simp add: copy_held_def n_def [symmetric] wr_bytes_def held_def)
  qed
qed

lemma populate_copies:
  assumes "stream_inv s" "frame_inv s"
    and "uvc_find_frame_desc devh (ucast (sc_bFormatIndex (st_cur_ctrl s)))
      (ucast (sc_bFrameIndex (st_cur_ctrl s))) = Some frame_desc"
  shows "\<exists>f. populate_frame True devh s = Some (s\<lparr>st_frame := f\<rparr>) \<and> frame_inv (s\<lparr>st_frame := f\<rparr>)
    \<and> uf_width f = ucast (fr_wWidth frame_desc) \<and> uf_height f = ucast (fr_wHeight frame_desc)
    \<and> (st_hold_bytes s \<noteq> 0 \<longrightarrow> uf_data f \<noteq> None \<and> take (st_hold_bytes s) (the (uf_data f)) = held s)
    \<and> uf_actual_bytes f = (if st_hold_bfh_err s = 0 then st_hold_bytes s else 0)"
proof -
  let ?f = "frame_fields s frame_desc"
  have k: "uf_data ?f = uf_data (st_frame s)" "uf_data_bytes ?f = uf_data_bytes (st_frame s)"
    "uf_width ?f = ucast (fr_wWidth frame_desc)" "uf_height ?f = ucast (fr_wHeight frame_desc)"
    "uf_actual_bytes ?f = (if st_hold_bfh_err s = 0 then st_hold_bytes s else 0)"
    by (simp_all add: frame_fields_def Let_def)
  have "case uf_data ?f of None \<Rightarrow> uf_data_bytes ?f = 0 | Some d \<Rightarrow> length d = uf_data_bytes ?f"
    using assms(2) unfolding frame_inv_def k .
  from copy_held_runs [OF assms(1) this] obtain d n where
    "copy_held True s ?f = Some (?f\<lparr>uf_data := d, uf_data_bytes := n\<rparr>)"
    "case d of None \<Rightarrow> n = 0 | Some d \<Rightarrow> length d = n"
    "st_hold_bytes s \<noteq> 0 \<longrightarrow> d \<noteq> None \<and> take (st_hold_bytes s) (the d) = held s" by blast
  then show ?thesis using assms(3) k
    by (intro exI [of _ "?f\<lparr>uf_data := d, uf_data_bytes := n\<rparr>"]) (simp add: populate_frame_def frame_inv_def split: option.splits)
qed

section \<open>A device and an asynchronous layer for concrete runs\<close>

definition demo_async :: "echo_world async" where
  "demo_async = \<lparr>as_new_handle = \<lambda>w. (True, w), as_malloc = \<lambda>n w. (Some (replicate n 0), w),
     as_alloc_transfer = \<lambda>n w. (Some 7, w), as_submit = \<lambda>t w. (0, w), as_cancel = \<lambda>t w. (0, w)\<rparr>"

section \<open>Properties\<close>

text \<open>
  Opening a stream always returns, over a pipe that returns. On success the device has
  one more stream, stopped, on the interface of the control block and with that block, whose
  buffers are as large as it says when both could be allocated; on an error it has the
  streams it had. A second stream on an interface is refused, and so is an interface the
  device does not have, so no two streams share an interface.
\<close>
theorem stream_open_result:
  assumes "control_pipe (libusb_control_transfer u)"
    and "\<forall>n w b w'. as_malloc a n w = (Some b, w') \<longrightarrow> length b = n"
    and "distinct (map (\<lambda>s. si_bInterfaceNumber (st_stream_if s)) streams)"
  shows "\<exists>r streams' w'. uvc_stream_open_ctrl u a devh streams ctrl w = Some (r, streams', w')
    \<and> distinct (map (\<lambda>s. si_bInterfaceNumber (st_stream_if s)) streams')
    \<and> (r = UVC_SUCCESS \<longrightarrow> (\<exists>s. streams' = streams @ [s] \<and> \<not> st_running s \<and> st_cur_ctrl s = ctrl
         \<and> st_stream_if s \<in> set (stream_ifs (dh_info devh))
         \<and> si_bInterfaceNumber (st_stream_if s) = sc_bInterfaceNumber ctrl \<and> stop_finished s
         \<and> (st_outbuf s \<noteq> None \<and> st_holdbuf s \<noteq> None \<longrightarrow> stream_inv s)))
    \<and> (r \<noteq> UVC_SUCCESS \<longrightarrow> streams' = streams)
    \<and> ((\<exists>s \<in> set streams. si_bInterfaceNumber (st_stream_if s) = sc_bInterfaceNumber ctrl) \<longrightarrow> r = UVC_ERROR_BUSY)"
proof -
  let ?i = "sc_bInterfaceNumber ctrl"
  have busy: "get_stream_by_interface ss ?i \<noteq> None \<longleftrightarrow>
      (\<exists>s \<in> set ss. si_bInterfaceNumber (st_stream_if s) = ?i)" for ss
    by (induction ss) auto
  have si: "si \<in> set sis \<and> si_bInterfaceNumber si = ?i" if "get_stream_if sis ?i = Some si" for sis si
    using that by (induction sis) (auto split: if_splits)
  show ?thesis
  proof (cases "get_stream_by_interface streams ?i")
    case (Some s0)
    then show ?thesis using busy [of streams] assms(3) by (simp add: uvc_stream_open_ctrl_def)
  next
    case free: None
    with busy [of streams] have nb: "\<not> (\<exists>s \<in> set streams. si_bInterfaceNumber (st_stream_if s) = ?i)" by simp
    show ?thesis
    proof (cases "get_stream_if (stream_ifs (dh_info devh)) ?i")
      case None
      then show ?thesis using free nb assms(3) by (auto simp: uvc_stream_open_ctrl_def)
    next
      case sif: (Some sif)
      obtain ok w1 where w1: "as_new_handle a w = (ok, w1)" by (rule prod.exhaust)
      obtain r2 w2 where w2: "uvc_claim_if u (si_bInterfaceNumber sif) w1 = (r2, w2)" by (rule prod.exhaust)
      obtain r3 c3 w3 where q: "uvc_query_stream_ctrl u devh ctrl False UVC_SET_CUR w2 = Some (r3, c3, w3)"
        "c3 = ctrl" using query_returns [OF assms(1), of devh ctrl False UVC_SET_CUR w2] by blast
      obtain b1 w4 where w4: "as_malloc a LIBUVC_XFER_BUF_SIZE w3 = (b1, w4)" by (rule prod.exhaust)
      obtain b2 w5 where w5: "as_malloc a LIBUVC_XFER_BUF_SIZE w4 = (b2, w5)" by (rule prod.exhaust)
      define s where "s = (new_stream sif)\<lparr>st_cur_ctrl := ctrl, st_running := False, st_outbuf := b1,
        st_holdbuf := b2, st_size_buf := LIBUVC_XFER_BUF_SIZE\<rparr>"
      have e: "uvc_stream_open_ctrl u a devh streams ctrl w =
          (if \<not> ok then Some (UVC_ERROR_NO_MEM, streams, w1) else if r2 \<noteq> 0 then Some (r2, streams, w2)
           else if r3 \<noteq> 0 then Some (r3, streams, w3) else Some (0, streams @ [s], w5))"
        using free sif si [OF sif] w1 w2 q w4 w5
        by (simp add: uvc_stream_open_ctrl_def uvc_stream_ctrl_def new_stream_def s_def)
      have l: "b1 = Some x \<Longrightarrow> length x = LIBUVC_XFER_BUF_SIZE"
        "b2 = Some x \<Longrightarrow> length x = LIBUVC_XFER_BUF_SIZE" for x
        using assms(2) w4 w5 by blast+
      have s: "st_stream_if s = sif" "\<not> st_running s" "st_cur_ctrl s = ctrl" "stop_finished s"
        "b1 \<noteq> None \<and> b2 \<noteq> None \<longrightarrow> stream_inv s"
        using l by (auto simp: s_def new_stream_def stop_finished_def stream_inv_def)
      have o: "st_outbuf s = b1" "st_holdbuf s = b2" by (simp_all add: s_def)
      show ?thesis
        using s o si [OF sif] nb assms(3) unfolding e
        by (cases ok; cases "r2 = 0"; cases "r3 = 0") auto
    qed
  qed
qed

theorem stream_open_result_witness:
  "\<exists>r streams' w'. uvc_stream_open_ctrl echo_usb demo_async demo_devh [] (zero_stream_ctrl\<lparr>sc_bInterfaceNumber := 1\<rparr>)
     (\<lambda>_. [], False) = Some (r, streams', w') \<and> length streams' \<le> 1"
  using stream_open_result [OF echo.pipe.control_pipe_axioms, of demo_async "[]" demo_devh
      "zero_stream_ctrl\<lparr>sc_bInterfaceNumber := 1\<rparr>" "(\<lambda>_. [], False)"]
  by (fastforce simp: demo_async_def)

text \<open>
  The altsetting of an isochronous stream. The one chosen has an endpoint with the
  stream's address whose packets are not empty; they are as large as the negotiated payload
  or it is the last altsetting, and every earlier one is too small. A transfer has at most 32
  packets, its size does not wrap, and below the wrap of the rounding it holds a whole frame
  or has all 32.
\<close>
theorem altsetting_choice:
  assumes "pick_altsetting alts address config = Some (alt, n)"
  shows "(\<exists>before after. alts = before @ alt # after \<and> (config \<le> n \<or> after = [])
      \<and> (\<forall>b \<in> set before. endpoint_bytes_per_packet (as_endpoints b) address = 0
           \<or> endpoint_bytes_per_packet (as_endpoints b) address < config))
    \<and> n \<noteq> 0 \<and> n = endpoint_bytes_per_packet (as_endpoints alt) address
    \<and> packets_per_transfer sz n \<le> 32
    \<and> unat (packets_per_transfer sz n * n) = unat (packets_per_transfer sz n) * unat n
    \<and> (unat sz + unat n < 2 ^ 32 \<longrightarrow>
         sz \<le> packets_per_transfer sz n * n \<or> packets_per_transfer sz n = 32)"
proof -
  note p = pick_altsetting_Some [OF assms]
  then have b: "n \<le> 8188" using endpoint_bytes_bound by metis
  have "sz \<le> packets_per_transfer sz n * n \<or> packets_per_transfer sz n = 32" if "unat sz + unat n < 2 ^ 32"
    using packets_hold_frame(1) [of n sz] p that transfer_size_exact [OF b, of sz]
    by (auto simp: word_le_nat_alt)
  with p packets_bound [of sz n] transfer_size_exact [OF b, of sz] show ?thesis by blast
qed

definition demo_alt :: "u8 \<Rightarrow> u16 \<Rightarrow> usb_altsetting" where
  "demo_alt i packet = \<lparr>as_bInterfaceNumber = 1, as_bAlternateSetting = i, as_bInterfaceClass = 14,
     as_bInterfaceSubClass = 2, as_endpoints = [\<lparr>ep_bEndpointAddress = 0x81, ep_wMaxPacketSize = packet,
       ep_extra = []\<rparr>], as_extra = []\<rparr>"

theorem altsetting_choice_witness:
  "unat (packets_per_transfer 614400 512 * 512) = unat (packets_per_transfer 614400 512) * 512"
proof -
  have "pick_altsetting [demo_alt 0 0, demo_alt 1 128, demo_alt 2 512, demo_alt 3 1024] 0x81 300
      = Some (demo_alt 2 512, 512)"
    by (simp add: demo_alt_def packet_size_def Let_def word_le_nat_alt)
  from altsetting_choice [OF this, of 614400] show ?thesis by simp
qed

text \<open>
  A frame whose descriptor states no buffer size cannot be streamed isochronously. The
  parser leaves \<^verbatim>\<open>dwMaxVideoFrameBufferSize\<close> zero in frame-based frames, and
  starting with zero bytes per frame ends with \<open>UVC_ERROR_INVALID_MODE\<close> (an I/O error
  where no payload size was negotiated either) and leaves the device untouched.
\<close>
theorem zero_frame_size_rejected:
  "setup_iso u a alts address config 0 w =
     Some (if config = 0 then UVC_ERROR_IO else UVC_ERROR_INVALID_MODE, [], w)"
proof (cases "pick_altsetting alts address config")
  case None
  then show ?thesis by (simp add: setup_iso_def)
next
  case (Some x)
  obtain alt n where x: "x = (alt, n)" by (rule prod.exhaust)
  with Some pick_altsetting_Some have n: "n \<noteq> 0" "n \<le> 8188" using endpoint_bytes_bound by blast+
  then have "unat (0 :: u32) + unat n < 2 ^ 32" by (simp add: word_le_nat_alt)
  from packets_hold_frame(2) [OF n(1) this] have "packets_per_transfer 0 n = 0" by simp
  with Some x show ?thesis by (simp add: setup_iso_def)
qed

lemma callback_data_transfers:
  assumes "callback_data u devh fi s w = Some (s1, w1)"
  shows "st_transfers s1 = st_transfers s"
proof -
  have k: "st_transfers s1 = st_transfers s" if "session s1 = session s"
    using session_fields [OF that] by simp
  from assms show ?thesis
    by (auto simp: callback_data_def ub_simps intro: k session_payload session_iso split: if_splits)
qed

lemma callback_keeps_slot:
  assumes "stream_callback u a devh t' fi s w = Some (s', w')" "t' \<noteq> t" "Some t \<in> set (st_transfers s)"
  shows "Some t \<in> set (st_transfers s')"
proof -
  have c: "Some t \<in> set (clear_slot t' xs)" if "Some t \<in> set xs" for xs
    using that assms(2) by (induction xs) auto
  from assms(1) obtain s1 w1 where 1: "callback_data u devh fi s w = Some (s1, w1)"
    by (auto simp: stream_callback_def ub_simps)
  with assms(1,3) c callback_data_transfers [OF 1] show ?thesis
    by (auto simp: stream_callback_def delete_transfer_def Let_def split: if_splits)
qed

lemma callbacks_keep_slot:
  "run_callbacks u a devh cbs s w = Some (s', w') \<Longrightarrow> t \<notin> fst ` set cbs \<Longrightarrow>
     Some t \<in> set (st_transfers s) \<Longrightarrow> Some t \<in> set (st_transfers s')"
proof (induction cbs arbitrary: s w)
  case Nil
  then show ?case by simp
next
  case (Cons c cbs)
  obtain t' fi where c: "c = (t', fi)" by (rule prod.exhaust)
  with Cons.prems(1) obtain s1 w1 where 1: "stream_callback u a devh t' fi s w = Some (s1, w1)"
    "run_callbacks u a devh cbs s1 w1 = Some (s', w')" by (auto simp: ub_simps)
  have "Some t \<in> set (st_transfers s1)"
    using callback_keeps_slot [OF 1(1)] Cons.prems(2,3) c by simp
  with Cons.IH [OF 1(2)] Cons.prems(2) show ?case by simp
qed



text \<open>
  A failed resubmission goes unnoticed. The callback of a transfer that timed out while
  the stream runs resubmits it and ignores the result, so the transfer keeps its slot; unless
  it has a further callback all the same, no stop of the stream returns.
\<close>
theorem resubmit_failure_ignored:
  assumes "st_running s" "Some t \<in> set (st_transfers s)" "fi_status fi = TRANSFER_TIMED_OUT"
    and "as_submit a t w = (r, w')"
  shows "stream_callback u a devh t fi s w = Some (s, w')
    \<and> (\<forall>cbs. t \<notin> fst ` set cbs \<longrightarrow> uvc_stream_stop u a devh cbs s w' = None)"
proof
  show "stream_callback u a devh t fi s w = Some (s, w')"
    using assms(1,3,4) by (simp add: stream_callback_def callback_data_def)
  show "\<forall>cbs. t \<notin> fst ` set cbs \<longrightarrow> uvc_stream_stop u a devh cbs s w' = None"
  proof (intro allI impI)
    fix cbs :: "(nat \<times> finished) list" assume n: "t \<notin> fst ` set cbs"
    let ?r = "run_callbacks u a devh cbs (s\<lparr>st_running := False\<rparr>) (cancel_all a (st_transfers s) w')"
    have "\<not> stop_finished s1" if "?r = Some (s1, w1)" for s1 w1
      using callbacks_keep_slot [OF that n] assms(2) by (auto simp: stop_finished_def)
    then show "uvc_stream_stop u a devh cbs s w' = None"
      using assms(1) by (cases ?r) (auto simp: uvc_stream_stop_def)
  qed
qed

theorem resubmit_failure_ignored_witness:
  "stream_callback echo_usb (demo_async\<lparr>as_submit := \<lambda>t w. (-4, w)\<rparr>) demo_devh 4
      \<lparr>fi_status = TRANSFER_TIMED_OUT, fi_buffer = [], fi_actual_length = 0, fi_packets = []\<rparr>
      (fresh_stream 8\<lparr>st_transfers := [Some 4]\<rparr>) (\<lambda>_. [], False)
    = Some (fresh_stream 8\<lparr>st_transfers := [Some 4]\<rparr>, (\<lambda>_. [], False))"
  using resubmit_failure_ignored [of "fresh_stream 8\<lparr>st_transfers := [Some 4]\<rparr>" 4
      "\<lparr>fi_status = TRANSFER_TIMED_OUT, fi_buffer = [], fi_actual_length = 0, fi_packets = []\<rparr>"
      "demo_async\<lparr>as_submit := \<lambda>t w. (-4, w)\<rparr>" "(\<lambda>_. [], False)" "-4" "(\<lambda>_. [], False)" echo_usb demo_devh]
  by (simp add: fresh_stream_def)

section \<open>The callback thread\<close>

text \<open>A thread that has just been created for a handle.\<close>

definition new_caller :: "stream_handle \<Rightarrow> caller" where
  "new_caller s = \<lparr>ca_stream = s, ca_pc = Caller_wait, ca_last_seq = 0, ca_seen = []\<rparr>"

lemma start_transfers_fields:
  assumes "start_transfers u a devh s fr cb f w = Some (0, s', w')"
  shows "\<exists>ts. s' = s\<lparr>st_transfers := map Some ts, st_user_cb := cb\<rparr>"
proof -
  from assms obtain ts w1 where
    t: "setup_transfers u a devh (st_stream_if s) (st_cur_ctrl s) fr f w = Some (0, ts, w1)"
    by (auto simp: start_transfers_def start_failed_def ub_simps split: if_splits)
  obtain r w2 where "submit_transfers a ts w1 = (r, w2)" by (rule prod.exhaust)
  with t assms show ?thesis
    by (cases "r = 0") (auto simp: start_transfers_def start_failed_def)
qed

lemma alloc_start_fields:
  assumes "uvc_stream_start_bandwidth u a devh s cb f w = Some (0, s', w')"
  shows "\<exists>ff ts. s' = s\<lparr>st_running := True, st_seq := 0, st_fid := 0, st_pts := 0, st_last_scr := 0,
    st_bfh_err := 0, st_frame_format := ff, st_transfers := map Some ts, st_user_cb := cb\<rparr>"
proof -
  define s1 where "s1 = s\<lparr>st_running := True, st_seq := 0, st_fid := 0, st_pts := 0, st_last_scr := 0,
    st_bfh_err := 0\<rparr>"
  from assms obtain ff fr where "start_transfers u a devh (s1\<lparr>st_frame_format := ff\<rparr>) fr cb f w = Some (0, s', w')"
    by (auto simp: uvc_stream_start_bandwidth_def s1_def [symmetric] start_failed_def Let_def
      split: if_splits option.splits)
  from start_transfers_fields [OF this] show ?thesis by (auto simp: s1_def)
qed

text \<open>
  Starting a stream again hands out a frame of the previous run. A start resets the
  sequence number but neither the presented buffer nor its sequence number nor the bytes
  collected so far, so where a good frame other than the first had been presented before,
  the new callback thread takes it at once, before any transfer of the new run.
\<close>
theorem restart_delivers_old_frame:
  assumes "uvc_stream_start_bandwidth u a devh s True f w = Some (UVC_SUCCESS, s', w')"
    and "stream_inv s" "frame_inv s" "st_hold_seq s \<noteq> 0" "st_hold_bfh_err s = 0" "st_hold_bytes s \<noteq> 0"
    and "uvc_find_frame_desc devh (ucast (sc_bFormatIndex (st_cur_ctrl s)))
      (ucast (sc_bFrameIndex (st_cur_ctrl s))) = Some frame_desc"
  shows "st_got_bytes s' = st_got_bytes s \<and> (\<exists>c fr. (stream_step u devh)\<^sup>*\<^sup>* (new_caller s') c
    \<and> ca_seen c = [fr] \<and> take (st_hold_bytes s) (the (uf_data fr)) = held s)"
proof
  from alloc_start_fields [OF assms(1)] obtain ff ts where
    s': "s' = s\<lparr>st_running := True, st_seq := 0, st_fid := 0, st_pts := 0, st_last_scr := 0,
      st_bfh_err := 0, st_frame_format := ff, st_transfers := map Some ts, st_user_cb := True\<rparr>" by blast
  show "st_got_bytes s' = st_got_bytes s" by (simp add: s')
  have i: "stream_inv s'" "frame_inv s'"
    using assms(2,3) by (simp_all add: s' stream_inv_def frame_inv_def cong: option.case_cong)
  have c: "uvc_find_frame_desc devh (ucast (sc_bFormatIndex (st_cur_ctrl s')))
      (ucast (sc_bFrameIndex (st_cur_ctrl s'))) = Some frame_desc" using assms(7) by (simp add: s')
  from populate_copies [OF i c] obtain fr where
    p: "populate_frame True devh s' = Some (s'\<lparr>st_frame := fr\<rparr>)"
    and d: "take (st_hold_bytes s) (the (uf_data fr)) = held s"
    using assms(6) by (auto simp: s' held_def)
  let ?c0 = "new_caller s'"
  let ?c1 = "?c0\<lparr>ca_stream := s'\<lparr>st_frame := fr\<rparr>, ca_last_seq := st_hold_seq (s'\<lparr>st_frame := fr\<rparr>),
    ca_pc := Caller_call\<rparr>"
  let ?c2 = "?c1\<lparr>ca_seen := ca_seen ?c1 @ [st_frame (ca_stream ?c1)], ca_pc := Caller_wait\<rparr>"
  have "stream_step u devh ?c0 ?c1"
    by (rule stream_step.taken [of _ True]) (use p assms(4,5) in \<open>simp_all add: new_caller_def s'\<close>)
  moreover have "stream_step u devh ?c1 ?c2"
    by (rule stream_step.called) (use assms(5) in \<open>simp_all add: new_caller_def s'\<close>)
  ultimately have "(stream_step u devh)\<^sup>*\<^sup>* ?c0 ?c2" by (meson converse_rtranclp_into_rtranclp rtranclp.rtrancl_refl)
  then show "\<exists>c fr. (stream_step u devh)\<^sup>*\<^sup>* (new_caller s') c \<and> ca_seen c = [fr]
      \<and> take (st_hold_bytes s) (the (uf_data fr)) = held s"
    using d by (intro exI [of _ ?c2] exI [of _ fr]) (simp add: new_caller_def)
qed

text \<open>
  The first frame is never handed out. As long as only the frame with sequence number 0
  has been presented, a new callback thread hands nothing to the user, whatever payloads the
  event thread processes in between.
\<close>
theorem first_frame_lost:
  assumes "(\<lambda>c c'. stream_step u devh c c' \<and> st_hold_seq (ca_stream c') = 0)\<^sup>*\<^sup>* (new_caller s) c"
    and "st_hold_seq s = 0"
  shows "ca_seen c = []"
proof -
  have "ca_seen c = [] \<and> ca_last_seq c = 0 \<and> ca_pc c \<noteq> Caller_call \<and> st_hold_seq (ca_stream c) = 0"
    using assms
  proof (induction rule: rtranclp_induct)
    case base
    then show ?case by (simp add: new_caller_def)
  next
    case (step c c')
    then have i: "ca_seen c = []" "ca_last_seq c = 0" "ca_pc c \<noteq> Caller_call"
      "st_hold_seq (ca_stream c) = 0" and h: "st_hold_seq (ca_stream c') = 0" by simp_all
    from step.hyps(2) have "stream_step u devh c c'" by simp
    then show ?case using i h by cases simp_all
  qed
  then show ?thesis by simp
qed

text \<open>
  The callback can be given a frame that was never filled in. The thread looks at the
  error flag of the presented buffer once while it holds the lock and once after it has
  released it; when a broken frame was presented before the first look and a good one before
  the second, the callback runs on a frame without data.
\<close>
theorem unlocked_flag_race:
  assumes "stream_inv s" "st_running s" "st_got_bytes s = 0" "uf_data (st_frame s) = None"
    and "st_hold_bfh_err s \<noteq> 0" "st_hold_seq s \<noteq> 0" "st_bfh_err s = 0"
    and "\<not> dh_is_isight devh" "frame_payload fid True q" "length (image_data q) < st_size_buf s"
  shows "\<exists>c fr. (stream_step u devh)\<^sup>*\<^sup>* (new_caller s) c \<and> ca_seen c = [fr] \<and> uf_data fr = None
    \<and> held (ca_stream c) = image_data q"
proof -
  have g: "st_fid s = fid \<or> st_got_bytes s = 0"
    "st_got_bytes s + length (image_data q) < st_size_buf s" using assms(3,10) by simp_all
  obtain s1 w1 where 1: "process_payload u devh q s undefined = Some (swap_buffers s1, w1)" "stream_inv s1"
    "collected s1 = collected s @ image_data q" "same_frame s s1"
    by (rule frame_payload_step [OF assms(1,8,9) g, of u undefined]) simp
  from session_fields [OF session_payload [OF 1(1)]] have f: "st_frame (swap_buffers s1) = st_frame s" by simp
  let ?c0 = "new_caller s"
  let ?c1 = "?c0\<lparr>ca_last_seq := st_hold_seq (ca_stream ?c0), ca_pc := Caller_call\<rparr>"
  let ?c2 = "?c1\<lparr>ca_stream := swap_buffers s1\<rparr>"
  let ?c3 = "?c2\<lparr>ca_seen := ca_seen ?c2 @ [st_frame (ca_stream ?c2)], ca_pc := Caller_wait\<rparr>"
  have "stream_step u devh ?c0 ?c1"
    by (rule stream_step.skipped) (use assms(2,5,6) in \<open>simp_all add: new_caller_def\<close>)
  moreover have "stream_step u devh ?c1 ?c2"
    by (rule stream_step.payload [of _ _ q _ undefined]) (use 1(1) in \<open>simp add: new_caller_def\<close>)
  moreover have "stream_step u devh ?c2 ?c3"
    by (rule stream_step.called) (use 1(4) assms(7) swap_published [OF 1(2)] in
        \<open>simp_all add: new_caller_def same_frame_def\<close>)
  ultimately have "(stream_step u devh)\<^sup>*\<^sup>* ?c0 ?c3"
    by (meson converse_rtranclp_into_rtranclp rtranclp.rtrancl_refl)
  moreover have "collected s = []" using assms(3) by (simp add: collected_def)
  ultimately show ?thesis
    using f assms(4) 1(3) swap_published(1) [OF 1(2)]
    by (intro exI [of _ ?c3] exI [of _ "st_frame s"]) (simp add: new_caller_def)
qed

text \<open>The demonstration device with its configuration: a bulk streaming interface.\<close>

definition demo_streaming :: device_handle where
  "demo_streaming = demo_devh\<lparr>dh_info := (dh_info demo_devh)\<lparr>di_config := Some [[], [demo_alt 0 512]]\<rparr>\<rparr>"

text \<open>A stopped stream on it that presented a frame of two bytes with number 3.\<close>

definition demo_stopped :: stream_handle where
  "demo_stopped = (fresh_stream 8)\<lparr>st_running := False, st_hold_seq := 3, st_hold_bytes := 2,
     st_stream_if := zero_stream_if\<lparr>si_bInterfaceNumber := 1, si_format_descs := [demo_format]\<rparr>,
     st_cur_ctrl := zero_stream_ctrl\<lparr>sc_bFormatIndex := 2, sc_bFrameIndex := 3,
       sc_dwMaxPayloadTransferSize := 512\<rparr>\<rparr>"

lemma demo_alloc: "alloc_transfers echo_usb demo_async p b k w = Some (replicate k 7, w)"
  by (induction k arbitrary: w) (simp_all add: demo_async_def echo_simps)

lemma demo_submit: "submit_transfers demo_async ts w = (0, w)"
  by (induction ts) (simp_all add: demo_async_def)

lemma mjpeg_guid [simp]:
  "uvc_frame_format_for_guid [0x4d, 0x4a, 0x50, 0x47, 0, 0, 0, 0, 0, 0, 0, 0, 0, 0, 0, 0]
     = UVC_FRAME_FORMAT_MJPEG"
  by (simp add: uvc_frame_format_for_guid_def frame_formats_def ABS_FMT_def FMT_def zero_guid)

lemma demo_restart:
  "\<exists>s' w'. uvc_stream_start_bandwidth echo_usb demo_async demo_streaming demo_stopped True 0 (\<lambda>_. [], False)
     = Some (UVC_SUCCESS, s', w')"
  by (simp add: uvc_stream_start_bandwidth_def start_transfers_def setup_transfers_def demo_stopped_def
      fresh_stream_def demo_streaming_def demo_devh_def demo_format_def demo_frame_def Let_def
      demo_alloc demo_submit zero_stream_ctrl_def zero_stream_if_def del: One_nat_def) auto

theorem restart_delivers_old_frame_witness:
  "\<exists>s' w' c fr. uvc_stream_start_bandwidth echo_usb demo_async demo_streaming demo_stopped True 0
      (\<lambda>_. [], False) = Some (UVC_SUCCESS, s', w')
    \<and> (stream_step echo_usb demo_streaming)\<^sup>*\<^sup>* (new_caller s') c
    \<and> ca_seen c = [fr] \<and> take 2 (the (uf_data fr)) = held demo_stopped"
proof -
  obtain s' w' where s: "uvc_stream_start_bandwidth echo_usb demo_async demo_streaming demo_stopped True 0
      (\<lambda>_. [], False) = Some (UVC_SUCCESS, s', w')" using demo_restart by blast
  have "uvc_find_frame_desc demo_streaming (ucast (sc_bFormatIndex (st_cur_ctrl demo_stopped)))
      (ucast (sc_bFrameIndex (st_cur_ctrl demo_stopped))) = Some demo_frame"
    by (simp add: uvc_find_frame_desc_def demo_streaming_def demo_devh_def demo_stopped_def
      find_frame_desc_stream_if_def demo_format_def demo_frame_def)
  from restart_delivers_old_frame [OF s _ _ _ _ _ this] s show ?thesis
    by (auto simp: demo_stopped_def fresh_stream_def stream_inv_def frame_inv_def)
qed

theorem first_frame_lost_witness:
  "\<exists>c. (stream_step echo_usb demo_devh)\<^sup>*\<^sup>* (new_caller (fresh_stream 8)) c
     \<and> held (ca_stream c) = [12] \<and> ca_seen c = []"
proof -
  let ?s = "fresh_stream 8"
  have q: "frame_payload 1 True [2, 3, 12]" by (simp add: frame_payload_def)
  have g: "st_fid ?s = 1 \<or> st_got_bytes ?s = 0" "st_got_bytes ?s + length (image_data [2, 3, 12]) < st_size_buf ?s"
    by (simp_all add: fresh_stream_def image_data_def)
  have n: "\<not> dh_is_isight demo_devh" by (simp add: demo_devh_def)
  obtain s1 w1 where 1: "process_payload echo_usb demo_devh [2, 3, 12] ?s (\<lambda>_. [], False)
      = Some (swap_buffers s1, w1)" "stream_inv s1"
    "collected s1 = collected ?s @ image_data [2, 3, 12]" "same_frame ?s s1"
    by (rule frame_payload_step [OF fresh_stream_inv n q g, of echo_usb "(\<lambda>_. [], False)"]) simp
  let ?c = "(new_caller ?s)\<lparr>ca_stream := swap_buffers s1\<rparr>"
  have st: "stream_step echo_usb demo_devh (new_caller ?s) ?c"
    by (rule stream_step.payload [of _ _ "[2, 3, 12]" _ "(\<lambda>_. [], False)"]) (use 1(1) in \<open>simp add: new_caller_def\<close>)
  have z: "st_hold_seq (ca_stream ?c) = 0"
    using 1(2,4) by (simp add: swap_published same_frame_def) (simp add: fresh_stream_def)
  have "held (swap_buffers s1) = [12]"
    using 1(2,3) by (simp add: swap_published) (simp add: collected_def fresh_stream_def image_data_def)
  moreover have "ca_seen ?c = []"
    by (rule first_frame_lost [of echo_usb demo_devh "?s"])
      (use st z in \<open>auto simp: fresh_stream_def intro!: r_into_rtranclp\<close>)
  ultimately show ?thesis using st by (intro exI [of _ ?c]) auto
qed

theorem unlocked_flag_race_witness:
  "\<exists>c fr. (stream_step echo_usb demo_devh)\<^sup>*\<^sup>*
      (new_caller (fresh_stream 8\<lparr>st_hold_bfh_err := 0x40, st_hold_seq := 1\<rparr>)) c
    \<and> ca_seen c = [fr] \<and> uf_data fr = None \<and> held (ca_stream c) = image_data [2, 3, 12]"
  by (rule unlocked_flag_race [where fid = 1])
    (auto simp: fresh_stream_def stream_inv_def demo_devh_def frame_payload_def image_data_def)

end
