(* ===== verification/Libusb_Core.thy ===== *)
theory Libusb_Core
  imports Libusb_Sync "HOL-Library.Multiset"
begin

text \<open>
  Devices, lists of devices and handles of libusb (\<^verbatim>\<open>libusb/core.c\<close>, the enumeration of
  \<^verbatim>\<open>os/android_usbfs.c\<close>, the hotplug message of \<^verbatim>\<open>io.c\<close>) with their reference counts. Structs
  have names that are never reused; using one that was freed is \<open>None\<close>.

  The Android backend has no \<^verbatim>\<open>get_device_list\<close>, so \<^verbatim>\<open>LIBUSB_CAP_HAS_HOTPLUG\<close> holds, and its
  \<^verbatim>\<open>hotplug_poll\<close> does nothing; only these branches are modelled.
\<close>

section \<open>The context\<close>

record device_descriptor =
  dd_idVendor :: u16
  dd_idProduct :: u16
  dd_iManufacturer :: u8
  dd_iProduct :: u8
  dd_iSerialNumber :: u8
  dd_bNumConfigurations :: u8

record libusb_device =
  ld_refcnt :: int
  ld_parent_dev :: "nat option"
  ld_attached :: bool
  ld_session_data :: nat
  ld_bus_number :: u8
  ld_device_address :: u8
  ld_descriptor :: device_descriptor

datatype hotplug_event = DEVICE_ARRIVED | DEVICE_LEFT

text \<open>
  \<open>lu_mem\<close> holds the device structs that are allocated; \<open>lu_open_devs\<close> the open handles, each
  with its device; \<open>lu_messages\<close> the messages in the hotplug pipe, the next one first.
\<close>

record 'w libusb =
  lu_mem :: "nat \<Rightarrow> libusb_device option"
  lu_usb_devs :: "nat list"
  lu_open_devs :: "(nat \<times> nat) list"
  lu_messages :: "(hotplug_event \<times> nat) list"
  lu_next :: nat
  lu_world :: 'w

text \<open>
  What lies below: allocation and mutexes, which may fail; reading the descriptors of a new
  device; the place in the list of its parent; the backend's \<^verbatim>\<open>open\<close>, \<^verbatim>\<open>close\<close> and
  \<^verbatim>\<open>destroy_device\<close>; the transfers in flight of a handle; and whether the hotplug pipe takes
  a message.
\<close>

record 'w backend =
  bk_malloc :: "'w \<Rightarrow> bool \<times> 'w"
  bk_mutex_init :: "'w \<Rightarrow> int \<times> 'w"
  bk_initialize :: "nat \<Rightarrow> u8 \<Rightarrow> u8 \<Rightarrow> 'w \<Rightarrow> int \<times> 'w"
  bk_cache_descriptor :: "nat \<Rightarrow> 'w \<Rightarrow> int \<times> device_descriptor \<times> 'w"
  bk_parent :: "nat \<Rightarrow> nat list \<Rightarrow> 'w \<Rightarrow> int \<times> nat option \<times> 'w"
  bk_open :: "nat \<Rightarrow> nat \<Rightarrow> 'w \<Rightarrow> int \<times> 'w"
  bk_close :: "nat \<Rightarrow> nat \<Rightarrow> 'w \<Rightarrow> 'w"
  bk_drop_transfers :: "nat \<Rightarrow> 'w \<Rightarrow> 'w"
  bk_destroy_device :: "nat \<Rightarrow> 'w \<Rightarrow> 'w"
  bk_write :: "'w \<Rightarrow> bool \<times> 'w"

definition set_dev :: "nat \<Rightarrow> libusb_device \<Rightarrow> 'w libusb \<Rightarrow> 'w libusb" where
  "set_dev d x s = s\<lparr>lu_mem := (lu_mem s)(d \<mapsto> x)\<rparr>"

text \<open>A call below, on the world of the context.\<close>

definition malloc :: "'w backend \<Rightarrow> 'w libusb \<Rightarrow> bool \<times> 'w libusb" where
  "malloc b s = (let (ok, w) = bk_malloc b (lu_world s) in (ok, s\<lparr>lu_world := w\<rparr>))"

definition mutex_init :: "'w backend \<Rightarrow> 'w libusb \<Rightarrow> int \<times> 'w libusb" where
  "mutex_init b s = (let (r, w) = bk_mutex_init b (lu_world s) in (r, s\<lparr>lu_world := w\<rparr>))"

section \<open>Reference counts\<close>

definition libusb_ref_device :: "nat \<Rightarrow> 'w libusb \<Rightarrow> 'w libusb option" where
  "libusb_ref_device d s =
     do { dev \<leftarrow> lu_mem s d; Some (set_dev d (dev\<lparr>ld_refcnt := ld_refcnt dev + 1\<rparr>) s) }"

definition free_dev :: "nat \<Rightarrow> 'w libusb \<Rightarrow> 'w libusb option" where
  "free_dev d s = do { _ \<leftarrow> lu_mem s d; Some (s\<lparr>lu_mem := (lu_mem s)(d := None)\<rparr>) }"

text \<open>The device whose count falls to 0 gives up its parent and is destroyed.\<close>

partial_function (option) libusb_unref_device :: "'w backend \<Rightarrow> nat option \<Rightarrow> 'w libusb \<Rightarrow> 'w libusb option" where
  "libusb_unref_device b dev s =
     (case dev of
        None \<Rightarrow> Some s
      | Some d \<Rightarrow> do {
          x \<leftarrow> lu_mem s d;
          let refcnt = ld_refcnt x - 1;
          let s = set_dev d (x\<lparr>ld_refcnt := refcnt\<rparr>) s;
          if refcnt = 0
          then do {
            s \<leftarrow> libusb_unref_device b (ld_parent_dev x) s;
            free_dev d (s\<lparr>lu_world := bk_destroy_device b d (lu_world s)\<rparr>) }
          else Some s })"

declare libusb_unref_device.simps [code]

text \<open>A loop over an array of pointers.\<close>

primrec each :: "('a \<Rightarrow> 's \<Rightarrow> 's option) \<Rightarrow> 'a list \<Rightarrow> 's \<Rightarrow> 's option" where
  "each f [] s = Some s"
| "each f (x # xs) s = do { s \<leftarrow> f x s; each f xs s }"

section \<open>Devices come and go\<close>

definition zero_device :: libusb_device where
  "zero_device = \<lparr>ld_refcnt = 0, ld_parent_dev = None, ld_attached = False, ld_session_data = 0,
     ld_bus_number = 0, ld_device_address = 0,
     ld_descriptor = \<lparr>dd_idVendor = 0, dd_idProduct = 0, dd_iManufacturer = 0, dd_iProduct = 0,
       dd_iSerialNumber = 0, dd_bNumConfigurations = 0\<rparr>\<rparr>"

definition usbi_alloc_device :: "'w backend \<Rightarrow> nat \<Rightarrow> 'w libusb \<Rightarrow> nat option \<times> 'w libusb" where
  "usbi_alloc_device b session_id s =
     (let (ok, s) = malloc b s
      in if \<not> ok then (None, s)
      else let (r, s) = mutex_init b s
      in if r \<noteq> 0 then (None, s)
      else (Some (lu_next s),
        set_dev (lu_next s) (zero_device\<lparr>ld_refcnt := 1, ld_session_data := session_id\<rparr>)
          (s\<lparr>lu_next := lu_next s + 1\<rparr>)))"

definition hotplug_message :: "'w backend \<Rightarrow> hotplug_event \<Rightarrow> nat \<Rightarrow> 'w libusb \<Rightarrow> 'w libusb" where
  "hotplug_message b event d s =
     (let (ok, w) = bk_write b (lu_world s)
      in s\<lparr>lu_world := w, lu_messages := (if ok then lu_messages s @ [(event, d)] else lu_messages s)\<rparr>)"

definition usbi_connect_device :: "'w backend \<Rightarrow> nat \<Rightarrow> 'w libusb \<Rightarrow> 'w libusb option" where
  "usbi_connect_device b d s =
     do { dev \<leftarrow> lu_mem s d;
          let s = set_dev d (dev\<lparr>ld_attached := True\<rparr>) s;
          let s = s\<lparr>lu_usb_devs := d # lu_usb_devs s\<rparr>;
          Some (hotplug_message b DEVICE_ARRIVED d s) }"

text \<open>Taking an entry out of a list that it is not in follows null pointers.\<close>

definition usbi_disconnect_device :: "'w backend \<Rightarrow> nat \<Rightarrow> 'w libusb \<Rightarrow> 'w libusb option" where
  "usbi_disconnect_device b d s =
     do { dev \<leftarrow> lu_mem s d;
          let s = set_dev d (dev\<lparr>ld_attached := False\<rparr>) s;
          s \<leftarrow> (if d \<in> set (lu_usb_devs s) then Some (s\<lparr>lu_usb_devs := remove1 d (lu_usb_devs s)\<rparr>) else None);
          Some (hotplug_message b DEVICE_LEFT d s) }"

abbreviation (input) "USB_MAXCONFIG \<equiv> 8 :: nat"

definition usbi_sanitize_device :: "'w backend \<Rightarrow> nat \<Rightarrow> 'w libusb \<Rightarrow> (int \<times> 'w libusb) option" where
  "usbi_sanitize_device b d s =
     (let (r, desc, w) = bk_cache_descriptor b d (lu_world s);
          s = s\<lparr>lu_world := w\<rparr>
      in if r < 0 then Some (r, s)
      else do {
        dev \<leftarrow> lu_mem s d;
        let s = set_dev d (dev\<lparr>ld_descriptor := desc\<rparr>) s;
        if unat (dd_bNumConfigurations desc) > USB_MAXCONFIG then Some (LIBUSB_ERROR_IO, s)
        else Some (0, s) })"

primrec find_session :: "nat list \<Rightarrow> nat \<Rightarrow> 'w libusb \<Rightarrow> nat option option" where
  "find_session [] session_id s = Some None"
| "find_session (d # ds) session_id s =
     do { dev \<leftarrow> lu_mem s d;
          if ld_session_data dev = session_id then Some (Some d) else find_session ds session_id s }"

definition usbi_get_device_by_session_id :: "nat \<Rightarrow> 'w libusb \<Rightarrow> (nat option \<times> 'w libusb) option" where
  "usbi_get_device_by_session_id session_id s =
     do { ret \<leftarrow> find_session (lu_usb_devs s) session_id s;
          case ret of
            None \<Rightarrow> Some (None, s)
          | Some d \<Rightarrow> do { s \<leftarrow> libusb_ref_device d s; Some (Some d, s) } }"

definition session_of :: "u8 \<Rightarrow> u8 \<Rightarrow> nat" where
  "session_of busnum devaddr = unat busnum * 256 + unat devaddr"

text \<open>The bus number and address of a new device, and what reading its descriptors says.\<close>

definition initialize_device :: "'w backend \<Rightarrow> nat \<Rightarrow> u8 \<Rightarrow> u8 \<Rightarrow> 'w libusb \<Rightarrow> (int \<times> 'w libusb) option" where
  "initialize_device b d busnum devaddr s =
     do { dev \<leftarrow> lu_mem s d;
          let s = set_dev d (dev\<lparr>ld_bus_number := busnum, ld_device_address := devaddr\<rparr>) s;
          let (r, w) = bk_initialize b d busnum devaddr (lu_world s);
          Some (r, s\<lparr>lu_world := w\<rparr>) }"

text \<open>The end of both ways to make a device: it is given up after an error, else connected.\<close>

definition device_done :: "'w backend \<Rightarrow> int \<Rightarrow> nat \<Rightarrow> 'w libusb \<Rightarrow> (int \<times> nat option \<times> 'w libusb) option" where
  "device_done b r d s =
     (if r < 0 then do { s \<leftarrow> libusb_unref_device b (Some d) s; Some (r, None, s) }
      else do { s \<leftarrow> usbi_connect_device b d s; Some (r, Some d, s) })"

text \<open>A failed allocation is not noticed here: the test looks at the wrong pointer.\<close>

definition android_generate_device :: "'w backend \<Rightarrow> u8 \<Rightarrow> u8 \<Rightarrow> 'w libusb \<Rightarrow> (int \<times> nat option \<times> 'w libusb) option" where
  "android_generate_device b busnum devaddr s =
     (case usbi_alloc_device b (session_of busnum devaddr) s of
        (None, s) \<Rightarrow> None
      | (Some d, s) \<Rightarrow> do {
          (r, s) \<leftarrow> initialize_device b d busnum devaddr s;
          (r, s) \<leftarrow> (if r < 0 then Some (r, s) else usbi_sanitize_device b d s);
          device_done b r d s })"

text \<open>
  The parent is found in the list by its directory, which lies below the model: the backend
  gives its place. (A parent that is not yet known is enumerated first; that is left out.)
\<close>

definition android_get_parent_info :: "'w backend \<Rightarrow> nat \<Rightarrow> 'w libusb \<Rightarrow> (int \<times> 'w libusb) option" where
  "android_get_parent_info b d s =
     (let (r, place, w) = bk_parent b d (lu_usb_devs s) (lu_world s);
          s = s\<lparr>lu_world := w\<rparr>
      in case place of
           None \<Rightarrow> Some (r, s)
         | Some i \<Rightarrow>
             if i < length (lu_usb_devs s)
             then do { s \<leftarrow> libusb_ref_device (lu_usb_devs s ! i) s;
                       dev \<leftarrow> lu_mem s d;
                       Some (r, set_dev d (dev\<lparr>ld_parent_dev := Some (lu_usb_devs s ! i)\<rparr>) s) }
             else Some (r, s))"

definition android_enumerate_device :: "'w backend \<Rightarrow> u8 \<Rightarrow> u8 \<Rightarrow> 'w libusb \<Rightarrow> (int \<times> 'w libusb) option" where
  "android_enumerate_device b busnum devaddr s =
     do { (dev, s) \<leftarrow> usbi_get_device_by_session_id (session_of busnum devaddr) s;
          (case dev of
             Some d \<Rightarrow> do { s \<leftarrow> libusb_unref_device b (Some d) s; Some (0, s) }
           | None \<Rightarrow>
             (case usbi_alloc_device b (session_of busnum devaddr) s of
                (None, s) \<Rightarrow> Some (LIBUSB_ERROR_NO_MEM, s)
              | (Some d, s) \<Rightarrow> do {
                  (r, s) \<leftarrow> initialize_device b d busnum devaddr s;
                  (r, s) \<leftarrow> (if r < 0 then Some (r, s) else usbi_sanitize_device b d s);
                  (r, s) \<leftarrow> (if r < 0 then Some (r, s) else android_get_parent_info b d s);
                  (r, _, s) \<leftarrow> device_done b r d s;
                  Some (r, s) })) }"

definition android_device_disconnected :: "'w backend \<Rightarrow> u8 \<Rightarrow> u8 \<Rightarrow> 'w libusb \<Rightarrow> 'w libusb option" where
  "android_device_disconnected b busnum devaddr s =
     do { (dev, s) \<leftarrow> usbi_get_device_by_session_id (session_of busnum devaddr) s;
          (case dev of
             None \<Rightarrow> Some s
           | Some d \<Rightarrow> do { s \<leftarrow> usbi_disconnect_device b d s; libusb_unref_device b (Some d) s }) }"

text \<open>The event thread takes a message from the pipe.\<close>

definition hotplug_read :: "'w backend \<Rightarrow> 'w libusb \<Rightarrow> 'w libusb option" where
  "hotplug_read b s =
     (case lu_messages s of
        [] \<Rightarrow> Some s
      | (event, d) # rest \<Rightarrow>
          let s = s\<lparr>lu_messages := rest\<rparr>
          in if event = DEVICE_LEFT then libusb_unref_device b (Some d) s else Some s)"

section \<open>Lists of devices\<close>

text \<open>The array that grows: its entries and its capacity.\<close>

type_synonym discovered_devs = "nat list \<times> nat"

abbreviation (input) "DISCOVERED_DEVICES_SIZE_STEP \<equiv> 8 :: nat"

definition discovered_devs_alloc :: "'w backend \<Rightarrow> 'w libusb \<Rightarrow> discovered_devs option \<times> 'w libusb" where
  "discovered_devs_alloc b s =
     (let (ok, s) = malloc b s in (if ok then Some ([], DISCOVERED_DEVICES_SIZE_STEP) else None, s))"

definition discovered_devs_append ::
  "'w backend \<Rightarrow> discovered_devs \<Rightarrow> nat \<Rightarrow> 'w libusb \<Rightarrow> (discovered_devs option \<times> 'w libusb) option" where
  "discovered_devs_append b discdevs d s =
     (case discdevs of (devices, capacity) \<Rightarrow>
        if length devices < capacity
        then do { s \<leftarrow> libusb_ref_device d s; Some (Some (devices @ [d], capacity), s) }
        else let (ok, s) = malloc b s
        in if ok
           then do { s \<leftarrow> libusb_ref_device d s;
                     Some (Some (devices @ [d], capacity + DISCOVERED_DEVICES_SIZE_STEP), s) }
           else Some (None, s))"

definition discovered_devs_free :: "'w backend \<Rightarrow> discovered_devs option \<Rightarrow> 'w libusb \<Rightarrow> 'w libusb option" where
  "discovered_devs_free b discdevs s =
     do { (devices, _) \<leftarrow> discdevs; each (\<lambda>d. libusb_unref_device b (Some d)) devices s }"

primrec append_all ::
  "'w backend \<Rightarrow> nat list \<Rightarrow> discovered_devs \<Rightarrow> 'w libusb \<Rightarrow> (discovered_devs option \<times> 'w libusb) option" where
  "append_all b [] discdevs s = Some (Some discdevs, s)"
| "append_all b (d # ds) discdevs s =
     do { (r, s) \<leftarrow> discovered_devs_append b discdevs d s;
          case r of None \<Rightarrow> Some (None, s) | Some discdevs \<Rightarrow> append_all b ds discdevs s }"

text \<open>
  The result: the length and the array, when it is made. When the list cannot grow, the code
  goes on to free the null pointer it then has.
\<close>

definition libusb_get_device_list :: "'w backend \<Rightarrow> 'w libusb \<Rightarrow> (int \<times> nat list option \<times> 'w libusb) option" where
  "libusb_get_device_list b s =
     (case discovered_devs_alloc b s of
        (None, s) \<Rightarrow> Some (LIBUSB_ERROR_NO_MEM, None, s)
      | (Some discdevs, s) \<Rightarrow> do {
          (discdevs, s) \<leftarrow> append_all b (lu_usb_devs s) discdevs s;
          (len, ret, s) \<leftarrow> (case discdevs of
               None \<Rightarrow> Some (LIBUSB_ERROR_NO_MEM, None, s)
             | Some (devices, _) \<Rightarrow>
                 let (ok, s) = malloc b s
                 in if \<not> ok then Some (LIBUSB_ERROR_NO_MEM, None, s)
                 else do { s \<leftarrow> each libusb_ref_device devices s; Some (int (length devices), Some devices, s) });
          s \<leftarrow> discovered_devs_free b discdevs s;
          Some (len, ret, s) })"

definition libusb_free_device_list :: "'w backend \<Rightarrow> nat list \<Rightarrow> bool \<Rightarrow> 'w libusb \<Rightarrow> 'w libusb option" where
  "libusb_free_device_list b list unref_devices s =
     (if unref_devices then each (\<lambda>d. libusb_unref_device b (Some d)) list s else Some s)"

definition libusb_get_device_descriptor :: "nat \<Rightarrow> 'w libusb \<Rightarrow> device_descriptor option" where
  "libusb_get_device_descriptor d s = map_option ld_descriptor (lu_mem s d)"

definition ids_match :: "int \<Rightarrow> int \<Rightarrow> device_descriptor \<Rightarrow> bool" where
  "ids_match vid pid desc \<longleftrightarrow>
     (vid = 0 \<or> uint (dd_idVendor desc) = vid) \<and> (pid = 0 \<or> uint (dd_idProduct desc) = pid)"

primrec find_ids :: "(device_descriptor \<Rightarrow> bool) \<Rightarrow> nat list \<Rightarrow> 'w libusb \<Rightarrow> nat option option" where
  "find_ids P [] s = Some None"
| "find_ids P (d # ds) s =
     do { desc \<leftarrow> libusb_get_device_descriptor d s;
          if P desc then Some (Some d) else find_ids P ds s }"

definition libusb_find_device :: "'w backend \<Rightarrow> int \<Rightarrow> int \<Rightarrow> 'w libusb \<Rightarrow> (nat option \<times> 'w libusb) option" where
  "libusb_find_device b vid pid s =
     do { (cnt, devs, s) \<leftarrow> libusb_get_device_list b s;
          if cnt < 0 then Some (None, s)
          else do {
            devs \<leftarrow> devs;
            device \<leftarrow> find_ids (ids_match vid pid) devs s;
            s \<leftarrow> (case device of None \<Rightarrow> Some s | Some d \<Rightarrow> libusb_ref_device d s);
            s \<leftarrow> libusb_free_device_list b devs True s;
            Some (device, s) } }"

definition libusb_get_device_with_fd :: "'w backend \<Rightarrow> u8 \<Rightarrow> u8 \<Rightarrow> 'w libusb \<Rightarrow> (nat option \<times> 'w libusb) option" where
  "libusb_get_device_with_fd b busnum devaddr s =
     do { (ret, device, s) \<leftarrow> android_generate_device b busnum devaddr s;
          Some (if ret \<noteq> 0 then None else device, s) }"

section \<open>Handles\<close>

definition libusb_open :: "'w backend \<Rightarrow> nat \<Rightarrow> 'w libusb \<Rightarrow> (int \<times> nat option \<times> 'w libusb) option" where
  "libusb_open b d s =
     do { dev \<leftarrow> lu_mem s d;
          if \<not> ld_attached dev then Some (LIBUSB_ERROR_NO_DEVICE, None, s)
          else let (ok, s) = malloc b s
          in if \<not> ok then Some (LIBUSB_ERROR_NO_MEM, None, s)
          else let (r, s) = mutex_init b s
          in if r \<noteq> 0 then Some (LIBUSB_ERROR_OTHER, None, s)
          else do {
            s \<leftarrow> libusb_ref_device d s;
            let h = lu_next s;
            let (r, w) = bk_open b h d (lu_world s);
            let s = s\<lparr>lu_world := w, lu_next := h + 1\<rparr>;
            if r < 0
            then do { s \<leftarrow> libusb_unref_device b (Some d) s; Some (r, None, s) }
            else Some (0, Some h, s\<lparr>lu_open_devs := (h, d) # lu_open_devs s\<rparr>) } }"

definition libusb_get_device :: "nat \<Rightarrow> 'w libusb \<Rightarrow> nat option" where
  "libusb_get_device h s = map_of (lu_open_devs s) h"

definition do_close :: "'w backend \<Rightarrow> nat \<Rightarrow> 'w libusb \<Rightarrow> 'w libusb option" where
  "do_close b h s =
     do { d \<leftarrow> libusb_get_device h s;
          let s = s\<lparr>lu_world := bk_drop_transfers b h (lu_world s)\<rparr>;
          let s = s\<lparr>lu_open_devs := filter (\<lambda>x. fst x \<noteq> h) (lu_open_devs s)\<rparr>;
          libusb_unref_device b (Some d) (s\<lparr>lu_world := bk_close b h d (lu_world s)\<rparr>) }"

text \<open>The control pipe, which wakes the event thread, may fail: the handle is closed all the same.\<close>

definition libusb_close :: "'w backend \<Rightarrow> nat option \<Rightarrow> 'w libusb \<Rightarrow> 'w libusb option" where
  "libusb_close b dev_handle s = (case dev_handle of None \<Rightarrow> Some s | Some h \<Rightarrow> do_close b h s)"

definition libusb_open_device_with_vid_pid ::
  "'w backend \<Rightarrow> u16 \<Rightarrow> u16 \<Rightarrow> 'w libusb \<Rightarrow> (nat option \<times> 'w libusb) option" where
  "libusb_open_device_with_vid_pid b vendor_id product_id s =
     do { (cnt, devs, s) \<leftarrow> libusb_get_device_list b s;
          if cnt < 0 then Some (None, s)
          else do {
            devs \<leftarrow> devs;
            found \<leftarrow> find_ids (\<lambda>desc. dd_idVendor desc = vendor_id \<and> dd_idProduct desc = product_id) devs s;
            (handle, s) \<leftarrow> (case found of
                 None \<Rightarrow> Some (None, s)
               | Some d \<Rightarrow> do { (r, handle, s) \<leftarrow> libusb_open b d s; Some (if r < 0 then None else handle, s) });
            s \<leftarrow> libusb_free_device_list b devs True s;
            Some (handle, s) } }"

section \<open>What the counts count\<close>

text \<open>
  The references to a device that do not lie in other devices: those the users of the library
  hold (\<open>R\<close>), its place in the list, a message that it left, its open handles. Devices in \<open>Z\<close> are
  being destroyed.
\<close>

definition parent_of :: "(nat \<Rightarrow> libusb_device option) \<Rightarrow> nat \<Rightarrow> nat option" where
  "parent_of m c = Option.bind (m c) ld_parent_dev"

definition left_messages :: "(hotplug_event \<times> nat) list \<Rightarrow> nat list" where
  "left_messages ms = map snd (filter (\<lambda>m. fst m = DEVICE_LEFT) ms)"

definition holders :: "'w libusb \<Rightarrow> nat multiset" where
  "holders s = mset (lu_usb_devs s) + mset (left_messages (lu_messages s)) + mset (map snd (lu_open_devs s))"

definition children :: "nat set \<Rightarrow> (nat \<Rightarrow> libusb_device option) \<Rightarrow> nat \<Rightarrow> nat" where
  "children Z m d = card {c. c \<notin> Z \<and> parent_of m c = Some d}"

definition owners :: "nat set \<Rightarrow> nat multiset \<Rightarrow> 'w libusb \<Rightarrow> nat \<Rightarrow> nat" where
  "owners Z R s d = count (R + holders s) d + children Z (lu_mem s) d"

definition counted :: "(nat \<Rightarrow> nat) \<Rightarrow> nat set \<Rightarrow> nat multiset \<Rightarrow> 'w libusb \<Rightarrow> bool" where
  "counted rank Z R s \<longleftrightarrow>
     finite (dom (lu_mem s))
     \<and> (\<forall>c p. parent_of (lu_mem s) c = Some p \<longrightarrow> rank p < rank c)
     \<and> (\<forall>d \<in> Z. \<exists>x. lu_mem s d = Some x \<and> ld_refcnt x = 0)
     \<and> (\<forall>d. d \<in> Z \<or> lu_mem s d = None \<longrightarrow> owners Z R s d = 0)
     \<and> (\<forall>d x. lu_mem s d = Some x \<and> d \<notin> Z \<longrightarrow> ld_refcnt x = int (owners Z R s d) \<and> 0 < owners Z R s d)
     \<and> (\<forall>d. lu_mem s d \<noteq> None \<longrightarrow> d < lu_next s)
     \<and> distinct (map fst (lu_open_devs s)) \<and> (\<forall>h \<in> fst ` set (lu_open_devs s). h < lu_next s)"

text \<open>Reference counts are right when no device is being destroyed.\<close>

definition refs_ok :: "nat multiset \<Rightarrow> 'w libusb \<Rightarrow> bool" where
  "refs_ok R s \<longleftrightarrow> (\<exists>rank. counted rank {} R s)"

lemma parent_of_refcnt [simp]:
  "m d = Some x \<Longrightarrow> parent_of (m(d \<mapsto> x\<lparr>ld_refcnt := r\<rparr>)) = parent_of m"
  "m d = Some x \<Longrightarrow> parent_of (m(d \<mapsto> x\<lparr>ld_attached := a\<rparr>)) = parent_of m"
  "m d = Some x \<Longrightarrow> parent_of (m(d \<mapsto> x\<lparr>ld_descriptor := e\<rparr>)) = parent_of m"
  "m d = Some x \<Longrightarrow> parent_of (m(d \<mapsto> x\<lparr>ld_bus_number := bn, ld_device_address := da\<rparr>)) = parent_of m"
  by (auto simp: parent_of_def)

lemma children_cong: "parent_of m' = parent_of m \<Longrightarrow> children Z m' = children Z m"
  by (simp add: children_def fun_eq_iff)

lemma finite_children: "finite (dom m) \<Longrightarrow> finite {c. P c \<and> parent_of m c = Some d}"
  by (rule finite_subset [of _ "dom m"]) (auto simp: parent_of_def split: Option.bind_splits)

lemma children_insert:
  assumes "finite (dom m)" "d \<notin> Z"
  shows "children Z m p = children (insert d Z) m p + (if parent_of m d = Some p then 1 else 0)"
proof -
  let ?A = "{c. c \<notin> insert d Z \<and> parent_of m c = Some p}"
  have "{c. c \<notin> Z \<and> parent_of m c = Some p} = (if parent_of m d = Some p then insert d ?A else ?A)"
    using assms(2) by auto
  moreover have "finite ?A" using finite_children [OF assms(1), of "\<lambda>c. c \<notin> insert d Z" p] .
  ultimately show ?thesis by (simp add: children_def)
qed

lemma children_removed:
  "children Z (m(d := None)) p = children (insert d Z) m p"
  unfolding children_def by (rule arg_cong [of _ _ card]) (auto simp: parent_of_def)

lemma countedD:
  assumes "counted rank Z R s"
  shows "finite (dom (lu_mem s))" "parent_of (lu_mem s) c = Some p \<Longrightarrow> rank p < rank c"
    "d \<in> Z \<Longrightarrow> \<exists>x. lu_mem s d = Some x \<and> ld_refcnt x = 0"
    "d \<in> Z \<Longrightarrow> owners Z R s d = 0" "lu_mem s d = None \<Longrightarrow> owners Z R s d = 0"
    "lu_mem s d = Some x \<Longrightarrow> d \<notin> Z \<Longrightarrow> ld_refcnt x = int (owners Z R s d)"
    "lu_mem s d = Some x \<Longrightarrow> d \<notin> Z \<Longrightarrow> 0 < owners Z R s d"
    "lu_mem s d = Some x \<Longrightarrow> d < lu_next s"
    "distinct (map fst (lu_open_devs s))" "h \<in> fst ` set (lu_open_devs s) \<Longrightarrow> h < lu_next s"
  by (use assms in \<open>auto simp: counted_def\<close>)

lemma countedI:
  assumes "finite (dom (lu_mem s))" "\<And>c p. parent_of (lu_mem s) c = Some p \<Longrightarrow> rank p < rank c"
    "\<And>d. d \<in> Z \<Longrightarrow> \<exists>x. lu_mem s d = Some x \<and> ld_refcnt x = 0"
    "\<And>d. d \<in> Z \<or> lu_mem s d = None \<Longrightarrow> owners Z R s d = 0"
    "\<And>d x. lu_mem s d = Some x \<Longrightarrow> d \<notin> Z \<Longrightarrow> ld_refcnt x = int (owners Z R s d) \<and> 0 < owners Z R s d"
    "\<And>d x. lu_mem s d = Some x \<Longrightarrow> d < lu_next s"
    "distinct (map fst (lu_open_devs s))" "\<And>h. h \<in> fst ` set (lu_open_devs s) \<Longrightarrow> h < lu_next s"
  shows "counted rank Z R s"
  using assms unfolding counted_def by auto

text \<open>A device with an owner is there, and not being destroyed.\<close>

lemma counted_live:
  assumes "counted rank Z R s" "0 < owners Z R s d"
  obtains x where "lu_mem s d = Some x" "d \<notin> Z" "ld_refcnt x = int (owners Z R s d)"
proof (cases "lu_mem s d")
  case None
  with assms countedD(5) [OF assms(1)] show thesis by fastforce
next
  case (Some x)
  moreover have "d \<notin> Z" using assms countedD(4) [OF assms(1), of d] by auto
  ultimately show thesis using that countedD(6) [OF assms(1)] by blast
qed

lemma owners_add [simp]:
  "owners Z (add_mset e R) s d = owners Z R s d + (if d = e then 1 else 0)"
  by (simp add: owners_def)

lemma set_dev_simps [simp]:
  "lu_mem (set_dev d x s) = (lu_mem s)(d \<mapsto> x)" "lu_usb_devs (set_dev d x s) = lu_usb_devs s"
  "lu_open_devs (set_dev d x s) = lu_open_devs s" "lu_messages (set_dev d x s) = lu_messages s"
  "lu_next (set_dev d x s) = lu_next s" "lu_world (set_dev d x s) = lu_world s"
  "holders (set_dev d x s) = holders s"
  by (simp_all add: set_dev_def holders_def)

lemma holders_simps [simp]:
  "holders (s\<lparr>lu_mem := m\<rparr>) = holders s" "holders (s\<lparr>lu_world := w\<rparr>) = holders s"
  "holders (s\<lparr>lu_next := n\<rparr>) = holders s"
  by (simp_all add: holders_def)

lemma owners_world [simp]: "owners Z R (s\<lparr>lu_world := w\<rparr>) = owners Z R s"
  by (simp add: owners_def fun_eq_iff)

lemma counted_world [simp]: "counted rank Z R (s\<lparr>lu_world := w\<rparr>) = counted rank Z R s"
  by (simp add: counted_def)

lemma owners_set_dev:
  assumes "parent_of ((lu_mem s)(d \<mapsto> x)) = parent_of (lu_mem s)"
  shows "owners Z R (set_dev d x s) = owners Z R s"
  by (rule ext) (simp add: owners_def children_cong [OF assms])

text \<open>A change that touches neither counts nor parents.\<close>

lemma counted_set_dev:
  assumes "counted rank Z R s" "lu_mem s d = Some x" "d \<notin> Z"
    and p: "parent_of ((lu_mem s)(d \<mapsto> y)) = parent_of (lu_mem s)"
    and "ld_refcnt y = int (owners Z R' s d)" "0 < owners Z R' s d"
    and "\<And>e. e \<noteq> d \<Longrightarrow> owners Z R' s e = owners Z R s e"
  shows "counted rank Z R' (set_dev d y s)"
proof -
  have "finite (dom (lu_mem (set_dev d y s)))" using countedD(1) [OF assms(1)] by simp
  then show ?thesis
    unfolding counted_def owners_set_dev [OF p]
    using assms countedD [OF assms(1)] by (auto simp: p)
qed

section \<open>Taking and dropping a reference\<close>

lemma ref_counted:
  assumes "counted rank Z R s" "lu_mem s d = Some x" "d \<notin> Z"
  shows "counted rank Z (add_mset d R) (set_dev d (x\<lparr>ld_refcnt := ld_refcnt x + 1\<rparr>) s)"
  by (rule counted_set_dev [OF assms]) (use assms countedD(6,7) [OF assms(1)] in auto)

definition view :: "'w libusb \<Rightarrow> nat list \<times> (nat \<times> nat) list \<times> (hotplug_event \<times> nat) list \<times> nat" where
  "view s = (lu_usb_devs s, lu_open_devs s, lu_messages s, lu_next s)"

lemma view_simps [simp]:
  "view (set_dev d x s) = view s" "view (s\<lparr>lu_world := w\<rparr>) = view s" "view (s\<lparr>lu_mem := m\<rparr>) = view s"
  by (simp_all add: view_def)

lemma unref_counted:
  assumes "counted rank Z (add_mset d R) s"
  shows "\<exists>s'. libusb_unref_device b (Some d) s = Some s' \<and> counted rank Z R s' \<and> view s' = view s
    \<and> (\<forall>e x. lu_mem s' e = Some x \<longrightarrow> (\<exists>r. lu_mem s e = Some (x\<lparr>ld_refcnt := r\<rparr>)))
    \<and> (\<forall>e \<in> Z. lu_mem s' e = lu_mem s e)"
  using assms
proof (induction "rank d" arbitrary: d Z R s rule: less_induct)
  case less
  note I = countedD [OF less.prems]
  have "0 < owners Z (add_mset d R) s d" by simp
  from counted_live [OF less.prems this] obtain x where
    x0: "lu_mem s d = Some x" "d \<notin> Z" "ld_refcnt x = int (owners Z (add_mset d R) s d)" .
  have x: "lu_mem s d = Some x" "d \<notin> Z" "ld_refcnt x = int (owners Z R s d) + 1"
    using x0 by simp_all
  define s1 where "s1 = set_dev d (x\<lparr>ld_refcnt := ld_refcnt x - 1\<rparr>) s"
  have p1: "parent_of (lu_mem s1) = parent_of (lu_mem s)" using x(1) by (simp add: s1_def)
  have older: "\<exists>r. lu_mem s e = Some (y\<lparr>ld_refcnt := r\<rparr>)" if "lu_mem s1 e = Some y" for e y
  proof (cases "e = d")
    case True
    with that x(1) have "lu_mem s e = Some (y\<lparr>ld_refcnt := ld_refcnt x\<rparr>)" by (auto simp: s1_def)
    then show ?thesis by blast
  next
    case False
    with that have "lu_mem s e = Some (y\<lparr>ld_refcnt := ld_refcnt y\<rparr>)" by (simp add: s1_def)
    then show ?thesis by blast
  qed
  have z1: "lu_mem s1 e = lu_mem s e" if "e \<in> Z" for e using that x(2) by (auto simp: s1_def)
  show ?case
  proof (cases "owners Z R s d = 0")
    case False
    have "counted rank Z R s1"
      unfolding s1_def by (rule counted_set_dev [OF less.prems x(1,2)]) (use x False in auto)
    moreover have "libusb_unref_device b (Some d) s = Some s1"
      using x False by (subst libusb_unref_device.simps) (simp add: s1_def)
    ultimately show ?thesis using older z1 by (auto simp: s1_def)
  next
    case True
    have ow1: "owners (insert d Z) R' s1 e + (if parent_of (lu_mem s) d = Some e then 1 else 0) = owners Z R' s e"
      for R' e
      using children_insert [OF I(1) x(2), of e] by (simp add: owners_def children_cong [OF p1]) (simp add: s1_def)
    have fin1: "finite (dom (lu_mem s1))" using I(1) by (simp add: s1_def)
    have dying: "\<exists>y. lu_mem s1 e = Some y \<and> ld_refcnt y = 0" if "e \<in> insert d Z" for e
      using that x True I(3) [of e] by (auto simp: s1_def)
    have cnt: "ld_refcnt y = int (owners Z R s e) \<and> 0 < owners Z R s e"
      if "lu_mem s1 e = Some y" "e \<notin> insert d Z" for e y
      using I(6,7) [of e y] that by (simp add: s1_def)
    have none: "owners Z R s e = 0" if "e \<in> insert d Z \<or> lu_mem s1 e = None" for e
      using I(4,5) [of e] that True x(1) by (auto simp: s1_def split: if_splits)
    have old: "e < lu_next s1" if "lu_mem s1 e = Some y" for e y
      using I(8) that x(1) by (auto simp: s1_def split: if_splits)
    have rest: "counted rank (insert d Z) R' s1"
      if R': "\<And>e. owners (insert d Z) R' s1 e = owners Z R s e" for R'
    proof (rule countedI)
      show "finite (dom (lu_mem s1))" by (fact fin1)
      show "rank p < rank c" if "parent_of (lu_mem s1) c = Some p" for c p
        using I(2) that unfolding p1 .
      show "distinct (map fst (lu_open_devs s1))" using I(9) by (simp add: s1_def)
      show "h < lu_next s1" if "h \<in> fst ` set (lu_open_devs s1)" for h
        using I(10) that by (simp add: s1_def)
    qed (unfold R', fact dying, fact none, fact cnt, fact old)
    have "\<exists>s2. libusb_unref_device b (ld_parent_dev x) s1 = Some s2 \<and> counted rank (insert d Z) R s2
        \<and> view s2 = view s1
        \<and> (\<forall>e x. lu_mem s2 e = Some x \<longrightarrow> (\<exists>r. lu_mem s1 e = Some (x\<lparr>ld_refcnt := r\<rparr>)))
        \<and> (\<forall>e \<in> insert d Z. lu_mem s2 e = lu_mem s1 e)"
    proof (cases "ld_parent_dev x")
      case None
      then have "parent_of (lu_mem s) d = None" using x(1) by (simp add: parent_of_def)
      then have "counted rank (insert d Z) R s1" using ow1 [of R] by (intro rest) simp
      moreover have "\<exists>r. y = y\<lparr>ld_refcnt := r\<rparr>" for y :: libusb_device
        by (rule exI [of _ "ld_refcnt y"]) simp
      ultimately show ?thesis using None by (subst libusb_unref_device.simps) auto
    next
      case (Some p)
      then have p: "parent_of (lu_mem s) d = Some p" using x(1) by (simp add: parent_of_def)
      have "counted rank (insert d Z) (add_mset p R) s1"
      proof (rule rest)
        show "owners (insert d Z) (add_mset p R) s1 e = owners Z R s e" for e
          using ow1 [of R e] p by (cases "e = p") simp_all
      qed
      from less.hyps [OF I(2) [OF p] this] Some show ?thesis by simp
    qed
    then obtain s2 where s2: "libusb_unref_device b (ld_parent_dev x) s1 = Some s2"
      "counted rank (insert d Z) R s2" "view s2 = view s1"
      "\<And>e x. lu_mem s2 e = Some x \<Longrightarrow> \<exists>r. lu_mem s1 e = Some (x\<lparr>ld_refcnt := r\<rparr>)"
      "\<And>e. e \<in> insert d Z \<Longrightarrow> lu_mem s2 e = lu_mem s1 e"
      by blast
    note J = countedD [OF s2(2)]
    define s3 where "s3 = s2\<lparr>lu_world := bk_destroy_device b d (lu_world s2), lu_mem := (lu_mem s2)(d := None)\<rparr>"
    have "libusb_unref_device b (Some d) s = Some s3"
      using x True s2(1) s2(5) [of d]
      by (subst libusb_unref_device.simps) (simp add: s1_def [symmetric] free_dev_def s3_def, simp add: s1_def)
    moreover have "counted rank Z R s3"
    proof -
      have o3: "owners Z R s3 = owners (insert d Z) R s2"
        by (simp add: owners_def fun_eq_iff s3_def children_removed holders_def)
      have p3: "parent_of (lu_mem s3) c = Some p \<Longrightarrow> parent_of (lu_mem s2) c = Some p" for c p
        by (simp add: s3_def parent_of_def split: if_splits)
      have n3: "lu_next s3 = lu_next s2" "lu_open_devs s3 = lu_open_devs s2" "lu_mem s3 = (lu_mem s2)(d := None)"
        by (simp_all add: s3_def)
      show ?thesis
      proof (rule countedI)
        show "\<exists>x. lu_mem s3 e = Some x \<and> ld_refcnt x = 0" if "e \<in> Z" for e
          using J(3) [of e] that x(2) by (auto simp: n3)
        show "owners Z R s3 e = 0" if "e \<in> Z \<or> lu_mem s3 e = None" for e
          using J(4,5) [of e] that by (auto simp: o3 n3 split: if_splits)
        show "ld_refcnt y = int (owners Z R s3 e) \<and> 0 < owners Z R s3 e" if "lu_mem s3 e = Some y" "e \<notin> Z" for e y
          using J(6,7) [of e y] that by (auto simp: o3 n3 split: if_splits)
        show "e < lu_next s3" if "lu_mem s3 e = Some y" for e y
          using J(8) [of e y] that by (auto simp: n3 split: if_splits)
        show "h < lu_next s3" if "h \<in> fst ` set (lu_open_devs s3)" for h
          using J(10) that by (simp add: n3)
      qed (use J(1,2,9) p3 in \<open>auto simp: n3\<close>)
    qed
    moreover have "view s3 = view s" using s2(3) by (simp add: s3_def s1_def)
    moreover have "\<exists>r. lu_mem s e = Some (y\<lparr>ld_refcnt := r\<rparr>)" if "lu_mem s3 e = Some y" for e y
    proof -
      have "lu_mem s2 e = Some y" using that by (simp add: s3_def split: if_splits)
      from s2(4) [OF this] obtain r where "lu_mem s1 e = Some (y\<lparr>ld_refcnt := r\<rparr>)" by blast
      from older [OF this] show ?thesis by simp
    qed
    moreover have "lu_mem s3 e = lu_mem s e" if "e \<in> Z" for e
      using that x(2) s2(5) z1 by (auto simp: s3_def)
    ultimately show ?thesis by blast
  qed
qed

lemma newer_refl [simp]: "\<exists>r. x = x\<lparr>ld_refcnt := r\<rparr>" for x :: libusb_device
  by (rule exI [of _ "ld_refcnt x"]) simp

section \<open>The operations keep the counts\<close>

lemma refs_okD:
  assumes "refs_ok R s" "0 < count (R + holders s) d"
  shows "\<exists>x. lu_mem s d = Some x \<and> ld_refcnt x = int (owners {} R s d)"
proof -
  obtain rank where c: "counted rank {} R s" using assms(1) by (auto simp: refs_ok_def)
  have "0 < owners {} R s d" using assms(2) by (simp add: owners_def)
  from counted_live [OF c this] show ?thesis by blast
qed

lemma ref_ok:
  assumes "refs_ok R s" "lu_mem s d \<noteq> None"
  shows "\<exists>s'. libusb_ref_device d s = Some s' \<and> refs_ok (add_mset d R) s' \<and> view s' = view s
    \<and> (\<forall>e. lu_mem s' e = None \<longleftrightarrow> lu_mem s e = None)"
proof -
  obtain rank where c: "counted rank {} R s" using assms(1) by (auto simp: refs_ok_def)
  obtain x where x: "lu_mem s d = Some x" using assms(2) by blast
  from ref_counted [OF c x] show ?thesis
    by (auto simp: libusb_ref_device_def x refs_ok_def)
qed

lemma unref_ok:
  assumes "refs_ok (add_mset d R) s"
  shows "\<exists>s'. libusb_unref_device b (Some d) s = Some s' \<and> refs_ok R s' \<and> view s' = view s
    \<and> (\<forall>e x. lu_mem s' e = Some x \<longrightarrow> (\<exists>r. lu_mem s e = Some (x\<lparr>ld_refcnt := r\<rparr>)))"
proof -
  obtain rank where "counted rank {} (add_mset d R) s" using assms by (auto simp: refs_ok_def)
  from unref_counted [OF this] show ?thesis unfolding refs_ok_def by blast
qed

text \<open>A device that nobody knew of: a new struct with one reference.\<close>

lemma alloc_counted:
  assumes "counted rank {} R s" "usbi_alloc_device b sid s = (Some d, s')"
  shows "counted rank {} (add_mset d R) s' \<and> d = lu_next s \<and> lu_mem s d = None
    \<and> lu_mem s' = (lu_mem s)(d \<mapsto> zero_device\<lparr>ld_refcnt := 1, ld_session_data := sid\<rparr>)
    \<and> lu_usb_devs s' = lu_usb_devs s \<and> lu_open_devs s' = lu_open_devs s \<and> lu_messages s' = lu_messages s
    \<and> children {} (lu_mem s') d = 0"
proof -
  note I = countedD [OF assms(1)]
  have e: "lu_mem s' = (lu_mem s)(d \<mapsto> zero_device\<lparr>ld_refcnt := 1, ld_session_data := sid\<rparr>)" "d = lu_next s"
    "lu_usb_devs s' = lu_usb_devs s" "lu_open_devs s' = lu_open_devs s" "lu_messages s' = lu_messages s"
    "lu_next s' = lu_next s + 1"
    using assms(2) by (auto simp: usbi_alloc_device_def malloc_def mutex_init_def Let_def split: prod.splits if_splits)
  have new: "lu_mem s d = None" using I(8) [of d] e(2) by (cases "lu_mem s d") auto
  then have p: "parent_of (lu_mem s') = parent_of (lu_mem s)"
    by (auto simp: e parent_of_def zero_device_def fun_eq_iff)
  have h: "holders s' = holders s" by (simp add: holders_def e)
  have ow: "owners {} Q s' f = owners {} Q s f" for Q f
    by (simp add: owners_def h children_cong [OF p])
  have z: "owners {} R s d = 0" using I(5) [OF new] .
  have "counted rank {} (add_mset d R) s'"
  proof (rule countedI)
    show "finite (dom (lu_mem s'))" using I(1) by (simp add: e)
    show "rank p < rank c" if "parent_of (lu_mem s') c = Some p" for c p
      using I(2) that by (simp add: p)
    show "owners {} (add_mset d R) s' f = 0" if "f \<in> {} \<or> lu_mem s' f = None" for f
      using that I(5) [of f] by (simp add: ow e split: if_splits)
    show "ld_refcnt x = int (owners {} (add_mset d R) s' f) \<and> 0 < owners {} (add_mset d R) s' f"
      if "lu_mem s' f = Some x" "f \<notin> {}" for f x
      using that I(6,7) [of f x] z by (auto simp: ow e split: if_splits)
    show "f < lu_next s'" if "lu_mem s' f = Some x" for f x
      using that I(8) [of f] by (auto simp: e split: if_splits intro: less_SucI)
    show "distinct (map fst (lu_open_devs s'))" using I(9) by (simp add: e)
    show "k < lu_next s'" if "k \<in> fst ` set (lu_open_devs s')" for k
      using I(10) [of k] that by (simp add: e)
  qed simp
  moreover have "children {} (lu_mem s') d = 0" using z by (simp add: owners_def children_cong [OF p])
  ultimately show ?thesis using e new by blast
qed


section \<open>Reference counters\<close>

text \<open>
  What both layers promise of \<open>take\<close> and \<open>give\<close>: a reference can be taken to what is alive,
  and one that is held can be given back, which keeps everything else that is held alive.
  \<open>look\<close> is what neither touches.
\<close>

locale ref_counter =
  fixes take_ref :: "'d \<Rightarrow> 's \<Rightarrow> 's option"
    and give_ref :: "'d \<Rightarrow> 's \<Rightarrow> 's option"
    and inv :: "'d multiset \<Rightarrow> 's \<Rightarrow> bool"
    and alive :: "'d \<Rightarrow> 's \<Rightarrow> bool"
    and look :: "'s \<Rightarrow> 'v"
  assumes take_ok: "inv R s \<Longrightarrow> alive d s \<Longrightarrow> \<exists>s'. take_ref d s = Some s' \<and> inv (add_mset d R) s'
      \<and> look s' = look s \<and> (\<forall>e. alive e s' \<longleftrightarrow> alive e s)"
    and give_ok: "inv (add_mset d R) s \<Longrightarrow> \<exists>s'. give_ref d s = Some s' \<and> inv R s' \<and> look s' = look s"
    and held: "inv (add_mset d R) s \<Longrightarrow> alive d s"
begin

lemma take_each:
  assumes "inv R s" "\<forall>d \<in> set ds. alive d s"
  shows "\<exists>s'. each take_ref ds s = Some s' \<and> inv (R + mset ds) s' \<and> look s' = look s
    \<and> (\<forall>e. alive e s' \<longleftrightarrow> alive e s)"
  using assms
proof (induction ds arbitrary: R s)
  case (Cons d ds)
  from take_ok [OF Cons.prems(1), of d] Cons.prems(2) obtain s1 where
    1: "take_ref d s = Some s1" "inv (add_mset d R) s1" "look s1 = look s" "\<forall>e. alive e s1 \<longleftrightarrow> alive e s" by auto
  from Cons.IH [OF 1(2)] Cons.prems(2) 1(4) obtain s2 where
    "each take_ref ds s1 = Some s2" "inv (add_mset d R + mset ds) s2" "look s2 = look s1"
    "\<forall>e. alive e s2 \<longleftrightarrow> alive e s1" by auto
  with 1 show ?case by simp
qed simp

lemma give_each:
  assumes "inv (R + mset ds) s"
  shows "\<exists>s'. each give_ref ds s = Some s' \<and> inv R s' \<and> look s' = look s"
  using assms
proof (induction ds arbitrary: s)
  case (Cons d ds)
  then have "inv (add_mset d (R + mset ds)) s" by simp
  from give_ok [OF this] obtain s1 where
    1: "give_ref d s = Some s1" "inv (R + mset ds) s1" "look s1 = look s" by blast
  from Cons.IH [OF 1(2)] 1 show ?case by auto
qed simp

lemma held_each: "inv (R + mset ds) s \<Longrightarrow> d \<in> set ds \<Longrightarrow> alive d s"
proof -
  assume a: "inv (R + mset ds) s" "d \<in> set ds"
  then have "R + mset ds = add_mset d (R + mset ds - {#d#})" by simp
  with a(1) show ?thesis using held by metis
qed

text \<open>One of a list is kept: take a reference to it, give back the list's.\<close>

lemma keep_one:
  assumes "inv (R + mset ds) s" "d \<in> set ds"
  shows "\<exists>s1 s2. take_ref d s = Some s1 \<and> each give_ref ds s1 = Some s2 \<and> inv (add_mset d R) s2 \<and> look s2 = look s"
proof -
  from take_ok [OF assms(1) held_each [OF assms]] obtain s1 where
    1: "take_ref d s = Some s1" "inv (add_mset d R + mset ds) s1" "look s1 = look s" by auto
  from give_each [OF 1(2)] 1 show ?thesis by auto
qed

end

text \<open>Nor do they touch what is known of the listed and the opened devices.\<close>

definition static :: "libusb_device \<Rightarrow> nat option \<times> bool \<times> nat \<times> u8 \<times> u8 \<times> device_descriptor" where
  "static x = (ld_parent_dev x, ld_attached x, ld_session_data x, ld_bus_number x, ld_device_address x, ld_descriptor x)"

definition known :: "'w libusb \<Rightarrow> nat list" where
  "known s = lu_usb_devs s @ map snd (lu_open_devs s)"

definition usb_look where
  "usb_look s = (view s, map (\<lambda>d. map_option static (lu_mem s d)) (known s))"

lemma usb_look_world [simp]: "usb_look (s\<lparr>lu_world := w\<rparr>) = usb_look s"
  by (simp add: usb_look_def known_def)

lemma usb_lookD:
  assumes "usb_look s' = usb_look s"
  shows "view s' = view s" "lu_usb_devs s' = lu_usb_devs s" "lu_open_devs s' = lu_open_devs s"
    "lu_next s' = lu_next s" "d \<in> set (known s) \<Longrightarrow> map_option static (lu_mem s' d) = map_option static (lu_mem s d)"
proof -
  show v: "view s' = view s" using assms by (simp add: usb_look_def)
  then have "known s' = known s" by (simp add: view_def known_def)
  with assms show "d \<in> set (known s) \<Longrightarrow> map_option static (lu_mem s' d) = map_option static (lu_mem s d)"
    by (simp add: usb_look_def)
  show "lu_usb_devs s' = lu_usb_devs s" "lu_open_devs s' = lu_open_devs s" "lu_next s' = lu_next s"
    using v by (simp_all add: view_def)
qed

lemma known_alive: "refs_ok R s \<Longrightarrow> d \<in> set (known s) \<Longrightarrow> lu_mem s d \<noteq> None"
  using refs_okD [of R s d] by (auto simp: holders_def known_def)

lemma usb_lookI:
  assumes "view s' = view s"
    and "\<And>d. d \<in> set (known s) \<Longrightarrow> \<exists>x r. lu_mem s' d = Some x \<and> lu_mem s d = Some (x\<lparr>ld_refcnt := r\<rparr>)"
  shows "usb_look s' = usb_look s"
proof -
  have k: "known s' = known s" using assms(1) by (simp add: view_def known_def)
  have "map_option static (lu_mem s' d) = map_option static (lu_mem s d)" if "d \<in> set (known s)" for d
    using assms(2) [OF that] by (auto simp: static_def)
  then show ?thesis by (simp add: usb_look_def k assms(1))
qed

lemma ref_look:
  assumes "libusb_ref_device d s = Some s'" "refs_ok R s"
  shows "usb_look s' = usb_look s"
proof (rule usb_lookI)
  show "view s' = view s" using assms(1) by (auto simp: libusb_ref_device_def split: Option.bind_splits)
  fix e assume "e \<in> set (known s)"
  then obtain x where x: "lu_mem s e = Some x" using known_alive [OF assms(2)] by blast
  show "\<exists>x r. lu_mem s' e = Some x \<and> lu_mem s e = Some (x\<lparr>ld_refcnt := r\<rparr>)"
  proof (cases "e = d")
    case True
    then have "lu_mem s' e = Some (x\<lparr>ld_refcnt := ld_refcnt x + 1\<rparr>)" "lu_mem s e = Some (x\<lparr>ld_refcnt := ld_refcnt x\<rparr>)"
      using assms(1) x by (auto simp: libusb_ref_device_def)
    then show ?thesis by auto
  next
    case False
    then have "lu_mem s' e = Some x" using assms(1) x
      by (auto simp: libusb_ref_device_def split: Option.bind_splits)
    then show ?thesis using x by simp
  qed
qed

lemma unref_look:
  assumes "refs_ok R s'" "view s' = view s"
    "\<forall>e x. lu_mem s' e = Some x \<longrightarrow> (\<exists>r. lu_mem s e = Some (x\<lparr>ld_refcnt := r\<rparr>))"
  shows "usb_look s' = usb_look s"
proof (rule usb_lookI [OF assms(2)])
  fix e assume "e \<in> set (known s)"
  then have "e \<in> set (known s')" using assms(2) by (simp add: known_def view_def)
  then obtain x where "lu_mem s' e = Some x" using known_alive [OF assms(1)] by blast
  then show "\<exists>x r. lu_mem s' e = Some x \<and> lu_mem s e = Some (x\<lparr>ld_refcnt := r\<rparr>)"
    using assms(3) by blast
qed

interpretation usb_refs: ref_counter libusb_ref_device "\<lambda>d. libusb_unref_device b (Some d)" refs_ok
  "\<lambda>d s. lu_mem s d \<noteq> None" usb_look for b
proof
  fix R :: "nat multiset" and s :: "'a libusb" and d
  show "refs_ok R s \<Longrightarrow> lu_mem s d \<noteq> None \<Longrightarrow> \<exists>s'. libusb_ref_device d s = Some s' \<and> refs_ok (add_mset d R) s'
      \<and> usb_look s' = usb_look s \<and> (\<forall>e. (lu_mem s' e \<noteq> None) = (lu_mem s e \<noteq> None))"
    using ref_ok [of R s d] ref_look [of d s _ R] by metis
  show "refs_ok (add_mset d R) s \<Longrightarrow> \<exists>s'. libusb_unref_device b (Some d) s = Some s' \<and> refs_ok R s' \<and> usb_look s' = usb_look s"
    using unref_ok [of d R s b] unref_look [of R _ s] by metis
  show "refs_ok (add_mset d R) s \<Longrightarrow> lu_mem s d \<noteq> None"
    using refs_okD [of "add_mset d R" s d] by auto
qed

section \<open>Moving references\<close>

definition tally :: "libusb_device option \<Rightarrow> (int \<times> nat option) option" where
  "tally x = map_option (\<lambda>x. (ld_refcnt x, ld_parent_dev x)) x"

lemma counted_transfer:
  assumes "counted rank Z R s" "\<And>d. tally (lu_mem s' d) = tally (lu_mem s d)"
    "R' + holders s' = R + holders s" "lu_next s \<le> lu_next s'"
    "distinct (map fst (lu_open_devs s'))" "\<forall>h \<in> fst ` set (lu_open_devs s'). h < lu_next s'"
  shows "counted rank Z R' s'"
proof -
  note I = countedD [OF assms(1)]
  have n: "lu_mem s' d = None \<longleftrightarrow> lu_mem s d = None" for d
    using assms(2) [of d] by (auto simp: tally_def)
  have x: "\<exists>y. lu_mem s d = Some y \<and> ld_refcnt y = ld_refcnt x" if "lu_mem s' d = Some x" for d x
    using assms(2) [of d] that by (cases "lu_mem s d") (auto simp: tally_def)
  have p: "parent_of (lu_mem s') = parent_of (lu_mem s)"
  proof
    fix c show "parent_of (lu_mem s') c = parent_of (lu_mem s) c"
      using assms(2) [of c]
      by (cases "lu_mem s' c"; cases "lu_mem s c") (auto simp: parent_of_def tally_def)
  qed
  have ow: "owners Z R' s' d = owners Z R s d" for d
    by (simp add: owners_def assms(3) children_cong [OF p])
  show ?thesis
  proof (rule countedI)
    have "dom (lu_mem s') = dom (lu_mem s)" using n by (auto simp: dom_def)
    then show "finite (dom (lu_mem s'))" using I(1) by simp
    show "rank q < rank c" if "parent_of (lu_mem s') c = Some q" for c q using I(2) that by (simp add: p)
    show "\<exists>x. lu_mem s' d = Some x \<and> ld_refcnt x = 0" if "d \<in> Z" for d
      using I(3) [OF that] assms(2) [of d] by (auto simp: tally_def)
    show "owners Z R' s' d = 0" if "d \<in> Z \<or> lu_mem s' d = None" for d
      using I(4,5) [of d] that by (auto simp: ow n)
    show "ld_refcnt y = int (owners Z R' s' d) \<and> 0 < owners Z R' s' d" if "lu_mem s' d = Some y" "d \<notin> Z" for d y
      using I(6,7) [of d] x [OF that(1)] that(2) by (auto simp: ow)
    show "d < lu_next s'" if "lu_mem s' d = Some y" for d y
      using I(8) [of d] x [OF that] assms(4) by auto
  qed (use assms in auto)
qed

lemma refs_ok_transfer:
  assumes "refs_ok R s" "\<And>d. tally (lu_mem s' d) = tally (lu_mem s d)"
    "R' + holders s' = R + holders s" "lu_next s' = lu_next s" "lu_open_devs s' = lu_open_devs s"
  shows "refs_ok R' s'"
proof -
  obtain rank where c: "counted rank {} R s" using assms(1) by (auto simp: refs_ok_def)
  have "counted rank {} R' s'"
    by (rule counted_transfer [OF c assms(2,3)]) (use assms(4,5) countedD(9,10) [OF c] in auto)
  then show ?thesis unfolding refs_ok_def by blast
qed

lemma refs_ok_world [simp]: "refs_ok R (s\<lparr>lu_world := w\<rparr>) = refs_ok R s"
  by (simp add: refs_ok_def)

lemma refs_ok_set_dev:
  assumes "refs_ok R s" "lu_mem s d = Some x" "ld_refcnt y = ld_refcnt x" "ld_parent_dev y = ld_parent_dev x"
  shows "refs_ok R (set_dev d y s)"
  by (rule refs_ok_transfer [OF assms(1)]) (use assms in \<open>auto simp: tally_def\<close>)

lemma hotplug_message_simps [simp]:
  "lu_mem (hotplug_message b ev d s) = lu_mem s" "lu_usb_devs (hotplug_message b ev d s) = lu_usb_devs s"
  "lu_open_devs (hotplug_message b ev d s) = lu_open_devs s" "lu_next (hotplug_message b ev d s) = lu_next s"
  "lu_messages (hotplug_message b ev d s)
     = (if fst (bk_write b (lu_world s)) then lu_messages s @ [(ev, d)] else lu_messages s)"
  by (simp_all add: hotplug_message_def Let_def split: prod.splits)

lemma left_messages_simps [simp]:
  "left_messages (ms @ [(ev, d)]) = (if ev = DEVICE_LEFT then left_messages ms @ [d] else left_messages ms)"
  "left_messages ((ev, d) # ms) = (if ev = DEVICE_LEFT then d # left_messages ms else left_messages ms)"
  by (simp_all add: left_messages_def)

lemma connect_ok:
  assumes "refs_ok (add_mset d R) s"
  shows "\<exists>s'. usbi_connect_device b d s = Some s' \<and> refs_ok R s' \<and> lu_usb_devs s' = d # lu_usb_devs s
    \<and> lu_open_devs s' = lu_open_devs s"
proof -
  have "lu_mem s d \<noteq> None" by (rule usb_refs.held [OF assms])
  then obtain x where x: "lu_mem s d = Some x" by blast
  let ?s = "hotplug_message b DEVICE_ARRIVED d
    (set_dev d (x\<lparr>ld_attached := True\<rparr>) s\<lparr>lu_usb_devs := d # lu_usb_devs s\<rparr>)"
  have "refs_ok R ?s"
    by (rule refs_ok_transfer [OF assms]) (auto simp: x tally_def holders_def)
  then show ?thesis by (simp add: usbi_connect_device_def x)
qed

text \<open>The list's reference goes to the message; when the pipe does not take it, nobody drops it.\<close>

lemma disconnect_ok:
  assumes "refs_ok R s" "d \<in> set (lu_usb_devs s)"
  shows "\<exists>s'. usbi_disconnect_device b d s = Some s'
    \<and> refs_ok (if fst (bk_write b (lu_world s)) then R else add_mset d R) s'
    \<and> lu_usb_devs s' = remove1 d (lu_usb_devs s) \<and> lu_open_devs s' = lu_open_devs s"
proof -
  have "d \<in># holders s" using assms(2) by (simp add: holders_def)
  then have "0 < count (R + holders s) d" by simp
  from refs_okD [OF assms(1) this] obtain x where x: "lu_mem s d = Some x" by blast
  let ?s = "hotplug_message b DEVICE_LEFT d
    (set_dev d (x\<lparr>ld_attached := False\<rparr>) s\<lparr>lu_usb_devs := remove1 d (lu_usb_devs s)\<rparr>)"
  have "mset (lu_usb_devs s) = add_mset d (mset (lu_usb_devs s) - {#d#})" using assms(2) by simp
  then have "refs_ok (if fst (bk_write b (lu_world s)) then R else add_mset d R) ?s"
    by (intro refs_ok_transfer [OF assms(1)]) (auto simp: x tally_def holders_def)
  then show ?thesis using assms(2) by (simp add: usbi_disconnect_device_def x)
qed


lemma hotplug_read_ok:
  assumes "refs_ok R s"
  shows "\<exists>s'. hotplug_read b s = Some s' \<and> refs_ok R s' \<and> lu_usb_devs s' = lu_usb_devs s
    \<and> lu_open_devs s' = lu_open_devs s"
proof (cases "lu_messages s")
  case Nil
  then show ?thesis using assms by (simp add: hotplug_read_def)
next
  case (Cons m rest)
  obtain ev d where m: "m = (ev, d)" by (cases m)
  show ?thesis
  proof (cases "ev = DEVICE_LEFT")
    case True
    have "refs_ok (add_mset d R) (s\<lparr>lu_messages := rest\<rparr>)"
      by (rule refs_ok_transfer [OF assms]) (simp_all add: holders_def Cons m True)
    from unref_ok [OF this, of b] obtain s' where
      "libusb_unref_device b (Some d) (s\<lparr>lu_messages := rest\<rparr>) = Some s'" "refs_ok R s'"
      "view s' = view (s\<lparr>lu_messages := rest\<rparr>)" by blast
    then show ?thesis using Cons m True by (simp add: hotplug_read_def view_def)
  next
    case False
    have "refs_ok R (s\<lparr>lu_messages := rest\<rparr>)"
      by (rule refs_ok_transfer [OF assms]) (simp_all add: holders_def Cons m False)
    then show ?thesis using Cons m False by (simp add: hotplug_read_def)
  qed
qed

lemma listed_alive: "refs_ok R s \<Longrightarrow> d \<in> set (lu_usb_devs s) \<Longrightarrow> lu_mem s d \<noteq> None"
  using refs_okD [of R s d] by (auto simp: holders_def)

lemma find_session_total:
  "\<forall>d \<in> set ds. lu_mem s d \<noteq> None \<Longrightarrow> \<exists>r. find_session ds sid s = Some r \<and> (\<forall>d. r = Some d \<longrightarrow> d \<in> set ds)"
  by (induction ds) auto

lemma by_session_ok:
  assumes "refs_ok R s"
  obtains "usbi_get_device_by_session_id sid s = Some (None, s)"
  | d s' where "usbi_get_device_by_session_id sid s = Some (Some d, s')" "refs_ok (add_mset d R) s'"
      "view s' = view s" "d \<in> set (lu_usb_devs s)"
proof -
  have "\<forall>d \<in> set (lu_usb_devs s). lu_mem s d \<noteq> None" using listed_alive [OF assms] by blast
  from find_session_total [OF this, of sid] obtain r where
    r: "find_session (lu_usb_devs s) sid s = Some r" "\<forall>d. r = Some d \<longrightarrow> d \<in> set (lu_usb_devs s)" by blast
  show thesis
  proof (cases r)
    case None
    with r that(1) show thesis by (simp add: usbi_get_device_by_session_id_def)
  next
    case (Some d)
    with r(2) have d: "d \<in> set (lu_usb_devs s)" by simp
    from ref_ok [OF assms listed_alive [OF assms d]] obtain s' where
      "libusb_ref_device d s = Some s'" "refs_ok (add_mset d R) s'" "view s' = view s" by blast
    with r(1) Some that(2) d show thesis by (simp add: usbi_get_device_by_session_id_def)
  qed
qed

lemma disconnected_ok:
  assumes "refs_ok R s"
  shows "\<exists>s' L. android_device_disconnected b busnum devaddr s = Some s' \<and> refs_ok (R + L) s'
    \<and> (L = {#} \<or> \<not> fst (bk_write b (lu_world s))) \<and> lu_open_devs s' = lu_open_devs s"
proof (cases rule: by_session_ok [OF assms, of "session_of busnum devaddr"])
  case 1
  then show ?thesis using assms by (auto simp: android_device_disconnected_def intro: exI [of _ "{#}"])
next
  case (2 d s1)
  let ?L = "if fst (bk_write b (lu_world s1)) then {#} else {#d#}"
  have w: "lu_world s1 = lu_world s"
    using 2(1) by (auto simp: usbi_get_device_by_session_id_def libusb_ref_device_def
        split: Option.bind_splits option.splits)
  have "d \<in> set (lu_usb_devs s1)" using 2(3,4) by (simp add: view_def)
  from disconnect_ok [OF 2(2) this, of b] obtain s2 where
    2: "usbi_get_device_by_session_id (session_of busnum devaddr) s = Some (Some d, s1)"
    "usbi_disconnect_device b d s1 = Some s2" "refs_ok (add_mset d (R + ?L)) s2"
    "lu_open_devs s2 = lu_open_devs s"
    using 2(1,3) by (auto simp: view_def split: if_splits)
  from usb_refs.give_ok [OF 2(3), of b] obtain s3 where "libusb_unref_device b (Some d) s2 = Some s3"
    "refs_ok (R + ?L) s3" "usb_look s3 = usb_look s2" by blast
  with 2 w usb_lookD(3) [of s3 s2] show ?thesis
    by (intro exI [of _ s3] exI [of _ ?L]) (simp add: android_device_disconnected_def)
qed


text \<open>A device that is being made: it has one reference, and nothing knows of it.\<close>

definition fresh_dev :: "nat \<Rightarrow> 'w libusb \<Rightarrow> bool" where
  "fresh_dev d s \<longleftrightarrow> d \<notin> set (lu_usb_devs s) \<and> children {} (lu_mem s) d = 0
     \<and> (\<forall>x. lu_mem s d = Some x \<longrightarrow> ld_parent_dev x = None)"

lemma alloc_ok:
  assumes "refs_ok R s" "usbi_alloc_device b sid s = (Some d, s')"
  shows "refs_ok (add_mset d R) s'" "fresh_dev d s'" "lu_usb_devs s' = lu_usb_devs s" "lu_open_devs s' = lu_open_devs s"
proof -
  obtain rank where c: "counted rank {} R s" using assms(1) by (auto simp: refs_ok_def)
  note a = alloc_counted [OF c assms(2)]
  then show "refs_ok (add_mset d R) s'" unfolding refs_ok_def by blast
  show "fresh_dev d s'" using a listed_alive [OF assms(1), of d] by (auto simp: fresh_dev_def zero_device_def)
  show "lu_usb_devs s' = lu_usb_devs s" "lu_open_devs s' = lu_open_devs s" using a by simp_all
qed

lemma alloc_none: "usbi_alloc_device b sid s = (None, s') \<Longrightarrow> refs_ok R s \<Longrightarrow> refs_ok R s' \<and> view s' = view s"
  by (auto simp: usbi_alloc_device_def malloc_def mutex_init_def Let_def view_def split: prod.splits if_splits)

lemma fresh_set_dev:
  assumes "fresh_dev d s" "lu_mem s e = Some x" "ld_parent_dev y = ld_parent_dev x"
  shows "fresh_dev d (set_dev e y s)"
proof -
  have "parent_of ((lu_mem s)(e \<mapsto> y)) = parent_of (lu_mem s)"
    using assms(2,3) by (auto simp: parent_of_def fun_eq_iff)
  from children_cong [OF this] assms show ?thesis by (auto simp: fresh_dev_def)
qed

lemma fresh_world [simp]: "fresh_dev d (s\<lparr>lu_world := w\<rparr>) = fresh_dev d s"
  by (simp add: fresh_dev_def)

definition making :: "nat \<Rightarrow> nat multiset \<Rightarrow> 'w libusb \<Rightarrow> nat list \<times> (nat \<times> nat) list \<Rightarrow> bool" where
  "making d R s v \<longleftrightarrow> refs_ok (add_mset d R) s \<and> fresh_dev d s \<and> v = (lu_usb_devs s, lu_open_devs s)"

lemma initialize_ok:
  assumes "making d R s v"
  shows "\<exists>r s'. initialize_device b d busnum devaddr s = Some (r, s') \<and> making d R s' v"
proof -
  have ok: "refs_ok (add_mset d R) s" using assms by (simp add: making_def)
  have "lu_mem s d \<noteq> None" by (rule usb_refs.held [OF ok])
  then obtain x where x: "lu_mem s d = Some x" by blast
  have "making d R (set_dev d (x\<lparr>ld_bus_number := busnum, ld_device_address := devaddr\<rparr>) s\<lparr>lu_world := w\<rparr>) v" for w
    using assms refs_ok_set_dev [OF ok x] fresh_set_dev [of d s d x, OF _ x] by (simp add: making_def)
  then show ?thesis by (simp add: initialize_device_def x split: prod.splits)
qed

lemma sanitize_ok:
  assumes "making d R s v"
  shows "\<exists>r s'. usbi_sanitize_device b d s = Some (r, s') \<and> making d R s' v"
proof -
  have ok: "refs_ok (add_mset d R) s" using assms by (simp add: making_def)
  have "lu_mem s d \<noteq> None" by (rule usb_refs.held [OF ok])
  then obtain x where x: "lu_mem s d = Some x" by blast
  have "making d R (set_dev d (x\<lparr>ld_descriptor := e\<rparr>) (s\<lparr>lu_world := w\<rparr>)) v" for e w
    using assms refs_ok_set_dev [of _ "s\<lparr>lu_world := w\<rparr>" d x] fresh_set_dev [of d "s\<lparr>lu_world := w\<rparr>" d x] x ok
    by (simp add: making_def)
  moreover have "making d R (s\<lparr>lu_world := w\<rparr>) v" for w using assms by (simp add: making_def)
  ultimately show ?thesis by (auto simp: usbi_sanitize_device_def x Let_def split: prod.splits)
qed

lemma counted_parent:
  assumes "counted rank {} (add_mset p R) s" "lu_mem s d = Some x" "ld_parent_dev x = None"
    "children {} (lu_mem s) d = 0" "p \<noteq> d"
  shows "counted (rank(d := Suc (rank p))) {} R (set_dev d (x\<lparr>ld_parent_dev := Some p\<rparr>) s)"
proof -
  let ?s = "set_dev d (x\<lparr>ld_parent_dev := Some p\<rparr>) s"
  note I = countedD [OF assms(1)]
  have pa: "parent_of (lu_mem ?s) = (parent_of (lu_mem s))(d \<mapsto> p)"
    by (auto simp: parent_of_def fun_eq_iff)
  have pd: "parent_of (lu_mem s) d = None" using assms(2,3) by (simp add: parent_of_def)
  have nd: "parent_of (lu_mem s) c \<noteq> Some d" for c
    using assms(4) finite_children [OF I(1), of "\<lambda>_. True" d] by (auto simp: children_def)
  have fin: "finite {c. parent_of (lu_mem s) c = Some p}"
    using finite_children [OF I(1), of "\<lambda>_. True" p] by simp
  have "{c. c \<notin> {} \<and> parent_of (lu_mem ?s) c = Some e}
      = (if e = p then insert d {c. parent_of (lu_mem s) c = Some e} else {c. parent_of (lu_mem s) c = Some e})" for e
    unfolding pa using pd by auto
  then have ch: "children {} (lu_mem ?s) e = children {} (lu_mem s) e + (if e = p then 1 else 0)" for e
    unfolding children_def using fin pd by simp
  have ow: "owners {} R ?s e = owners {} (add_mset p R) s e" for e
    using ch [of e] by (simp add: owners_def)
  show ?thesis
  proof (rule countedI)
    show "finite (dom (lu_mem ?s))" using I(1) by simp
    show "(rank(d := Suc (rank p))) q < (rank(d := Suc (rank p))) c" if "parent_of (lu_mem ?s) c = Some q" for c q
      using that I(2) [of c q] nd [of c] assms(5) unfolding pa by (auto split: if_splits)
    show "owners {} R ?s e = 0" if "e \<in> {} \<or> lu_mem ?s e = None" for e
      using that I(5) [of e] unfolding ow by (simp split: if_splits)
    show "ld_refcnt y = int (owners {} R ?s e) \<and> 0 < owners {} R ?s e" if "lu_mem ?s e = Some y" "e \<notin> {}" for e y
      using that I(6,7) [of e] assms(2) unfolding ow by (auto split: if_splits)
    show "e < lu_next ?s" if "lu_mem ?s e = Some y" for e y
      using that I(8) [of e] assms(2) by (auto split: if_splits)
  qed (use I in auto)
qed


lemma refs_ok_keep: "refs_ok R s \<Longrightarrow> refs_ok R (s\<lparr>lu_world := w\<rparr>)"
  by simp

lemma parent_info_ok:
  assumes "making d R s v"
  shows "\<exists>r s'. android_get_parent_info b d s = Some (r, s') \<and> refs_ok (add_mset d R) s'
    \<and> v = (lu_usb_devs s', lu_open_devs s')"
proof -
  obtain r place w where b: "bk_parent b d (lu_usb_devs s) (lu_world s) = (r, place, w)" by (metis prod_cases3)
  let ?s = "s\<lparr>lu_world := w\<rparr>"
  have m: "making d R ?s v" using assms by (simp add: making_def)
  show ?thesis
  proof (cases "\<exists>i. place = Some i \<and> i < length (lu_usb_devs s)")
    case False
    then have "android_get_parent_info b d s = Some (r, ?s)"
      by (auto simp: android_get_parent_info_def b Let_def split: option.splits)
    with m show ?thesis by (auto simp: making_def)
  next
    case True
    then obtain i where i: "place = Some i" "i < length (lu_usb_devs s)" by blast
    define p where "p = lu_usb_devs s ! i"
    have p: "p \<in> set (lu_usb_devs ?s)" using i by (simp add: p_def)
    have ok: "refs_ok (add_mset d R) ?s" using m by (simp add: making_def)
    have ne: "p \<noteq> d" using p m by (auto simp: making_def fresh_dev_def)
    have pm: "lu_mem s p \<noteq> None" using listed_alive [OF ok p] by simp
    then obtain y where y: "lu_mem s p = Some y" by blast
    have "lu_mem ?s d \<noteq> None" by (rule usb_refs.held [OF ok])
    then obtain x where x: "lu_mem s d = Some x" by auto
    define s1 where "s1 = set_dev p (y\<lparr>ld_refcnt := ld_refcnt y + 1\<rparr>) ?s"
    have ref: "libusb_ref_device p ?s = Some s1" by (simp add: libusb_ref_device_def y s1_def)
    have "refs_ok (add_mset p (add_mset d R)) s1"
      using ref_ok [OF ok, of p] pm ref by auto
    then obtain rank where c: "counted rank {} (add_mset p (add_mset d R)) s1" by (auto simp: refs_ok_def)
    have x1: "lu_mem s1 d = Some x" using x ne by (simp add: s1_def)
    have f: "fresh_dev d s1"
      unfolding s1_def by (rule fresh_set_dev) (use m y in \<open>simp_all add: making_def\<close>)
    then have "ld_parent_dev x = None" "children {} (lu_mem s1) d = 0" using x1 by (simp_all add: fresh_dev_def)
    from counted_parent [OF c x1 this ne]
    have "refs_ok (add_mset d R) (set_dev d (x\<lparr>ld_parent_dev := Some p\<rparr>) s1)" unfolding refs_ok_def by blast
    moreover have "android_get_parent_info b d s = Some (r, set_dev d (x\<lparr>ld_parent_dev := Some p\<rparr>) s1)"
      using i ref x1 p_def by (simp add: android_get_parent_info_def b s1_def)
    moreover have "v = (lu_usb_devs s1, lu_open_devs s1)" using m by (simp add: making_def s1_def)
    ultimately show ?thesis by auto
  qed
qed

lemma device_done_ok:
  assumes "refs_ok (add_mset d R) s"
  shows "\<exists>dev s'. device_done b r d s = Some (r, dev, s') \<and> refs_ok R s'
    \<and> dev = (if r < 0 then None else Some d)
    \<and> lu_usb_devs s' = (if r < 0 then lu_usb_devs s else d # lu_usb_devs s) \<and> lu_open_devs s' = lu_open_devs s"
  using unref_ok [OF assms, of b] connect_ok [OF assms, of b]
  by (cases "r < 0") (auto simp: device_done_def view_def)

lemma initialized_ok:
  assumes "making d R s v"
  shows "\<exists>r s1 r' s'. initialize_device b d busnum devaddr s = Some (r, s1)
    \<and> (if r < 0 then Some (r, s1) else usbi_sanitize_device b d s1) = Some (r', s') \<and> making d R s' v"
proof -
  from initialize_ok [OF assms] obtain r s1 where
    1: "initialize_device b d busnum devaddr s = Some (r, s1)" "making d R s1 v" by blast
  then show ?thesis using sanitize_ok [OF 1(2), of b] by (cases "r < 0") auto
qed

lemma enumerate_ok:
  assumes "refs_ok R s"
  shows "\<exists>r s'. android_enumerate_device b busnum devaddr s = Some (r, s') \<and> refs_ok R s'
    \<and> lu_open_devs s' = lu_open_devs s"
proof (cases rule: by_session_ok [OF assms, of "session_of busnum devaddr"])
  case 1
  obtain dev s0 where a: "usbi_alloc_device b (session_of busnum devaddr) s = (dev, s0)" by (metis surj_pair)
  show ?thesis
  proof (cases dev)
    case None
    with a alloc_none [of b _ s s0 R] assms 1 show ?thesis
      by (auto simp: android_enumerate_device_def view_def)
  next
    case (Some d)
    note al = alloc_ok [OF assms a [unfolded Some]]
    have "making d R s0 (lu_usb_devs s0, lu_open_devs s0)" using al by (simp add: making_def)
    from initialized_ok [OF this, of b busnum devaddr] obtain r s1 r' s2 where
      2: "initialize_device b d busnum devaddr s0 = Some (r, s1)"
      "(if r < 0 then Some (r, s1) else usbi_sanitize_device b d s1) = Some (r', s2)"
      "making d R s2 (lu_usb_devs s0, lu_open_devs s0)" by blast
    obtain r'' s3 where 3: "(if r' < 0 then Some (r', s2) else android_get_parent_info b d s2) = Some (r'', s3)"
      "refs_ok (add_mset d R) s3" "lu_open_devs s3 = lu_open_devs s0"
      using parent_info_ok [OF 2(3), of b] 2(3) by (cases "r' < 0") (auto simp: making_def)
    from device_done_ok [OF 3(2), of b r''] obtain dev' s4 where
      4: "device_done b r'' d s3 = Some (r'', dev', s4)" "refs_ok R s4" "lu_open_devs s4 = lu_open_devs s3"
      by blast
    have "android_enumerate_device b busnum devaddr s = Some (r'', s4)"
      unfolding android_enumerate_device_def using 1 a Some 2 3(1) 4(1) by simp
    with 4 3(3) al(4) show ?thesis by simp
  qed
next
  case (2 d s1)
  from unref_ok [OF 2(2), of b] obtain s2 where
    "libusb_unref_device b (Some d) s1 = Some s2" "refs_ok R s2" "view s2 = view s1" by blast
  with 2 show ?thesis by (simp add: android_enumerate_device_def view_def)
qed

lemma generate_ok:
  assumes "refs_ok R s" "usbi_alloc_device b (session_of busnum devaddr) s = (Some d, s0)"
  shows "\<exists>r dev s'. android_generate_device b busnum devaddr s = Some (r, dev, s') \<and> refs_ok R s'
    \<and> lu_open_devs s' = lu_open_devs s \<and> dev = (if r < 0 then None else Some d)
    \<and> lu_usb_devs s' = (if r < 0 then lu_usb_devs s else d # lu_usb_devs s)"
proof -
  note al = alloc_ok [OF assms]
  have "making d R s0 (lu_usb_devs s0, lu_open_devs s0)" using al by (simp add: making_def)
  from initialized_ok [OF this, of b busnum devaddr] obtain r s1 r' s2 where
    2: "initialize_device b d busnum devaddr s0 = Some (r, s1)"
    "(if r < 0 then Some (r, s1) else usbi_sanitize_device b d s1) = Some (r', s2)"
    "making d R s2 (lu_usb_devs s0, lu_open_devs s0)" by blast
  from device_done_ok [of d R s2 b r'] 2(3) obtain dev' s4 where
    4: "device_done b r' d s2 = Some (r', dev', s4)" "refs_ok R s4" "lu_open_devs s4 = lu_open_devs s2"
    "dev' = (if r' < 0 then None else Some d)"
    "lu_usb_devs s4 = (if r' < 0 then lu_usb_devs s2 else d # lu_usb_devs s2)"
    by (auto simp: making_def)
  have "android_generate_device b busnum devaddr s = Some (r', dev', s4)"
    unfolding android_generate_device_def using assms(2) 2 4(1) by simp
  with 4 2(3) al show ?thesis by (simp add: making_def)
qed


section \<open>Lists and handles\<close>

lemma malloc_cases:
  obtains w where "malloc b s = (fst (bk_malloc b (lu_world s)), s\<lparr>lu_world := w\<rparr>)"
  by (cases "bk_malloc b (lu_world s)") (simp add: malloc_def)

lemma mutex_init_cases:
  obtains r w where "mutex_init b s = (r, s\<lparr>lu_world := w\<rparr>)"
  by (cases "bk_mutex_init b (lu_world s)") (simp add: mutex_init_def)

text \<open>The array takes the devices without growing, or memory does not run out.\<close>

definition ample :: "'w backend \<Rightarrow> bool" where
  "ample b \<longleftrightarrow> (\<forall>w. fst (bk_malloc b w))"

definition roomy :: "'w backend \<Rightarrow> nat \<Rightarrow> nat \<Rightarrow> bool" where
  "roomy b n capacity \<longleftrightarrow> n \<le> capacity \<or> ample b"

lemma append_all_ok:
  assumes "refs_ok (R + mset devs) s" "\<forall>d \<in> set ds. lu_mem s d \<noteq> None" "roomy b (length (devs @ ds)) cap"
  shows "\<exists>cap' s'. append_all b ds (devs, cap) s = Some (Some (devs @ ds, cap'), s')
    \<and> refs_ok (R + mset (devs @ ds)) s' \<and> usb_look s' = usb_look s \<and> (\<forall>d \<in> set ds. lu_mem s' d \<noteq> None)"
  using assms
proof (induction ds arbitrary: devs cap s)
  case (Cons d ds)
  obtain w where w: "malloc b s = (fst (bk_malloc b (lu_world s)), s\<lparr>lu_world := w\<rparr>)" by (rule malloc_cases)
  define s0 where "s0 = (if length devs < cap then s else s\<lparr>lu_world := w\<rparr>)"
  define cap' where "cap' = (if length devs < cap then cap else cap + 8)"
  have 0: "refs_ok (R + mset devs) s0" "lu_mem s0 = lu_mem s" "usb_look s0 = usb_look s"
    using Cons.prems(1) by (simp_all add: s0_def)
  from usb_refs.take_ok [OF 0(1), of d] Cons.prems(2) 0(2) obtain s1 where
    1: "libusb_ref_device d s0 = Some s1" "refs_ok (add_mset d (R + mset devs)) s1" "usb_look s1 = usb_look s0"
    "\<forall>e. (lu_mem s1 e \<noteq> None) = (lu_mem s0 e \<noteq> None)" by auto
  have "length devs < cap \<or> fst (bk_malloc b (lu_world s))"
    using Cons.prems(3) by (auto simp: roomy_def ample_def)
  then have ap: "discovered_devs_append b (devs, cap) d s = Some (Some (devs @ [d], cap'), s1)"
    using 1(1) w by (auto simp: discovered_devs_append_def s0_def cap'_def)
  have "refs_ok (R + mset (devs @ [d])) s1" using 1(2) by (simp add: ac_simps)
  moreover have "\<forall>e \<in> set ds. lu_mem s1 e \<noteq> None" using 1(4) 0(2) Cons.prems(2) by simp
  moreover have "roomy b (length ((devs @ [d]) @ ds)) cap'"
    using Cons.prems(3) by (auto simp: roomy_def cap'_def)
  ultimately have "\<exists>cap'' s'. append_all b ds (devs @ [d], cap') s1 = Some (Some ((devs @ [d]) @ ds, cap''), s')
    \<and> refs_ok (R + mset ((devs @ [d]) @ ds)) s' \<and> usb_look s' = usb_look s1 \<and> (\<forall>e \<in> set ds. lu_mem s' e \<noteq> None)"
    by (rule Cons.IH)
  then obtain cap'' s' where
    2: "append_all b ds (devs @ [d], cap') s1 = Some (Some (devs @ d # ds, cap''), s')"
    "refs_ok (R + mset (devs @ d # ds)) s'" "usb_look s' = usb_look s1" by auto
  have "lu_mem s' e \<noteq> None" if "e \<in> set (d # ds)" for e
    using usb_refs.held_each [OF 2(2), of e] that by (metis Un_iff set_append)
  then show ?case using ap 2 1(3) 0(3) by simp
qed simp

lemma get_device_list_ok:
  assumes "refs_ok R s" "roomy b (length (lu_usb_devs s)) 8"
  shows "\<exists>len ret s'. libusb_get_device_list b s = Some (len, ret, s') \<and> usb_look s' = usb_look s
    \<and> (case ret of None \<Rightarrow> len = LIBUSB_ERROR_NO_MEM \<and> refs_ok R s' \<and> \<not> ample b
       | Some devs \<Rightarrow> devs = lu_usb_devs s \<and> len = int (length devs) \<and> refs_ok (R + mset devs) s')"
proof -
  let ?devs = "lu_usb_devs s"
  obtain w where w: "malloc b s = (fst (bk_malloc b (lu_world s)), s\<lparr>lu_world := w\<rparr>)" by (rule malloc_cases)
  show ?thesis
  proof (cases "fst (bk_malloc b (lu_world s))")
    case False
    then have "\<not> ample b" by (auto simp: ample_def)
    then show ?thesis using w assms(1) False by (simp add: libusb_get_device_list_def discovered_devs_alloc_def)
  next
    case True
    let ?s = "s\<lparr>lu_world := w\<rparr>"
    have al: "\<forall>d \<in> set ?devs. lu_mem ?s d \<noteq> None" using listed_alive [OF assms(1)] by auto
    from append_all_ok [of R "[]" ?s ?devs b 8] assms al obtain cap s1 where
      1: "append_all b ?devs ([], 8) ?s = Some (Some (?devs, cap), s1)" "refs_ok (R + mset ?devs) s1"
      "usb_look s1 = usb_look s" "\<forall>d \<in> set ?devs. lu_mem s1 d \<noteq> None" by auto
    obtain w1 where w1: "malloc b s1 = (fst (bk_malloc b (lu_world s1)), s1\<lparr>lu_world := w1\<rparr>)" by (rule malloc_cases)
    show ?thesis
    proof (cases "fst (bk_malloc b (lu_world s1))")
      case False
      then have "\<not> ample b" by (auto simp: ample_def)
      have "refs_ok (R + mset ?devs) (s1\<lparr>lu_world := w1\<rparr>)" using 1(2) by simp
      from usb_refs.give_each [OF this, of b] obtain s2 where
        "each (\<lambda>d. libusb_unref_device b (Some d)) ?devs (s1\<lparr>lu_world := w1\<rparr>) = Some s2" "refs_ok R s2"
        "usb_look s2 = usb_look s1" by auto
      then show ?thesis
        using w True 1(1,3) w1 False \<open>\<not> ample b\<close>
        by (simp add: libusb_get_device_list_def discovered_devs_alloc_def discovered_devs_free_def)
    next
      case ok: True
      have "refs_ok (R + mset ?devs) (s1\<lparr>lu_world := w1\<rparr>)" using 1(2) by simp
      from usb_refs.take_each [OF this, of ?devs] 1(4) obtain s2 where
        2: "each libusb_ref_device ?devs (s1\<lparr>lu_world := w1\<rparr>) = Some s2"
        "refs_ok (R + mset ?devs + mset ?devs) s2" "usb_look s2 = usb_look s1" by auto
      from usb_refs.give_each [OF 2(2), of b] obtain s3 where
        3: "each (\<lambda>d. libusb_unref_device b (Some d)) ?devs s2 = Some s3" "refs_ok (R + mset ?devs) s3"
        "usb_look s3 = usb_look s2" by auto
      then show ?thesis
        using w True 1(1,3) w1 ok 2
        by (simp add: libusb_get_device_list_def discovered_devs_alloc_def discovered_devs_free_def)
    qed
  qed
qed

lemma free_device_list_ok:
  assumes "refs_ok (R + mset devs) s"
  shows "\<exists>s'. libusb_free_device_list b devs True s = Some s' \<and> refs_ok R s' \<and> usb_look s' = usb_look s"
  using usb_refs.give_each [OF assms, of b] by (simp add: libusb_free_device_list_def)

text \<open>Looking for the first device with a property in a list that is held.\<close>

lemma find_ids_total:
  "\<forall>d \<in> set ds. lu_mem s d \<noteq> None \<Longrightarrow>
   find_ids P ds s = Some (find (\<lambda>d. P (ld_descriptor (the (lu_mem s d)))) ds)"
  by (induction ds) (auto simp: libusb_get_device_descriptor_def)


lemma find_ids_look:
  assumes "refs_ok R s" "usb_look s' = usb_look s"
  shows "find_ids P (lu_usb_devs s) s' = Some (find (\<lambda>d. P (ld_descriptor (the (lu_mem s d)))) (lu_usb_devs s))"
proof -
  have e: "\<exists>y. lu_mem s' d = Some y \<and> ld_descriptor y = ld_descriptor (the (lu_mem s d))" if "d \<in> set (lu_usb_devs s)" for d
    using usb_lookD(5) [OF assms(2), of d] listed_alive [OF assms(1) that] that by (auto simp: known_def static_def)
  then have "\<forall>d \<in> set (lu_usb_devs s). lu_mem s' d \<noteq> None" by fastforce
  then have "find_ids P (lu_usb_devs s) s' = Some (find (\<lambda>d. P (ld_descriptor (the (lu_mem s' d)))) (lu_usb_devs s))"
    by (rule find_ids_total)
  moreover have "find (\<lambda>d. P (ld_descriptor (the (lu_mem s' d)))) (lu_usb_devs s)
      = find (\<lambda>d. P (ld_descriptor (the (lu_mem s d)))) (lu_usb_devs s)"
    by (rule find_cong) (use e in fastforce)+
  ultimately show ?thesis by simp
qed

lemma find_device_ok:
  assumes "refs_ok R s" "roomy b (length (lu_usb_devs s)) 8"
  shows "\<exists>dev s'. libusb_find_device b vid pid s = Some (dev, s') \<and> usb_look s' = usb_look s
    \<and> refs_ok (R + (case dev of None \<Rightarrow> {#} | Some d \<Rightarrow> {#d#})) s'
    \<and> (dev = find (\<lambda>d. ids_match vid pid (ld_descriptor (the (lu_mem s d)))) (lu_usb_devs s)
       \<or> dev = None \<and> \<not> ample b)"
proof -
  let ?find = "find (\<lambda>d. ids_match vid pid (ld_descriptor (the (lu_mem s d)))) (lu_usb_devs s)"
  from get_device_list_ok [OF assms] obtain len ret s1 where
    1: "libusb_get_device_list b s = Some (len, ret, s1)" "usb_look s1 = usb_look s"
    "case ret of None \<Rightarrow> len = LIBUSB_ERROR_NO_MEM \<and> refs_ok R s1 \<and> \<not> ample b
       | Some devs \<Rightarrow> devs = lu_usb_devs s \<and> len = int (length devs) \<and> refs_ok (R + mset devs) s1" by blast
  show ?thesis
  proof (cases ret)
    case None
    then show ?thesis using 1 None by (auto simp: libusb_find_device_def)
  next
    case (Some devs)
    have 2: "devs = lu_usb_devs s" "len = int (length devs)" "refs_ok (R + mset devs) s1"
      using 1(3) unfolding Some by auto
    have f: "find_ids (ids_match vid pid) devs s1 = Some ?find"
      using find_ids_look [OF assms(1) 1(2)] 2(1) by simp
    show ?thesis
    proof (cases ?find)
      case None
      from free_device_list_ok [OF 2(3), of b] obtain s2 where
        "libusb_free_device_list b devs True s1 = Some s2" "refs_ok R s2" "usb_look s2 = usb_look s1" by blast
      then show ?thesis using 1(1,2) 2(2) Some f None by (simp add: libusb_find_device_def)
    next
      case found: (Some d)
      then have "d \<in> set devs" using 2(1) by (auto simp: find_Some_iff)
      from usb_refs.keep_one [OF 2(3) this, of b] obtain s2 s3 where
        "libusb_ref_device d s1 = Some s2" "each (\<lambda>d. libusb_unref_device b (Some d)) devs s2 = Some s3"
        "refs_ok (add_mset d R) s3" "usb_look s3 = usb_look s1" by blast
      then show ?thesis using 1(1,2) 2(2) Some f found
        by (simp add: libusb_find_device_def libusb_free_device_list_def)
    qed
  qed
qed


lemma refs_ok_next:
  assumes "refs_ok R s" "lu_next s \<le> n"
  shows "refs_ok R (s\<lparr>lu_next := n\<rparr>)"
proof -
  obtain rank where c: "counted rank {} R s" using assms(1) by (auto simp: refs_ok_def)
  have "counted rank {} R (s\<lparr>lu_next := n\<rparr>)"
    by (rule counted_transfer [OF c]) (use assms(2) countedD(9,10) [OF c] in \<open>auto intro: less_le_trans\<close>)
  then show ?thesis unfolding refs_ok_def by blast
qed

lemma handle_ok:
  assumes "refs_ok (add_mset d R) s" "h < lu_next s" "h \<notin> fst ` set (lu_open_devs s)"
  shows "refs_ok R (s\<lparr>lu_open_devs := (h, d) # lu_open_devs s\<rparr>)"
proof -
  obtain rank where c: "counted rank {} (add_mset d R) s" using assms(1) by (auto simp: refs_ok_def)
  have "counted rank {} R (s\<lparr>lu_open_devs := (h, d) # lu_open_devs s\<rparr>)"
    by (rule counted_transfer [OF c]) (use assms(2,3) countedD(9,10) [OF c] in \<open>auto simp: holders_def\<close>)
  then show ?thesis unfolding refs_ok_def by blast
qed

lemma mset_close:
  assumes "distinct (map fst xs)" "map_of xs h = Some d"
  shows "mset (map snd xs) = add_mset d (mset (map snd (filter (\<lambda>x. fst x \<noteq> h) xs)))"
  using assms
proof (induction xs)
  case (Cons x xs)
  have "h \<notin> fst ` set xs \<Longrightarrow> filter (\<lambda>x. fst x \<noteq> h) xs = xs" by (rule filter_True) auto
  then show ?case using Cons by (cases "fst x = h") auto
qed simp

lemma unhandle_ok:
  assumes "refs_ok R s" "map_of (lu_open_devs s) h = Some d"
  shows "refs_ok (add_mset d R) (s\<lparr>lu_open_devs := filter (\<lambda>x. fst x \<noteq> h) (lu_open_devs s)\<rparr>)"
proof -
  obtain rank where c: "counted rank {} R s" using assms(1) by (auto simp: refs_ok_def)
  note D = countedD(9,10) [OF c]
  have "distinct (map fst (filter (\<lambda>x. fst x \<noteq> h) (lu_open_devs s)))"
    using D(1) by (simp add: distinct_map_filter)
  then have "counted rank {} (add_mset d R) (s\<lparr>lu_open_devs := filter (\<lambda>x. fst x \<noteq> h) (lu_open_devs s)\<rparr>)"
    by (intro counted_transfer [OF c]) (use D mset_close [OF D(1) assms(2)] in \<open>auto simp: holders_def\<close>)
  then show ?thesis unfolding refs_ok_def by blast
qed

lemma handle_bound:
  "refs_ok R s \<Longrightarrow> h \<in> fst ` set (lu_open_devs s) \<Longrightarrow> h < lu_next s"
  unfolding refs_ok_def using countedD(10) by blast

text \<open>The listed devices stay listed, and what is known of them stays.\<close>

definition keeps :: "'w libusb \<Rightarrow> 'w libusb \<Rightarrow> bool" where
  "keeps s s' \<longleftrightarrow> lu_usb_devs s' = lu_usb_devs s
     \<and> (\<forall>e \<in> set (lu_usb_devs s). map_option static (lu_mem s' e) = map_option static (lu_mem s e))"

lemma keeps_refl [simp]: "keeps s s" "keeps s (s\<lparr>lu_world := w\<rparr>)"
  by (simp_all add: keeps_def)

lemma keeps_trans: "keeps s s' \<Longrightarrow> keeps s' s'' \<Longrightarrow> keeps s s''"
  by (simp add: keeps_def)

lemma keeps_look: "usb_look s' = usb_look s \<Longrightarrow> keeps s s'"
  using usb_lookD(2,5) [of s' s] by (simp add: keeps_def known_def)

lemma open_ok:
  assumes "refs_ok R s" "lu_mem s d \<noteq> None"
  shows "\<exists>r h s'. libusb_open b d s = Some (r, h, s') \<and> refs_ok R s' \<and> keeps s s'
    \<and> lu_messages s' = lu_messages s
    \<and> (case h of None \<Rightarrow> r < 0 \<and> lu_open_devs s' = lu_open_devs s
       | Some h \<Rightarrow> r = 0 \<and> lu_open_devs s' = (h, d) # lu_open_devs s \<and> h \<notin> fst ` set (lu_open_devs s))"
proof -
  obtain x where x: "lu_mem s d = Some x" using assms(2) by blast
  obtain w where w: "malloc b s = (fst (bk_malloc b (lu_world s)), s\<lparr>lu_world := w\<rparr>)" by (rule malloc_cases)
  obtain r0 w0 where w0: "mutex_init b (s\<lparr>lu_world := w\<rparr>) = (r0, s\<lparr>lu_world := w\<rparr>\<lparr>lu_world := w0\<rparr>)"
    by (rule mutex_init_cases)
  have early: ?thesis if "libusb_open b d s = Some (r, None, s\<lparr>lu_world := w'\<rparr>)" "r < 0" for r w'
    using that assms(1) by auto
  show ?thesis
  proof (cases "ld_attached x \<and> fst (bk_malloc b (lu_world s)) \<and> r0 = 0")
    case False
    have "libusb_open b d s = Some (LIBUSB_ERROR_NO_DEVICE, None, s\<lparr>lu_world := lu_world s\<rparr>)" if "\<not> ld_attached x"
      using that x by (simp add: libusb_open_def)
    moreover have "libusb_open b d s = Some (LIBUSB_ERROR_NO_MEM, None, s\<lparr>lu_world := w\<rparr>)"
      if "ld_attached x" "\<not> fst (bk_malloc b (lu_world s))"
      using that x w by (simp add: libusb_open_def)
    moreover have "libusb_open b d s = Some (LIBUSB_ERROR_OTHER, None, s\<lparr>lu_world := w0\<rparr>)"
      if "ld_attached x" "fst (bk_malloc b (lu_world s))" "r0 \<noteq> 0"
      using that x w w0 by (simp add: libusb_open_def)
    ultimately show ?thesis using early False by fastforce
  next
    case True
    let ?s = "s\<lparr>lu_world := w0\<rparr>"
    have "refs_ok R ?s" "lu_mem ?s d \<noteq> None" using assms by simp_all
    from usb_refs.take_ok [OF this] obtain s1 where
      1: "libusb_ref_device d ?s = Some s1" "refs_ok (add_mset d R) s1" "usb_look s1 = usb_look s" by auto
    have k1: "keeps s s1" "view s1 = view s" using keeps_look [OF 1(3)] usb_lookD(1) [OF 1(3)] by simp_all
    obtain r w1 where w1: "bk_open b (lu_next s1) d (lu_world s1) = (r, w1)" by (metis surj_pair)
    let ?s2 = "s1\<lparr>lu_world := w1, lu_next := lu_next s1 + 1\<rparr>"
    have 2: "refs_ok (add_mset d R) ?s2"
      using refs_ok_next [of "add_mset d R" "s1\<lparr>lu_world := w1\<rparr>" "lu_next s1 + 1"] 1(2) by simp
    have open_def: "libusb_open b d s = (if r < 0
        then do { s \<leftarrow> libusb_unref_device b (Some d) ?s2; Some (r, None, s) }
        else Some (0, Some (lu_next s1), ?s2\<lparr>lu_open_devs := (lu_next s1, d) # lu_open_devs ?s2\<rparr>))"
      using True x w w0 1(1) w1 by (simp add: libusb_open_def Let_def)
    show ?thesis
    proof (cases "r < 0")
      case True
      from usb_refs.give_ok [OF 2, of b] obtain s3 where
        3: "libusb_unref_device b (Some d) ?s2 = Some s3" "refs_ok R s3" "usb_look s3 = usb_look ?s2" by blast
      have "keeps ?s2 s3" by (rule keeps_look [OF 3(3)])
      then have "keeps s s3" using k1(1) by (simp add: keeps_def)
      then show ?thesis using open_def True k1(2) 3 usb_lookD(1) [OF 3(3)] by (auto simp: view_def)
    next
      case False
      have n: "lu_next s1 \<notin> fst ` set (lu_open_devs s1)" using handle_bound [OF 1(2)] by blast
      then have "refs_ok R (?s2\<lparr>lu_open_devs := (lu_next s1, d) # lu_open_devs ?s2\<rparr>)"
        by (intro handle_ok [OF 2]) simp_all
      moreover have "keeps s (?s2\<lparr>lu_open_devs := (lu_next s1, d) # lu_open_devs ?s2\<rparr>)"
        using k1(1) by (simp add: keeps_def)
      moreover have "lu_open_devs s1 = lu_open_devs s" "lu_messages s1 = lu_messages s"
        using k1(2) by (simp_all add: view_def)
      ultimately show ?thesis using open_def False n by simp
    qed
  qed
qed

lemma close_ok:
  assumes "refs_ok R s" "map_of (lu_open_devs s) h = Some d"
  shows "\<exists>s'. libusb_close b (Some h) s = Some s' \<and> refs_ok R s' \<and> keeps s s'
    \<and> lu_messages s' = lu_messages s \<and> lu_open_devs s' = filter (\<lambda>x. fst x \<noteq> h) (lu_open_devs s)"
proof -
  let ?s = "\<lambda>w. s\<lparr>lu_open_devs := filter (\<lambda>x. fst x \<noteq> h) (lu_open_devs s)\<rparr>\<lparr>lu_world := w\<rparr>"
  let ?w = "bk_close b h d (bk_drop_transfers b h (lu_world s))"
  have "refs_ok (add_mset d R) (?s ?w)" using unhandle_ok [OF assms] by simp
  from usb_refs.give_ok [OF this, of b] obtain s' where
    1: "libusb_unref_device b (Some d) (?s ?w) = Some s'" "refs_ok R s'" "usb_look s' = usb_look (?s ?w)" by blast
  have "keeps s s'" using keeps_look [OF 1(3)] by (simp add: keeps_def)
  then show ?thesis
    using assms(2) 1(1,2) usb_lookD(1) [OF 1(3)]
    by (simp add: libusb_close_def do_close_def libusb_get_device_def view_def)
qed

section \<open>Everything the library is asked to do\<close>

text \<open>
  The references the users hold, next to the context. A user drops only what it holds and
  closes only what it opened; \<open>detached\<close> has a pipe that takes the message.
\<close>

inductive lib_step :: "'w backend \<Rightarrow> nat multiset \<times> 'w libusb \<Rightarrow> nat multiset \<times> 'w libusb \<Rightarrow> bool" for b where
  taken: "d \<in># R \<Longrightarrow> libusb_ref_device d s = Some s' \<Longrightarrow> lib_step b (R, s) (add_mset d R, s')"
| dropped: "libusb_unref_device b (Some d) s = Some s' \<Longrightarrow> lib_step b (add_mset d R, s) (R, s')"
| listed: "roomy b (length (lu_usb_devs s)) 8 \<Longrightarrow> libusb_get_device_list b s = Some (len, Some devs, s') \<Longrightarrow>
    lib_step b (R, s) (R + mset devs, s')"
| unlisted: "roomy b (length (lu_usb_devs s)) 8 \<Longrightarrow> libusb_get_device_list b s = Some (len, None, s') \<Longrightarrow>
    lib_step b (R, s) (R, s')"
| freed: "libusb_free_device_list b devs True s = Some s' \<Longrightarrow> lib_step b (R + mset devs, s) (R, s')"
| found: "roomy b (length (lu_usb_devs s)) 8 \<Longrightarrow> libusb_find_device b vid pid s = Some (Some d, s') \<Longrightarrow>
    lib_step b (R, s) (add_mset d R, s')"
| not_found: "roomy b (length (lu_usb_devs s)) 8 \<Longrightarrow> libusb_find_device b vid pid s = Some (None, s') \<Longrightarrow>
    lib_step b (R, s) (R, s')"
| opened: "d \<in># R \<Longrightarrow> libusb_open b d s = Some (r, h, s') \<Longrightarrow> lib_step b (R, s) (R, s')"
| closed: "h \<in> fst ` set (lu_open_devs s) \<Longrightarrow> libusb_close b (Some h) s = Some s' \<Longrightarrow> lib_step b (R, s) (R, s')"
| attached: "android_enumerate_device b busnum devaddr s = Some (r, s') \<Longrightarrow> lib_step b (R, s) (R, s')"
| generated: "libusb_get_device_with_fd b busnum devaddr s = Some (dev, s') \<Longrightarrow> lib_step b (R, s) (R, s')"
| detached: "fst (bk_write b (lu_world s)) \<Longrightarrow> android_device_disconnected b busnum devaddr s = Some s' \<Longrightarrow>
    lib_step b (R, s) (R, s')"
| message: "hotplug_read b s = Some s' \<Longrightarrow> lib_step b (R, s) (R, s')"

definition new_context :: "'w \<Rightarrow> 'w libusb" where
  "new_context w = \<lparr>lu_mem = \<lambda>_. None, lu_usb_devs = [], lu_open_devs = [], lu_messages = [], lu_next = 0, lu_world = w\<rparr>"

lemma new_context_ok: "refs_ok {#} (new_context w)"
  unfolding refs_ok_def
  by (rule exI [of _ "\<lambda>_. 0"])
    (auto simp: counted_def new_context_def owners_def holders_def children_def parent_of_def left_messages_def)

lemma map_of_distinct: "h \<in> fst ` set xs \<Longrightarrow> \<exists>d. map_of xs h = Some d"
  by (induction xs) auto

lemma generate_refs:
  assumes "refs_ok R s" "android_generate_device b busnum devaddr s = Some (r, dev, s')"
  shows "refs_ok R s' \<and> lu_open_devs s' = lu_open_devs s"
proof -
  obtain d s0 where "usbi_alloc_device b (session_of busnum devaddr) s = (Some d, s0)"
    using assms(2) by (auto simp: android_generate_device_def split: prod.splits option.splits)
  from generate_ok [OF assms(1) this] assms(2) show ?thesis by auto
qed

lemma lib_step_ok:
  assumes "lib_step b x y" "refs_ok (fst x) (snd x)"
  shows "refs_ok (fst y) (snd y)"
  using assms
proof cases
  case (taken d R s s')
  then have "lu_mem s d \<noteq> None" by (auto simp: libusb_ref_device_def split: Option.bind_splits)
  from ref_ok [OF _ this, of R] taken assms(2) show ?thesis by auto
next
  case (dropped d s s' R)
  with unref_ok [of d R s b] assms(2) show ?thesis by auto
next
  case (listed s len devs s' R)
  with get_device_list_ok [of R s b] assms(2) show ?thesis by auto
next
  case (unlisted s len s' R)
  with get_device_list_ok [of R s b] assms(2) show ?thesis by auto
next
  case (freed devs s s' R)
  with free_device_list_ok [of R devs s b] assms(2) show ?thesis by auto
next
  case (found s vid pid d s' R)
  with find_device_ok [of R s b vid pid] assms(2) show ?thesis by auto
next
  case (not_found s vid pid s' R)
  with find_device_ok [of R s b vid pid] assms(2) show ?thesis by auto
next
  case (opened d R s r h s')
  then have "lu_mem s d \<noteq> None" by (auto simp: libusb_open_def split: Option.bind_splits)
  from open_ok [OF _ this, of R b] opened assms(2) show ?thesis by auto
next
  case (closed h s s' R)
  obtain d where "map_of (lu_open_devs s) h = Some d" using map_of_distinct [OF closed(3)] by blast
  from close_ok [OF _ this, of R b] closed assms(2) show ?thesis by auto
next
  case (attached busnum devaddr s r s' R)
  with enumerate_ok [of R s b busnum devaddr] assms(2) show ?thesis by auto
next
  case (generated busnum devaddr s dev s' R)
  then obtain r dev' where "android_generate_device b busnum devaddr s = Some (r, dev', s')"
    by (auto simp: libusb_get_device_with_fd_def split: Option.bind_splits)
  from generate_refs [OF _ this, of R] generated assms(2) show ?thesis by auto
next
  case (detached s busnum devaddr s' R)
  with disconnected_ok [of R s b busnum devaddr] assms(2) show ?thesis by auto
next
  case (message s s' R)
  with hotplug_read_ok [of R s b] assms(2) show ?thesis by auto
qed

lemma lib_steps_ok:
  assumes "(lib_step b)\<^sup>*\<^sup>* x y" "refs_ok (fst x) (snd x)"
  shows "refs_ok (fst y) (snd y)"
  using assms by (induction rule: rtranclp_induct) (auto intro: lib_step_ok)

text \<open>What owners keep alive: what they refer to, and the parents of that.\<close>

definition kept :: "nat multiset \<Rightarrow> 'w libusb \<Rightarrow> nat set" where
  "kept R s = {d. \<exists>c. c \<in># R + holders s \<and> (c, d) \<in> {(c, p). parent_of (lu_mem s) c = Some p}\<^sup>*}"

lemma alive_kept:
  assumes "refs_ok R s"
  shows "lu_mem s d \<noteq> None \<longleftrightarrow> d \<in> kept R s"
proof
  obtain rank where c: "counted rank {} R s" using assms by (auto simp: refs_ok_def)
  note I = countedD [OF c]
  let ?P = "{(c, p). parent_of (lu_mem s) c = Some p}"
  have fin: "finite (rank ` dom (lu_mem s))" using I(1) by simp
  show "d \<in> kept R s" if "lu_mem s d \<noteq> None"
    using that
  proof (induction "Max (rank ` dom (lu_mem s)) - rank d" arbitrary: d rule: less_induct)
    case less
    then obtain x where x: "lu_mem s d = Some x" by blast
    show ?case
    proof (cases "d \<in># R + holders s")
      case True
      then show ?thesis by (auto simp: kept_def)
    next
      case False
      then have "count (R + holders s) d = 0" by (simp only: not_in_iff)
      then have "0 < children {} (lu_mem s) d"
        using I(7) [OF x] by (simp add: owners_def)
      then obtain e where e: "parent_of (lu_mem s) e = Some d"
        unfolding children_def by (metis (mono_tags, lifting) Collect_empty_eq card.empty less_irrefl)
      then have m: "lu_mem s e \<noteq> None" by (auto simp: parent_of_def split: Option.bind_splits)
      then have "rank e \<le> Max (rank ` dom (lu_mem s))" using fin by (intro Max_ge) auto
      then have "e \<in> kept R s" using I(2) [OF e] m by (intro less.hyps) auto
      then show ?thesis using e by (auto simp: kept_def intro: rtrancl_into_rtrancl)
    qed
  qed
  show "lu_mem s d \<noteq> None" if "d \<in> kept R s"
  proof -
    have "\<exists>c. c \<in># R + holders s \<and> (c, d) \<in> ?P\<^sup>*" using that by (simp only: kept_def mem_Collect_eq)
    then obtain c0 where 0: "c0 \<in># R + holders s" "(c0, d) \<in> ?P\<^sup>*" by blast
    from 0(2) show ?thesis
    proof (induction rule: rtrancl_induct)
      case base
      have "0 < count (R + holders s) c0" using 0(1) by simp
      from refs_okD [OF assms this] show ?case by blast
    next
      case (step y z)
      then have p: "parent_of (lu_mem s) y = Some z" by simp
      have "{c. c \<notin> {} \<and> parent_of (lu_mem s) c = Some z} \<noteq> {}" using p by blast
      moreover have "finite {c. c \<notin> {} \<and> parent_of (lu_mem s) c = Some z}"
        by (rule finite_children [OF I(1)])
      ultimately have "0 < owners {} R s z" by (simp add: owners_def children_def card_gt_0_iff)
      from counted_live [OF c this] show ?case by blast
    qed
  qed
qed



lemma held_defined:
  assumes "refs_ok R s" "d \<in># R"
  shows "libusb_ref_device d s \<noteq> None \<and> libusb_unref_device b (Some d) s \<noteq> None \<and> libusb_open b d s \<noteq> None"
proof -
  have R: "R = add_mset d (R - {#d#})" using assms(2) by simp
  have "refs_ok (add_mset d (R - {#d#})) s" using assms by simp
  note h = usb_refs.held [OF this] unref_ok [OF this, of b]
  show ?thesis using ref_ok [OF assms(1) h(1)] h(2) open_ok [OF assms(1) h(1), of b] by fastforce
qed

lemma handle_defined:
  assumes "refs_ok R s" "h \<in> fst ` set (lu_open_devs s)"
  shows "libusb_close b (Some h) s \<noteq> None"
proof -
  from map_of_distinct [OF assms(2)] obtain d where "map_of (lu_open_devs s) h = Some d" by blast
  from close_ok [OF assms(1) this, of b] show ?thesis by auto
qed

text \<open>
  No call follows a freed struct. After any such sequence, taking and dropping a held
  reference, opening a held device, closing an open handle, listing and finding devices,
  a device that arrives or leaves and a message of the pipe all return, when the array of
  eight devices suffices or memory does not run out.
\<close>
theorem libusb_defined:
  assumes "(lib_step b)\<^sup>*\<^sup>* ({#}, new_context w) (R, s)" "roomy b (length (lu_usb_devs s)) 8"
  shows "(\<forall>d. d \<in># R \<longrightarrow> libusb_ref_device d s \<noteq> None \<and> libusb_unref_device b (Some d) s \<noteq> None
      \<and> libusb_open b d s \<noteq> None)
    \<and> (\<forall>h \<in> fst ` set (lu_open_devs s). libusb_close b (Some h) s \<noteq> None)
    \<and> libusb_get_device_list b s \<noteq> None \<and> libusb_find_device b vid pid s \<noteq> None
    \<and> android_enumerate_device b busnum devaddr s \<noteq> None
    \<and> android_device_disconnected b busnum devaddr s \<noteq> None \<and> hotplug_read b s \<noteq> None"
proof -
  have ok: "refs_ok R s" using lib_steps_ok [OF assms(1)] new_context_ok [of w] by simp
  have "libusb_get_device_list b s \<noteq> None" using get_device_list_ok [OF ok assms(2)] by auto
  moreover have "libusb_find_device b vid pid s \<noteq> None" using find_device_ok [OF ok assms(2), of vid pid] by auto
  moreover have "android_enumerate_device b busnum devaddr s \<noteq> None" using enumerate_ok [OF ok, of b] by force
  moreover have "android_device_disconnected b busnum devaddr s \<noteq> None" using disconnected_ok [OF ok, of b] by force
  moreover have "hotplug_read b s \<noteq> None" using hotplug_read_ok [OF ok, of b] by auto
  ultimately show ?thesis using held_defined [OF ok] handle_defined [OF ok] by blast
qed

lemma append_all_fails:
  assumes "\<forall>d \<in> set ds. lu_mem s d \<noteq> None" "\<not> fst (bk_malloc b (lu_world s))"
    "length devs \<le> cap" "cap < length devs + length ds"
  shows "\<exists>s'. append_all b ds (devs, cap) s = Some (None, s')"
  using assms
proof (induction ds arbitrary: devs s)
  case (Cons d ds)
  obtain w where w: "malloc b s = (fst (bk_malloc b (lu_world s)), s\<lparr>lu_world := w\<rparr>)" by (rule malloc_cases)
  show ?case
  proof (cases "length devs < cap")
    case False
    then show ?thesis using w Cons.prems(2) by (simp add: discovered_devs_append_def)
  next
    case True
    obtain x where x: "lu_mem s d = Some x" using Cons.prems(1) by auto
    let ?s = "set_dev d (x\<lparr>ld_refcnt := ld_refcnt x + 1\<rparr>) s"
    have "\<exists>s'. append_all b ds (devs @ [d], cap) ?s = Some (None, s')"
      by (rule Cons.IH) (use Cons.prems True in auto)
    then show ?thesis using True x by (simp add: discovered_devs_append_def libusb_ref_device_def)
  qed
qed simp

text \<open>
  Listing more than eight devices when the array cannot grow has no defined result: the
  code notes the error, and then frees the array through the null pointer.
\<close>
theorem list_growth_undefined:
  assumes "\<forall>d \<in> set (lu_usb_devs s). lu_mem s d \<noteq> None" "8 < length (lu_usb_devs s)"
    "bk_malloc b (lu_world s) = (True, w)" "\<not> fst (bk_malloc b w)"
  shows "libusb_get_device_list b s = None"
proof -
  from append_all_fails [of "lu_usb_devs s" "s\<lparr>lu_world := w\<rparr>" b "[]" 8] assms obtain s' where
    "append_all b (lu_usb_devs s) ([], 8) (s\<lparr>lu_world := w\<rparr>) = Some (None, s')" by auto
  then show ?thesis
    using assms(3)
    by (simp add: libusb_get_device_list_def discovered_devs_alloc_def malloc_def discovered_devs_free_def)
qed

section \<open>A context with a camera\<close>

text \<open>The world counts the allocations; those from \<open>n\<close> on fail.\<close>

definition demo_desc :: device_descriptor where
  "demo_desc = \<lparr>dd_idVendor = 0x046d, dd_idProduct = 0x0825, dd_iManufacturer = 1, dd_iProduct = 2,
     dd_iSerialNumber = 3, dd_bNumConfigurations = 1\<rparr>"

definition demo_backend :: "nat \<Rightarrow> nat backend" where
  "demo_backend n = \<lparr>bk_malloc = \<lambda>w. (w < n, w + 1), bk_mutex_init = \<lambda>w. (0, w),
     bk_initialize = \<lambda>d busnum devaddr w. (0, w), bk_cache_descriptor = \<lambda>d w. (0, demo_desc, w),
     bk_parent = \<lambda>d ds w. (0, if ds = [] then None else Some 0, w), bk_open = \<lambda>h d w. (0, w), bk_close = \<lambda>h d w. w,
     bk_drop_transfers = \<lambda>h w. w, bk_destroy_device = \<lambda>d w. w, bk_write = \<lambda>w. (True, w)\<rparr>"

text \<open>A hub and a camera on it are plugged in, listed, and the camera is unplugged again.\<close>

definition demo_plugged :: "nat libusb option" where
  "demo_plugged =
     do { (_, s) \<leftarrow> android_enumerate_device (demo_backend 10) 1 1 (new_context 0);
          (_, s) \<leftarrow> android_enumerate_device (demo_backend 10) 1 2 s;
          Some s }"

definition demo_session :: "(nat list \<times> nat libusb) option" where
  "demo_session =
     do { s \<leftarrow> demo_plugged;
          (_, devs, s) \<leftarrow> libusb_get_device_list (demo_backend 10) s;
          devs \<leftarrow> devs;
          s \<leftarrow> android_device_disconnected (demo_backend 10) 1 2 s;
          Some (devs, s) }"

lemma demo_plugged_result: "map_option lu_usb_devs demo_plugged = Some [1, 0]"
  by code_simp

lemma demo_session_result:
  "map_option (\<lambda>(devs, s). (devs, lu_usb_devs s, map_option ld_refcnt (lu_mem s 0), map_option ld_refcnt (lu_mem s 1))) demo_session
     = Some ([1, 0], [0], Some 3, Some 2)"
  by code_simp

lemma demo_session_steps:
  "\<exists>s. demo_session = Some ([1, 0], s) \<and> (lib_step (demo_backend 10))\<^sup>*\<^sup>* ({#}, new_context 0) ({#1, 0#}, s)
    \<and> lu_usb_devs s = [0] \<and> map_option ld_refcnt (lu_mem s 0) = Some 3"
proof -
  let ?b = "demo_backend 10"
  obtain s2 where s2: "demo_plugged = Some s2" "lu_usb_devs s2 = [1, 0]"
    using demo_plugged_result by (auto simp: map_option_case split: option.splits)
  then obtain r1 s1 r2 where
    1: "android_enumerate_device ?b 1 1 (new_context 0) = Some (r1, s1)"
    and 2: "android_enumerate_device ?b 1 2 s1 = Some (r2, s2)"
    unfolding demo_plugged_def by (auto split: Option.bind_splits)
  obtain s where s: "demo_session = Some ([1, 0], s)" "lu_usb_devs s = [0]" "map_option ld_refcnt (lu_mem s 0) = Some 3"
    using demo_session_result by (auto simp: map_option_case split: option.splits)
  then obtain len s3 where
    3: "libusb_get_device_list ?b s2 = Some (len, Some [1, 0], s3)"
    and 4: "android_device_disconnected ?b 1 2 s3 = Some s"
    unfolding demo_session_def s2 by (auto split: Option.bind_splits)
  have "lib_step ?b ({#}, new_context 0) ({#}, s1)" using 1 by (rule attached)
  moreover have "lib_step ?b ({#}, s1) ({#}, s2)" using 2 by (rule attached)
  moreover have "lib_step ?b ({#}, s2) ({#} + mset [1, 0], s3)"
    by (rule listed [OF _ 3]) (simp add: roomy_def s2)
  moreover have "lib_step ?b ({#1, 0#}, s3) ({#1, 0#}, s)"
    by (rule detached [OF _ 4]) (simp add: demo_backend_def)
  ultimately have "(lib_step ?b)\<^sup>*\<^sup>* ({#}, new_context 0) ({#1, 0#}, s)" by (simp add: rtranclp.rtrancl_into_rtrancl)
  with s show ?thesis by blast
qed


theorem libusb_defined_witness:
  "\<exists>s. map_option snd demo_session = Some s \<and> libusb_open (demo_backend 10) 1 s \<noteq> None
    \<and> libusb_get_device_list (demo_backend 10) s \<noteq> None"
proof -
  obtain s where s: "demo_session = Some ([1, 0], s)" "(lib_step (demo_backend 10))\<^sup>*\<^sup>* ({#}, new_context 0) ({#1, 0#}, s)"
    "lu_usb_devs s = [0]" using demo_session_steps by blast
  have r: "roomy (demo_backend 10) (length (lu_usb_devs s)) 8" by (simp add: roomy_def s(3))
  have "libusb_open (demo_backend 10) 1 s \<noteq> None" "libusb_get_device_list (demo_backend 10) s \<noteq> None"
    using libusb_defined [OF s(2) r] by (meson add_mset_commute union_single_eq_member)+
  then show ?thesis unfolding s(1) by simp
qed

definition nine_devices :: "nat libusb" where
  "nine_devices = (new_context 0)\<lparr>lu_mem := \<lambda>d. if d < 9 then Some (zero_device\<lparr>ld_refcnt := 1\<rparr>) else None, lu_usb_devs := [0..<9]\<rparr>"

theorem list_growth_undefined_witness:
  "libusb_get_device_list (demo_backend 1) nine_devices = None"
  by (rule list_growth_undefined [where w = 1])
    (auto simp: nine_devices_def new_context_def demo_backend_def)

end
