(* ===== verification/Uvc_Device.thy ===== *)
theory Uvc_Device
  imports Uvc_Stream Libusb_Core
begin

text \<open>
  Devices of libuvc (\<^verbatim>\<open>libuvc/src/device.c\<close> and \<^verbatim>\<open>init.c\<close>): finding, opening and closing them,
  their reference counts over those of libusb, the event thread of the context, and the
  status messages of an open device.
\<close>

section \<open>The context\<close>

record uvc_device =
  dv_ref :: int
  dv_usb_dev :: nat

record uvc_handle =
  uh_dev :: nat
  uh_usb_devh :: nat
  uh_devh :: device_handle
  uh_status_xfer :: "nat option"
  uh_status_cb :: bool
  uh_button_cb :: bool
  uh_streams :: "stream_handle list"

text \<open>
  \<open>uc_devs\<close> and \<open>uc_handles\<close> are the structs that are allocated; \<open>uc_thread\<close> says whether an event
  thread runs.
\<close>

record 'w uvc_context =
  uc_usb :: "'w libusb"
  uc_own_usb_ctx :: bool
  uc_devs :: "nat \<Rightarrow> uvc_device option"
  uc_handles :: "nat \<Rightarrow> uvc_handle option"
  uc_open_devices :: "nat list"
  uc_kill_handler_thread :: bool
  uc_thread :: bool
  uc_next :: nat

text \<open>
  What the library stands on: the backend of libusb, the calls on an open handle, transfers,
  the first configuration of a device, its strings, and the descriptor it is opened with.
\<close>

record 'w uvc_lib =
  ul_backend :: "'w backend"
  ul_usb :: "nat \<Rightarrow> 'w usb"
  ul_async :: "'w async"
  ul_config :: "nat \<Rightarrow> 'w \<Rightarrow> usb_config option \<times> 'w"
  ul_string :: "nat \<Rightarrow> u8 \<Rightarrow> 'w \<Rightarrow> (int \<times> u8 list) \<times> 'w"
  ul_set_fd :: "nat \<Rightarrow> int \<Rightarrow> 'w \<Rightarrow> 'w"
  ul_size_bits :: nat

definition usb_call :: "('w \<Rightarrow> 'a \<times> 'w) \<Rightarrow> 'w uvc_context \<Rightarrow> 'a \<times> 'w uvc_context" where
  "usb_call f c = (let (r, w) = f (lu_world (uc_usb c)) in (r, c\<lparr>uc_usb := (uc_usb c)\<lparr>lu_world := w\<rparr>\<rparr>))"

text \<open>An allocation whose result the code uses without a test.\<close>

definition unchecked_malloc :: "'w uvc_lib \<Rightarrow> 'w uvc_context \<Rightarrow> 'w uvc_context option" where
  "unchecked_malloc ul c =
     (let (ok, c) = usb_call (bk_malloc (ul_backend ul)) c in if ok then Some c else None)"

section \<open>Reference counts\<close>

definition uvc_ref_device :: "nat \<Rightarrow> 'w uvc_context \<Rightarrow> 'w uvc_context option" where
  "uvc_ref_device d c =
     do { dev \<leftarrow> uc_devs c d;
          let c = c\<lparr>uc_devs := (uc_devs c)(d \<mapsto> dev\<lparr>dv_ref := dv_ref dev + 1\<rparr>)\<rparr>;
          usb \<leftarrow> libusb_ref_device (dv_usb_dev dev) (uc_usb c);
          Some (c\<lparr>uc_usb := usb\<rparr>) }"

definition uvc_unref_device :: "'w uvc_lib \<Rightarrow> nat \<Rightarrow> 'w uvc_context \<Rightarrow> 'w uvc_context option" where
  "uvc_unref_device ul d c =
     do { dev \<leftarrow> uc_devs c d;
          usb \<leftarrow> libusb_unref_device (ul_backend ul) (Some (dv_usb_dev dev)) (uc_usb c);
          let c = c\<lparr>uc_usb := usb\<rparr>;
          let ref = dv_ref dev - 1;
          if ref = 0 then Some (c\<lparr>uc_devs := (uc_devs c)(d := None)\<rparr>)
          else Some (c\<lparr>uc_devs := (uc_devs c)(d \<mapsto> dev\<lparr>dv_ref := ref\<rparr>)\<rparr>) }"

text \<open>A new device struct, with one reference.\<close>

definition new_uvc_device :: "'w uvc_lib \<Rightarrow> nat \<Rightarrow> 'w uvc_context \<Rightarrow> (nat \<times> 'w uvc_context) option" where
  "new_uvc_device ul usb_dev c =
     do { c \<leftarrow> unchecked_malloc ul c;
          let d = uc_next c;
          let c = c\<lparr>uc_next := d + 1, uc_devs := (uc_devs c)(d \<mapsto> \<lparr>dv_ref = 0, dv_usb_dev = usb_dev\<rparr>)\<rparr>;
          c \<leftarrow> uvc_ref_device d c;
          Some (d, c) }"

section \<open>Finding devices\<close>

text \<open>Imaging Source cameras, and devices with a video streaming interface.\<close>

definition is_uvc_device :: "device_descriptor \<Rightarrow> usb_config \<Rightarrow> bool" where
  "is_uvc_device desc config \<longleftrightarrow>
     0x199e = dd_idVendor desc \<and> 0x8101 = dd_idProduct desc
     \<or> list_ex (list_ex (\<lambda>if_desc. as_bInterfaceClass if_desc = 14 \<and> as_bInterfaceSubClass if_desc = 2)) config"

primrec list_devices ::
  "'w uvc_lib \<Rightarrow> nat list \<Rightarrow> nat list \<Rightarrow> 'w uvc_context \<Rightarrow> (nat list \<times> 'w uvc_context) option" where
  "list_devices ul [] list_internal c = Some (list_internal, c)"
| "list_devices ul (usb_dev # usb_devs) list_internal c =
     (let (config, c) = usb_call (ul_config ul usb_dev) c
      in case config of
           None \<Rightarrow> list_devices ul usb_devs list_internal c
         | Some config \<Rightarrow> do {
             desc \<leftarrow> libusb_get_device_descriptor usb_dev (uc_usb c);
             if is_uvc_device desc config
             then do { (d, c) \<leftarrow> new_uvc_device ul usb_dev c;
                       c \<leftarrow> unchecked_malloc ul c;
                       list_devices ul usb_devs (list_internal @ [d]) c }
             else list_devices ul usb_devs list_internal c })"

definition uvc_get_device_list :: "'w uvc_lib \<Rightarrow> 'w uvc_context \<Rightarrow> (int \<times> nat list option \<times> 'w uvc_context) option" where
  "uvc_get_device_list ul c =
     do { (num_usb_devices, usb_dev_list, usb) \<leftarrow> libusb_get_device_list (ul_backend ul) (uc_usb c);
          let c = c\<lparr>uc_usb := usb\<rparr>;
          if num_usb_devices < 0 then Some (UVC_ERROR_IO, None, c)
          else do {
            c \<leftarrow> unchecked_malloc ul c;
            usb_dev_list \<leftarrow> usb_dev_list;
            (list, c) \<leftarrow> list_devices ul usb_dev_list [] c;
            usb \<leftarrow> libusb_free_device_list (ul_backend ul) usb_dev_list True (uc_usb c);
            Some (UVC_SUCCESS, Some list, c\<lparr>uc_usb := usb\<rparr>) } }"

definition uvc_free_device_list :: "'w uvc_lib \<Rightarrow> nat list \<Rightarrow> bool \<Rightarrow> 'w uvc_context \<Rightarrow> 'w uvc_context option" where
  "uvc_free_device_list ul list unref_devices c =
     (if unref_devices then each (uvc_unref_device ul) list c else Some c)"

record uvc_device_descriptor =
  ud_idVendor :: u16
  ud_idProduct :: u16
  ud_serialNumber :: "u8 list option"
  ud_manufacturer :: "u8 list option"
  ud_product :: "u8 list option"

text \<open>A string that was read, up to its end as a C string.\<close>

definition read_string :: "'w uvc_lib \<Rightarrow> nat \<Rightarrow> u8 \<Rightarrow> 'w uvc_context \<Rightarrow> u8 list option \<times> 'w uvc_context" where
  "read_string ul usb_devh index c =
     (let ((str_bytes, str_buf), c) = usb_call (ul_string ul usb_devh index) c
      in (if str_bytes > 0 then Some (takeWhile (\<lambda>b. b \<noteq> 0) str_buf) else None, c))"

definition uvc_get_device_descriptor ::
  "'w uvc_lib \<Rightarrow> nat \<Rightarrow> 'w uvc_context \<Rightarrow> (int \<times> uvc_device_descriptor \<times> 'w uvc_context) option" where
  "uvc_get_device_descriptor ul d c =
     do { dev \<leftarrow> uc_devs c d;
          usb_desc \<leftarrow> libusb_get_device_descriptor (dv_usb_dev dev) (uc_usb c);
          c \<leftarrow> unchecked_malloc ul c;
          (ret, usb_devh, usb) \<leftarrow> libusb_open (ul_backend ul) (dv_usb_dev dev) (uc_usb c);
          let c = c\<lparr>uc_usb := usb\<rparr>;
          (case usb_devh of
             None \<Rightarrow> Some (0, \<lparr>ud_idVendor = dd_idVendor usb_desc, ud_idProduct = dd_idProduct usb_desc,
               ud_serialNumber = None, ud_manufacturer = None, ud_product = None\<rparr>, c)
           | Some h \<Rightarrow>
               let (serial, c) = read_string ul h (dd_iSerialNumber usb_desc) c;
                   (manufacturer, c) = read_string ul h (dd_iManufacturer usb_desc) c;
                   (product, c) = read_string ul h (dd_iProduct usb_desc) c
               in do { usb \<leftarrow> libusb_close (ul_backend ul) (Some h) (uc_usb c);
                       Some (0, \<lparr>ud_idVendor = dd_idVendor usb_desc, ud_idProduct = dd_idProduct usb_desc,
                         ud_serialNumber = serial, ud_manufacturer = manufacturer, ud_product = product\<rparr>,
                         c\<lparr>uc_usb := usb\<rparr>) }) }"

definition desc_matches :: "int \<Rightarrow> int \<Rightarrow> u8 list option \<Rightarrow> uvc_device_descriptor \<Rightarrow> bool" where
  "desc_matches vid pid sn desc \<longleftrightarrow>
     (vid = 0 \<or> uint (ud_idVendor desc) = vid) \<and> (pid = 0 \<or> uint (ud_idProduct desc) = pid)
     \<and> (sn = None \<or> ud_serialNumber desc \<noteq> None \<and> ud_serialNumber desc = sn)"

primrec search_devices ::
  "'w uvc_lib \<Rightarrow> (uvc_device_descriptor \<Rightarrow> bool) \<Rightarrow> nat list \<Rightarrow> 'w uvc_context \<Rightarrow> (nat option \<times> 'w uvc_context) option" where
  "search_devices ul P [] c = Some (None, c)"
| "search_devices ul P (d # ds) c =
     do { (ret, desc, c) \<leftarrow> uvc_get_device_descriptor ul d c;
          if ret \<noteq> UVC_SUCCESS then search_devices ul P ds c
          else if P desc then Some (Some d, c) else search_devices ul P ds c }"

definition uvc_find_device ::
  "'w uvc_lib \<Rightarrow> int \<Rightarrow> int \<Rightarrow> u8 list option \<Rightarrow> 'w uvc_context \<Rightarrow> (int \<times> nat option \<times> 'w uvc_context) option" where
  "uvc_find_device ul vid pid sn c =
     do { (ret, list, c) \<leftarrow> uvc_get_device_list ul c;
          if ret \<noteq> UVC_SUCCESS then Some (ret, None, c)
          else do {
            list \<leftarrow> list;
            (test_dev, c) \<leftarrow> search_devices ul (desc_matches vid pid sn) list c;
            c \<leftarrow> (case test_dev of None \<Rightarrow> Some c | Some d \<Rightarrow> uvc_ref_device d c);
            c \<leftarrow> uvc_free_device_list ul list True c;
            Some (if test_dev = None then UVC_ERROR_NO_DEVICE else UVC_SUCCESS, test_dev, c) } }"

definition uvc_find_device2 ::
  "'w uvc_lib \<Rightarrow> int \<Rightarrow> int \<Rightarrow> int \<Rightarrow> 'w uvc_context \<Rightarrow> (int \<times> nat option \<times> 'w uvc_context) option" where
  "uvc_find_device2 ul vid pid fd c =
     do { (usb_dev, usb) \<leftarrow> libusb_find_device (ul_backend ul) vid pid (uc_usb c);
          let c = c\<lparr>uc_usb := usb\<rparr>;
          (case usb_dev of
             None \<Rightarrow> Some (UVC_ERROR_NO_DEVICE, None, c)
           | Some u \<Rightarrow> do {
               let c = c\<lparr>uc_usb := (uc_usb c)\<lparr>lu_world := ul_set_fd ul u fd (lu_world (uc_usb c))\<rparr>\<rparr>;
               (d, c) \<leftarrow> new_uvc_device ul u c;
               Some (UVC_SUCCESS, Some d, c) }) }"

definition uvc_get_device_with_fd ::
  "'w uvc_lib \<Rightarrow> u8 \<Rightarrow> u8 \<Rightarrow> 'w uvc_context \<Rightarrow> (int \<times> nat option \<times> 'w uvc_context) option" where
  "uvc_get_device_with_fd ul busnum devaddr c =
     do { (usb_dev, usb) \<leftarrow> libusb_get_device_with_fd (ul_backend ul) busnum devaddr (uc_usb c);
          let c = c\<lparr>uc_usb := usb\<rparr>;
          (case usb_dev of
             None \<Rightarrow> Some (UVC_ERROR_NO_DEVICE, None, c)
           | Some u \<Rightarrow> do { (d, c) \<leftarrow> new_uvc_device ul u c; Some (UVC_SUCCESS, Some d, c) }) }"

definition uvc_get_bus_number :: "nat \<Rightarrow> 'w uvc_context \<Rightarrow> u8 option" where
  "uvc_get_bus_number d c =
     do { dev \<leftarrow> uc_devs c d; usb \<leftarrow> lu_mem (uc_usb c) (dv_usb_dev dev); Some (ld_bus_number usb) }"

definition uvc_get_device_address :: "nat \<Rightarrow> 'w uvc_context \<Rightarrow> u8 option" where
  "uvc_get_device_address d c =
     do { dev \<leftarrow> uc_devs c d; usb \<leftarrow> lu_mem (uc_usb c) (dv_usb_dev dev); Some (ld_device_address usb) }"

definition uvc_get_device :: "nat \<Rightarrow> 'w uvc_context \<Rightarrow> (nat \<times> 'w uvc_context) option" where
  "uvc_get_device devh c =
     do { h \<leftarrow> uc_handles c devh; c \<leftarrow> uvc_ref_device (uh_dev h) c; Some (uh_dev h, c) }"

section \<open>The context\<close>

text \<open>The result of \<^verbatim>\<open>libusb_init\<close>, when the context is the library's own, is an argument.\<close>

definition uvc_init2 :: "'w libusb option \<Rightarrow> int \<times> 'w libusb \<Rightarrow> int \<times> 'w uvc_context option" where
  "uvc_init2 usb_ctx init =
     (let ctx = (\<lambda>usb own. \<lparr>uc_usb = usb, uc_own_usb_ctx = own, uc_devs = \<lambda>_. None, uc_handles = \<lambda>_. None,
                  uc_open_devices = [], uc_kill_handler_thread = False, uc_thread = False, uc_next = 0\<rparr>)
      in case usb_ctx of
           Some usb \<Rightarrow> (UVC_SUCCESS, Some (ctx usb False))
         | None \<Rightarrow> let (ret, usb) = init
             in if ret \<noteq> UVC_SUCCESS then (ret, None) else (ret, Some (ctx usb True)))"

text \<open>A new event thread runs until it sees the flag.\<close>

definition uvc_start_handler_thread :: "'w uvc_context \<Rightarrow> 'w uvc_context" where
  "uvc_start_handler_thread c =
     (if uc_own_usb_ctx c then c\<lparr>uc_thread := \<not> uc_kill_handler_thread c\<rparr> else c)"

definition uvc_num_devices :: "'w uvc_context \<Rightarrow> nat" where
  "uvc_num_devices c = length (uc_open_devices c)"

primrec already_open :: "nat list \<Rightarrow> nat \<Rightarrow> 'w uvc_context \<Rightarrow> bool option" where
  "already_open [] usb_dev c = Some False"
| "already_open (h # hs) usb_dev c =
     do { devh \<leftarrow> uc_handles c h;
          dev \<leftarrow> uc_devs c (uh_dev devh);
          if usb_dev = dv_usb_dev dev then Some True else already_open hs usb_dev c }"

definition uvc_already_open :: "nat \<Rightarrow> 'w uvc_context \<Rightarrow> bool option" where
  "uvc_already_open usb_dev c = already_open (uc_open_devices c) usb_dev c"

section \<open>Opening and closing\<close>

text \<open>
  The description of a device. The look at the vendor that the scan takes at a
  vendor-specific interface is given the numbers of the device descriptor; that it opens and
  closes the device for this is left out.
\<close>

definition uvc_get_device_info ::
  "'w uvc_lib \<Rightarrow> nat \<Rightarrow> 'w uvc_context \<Rightarrow> (int \<times> uvc_device_info option \<times> 'w uvc_context) option" where
  "uvc_get_device_info ul usb_dev c =
     (let (ok, c) = usb_call (bk_malloc (ul_backend ul)) c
      in if \<not> ok then Some (UVC_ERROR_NO_MEM, None, c)
      else let (config, c) = usb_call (ul_config ul usb_dev) c
      in case config of
           None \<Rightarrow> Some (UVC_ERROR_IO, None, c)
         | Some cfg \<Rightarrow> do {
             desc \<leftarrow> libusb_get_device_descriptor usb_dev (uc_usb c);
             (ret, info) \<leftarrow> uvc_scan_control (ul_size_bits ul) (Some (dd_idVendor desc, dd_idProduct desc))
               \<lparr>di_config = Some cfg, ctrl_if = zero_ctrl_if, stream_ifs = []\<rparr>;
             if ret \<noteq> UVC_SUCCESS then Some (ret, None, c) else Some (ret, Some info, c) })"

text \<open>Both error exits; the control interface is released at the first only.\<close>

definition open_fail2 :: "'w uvc_lib \<Rightarrow> nat \<Rightarrow> nat \<Rightarrow> int \<Rightarrow> 'w uvc_context \<Rightarrow> (int \<times> nat option \<times> 'w uvc_context) option" where
  "open_fail2 ul d usb_devh ret c =
     do { usb \<leftarrow> libusb_close (ul_backend ul) (Some usb_devh) (uc_usb c);
          c \<leftarrow> uvc_unref_device ul d (c\<lparr>uc_usb := usb\<rparr>);
          Some (ret, None, c) }"

definition open_fail ::
  "'w uvc_lib \<Rightarrow> nat \<Rightarrow> nat \<Rightarrow> device_handle \<Rightarrow> int \<Rightarrow> 'w uvc_context \<Rightarrow> (int \<times> nat option \<times> 'w uvc_context) option" where
  "open_fail ul d usb_devh devh ret c =
     (let (_, c) = usb_call (uvc_release_if (ul_usb ul usb_devh) devh (ci_bInterfaceNumber (ctrl_if (dh_info devh)))) c
      in open_fail2 ul d usb_devh ret c)"

text \<open>The interrupt transfer that waits for status messages.\<close>

definition start_status ::
  "'w uvc_lib \<Rightarrow> device_handle \<Rightarrow> 'w uvc_context \<Rightarrow> int \<times> nat option \<times> 'w uvc_context" where
  "start_status ul devh c =
     (if ci_bEndpointAddress (ctrl_if (dh_info devh)) = 0 then (UVC_SUCCESS, None, c)
      else let (xfer, c) = usb_call (as_alloc_transfer (ul_async ul) 0) c
      in case xfer of
           None \<Rightarrow> (UVC_ERROR_NO_MEM, None, c)
         | Some t \<Rightarrow> let (ret, c) = usb_call (as_submit (ul_async ul) t) c in (ret, Some t, c))"

definition open_done :: "nat \<Rightarrow> nat \<Rightarrow> device_handle \<Rightarrow> nat option \<Rightarrow> 'w uvc_context \<Rightarrow> int \<times> nat option \<times> 'w uvc_context" where
  "open_done d usb_devh devh xfer c =
     (let c = (if uc_own_usb_ctx c \<and> uc_open_devices c = [] then uvc_start_handler_thread c else c);
          h = uc_next c
      in (UVC_SUCCESS, Some h,
          c\<lparr>uc_next := h + 1,
            uc_handles := (uc_handles c)(h \<mapsto> \<lparr>uh_dev = d, uh_usb_devh = usb_devh, uh_devh = devh,
              uh_status_xfer = xfer, uh_status_cb = False, uh_button_cb = False, uh_streams = []\<rparr>),
            uc_open_devices := uc_open_devices c @ [h]\<rparr>))"

definition open_claimed ::
  "'w uvc_lib \<Rightarrow> nat \<Rightarrow> nat \<Rightarrow> nat \<Rightarrow> uvc_device_info \<Rightarrow> 'w uvc_context \<Rightarrow> (int \<times> nat option \<times> 'w uvc_context) option" where
  "open_claimed ul d usb_dev usb_devh info c =
     do { let devh = \<lparr>dh_info = info, dh_is_isight = False, dh_reset_on_release_if = False\<rparr>;
          let (ret, c) = usb_call (uvc_claim_if (ul_usb ul usb_devh) (ci_bInterfaceNumber (ctrl_if info))) c;
          if ret \<noteq> UVC_SUCCESS then open_fail ul d usb_devh devh ret c
          else do {
            desc \<leftarrow> libusb_get_device_descriptor usb_dev (uc_usb c);
            let devh = devh\<lparr>dh_is_isight := (dd_idVendor desc = 0x05ac \<and> dd_idProduct desc = 0x8501)\<rparr>;
            let (ret, xfer, c) = start_status ul devh c;
            if ret \<noteq> UVC_SUCCESS then open_fail ul d usb_devh devh ret c
            else Some (open_done d usb_devh devh xfer c) } }"

definition uvc_open :: "'w uvc_lib \<Rightarrow> nat \<Rightarrow> 'w uvc_context \<Rightarrow> (int \<times> nat option \<times> 'w uvc_context) option" where
  "uvc_open ul d c =
     do { dev \<leftarrow> uc_devs c d;
          (ret, usb_devh, usb) \<leftarrow> libusb_open (ul_backend ul) (dv_usb_dev dev) (uc_usb c);
          let c = c\<lparr>uc_usb := usb\<rparr>;
          if ret \<noteq> UVC_SUCCESS then Some (ret, None, c)
          else do {
            usb_devh \<leftarrow> usb_devh;
            c \<leftarrow> uvc_ref_device d c;
            c \<leftarrow> unchecked_malloc ul c;
            (ret, info, c) \<leftarrow> uvc_get_device_info ul (dv_usb_dev dev) c;
            (case info of
               None \<Rightarrow> open_fail2 ul d usb_devh ret c
             | Some info \<Rightarrow> open_claimed ul d (dv_usb_dev dev) usb_devh info c) } }"

text \<open>\<open>run s\<close> are the callbacks that the stop of the stream \<open>s\<close> sees.\<close>

definition close_streams ::
  "'w uvc_lib \<Rightarrow> (stream_handle \<Rightarrow> (nat \<times> finished) list) \<Rightarrow> uvc_handle \<Rightarrow> 'w uvc_context \<Rightarrow> 'w uvc_context option" where
  "close_streams ul run h c =
     (if uh_streams h = [] then Some c
      else do {
        (_, w) \<leftarrow> uvc_stop_streaming (ul_usb ul (uh_usb_devh h)) (ul_async ul) (uh_devh h)
          (map (\<lambda>s. (s, run s)) (uh_streams h)) (uh_streams h) (lu_world (uc_usb c));
        Some (c\<lparr>uc_usb := (uc_usb c)\<lparr>lu_world := w\<rparr>\<rparr>) })"

definition uvc_close ::
  "'w uvc_lib \<Rightarrow> (stream_handle \<Rightarrow> (nat \<times> finished) list) \<Rightarrow> nat \<Rightarrow> 'w uvc_context \<Rightarrow> 'w uvc_context option" where
  "uvc_close ul run devh c =
     do { h \<leftarrow> uc_handles c devh;
          c \<leftarrow> close_streams ul run h c;
          let (_, c) = usb_call (uvc_release_if (ul_usb ul (uh_usb_devh h)) (uh_devh h)
            (ci_bInterfaceNumber (ctrl_if (dh_info (uh_devh h))))) c;
          let final = (uc_own_usb_ctx c \<and> uc_open_devices c = [devh]);
          let c = (if final then c\<lparr>uc_kill_handler_thread := True\<rparr> else c);
          usb \<leftarrow> libusb_close (ul_backend ul) (Some (uh_usb_devh h)) (uc_usb c);
          let c = c\<lparr>uc_usb := usb\<rparr>;
          let c = (if final then c\<lparr>uc_thread := False\<rparr> else c);
          c \<leftarrow> (if devh \<in> set (uc_open_devices c)
               then Some (c\<lparr>uc_open_devices := remove1 devh (uc_open_devices c)\<rparr>) else None);
          c \<leftarrow> uvc_unref_device ul (uh_dev h) c;
          Some (c\<lparr>uc_handles := (uc_handles c)(devh := None)\<rparr>) }"

text \<open>
  The loop of \<^verbatim>\<open>uvc_exit\<close> over the list: the link to the next handle is read from the one it
  has just closed. \<open>next_of\<close> is the link as the list had it. The result is the context at the end
  of the loop, where it is freed.
\<close>

fun next_of :: "nat \<Rightarrow> nat list \<Rightarrow> nat option" where
  "next_of h (x # y # ys) = (if h = x then Some y else next_of h (y # ys))"
| "next_of h _ = None"

partial_function (option) exit_loop ::
  "'w uvc_lib \<Rightarrow> (stream_handle \<Rightarrow> (nat \<times> finished) list) \<Rightarrow> nat option \<Rightarrow> 'w uvc_context \<Rightarrow> 'w uvc_context option" where
  "exit_loop ul run devh c =
     (case devh of
        None \<Rightarrow> Some c
      | Some h \<Rightarrow> do {
          let opened = uc_open_devices c;
          c \<leftarrow> uvc_close ul run h c;
          _ \<leftarrow> uc_handles c h;
          exit_loop ul run (next_of h opened) c })"

definition uvc_exit ::
  "'w uvc_lib \<Rightarrow> (stream_handle \<Rightarrow> (nat \<times> finished) list) \<Rightarrow> 'w uvc_context \<Rightarrow> 'w uvc_context option" where
  "uvc_exit ul run c =
     exit_loop ul run (case uc_open_devices c of [] \<Rightarrow> None | h # _ \<Rightarrow> Some h) c"

section \<open>Status messages\<close>

datatype status_class = UVC_STATUS_CLASS_CONTROL_CAMERA | UVC_STATUS_CLASS_CONTROL_PROCESSING

text \<open>A call of one of the user's callbacks.\<close>

datatype status_event =
  Status_cb status_class u8 u8 u8 "u8 list"
| Button_cb u8 u8

definition entity_class :: "uvc_control_interface \<Rightarrow> u8 \<Rightarrow> status_class option" where
  "entity_class ci originator =
     (if list_ex (\<lambda>t. it_bTerminalID t = originator) (input_term_descs ci)
      then Some UVC_STATUS_CLASS_CONTROL_CAMERA
      else if list_ex (\<lambda>u. pu_bUnitID u = originator) (processing_unit_descs ci)
      then Some UVC_STATUS_CLASS_CONTROL_PROCESSING
      else None)"

definition uvc_process_control_status :: "uvc_handle \<Rightarrow> u8 list \<Rightarrow> nat \<Rightarrow> status_event list option" where
  "uvc_process_control_status h data len =
     (if len < 5 then Some []
      else do {
        originator \<leftarrow> rd data 1;
        event \<leftarrow> rd data 2;
        selector \<leftarrow> rd data 3;
        if originator = 0 \<or> event \<noteq> 0 then Some []
        else (case entity_class (ctrl_if (dh_info (uh_devh h))) originator of
            None \<Rightarrow> Some []
          | Some status_class \<Rightarrow> do {
              attribute \<leftarrow> rd data 4;
              content \<leftarrow> rd_bytes data 5 (len - 5);
              Some (if uh_status_cb h then [Status_cb status_class event selector attribute content] else []) }) })"

definition uvc_process_streaming_status :: "uvc_handle \<Rightarrow> u8 list \<Rightarrow> nat \<Rightarrow> status_event list option" where
  "uvc_process_streaming_status h data len =
     (if len < 3 then Some []
      else do {
        kind \<leftarrow> rd data 2;
        if kind = 0
        then if len < 4 then Some []
          else do { intf \<leftarrow> rd data 1;
                    state \<leftarrow> rd data 3;
                    Some (if uh_button_cb h then [Button_cb intf state] else []) }
        else Some [] })"

definition uvc_process_status_xfer :: "uvc_handle \<Rightarrow> u8 list \<Rightarrow> nat \<Rightarrow> status_event list option" where
  "uvc_process_status_xfer h buffer actual_length =
     (if actual_length > 0
      then do {
        b \<leftarrow> rd buffer 0;
        if b AND 0x0f = 1 then uvc_process_control_status h buffer actual_length
        else if b AND 0x0f = 2 then uvc_process_streaming_status h buffer actual_length
        else Some [] }
      else Some [])"

text \<open>The callback of the status transfer: what the user is told, and whether it is submitted again.\<close>

definition uvc_status_callback :: "'w uvc_lib \<Rightarrow> uvc_handle \<Rightarrow> finished \<Rightarrow> nat \<Rightarrow> 'w \<Rightarrow> (status_event list \<times> 'w) option" where
  "uvc_status_callback ul h fi t w =
     (if fi_status fi \<in> {TRANSFER_ERROR, TRANSFER_CANCELLED, TRANSFER_NO_DEVICE} then Some ([], w)
      else do {
        events \<leftarrow> (if fi_status fi = TRANSFER_COMPLETED
          then uvc_process_status_xfer h (fi_buffer fi) (fi_actual_length fi) else Some []);
        Some (events, snd (as_submit (ul_async ul) t w)) })"

definition uvc_set_status_callback :: "bool \<Rightarrow> uvc_handle \<Rightarrow> uvc_handle" where
  "uvc_set_status_callback cb h = h\<lparr>uh_status_cb := cb\<rparr>"

definition uvc_set_button_callback :: "bool \<Rightarrow> uvc_handle \<Rightarrow> uvc_handle" where
  "uvc_set_button_callback cb h = h\<lparr>uh_button_cb := cb\<rparr>"

section \<open>What the counts of the devices count\<close>

text \<open>
  \<open>Q\<close> are the references to device structs, of the users and of the open handles; each of them
  holds a reference of libusb. \<open>L\<close> are other references of libusb: of a list that is being
  looked at, or lost ones.
\<close>

definition usb_of :: "'w uvc_context \<Rightarrow> nat \<Rightarrow> nat" where
  "usb_of c d = dv_usb_dev (the (uc_devs c d))"

lemma usb_of_simps [simp]:
  "usb_of (c\<lparr>uc_usb := u\<rparr>) = usb_of c" "usb_of (c\<lparr>uc_next := n\<rparr>) = usb_of c"
  "usb_of (c\<lparr>uc_kill_handler_thread := k\<rparr>) = usb_of c" "usb_of (c\<lparr>uc_thread := t\<rparr>) = usb_of c"
  "usb_of (c\<lparr>uc_handles := h\<rparr>) = usb_of c" "usb_of (c\<lparr>uc_open_devices := ds\<rparr>) = usb_of c"
  by (simp_all add: usb_of_def fun_eq_iff)

definition dev_inv :: "nat multiset \<Rightarrow> nat multiset \<Rightarrow> 'w uvc_context \<Rightarrow> bool" where
  "dev_inv L Q c \<longleftrightarrow>
     refs_ok (image_mset (usb_of c) Q + L) (uc_usb c)
     \<and> (\<forall>d. (case uc_devs c d of None \<Rightarrow> count Q d = 0 | Some x \<Rightarrow> dv_ref x = int (count Q d) \<and> 0 < count Q d))
     \<and> (\<forall>d. uc_devs c d \<noteq> None \<longrightarrow> d < uc_next c)"

text \<open>A context of the same handles, over a libusb that knows the same of the listed devices.\<close>

definition same_devs :: "nat multiset \<Rightarrow> 'w uvc_context \<Rightarrow> 'w uvc_context \<Rightarrow> bool" where
  "same_devs Q c c' \<longleftrightarrow> (\<forall>e. e \<in># Q \<longrightarrow> map_option dv_usb_dev (uc_devs c' e) = map_option dv_usb_dev (uc_devs c e))"

definition uvc_view where
  "uvc_view c = (uc_open_devices c, uc_handles c, uc_kill_handler_thread c, uc_thread c, uc_own_usb_ctx c)"

definition dev_frame :: "nat multiset \<Rightarrow> 'w uvc_context \<Rightarrow> 'w uvc_context \<Rightarrow> bool" where
  "dev_frame Q c c' \<longleftrightarrow> uvc_view c' = uvc_view c \<and> same_devs Q c c' \<and> keeps (uc_usb c) (uc_usb c')
     \<and> lu_open_devs (uc_usb c') = lu_open_devs (uc_usb c) \<and> uc_next c \<le> uc_next c'"

lemma frame_refl [simp]: "dev_frame Q c c"
  by (simp add: dev_frame_def same_devs_def)

lemma frame_trans:
  assumes "dev_frame Q c c1" "dev_frame Q' c1 c2" "Q \<subseteq># Q'"
  shows "dev_frame Q c c2"
proof -
  have "e \<in># Q'" if "e \<in># Q" for e using mset_subset_eqD [OF assms(3) that] .
  then show ?thesis
    using assms(1,2) keeps_trans [of "uc_usb c" "uc_usb c1" "uc_usb c2"] by (simp add: dev_frame_def same_devs_def)
qed

lemma frame_chain: "dev_frame Q c c1 \<Longrightarrow> dev_frame Q c1 c2 \<Longrightarrow> dev_frame Q c c2"
  by (rule frame_trans [OF _ _ subset_mset.order_refl])

lemma usb_call_simps [simp]:
  "usb_call f c = (fst (f (lu_world (uc_usb c))), c\<lparr>uc_usb := (uc_usb c)\<lparr>lu_world := snd (f (lu_world (uc_usb c)))\<rparr>\<rparr>)"
  by (simp add: usb_call_def split: prod.splits)

lemma dev_inv_usb:
  assumes "dev_inv L Q c" "refs_ok (image_mset (usb_of c) Q + L') usb"
  shows "dev_inv L' Q (c\<lparr>uc_usb := usb\<rparr>)"
  using assms by (simp add: dev_inv_def usb_of_def)

lemma dev_inv_world [simp]: "dev_inv L Q (c\<lparr>uc_usb := (uc_usb c)\<lparr>lu_world := w\<rparr>\<rparr>) = dev_inv L Q c"
  by (simp add: dev_inv_def usb_of_def)

lemma frame_world [simp]: "dev_frame Q c (c\<lparr>uc_usb := (uc_usb c)\<lparr>lu_world := w\<rparr>\<rparr>)"
  by (simp add: dev_frame_def same_devs_def uvc_view_def)

lemma frame_usb:
  "keeps (uc_usb c) usb \<Longrightarrow> lu_open_devs usb = lu_open_devs (uc_usb c) \<Longrightarrow> dev_frame Q c (c\<lparr>uc_usb := usb\<rparr>)"
  by (simp add: dev_frame_def same_devs_def uvc_view_def)

lemma dev_invD:
  assumes "dev_inv L Q c"
  shows "refs_ok (image_mset (usb_of c) Q + L) (uc_usb c)"
    "uc_devs c d = None \<Longrightarrow> count Q d = 0"
    "uc_devs c d = Some x \<Longrightarrow> dv_ref x = int (count Q d) \<and> 0 < count Q d"
    "uc_devs c d = Some x \<Longrightarrow> d < uc_next c"
proof -
  have a: "case uc_devs c d of None \<Rightarrow> count Q d = 0 | Some x \<Rightarrow> dv_ref x = int (count Q d) \<and> 0 < count Q d"
    using assms unfolding dev_inv_def by blast
  show "refs_ok (image_mset (usb_of c) Q + L) (uc_usb c)" using assms unfolding dev_inv_def by blast
  show "uc_devs c d = None \<Longrightarrow> count Q d = 0" using a by simp
  show "uc_devs c d = Some x \<Longrightarrow> dv_ref x = int (count Q d) \<and> 0 < count Q d" using a by simp
  show "uc_devs c d = Some x \<Longrightarrow> d < uc_next c" using assms unfolding dev_inv_def by blast
qed

lemma dev_alive: "dev_inv L Q c \<Longrightarrow> d \<in># Q \<Longrightarrow> \<exists>x. uc_devs c d = Some x"
  using dev_invD(2) [of L Q c d] by (cases "uc_devs c d") (auto simp: count_eq_zero_iff)

lemma usb_alive: "dev_inv L Q c \<Longrightarrow> d \<in># Q \<Longrightarrow> lu_mem (uc_usb c) (usb_of c d) \<noteq> None"
  using usb_refs.held [of "usb_of c d" "image_mset (usb_of c) (Q - {#d#}) + L" "uc_usb c"] dev_invD(1) [of L Q c]
  by (metis add_mset_add_single image_mset_add_mset insert_DiffM union_mset_add_mset_left)

lemma ref_dev_ok:
  assumes "dev_inv L Q c" "uc_devs c d \<noteq> None"
  shows "\<exists>c'. uvc_ref_device d c = Some c' \<and> dev_inv L (add_mset d Q) c' \<and> dev_frame Q' c c'
    \<and> uc_next c' = uc_next c \<and> (\<forall>e. map_option dv_usb_dev (uc_devs c' e) = map_option dv_usb_dev (uc_devs c e))"
proof -
  obtain x where x: "uc_devs c d = Some x" using assms(2) by blast
  then have "d \<in># Q" using dev_invD(3) [OF assms(1)] by fastforce
  from usb_refs.take_ok [OF dev_invD(1) [OF assms(1)] usb_alive [OF assms(1) this]] obtain usb where
    u: "libusb_ref_device (usb_of c d) (uc_usb c) = Some usb"
    "refs_ok (add_mset (usb_of c d) (image_mset (usb_of c) Q + L)) usb" "usb_look usb = usb_look (uc_usb c)" by blast
  define c' where "c' = c\<lparr>uc_devs := (uc_devs c)(d \<mapsto> x\<lparr>dv_ref := dv_ref x + 1\<rparr>), uc_usb := usb\<rparr>"
  have "usb_of c' = usb_of c" by (auto simp: c'_def usb_of_def x)
  moreover have "case uc_devs c' e of None \<Rightarrow> count (add_mset d Q) e = 0
      | Some y \<Rightarrow> dv_ref y = int (count (add_mset d Q) e) \<and> 0 < count (add_mset d Q) e" for e
    using dev_invD(2,3) [OF assms(1), of e] x by (auto simp: c'_def split: option.splits)
  moreover have "e < uc_next c'" if "uc_devs c' e \<noteq> None" for e
    using dev_invD(4) [OF assms(1), of e] that x by (auto simp: c'_def split: if_splits)
  moreover have "refs_ok (image_mset (usb_of c) (add_mset d Q) + L) (uc_usb c')"
    using u(2) by (simp add: c'_def)
  ultimately have "dev_inv L (add_mset d Q) c'" by (simp add: dev_inv_def)
  moreover have "uvc_ref_device d c = Some c'"
    using u(1) x by (simp add: uvc_ref_device_def c'_def usb_of_def)
  moreover have "dev_frame Q' c c'"
    using keeps_look [OF u(3)] usb_lookD(3) [OF u(3)] x
    by (auto simp: dev_frame_def c'_def same_devs_def uvc_view_def)
  ultimately show ?thesis using x by (auto simp: c'_def)
qed

lemma unref_dev_ok:
  assumes "dev_inv L (add_mset d Q) c"
  shows "\<exists>c'. uvc_unref_device ul d c = Some c' \<and> dev_inv L Q c' \<and> dev_frame Q c c'"
proof -
  note D = dev_invD [OF assms]
  obtain x where x: "uc_devs c d = Some x" using dev_alive [OF assms, of d] by auto
  have "refs_ok (add_mset (usb_of c d) (image_mset (usb_of c) Q + L)) (uc_usb c)" using D(1) by simp
  from usb_refs.give_ok [OF this, of "ul_backend ul"] obtain usb where
    u: "libusb_unref_device (ul_backend ul) (Some (usb_of c d)) (uc_usb c) = Some usb"
    "refs_ok (image_mset (usb_of c) Q + L) usb" "usb_look usb = usb_look (uc_usb c)" by blast
  have r: "dv_ref x - 1 = int (count Q d)" using D(3) [OF x] by simp
  define c' where "c' = c\<lparr>uc_usb := usb, uc_devs := (uc_devs c)(d :=
      (if count Q d = 0 then None else Some (x\<lparr>dv_ref := dv_ref x - 1\<rparr>)))\<rparr>"
  have s: "map_option dv_usb_dev (uc_devs c' e) = map_option dv_usb_dev (uc_devs c e)" if "e \<in># Q" for e
    using that x by (auto simp: c'_def count_eq_zero_iff)
  then have "usb_of c' e = usb_of c e" if "e \<in># Q" for e
    using that dev_alive [OF assms, of e] by (fastforce simp: usb_of_def)
  then have im: "image_mset (usb_of c') Q = image_mset (usb_of c) Q" by (intro image_mset_cong) simp
  have "dev_inv L Q c'"
    unfolding dev_inv_def im
  proof (intro conjI allI impI)
    show "refs_ok (image_mset (usb_of c) Q + L) (uc_usb c')" using u(2) by (simp add: c'_def)
    show "case uc_devs c' e of None \<Rightarrow> count Q e = 0 | Some x \<Rightarrow> dv_ref x = int (count Q e) \<and> 0 < count Q e" for e
      using D(2,3) [of e] r x by (auto simp: c'_def split: option.splits if_splits)
    show "e < uc_next c'" if "uc_devs c' e \<noteq> None" for e
      using D(4) [of e] that x by (auto simp: c'_def split: if_splits)
  qed
  moreover have "uvc_unref_device ul d c = Some c'"
  proof -
    have "uvc_unref_device ul d c = (if dv_ref x - 1 = 0 then Some (c\<lparr>uc_usb := usb, uc_devs := (uc_devs c)(d := None)\<rparr>)
        else Some (c\<lparr>uc_usb := usb, uc_devs := (uc_devs c)(d \<mapsto> x\<lparr>dv_ref := dv_ref x - 1\<rparr>)\<rparr>))"
      using u(1) x by (simp add: uvc_unref_device_def usb_of_def Let_def)
    then show ?thesis
      unfolding c'_def r by (cases "count Q d = 0") (simp_all only: of_nat_eq_0_iff simp_thms if_True if_False)
  qed
  moreover have "dev_frame Q c c'"
    using keeps_look [OF u(3)] usb_lookD(3) [OF u(3)] s
    by (auto simp: dev_frame_def same_devs_def c'_def uvc_view_def)
  ultimately show ?thesis by blast
qed

text \<open>The references of the open handles are part of those that are counted.\<close>

definition handle_devs :: "'w uvc_context \<Rightarrow> nat multiset" where
  "handle_devs c = mset (map (\<lambda>h. uh_dev (the (uc_handles c h))) (uc_open_devices c))"

definition held_inv :: "nat multiset \<Rightarrow> nat multiset \<Rightarrow> 'w uvc_context \<Rightarrow> bool" where
  "held_inv L R c \<longleftrightarrow> dev_inv L (R + handle_devs c) c"

definition uvc_look where
  "uvc_look c = (uvc_view c, lu_usb_devs (uc_usb c), lu_open_devs (uc_usb c),
     map (\<lambda>e. map_option static (lu_mem (uc_usb c) e)) (lu_usb_devs (uc_usb c)),
     map (\<lambda>h. map_option dv_usb_dev (uc_devs c (uh_dev (the (uc_handles c h))))) (uc_open_devices c))"

lemma frame_handle_devs: "dev_frame Q c c' \<Longrightarrow> handle_devs c' = handle_devs c"
  by (simp add: dev_frame_def uvc_view_def handle_devs_def)

lemma frame_look:
  assumes "dev_frame Q c c'" "handle_devs c \<subseteq># Q"
  shows "uvc_look c' = uvc_look c"
proof -
  have v: "uvc_view c' = uvc_view c" "uc_open_devices c' = uc_open_devices c" "uc_handles c' = uc_handles c"
    using assms(1) by (simp_all add: dev_frame_def uvc_view_def)
  have "uh_dev (the (uc_handles c h)) \<in># Q" if "h \<in> set (uc_open_devices c)" for h
    using mset_subset_eqD [OF assms(2)] that by (simp add: handle_devs_def)
  then show ?thesis
    using assms(1) unfolding uvc_look_def v by (simp add: dev_frame_def same_devs_def keeps_def v)
qed

interpretation uvc_refs: ref_counter uvc_ref_device "uvc_unref_device ul" "held_inv L"
  "\<lambda>d c. uc_devs c d \<noteq> None" uvc_look for ul L
proof
  fix R :: "nat multiset" and c :: "'a uvc_context" and d
  show "\<exists>c'. uvc_ref_device d c = Some c' \<and> held_inv L (add_mset d R) c' \<and> uvc_look c' = uvc_look c
      \<and> (\<forall>e. (uc_devs c' e \<noteq> None) = (uc_devs c e \<noteq> None))" if "held_inv L R c" "uc_devs c d \<noteq> None"
  proof -
    from ref_dev_ok [OF that(1) [unfolded held_inv_def] that(2), of "R + handle_devs c"] obtain c' where
      c': "uvc_ref_device d c = Some c'" "dev_inv L (add_mset d (R + handle_devs c)) c'"
      "dev_frame (R + handle_devs c) c c'"
      "\<forall>e. map_option dv_usb_dev (uc_devs c' e) = map_option dv_usb_dev (uc_devs c e)" by blast
    have "held_inv L (add_mset d R) c'" using c'(2) frame_handle_devs [OF c'(3)] by (simp add: held_inv_def)
    moreover have "(uc_devs c' e \<noteq> None) = (uc_devs c e \<noteq> None)" for e
      using c'(4) [rule_format, of e] by (metis option.map_disc_iff)
    ultimately show ?thesis using c'(1) frame_look [OF c'(3)] by auto
  qed
  show "\<exists>c'. uvc_unref_device ul d c = Some c' \<and> held_inv L R c' \<and> uvc_look c' = uvc_look c"
    if "held_inv L (add_mset d R) c"
  proof -
    have "dev_inv L (add_mset d (R + handle_devs c)) c" using that by (simp add: held_inv_def)
    from unref_dev_ok [OF this, of ul] obtain c' where
      c': "uvc_unref_device ul d c = Some c'" "dev_inv L (R + handle_devs c) c'" "dev_frame (R + handle_devs c) c c'"
      by blast
    have "held_inv L R c'" using c'(2) frame_handle_devs [OF c'(3)] by (simp add: held_inv_def)
    then show ?thesis using c'(1) frame_look [OF c'(3)] by auto
  qed
  show "held_inv L (add_mset d R) c \<Longrightarrow> uc_devs c d \<noteq> None"
    using dev_alive [of L "add_mset d R + handle_devs c" c d] by (auto simp: held_inv_def)
qed

section \<open>Finding devices\<close>

lemma unchecked_malloc_ok:
  assumes "ample (ul_backend ul)"
  shows "\<exists>w. unchecked_malloc ul c = Some (c\<lparr>uc_usb := (uc_usb c)\<lparr>lu_world := w\<rparr>\<rparr>)"
  using assms
  by (intro exI [of _ "snd (bk_malloc (ul_backend ul) (lu_world (uc_usb c)))"]) (simp add: unchecked_malloc_def ample_def)

lemma new_device_ok:
  assumes "dev_inv L Q c" "lu_mem (uc_usb c) u \<noteq> None" "ample (ul_backend ul)"
  shows "\<exists>d c'. new_uvc_device ul u c = Some (d, c') \<and> dev_inv L (add_mset d Q) c' \<and> dev_frame Q c c'
    \<and> usb_of c' d = u \<and> d \<notin># Q \<and> uc_devs c' d = Some \<lparr>dv_ref = 1, dv_usb_dev = u\<rparr> \<and> d = uc_next c \<and> uc_next c' = d + 1"
proof -
  obtain w where w: "unchecked_malloc ul c = Some (c\<lparr>uc_usb := (uc_usb c)\<lparr>lu_world := w\<rparr>\<rparr>)"
    using unchecked_malloc_ok [OF assms(3)] by blast
  define d where "d = uc_next c"
  let ?usb = "(uc_usb c)\<lparr>lu_world := w\<rparr>"
  have none: "uc_devs c d = None" using dev_invD(4) [OF assms(1), of d] by (cases "uc_devs c d") (auto simp: d_def)
  then have notin: "d \<notin># Q" using dev_invD(2) [OF assms(1)] by (simp add: count_eq_zero_iff)
  have "refs_ok (image_mset (usb_of c) Q + L) ?usb" "lu_mem ?usb u \<noteq> None"
    using dev_invD(1) [OF assms(1)] assms(2) by simp_all
  from usb_refs.take_ok [OF this] obtain usb where
    u: "libusb_ref_device u ?usb = Some usb" "refs_ok (add_mset u (image_mset (usb_of c) Q + L)) usb"
    "usb_look usb = usb_look (uc_usb c)" by auto
  define c' where "c' = c\<lparr>uc_usb := usb, uc_next := d + 1, uc_devs := (uc_devs c)(d \<mapsto> \<lparr>dv_ref = 1, dv_usb_dev = u\<rparr>)\<rparr>"
  have "new_uvc_device ul u c = Some (d, c')"
    using u(1) by (simp add: new_uvc_device_def w uvc_ref_device_def c'_def d_def Let_def)
  moreover have s: "uc_devs c' e = uc_devs c e" if "e \<noteq> d" for e using that by (simp add: c'_def)
  moreover have "dev_inv L (add_mset d Q) c'"
  proof -
    have "image_mset (usb_of c') Q = image_mset (usb_of c) Q"
    proof (rule image_mset_cong)
      fix e assume "e \<in># Q"
      with notin have "e \<noteq> d" by blast
      with s show "usb_of c' e = usb_of c e" by (simp add: usb_of_def)
    qed
    moreover have "usb_of c' d = u" by (simp add: usb_of_def c'_def)
    ultimately have "refs_ok (image_mset (usb_of c') (add_mset d Q) + L) (uc_usb c')" using u(2) by (simp add: c'_def)
    moreover have "case uc_devs c' e of None \<Rightarrow> count (add_mset d Q) e = 0
        | Some y \<Rightarrow> dv_ref y = int (count (add_mset d Q) e) \<and> 0 < count (add_mset d Q) e" for e
      using dev_invD(2,3) [OF assms(1), of e] none by (auto simp: c'_def split: option.splits)
    moreover have "e < uc_next c'" if "uc_devs c' e \<noteq> None" for e
      using dev_invD(4) [OF assms(1), of e] that by (auto simp: c'_def d_def split: if_splits)
    ultimately show ?thesis by (simp add: dev_inv_def)
  qed
  moreover have "dev_frame Q c c'"
    using keeps_look [OF u(3)] usb_lookD(3) [OF u(3)] notin
    by (auto simp: dev_frame_def same_devs_def c'_def uvc_view_def d_def)
  ultimately show ?thesis using notin by (auto simp: c'_def usb_of_def d_def)
qed

lemma frame_add: "dev_frame (add_mset d Q) c c' \<Longrightarrow> dev_frame Q c c'"
  by (auto simp: dev_frame_def same_devs_def)

lemma frame_sub: "dev_frame Q' c c' \<Longrightarrow> Q \<subseteq># Q' \<Longrightarrow> dev_frame Q c c'"
  by (auto simp: dev_frame_def same_devs_def dest: mset_subset_eqD)

lemma keeps_desc:
  assumes "keeps s s'" "e \<in> set (lu_usb_devs s)"
  shows "libusb_get_device_descriptor e s' = libusb_get_device_descriptor e s"
proof -
  have "map_option static (lu_mem s' e) = map_option static (lu_mem s e)" using assms by (simp add: keeps_def)
  then show ?thesis
    by (cases "lu_mem s' e"; cases "lu_mem s e") (auto simp: libusb_get_device_descriptor_def static_def)
qed

text \<open>What the list of devices is to hold.\<close>

definition picked :: "'w uvc_lib \<Rightarrow> (nat \<Rightarrow> usb_config option) \<Rightarrow> 'w libusb \<Rightarrow> nat \<Rightarrow> bool" where
  "picked ul cfg s u \<longleftrightarrow>
     (case cfg u of None \<Rightarrow> False
      | Some config \<Rightarrow> is_uvc_device (ld_descriptor (the (lu_mem s u))) config)"

definition stable_config :: "'w uvc_lib \<Rightarrow> (nat \<Rightarrow> usb_config option) \<Rightarrow> bool" where
  "stable_config ul cfg \<longleftrightarrow> (\<forall>u w. fst (ul_config ul u w) = cfg u)"

lemma list_devices_ok:
  assumes "dev_inv (L + mset all) Q c" "set us \<subseteq> set all" "ample (ul_backend ul)"
  shows "\<exists>ds c'. list_devices ul us acc c = Some (acc @ ds, c') \<and> dev_inv (L + mset all) (Q + mset ds) c'
    \<and> dev_frame Q c c' \<and> distinct ds \<and> (\<forall>d \<in> set ds. d \<notin># Q \<and> uc_next c \<le> d)
    \<and> (set all \<subseteq> set (lu_usb_devs (uc_usb c)) \<and> stable_config ul cfg
       \<longrightarrow> map (usb_of c') ds = filter (picked ul cfg (uc_usb c)) us)"
  using assms(1,2)
proof (induction us arbitrary: acc Q c)
  case (Cons u us)
  obtain config w where cf: "ul_config ul u (lu_world (uc_usb c)) = (config, w)" by (cases "ul_config ul u (lu_world (uc_usb c))")
  let ?c = "c\<lparr>uc_usb := (uc_usb c)\<lparr>lu_world := w\<rparr>\<rparr>"
  have inv: "dev_inv (L + mset all) Q ?c" using Cons.prems(1) by simp
  have pick: "picked ul cfg (uc_usb ?c) = picked ul cfg (uc_usb c)" by (auto simp: picked_def fun_eq_iff split: option.splits)
  have us: "set us \<subseteq> set all" and u: "u \<in> set all" using Cons.prems(2) by simp_all
  have al: "lu_mem (uc_usb c) u \<noteq> None"
    using usb_refs.held_each [of "image_mset (usb_of c) Q + L" all "uc_usb c" u] dev_invD(1) [OF Cons.prems(1)] u
    by (simp add: add.assoc)
  then obtain x where x: "lu_mem (uc_usb c) u = Some x" by blast
  show ?case
  proof (cases "\<exists>cf. config = Some cf \<and> is_uvc_device (ld_descriptor x) cf")
    case False
    have e: "list_devices ul (u # us) acc c = list_devices ul us acc ?c"
      using False cf x by (auto simp: libusb_get_device_descriptor_def split: option.splits)
    have "\<not> picked ul cfg (uc_usb c) u" if "stable_config ul cfg"
      using that False cf x unfolding stable_config_def picked_def by (metis fst_conv option.case_eq_if option.collapse option.sel)
    then show ?thesis
      using Cons.IH [OF inv us, of acc] unfolding e pick
      by (auto simp: dev_frame_def same_devs_def uvc_view_def keeps_def)
  next
    case True
    then obtain cf' where cf': "config = Some cf'" "is_uvc_device (ld_descriptor x) cf'" by blast
    from new_device_ok [OF inv, of u ul] al assms(3) obtain d c1 where
      1: "new_uvc_device ul u ?c = Some (d, c1)" "dev_inv (L + mset all) (add_mset d Q) c1" "dev_frame Q ?c c1"
      "usb_of c1 d = u" "d \<notin># Q" "d = uc_next c" "uc_next c1 = d + 1" by auto
    obtain w2 where w2: "unchecked_malloc ul c1 = Some (c1\<lparr>uc_usb := (uc_usb c1)\<lparr>lu_world := w2\<rparr>\<rparr>)"
      using unchecked_malloc_ok [OF assms(3)] by blast
    let ?c1 = "c1\<lparr>uc_usb := (uc_usb c1)\<lparr>lu_world := w2\<rparr>\<rparr>"
    have inv1: "dev_inv (L + mset all) (add_mset d Q) ?c1" using 1(2) by simp
    from Cons.IH [OF inv1 us, of "acc @ [d]"] obtain ds c' where
      2: "list_devices ul us (acc @ [d]) ?c1 = Some (acc @ d # ds, c')"
      "dev_inv (L + mset all) (add_mset d Q + mset ds) c'" "dev_frame (add_mset d Q) ?c1 c'" "distinct ds"
      "\<forall>e \<in> set ds. e \<notin># add_mset d Q \<and> uc_next c1 \<le> e"
      "set all \<subseteq> set (lu_usb_devs (uc_usb c1)) \<and> stable_config ul cfg
       \<longrightarrow> map (usb_of c') ds = filter (picked ul cfg (uc_usb ?c1)) us" by auto
    have e: "list_devices ul (u # us) acc c = Some (acc @ d # ds, c')"
      using cf cf' x 1(1) w2 2(1) by (simp add: libusb_get_device_descriptor_def)
    have f1: "dev_frame Q c ?c1"
      using 1(3) by (simp add: dev_frame_def same_devs_def uvc_view_def keeps_def)
    have f: "dev_frame Q c c'" by (rule frame_trans [OF f1 2(3)]) simp
    have ud: "usb_of c' d = u"
    proof -
      have "map_option dv_usb_dev (uc_devs c' d) = map_option dv_usb_dev (uc_devs c1 d)"
        using 2(3) by (simp add: dev_frame_def same_devs_def)
      moreover obtain y where "uc_devs c1 d = Some y" using dev_alive [OF 1(2), of d] by auto
      ultimately show ?thesis using 1(4) by (auto simp: usb_of_def)
    qed
    have filt: "map (usb_of c') (d # ds) = filter (picked ul cfg (uc_usb c)) (u # us)"
      if "set all \<subseteq> set (lu_usb_devs (uc_usb c))" "stable_config ul cfg"
    proof -
      have k: "keeps (uc_usb c) (uc_usb c1)" using 1(3) by (simp add: dev_frame_def keeps_def)
      have "picked ul cfg (uc_usb ?c1) v = picked ul cfg (uc_usb c) v" if "v \<in> set all" for v
      proof -
        have "v \<in> set (lu_usb_devs (uc_usb c))" using that \<open>set all \<subseteq> _\<close> by blast
        then have m: "map_option static (lu_mem (uc_usb c1) v) = map_option static (lu_mem (uc_usb c) v)"
          using k by (simp add: keeps_def)
        have "lu_mem (uc_usb c) v \<noteq> None"
          using usb_refs.held_each [of "image_mset (usb_of c) Q + L" all "uc_usb c" v]
            dev_invD(1) [OF Cons.prems(1)] that by (simp add: add.assoc)
        with m show ?thesis by (auto simp: picked_def static_def split: option.splits)
      qed
      then have "filter (picked ul cfg (uc_usb ?c1)) us = filter (picked ul cfg (uc_usb c)) us"
        using us by (intro filter_cong) auto
      moreover have "set all \<subseteq> set (lu_usb_devs (uc_usb c1))" using k that(1) by (simp add: keeps_def)
      moreover have "picked ul cfg (uc_usb c) u"
        using that(2) cf cf' x unfolding stable_config_def picked_def by (metis fst_conv option.case(2) option.sel)
      ultimately show ?thesis using 2(6) that(2) ud by simp
    qed
    have "dev_inv (L + mset all) (Q + mset (d # ds)) c'" using 2(2) by simp
    moreover have "distinct (d # ds)" using 2(4,5) by auto
    moreover have "\<forall>e \<in> set (d # ds). e \<notin># Q \<and> uc_next c \<le> e" using 2(5) 1(5,6,7) by auto
    ultimately show ?thesis using e f filt by blast
  qed
qed simp

lemma uvc_list_ok:
  assumes "dev_inv L Q c" "ample (ul_backend ul)"
  shows "\<exists>ds c'. uvc_get_device_list ul c = Some (UVC_SUCCESS, Some ds, c') \<and> dev_inv L (Q + mset ds) c'
    \<and> dev_frame Q c c' \<and> distinct ds \<and> (\<forall>d \<in> set ds. d \<notin># Q)
    \<and> (stable_config ul cfg \<longrightarrow> map (usb_of c') ds = filter (picked ul cfg (uc_usb c)) (lu_usb_devs (uc_usb c)))"
proof -
  let ?us = "lu_usb_devs (uc_usb c)"
  from get_device_list_ok [OF dev_invD(1) [OF assms(1)], of "ul_backend ul"] assms(2) obtain usb where
    1: "libusb_get_device_list (ul_backend ul) (uc_usb c) = Some (int (length ?us), Some ?us, usb)"
    "usb_look usb = usb_look (uc_usb c)" "refs_ok (image_mset (usb_of c) Q + L + mset ?us) usb"
    by (auto simp: roomy_def split: option.splits)
  obtain w where w: "unchecked_malloc ul (c\<lparr>uc_usb := usb\<rparr>) = Some (c\<lparr>uc_usb := usb\<rparr>\<lparr>uc_usb := usb\<lparr>lu_world := w\<rparr>\<rparr>)"
    using unchecked_malloc_ok [OF assms(2), of "c\<lparr>uc_usb := usb\<rparr>"] by auto
  define c1 where "c1 = c\<lparr>uc_usb := usb\<lparr>lu_world := w\<rparr>\<rparr>"
  have inv1: "dev_inv (L + mset ?us) Q c1"
    unfolding c1_def by (rule dev_inv_usb [OF assms(1)]) (use 1(3) in \<open>simp add: add.assoc\<close>)
  have k: "keeps (uc_usb c) usb" by (rule keeps_look [OF 1(2)])
  have f1: "dev_frame Q c c1"
    unfolding c1_def by (rule frame_usb) (use k usb_lookD(3) [OF 1(2)] in \<open>simp_all add: keeps_def\<close>)
  have us1: "lu_usb_devs (uc_usb c1) = ?us" using k by (simp add: c1_def keeps_def)
  have pick: "filter (picked ul cfg (uc_usb c1)) ?us = filter (picked ul cfg (uc_usb c)) ?us"
  proof (rule filter_cong [OF refl])
    fix v assume v: "v \<in> set ?us"
    then have "map_option static (lu_mem usb v) = map_option static (lu_mem (uc_usb c) v)" using k by (simp add: keeps_def)
    moreover have "lu_mem (uc_usb c) v \<noteq> None" by (rule listed_alive [OF dev_invD(1) [OF assms(1)] v])
    ultimately show "picked ul cfg (uc_usb c1) v = picked ul cfg (uc_usb c) v"
      by (auto simp: picked_def c1_def static_def split: option.splits)
  qed
  from list_devices_ok [OF inv1 subset_refl assms(2), of "[]" cfg] obtain ds c2 where
    2: "list_devices ul ?us [] c1 = Some (ds, c2)" "dev_inv (L + mset ?us) (Q + mset ds) c2" "dev_frame Q c1 c2"
    "distinct ds" "\<forall>d \<in> set ds. d \<notin># Q" "stable_config ul cfg \<longrightarrow> map (usb_of c2) ds = filter (picked ul cfg (uc_usb c1)) ?us"
    by (auto simp: us1)
  have "refs_ok (image_mset (usb_of c2) (Q + mset ds) + L + mset ?us) (uc_usb c2)"
    using dev_invD(1) [OF 2(2)] by (simp add: add.assoc)
  from usb_refs.give_each [OF this, of "ul_backend ul"] obtain usb3 where
    3: "each (\<lambda>d. libusb_unref_device (ul_backend ul) (Some d)) ?us (uc_usb c2) = Some usb3"
    "refs_ok (image_mset (usb_of c2) (Q + mset ds) + L) usb3" "usb_look usb3 = usb_look (uc_usb c2)" by auto
  have "dev_inv L (Q + mset ds) (c2\<lparr>uc_usb := usb3\<rparr>)" by (rule dev_inv_usb [OF 2(2) 3(2)])
  moreover have "dev_frame Q c2 (c2\<lparr>uc_usb := usb3\<rparr>)"
    by (rule frame_usb [OF keeps_look [OF 3(3)] usb_lookD(3) [OF 3(3)]])
  then have "dev_frame Q c (c2\<lparr>uc_usb := usb3\<rparr>)"
    using frame_chain [OF frame_chain [OF f1 2(3)]] by simp
  moreover have "uvc_get_device_list ul c = Some (UVC_SUCCESS, Some ds, c2\<lparr>uc_usb := usb3\<rparr>)"
    using 1(1) w 2(1) 3(1) by (simp add: uvc_get_device_list_def libusb_free_device_list_def c1_def)
  ultimately show ?thesis using 2(4,5,6) pick by simp
qed

definition ids_of :: "'w uvc_context \<Rightarrow> nat \<Rightarrow> u16 \<times> u16" where
  "ids_of c d = (dd_idVendor (ld_descriptor (the (lu_mem (uc_usb c) (usb_of c d)))),
     dd_idProduct (ld_descriptor (the (lu_mem (uc_usb c) (usb_of c d)))))"

lemma filter_fresh: "h \<notin> fst ` set xs \<Longrightarrow> filter (\<lambda>x. fst x \<noteq> h) xs = xs"
  by (rule filter_True) auto

lemma opened_closed:
  assumes "dev_inv L Q c" "libusb_open b u (uc_usb c) = Some (0, Some h, usb)"
    "refs_ok (image_mset (usb_of c) Q + L) usb" "keeps (uc_usb c) usb"
    "lu_open_devs usb = (h, u) # lu_open_devs (uc_usb c)" "h \<notin> fst ` set (lu_open_devs (uc_usb c))"
  shows "\<exists>usb'. libusb_close b (Some h) (usb\<lparr>lu_world := w\<rparr>) = Some usb' \<and> dev_inv L Q (c\<lparr>uc_usb := usb'\<rparr>)
    \<and> dev_frame Q c (c\<lparr>uc_usb := usb'\<rparr>)"
proof -
  have "refs_ok (image_mset (usb_of c) Q + L) (usb\<lparr>lu_world := w\<rparr>)" "map_of (lu_open_devs (usb\<lparr>lu_world := w\<rparr>)) h = Some u"
    using assms(3,5) by simp_all
  from close_ok [OF this, of b] obtain usb' where
    c: "libusb_close b (Some h) (usb\<lparr>lu_world := w\<rparr>) = Some usb'" "refs_ok (image_mset (usb_of c) Q + L) usb'"
    "keeps (usb\<lparr>lu_world := w\<rparr>) usb'" "lu_open_devs usb' = filter (\<lambda>x. fst x \<noteq> h) (lu_open_devs usb)" by auto
  have "lu_open_devs usb' = lu_open_devs (uc_usb c)" using c(4) assms(5) filter_fresh [OF assms(6)] by simp
  moreover have "keeps (uc_usb c) usb'" using assms(4) c(3) by (simp add: keeps_def)
  ultimately show ?thesis using c(1) dev_inv_usb [OF assms(1) c(2)] frame_usb [of c usb' Q] by blast
qed

lemma read_string_world:
  obtains str w where
    "read_string ul h i (c\<lparr>uc_usb := usb\<lparr>lu_world := w0\<rparr>\<rparr>) = (str, c\<lparr>uc_usb := usb\<lparr>lu_world := w\<rparr>\<rparr>)"
  by (cases "ul_string ul h i w0"; cases "fst (ul_string ul h i w0)") (auto simp: read_string_def)

lemma descriptor_ok:
  assumes "dev_inv L Q c" "d \<in># Q" "ample (ul_backend ul)"
  shows "\<exists>desc c'. uvc_get_device_descriptor ul d c = Some (0, desc, c') \<and> dev_inv L Q c' \<and> dev_frame Q c c'
    \<and> (ud_idVendor desc, ud_idProduct desc) = ids_of c d"
proof -
  obtain x where x: "uc_devs c d = Some x" using dev_alive [OF assms(1,2)] by blast
  obtain y where y: "lu_mem (uc_usb c) (usb_of c d) = Some y" using usb_alive [OF assms(1,2)] by blast
  obtain w where w: "unchecked_malloc ul c = Some (c\<lparr>uc_usb := (uc_usb c)\<lparr>lu_world := w\<rparr>\<rparr>)"
    using unchecked_malloc_ok [OF assms(3)] by blast
  let ?c = "c\<lparr>uc_usb := (uc_usb c)\<lparr>lu_world := w\<rparr>\<rparr>"
  have i: "dev_inv L Q ?c" using assms(1) by simp
  have ro: "refs_ok (image_mset (usb_of c) Q + L) (uc_usb ?c)" using dev_invD(1) [OF assms(1)] by simp
  have "lu_mem (uc_usb ?c) (usb_of c d) \<noteq> None" using y by simp
  from open_ok [OF ro this, of "ul_backend ul"] obtain r h usb where
    o: "libusb_open (ul_backend ul) (usb_of c d) ((uc_usb c)\<lparr>lu_world := w\<rparr>) = Some (r, h, usb)"
    "refs_ok (image_mset (usb_of c) Q + L) usb" "keeps (uc_usb c) usb"
    "case h of None \<Rightarrow> r < 0 \<and> lu_open_devs usb = lu_open_devs (uc_usb c)
       | Some h \<Rightarrow> r = 0 \<and> lu_open_devs usb = (h, usb_of c d) # lu_open_devs (uc_usb c) \<and> h \<notin> fst ` set (lu_open_devs (uc_usb c))"
    by (auto simp: keeps_def cong: option.case_cong)
  have u: "dv_usb_dev x = usb_of c d" using x by (simp add: usb_of_def)
  show ?thesis
  proof (cases h)
    case None
    have "dev_inv L Q (c\<lparr>uc_usb := usb\<rparr>)" by (rule dev_inv_usb [OF assms(1) o(2)])
    moreover have "dev_frame Q c (c\<lparr>uc_usb := usb\<rparr>)" by (rule frame_usb) (use o(3,4) None in simp_all)
    ultimately show ?thesis
      using x y w o(1) None u by (simp add: uvc_get_device_descriptor_def libusb_get_device_descriptor_def ids_of_def)
  next
    case (Some k)
    with o(1,4) have o': "libusb_open (ul_backend ul) (usb_of c d) (uc_usb ?c) = Some (0, Some k, usb)"
      "lu_open_devs usb = (k, usb_of c d) # lu_open_devs (uc_usb ?c)" "k \<notin> fst ` set (lu_open_devs (uc_usb ?c))"
      by simp_all
    have o23: "refs_ok (image_mset (usb_of ?c) Q + L) usb" "keeps (uc_usb ?c) usb" using o(2,3) by (simp_all add: keeps_def)
    have cl: "\<exists>usb'. libusb_close (ul_backend ul) (Some k) (usb\<lparr>lu_world := w'\<rparr>) = Some usb'
        \<and> dev_inv L Q (c\<lparr>uc_usb := usb'\<rparr>) \<and> dev_frame Q c (c\<lparr>uc_usb := usb'\<rparr>)" for w'
      using opened_closed [OF i o'(1) o23 o'(2,3), of w'] by (simp add: dev_frame_def same_devs_def uvc_view_def keeps_def)
    let ?d = "ld_descriptor y"
    have c0: "c\<lparr>uc_usb := usb\<rparr> = c\<lparr>uc_usb := usb\<lparr>lu_world := lu_world usb\<rparr>\<rparr>" by simp
    obtain s1 w1 where 1: "read_string ul k (dd_iSerialNumber ?d) (c\<lparr>uc_usb := usb\<lparr>lu_world := lu_world usb\<rparr>\<rparr>)
        = (s1, c\<lparr>uc_usb := usb\<lparr>lu_world := w1\<rparr>\<rparr>)" by (rule read_string_world)
    obtain s2 w2 where 2: "read_string ul k (dd_iManufacturer ?d) (c\<lparr>uc_usb := usb\<lparr>lu_world := w1\<rparr>\<rparr>) = (s2, c\<lparr>uc_usb := usb\<lparr>lu_world := w2\<rparr>\<rparr>)"
      by (rule read_string_world)
    obtain s3 w3 where 3: "read_string ul k (dd_iProduct ?d) (c\<lparr>uc_usb := usb\<lparr>lu_world := w2\<rparr>\<rparr>) = (s3, c\<lparr>uc_usb := usb\<lparr>lu_world := w3\<rparr>\<rparr>)"
      by (rule read_string_world)
    from cl [of w3] obtain usb' where
      4: "libusb_close (ul_backend ul) (Some k) (usb\<lparr>lu_world := w3\<rparr>) = Some usb'"
      "dev_inv L Q (c\<lparr>uc_usb := usb'\<rparr>)" "dev_frame Q c (c\<lparr>uc_usb := usb'\<rparr>)" by blast
    show ?thesis
      using x y w o(1) Some u 1 2 3 4
      by (simp add: uvc_get_device_descriptor_def libusb_get_device_descriptor_def ids_of_def)
  qed
qed

lemma frame_ids:
  assumes "dev_inv L Q c" "dev_frame Q c c'" "d \<in># Q" "usb_of c d \<in> set (lu_usb_devs (uc_usb c))"
  shows "ids_of c' d = ids_of c d" "usb_of c' d = usb_of c d"
proof -
  have "map_option dv_usb_dev (uc_devs c' d) = map_option dv_usb_dev (uc_devs c d)"
    using assms(2,3) by (simp add: dev_frame_def same_devs_def)
  moreover obtain x where "uc_devs c d = Some x" using dev_alive [OF assms(1,3)] by blast
  ultimately show u: "usb_of c' d = usb_of c d" by (auto simp: usb_of_def)
  have "map_option static (lu_mem (uc_usb c') (usb_of c d)) = map_option static (lu_mem (uc_usb c) (usb_of c d))"
    using assms(2,4) by (simp add: dev_frame_def keeps_def)
  moreover obtain y where "lu_mem (uc_usb c) (usb_of c d) = Some y" using usb_alive [OF assms(1,3)] by blast
  ultimately show "ids_of c' d = ids_of c d" by (auto simp: ids_of_def u static_def)
qed

lemma search_ok:
  assumes "dev_inv L Q c" "set_mset (mset ds) \<subseteq> set_mset Q" "ample (ul_backend ul)"
  shows "\<exists>r c'. search_devices ul P ds c = Some (r, c') \<and> dev_inv L Q c' \<and> dev_frame Q c c'
    \<and> (\<forall>d. r = Some d \<longrightarrow> d \<in> set ds)
    \<and> ((\<forall>desc. P desc = P' (ud_idVendor desc, ud_idProduct desc)) \<and> (\<forall>d \<in> set ds. usb_of c d \<in> set (lu_usb_devs (uc_usb c)))
       \<longrightarrow> r = find (\<lambda>d. P' (ids_of c d)) ds)"
  using assms(1,2)
proof (induction ds arbitrary: c)
  case (Cons d ds)
  have d: "d \<in># Q" and ds: "set_mset (mset ds) \<subseteq> set_mset Q" using Cons.prems(2) by auto
  from descriptor_ok [OF Cons.prems(1) d assms(3)] obtain desc c1 where
    1: "uvc_get_device_descriptor ul d c = Some (0, desc, c1)" "dev_inv L Q c1" "dev_frame Q c c1"
    "(ud_idVendor desc, ud_idProduct desc) = ids_of c d" by blast
  show ?case
  proof (cases "P desc")
    case True
    then show ?thesis using 1 by auto
  next
    case False
    from Cons.IH [OF 1(2) ds] obtain r c' where
      2: "search_devices ul P ds c1 = Some (r, c')" "dev_inv L Q c'" "dev_frame Q c1 c'" "\<forall>d. r = Some d \<longrightarrow> d \<in> set ds"
      "(\<forall>desc. P desc = P' (ud_idVendor desc, ud_idProduct desc)) \<and> (\<forall>d \<in> set ds. usb_of c1 d \<in> set (lu_usb_devs (uc_usb c1)))
       \<longrightarrow> r = find (\<lambda>d. P' (ids_of c1 d)) ds" by blast
    have "r = find (\<lambda>d. P' (ids_of c d)) (d # ds)"
      if P': "\<forall>desc. P desc = P' (ud_idVendor desc, ud_idProduct desc)"
        and li: "\<forall>d \<in> set (d # ds). usb_of c d \<in> set (lu_usb_devs (uc_usb c))"
    proof -
      have e: "ids_of c1 e = ids_of c e \<and> usb_of c1 e = usb_of c e" if "e \<in> set ds" for e
        using frame_ids [OF Cons.prems(1) 1(3), of e] that ds li by auto
      have "lu_usb_devs (uc_usb c1) = lu_usb_devs (uc_usb c)" using 1(3) by (simp add: dev_frame_def keeps_def)
      then have "r = find (\<lambda>d. P' (ids_of c1 d)) ds" using 2(5) P' li e by simp
      moreover have "find (\<lambda>d. P' (ids_of c1 d)) ds = find (\<lambda>d. P' (ids_of c d)) ds"
        by (rule find_cong) (use e in auto)
      moreover have "\<not> P' (ids_of c d)" using False P' 1(4) by metis
      ultimately show ?thesis by simp
    qed
    moreover have "dev_frame Q c c'" by (rule frame_trans [OF 1(3) 2(3)]) simp
    ultimately show ?thesis using 1(1) 2(1,2,4) False by auto
  qed
qed simp

lemma find_filter: "find P (filter Q xs) = find (\<lambda>x. Q x \<and> P x) xs"
  by (induction xs) auto

lemma find_map: "find P (map f xs) = map_option f (find (\<lambda>x. P (f x)) xs)"
  by (induction xs) auto

lemma give_frame:
  assumes "dev_inv L (Q + mset ds) c"
  shows "\<exists>c'. uvc_free_device_list ul ds True c = Some c' \<and> dev_inv L Q c' \<and> dev_frame Q c c'"
  using assms
proof (induction ds arbitrary: c)
  case (Cons d ds)
  have "dev_inv L (add_mset d (Q + mset ds)) c" using Cons.prems by simp
  from unref_dev_ok [OF this, of ul] obtain c1 where
    1: "uvc_unref_device ul d c = Some c1" "dev_inv L (Q + mset ds) c1" "dev_frame (Q + mset ds) c c1" by blast
  from Cons.IH [OF 1(2)] obtain c' where
    2: "uvc_free_device_list ul ds True c1 = Some c'" "dev_inv L Q c'" "dev_frame Q c1 c'" by blast
  have "dev_frame Q c c1" by (rule frame_sub [OF 1(3)]) simp
  then have "dev_frame Q c c'" using frame_trans [OF _ 2(3)] by simp
  then show ?case using 1(1) 2(1,2) by (simp add: uvc_free_device_list_def)
qed (simp add: uvc_free_device_list_def)

text \<open>The first listed device that is a camera and has the numbers asked for.\<close>

definition wanted :: "'w uvc_lib \<Rightarrow> (nat \<Rightarrow> usb_config option) \<Rightarrow> int \<Rightarrow> int \<Rightarrow> 'w libusb \<Rightarrow> nat option" where
  "wanted ul cfg vid pid s =
     find (\<lambda>u. picked ul cfg s u \<and> ids_match vid pid (ld_descriptor (the (lu_mem s u)))) (lu_usb_devs s)"

lemma find_uvc_ok:
  assumes "dev_inv L Q c" "ample (ul_backend ul)"
  shows "\<exists>dev c'. uvc_find_device ul vid pid sn c = Some (if dev = None then UVC_ERROR_NO_DEVICE else UVC_SUCCESS, dev, c')
    \<and> dev_inv L (Q + (case dev of None \<Rightarrow> {#} | Some d \<Rightarrow> {#d#})) c' \<and> dev_frame Q c c'
    \<and> (\<forall>d. dev = Some d \<longrightarrow> d \<notin># Q)
    \<and> (sn = None \<and> stable_config ul cfg \<longrightarrow> map_option (usb_of c') dev = wanted ul cfg vid pid (uc_usb c))"
proof -
  let ?us = "lu_usb_devs (uc_usb c)"
  from uvc_list_ok [OF assms, of cfg] obtain ds c1 where
    1: "uvc_get_device_list ul c = Some (UVC_SUCCESS, Some ds, c1)" "dev_inv L (Q + mset ds) c1" "dev_frame Q c c1"
    "distinct ds" "stable_config ul cfg \<longrightarrow> map (usb_of c1) ds = filter (picked ul cfg (uc_usb c)) ?us"
    and fresh: "\<forall>d \<in> set ds. d \<notin># Q" by blast
  define P' where "P' = (\<lambda>ids. (vid = 0 \<or> uint (fst ids :: u16) = vid) \<and> (pid = 0 \<or> uint (snd ids :: u16) = pid))"
  have "set_mset (mset ds) \<subseteq> set_mset (Q + mset ds)" by simp
  from search_ok [OF 1(2) this assms(2), of "desc_matches vid pid sn" P'] obtain r c2 where
    2: "search_devices ul (desc_matches vid pid sn) ds c1 = Some (r, c2)" "dev_inv L (Q + mset ds) c2"
    "dev_frame (Q + mset ds) c1 c2" "\<forall>d. r = Some d \<longrightarrow> d \<in> set ds"
    "(\<forall>desc. desc_matches vid pid sn desc = P' (ud_idVendor desc, ud_idProduct desc))
       \<and> (\<forall>d \<in> set ds. usb_of c1 d \<in> set (lu_usb_devs (uc_usb c1)))
       \<longrightarrow> r = find (\<lambda>d. P' (ids_of c1 d)) ds" by blast
  have us1: "lu_usb_devs (uc_usb c1) = ?us" using 1(3) by (simp add: dev_frame_def keeps_def)
  have found: "map_option (usb_of c2) r = wanted ul cfg vid pid (uc_usb c)" if "sn = None" "stable_config ul cfg"
  proof -
    have m: "map (usb_of c1) ds = filter (picked ul cfg (uc_usb c)) ?us" using 1(5) that(2) by simp
    then have li: "usb_of c1 d \<in> set ?us" if "d \<in> set ds" for d
      using that by (metis filter_is_subset image_eqI list.set_map subsetD)
    have "r = find (\<lambda>d. P' (ids_of c1 d)) ds"
      using 2(5) that(1) li by (simp add: us1 desc_matches_def P'_def)
    moreover have i: "P' (ids_of c1 d) = ids_match vid pid (ld_descriptor (the (lu_mem (uc_usb c) (usb_of c1 d))))"
      if "d \<in> set ds" for d
    proof -
      have "map_option static (lu_mem (uc_usb c1) (usb_of c1 d)) = map_option static (lu_mem (uc_usb c) (usb_of c1 d))"
        using 1(3) li [OF that] by (simp add: dev_frame_def keeps_def)
      moreover have "lu_mem (uc_usb c) (usb_of c1 d) \<noteq> None"
        by (rule listed_alive [OF dev_invD(1) [OF assms(1)] li [OF that]])
      ultimately show ?thesis by (auto simp: P'_def ids_of_def ids_match_def static_def)
    qed
    ultimately have "r = find (\<lambda>d. ids_match vid pid (ld_descriptor (the (lu_mem (uc_usb c) (usb_of c1 d))))) ds"
      by (simp cong: find_cong)
    moreover have "usb_of c2 d = usb_of c1 d" if "d \<in> set ds" for d
      using frame_ids(2) [OF 1(2) 2(3), of d] that li us1 by simp
    then have "map_option (usb_of c2) r = map_option (usb_of c1) r" using 2(4) by (cases r) auto
    ultimately show ?thesis by (simp add: wanted_def find_filter [symmetric] m [symmetric] find_map)
  qed
  have fr2: "dev_frame Q c1 c2" by (rule frame_sub [OF 2(3)]) simp
  show ?thesis
  proof (cases r)
    case None
    from give_frame [OF 2(2), of ul] obtain c3 where
      3: "uvc_free_device_list ul ds True c2 = Some c3" "dev_inv L Q c3" "dev_frame Q c2 c3" by blast
    have "dev_frame Q c c3"
      using frame_chain [OF frame_chain [OF 1(3) fr2] 3(3)] .
    then show ?thesis using 1(1) 2(1) 3(1,2) None found by (simp add: uvc_find_device_def)
  next
    case (Some d)
    then have d: "d \<in> set ds" using 2(4) by simp
    then have "uc_devs c2 d \<noteq> None" using dev_alive [OF 2(2), of d] by auto
    from ref_dev_ok [OF 2(2) this, of Q] obtain c3 where
      3: "uvc_ref_device d c2 = Some c3" "dev_inv L (add_mset d Q + mset ds) c3" "dev_frame Q c2 c3"
      "map_option dv_usb_dev (uc_devs c3 d) = map_option dv_usb_dev (uc_devs c2 d)" by auto
    from give_frame [OF 3(2), of ul] obtain c4 where
      4: "uvc_free_device_list ul ds True c3 = Some c4" "dev_inv L (add_mset d Q) c4" "dev_frame (add_mset d Q) c3 c4" by blast
    have fr: "dev_frame Q c c4"
      using frame_chain [OF frame_chain [OF frame_chain [OF 1(3) fr2] 3(3)] frame_add [OF 4(3)]] .
    have "map_option dv_usb_dev (uc_devs c4 d) = map_option dv_usb_dev (uc_devs c2 d)"
      using 4(3) 3(4) by (simp add: dev_frame_def same_devs_def)
    moreover obtain x where "uc_devs c4 d = Some x" using dev_alive [OF 4(2), of d] by auto
    moreover have "uc_devs c2 d \<noteq> None" by fact
    ultimately have "usb_of c4 d = usb_of c2 d" by (auto simp: usb_of_def)
    moreover have "d \<notin># Q" using fresh d by blast
    ultimately show ?thesis using 1(1) 2(1) 3(1) 4(1,2) Some found fr by (simp add: uvc_find_device_def)
  qed
qed

section \<open>Opening and closing\<close>

text \<open>Every open handle has an open handle of libusb, its own, on the device of its device.\<close>

definition uvc_ok :: "nat multiset \<Rightarrow> nat multiset \<Rightarrow> 'w uvc_context \<Rightarrow> bool" where
  "uvc_ok L R c \<longleftrightarrow> dev_inv L (R + handle_devs c) c
     \<and> distinct (uc_open_devices c) \<and> (\<forall>h. uc_handles c h \<noteq> None \<longleftrightarrow> h \<in> set (uc_open_devices c))
     \<and> (\<forall>h x. uc_handles c h = Some x \<longrightarrow> h < uc_next c
          \<and> map_of (lu_open_devs (uc_usb c)) (uh_usb_devh x) = Some (usb_of c (uh_dev x)))
     \<and> (\<forall>h h' x x'. uc_handles c h = Some x \<longrightarrow> uc_handles c h' = Some x' \<longrightarrow> uh_usb_devh x = uh_usb_devh x' \<longrightarrow> h = h')"

lemma uvc_okD:
  assumes "uvc_ok L R c"
  shows "dev_inv L (R + handle_devs c) c" "distinct (uc_open_devices c)"
    "uc_handles c h \<noteq> None \<longleftrightarrow> h \<in> set (uc_open_devices c)"
    "uc_handles c h = Some x \<Longrightarrow> h < uc_next c"
    "uc_handles c h = Some x \<Longrightarrow> map_of (lu_open_devs (uc_usb c)) (uh_usb_devh x) = Some (usb_of c (uh_dev x))"
    "uc_handles c h = Some x \<Longrightarrow> uc_handles c h' = Some x' \<Longrightarrow> uh_usb_devh x = uh_usb_devh x' \<Longrightarrow> h = h'"
  using assms unfolding uvc_ok_def by (blast, blast, blast, blast, blast, blast)

lemma handle_dev_held:
  assumes "uvc_ok L R c" "uc_handles c h = Some x"
  shows "uh_dev x \<in># handle_devs c"
proof -
  have "h \<in> set (uc_open_devices c)" using uvc_okD(3) [OF assms(1), of h] assms(2) by simp
  then show ?thesis using assms(2) by (force simp: handle_devs_def)
qed

lemma same_usb:
  assumes "same_devs Q c c'" "d \<in># Q" "dev_inv L Q c"
  shows "usb_of c' d = usb_of c d"
proof -
  have "map_option dv_usb_dev (uc_devs c' d) = map_option dv_usb_dev (uc_devs c d)"
    using assms(1,2) by (simp add: same_devs_def)
  moreover obtain x where "uc_devs c d = Some x" using dev_alive [OF assms(3,2)] by blast
  ultimately show ?thesis by (auto simp: usb_of_def)
qed

lemma same_devs_sub: "same_devs Q c c' \<Longrightarrow> set_mset Q' \<subseteq> set_mset Q \<Longrightarrow> same_devs Q' c c'"
  by (auto simp: same_devs_def)

lemma uvc_ok_frame:
  assumes "uvc_ok L R c" "dev_inv L' (R' + handle_devs c) c'" "dev_frame (handle_devs c) c c'"
  shows "uvc_ok L' R' c'"
proof -
  note I = uvc_okD [OF assms(1)]
  have v: "uc_open_devices c' = uc_open_devices c" "uc_handles c' = uc_handles c"
    "lu_open_devs (uc_usb c') = lu_open_devs (uc_usb c)" "uc_next c \<le> uc_next c'" "same_devs (handle_devs c) c c'"
    using assms(3) by (simp_all add: dev_frame_def uvc_view_def)
  have u: "usb_of c' (uh_dev x) = usb_of c (uh_dev x)" if "uc_handles c h = Some x" for h x
  proof -
    have m: "uh_dev x \<in># handle_devs c" by (rule handle_dev_held [OF assms(1) that])
    then have "map_option dv_usb_dev (uc_devs c' (uh_dev x)) = map_option dv_usb_dev (uc_devs c (uh_dev x))"
      using v(5) by (simp add: same_devs_def)
    moreover obtain y where "uc_devs c (uh_dev x) = Some y" using dev_alive [OF I(1), of "uh_dev x"] m by auto
    ultimately show ?thesis by (auto simp: usb_of_def)
  qed
  have "dev_inv L' (R' + handle_devs c') c'" using assms(2) frame_handle_devs [OF assms(3)] by simp
  moreover have "h < uc_next c' \<and> map_of (lu_open_devs (uc_usb c)) (uh_usb_devh x) = Some (usb_of c' (uh_dev x))"
    if "uc_handles c h = Some x" for h x
    using I(4,5) [OF that] u [OF that] v(4) by simp
  moreover have "h = h'" if "uc_handles c h = Some x" "uc_handles c h' = Some x'" "uh_usb_devh x = uh_usb_devh x'" for h h' x x'
    using I(6) that by blast
  moreover have "(uc_handles c h \<noteq> None) = (h \<in> set (uc_open_devices c))" for h using I(3) .
  ultimately show ?thesis unfolding uvc_ok_def v using I(2) by blast
qed

text \<open>While a device is being opened: it has one more reference and one more handle of libusb.\<close>

definition being_opened :: "nat multiset \<Rightarrow> nat multiset \<Rightarrow> nat \<Rightarrow> nat \<Rightarrow> 'w uvc_context \<Rightarrow> 'w uvc_context \<Rightarrow> bool" where
  "being_opened L Q d k c c1 \<longleftrightarrow> dev_inv L (add_mset d Q) c1 \<and> uvc_view c1 = uvc_view c \<and> same_devs Q c c1
     \<and> keeps (uc_usb c) (uc_usb c1) \<and> uc_next c \<le> uc_next c1 \<and> d \<in># Q
     \<and> lu_open_devs (uc_usb c1) = (k, usb_of c1 d) # lu_open_devs (uc_usb c) \<and> k \<notin> fst ` set (lu_open_devs (uc_usb c))"

lemma being_opened_world [simp]:
  "being_opened L Q d k c (c1\<lparr>uc_usb := (uc_usb c1)\<lparr>lu_world := w\<rparr>\<rparr>) = being_opened L Q d k c c1"
  by (simp add: being_opened_def same_devs_def uvc_view_def keeps_def)

lemma open_fail2_ok:
  assumes "being_opened L Q d k c c1"
  shows "\<exists>c'. open_fail2 ul d k ret c1 = Some (ret, None, c') \<and> dev_inv L Q c' \<and> dev_frame Q c c'"
proof -
  have i: "dev_inv L (add_mset d Q) c1" using assms by (simp add: being_opened_def)
  have "map_of (lu_open_devs (uc_usb c1)) k = Some (usb_of c1 d)" using assms by (simp add: being_opened_def)
  from close_ok [OF dev_invD(1) [OF i] this, of "ul_backend ul"] obtain usb where
    1: "libusb_close (ul_backend ul) (Some k) (uc_usb c1) = Some usb"
    "refs_ok (image_mset (usb_of c1) (add_mset d Q) + L) usb" "keeps (uc_usb c1) usb"
    "lu_open_devs usb = filter (\<lambda>x. fst x \<noteq> k) (lu_open_devs (uc_usb c1))" by blast
  have i2: "dev_inv L (add_mset d Q) (c1\<lparr>uc_usb := usb\<rparr>)" by (rule dev_inv_usb [OF i 1(2)])
  from unref_dev_ok [OF this, of ul] obtain c2 where
    2: "uvc_unref_device ul d (c1\<lparr>uc_usb := usb\<rparr>) = Some c2" "dev_inv L Q c2" "dev_frame Q (c1\<lparr>uc_usb := usb\<rparr>) c2" by blast
  have "lu_open_devs usb = lu_open_devs (uc_usb c)"
    using 1(4) assms filter_fresh [of k "lu_open_devs (uc_usb c)"] by (simp add: being_opened_def)
  then have "dev_frame Q c (c1\<lparr>uc_usb := usb\<rparr>)"
    using assms 1(3) by (auto simp: being_opened_def dev_frame_def uvc_view_def same_devs_def keeps_def)
  from frame_chain [OF this 2(3)] have "dev_frame Q c c2" .
  with 1(1) 2(1,2) show ?thesis by (simp add: open_fail2_def)
qed

lemma open_fail_ok:
  assumes "being_opened L Q d k c c1"
  shows "\<exists>c'. open_fail ul d k devh ret c1 = Some (ret, None, c') \<and> dev_inv L Q c' \<and> dev_frame Q c c'"
  using open_fail2_ok [of L Q d k c] assms by (simp add: open_fail_def)

lemma start_status_world:
  "\<exists>ret xfer w. start_status ul devh c = (ret, xfer, c\<lparr>uc_usb := (uc_usb c)\<lparr>lu_world := w\<rparr>\<rparr>)"
proof (cases "ci_bEndpointAddress (ctrl_if (dh_info devh)) = 0")
  case True
  have "start_status ul devh c = (UVC_SUCCESS, None, c\<lparr>uc_usb := (uc_usb c)\<lparr>lu_world := lu_world (uc_usb c)\<rparr>\<rparr>)"
    using True by (simp add: start_status_def)
  then show ?thesis by blast
next
  case False
  then show ?thesis by (cases "fst (as_alloc_transfer (ul_async ul) 0 (lu_world (uc_usb c)))") (auto simp: start_status_def)
qed

text \<open>What a device that was opened adds to a context.\<close>

definition opened_as :: "nat \<Rightarrow> 'w uvc_context \<Rightarrow> nat \<Rightarrow> 'w uvc_context \<Rightarrow> bool" where
  "opened_as d c h c' \<longleftrightarrow> uc_open_devices c' = uc_open_devices c @ [h] \<and> uc_handles c h = None
     \<and> (\<exists>x. uc_handles c' = (uc_handles c)(h \<mapsto> x) \<and> uh_dev x = d \<and> uh_streams x = [])
     \<and> uc_own_usb_ctx c' = uc_own_usb_ctx c \<and> uc_kill_handler_thread c' = uc_kill_handler_thread c
     \<and> uc_thread c' = (if uc_own_usb_ctx c \<and> uc_open_devices c = [] then \<not> uc_kill_handler_thread c else uc_thread c)"

lemma open_done_ok:
  assumes "uvc_ok L R c" "being_opened L (R + handle_devs c) d k c c1"
  shows "case open_done d k devh xfer c1 of (ret, h, c') \<Rightarrow> ret = UVC_SUCCESS \<and> h = Some (uc_next c1) \<and> uvc_ok L R c'
    \<and> opened_as d c (uc_next c1) c' \<and> uc_devs c' = uc_devs c1 \<and> uc_usb c' = uc_usb c1 \<and> keeps (uc_usb c) (uc_usb c')"
proof -
  let ?Q = "R + handle_devs c"
  let ?h = "uc_next c1"
  note I = uvc_okD [OF assms(1)]
  have o: "dev_inv L (add_mset d ?Q) c1" "uvc_view c1 = uvc_view c" "same_devs ?Q c c1" "uc_next c \<le> ?h"
    "lu_open_devs (uc_usb c1) = (k, usb_of c1 d) # lu_open_devs (uc_usb c)" "k \<notin> fst ` set (lu_open_devs (uc_usb c))"
    "keeps (uc_usb c) (uc_usb c1)"
    using assms(2) by (simp_all add: being_opened_def)
  have v: "uc_open_devices c1 = uc_open_devices c" "uc_handles c1 = uc_handles c" using o(2) by (simp_all add: uvc_view_def)
  define c' where "c' = snd (snd (open_done d k devh xfer c1))"
  have d: "open_done d k devh xfer c1 = (UVC_SUCCESS, Some ?h, c')"
    by (simp add: c'_def open_done_def uvc_start_handler_thread_def Let_def)
  have c': "uc_open_devices c' = uc_open_devices c @ [?h]" "uc_devs c' = uc_devs c1" "uc_usb c' = uc_usb c1"
      "uc_next c' = ?h + 1"
      "uc_handles c' = (uc_handles c)(?h \<mapsto> \<lparr>uh_dev = d, uh_usb_devh = k, uh_devh = devh,
         uh_status_xfer = xfer, uh_status_cb = False, uh_button_cb = False, uh_streams = []\<rparr>)"
      "uc_own_usb_ctx c' = uc_own_usb_ctx c1" "uc_kill_handler_thread c' = uc_kill_handler_thread c1"
      "uc_thread c' = (if uc_own_usb_ctx c1 \<and> uc_open_devices c = [] then \<not> uc_kill_handler_thread c1 else uc_thread c1)"
    by (simp_all add: c'_def open_done_def uvc_start_handler_thread_def Let_def v)
  have new: "uc_handles c ?h = None" using I(4) [of ?h] o(4) by (cases "uc_handles c ?h") fastforce+
  then have notin: "?h \<notin> set (uc_open_devices c)" using I(3) by blast
  have hd: "handle_devs c' = add_mset d (handle_devs c)"
  proof -
    have "map (\<lambda>h. uh_dev (the (uc_handles c' h))) (uc_open_devices c) = map (\<lambda>h. uh_dev (the (uc_handles c h))) (uc_open_devices c)"
      using notin by (auto simp: c')
    then show ?thesis by (simp add: handle_devs_def c'(1) del: map_eq_conv) (simp add: c'(5))
  qed
  have uo: "usb_of c' = usb_of c1" by (simp add: usb_of_def fun_eq_iff c'(2))
  have inv: "dev_inv L (R + handle_devs c') c'"
    using o(1) by (auto simp: dev_inv_def hd uo c' less_SucI)
  have u: "usb_of c1 (uh_dev x) = usb_of c (uh_dev x)" if "uc_handles c h = Some x" for h x
    by (rule same_usb [OF o(3) _ I(1)]) (use handle_dev_held [OF assms(1) that] in simp)
  have kx: "uh_usb_devh x \<noteq> k" if "uc_handles c h = Some x" for h x
    using I(5) [OF that] o(6) by (metis map_of_SomeD fst_conv image_eqI)
  have "uvc_ok L R c'"
    unfolding uvc_ok_def
  proof (intro conjI allI impI)
    show "dev_inv L (R + handle_devs c') c'" by (fact inv)
    show "distinct (uc_open_devices c')" using I(2) notin by (simp add: c')
    show "(uc_handles c' h \<noteq> None) = (h \<in> set (uc_open_devices c'))" for h using I(3) [of h] by (simp add: c')
    show "h < uc_next c'" if "uc_handles c' h = Some x" for h x
      using that I(4) [of h] o(4) by (auto simp: c' split: if_splits)
    show "map_of (lu_open_devs (uc_usb c')) (uh_usb_devh x) = Some (usb_of c' (uh_dev x))" if "uc_handles c' h = Some x" for h x
    proof (cases "h = ?h")
      case True
      then show ?thesis using that o(5) by (auto simp: c' uo)
    next
      case False
      then have h: "uc_handles c h = Some x" using that by (simp add: c')
      then show ?thesis using I(5) [OF h] kx [OF h] u [OF h] o(5) by (simp add: c' uo)
    qed
    show "h = h'" if "uc_handles c' h = Some x" "uc_handles c' h' = Some x'" "uh_usb_devh x = uh_usb_devh x'" for h h' x x'
      using that I(6) [of h x h' x'] kx [of h x] kx [of h' x'] by (auto simp: c' split: if_splits)
  qed
  moreover have "\<exists>x. uc_handles c' = (uc_handles c)(?h \<mapsto> x) \<and> uh_dev x = d \<and> uh_streams x = []"
    by (rule exI [of _ "\<lparr>uh_dev = d, uh_usb_devh = k, uh_devh = devh, uh_status_xfer = xfer,
      uh_status_cb = False, uh_button_cb = False, uh_streams = []\<rparr>"]) (simp add: c')
  then have "opened_as d c ?h c'"
    using new o(2) c'(1,6-8) by (simp add: opened_as_def uvc_view_def)
  ultimately show ?thesis using d c'(2,3) o(7) by simp
qed

lemma frame_devs: "dev_frame Q c c' \<Longrightarrow> uc_open_devices c' = uc_open_devices c \<and> uc_handles c' = uc_handles c"
  by (simp add: dev_frame_def uvc_view_def)

text \<open>The description of a device is defined when the scan of its descriptors is.\<close>

definition scannable :: "'w uvc_lib \<Rightarrow> nat \<Rightarrow> bool" where
  "scannable ul u \<longleftrightarrow> (\<forall>ids w cfg. fst (ul_config ul u w) = Some cfg
     \<longrightarrow> uvc_scan_control (ul_size_bits ul) (Some ids) \<lparr>di_config = Some cfg, ctrl_if = zero_ctrl_if, stream_ifs = []\<rparr> \<noteq> None)"

lemma device_info_world:
  assumes "dev_inv L Q c" "d \<in># Q"
    "scannable ul (usb_of c d) \<or> uvc_get_device_info ul (usb_of c d) c \<noteq> None"
  shows "\<exists>ret info w. uvc_get_device_info ul (usb_of c d) c = Some (ret, info, c\<lparr>uc_usb := (uc_usb c)\<lparr>lu_world := w\<rparr>\<rparr>)
    \<and> (info = None \<longrightarrow> ret \<noteq> UVC_SUCCESS)"
proof -
  obtain y where y: "lu_mem (uc_usb c) (usb_of c d) = Some y" using usb_alive [OF assms(1,2)] by blast
  obtain ok w1 where m: "bk_malloc (ul_backend ul) (lu_world (uc_usb c)) = (ok, w1)" by (metis surj_pair)
  obtain cfg w2 where cf: "ul_config ul (usb_of c d) w1 = (cfg, w2)" by (metis surj_pair)
  show ?thesis
  proof (cases "ok \<and> cfg \<noteq> None")
    case False
    then show ?thesis using m cf by (cases ok) (auto simp: uvc_get_device_info_def)
  next
    case True
    then obtain cf' where c': "cfg = Some cf'" by blast
    have fc: "fst (ul_config ul (usb_of c d) w1) = Some cf'" using cf c' by simp
    have "uvc_scan_control (ul_size_bits ul) (Some (dd_idVendor (ld_descriptor y), dd_idProduct (ld_descriptor y)))
        \<lparr>di_config = Some cf', ctrl_if = zero_ctrl_if, stream_ifs = []\<rparr> \<noteq> None"
      using assms(3)
    proof
      assume "scannable ul (usb_of c d)"
      with fc show ?thesis unfolding scannable_def by blast
    next
      assume "uvc_get_device_info ul (usb_of c d) c \<noteq> None"
      then show ?thesis using m cf c' True y
        by (auto simp: uvc_get_device_info_def libusb_get_device_descriptor_def split: Option.bind_splits)
    qed
    then obtain ret info where "uvc_scan_control (ul_size_bits ul) (Some (dd_idVendor (ld_descriptor y), dd_idProduct (ld_descriptor y)))
        \<lparr>di_config = Some cf', ctrl_if = zero_ctrl_if, stream_ifs = []\<rparr> = Some (ret, info)" by auto
    then show ?thesis using m cf c' True y
      by (auto simp: uvc_get_device_info_def libusb_get_device_descriptor_def)
  qed
qed

lemma open_claimed_ok:
  assumes "uvc_ok L R c" "being_opened L (R + handle_devs c) d k c c1"
  shows "\<exists>ret h c'. open_claimed ul d (usb_of c1 d) k info c1 = Some (ret, h, c') \<and> uvc_ok L R c' \<and> keeps (uc_usb c) (uc_usb c')
    \<and> (case h of None \<Rightarrow> ret \<noteq> UVC_SUCCESS \<and> dev_frame (R + handle_devs c) c c'
       | Some h \<Rightarrow> ret = UVC_SUCCESS \<and> opened_as d c h c')"
proof -
  let ?Q = "R + handle_devs c"
  let ?devh = "\<lparr>dh_info = info, dh_is_isight = False, dh_reset_on_release_if = False\<rparr>"
  have i: "dev_inv L (add_mset d ?Q) c1" using assms(2) by (simp add: being_opened_def)
  obtain y where y: "lu_mem (uc_usb c1) (usb_of c1 d) = Some y" using usb_alive [OF i, of d] by auto
  have fail: "\<exists>c'. open_fail ul d k devh ret (c1\<lparr>uc_usb := (uc_usb c1)\<lparr>lu_world := w\<rparr>\<rparr>) = Some (ret, None, c') \<and> uvc_ok L R c'
      \<and> keeps (uc_usb c) (uc_usb c') \<and> dev_frame ?Q c c'" for devh ret w
  proof -
    have "being_opened L ?Q d k c (c1\<lparr>uc_usb := (uc_usb c1)\<lparr>lu_world := w\<rparr>\<rparr>)" using assms(2) by simp
    from open_fail_ok [OF this, of ul devh ret] obtain c' where
      f: "open_fail ul d k devh ret (c1\<lparr>uc_usb := (uc_usb c1)\<lparr>lu_world := w\<rparr>\<rparr>) = Some (ret, None, c')"
      "dev_inv L ?Q c'" "dev_frame ?Q c c'" by blast
    have "uvc_ok L R c'" by (rule uvc_ok_frame [OF assms(1) f(2)]) (rule frame_sub [OF f(3)], simp)
    then show ?thesis using f by (auto simp: dev_frame_def)
  qed
  obtain ret w where cl: "uvc_claim_if (ul_usb ul k) (ci_bInterfaceNumber (ctrl_if info)) (lu_world (uc_usb c1)) = (ret, w)"
    by (metis surj_pair)
  show ?thesis
  proof (cases "ret = UVC_SUCCESS")
    case False
    from fail [of ?devh ret w] obtain c' where
      "open_fail ul d k ?devh ret (c1\<lparr>uc_usb := (uc_usb c1)\<lparr>lu_world := w\<rparr>\<rparr>) = Some (ret, None, c')" "uvc_ok L R c'"
      "keeps (uc_usb c) (uc_usb c')" "dev_frame ?Q c c'" by blast
    then show ?thesis using False cl by (simp add: open_claimed_def)
  next
    case True
    define devh where "devh = ?devh\<lparr>dh_is_isight := (dd_idVendor (ld_descriptor y) = 0x05ac \<and> dd_idProduct (ld_descriptor y) = 0x8501)\<rparr>"
    obtain ret' xfer w' where st: "start_status ul devh (c1\<lparr>uc_usb := (uc_usb c1)\<lparr>lu_world := w\<rparr>\<rparr>)
        = (ret', xfer, c1\<lparr>uc_usb := (uc_usb c1)\<lparr>lu_world := w'\<rparr>\<rparr>)"
      using start_status_world [of ul devh "c1\<lparr>uc_usb := (uc_usb c1)\<lparr>lu_world := w\<rparr>\<rparr>"] by auto
    let ?c2 = "c1\<lparr>uc_usb := (uc_usb c1)\<lparr>lu_world := w'\<rparr>\<rparr>"
    have e: "open_claimed ul d (usb_of c1 d) k info c1 = (if ret' \<noteq> UVC_SUCCESS then open_fail ul d k devh ret' ?c2
        else Some (open_done d k devh xfer ?c2))"
      using True cl st y by (simp add: open_claimed_def libusb_get_device_descriptor_def devh_def)
    show ?thesis
    proof (cases "ret' = UVC_SUCCESS")
      case False
      from fail [of devh ret' w'] obtain c' where
        "open_fail ul d k devh ret' ?c2 = Some (ret', None, c')" "uvc_ok L R c'"
        "keeps (uc_usb c) (uc_usb c')" "dev_frame ?Q c c'" by blast
      then show ?thesis using False unfolding e by simp
    next
      case ok: True
      have "being_opened L ?Q d k c ?c2" using assms(2) by simp
      from open_done_ok [OF assms(1) this, of devh xfer] show ?thesis unfolding e using ok by (auto split: prod.splits)
    qed
  qed
qed

lemma open_uvc_ok:
  assumes "uvc_ok L R c" "d \<in># R" "ample (ul_backend ul)" "scannable ul (usb_of c d) \<or> uvc_open ul d c \<noteq> None"
  shows "\<exists>ret h c'. uvc_open ul d c = Some (ret, h, c') \<and> uvc_ok L R c'
    \<and> (case h of None \<Rightarrow> ret \<noteq> UVC_SUCCESS \<and> dev_frame (R + handle_devs c) c c'
       | Some h \<Rightarrow> ret = UVC_SUCCESS \<and> opened_as d c h c')"
proof -
  let ?Q = "R + handle_devs c"
  note I = uvc_okD [OF assms(1)]
  have dq: "d \<in># ?Q" using assms(2) by simp
  obtain x where x: "uc_devs c d = Some x" using dev_alive [OF I(1) dq] by blast
  have ux: "dv_usb_dev x = usb_of c d" using x by (simp add: usb_of_def)
  from open_ok [OF dev_invD(1) [OF I(1)] usb_alive [OF I(1) dq], of "ul_backend ul"] obtain r h usb where
    o: "libusb_open (ul_backend ul) (usb_of c d) (uc_usb c) = Some (r, h, usb)"
    "refs_ok (image_mset (usb_of c) ?Q + L) usb" "keeps (uc_usb c) usb"
    "case h of None \<Rightarrow> r < 0 \<and> lu_open_devs usb = lu_open_devs (uc_usb c)
       | Some h \<Rightarrow> r = 0 \<and> lu_open_devs usb = (h, usb_of c d) # lu_open_devs (uc_usb c) \<and> h \<notin> fst ` set (lu_open_devs (uc_usb c))"
    by blast
  have i1: "dev_inv L ?Q (c\<lparr>uc_usb := usb\<rparr>)" by (rule dev_inv_usb [OF I(1) o(2)])
  show ?thesis
  proof (cases h)
    case None
    have f: "dev_frame ?Q c (c\<lparr>uc_usb := usb\<rparr>)" by (rule frame_usb) (use o(3,4) None in simp_all)
    have "uvc_ok L R (c\<lparr>uc_usb := usb\<rparr>)" by (rule uvc_ok_frame [OF assms(1) i1]) (rule frame_sub [OF f], simp)
    then show ?thesis using x ux o(1,4) None f by (simp add: uvc_open_def)
  next
    case (Some k)
    have "uc_devs (c\<lparr>uc_usb := usb\<rparr>) d \<noteq> None" using x by simp
    from ref_dev_ok [OF i1 this, of ?Q] obtain c1 where
      1: "uvc_ref_device d (c\<lparr>uc_usb := usb\<rparr>) = Some c1" "dev_inv L (add_mset d ?Q) c1"
      "dev_frame ?Q (c\<lparr>uc_usb := usb\<rparr>) c1" by blast
    obtain w where w: "unchecked_malloc ul c1 = Some (c1\<lparr>uc_usb := (uc_usb c1)\<lparr>lu_world := w\<rparr>\<rparr>)"
      using unchecked_malloc_ok [OF assms(3)] by blast
    define c2 where "c2 = c1\<lparr>uc_usb := (uc_usb c1)\<lparr>lu_world := w\<rparr>\<rparr>"
    have sd: "same_devs ?Q c c1" using 1(3) by (simp add: dev_frame_def same_devs_def)
    have ud: "usb_of c1 d = usb_of c d" by (rule same_usb [OF sd dq I(1)])
    have k1: "keeps (uc_usb c) (uc_usb c1)" using 1(3) o(3) by (simp add: dev_frame_def keeps_def)
    have op: "being_opened L ?Q d k c c2"
    proof -
      have "being_opened L ?Q d k c c1"
        using 1(2,3) o(4) Some dq ud sd k1 by (simp add: dev_frame_def uvc_view_def being_opened_def)
      then show ?thesis by (simp add: c2_def)
    qed
    have uc2: "usb_of c2 d = usb_of c d" by (simp add: c2_def ud)
    have sc: "scannable ul (usb_of c2 d) \<or> uvc_get_device_info ul (usb_of c2 d) c2 \<noteq> None"
      using assms(4)
    proof
      assume "uvc_open ul d c \<noteq> None"
      then show ?thesis using x ux o(1,4) Some 1(1) w unfolding uc2
        by (cases "uvc_get_device_info ul (usb_of c d) c2") (simp_all add: uvc_open_def c2_def)
    qed (simp add: uc2)
    have i2: "dev_inv L (add_mset d ?Q) c2" using 1(2) by (simp add: c2_def)
    from device_info_world [OF i2 _ sc] obtain ret info w' where
      2: "uvc_get_device_info ul (usb_of c d) c2 = Some (ret, info, c2\<lparr>uc_usb := (uc_usb c2)\<lparr>lu_world := w'\<rparr>\<rparr>)"
      "info = None \<longrightarrow> ret \<noteq> UVC_SUCCESS" by (auto simp: uc2)
    let ?c3 = "c2\<lparr>uc_usb := (uc_usb c2)\<lparr>lu_world := w'\<rparr>\<rparr>"
    have op3: "being_opened L ?Q d k c ?c3" using op by simp
    have e: "uvc_open ul d c = (case info of None \<Rightarrow> open_fail2 ul d k ret ?c3
        | Some info \<Rightarrow> open_claimed ul d (usb_of c d) k info ?c3)"
      using x ux o(1,4) Some 1(1) w 2(1) by (simp add: uvc_open_def c2_def cong: option.case_cong)
    show ?thesis
    proof (cases info)
      case None
      from open_fail2_ok [OF op3, of ul ret] obtain c' where
        f: "open_fail2 ul d k ret ?c3 = Some (ret, None, c')" "dev_inv L ?Q c'" "dev_frame ?Q c c'" by blast
      have "uvc_ok L R c'" by (rule uvc_ok_frame [OF assms(1) f(2)]) (rule frame_sub [OF f(3)], simp)
      then show ?thesis unfolding e using None f 2(2) by simp
    next
      case (Some inf)
      have "usb_of ?c3 d = usb_of c d" using uc2 by simp
      with open_claimed_ok [OF assms(1) op3, of ul inf] show ?thesis unfolding e Some by auto
    qed
  qed
qed

lemma map_of_other: "k' \<noteq> k \<Longrightarrow> map_of (filter (\<lambda>x. fst x \<noteq> k) xs) k' = map_of xs k'"
  by (induction xs) auto

lemma handle_devs_remove:
  assumes "uvc_ok L R c" "uc_handles c h = Some x"
  shows "handle_devs c = add_mset (uh_dev x) (mset (map (\<lambda>h. uh_dev (the (uc_handles c h))) (remove1 h (uc_open_devices c))))"
proof -
  have "h \<in> set (uc_open_devices c)" using uvc_okD(3) [OF assms(1), of h] assms(2) by simp
  then have "mset (uc_open_devices c) = add_mset h (mset (remove1 h (uc_open_devices c)))" by simp
  then show ?thesis
    using assms(2) unfolding handle_devs_def mset_map by (simp only: image_mset_add_mset option.sel)
qed

text \<open>The end of \<open>uvc_close\<close>: a state \<open>c3\<close> in which the handles of libusb and of libuvc are closed.\<close>

lemma closed_ok:
  assumes "uvc_ok L R c" "uc_handles c h = Some x"
    and "refs_ok (image_mset (usb_of c) (R + handle_devs c) + L) (uc_usb c3)"
      "lu_open_devs (uc_usb c3) = filter (\<lambda>y. fst y \<noteq> uh_usb_devh x) (lu_open_devs (uc_usb c))"
    and "uc_devs c3 = uc_devs c" "uc_handles c3 = uc_handles c" "uc_next c3 = uc_next c"
      "uc_open_devices c3 = remove1 h (uc_open_devices c)"
  shows "\<exists>c4. uvc_unref_device ul (uh_dev x) c3 = Some c4
    \<and> uvc_ok L R (c4\<lparr>uc_handles := (uc_handles c4)(h := None)\<rparr>)
    \<and> uc_handles c4 = uc_handles c \<and> uc_open_devices c4 = remove1 h (uc_open_devices c)
    \<and> uc_kill_handler_thread c4 = uc_kill_handler_thread c3 \<and> uc_thread c4 = uc_thread c3 \<and> uc_own_usb_ctx c4 = uc_own_usb_ctx c3"
proof -
  note I = uvc_okD [OF assms(1)]
  let ?rest = "mset (map (\<lambda>h. uh_dev (the (uc_handles c h))) (remove1 h (uc_open_devices c)))"
  have hd: "R + handle_devs c = add_mset (uh_dev x) (R + ?rest)" using handle_devs_remove [OF assms(1,2)] by simp
  have uo: "usb_of c3 = usb_of c" by (simp add: usb_of_def fun_eq_iff assms(5))
  have "dev_inv L (add_mset (uh_dev x) (R + ?rest)) c3"
    using I(1) assms(3,5,7) unfolding dev_inv_def uo hd by simp
  from unref_dev_ok [OF this, of ul] obtain c4 where
    4: "uvc_unref_device ul (uh_dev x) c3 = Some c4" "dev_inv L (R + ?rest) c4" "dev_frame (R + ?rest) c3 c4" by blast
  have v: "uc_open_devices c4 = remove1 h (uc_open_devices c)" "uc_handles c4 = uc_handles c"
    "uc_next c \<le> uc_next c4" "lu_open_devs (uc_usb c4) = lu_open_devs (uc_usb c3)"
    "uc_kill_handler_thread c4 = uc_kill_handler_thread c3" "uc_thread c4 = uc_thread c3" "uc_own_usb_ctx c4 = uc_own_usb_ctx c3"
    using 4(3) assms(6-8) by (simp_all add: dev_frame_def uvc_view_def)
  let ?c = "c4\<lparr>uc_handles := (uc_handles c4)(h := None)\<rparr>"
  have notin: "h \<notin> set (remove1 h (uc_open_devices c))" using I(2) by simp
  have E: "map (\<lambda>h'. uh_dev (the (uc_handles ?c h'))) (remove1 h (uc_open_devices c))
      = map (\<lambda>h. uh_dev (the (uc_handles c h))) (remove1 h (uc_open_devices c))"
    using notin v(2) by (intro map_cong) auto
  have "uc_open_devices ?c = remove1 h (uc_open_devices c)" using v(1) by simp
  then have hd': "handle_devs ?c = ?rest" unfolding handle_devs_def by (simp only: E)
  have ne: "uh_usb_devh x' \<noteq> uh_usb_devh x" if "uc_handles c h' = Some x'" "h' \<noteq> h" for h' x'
    using I(6) [OF that(1) assms(2)] that(2) by blast
  have u: "usb_of c4 (uh_dev x') = usb_of c (uh_dev x')" if "uc_handles c h' = Some x'" "h' \<noteq> h" for h' x'
  proof -
    have "h' \<in> set (remove1 h (uc_open_devices c))" using I(3) [of h'] I(2) that by simp
    then have "uh_dev (the (uc_handles c h')) \<in> set (map (\<lambda>h. uh_dev (the (uc_handles c h))) (remove1 h (uc_open_devices c)))"
      unfolding list.set_map by (rule imageI)
    then have m: "uh_dev x' \<in># R + ?rest" unfolding set_mset_union set_mset_mset using that(1) by simp
    have "map_option dv_usb_dev (uc_devs c4 (uh_dev x')) = map_option dv_usb_dev (uc_devs c3 (uh_dev x'))"
      using 4(3) m unfolding dev_frame_def same_devs_def by blast
    moreover obtain y where "uc_devs c4 (uh_dev x') = Some y" using dev_alive [OF 4(2) m] by blast
    ultimately show ?thesis by (cases "uc_devs c (uh_dev x')") (simp_all add: usb_of_def assms(5))
  qed
  have "uvc_ok L R ?c"
    unfolding uvc_ok_def
  proof (intro conjI allI impI)
    show "dev_inv L (R + handle_devs ?c) ?c" using 4(2) by (simp add: hd' dev_inv_def)
    show "distinct (uc_open_devices ?c)" using I(2) v(1) by simp
    show "(uc_handles ?c h' \<noteq> None) = (h' \<in> set (uc_open_devices ?c))" for h'
      using I(2) I(3) [of h'] v(1,2) by simp
    show "h' < uc_next ?c" if "uc_handles ?c h' = Some x'" for h' x'
      using that I(4) [of h' x'] v(2,3) by (simp split: if_splits)
    show "map_of (lu_open_devs (uc_usb ?c)) (uh_usb_devh x') = Some (usb_of ?c (uh_dev x'))"
      if "uc_handles ?c h' = Some x'" for h' x'
    proof -
      have h': "uc_handles c h' = Some x'" "h' \<noteq> h" using that v(2) by (simp_all split: if_splits)
      then show ?thesis using I(5) [OF h'(1)] u [OF h'] map_of_other [OF ne [OF h'], of "lu_open_devs (uc_usb c)"] v(4) assms(4) by simp
    qed
    show "h1 = h2" if "uc_handles ?c h1 = Some x1" "uc_handles ?c h2 = Some x2" "uh_usb_devh x1 = uh_usb_devh x2" for h1 h2 x1 x2
      using that I(6) [of h1 x1 h2 x2] v(2) by (simp split: if_splits)
  qed
  then show ?thesis using 4(1) v by simp
qed

lemma close_streams_world:
  assumes "close_streams ul run x c = Some c1"
  obtains w where "c1 = c\<lparr>uc_usb := (uc_usb c)\<lparr>lu_world := w\<rparr>\<rparr>"
proof (cases "uh_streams x = []")
  case True
  then have "c1 = c\<lparr>uc_usb := (uc_usb c)\<lparr>lu_world := lu_world (uc_usb c)\<rparr>\<rparr>" using assms by (simp add: close_streams_def)
  then show thesis by (rule that)
next
  case False
  then show thesis using assms that by (auto simp: close_streams_def split: Option.bind_splits)
qed

lemma close_uvc_ok:
  assumes "uvc_ok L R c" "uc_handles c h = Some x" "close_streams ul run x c \<noteq> None"
  shows "\<exists>c'. uvc_close ul run h c = Some c' \<and> uvc_ok L R c' \<and> uc_handles c' = (uc_handles c)(h := None)
    \<and> uc_open_devices c' = remove1 h (uc_open_devices c)
    \<and> (uc_kill_handler_thread c' \<longleftrightarrow> uc_kill_handler_thread c \<or> uc_own_usb_ctx c \<and> uc_open_devices c = [h])
    \<and> (uc_thread c' \<longleftrightarrow> uc_thread c \<and> \<not> (uc_own_usb_ctx c \<and> uc_open_devices c = [h]))
    \<and> uc_own_usb_ctx c' = uc_own_usb_ctx c"
proof -
  note I = uvc_okD [OF assms(1)]
  obtain c1 where c1: "close_streams ul run x c = Some c1" using assms(3) by blast
  then obtain w1 where w1: "c1 = c\<lparr>uc_usb := (uc_usb c)\<lparr>lu_world := w1\<rparr>\<rparr>" by (rule close_streams_world)
  obtain ret w2 where rl: "uvc_release_if (ul_usb ul (uh_usb_devh x)) (uh_devh x)
      (ci_bInterfaceNumber (ctrl_if (dh_info (uh_devh x)))) w1 = (ret, w2)" by (metis surj_pair)
  let ?f = "uc_own_usb_ctx c \<and> uc_open_devices c = [h]"
  have "refs_ok (image_mset (usb_of c) (R + handle_devs c) + L) ((uc_usb c)\<lparr>lu_world := w2\<rparr>)"
    "map_of (lu_open_devs ((uc_usb c)\<lparr>lu_world := w2\<rparr>)) (uh_usb_devh x) = Some (usb_of c (uh_dev x))"
    using dev_invD(1) [OF I(1)] I(5) [OF assms(2)] by simp_all
  from close_ok [OF this, of "ul_backend ul"] obtain usb where
    2: "libusb_close (ul_backend ul) (Some (uh_usb_devh x)) ((uc_usb c)\<lparr>lu_world := w2\<rparr>) = Some usb"
    "refs_ok (image_mset (usb_of c) (R + handle_devs c) + L) usb"
    "lu_open_devs usb = filter (\<lambda>y. fst y \<noteq> uh_usb_devh x) (lu_open_devs (uc_usb c))" by auto
  define c3 where "c3 = c\<lparr>uc_usb := usb, uc_kill_handler_thread := uc_kill_handler_thread c \<or> ?f,
    uc_thread := uc_thread c \<and> \<not> ?f, uc_open_devices := remove1 h (uc_open_devices c)\<rparr>"
  have "\<exists>c4. uvc_unref_device ul (uh_dev x) c3 = Some c4
    \<and> uvc_ok L R (c4\<lparr>uc_handles := (uc_handles c4)(h := None)\<rparr>)
    \<and> uc_handles c4 = uc_handles c \<and> uc_open_devices c4 = remove1 h (uc_open_devices c)
    \<and> uc_kill_handler_thread c4 = uc_kill_handler_thread c3 \<and> uc_thread c4 = uc_thread c3 \<and> uc_own_usb_ctx c4 = uc_own_usb_ctx c3"
    by (rule closed_ok [OF assms(1,2)]) (use 2(2,3) in \<open>simp_all add: c3_def\<close>)
  then obtain c4 where
    4: "uvc_unref_device ul (uh_dev x) c3 = Some c4" "uvc_ok L R (c4\<lparr>uc_handles := (uc_handles c4)(h := None)\<rparr>)"
    "uc_handles c4 = uc_handles c" "uc_open_devices c4 = remove1 h (uc_open_devices c)"
    "uc_kill_handler_thread c4 = uc_kill_handler_thread c3" "uc_thread c4 = uc_thread c3" "uc_own_usb_ctx c4 = uc_own_usb_ctx c3"
    by blast
  have mem: "h \<in> set (uc_open_devices c)" using I(3) [of h] assms(2) by simp
  have "uvc_close ul run h c = (case uvc_unref_device ul (uh_dev x) c3 of None \<Rightarrow> None
      | Some c \<Rightarrow> Some (c\<lparr>uc_handles := (uc_handles c)(h := None)\<rparr>))"
  proof (cases ?f)
    case True
    then have "c3 = c\<lparr>uc_kill_handler_thread := True, uc_usb := usb, uc_thread := False, uc_open_devices := []\<rparr>"
      by (simp add: c3_def)
    then show ?thesis using True assms(2) c1 w1 rl 2(1)
      by (simp add: uvc_close_def Let_def Option.bind_eq_None_conv split: Option.bind_splits option.splits)
  next
    case False
    then have f: "?f = False" by blast
    have "c3 = c\<lparr>uc_usb := usb, uc_open_devices := remove1 h (uc_open_devices c)\<rparr>"
      unfolding c3_def f by simp
    then show ?thesis using False assms(2) c1 w1 rl 2(1) mem
      by (auto simp add: uvc_close_def Let_def split: Option.bind_splits option.splits)
  qed
  then show ?thesis using 4 by (simp add: c3_def)
qed

section \<open>Sequences of calls\<close>

lemma uvc_ok_usb:
  assumes "uvc_ok L R c" "refs_ok (image_mset (usb_of c) (R + handle_devs c) + L') usb"
    "lu_open_devs usb = lu_open_devs (uc_usb c)"
  shows "uvc_ok L' R (c\<lparr>uc_usb := usb\<rparr>)"
proof -
  have "handle_devs (c\<lparr>uc_usb := usb\<rparr>) = handle_devs c" by (simp add: handle_devs_def)
  then show ?thesis
    using dev_inv_usb [OF uvc_okD(1) [OF assms(1)] assms(2)] assms(1,3) by (simp add: uvc_ok_def)
qed

lemma uvc_ok_grow:
  assumes "uvc_ok L R c" "dev_inv L' (R + handle_devs c + S) c'" "dev_frame (R + handle_devs c) c c'"
  shows "uvc_ok L' (R + S) c'"
proof (rule uvc_ok_frame [OF assms(1)])
  have "R + S + handle_devs c = R + handle_devs c + S" by (simp add: add.assoc add.commute add.left_commute)
  then show "dev_inv L' (R + S + handle_devs c) c'" using assms(2) by (simp only:)
  show "dev_frame (handle_devs c) c c'" by (rule frame_sub [OF assms(3)]) simp
qed

lemma with_fd_ok:
  assumes "uvc_ok L R c" "ample (ul_backend ul)" "uvc_get_device_with_fd ul busnum devaddr c = Some (r, dev, c')"
  shows "uvc_ok L (R + (case dev of None \<Rightarrow> {#} | Some d \<Rightarrow> {#d#})) c'"
proof -
  note I = uvc_okD [OF assms(1)]
  let ?b = "ul_backend ul"
  obtain u usb where g: "libusb_get_device_with_fd ?b busnum devaddr (uc_usb c) = Some (u, usb)"
    using assms(3) by (auto simp: uvc_get_device_with_fd_def split: Option.bind_splits)
  obtain gr gd where ga: "android_generate_device ?b busnum devaddr (uc_usb c) = Some (gr, gd, usb)"
      "u = (if gr \<noteq> 0 then None else gd)"
    using g by (auto simp: libusb_get_device_with_fd_def split: Option.bind_splits)
  obtain d s0 where a: "usbi_alloc_device ?b (session_of busnum devaddr) (uc_usb c) = (Some d, s0)"
    using ga by (auto simp: android_generate_device_def split: prod.splits option.splits)
  from generate_ok [OF dev_invD(1) [OF I(1)] a] ga have
    o: "refs_ok (image_mset (usb_of c) (R + handle_devs c) + L) usb" "lu_open_devs usb = lu_open_devs (uc_usb c)"
    "\<forall>v. u = Some v \<longrightarrow> v \<in> set (lu_usb_devs usb)" by (auto split: if_splits)
  have 1: "uvc_ok L R (c\<lparr>uc_usb := usb\<rparr>)" by (rule uvc_ok_usb [OF assms(1) o(1,2)])
  show ?thesis
  proof (cases u)
    case None
    then show ?thesis using assms(3) 1 by (auto simp: uvc_get_device_with_fd_def g)
  next
    case (Some v)
    have hd: "handle_devs (c\<lparr>uc_usb := usb\<rparr>) = handle_devs c" by (simp add: handle_devs_def)
    note i = uvc_okD(1) [OF 1, unfolded hd]
    have "lu_mem (uc_usb (c\<lparr>uc_usb := usb\<rparr>)) v \<noteq> None"
      using listed_alive [OF o(1)] o(3) Some by simp
    from new_device_ok [OF i this assms(2)] obtain e c1 where
      2: "new_uvc_device ul v (c\<lparr>uc_usb := usb\<rparr>) = Some (e, c1)" "dev_inv L (add_mset e (R + handle_devs c)) c1"
      "dev_frame (R + handle_devs c) (c\<lparr>uc_usb := usb\<rparr>) c1" by blast
    have "uvc_ok L (R + {#e#}) c1"
      by (rule uvc_ok_grow [OF 1]) (use 2(2,3) hd in simp_all)
    then show ?thesis using assms(3) 2(1) Some by (auto simp: uvc_get_device_with_fd_def g)
  qed
qed

lemma find2_ok:
  assumes "uvc_ok L R c" "ample (ul_backend ul)"
  shows "\<exists>r dev c'. uvc_find_device2 ul vid pid fd c = Some (r, dev, c')
    \<and> (case dev of None \<Rightarrow> uvc_ok L R c' | Some d \<Rightarrow> uvc_ok (add_mset (usb_of c' d) L) (add_mset d R) c')
    \<and> map_option (usb_of c') dev
      = find (\<lambda>u. ids_match vid pid (ld_descriptor (the (lu_mem (uc_usb c) u)))) (lu_usb_devs (uc_usb c))"
proof -
  note I = uvc_okD [OF assms(1)]
  let ?b = "ul_backend ul"
  have "roomy ?b (length (lu_usb_devs (uc_usb c))) 8" using assms(2) by (simp add: roomy_def)
  from find_device_ok [OF dev_invD(1) [OF I(1)] this, of vid pid] assms(2) obtain u usb where
    f: "libusb_find_device ?b vid pid (uc_usb c) = Some (u, usb)" "usb_look usb = usb_look (uc_usb c)"
    "refs_ok (image_mset (usb_of c) (R + handle_devs c) + L + (case u of None \<Rightarrow> {#} | Some d \<Rightarrow> {#d#})) usb"
    "u = find (\<lambda>u. ids_match vid pid (ld_descriptor (the (lu_mem (uc_usb c) u)))) (lu_usb_devs (uc_usb c))" by auto
  note o = usb_lookD(3) [OF f(2)]
  show ?thesis
  proof (cases u)
    case None
    then have "uvc_ok L R (c\<lparr>uc_usb := usb\<rparr>)" using uvc_ok_usb [OF assms(1) _ o] f(3) by simp
    then show ?thesis using None f(1,4) by (simp add: uvc_find_device2_def)
  next
    case (Some v)
    let ?usb = "usb\<lparr>lu_world := ul_set_fd ul v fd (lu_world usb)\<rparr>"
    let ?c = "c\<lparr>uc_usb := ?usb\<rparr>"
    have "refs_ok (image_mset (usb_of c) (R + handle_devs c) + add_mset v L) ?usb" using f(3) Some by simp
    then have 1: "uvc_ok (add_mset v L) R ?c" using uvc_ok_usb [OF assms(1)] o by simp
    have hd: "handle_devs ?c = handle_devs c" by (simp add: handle_devs_def)
    note i = uvc_okD(1) [OF 1, unfolded hd]
    have "0 < count (image_mset (usb_of c) (R + handle_devs c) + L + {#v#} + holders usb) v" by simp
    with refs_okD [OF f(3), of v] Some obtain y where "lu_mem usb v = Some y" by auto
    then have "lu_mem (uc_usb ?c) v \<noteq> None" by simp
    from new_device_ok [OF i this assms(2)] obtain e c1 where
      2: "new_uvc_device ul v ?c = Some (e, c1)" "dev_inv (add_mset v L) (add_mset e (R + handle_devs c)) c1"
      "dev_frame (R + handle_devs c) ?c c1" "usb_of c1 e = v" by blast
    have "uvc_ok (add_mset v L) (R + {#e#}) c1"
      by (rule uvc_ok_grow [OF 1]) (use 2(2,3) hd in simp_all)
    moreover have "uvc_find_device2 ul vid pid fd c = Some (UVC_SUCCESS, Some e, c1)"
      using f(1) Some 2(1) by (simp add: uvc_find_device2_def)
    ultimately show ?thesis using f(4) Some 2(4) by simp
  qed
qed

text \<open>
  A sequence of calls of the users, of work on the streams of an open device, and of devices
  that come and go. A state carries the references of libusb that nobody will drop, those to
  device structs that the users hold, and the context.
\<close>

inductive uvc_step ::
  "'w uvc_lib \<Rightarrow> nat multiset \<times> nat multiset \<times> 'w uvc_context \<Rightarrow> nat multiset \<times> nat multiset \<times> 'w uvc_context \<Rightarrow> bool"
  for ul where
  taken: "d \<in># R \<Longrightarrow> uvc_ref_device d c = Some c' \<Longrightarrow> uvc_step ul (L, R, c) (L, add_mset d R, c')"
| dropped: "uvc_unref_device ul d c = Some c' \<Longrightarrow> uvc_step ul (L, add_mset d R, c) (L, R, c')"
| listed: "uvc_get_device_list ul c = Some (r, Some ds, c') \<Longrightarrow> uvc_step ul (L, R, c) (L, R + mset ds, c')"
| freed: "uvc_free_device_list ul ds True c = Some c' \<Longrightarrow> uvc_step ul (L, R + mset ds, c) (L, R, c')"
| found: "uvc_find_device ul vid pid sn c = Some (r, dev, c') \<Longrightarrow>
    uvc_step ul (L, R, c) (L, R + (case dev of None \<Rightarrow> {#} | Some d \<Rightarrow> {#d#}), c')"
| found2: "uvc_find_device2 ul vid pid fd c = Some (r, Some d, c') \<Longrightarrow>
    uvc_step ul (L, R, c) (add_mset (usb_of c' d) L, add_mset d R, c')"
| not_found2: "uvc_find_device2 ul vid pid fd c = Some (r, None, c') \<Longrightarrow> uvc_step ul (L, R, c) (L, R, c')"
| with_fd: "uvc_get_device_with_fd ul busnum devaddr c = Some (r, dev, c') \<Longrightarrow>
    uvc_step ul (L, R, c) (L, R + (case dev of None \<Rightarrow> {#} | Some d \<Rightarrow> {#d#}), c')"
| of_handle: "uc_handles c devh \<noteq> None \<Longrightarrow> uvc_get_device devh c = Some (d, c') \<Longrightarrow>
    uvc_step ul (L, R, c) (L, add_mset d R, c')"
| described: "d \<in># R \<Longrightarrow> uvc_get_device_descriptor ul d c = Some (r, desc, c') \<Longrightarrow> uvc_step ul (L, R, c) (L, R, c')"
| opened: "d \<in># R \<Longrightarrow> uvc_open ul d c = Some (r, h, c') \<Longrightarrow> uvc_step ul (L, R, c) (L, R, c')"
| closed: "uc_handles c h \<noteq> None \<Longrightarrow> uvc_close ul run h c = Some c' \<Longrightarrow> uvc_step ul (L, R, c) (L, R, c')"
| working: "uc_handles c h = Some x \<Longrightarrow>
    uvc_step ul (L, R, c) (L, R, c\<lparr>uc_handles := (uc_handles c)(h \<mapsto> x\<lparr>uh_streams := streams, uh_devh := devh\<rparr>),
      uc_usb := (uc_usb c)\<lparr>lu_world := w\<rparr>\<rparr>)"
| attached: "android_enumerate_device (ul_backend ul) busnum devaddr (uc_usb c) = Some (r, usb) \<Longrightarrow>
    uvc_step ul (L, R, c) (L, R, c\<lparr>uc_usb := usb\<rparr>)"
| detached: "fst (bk_write (ul_backend ul) (lu_world (uc_usb c))) \<Longrightarrow>
    android_device_disconnected (ul_backend ul) busnum devaddr (uc_usb c) = Some usb \<Longrightarrow>
    uvc_step ul (L, R, c) (L, R, c\<lparr>uc_usb := usb\<rparr>)"
| message: "hotplug_read (ul_backend ul) (uc_usb c) = Some usb \<Longrightarrow>
    uvc_step ul (L, R, c) (L, R, c\<lparr>uc_usb := usb\<rparr>)"

definition step_ok where "step_ok = (\<lambda>(L, R, c). uvc_ok L R c)"

lemma step_ok_simp [simp]: "step_ok (L, R, c) = uvc_ok L R c"
  by (simp add: step_ok_def)

lemma take_uvc_ok:
  assumes "uvc_ok L R c" "d \<in># R + handle_devs c"
  shows "\<exists>c'. uvc_ref_device d c = Some c' \<and> uvc_ok L (add_mset d R) c' \<and> uc_handles c' = uc_handles c
    \<and> uc_open_devices c' = uc_open_devices c"
proof -
  note I = uvc_okD [OF assms(1)]
  have "uc_devs c d \<noteq> None" using dev_alive [OF I(1) assms(2)] by blast
  from ref_dev_ok [OF I(1) this, of "R + handle_devs c"] obtain c' where
    1: "uvc_ref_device d c = Some c'" "dev_inv L (add_mset d (R + handle_devs c)) c'" "dev_frame (R + handle_devs c) c c'"
    by blast
  have "uvc_ok L (R + {#d#}) c'" by (rule uvc_ok_grow [OF assms(1)]) (use 1(2,3) in simp_all)
  then show ?thesis using 1(1) frame_devs [OF 1(3)] by simp
qed

lemma drop_uvc_ok:
  assumes "uvc_ok L (add_mset d R) c"
  shows "\<exists>c'. uvc_unref_device ul d c = Some c' \<and> uvc_ok L R c' \<and> uc_handles c' = uc_handles c"
proof -
  have "dev_inv L (add_mset d (R + handle_devs c)) c" using uvc_okD(1) [OF assms] by simp
  from unref_dev_ok [OF this, of ul] obtain c' where
    1: "uvc_unref_device ul d c = Some c'" "dev_inv L (R + handle_devs c) c'" "dev_frame (R + handle_devs c) c c'" by blast
  have "uvc_ok L R c'" by (rule uvc_ok_frame [OF assms 1(2)]) (rule frame_sub [OF 1(3)], simp)
  then show ?thesis using 1(1) frame_devs [OF 1(3)] by simp
qed

lemma free_uvc_ok:
  assumes "uvc_ok L (R + mset ds) c"
  shows "\<exists>c'. uvc_free_device_list ul ds True c = Some c' \<and> uvc_ok L R c'"
proof -
  have "R + mset ds + handle_devs c = R + handle_devs c + mset ds" by (simp add: add.assoc add.commute add.left_commute)
  then have "dev_inv L (R + handle_devs c + mset ds) c" using uvc_okD(1) [OF assms] by (simp only:)
  from give_frame [OF this, of ul] obtain c' where
    1: "uvc_free_device_list ul ds True c = Some c'" "dev_inv L (R + handle_devs c) c'" "dev_frame (R + handle_devs c) c c'" by blast
  have "uvc_ok L R c'" by (rule uvc_ok_frame [OF assms 1(2)]) (rule frame_sub [OF 1(3)], simp)
  then show ?thesis using 1(1) by blast
qed

lemma list_step_ok:
  assumes "uvc_ok L R c" "ample (ul_backend ul)"
  shows "\<exists>ds c'. uvc_get_device_list ul c = Some (UVC_SUCCESS, Some ds, c') \<and> uvc_ok L (R + mset ds) c'"
proof -
  from uvc_list_ok [OF uvc_okD(1) [OF assms(1)] assms(2)] obtain ds c' where
    1: "uvc_get_device_list ul c = Some (UVC_SUCCESS, Some ds, c')" "dev_inv L (R + handle_devs c + mset ds) c'"
    "dev_frame (R + handle_devs c) c c'" by blast
  from uvc_ok_grow [OF assms(1) 1(2,3)] 1(1) show ?thesis by blast
qed

lemma find_step_ok:
  assumes "uvc_ok L R c" "ample (ul_backend ul)"
  shows "\<exists>dev c'. uvc_find_device ul vid pid sn c = Some (if dev = None then UVC_ERROR_NO_DEVICE else UVC_SUCCESS, dev, c')
    \<and> uvc_ok L (R + (case dev of None \<Rightarrow> {#} | Some d \<Rightarrow> {#d#})) c' \<and> dev_frame (R + handle_devs c) c c'
    \<and> (sn = None \<and> stable_config ul cfg \<longrightarrow> map_option (usb_of c') dev = wanted ul cfg vid pid (uc_usb c))"
proof -
  from find_uvc_ok [OF uvc_okD(1) [OF assms(1)] assms(2), of vid pid sn cfg] obtain dev c' where
    1: "uvc_find_device ul vid pid sn c = Some (if dev = None then UVC_ERROR_NO_DEVICE else UVC_SUCCESS, dev, c')"
    "dev_inv L (R + handle_devs c + (case dev of None \<Rightarrow> {#} | Some d \<Rightarrow> {#d#})) c'" "dev_frame (R + handle_devs c) c c'"
    "sn = None \<and> stable_config ul cfg \<longrightarrow> map_option (usb_of c') dev = wanted ul cfg vid pid (uc_usb c)" by blast
  from uvc_ok_grow [OF assms(1) 1(2,3)] 1(1,3,4) show ?thesis by blast
qed

lemma descriptor_step_ok:
  assumes "uvc_ok L R c" "d \<in># R" "ample (ul_backend ul)"
  shows "\<exists>desc c'. uvc_get_device_descriptor ul d c = Some (0, desc, c') \<and> uvc_ok L R c'"
proof -
  have "d \<in># R + handle_devs c" using assms(2) by simp
  from descriptor_ok [OF uvc_okD(1) [OF assms(1)] this assms(3)] obtain desc c' where
    1: "uvc_get_device_descriptor ul d c = Some (0, desc, c')" "dev_inv L (R + handle_devs c) c'"
    "dev_frame (R + handle_devs c) c c'" by blast
  have "uvc_ok L R c'" by (rule uvc_ok_frame [OF assms(1) 1(2)]) (rule frame_sub [OF 1(3)], simp)
  with 1(1) show ?thesis by blast
qed

lemma working_ok:
  assumes "uvc_ok L R c" "uc_handles c h = Some x"
  shows "uvc_ok L R (c\<lparr>uc_handles := (uc_handles c)(h \<mapsto> x\<lparr>uh_streams := streams, uh_devh := devh\<rparr>),
      uc_usb := (uc_usb c)\<lparr>lu_world := w\<rparr>\<rparr>)" (is "uvc_ok L R ?c")
proof -
  note I = uvc_okD [OF assms(1)]
  have hd: "handle_devs ?c = handle_devs c"
    unfolding handle_devs_def using assms(2) by (intro arg_cong [of _ _ mset] map_cong) auto
  have "dev_inv L (R + handle_devs ?c) ?c" unfolding hd using I(1) by (simp add: dev_inv_def)
  moreover have "(uc_handles ?c h' \<noteq> None) = (h' \<in> set (uc_open_devices ?c))" for h'
    using I(3) [of h'] I(3) [of h] assms(2) by auto
  moreover have "h' < uc_next ?c \<and> map_of (lu_open_devs (uc_usb ?c)) (uh_usb_devh y) = Some (usb_of ?c (uh_dev y))"
    if "uc_handles ?c h' = Some y" for h' y
    using that I(4,5) [of h] I(4,5) [of h'] assms(2) by (auto split: if_splits)
  moreover have "h1 = h2"
    if "uc_handles ?c h1 = Some x1" "uc_handles ?c h2 = Some x2" "uh_usb_devh x1 = uh_usb_devh x2" for h1 h2 x1 x2
  proof -
    have "\<exists>y. uc_handles c g = Some y \<and> uh_usb_devh y = uh_usb_devh z" if "uc_handles ?c g = Some z" for g z
      using that assms(2) by (auto split: if_splits)
    from this [OF that(1)] this [OF that(2)] show ?thesis using I(6) that(3) by metis
  qed
  moreover have "distinct (uc_open_devices ?c)" using I(2) by simp
  ultimately show ?thesis unfolding uvc_ok_def by blast
qed

lemma uvc_open_ok:
  assumes "uvc_ok L R c" "d \<in># R" "ample (ul_backend ul)" "uvc_open ul d c = Some (r, h, c')"
  shows "uvc_ok L R c'
    \<and> (case h of None \<Rightarrow> r \<noteq> UVC_SUCCESS \<and> dev_frame (R + handle_devs c) c c'
       | Some h \<Rightarrow> r = UVC_SUCCESS \<and> opened_as d c h c')"
  using open_uvc_ok [OF assms(1-3)] assms(4) by auto

lemma uvc_step_ok:
  assumes "uvc_step ul x y" "ample (ul_backend ul)" "step_ok x"
  shows "step_ok y"
  using assms
proof cases
  case (taken d R c c' L)
  with take_uvc_ok [of L R c d] assms(3) show ?thesis by auto
next
  case (dropped d c c' L R)
  with drop_uvc_ok [of L d R c ul] assms(3) show ?thesis by auto
next
  case (listed c r ds c' L R)
  with list_step_ok [of L R c ul] assms(2,3) show ?thesis by auto
next
  case (freed ds c c' L R)
  with free_uvc_ok [of L R ds c ul] assms(3) show ?thesis by auto
next
  case (found vid pid sn c r dev c' L R)
  with find_step_ok [of L R c ul vid pid sn] assms(2,3) show ?thesis by auto
next
  case (found2 vid pid fd c r d c' L R)
  with find2_ok [of L R c ul vid pid fd] assms(2,3) show ?thesis by auto
next
  case (not_found2 vid pid fd c r c' L R)
  with find2_ok [of L R c ul vid pid fd] assms(2,3) show ?thesis by auto
next
  case (with_fd busnum devaddr c r dev c' L R)
  with with_fd_ok [of L R c ul busnum devaddr r dev c'] assms(2,3) show ?thesis by auto
next
  case (of_handle c devh d c' L R)
  then obtain x where x: "uc_handles c devh = Some x" "d = uh_dev x" "uvc_ref_device d c = Some c'"
    by (auto simp: uvc_get_device_def split: Option.bind_splits)
  have "uvc_ok L R c" using assms(3) of_handle by simp
  with take_uvc_ok [of L R c d] handle_dev_held [of L R c devh x] x of_handle show ?thesis by auto
next
  case (described d R c r desc c' L)
  with descriptor_step_ok [of L R c d ul] assms(2,3) show ?thesis by auto
next
  case (opened d R c r h c' L)
  with uvc_open_ok [of L R c d ul r h c'] assms(2,3) show ?thesis by auto
next
  case (closed c h run c' L R)
  then obtain x where x: "uc_handles c h = Some x" by blast
  then have "close_streams ul run x c \<noteq> None" using closed(4) by (cases "close_streams ul run x c") (simp_all add: uvc_close_def)
  with close_uvc_ok [of L R c h x ul run] closed x assms(3) show ?thesis by auto
next
  case (working c h x L R streams devh w)
  with working_ok [of L R c h x] assms(3) show ?thesis by simp
next
  case (attached busnum devaddr c r usb L R)
  then have ok: "uvc_ok L R c" using assms(3) by simp
  from enumerate_ok [OF dev_invD(1) [OF uvc_okD(1) [OF ok]], of "ul_backend ul" busnum devaddr] attached
  have "refs_ok (image_mset (usb_of c) (R + handle_devs c) + L) usb" "lu_open_devs usb = lu_open_devs (uc_usb c)" by auto
  from uvc_ok_usb [OF ok this] attached show ?thesis by simp
next
  case (detached c busnum devaddr usb L R)
  then have ok: "uvc_ok L R c" using assms(3) by simp
  from disconnected_ok [OF dev_invD(1) [OF uvc_okD(1) [OF ok]], of "ul_backend ul" busnum devaddr] detached
  have "refs_ok (image_mset (usb_of c) (R + handle_devs c) + L) usb" "lu_open_devs usb = lu_open_devs (uc_usb c)" by auto
  from uvc_ok_usb [OF ok this] detached show ?thesis by simp
next
  case (message c usb L R)
  then have ok: "uvc_ok L R c" using assms(3) by simp
  from hotplug_read_ok [OF dev_invD(1) [OF uvc_okD(1) [OF ok]], of "ul_backend ul"] message
  have "refs_ok (image_mset (usb_of c) (R + handle_devs c) + L) usb" "lu_open_devs usb = lu_open_devs (uc_usb c)" by auto
  from uvc_ok_usb [OF ok this] message show ?thesis by simp
qed

lemma uvc_steps_ok:
  assumes "(uvc_step ul)\<^sup>*\<^sup>* x y" "ample (ul_backend ul)" "step_ok x"
  shows "step_ok y"
  using assms by (induction rule: rtranclp_induct) (auto intro: uvc_step_ok)

lemma uvc_init2_ok:
  assumes "uvc_init2 usb init = (r, Some c)" "uc_usb c = new_context w"
  shows "uvc_ok {#} {#} c"
proof -
  have "uc_devs c = (\<lambda>_. None)" "uc_handles c = (\<lambda>_. None)" "uc_open_devices c = []"
    using assms(1) by (auto simp: uvc_init2_def Let_def split: option.splits prod.splits if_splits)
  then show ?thesis
    using assms(2) new_context_ok [of w] by (simp add: uvc_ok_def dev_inv_def handle_devs_def)
qed

text \<open>What a sequence of calls that began with a new context can reach.\<close>

definition uvc_reach ::
  "'w uvc_lib \<Rightarrow> nat multiset \<Rightarrow> nat multiset \<Rightarrow> 'w uvc_context \<Rightarrow> bool" where
  "uvc_reach ul L R c \<longleftrightarrow> (\<exists>usb init r c0 w. uvc_init2 usb init = (r, Some c0) \<and> uc_usb c0 = new_context w
     \<and> (uvc_step ul)\<^sup>*\<^sup>* ({#}, {#}, c0) (L, R, c))"

lemma reach_ok:
  assumes "uvc_reach ul L R c" "ample (ul_backend ul)"
  shows "uvc_ok L R c"
proof -
  obtain usb init r c0 w where r: "uvc_init2 usb init = (r, Some c0)" "uc_usb c0 = new_context w"
    "(uvc_step ul)\<^sup>*\<^sup>* ({#}, {#}, c0) (L, R, c)" using assms(1) unfolding uvc_reach_def by blast
  from uvc_steps_ok [OF r(3) assms(2)] uvc_init2_ok [OF r(1,2)] show ?thesis by simp
qed

lemma reach_step: "uvc_reach ul L R c \<Longrightarrow> uvc_step ul (L, R, c) (L', R', c') \<Longrightarrow> uvc_reach ul L' R' c'"
  unfolding uvc_reach_def by (meson rtranclp.rtrancl_into_rtrancl)

lemma reach_init:
  assumes "uvc_init2 usb init = (r, Some c)" "uc_usb c = new_context w"
  shows "uvc_reach ul {#} {#} c"
  unfolding uvc_reach_def using assms by blast

section \<open>Properties\<close>


lemma dev_refs:
  assumes "dev_inv L Q c"
  shows "map_option dv_ref (uc_devs c d) = (if d \<in># Q then Some (int (count Q d)) else None)"
  using dev_alive [OF assms, of d] dev_invD(3) [OF assms, of d]
  by (cases "uc_devs c d") (auto simp: count_eq_zero_iff)

lemma held_uvc_defined:
  assumes "uvc_ok L R c" "ample (ul_backend ul)" "d \<in># R"
  shows "uvc_ref_device d c \<noteq> None \<and> uvc_unref_device ul d c \<noteq> None \<and> uvc_get_device_descriptor ul d c \<noteq> None
    \<and> (scannable ul (usb_of c d) \<longrightarrow> uvc_open ul d c \<noteq> None)"
proof -
  have "R = add_mset d (R - {#d#})" using assms(3) by simp
  then have "uvc_ok L (add_mset d (R - {#d#})) c" using assms(1) by simp
  from drop_uvc_ok [OF this, of ul] have "uvc_unref_device ul d c \<noteq> None" by auto
  moreover have "uvc_ref_device d c \<noteq> None" using take_uvc_ok [OF assms(1), of d] assms(3) by auto
  moreover have "uvc_get_device_descriptor ul d c \<noteq> None"
    using descriptor_step_ok [OF assms(1,3,2)] by auto
  ultimately show ?thesis using open_uvc_ok [OF assms(1,3,2)] by auto
qed

lemma handle_uvc_defined:
  assumes "uvc_ok L R c" "uc_handles c h = Some x"
  shows "uvc_get_device h c \<noteq> None \<and> (close_streams ul run x c \<noteq> None \<longrightarrow> uvc_close ul run h c \<noteq> None)"
proof -
  have "uh_dev x \<in># R + handle_devs c" using handle_dev_held [OF assms] by simp
  from take_uvc_ok [OF assms(1) this] have "uvc_get_device h c \<noteq> None" using assms(2) by (auto simp: uvc_get_device_def)
  moreover have "uvc_close ul run h c \<noteq> None" if "close_streams ul run x c \<noteq> None"
    using close_uvc_ok [OF assms that] by auto
  ultimately show ?thesis by blast
qed

text \<open>
  C19. No call follows a freed struct. After any such sequence, when memory does not run out,
  taking and dropping a held reference and reading the description of a held device return;
  opening it returns when the scan of its descriptors does; closing an open handle returns when
  its streams stop; and the devices can be listed and searched.
\<close>
theorem uvc_calls_defined:
  assumes "uvc_reach ul L R c" "ample (ul_backend ul)"
  shows "(\<forall>d. d \<in># R \<longrightarrow> uvc_ref_device d c \<noteq> None \<and> uvc_unref_device ul d c \<noteq> None
      \<and> uvc_get_device_descriptor ul d c \<noteq> None \<and> (scannable ul (usb_of c d) \<longrightarrow> uvc_open ul d c \<noteq> None))
    \<and> (\<forall>h x. uc_handles c h = Some x \<longrightarrow> uvc_get_device h c \<noteq> None
      \<and> (close_streams ul run x c \<noteq> None \<longrightarrow> uvc_close ul run h c \<noteq> None))
    \<and> uvc_get_device_list ul c \<noteq> None \<and> uvc_find_device ul vid pid sn c \<noteq> None
    \<and> uvc_find_device2 ul vid pid fd c \<noteq> None"
proof -
  have ok: "uvc_ok L R c" by (rule reach_ok [OF assms])
  have "uvc_get_device_list ul c \<noteq> None" using list_step_ok [OF ok assms(2)] by auto
  moreover have "uvc_find_device ul vid pid sn c \<noteq> None" using find_step_ok [OF ok assms(2), of vid pid sn "\<lambda>_. None"] by auto
  moreover have "uvc_find_device2 ul vid pid fd c \<noteq> None" using find2_ok [OF ok assms(2), of vid pid fd] by auto
  ultimately show ?thesis
    using held_uvc_defined [OF ok assms(2)] handle_uvc_defined [OF ok, of _ _ ul run] by blast
qed


text \<open>
  C17. Opening a device and closing it again restores the open handles and the counts of all
  devices, and the close always returns.
\<close>
theorem uvc_open_close:
  assumes "uvc_reach ul L R c" "ample (ul_backend ul)" "d \<in># R" "uvc_open ul d c = Some (r, Some h, c1)"
  shows "\<exists>c2. uvc_close ul run h c1 = Some c2 \<and> uc_open_devices c2 = uc_open_devices c \<and> uc_handles c2 = uc_handles c
    \<and> map_option dv_ref (uc_devs c2 e) = map_option dv_ref (uc_devs c e)"
proof -
  have ok: "uvc_ok L R c" by (rule reach_ok [OF assms(1,2)])
  from uvc_open_ok [OF ok assms(3,2,4)] have ok1: "uvc_ok L R c1" and o: "opened_as d c h c1" by simp_all
  from o obtain x where x: "uc_handles c1 = (uc_handles c)(h \<mapsto> x)" "uh_streams x = []" "uc_handles c h = None"
      "uc_open_devices c1 = uc_open_devices c @ [h]"
    unfolding opened_as_def by blast
  have "uc_handles c1 h = Some x" "close_streams ul run x c1 \<noteq> None" using x by (simp_all add: close_streams_def)
  from close_uvc_ok [OF ok1 this] obtain c2 where
    2: "uvc_close ul run h c1 = Some c2" "uvc_ok L R c2" "uc_handles c2 = (uc_handles c1)(h := None)"
    "uc_open_devices c2 = remove1 h (uc_open_devices c1)" by blast
  have "h \<notin> set (uc_open_devices c)" using uvc_okD(3) [OF ok, of h] x(3) by simp
  then have o2: "uc_open_devices c2 = uc_open_devices c" using 2(4) x(4) by (simp add: remove1_append)
  have h2: "uc_handles c2 = uc_handles c" using 2(3) x(1,3) by (auto simp: fun_eq_iff)
  have "handle_devs c2 = handle_devs c" unfolding handle_devs_def o2 h2 ..
  then have "map_option dv_ref (uc_devs c2 e) = map_option dv_ref (uc_devs c e)"
    using dev_refs [OF uvc_okD(1) [OF ok], of e] dev_refs [OF uvc_okD(1) [OF 2(2)], of e] by simp
  with 2(1) o2 h2 show ?thesis by blast
qed

text \<open>
  The device a search returns. After any such sequence, a search without a serial number
  finds the first device in the list of libusb that is a camera and has the numbers asked for,
  and reports that there is none exactly when there is none; the configurations of the devices
  do not change meanwhile.
\<close>
theorem uvc_find_first:
  assumes "uvc_reach ul L R c" "ample (ul_backend ul)" "stable_config ul cfg"
  shows "\<exists>dev c'. uvc_find_device ul vid pid None c
      = Some (if wanted ul cfg vid pid (uc_usb c) = None then UVC_ERROR_NO_DEVICE else UVC_SUCCESS, dev, c')
    \<and> map_option (usb_of c') dev = wanted ul cfg vid pid (uc_usb c)
    \<and> uc_open_devices c' = uc_open_devices c \<and> lu_usb_devs (uc_usb c') = lu_usb_devs (uc_usb c)"
proof -
  have ok: "uvc_ok L R c" by (rule reach_ok [OF assms(1,2)])
  from find_step_ok [OF ok assms(2), of vid pid None cfg] assms(3) obtain dev c' where
    1: "uvc_find_device ul vid pid None c = Some (if dev = None then UVC_ERROR_NO_DEVICE else UVC_SUCCESS, dev, c')"
    "dev_frame (R + handle_devs c) c c'" "map_option (usb_of c') dev = wanted ul cfg vid pid (uc_usb c)" by auto
  have "wanted ul cfg vid pid (uc_usb c) = None \<longleftrightarrow> dev = None" unfolding 1(3) [symmetric] by simp
  moreover have "uc_open_devices c' = uc_open_devices c \<and> lu_usb_devs (uc_usb c') = lu_usb_devs (uc_usb c)"
    using 1(2) by (simp add: dev_frame_def uvc_view_def keeps_def)
  ultimately show ?thesis using 1(1,3) by simp
qed

text \<open>
  After the last device of a context was closed, a device that is opened gets no event
  thread: the flag that ended the old thread is never cleared, so the new one leaves at once.
\<close>
theorem reopened_without_events:
  assumes "uvc_reach ul L R c" "ample (ul_backend ul)" "uc_own_usb_ctx c" "uc_open_devices c = [h]"
    and "uvc_close ul run h c = Some c1" "d \<in># R" "uvc_open ul d c1 = Some (r, Some h', c2)"
  shows "uc_open_devices c2 = [h'] \<and> \<not> uc_thread c2"
proof -
  have ok: "uvc_ok L R c" by (rule reach_ok [OF assms(1,2)])
  obtain x where x: "uc_handles c h = Some x" using uvc_okD(3) [OF ok, of h] assms(4) by auto
  then have "close_streams ul run x c \<noteq> None"
    using assms(5) by (cases "close_streams ul run x c") (simp_all add: uvc_close_def)
  from close_uvc_ok [OF ok x this] assms(3-5) have
    1: "uvc_ok L R c1" "uc_open_devices c1 = []" "uc_kill_handler_thread c1" "uc_own_usb_ctx c1" by auto
  from uvc_open_ok [OF 1(1) assms(6,2,7)] show ?thesis using 1(2-4) by (simp add: opened_as_def)
qed

text \<open>
  Leaving a context with an open device has no defined result: the loop reads the link to
  the next handle from the one it has just freed. Without open devices it returns.
\<close>
theorem uvc_exit_open:
  assumes "uvc_reach ul L R c" "ample (ul_backend ul)"
  shows "uvc_exit ul run c = (if uc_open_devices c = [] then Some c else None)"
proof (cases "uc_open_devices c")
  case Nil
  then show ?thesis by (simp add: uvc_exit_def exit_loop.simps)
next
  case (Cons h hs)
  have ok: "uvc_ok L R c" by (rule reach_ok [OF assms])
  obtain x where x: "uc_handles c h = Some x" using uvc_okD(3) [OF ok, of h] Cons by auto
  have "Option.bind (uvc_close ul run h c) (\<lambda>c. Option.bind (uc_handles c h) (\<lambda>_. exit_loop ul run (next_of h (h # hs)) c)) = None"
  proof (cases "close_streams ul run x c")
    case None
    then show ?thesis using x by (simp add: uvc_close_def)
  next
    case (Some c0)
    then show ?thesis using close_uvc_ok [OF ok x, of ul run] by auto
  qed
  then show ?thesis using Cons by (simp add: uvc_exit_def exit_loop.simps [of ul run "Some h"])
qed

text \<open>What a status message says, read off its bytes.\<close>

fun status_spec :: "uvc_handle \<Rightarrow> u8 list \<Rightarrow> status_event list" where
  "status_spec h (b # intf # event # state # rest) =
     (if b AND 0x0f = 1
      then (case (rest, entity_class (ctrl_if (dh_info (uh_devh h))) intf) of
            (attribute # content, Some c) \<Rightarrow>
              if intf \<noteq> 0 \<and> event = 0 \<and> uh_status_cb h then [Status_cb c event state attribute content] else []
          | _ \<Rightarrow> [])
      else if b AND 0x0f = 2 \<and> event = 0 \<and> uh_button_cb h then [Button_cb intf state] else [])"
| "status_spec h _ = []"

lemma status_xfer_spec:
  assumes "n \<le> length buf"
  shows "uvc_process_status_xfer h buf n = Some (status_spec h (take n buf))"
proof -
  define xs where "xs = take n buf"
  have l: "length xs = n" using assms by (simp add: xs_def)
  have r: "rd buf i = Some (xs ! i)" if "i < n" for i using that assms by (simp add: rd_def xs_def)
  have c: "rd_bytes buf 5 (n - 5) = Some (drop 5 xs)" if "5 \<le> n"
    using that assms by (simp add: rd_bytes_def xs_def drop_take)
  consider "xs = []" | a where "xs = [a]" | a b where "xs = [a, b]" | a b d where "xs = [a, b, d]"
    | a b d e where "xs = [a, b, d, e]" | a b d e f ys where "xs = a # b # d # e # f # ys"
    by (metis list.exhaust)
  then have "uvc_process_status_xfer h buf n = Some (status_spec h xs)"
  proof cases
    case 6
    then have n: "5 \<le> n" using l by auto
    then show ?thesis using 6 r c [OF n]
      by (simp add: uvc_process_status_xfer_def uvc_process_control_status_def uvc_process_streaming_status_def
          eval_nat_numeral split: option.splits)
  qed (use l r in \<open>simp_all add: uvc_process_status_xfer_def uvc_process_control_status_def
      uvc_process_streaming_status_def eval_nat_numeral\<close>)
  then show ?thesis by (simp add: xs_def)
qed

text \<open>
  Status messages are dispatched as their bytes say. Whatever a completed interrupt
  transfer holds, the callback returns and makes exactly the calls that its message asks for;
  other results make none; and the transfer is submitted again unless it failed, was
  cancelled or the device has gone.
\<close>
theorem status_callback_spec:
  assumes "fi_actual_length fi \<le> length (fi_buffer fi)"
  shows "uvc_status_callback ul h fi t w = Some
      (if fi_status fi = TRANSFER_COMPLETED then status_spec h (take (fi_actual_length fi) (fi_buffer fi)) else [],
       if fi_status fi \<in> {TRANSFER_ERROR, TRANSFER_CANCELLED, TRANSFER_NO_DEVICE} then w
       else snd (as_submit (ul_async ul) t w))"
  using status_xfer_spec [OF assms, of h] by (simp add: uvc_status_callback_def)

section \<open>A camera\<close>

text \<open>A configuration with a control interface and one streaming interface with one MJPEG frame.\<close>

definition cam_header :: "u8 list" where
  "cam_header = [13, 0x24, 1, 0x10, 1, 13, 0, 0, 0, 0, 0, 1, 1]"

definition cam_streaming :: "u8 list" where
  "cam_streaming =
     [14, 0x24, 1, 1, 55, 0, 0x81, 0, 2, 0, 0, 0, 1, 0]
     @ [11, 0x24, 6, 1, 1, 0, 1, 0, 0, 0, 0]
     @ [30, 0x24, 7, 1, 0, 0x80, 2, 0xe0, 1, 0, 0, 0, 1, 0, 0, 0, 2, 0, 0, 8, 0,
        0x15, 0x16, 5, 0, 1, 0x15, 0x16, 5, 0]"

definition cam_config :: usb_config where
  "cam_config =
     [[\<lparr>as_bInterfaceNumber = 0, as_bAlternateSetting = 0, as_bInterfaceClass = 14,
        as_bInterfaceSubClass = 1, as_endpoints = [], as_extra = cam_header\<rparr>],
      [\<lparr>as_bInterfaceNumber = 1, as_bAlternateSetting = 0, as_bInterfaceClass = 14,
        as_bInterfaceSubClass = 2, as_endpoints = [], as_extra = cam_streaming\<rparr>]]"

text \<open>A host on which every call succeeds; the world counts the allocations.\<close>

definition demo_lib :: "nat uvc_lib" where
  "demo_lib = \<lparr>ul_backend = (demo_backend 0)\<lparr>bk_malloc := \<lambda>w. (True, w + 1)\<rparr>,
     ul_usb = \<lambda>h. \<lparr>usb_alloc = \<lambda>w. (True, w), usb_malloc = \<lambda>n w. (True, w), usb_submit = \<lambda>t w. (0, w),
       usb_events = \<lambda>w. (0, w), usb_cancel = \<lambda>w. w, usb_completed = \<lambda>w. True,
       usb_outcome = \<lambda>t w. \<lparr>x_status = TRANSFER_COMPLETED, x_actual = 0, x_buffer = t_buffer t\<rparr>,
       usb_claim = \<lambda>i w. (0, w), usb_release = \<lambda>i w. (0, w), usb_set_alt = \<lambda>i a w. (0, w),
       usb_clear_halt = \<lambda>e w. (0, w)\<rparr>,
     ul_async = \<lparr>as_new_handle = \<lambda>w. (True, w), as_malloc = \<lambda>n w. (Some (replicate n 0), w),
       as_alloc_transfer = \<lambda>n w. (Some 7, w), as_submit = \<lambda>t w. (0, w), as_cancel = \<lambda>t w. (0, w)\<rparr>,
     ul_config = \<lambda>d w. (Some cam_config, w), ul_string = \<lambda>h i w. ((2, [0x41, 0x42]), w),
     ul_set_fd = \<lambda>u fd w. w, ul_size_bits = 32\<rparr>"

lemma demo_ample: "ample (ul_backend demo_lib)"
  by (simp add: ample_def demo_lib_def demo_backend_def)

definition demo_ctx :: "nat uvc_context" where
  "demo_ctx = the (snd (uvc_init2 None (0, new_context 0)))"

text \<open>The camera is plugged in, found and opened.\<close>

definition plugged :: "nat uvc_context option" where
  "plugged = do { (_, usb) \<leftarrow> android_enumerate_device (ul_backend demo_lib) 1 2 (uc_usb demo_ctx);
                  Some (demo_ctx\<lparr>uc_usb := usb\<rparr>) }"

definition found_cam :: "(int \<times> nat option \<times> nat uvc_context) option" where
  "found_cam = do { c \<leftarrow> plugged; uvc_find_device demo_lib 0x046d 0 None c }"

definition opened_cam :: "(int \<times> nat option \<times> nat uvc_context) option" where
  "opened_cam = do { (_, d, c) \<leftarrow> found_cam; d \<leftarrow> d; uvc_open demo_lib d c }"

lemma found_cam_result:
  "case found_cam of None \<Rightarrow> False | Some (r, d, c) \<Rightarrow> r = 0 \<and> d = Some 0 \<and> uc_own_usb_ctx c
     \<and> map_option dv_ref (uc_devs c 0) = Some 1 \<and> usb_of c 0 = 0 \<and> lu_usb_devs (uc_usb c) = [0] \<and> uc_open_devices c = []"
  by code_simp

lemma opened_cam_result:
  "case opened_cam of None \<Rightarrow> False | Some (r, h, c) \<Rightarrow> r = 0 \<and> h = Some 1 \<and> uc_thread c \<and> uc_own_usb_ctx c
     \<and> uc_open_devices c = [1] \<and> map_option dv_ref (uc_devs c 0) = Some 2 
     \<and> map_option ld_refcnt (lu_mem (uc_usb c) 0) = Some 4"
  by code_simp

lemma demo_init: "uvc_init2 None (0, new_context 0) = (0, Some demo_ctx)"
  by (simp add: demo_ctx_def uvc_init2_def)

lemma plugged_reach:
  assumes "plugged = Some c"
  shows "uvc_reach demo_lib {#} {#} c"
proof -
  have r: "uvc_reach demo_lib {#} {#} demo_ctx"
    by (rule reach_init [OF demo_init]) (simp add: demo_ctx_def uvc_init2_def)
  obtain r usb where "android_enumerate_device (ul_backend demo_lib) 1 2 (uc_usb demo_ctx) = Some (r, usb)"
    "c = demo_ctx\<lparr>uc_usb := usb\<rparr>" using assms by (auto simp: plugged_def split: Option.bind_splits)
  then show ?thesis using reach_step [OF r uvc_step.attached] by blast
qed

lemma found_reach:
  obtains c where "found_cam = Some (0, Some 0, c)" "uvc_reach demo_lib {#} {#0#} c"
    "uc_own_usb_ctx c" "map_option dv_ref (uc_devs c 0) = Some 1" "uc_open_devices c = []"
proof -
  obtain c where c: "found_cam = Some (0, Some 0, c)" "uc_own_usb_ctx c" "map_option dv_ref (uc_devs c 0) = Some 1"
    "uc_open_devices c = []" using found_cam_result by (auto split: option.splits)
  obtain c0 where 0: "plugged = Some c0" "uvc_find_device demo_lib 0x046d 0 None c0 = Some (0, Some 0, c)"
    using c(1) by (auto simp: found_cam_def split: Option.bind_splits)
  from reach_step [OF plugged_reach [OF 0(1)] uvc_step.found [OF 0(2)]]
  have "uvc_reach demo_lib {#} {#0#} c" by simp
  from that [OF c(1) this c(2-4)] show thesis .
qed

lemma opened_reach:
  obtains c c1 where "uvc_reach demo_lib {#} {#0#} c" "uvc_open demo_lib 0 c = Some (0, Some 1, c1)"
    "uvc_reach demo_lib {#} {#0#} c1" "opened_cam = Some (0, Some 1, c1)" "uc_own_usb_ctx c1" "uc_open_devices c1 = [1]"
    "map_option dv_ref (uc_devs c 0) = Some 1" "uc_open_devices c = []"
proof -
  obtain c where c: "found_cam = Some (0, Some 0, c)" "uvc_reach demo_lib {#} {#0#} c"
    "map_option dv_ref (uc_devs c 0) = Some 1" "uc_open_devices c = []" by (rule found_reach)
  obtain c1 where 1: "opened_cam = Some (0, Some 1, c1)" "uc_own_usb_ctx c1" "uc_open_devices c1 = [1]"
    using opened_cam_result by (auto split: option.splits)
  have o: "uvc_open demo_lib 0 c = Some (0, Some 1, c1)" using 1(1) unfolding opened_cam_def c(1) by simp
  have "uvc_step demo_lib ({#}, {#0#}, c) ({#}, {#0#}, c1)" by (rule uvc_step.opened [OF _ o]) simp
  from that [OF c(2) o reach_step [OF c(2) this] 1 c(3,4)] show thesis .
qed

lemma opened_handle:
  assumes "opened_cam = Some (0, Some 1, c1)"
  shows "handle_devs c1 = {#0#}"
proof -
  have "case opened_cam of None \<Rightarrow> False | Some (_, _, c) \<Rightarrow> map (\<lambda>h. uh_dev (the (uc_handles c h))) (uc_open_devices c) = [0]"
    by code_simp
  then show ?thesis unfolding assms handle_devs_def by simp
qed


theorem uvc_calls_defined_witness:
  "\<exists>c. opened_cam = Some (0, Some 1, c) \<and> uvc_unref_device demo_lib 0 c \<noteq> None \<and> uvc_get_device 1 c \<noteq> None
    \<and> uvc_get_device_list demo_lib c \<noteq> None"
proof -
  obtain c where c: "uvc_reach demo_lib {#} {#0#} c" "opened_cam = Some (0, Some 1, c)" "uc_open_devices c = [1]"
    by (rule opened_reach)
  then obtain x where "uc_handles c 1 = Some x" using uvc_okD(3) [OF reach_ok [OF c(1) demo_ample], of 1] by auto
  with uvc_calls_defined [OF c(1) demo_ample] c(2) show ?thesis by (metis union_single_eq_member add_mset_add_single)
qed


theorem uvc_open_close_witness:
  "\<exists>c c1 c2. uvc_open demo_lib 0 c = Some (0, Some 1, c1) \<and> uvc_close demo_lib (\<lambda>_. []) 1 c1 = Some c2
    \<and> map_option dv_ref (uc_devs c2 0) = Some 1 \<and> uc_open_devices c2 = []"
proof -
  obtain c c1 where c: "uvc_reach demo_lib {#} {#0#} c" "uvc_open demo_lib 0 c = Some (0, Some 1, c1)"
    "map_option dv_ref (uc_devs c 0) = Some 1" "uc_open_devices c = []" by (rule opened_reach)
  from uvc_open_close [OF c(1) demo_ample _ c(2), of "\<lambda>_. []" 0] c(2-4) show ?thesis by auto
qed

theorem uvc_find_first_witness:
  "\<exists>c dev c'. plugged = Some c \<and> uvc_find_device demo_lib 0x046d 0x0825 None c = Some (UVC_SUCCESS, dev, c')
    \<and> map_option (usb_of c') dev = Some 0"
proof -
  obtain c where c: "plugged = Some c" using found_cam_result by (cases plugged) (simp_all add: found_cam_def)
  have w: "wanted demo_lib (\<lambda>_. Some cam_config) 0x046d 0x0825 (uc_usb (the plugged)) = Some 0" by code_simp
  have "wanted demo_lib (\<lambda>_. Some cam_config) 0x046d 0x0825 (uc_usb c) = Some 0" using w unfolding c option.sel .
  note w = this
  have "stable_config demo_lib (\<lambda>_. Some cam_config)" by (simp add: stable_config_def demo_lib_def)
  from uvc_find_first [OF plugged_reach [OF c] demo_ample this, of "0x046d" "0x0825"] c show ?thesis unfolding w by fastforce
qed

theorem reopened_without_events_witness:
  "\<exists>c c1 c2. opened_cam = Some (0, Some 1, c) \<and> uvc_close demo_lib (\<lambda>_. []) 1 c = Some c1
    \<and> uvc_open demo_lib 0 c1 = Some (0, Some 2, c2) \<and> \<not> uc_thread c2"
proof -
  obtain c where c: "uvc_reach demo_lib {#} {#0#} c" "opened_cam = Some (0, Some 1, c)" "uc_own_usb_ctx c"
    "uc_open_devices c = [1]" by (rule opened_reach)
  have "case opened_cam of None \<Rightarrow> False | Some (_, _, c) \<Rightarrow>
      (case uvc_close demo_lib (\<lambda>_. []) 1 c of None \<Rightarrow> False | Some c1 \<Rightarrow>
        (case uvc_open demo_lib 0 c1 of None \<Rightarrow> False | Some (r, h, c2) \<Rightarrow> r = 0 \<and> h = Some 2))"
    by code_simp
  then obtain c1 c2 where 1: "uvc_close demo_lib (\<lambda>_. []) 1 c = Some c1" "uvc_open demo_lib 0 c1 = Some (0, Some 2, c2)"
    unfolding c(2) by (auto split: option.splits)
  have "0 \<in># {#0#}" by simp
  from reopened_without_events [OF c(1) demo_ample c(3,4) 1(1) this 1(2)] 1 c(2) show ?thesis by blast
qed

theorem uvc_exit_open_witness:
  "\<exists>c. opened_cam = Some (0, Some 1, c) \<and> uvc_exit demo_lib (\<lambda>_. []) c = None"
proof -
  obtain c where c: "uvc_reach demo_lib {#} {#0#} c" "opened_cam = Some (0, Some 1, c)" "uc_open_devices c = [1]"
    by (rule opened_reach)
  from uvc_exit_open [OF c(1) demo_ample, of "\<lambda>_. []"] c(3) have "uvc_exit demo_lib (\<lambda>_. []) c = None" by simp
  with c(2) show ?thesis by blast
qed

text \<open>A pressed button, in an open device with a button callback.\<close>

definition demo_handle :: uvc_handle where
  "demo_handle = \<lparr>uh_dev = 0, uh_usb_devh = 0, uh_devh = demo_devh, uh_status_xfer = Some 7, uh_status_cb = True,
     uh_button_cb = True, uh_streams = []\<rparr>"

theorem status_callback_spec_witness:
  "uvc_status_callback demo_lib demo_handle
     \<lparr>fi_status = TRANSFER_COMPLETED, fi_buffer = [2, 1, 0, 1, 9], fi_actual_length = 4, fi_packets = []\<rparr> 7 5
   = Some ([Button_cb 1 1], 5)"
  by (subst status_callback_spec) (simp_all add: demo_handle_def demo_lib_def)

text \<open>
  The camera is plugged in, looked up, the user drops the reference, it is unplugged, and the
  messages are read.
\<close>

definition look_up_and_unplug ::
  "(nat uvc_context \<Rightarrow> (int \<times> nat option \<times> nat uvc_context) option) \<Rightarrow> nat uvc_context option" where
  "look_up_and_unplug f =
     do { c \<leftarrow> plugged;
          (_, d, c) \<leftarrow> f c;
          d \<leftarrow> d;
          c \<leftarrow> uvc_unref_device demo_lib d c;
          usb \<leftarrow> android_device_disconnected (ul_backend demo_lib) 1 2 (uc_usb c);
          usb \<leftarrow> hotplug_read (ul_backend demo_lib) usb;
          usb \<leftarrow> hotplug_read (ul_backend demo_lib) usb;
          Some (c\<lparr>uc_usb := usb\<rparr>) }"

text \<open>
  A lookup with \<open>uvc_find_device2\<close> loses a reference of libusb: the one that
  \<open>libusb_find_device\<close> took for its caller is never dropped, so the struct of a camera that was
  looked up, dropped by the user and unplugged stays allocated, with a count of one. After the
  same steps with \<open>uvc_find_device\<close> it is gone.
\<close>
theorem find_device2_leaks:
  "map_option (\<lambda>c. (uc_devs c 0 = None, map_option ld_refcnt (lu_mem (uc_usb c) 0), lu_usb_devs (uc_usb c),
       lu_messages (uc_usb c)))
     (look_up_and_unplug (uvc_find_device2 demo_lib 0x046d 0 5)) = Some (True, Some 1, [], [])
   \<and> map_option (\<lambda>c. (uc_devs c 0 = None, map_option ld_refcnt (lu_mem (uc_usb c) 0), lu_usb_devs (uc_usb c),
       lu_messages (uc_usb c)))
     (look_up_and_unplug (uvc_find_device demo_lib 0x046d 0 None)) = Some (True, None, [], [])"
  by (rule conjI) code_simp+

end
