(* ===== verification/Libusb_Descriptor.thy ===== *)
theory Libusb_Descriptor
  imports Uvc_Controls Uvc_Descriptors
begin

text \<open>
  The descriptor parser of libusb, \<^verbatim>\<open>libusb/descriptor.c\<close>, and the search of the cached bytes of a
  device for a configuration, \<^verbatim>\<open>os/android_usbfs.c\<close>. A pointer into a buffer with the number of
  bytes left is a list and a number: the list runs to the end of the object, which may lie behind
  the bytes that are left. Whether memory is available is asked of the world. The host is
  little-endian, so the \<^verbatim>\<open>host_endian\<close> argument makes no difference.
\<close>

abbreviation (input) "LIBUSB_ERROR_INVALID_PARAM \<equiv> -2 :: int"
abbreviation (input) "LIBUSB_ERROR_NOT_FOUND \<equiv> -5 :: int"

section \<open>Fields\<close>

text \<open>
  \<^verbatim>\<open>b\<close>, \<^verbatim>\<open>w\<close> and \<^verbatim>\<open>d\<close> are one, two and four bytes, \<^verbatim>\<open>u\<close> is sixteen bytes, which are sixteen
  fields here.
\<close>

fun usbi_parse_descriptor :: "u8 list \<Rightarrow> string \<Rightarrow> u32 list option" where
  "usbi_parse_descriptor source [] = Some []"
| "usbi_parse_descriptor source (c # cs) =
     (if c = CHR ''b''
      then do { b \<leftarrow> rd source 0;
                fs \<leftarrow> usbi_parse_descriptor (drop 1 source) cs;
                Some (ucast b # fs) }
      else if c = CHR ''w''
      then do { bs \<leftarrow> rd_bytes source 0 2;
                fs \<leftarrow> usbi_parse_descriptor (drop 2 source) cs;
                Some (DW_TO_INT (bs ! 0) (bs ! 1) 0 0 # fs) }
      else if c = CHR ''d''
      then do { bs \<leftarrow> rd_bytes source 0 4;
                fs \<leftarrow> usbi_parse_descriptor (drop 4 source) cs;
                Some (DW_TO_INT (bs ! 0) (bs ! 1) (bs ! 2) (bs ! 3) # fs) }
      else if c = CHR ''u''
      then do { bs \<leftarrow> rd_bytes source 0 16;
                fs \<leftarrow> usbi_parse_descriptor (drop 16 source) cs;
                Some (map ucast bs @ fs) }
      else usbi_parse_descriptor source cs)"

definition LIBUSB_DT_DEVICE :: u8 where "LIBUSB_DT_DEVICE = 1"
definition LIBUSB_DT_CONFIG :: u8 where "LIBUSB_DT_CONFIG = 2"
definition LIBUSB_DT_STRING :: u8 where "LIBUSB_DT_STRING = 3"
definition LIBUSB_DT_INTERFACE :: u8 where "LIBUSB_DT_INTERFACE = 4"
definition LIBUSB_DT_ENDPOINT :: u8 where "LIBUSB_DT_ENDPOINT = 5"
definition LIBUSB_DT_ASSOCIATION :: u8 where "LIBUSB_DT_ASSOCIATION = 0x0b"
definition LIBUSB_DT_BOS :: u8 where "LIBUSB_DT_BOS = 0x0f"
definition LIBUSB_DT_DEVICE_CAPABILITY :: u8 where "LIBUSB_DT_DEVICE_CAPABILITY = 0x10"
definition LIBUSB_DT_SS_ENDPOINT_COMPANION :: u8 where "LIBUSB_DT_SS_ENDPOINT_COMPANION = 0x30"

lemmas DT_defs = LIBUSB_DT_DEVICE_def LIBUSB_DT_CONFIG_def LIBUSB_DT_STRING_def LIBUSB_DT_INTERFACE_def
  LIBUSB_DT_ENDPOINT_def LIBUSB_DT_ASSOCIATION_def LIBUSB_DT_BOS_def LIBUSB_DT_DEVICE_CAPABILITY_def
  LIBUSB_DT_SS_ENDPOINT_COMPANION_def

definition is_known_descriptor_type :: "u8 \<Rightarrow> bool" where
  "is_known_descriptor_type ty \<longleftrightarrow> ty = LIBUSB_DT_ENDPOINT \<or> ty = LIBUSB_DT_INTERFACE \<or> ty = LIBUSB_DT_CONFIG
     \<or> ty = LIBUSB_DT_DEVICE \<or> ty = LIBUSB_DT_ASSOCIATION"

section \<open>The records\<close>

text \<open>The \<^verbatim>\<open>extra\<close> bytes of a descriptor are a list; the null pointer is the empty one.\<close>

record endpoint_descriptor =
  ed_bLength :: u8
  ed_bDescriptorType :: u8
  ed_bEndpointAddress :: u8
  ed_bmAttributes :: u8
  ed_wMaxPacketSize :: u16
  ed_bInterval :: u8
  ed_bRefresh :: u8
  ed_bSynchAddress :: u8
  ed_extra :: "u8 list"

record interface_descriptor =
  id_bLength :: u8
  id_bDescriptorType :: u8
  id_bInterfaceNumber :: u8
  id_bAlternateSetting :: u8
  id_bNumEndpoints :: u8
  id_bInterfaceClass :: u8
  id_bInterfaceSubClass :: u8
  id_bInterfaceProtocol :: u8
  id_iInterface :: u8
  id_endpoint :: "endpoint_descriptor list"
  id_extra :: "u8 list"

record association_descriptor =
  ia_bLength :: u8
  ia_bDescriptorType :: u8
  ia_bFirstInterface :: u8
  ia_bInterfaceCount :: u8
  ia_bFunctionClass :: u8
  ia_bFunctionSubClass :: u8
  ia_bFunctionProtocol :: u8
  ia_iFunction :: u8

text \<open>\<open>cd_interface\<close> is the array of interfaces, each the list of its altsettings.\<close>

record config_descriptor =
  cd_bLength :: u8
  cd_bDescriptorType :: u8
  cd_wTotalLength :: u16
  cd_bNumInterfaces :: u8
  cd_bConfigurationValue :: u8
  cd_iConfiguration :: u8
  cd_bmAttributes :: u8
  cd_MaxPower :: u8
  cd_interface :: "interface_descriptor list list"
  cd_associations :: "association_descriptor list"
  cd_extra :: "u8 list"

text \<open>Records of the parsed fields; a field that was not parsed is zero, as the memory was cleared.\<close>

definition fld :: "u32 list \<Rightarrow> nat \<Rightarrow> 'a::len word" where
  "fld fs i = (if i < length fs then ucast (fs ! i) else 0)"

definition endpoint_of :: "u32 list \<Rightarrow> endpoint_descriptor" where
  "endpoint_of fs = \<lparr>ed_bLength = fld fs 0, ed_bDescriptorType = fld fs 1, ed_bEndpointAddress = fld fs 2,
     ed_bmAttributes = fld fs 3, ed_wMaxPacketSize = fld fs 4, ed_bInterval = fld fs 5,
     ed_bRefresh = fld fs 6, ed_bSynchAddress = fld fs 7, ed_extra = []\<rparr>"

definition interface_of :: "u32 list \<Rightarrow> interface_descriptor" where
  "interface_of fs = \<lparr>id_bLength = fld fs 0, id_bDescriptorType = fld fs 1, id_bInterfaceNumber = fld fs 2,
     id_bAlternateSetting = fld fs 3, id_bNumEndpoints = fld fs 4, id_bInterfaceClass = fld fs 5,
     id_bInterfaceSubClass = fld fs 6, id_bInterfaceProtocol = fld fs 7, id_iInterface = fld fs 8,
     id_endpoint = [], id_extra = []\<rparr>"

definition association_of :: "u32 list \<Rightarrow> association_descriptor" where
  "association_of fs = \<lparr>ia_bLength = fld fs 0, ia_bDescriptorType = fld fs 1, ia_bFirstInterface = fld fs 2,
     ia_bInterfaceCount = fld fs 3, ia_bFunctionClass = fld fs 4, ia_bFunctionSubClass = fld fs 5,
     ia_bFunctionProtocol = fld fs 6, ia_iFunction = fld fs 7\<rparr>"

definition config_of_fields :: "u32 list \<Rightarrow> config_descriptor" where
  "config_of_fields fs = \<lparr>cd_bLength = fld fs 0, cd_bDescriptorType = fld fs 1, cd_wTotalLength = fld fs 2,
     cd_bNumInterfaces = fld fs 3, cd_bConfigurationValue = fld fs 4, cd_iConfiguration = fld fs 5,
     cd_bmAttributes = fld fs 6, cd_MaxPower = fld fs 7, cd_interface = [], cd_associations = [], cd_extra = []\<rparr>"

section \<open>Endpoints, interfaces and associations\<close>

text \<open>
  The loop over class and vendor specific descriptors that all four parsers have: it meets a
  length below two, a descriptor that is longer than the bytes left, or a descriptor of a known
  type or the end. \<open>header\<close> is the type that was read last.
\<close>

datatype skipped = Bad_length | Short_read nat | Skipped nat "u8 option"

partial_function (option) skip_extra :: "u8 list \<Rightarrow> nat \<Rightarrow> u8 option \<Rightarrow> nat \<Rightarrow> skipped option" where
  "skip_extra buffer sz header n =
     (if sz < 2 then Some (Skipped n header)
      else do {
        bLength \<leftarrow> rd buffer 0;
        ty \<leftarrow> rd buffer 1;
        if bLength < 2 then Some Bad_length
        else if sz < unat bLength then Some (Short_read n)
        else if is_known_descriptor_type ty then Some (Skipped n (Some ty))
        else skip_extra (drop (unat bLength) buffer) (sz - unat bLength) (Some ty) (n + unat bLength) })"

declare skip_extra.simps [code]

definition parse_endpoint ::
  "('w \<Rightarrow> bool \<times> 'w) \<Rightarrow> u8 list \<Rightarrow> nat \<Rightarrow> 'w \<Rightarrow> (int \<times> endpoint_descriptor \<times> 'w) option" where
  "parse_endpoint alloc buffer sz w =
     (if sz < 2 then Some (LIBUSB_ERROR_IO, endpoint_of [], w)
      else do {
        bLength \<leftarrow> rd buffer 0;
        ty \<leftarrow> rd buffer 1;
        if ty \<noteq> LIBUSB_DT_ENDPOINT \<or> sz < unat bLength then Some (0, endpoint_of [], w)
        else if bLength < 7 then Some (LIBUSB_ERROR_IO, endpoint_of [], w)
        else do {
          fs \<leftarrow> usbi_parse_descriptor buffer (if 9 \<le> bLength then ''bbbbwbbb'' else ''bbbbwb'');
          let n = unat bLength;
          r \<leftarrow> skip_extra (drop n buffer) (sz - n) (Some ty) 0;
          (case r of
             Bad_length \<Rightarrow> Some (LIBUSB_ERROR_IO, endpoint_of fs, w)
           | Short_read k \<Rightarrow> Some (int (n + k), endpoint_of fs, w)
           | Skipped k _ \<Rightarrow>
               if k = 0 then Some (int n, endpoint_of fs, w)
               else let (ok, w) = alloc w
                 in if \<not> ok then Some (LIBUSB_ERROR_NO_MEM, endpoint_of fs, w)
                    else do { extra \<leftarrow> rd_bytes buffer n k;
                              Some (int (n + k), (endpoint_of fs)\<lparr>ed_extra := extra\<rparr>, w) }) } })"

text \<open>
  The endpoints of an altsetting: those parsed when the count is reached or something else
  comes, and the bytes they take.
\<close>

fun parse_endpoints ::
  "('w \<Rightarrow> bool \<times> 'w) \<Rightarrow> nat \<Rightarrow> u8 list \<Rightarrow> nat \<Rightarrow> endpoint_descriptor list \<Rightarrow> nat \<Rightarrow> 'w
     \<Rightarrow> (int \<times> endpoint_descriptor list \<times> nat \<times> 'w) option" where
  "parse_endpoints alloc 0 buffer sz eps parsed w = Some (0, eps, parsed, w)"
| "parse_endpoints alloc (Suc k) buffer sz eps parsed w =
     do { (r, ep, w) \<leftarrow> parse_endpoint alloc buffer sz w;
          if r < 0 then Some (r, eps, parsed, w)
          else if r = 0 then Some (0, eps, parsed, w)
          else parse_endpoints alloc k (drop (nat r) buffer) (sz - nat r) (eps @ [ep]) (parsed + nat r) w }"

text \<open>
  One turn of the loop over the altsettings of an interface: an error, the end of the interface
  (perhaps after an altsetting that counts), or an altsetting, with the bytes it took.
\<close>

datatype alt_outcome = Alt_fail int | Alt_stop nat "interface_descriptor option" | Alt_next nat interface_descriptor

definition alt_body ::
  "('w \<Rightarrow> bool \<times> 'w) \<Rightarrow> u8 list \<Rightarrow> nat \<Rightarrow> nat \<Rightarrow> nat \<Rightarrow> interface_descriptor \<Rightarrow> 'w \<Rightarrow> (alt_outcome \<times> 'w) option" where
  "alt_body alloc buffer sz n k ifp w =
     (let (ok, w) = (if k = 0 then (True, w) else alloc w)
      in if \<not> ok then Some (Alt_fail LIBUSB_ERROR_NO_MEM, w)
      else do {
        extra \<leftarrow> rd_bytes buffer n k;
        let ifp = ifp\<lparr>id_extra := extra\<rparr>;
        if id_bNumEndpoints ifp = 0 then Some (Alt_next (n + k) ifp, w)
        else let (ok, w) = alloc w
          in if \<not> ok then Some (Alt_fail LIBUSB_ERROR_NO_MEM, w)
          else do {
            (r, eps, m, w) \<leftarrow> parse_endpoints alloc (unat (id_bNumEndpoints ifp))
              (drop (n + k) buffer) (sz - (n + k)) [] 0 w;
            if r < 0 then Some (Alt_fail r, w)
            else Some (Alt_next (n + k + m)
              (ifp\<lparr>id_bNumEndpoints := of_nat (length eps), id_endpoint := eps\<rparr>), w) } })"

definition parse_altsetting ::
  "('w \<Rightarrow> bool \<times> 'w) \<Rightarrow> u8 list \<Rightarrow> nat \<Rightarrow> 'w \<Rightarrow> (alt_outcome \<times> 'w) option" where
  "parse_altsetting alloc buffer sz w =
     do { fs \<leftarrow> usbi_parse_descriptor buffer ''bbbbbbbbb'';
          let ifp = interface_of fs;
          let n = unat (id_bLength ifp);
          if id_bDescriptorType ifp \<noteq> LIBUSB_DT_INTERFACE then Some (Alt_stop 0 None, w)
          else if n < 9 then Some (Alt_fail LIBUSB_ERROR_IO, w)
          else if sz < n then Some (Alt_stop 0 None, w)
          else if 32 < id_bNumEndpoints ifp then Some (Alt_fail LIBUSB_ERROR_IO, w)
          else do {
            r \<leftarrow> skip_extra (drop n buffer) (sz - n) (Some LIBUSB_DT_INTERFACE) 0;
            (case r of
               Bad_length \<Rightarrow> Some (Alt_fail LIBUSB_ERROR_IO, w)
             | Short_read k \<Rightarrow> Some (Alt_stop (n + k) (Some ifp), w)
             | Skipped k _ \<Rightarrow> alt_body alloc buffer sz n k ifp w) } }"

text \<open>
  The array of altsettings grows by one before each is parsed. When it cannot, the code has
  freed it and then frees what its elements hold.
\<close>

partial_function (option) parse_altsettings ::
  "('w \<Rightarrow> bool \<times> 'w) \<Rightarrow> interface_descriptor list \<Rightarrow> u8 option \<Rightarrow> u8 list \<Rightarrow> nat \<Rightarrow> nat \<Rightarrow> 'w
     \<Rightarrow> (int \<times> interface_descriptor list \<times> 'w) option" where
  "parse_altsettings alloc alts ifno buffer sz parsed w =
     (if sz < 9 then Some (int parsed, alts, w)
      else let (ok, w) = alloc w
      in if \<not> ok then (if alts = [] then Some (LIBUSB_ERROR_NO_MEM, [], w) else None)
      else do {
        (outcome, w) \<leftarrow> parse_altsetting alloc buffer sz w;
        (case outcome of
           Alt_fail r \<Rightarrow> Some (r, [], w)
         | Alt_stop n a \<Rightarrow> Some (int (parsed + n), alts @ (case a of None \<Rightarrow> [] | Some a \<Rightarrow> [a]), w)
         | Alt_next n a \<Rightarrow>
             let interface_number = (case ifno of None \<Rightarrow> id_bInterfaceNumber a | Some i \<Rightarrow> i)
             in if sz - n < 9 then Some (int (parsed + n), alts @ [a], w)
             else do {
               ty \<leftarrow> rd buffer (n + 1);
               num \<leftarrow> rd buffer (n + 2);
               if ty \<noteq> LIBUSB_DT_INTERFACE \<or> num \<noteq> interface_number then Some (int (parsed + n), alts @ [a], w)
               else parse_altsettings alloc (alts @ [a]) (Some interface_number) (drop n buffer) (sz - n)
                 (parsed + n) w }) })"

declare parse_altsettings.simps [code]

definition parse_interface ::
  "('w \<Rightarrow> bool \<times> 'w) \<Rightarrow> u8 list \<Rightarrow> nat \<Rightarrow> 'w \<Rightarrow> (int \<times> interface_descriptor list \<times> 'w) option" where
  "parse_interface alloc buffer sz w = parse_altsettings alloc [] None buffer sz 0 w"

definition parse_association ::
  "('w \<Rightarrow> bool \<times> 'w) \<Rightarrow> config_descriptor \<Rightarrow> u8 list \<Rightarrow> nat \<Rightarrow> 'w \<Rightarrow> (int \<times> config_descriptor \<times> 'w) option" where
  "parse_association alloc config buffer sz w =
     (if sz < 2 then Some (LIBUSB_ERROR_IO, config, w)
      else do {
        bLength \<leftarrow> rd buffer 0;
        ty \<leftarrow> rd buffer 1;
        if ty \<noteq> LIBUSB_DT_ASSOCIATION \<or> sz < unat bLength then Some (0, config, w)
        else if bLength < 8 then Some (LIBUSB_ERROR_IO, config, w)
        else let (ok, w) = alloc w
        in if \<not> ok then Some (LIBUSB_ERROR_NO_MEM, config\<lparr>cd_associations := []\<rparr>, w)
        else do {
          fs \<leftarrow> usbi_parse_descriptor buffer ''bbbbbbbb'';
          let config = config\<lparr>cd_associations := cd_associations config @ [association_of fs]\<rparr>;
          let n = unat bLength;
          r \<leftarrow> skip_extra (drop n buffer) (sz - n) (Some ty) 0;
          (case r of
             Bad_length \<Rightarrow> Some (LIBUSB_ERROR_IO, config, w)
           | Short_read k \<Rightarrow> Some (int (n + k), config, w)
           | Skipped k _ \<Rightarrow>
               if k = 0 then Some (int n, config, w)
               else let (ok, w) = alloc w
                 in if \<not> ok then Some (LIBUSB_ERROR_NO_MEM, config\<lparr>cd_extra := []\<rparr>, w)
                    else do { extra \<leftarrow> rd_bytes buffer n k;
                              Some (int (n + k), config\<lparr>cd_extra := cd_extra config @ extra\<rparr>, w) }) } })"

section \<open>Configurations\<close>

text \<open>
  What stands after the skipped descriptors decides; when no header was ever read the code looks
  at an uninitialised one. The interface counts before the result is looked at.
\<close>

definition parse_part ::
  "('w \<Rightarrow> bool \<times> 'w) \<Rightarrow> config_descriptor \<Rightarrow> nat \<Rightarrow> u8 option \<Rightarrow> u8 list \<Rightarrow> nat \<Rightarrow> 'w
     \<Rightarrow> (int \<times> nat \<times> config_descriptor \<times> 'w) option" where
  "parse_part alloc config parsed_if header buffer sz w =
     do { ty \<leftarrow> header;
          if ty = LIBUSB_DT_ASSOCIATION
          then do { (r, config, w) \<leftarrow> parse_association alloc config buffer sz w;
                    Some (r, parsed_if, config, w) }
          else do { (r, alts, w) \<leftarrow> parse_interface alloc buffer sz w;
                    Some (r, parsed_if + 1, config\<lparr>cd_interface := (cd_interface config)[parsed_if := alts]\<rparr>, w) } }"

partial_function (option) parse_interfaces ::
  "('w \<Rightarrow> bool \<times> 'w) \<Rightarrow> config_descriptor \<Rightarrow> nat \<Rightarrow> u8 option \<Rightarrow> u8 list \<Rightarrow> nat \<Rightarrow> 'w
     \<Rightarrow> (int \<times> config_descriptor \<times> 'w) option" where
  "parse_interfaces alloc config parsed_if header buffer sz w =
     (if parsed_if < unat (cd_bNumInterfaces config) \<and> 0 < sz
      then do {
        r \<leftarrow> skip_extra buffer sz header 0;
        (case r of
           Bad_length \<Rightarrow> Some (LIBUSB_ERROR_IO, config, w)
         | Short_read k \<Rightarrow> Some (int (sz - k), config\<lparr>cd_bNumInterfaces := of_nat parsed_if\<rparr>, w)
         | Skipped k header \<Rightarrow>
             let (ok, w) = (if k = 0 then (True, w) else alloc w)
             in if \<not> ok then Some (LIBUSB_ERROR_NO_MEM, config\<lparr>cd_extra := []\<rparr>, w)
             else do {
               extra \<leftarrow> rd_bytes buffer 0 k;
               let config = config\<lparr>cd_extra := cd_extra config @ extra\<rparr>;
               (r, parsed_if, config, w) \<leftarrow> parse_part alloc config parsed_if header (drop k buffer) (sz - k) w;
               if r < 0 then Some (r, config, w)
               else if r = 0 then Some (int (sz - k), config\<lparr>cd_bNumInterfaces := of_nat parsed_if\<rparr>, w)
               else parse_interfaces alloc config parsed_if header (drop (k + nat r) buffer) (sz - (k + nat r)) w }) }
      else Some (int sz, config, w))"

declare parse_interfaces.simps [code]

definition parse_configuration ::
  "('w \<Rightarrow> bool \<times> 'w) \<Rightarrow> u8 list \<Rightarrow> nat \<Rightarrow> 'w \<Rightarrow> (int \<times> config_descriptor \<times> 'w) option" where
  "parse_configuration alloc buffer sz w =
     (if sz < 9 then Some (LIBUSB_ERROR_IO, config_of_fields [], w)
      else do {
        fs \<leftarrow> usbi_parse_descriptor buffer ''bbwbbbbb'';
        let config = config_of_fields fs;
        let n = unat (cd_bLength config);
        if cd_bDescriptorType config \<noteq> LIBUSB_DT_CONFIG \<or> n < 9 \<or> sz < n \<or> 32 < cd_bNumInterfaces config
        then Some (LIBUSB_ERROR_IO, config, w)
        else let (ok, w) = alloc w
        in if \<not> ok then Some (LIBUSB_ERROR_NO_MEM, config, w)
        else parse_interfaces alloc (config\<lparr>cd_interface := replicate (unat (cd_bNumInterfaces config)) []\<rparr>) 0 None
          (drop n buffer) (sz - n) w })"

definition raw_desc_to_config ::
  "('w \<Rightarrow> bool \<times> 'w) \<Rightarrow> u8 list \<Rightarrow> nat \<Rightarrow> 'w \<Rightarrow> (int \<times> config_descriptor option \<times> 'w) option" where
  "raw_desc_to_config alloc buf sz w =
     (let (ok, w) = alloc w
      in if \<not> ok then Some (LIBUSB_ERROR_NO_MEM, None, w)
      else do { (r, config, w) \<leftarrow> parse_configuration alloc buf sz w;
                if r < 0 then Some (r, None, w) else Some (0, Some config, w) })"

section \<open>The cached descriptors of a device\<close>

text \<open>
  The backend keeps the bytes of all descriptors of a device, the device descriptor first;
  \<open>uc_active\<close> is the configuration value in use, \<open>-1\<close> when there is none. The seek
  functions take the number of bytes that are left as a signed integer, as the code does.
\<close>

record usb_cache =
  uc_descriptors :: "u8 list"
  uc_num_configurations :: u8
  uc_active :: int

partial_function (option) seek_to_first_descriptor :: "u8 \<Rightarrow> u8 list \<Rightarrow> int \<Rightarrow> nat \<Rightarrow> int option" where
  "seek_to_first_descriptor ty buffer sz i =
     (if sz < 0 then Some LIBUSB_ERROR_IO
      else if sz = 0 then Some LIBUSB_ERROR_NOT_FOUND
      else if sz < 2 then Some LIBUSB_ERROR_IO
      else do {
        bLength \<leftarrow> rd buffer i;
        t \<leftarrow> rd buffer (i + 1);
        if t = ty then Some (int i)
        else seek_to_first_descriptor ty buffer (sz - uint bLength) (i + unat bLength) })"

partial_function (option) seek_to_next_descriptor :: "u8 \<Rightarrow> u8 list \<Rightarrow> int \<Rightarrow> nat \<Rightarrow> int option" where
  "seek_to_next_descriptor ty buffer sz i =
     (if sz < 0 then Some LIBUSB_ERROR_IO
      else if sz = 0 then Some LIBUSB_ERROR_NOT_FOUND
      else if sz < 2 then Some LIBUSB_ERROR_IO
      else do {
        bLength \<leftarrow> rd buffer i;
        t \<leftarrow> rd buffer (i + 1);
        if i \<noteq> 0 \<and> t = ty then Some (int i)
        else seek_to_next_descriptor ty buffer (sz - uint bLength) (i + unat bLength) })"

declare seek_to_first_descriptor.simps [code] seek_to_next_descriptor.simps [code]

text \<open>\<open>sysfs\<close> is \<^verbatim>\<open>sysfs_has_descriptors\<close>.\<close>

definition seek_to_next_config :: "bool \<Rightarrow> u8 list \<Rightarrow> int \<Rightarrow> int option" where
  "seek_to_next_config sysfs buffer sz =
     (if sz = 0 then Some LIBUSB_ERROR_NOT_FOUND
      else if sz < 9 then Some LIBUSB_ERROR_IO
      else do {
        fs \<leftarrow> usbi_parse_descriptor buffer ''bbwbbbbb'';
        let config = config_of_fields fs;
        if cd_bDescriptorType config \<noteq> LIBUSB_DT_CONFIG then Some LIBUSB_ERROR_IO
        else if sysfs
        then do { n \<leftarrow> seek_to_next_descriptor LIBUSB_DT_CONFIG buffer sz 0;
                  Some (if n = LIBUSB_ERROR_NOT_FOUND then sz else n) }
        else if cd_wTotalLength config < 9 then Some LIBUSB_ERROR_IO
        else if sz < uint (cd_wTotalLength config) then Some sz
        else Some (uint (cd_wTotalLength config)) })"

text \<open>The two loops over the configurations; the result is a size and where it starts.\<close>

partial_function (option) config_by_value :: "bool \<Rightarrow> u8 \<Rightarrow> u8 list \<Rightarrow> int \<Rightarrow> (int \<times> u8 list) option" where
  "config_by_value sysfs val descriptors sz =
     do { n \<leftarrow> seek_to_next_config sysfs descriptors sz;
          if n < 0 then Some (n, [])
          else do {
            bConfigurationValue \<leftarrow> rd descriptors 5;
            if bConfigurationValue = val then Some (n, descriptors)
            else config_by_value sysfs val (drop (nat n) descriptors) (sz - n) } }"

declare config_by_value.simps [code]

fun config_by_index :: "bool \<Rightarrow> nat \<Rightarrow> u8 list \<Rightarrow> int \<Rightarrow> (int \<times> u8 list) option" where
  "config_by_index sysfs 0 descriptors sz =
     do { r \<leftarrow> seek_to_next_config sysfs descriptors sz;
          Some (r, if r < 0 then [] else descriptors) }"
| "config_by_index sysfs (Suc k) descriptors sz =
     do { r \<leftarrow> seek_to_next_config sysfs descriptors sz;
          if r < 0 then Some (r, []) else config_by_index sysfs k (drop (nat r) descriptors) (sz - r) }"

definition op_get_config_descriptor_by_value :: "bool \<Rightarrow> usb_cache \<Rightarrow> u8 \<Rightarrow> (int \<times> u8 list) option" where
  "op_get_config_descriptor_by_value sysfs uc val =
     (let descriptors = drop 18 (uc_descriptors uc); sz = int (length (uc_descriptors uc)) - 18
      in do { r \<leftarrow> seek_to_first_descriptor LIBUSB_DT_CONFIG descriptors sz 0;
              if r < 0 then Some (r, [])
              else config_by_value sysfs val (drop (nat r) descriptors) (sz - r) })"

text \<open>The bytes that are copied to the caller's buffer of \<open>len\<close> bytes.\<close>

definition op_get_config_descriptor :: "bool \<Rightarrow> usb_cache \<Rightarrow> u8 \<Rightarrow> nat \<Rightarrow> (int \<times> u8 list) option" where
  "op_get_config_descriptor sysfs uc config_index len =
     (let descriptors = drop 18 (uc_descriptors uc); sz = int (length (uc_descriptors uc)) - 18
      in do { r \<leftarrow> seek_to_first_descriptor LIBUSB_DT_CONFIG descriptors sz 0;
              if r < 0 then Some (r, [])
              else do {
                (r, found) \<leftarrow> config_by_index sysfs (unat config_index) (drop (nat r) descriptors) (sz - r);
                if r < 0 then Some (r, [])
                else do { bytes \<leftarrow> rd_bytes found 0 (min len (nat r));
                          Some (int (min len (nat r)), bytes) } } })"

definition op_get_active_config_descriptor :: "bool \<Rightarrow> usb_cache \<Rightarrow> nat \<Rightarrow> (int \<times> u8 list) option" where
  "op_get_active_config_descriptor sysfs uc len =
     (if uc_active uc = -1 then Some (LIBUSB_ERROR_NOT_FOUND, [])
      else do {
        (r, config_desc) \<leftarrow> op_get_config_descriptor_by_value sysfs uc (word_of_int (uc_active uc));
        if r < 0 then Some (r, [])
        else do { bytes \<leftarrow> rd_bytes config_desc 0 (min len (nat r));
                  Some (int (min len (nat r)), bytes) } })"

text \<open>
  The two reads of a configuration: nine bytes for its total length, then all of it, from
  \<open>get\<close>, which is one of the two functions above.
\<close>

definition read_config ::
  "('w \<Rightarrow> bool \<times> 'w) \<Rightarrow> (nat \<Rightarrow> (int \<times> u8 list) option) \<Rightarrow> 'w \<Rightarrow> (int \<times> config_descriptor option \<times> 'w) option" where
  "read_config alloc get w =
     do { (r, tmp) \<leftarrow> get 9;
          if r < 0 then Some (r, None, w)
          else if r < 9 then Some (LIBUSB_ERROR_IO, None, w)
          else do {
            fs \<leftarrow> usbi_parse_descriptor tmp ''bbw'';
            let (ok, w) = alloc w;
            if \<not> ok then Some (LIBUSB_ERROR_NO_MEM, None, w)
            else do {
              (r, buf) \<leftarrow> get (unat (fld fs 2 :: u16));
              if 0 \<le> r then raw_desc_to_config alloc buf (nat r) w else Some (r, None, w) } } }"

definition libusb_get_active_config_descriptor ::
  "('w \<Rightarrow> bool \<times> 'w) \<Rightarrow> bool \<Rightarrow> usb_cache \<Rightarrow> 'w \<Rightarrow> (int \<times> config_descriptor option \<times> 'w) option" where
  "libusb_get_active_config_descriptor alloc sysfs uc w =
     read_config alloc (op_get_active_config_descriptor sysfs uc) w"

definition libusb_get_config_descriptor ::
  "('w \<Rightarrow> bool \<times> 'w) \<Rightarrow> bool \<Rightarrow> usb_cache \<Rightarrow> u8 \<Rightarrow> 'w \<Rightarrow> (int \<times> config_descriptor option \<times> 'w) option" where
  "libusb_get_config_descriptor alloc sysfs uc config_index w =
     (if uc_num_configurations uc \<le> config_index then Some (LIBUSB_ERROR_NOT_FOUND, None, w)
      else read_config alloc (op_get_config_descriptor sysfs uc config_index) w)"

text \<open>\<open>None\<close> is the index \<open>-1\<close>.\<close>

fun config_index_loop :: "bool \<Rightarrow> usb_cache \<Rightarrow> u8 \<Rightarrow> nat list \<Rightarrow> (int \<times> u8 option) option" where
  "config_index_loop sysfs uc val [] = Some (0, None)"
| "config_index_loop sysfs uc val (i # is) =
     do { (r, tmp) \<leftarrow> op_get_config_descriptor sysfs uc (of_nat i) 6;
          if r < 0 then Some (r, None)
          else do { v \<leftarrow> rd tmp 5;
                    if v = val then Some (0, Some (of_nat i)) else config_index_loop sysfs uc val is } }"

definition usbi_get_config_index_by_value :: "bool \<Rightarrow> usb_cache \<Rightarrow> u8 \<Rightarrow> (int \<times> u8 option) option" where
  "usbi_get_config_index_by_value sysfs uc val =
     config_index_loop sysfs uc val [0..<unat (uc_num_configurations uc)]"

text \<open>The backend has a search by value, so the search by index is not reached.\<close>

definition libusb_get_config_descriptor_by_value ::
  "('w \<Rightarrow> bool \<times> 'w) \<Rightarrow> bool \<Rightarrow> usb_cache \<Rightarrow> u8 \<Rightarrow> 'w \<Rightarrow> (int \<times> config_descriptor option \<times> 'w) option" where
  "libusb_get_config_descriptor_by_value alloc sysfs uc val w =
     do { (r, buf) \<leftarrow> op_get_config_descriptor_by_value sysfs uc val;
          if r < 0 then Some (r, None, w) else raw_desc_to_config alloc buf (nat r) w }"

section \<open>SuperSpeed companions and capabilities\<close>

record ss_endpoint_companion =
  ss_bLength :: u8
  ss_bDescriptorType :: u8
  ss_bMaxBurst :: u8
  ss_bmAttributes :: u8
  ss_wBytesPerInterval :: u16

definition ss_companion_of :: "u32 list \<Rightarrow> ss_endpoint_companion" where
  "ss_companion_of fs = \<lparr>ss_bLength = fld fs 0, ss_bDescriptorType = fld fs 1, ss_bMaxBurst = fld fs 2,
     ss_bmAttributes = fld fs 3, ss_wBytesPerInterval = fld fs 4\<rparr>"

partial_function (option) find_ss_companion ::
  "('w \<Rightarrow> bool \<times> 'w) \<Rightarrow> u8 list \<Rightarrow> 'w \<Rightarrow> (int \<times> ss_endpoint_companion option \<times> 'w) option" where
  "find_ss_companion alloc buffer w =
     (if length buffer < 2 then Some (LIBUSB_ERROR_NOT_FOUND, None, w)
      else do {
        bLength \<leftarrow> rd buffer 0;
        ty \<leftarrow> rd buffer 1;
        if bLength < 2 \<or> length buffer < unat bLength then Some (LIBUSB_ERROR_IO, None, w)
        else if ty \<noteq> LIBUSB_DT_SS_ENDPOINT_COMPANION then find_ss_companion alloc (drop (unat bLength) buffer) w
        else if bLength < 6 then Some (LIBUSB_ERROR_IO, None, w)
        else let (ok, w) = alloc w
        in if \<not> ok then Some (LIBUSB_ERROR_NO_MEM, None, w)
        else do { fs \<leftarrow> usbi_parse_descriptor buffer ''bbbbw'';
                  Some (0, Some (ss_companion_of fs), w) } })"

declare find_ss_companion.simps [code]

definition libusb_get_ss_endpoint_companion_descriptor ::
  "('w \<Rightarrow> bool \<times> 'w) \<Rightarrow> endpoint_descriptor \<Rightarrow> 'w \<Rightarrow> (int \<times> ss_endpoint_companion option \<times> 'w) option" where
  "libusb_get_ss_endpoint_companion_descriptor alloc endpoint w = find_ss_companion alloc (ed_extra endpoint) w"

text \<open>A capability is the object that is allocated for it, of its own length.\<close>

record bos_descriptor =
  bos_bLength :: u8
  bos_bDescriptorType :: u8
  bos_wTotalLength :: u16
  bos_bNumDeviceCaps :: u8
  bos_dev_capability :: "u8 list list"

definition bos_of :: "u32 list \<Rightarrow> bos_descriptor" where
  "bos_of fs = \<lparr>bos_bLength = fld fs 0, bos_bDescriptorType = fld fs 1, bos_wTotalLength = fld fs 2,
     bos_bNumDeviceCaps = fld fs 3, bos_dev_capability = []\<rparr>"

fun parse_caps ::
  "('w \<Rightarrow> bool \<times> 'w) \<Rightarrow> nat \<Rightarrow> u8 list \<Rightarrow> nat \<Rightarrow> u8 list list \<Rightarrow> 'w \<Rightarrow> (int \<times> u8 list list \<times> 'w) option" where
  "parse_caps alloc 0 buffer sz caps w = Some (0, caps, w)"
| "parse_caps alloc (Suc k) buffer sz caps w =
     (if sz < 3 then Some (0, caps, w)
      else do {
        fs \<leftarrow> usbi_parse_descriptor buffer ''bbb'';
        let n = unat (fld fs 0 :: u8);
        if fld fs 1 \<noteq> LIBUSB_DT_DEVICE_CAPABILITY then Some (0, caps, w)
        else if n < 3 then Some (LIBUSB_ERROR_IO, [], w)
        else if sz < n then Some (0, caps, w)
        else let (ok, w) = alloc w
        in if \<not> ok then Some (LIBUSB_ERROR_NO_MEM, [], w)
        else do { cap \<leftarrow> rd_bytes buffer 0 n;
                  parse_caps alloc k (drop n buffer) (sz - n) (caps @ [cap]) w } })"

definition parse_bos ::
  "('w \<Rightarrow> bool \<times> 'w) \<Rightarrow> u8 list \<Rightarrow> nat \<Rightarrow> 'w \<Rightarrow> (int \<times> bos_descriptor option \<times> 'w) option" where
  "parse_bos alloc buffer sz w =
     (if sz < 5 then Some (LIBUSB_ERROR_IO, None, w)
      else do {
        fs \<leftarrow> usbi_parse_descriptor buffer ''bbwb'';
        let bos = bos_of fs;
        let n = unat (bos_bLength bos);
        if bos_bDescriptorType bos \<noteq> LIBUSB_DT_BOS \<or> n < 5 \<or> sz < n then Some (LIBUSB_ERROR_IO, None, w)
        else let (ok, w) = alloc w
        in if \<not> ok then Some (LIBUSB_ERROR_NO_MEM, None, w)
        else do {
          (r, caps, w) \<leftarrow> parse_caps alloc (unat (bos_bNumDeviceCaps bos)) (drop n buffer) (sz - n) [] w;
          if r < 0 then Some (r, None, w)
          else Some (0, Some (bos\<lparr>bos_bNumDeviceCaps := of_nat (length caps), bos_dev_capability := caps\<rparr>), w) } })"

definition libusb_get_descriptor ::
  "'w usb \<Rightarrow> u8 \<Rightarrow> u8 \<Rightarrow> u8 list \<Rightarrow> u16 \<Rightarrow> 'w \<Rightarrow> (int \<times> u8 list \<times> 'w) option" where
  "libusb_get_descriptor u desc_type desc_index data n w =
     libusb_control_transfer u 0x80 6 (push_bit 8 (ucast desc_type) OR ucast desc_index) 0 data n 1000 w"

definition libusb_get_bos_descriptor :: "'w usb \<Rightarrow> 'w \<Rightarrow> (int \<times> bos_descriptor option \<times> 'w) option" where
  "libusb_get_bos_descriptor u w =
     do { (r, header, w) \<leftarrow> libusb_get_descriptor u LIBUSB_DT_BOS 0 (replicate 5 0) 5 w;
          if r < 0 then Some (r, None, w)
          else if r < 5 then Some (LIBUSB_ERROR_IO, None, w)
          else do {
            fs \<leftarrow> usbi_parse_descriptor header ''bbwb'';
            let n = bos_wTotalLength (bos_of fs);
            let (ok, w) = usb_malloc u (unat n) w;
            if \<not> ok then Some (LIBUSB_ERROR_NO_MEM, None, w)
            else do {
              (r, bos_data, w) \<leftarrow> libusb_get_descriptor u LIBUSB_DT_BOS 0 (replicate (unat n) 0) n w;
              if 0 \<le> r then parse_bos (usb_malloc u 0) bos_data (nat r) w else Some (r, None, w) } } }"

record usb_2_0_extension =
  ux_bLength :: u8
  ux_bDescriptorType :: u8
  ux_bDevCapabilityType :: u8
  ux_bmAttributes :: u32

record ss_usb_device_capability =
  sc_bLength :: u8
  sc_bDescriptorType :: u8
  sc_bDevCapabilityType :: u8
  sc_bmAttributes :: u8
  sc_wSpeedSupported :: u16
  sc_bFunctionalitySupport :: u8
  sc_bU1DevExitLat :: u8
  sc_bU2DevExitLat :: u16

record container_id =
  co_bLength :: u8
  co_bDescriptorType :: u8
  co_bDevCapabilityType :: u8
  co_bReserved :: u8
  co_ContainerID :: "u8 list"

definition libusb_get_usb_2_0_extension_descriptor ::
  "('w \<Rightarrow> bool \<times> 'w) \<Rightarrow> u8 list \<Rightarrow> 'w \<Rightarrow> (int \<times> usb_2_0_extension option \<times> 'w) option" where
  "libusb_get_usb_2_0_extension_descriptor alloc dev_cap w =
     do { ty \<leftarrow> rd dev_cap 2;
          n \<leftarrow> rd dev_cap 0;
          if ty \<noteq> 2 then Some (LIBUSB_ERROR_INVALID_PARAM, None, w)
          else if n < 7 then Some (LIBUSB_ERROR_IO, None, w)
          else let (ok, w) = alloc w
          in if \<not> ok then Some (LIBUSB_ERROR_NO_MEM, None, w)
          else do { fs \<leftarrow> usbi_parse_descriptor dev_cap ''bbbd'';
                    Some (0, Some \<lparr>ux_bLength = fld fs 0, ux_bDescriptorType = fld fs 1,
                      ux_bDevCapabilityType = fld fs 2, ux_bmAttributes = fld fs 3\<rparr>, w) } }"

definition libusb_get_ss_usb_device_capability_descriptor ::
  "('w \<Rightarrow> bool \<times> 'w) \<Rightarrow> u8 list \<Rightarrow> 'w \<Rightarrow> (int \<times> ss_usb_device_capability option \<times> 'w) option" where
  "libusb_get_ss_usb_device_capability_descriptor alloc dev_cap w =
     do { ty \<leftarrow> rd dev_cap 2;
          n \<leftarrow> rd dev_cap 0;
          if ty \<noteq> 3 then Some (LIBUSB_ERROR_INVALID_PARAM, None, w)
          else if n < 10 then Some (LIBUSB_ERROR_IO, None, w)
          else let (ok, w) = alloc w
          in if \<not> ok then Some (LIBUSB_ERROR_NO_MEM, None, w)
          else do { fs \<leftarrow> usbi_parse_descriptor dev_cap ''bbbbwbbw'';
                    Some (0, Some \<lparr>sc_bLength = fld fs 0, sc_bDescriptorType = fld fs 1,
                      sc_bDevCapabilityType = fld fs 2, sc_bmAttributes = fld fs 3,
                      sc_wSpeedSupported = fld fs 4, sc_bFunctionalitySupport = fld fs 5,
                      sc_bU1DevExitLat = fld fs 6, sc_bU2DevExitLat = fld fs 7\<rparr>, w) } }"

definition libusb_get_container_id_descriptor ::
  "('w \<Rightarrow> bool \<times> 'w) \<Rightarrow> u8 list \<Rightarrow> 'w \<Rightarrow> (int \<times> container_id option \<times> 'w) option" where
  "libusb_get_container_id_descriptor alloc dev_cap w =
     do { ty \<leftarrow> rd dev_cap 2;
          n \<leftarrow> rd dev_cap 0;
          if ty \<noteq> 4 then Some (LIBUSB_ERROR_INVALID_PARAM, None, w)
          else if n < 20 then Some (LIBUSB_ERROR_IO, None, w)
          else let (ok, w) = alloc w
          in if \<not> ok then Some (LIBUSB_ERROR_NO_MEM, None, w)
          else do { fs \<leftarrow> usbi_parse_descriptor dev_cap ''bbbbu'';
                    Some (0, Some \<lparr>co_bLength = fld fs 0, co_bDescriptorType = fld fs 1,
                      co_bDevCapabilityType = fld fs 2, co_bReserved = fld fs 3,
                      co_ContainerID = map (fld fs) [4..<20]\<rparr>, w) } }"

section \<open>Strings\<close>

definition libusb_get_string_descriptor ::
  "'w usb \<Rightarrow> u8 \<Rightarrow> u16 \<Rightarrow> u8 list \<Rightarrow> u16 \<Rightarrow> 'w \<Rightarrow> (int \<times> u8 list \<times> 'w) option" where
  "libusb_get_string_descriptor u desc_index langid data n w =
     libusb_control_transfer u 0x80 6 (push_bit 8 (ucast LIBUSB_DT_STRING) OR ucast desc_index) langid data n 1000 w"

text \<open>The loop over the UTF-16 units: it reads the high byte of a unit only when the low one is ASCII.\<close>

partial_function (option) string_chars :: "u8 list \<Rightarrow> int \<Rightarrow> u8 list \<Rightarrow> nat \<Rightarrow> nat \<Rightarrow> (u8 list \<times> nat) option" where
  "string_chars tbuf n data di si =
     do { len \<leftarrow> rd tbuf 0;
          if unat len \<le> si \<or> n - 1 \<le> int di then Some (data, di)
          else do {
            lo \<leftarrow> rd tbuf si;
            ascii \<leftarrow> (if lo AND 0x80 \<noteq> 0 then Some False
                      else do { hi \<leftarrow> rd tbuf (si + 1); Some (hi = 0) });
            data \<leftarrow> wr data di (if ascii then lo else 0x3F);
            string_chars tbuf n data (di + 1) (si + 2) } }"

declare string_chars.simps [code]

text \<open>\<open>tbuf\<close> is the array on the stack, with whatever was in it.\<close>

definition libusb_get_string_descriptor_ascii ::
  "'w usb \<Rightarrow> u8 \<Rightarrow> u8 list \<Rightarrow> int \<Rightarrow> u8 list \<Rightarrow> 'w \<Rightarrow> (int \<times> u8 list \<times> 'w) option" where
  "libusb_get_string_descriptor_ascii u desc_index data n tbuf w =
     (if desc_index = 0 then Some (LIBUSB_ERROR_INVALID_PARAM, data, w)
      else do {
        (r, tbuf, w) \<leftarrow> libusb_get_string_descriptor u 0 0 tbuf 255 w;
        if r < 0 then Some (r, data, w)
        else if r < 4 then Some (LIBUSB_ERROR_IO, data, w)
        else do {
          b2 \<leftarrow> rd tbuf 2;
          b3 \<leftarrow> rd tbuf 3;
          (r, tbuf, w) \<leftarrow> libusb_get_string_descriptor u desc_index (SW_TO_SHORT b2 b3) tbuf 255 w;
          if r < 0 then Some (r, data, w)
          else do {
            ty \<leftarrow> rd tbuf 1;
            len \<leftarrow> rd tbuf 0;
            if ty \<noteq> LIBUSB_DT_STRING then Some (LIBUSB_ERROR_IO, data, w)
            else if r < uint len then Some (LIBUSB_ERROR_IO, data, w)
            else do {
              (data, di) \<leftarrow> string_chars tbuf n data 0 2;
              data \<leftarrow> wr data di 0;
              Some (int di, data, w) } } } })"

section \<open>Reading fields\<close>

definition field_bytes :: "char \<Rightarrow> nat" where
  "field_bytes c = (if c = CHR ''b'' then 1 else if c = CHR ''w'' then 2 else if c = CHR ''d'' then 4
     else if c = CHR ''u'' then 16 else 0)"

lemma parse_descriptor_total:
  "sum_list (map field_bytes cs) \<le> length source \<Longrightarrow> \<exists>fs. usbi_parse_descriptor source cs = Some fs"
proof (induction cs arbitrary: source)
  case Nil
  then show ?case by simp
next
  case (Cons c cs)
  let ?k = "field_bytes c"
  have "sum_list (map field_bytes cs) \<le> length (drop ?k source)" using Cons.prems by simp
  from Cons.IH [OF this] obtain fs where fs: "usbi_parse_descriptor (drop ?k source) cs = Some fs" by blast
  have "?k \<le> length source" using Cons.prems by simp
  then show ?case using fs by (auto simp: field_bytes_def rd_def split: if_splits)
qed

text \<open>The first field of a descriptor is its first byte, the second its type.\<close>

lemma fld_0 [simp]: "fld (x # fs) 0 = ucast x"
  by (simp add: fld_def)

lemma fld_Suc [simp]: "fld (x # fs) (Suc i) = fld fs i"
  by (simp add: fld_def)

lemma fld_numeral [simp]: "fld (x # fs) (numeral k) = fld fs (pred_numeral k)"
  by (simp add: fld_def numeral_eq_Suc)

lemma fld_1 [simp]: "fld (x # fs) 1 = fld fs 0"
  using fld_Suc [of x fs 0] by simp

lemma fld_Nil [simp]: "fld [] i = 0"
  by (simp add: fld_def)

lemma ucast_u8_u32 [simp]: "ucast (ucast x :: u32) = x" for x :: u8
  by (rule bit_word_eqI) (auto simp: bit_simps)

lemma parse_bb:
  assumes "usbi_parse_descriptor source (CHR ''b'' # CHR ''b'' # cs) = Some fs"
  shows "2 \<le> length source \<and> fld fs 0 = source ! 0 \<and> fld fs (Suc 0) = source ! 1"
  using assms by (auto simp: ub_simps)

lemma parse_bbb:
  assumes "usbi_parse_descriptor source (CHR ''b'' # CHR ''b'' # CHR ''b'' # cs) = Some fs"
  shows "3 \<le> length source \<and> fld fs (Suc (Suc 0)) = source ! 2"
  using assms by (auto simp: ub_simps numeral_2_eq_2)

section \<open>Skipping unknown descriptors\<close>

text \<open>Bytes that are a sequence of descriptors of no known type.\<close>

fun unknown_block :: "u8 list \<Rightarrow> bool" where
  "unknown_block [] \<longleftrightarrow> True"
| "unknown_block [l] \<longleftrightarrow> False"
| "unknown_block (l # t # bs) \<longleftrightarrow> 2 \<le> l \<and> unat l \<le> length bs + 2 \<and> \<not> is_known_descriptor_type t
     \<and> unknown_block (drop (unat l - 2) bs)"

lemma unknown_block_iff:
  "unknown_block bs \<longleftrightarrow> bs = [] \<or> 2 \<le> length bs \<and> 2 \<le> bs ! 0 \<and> unat (bs ! 0) \<le> length bs
     \<and> \<not> is_known_descriptor_type (bs ! 1) \<and> unknown_block (drop (unat (bs ! 0)) bs)"
proof (cases bs rule: unknown_block.cases)
  case (3 l t rest)
  have "drop (unat l) (l # t # rest) = drop (unat l - 2) rest" if "2 \<le> l"
  proof -
    have "2 \<le> unat l" using that by (simp add: word_le_nat_alt)
    then obtain m where "unat l = Suc (Suc m)" by (metis add_2_eq_Suc le_iff_add)
    then show ?thesis by simp
  qed
  then show ?thesis using 3 by auto
qed simp_all

lemma skip_extra_short: "sz < 2 \<Longrightarrow> skip_extra buffer sz header n = Some (Skipped n header)"
  by (subst skip_extra.simps) simp

lemma skip_extra_step:
  assumes "2 \<le> sz" "2 \<le> length buffer"
  shows "skip_extra buffer sz header n =
    (if buffer ! 0 < 2 then Some Bad_length
     else if sz < unat (buffer ! 0) then Some (Short_read n)
     else if is_known_descriptor_type (buffer ! 1) then Some (Skipped n (Some (buffer ! 1)))
     else skip_extra (drop (unat (buffer ! 0)) buffer) (sz - unat (buffer ! 0)) (Some (buffer ! 1)) (n + unat (buffer ! 0)))"
proof -
  have "rd buffer 0 = Some (buffer ! 0)" "rd buffer 1 = Some (buffer ! 1)" using assms by (auto intro!: rd_in)
  then show ?thesis using assms(1) by (subst skip_extra.simps) simp
qed

text \<open>What the loop gives: how far it went, over unknown descriptors only.\<close>

fun skip_ok :: "u8 list \<Rightarrow> nat \<Rightarrow> u8 option \<Rightarrow> nat \<Rightarrow> skipped \<Rightarrow> bool" where
  "skip_ok buffer sz header n Bad_length \<longleftrightarrow> True"
| "skip_ok buffer sz header n (Short_read k) \<longleftrightarrow> n \<le> k \<and> k \<le> n + sz"
| "skip_ok buffer sz header n (Skipped k h) \<longleftrightarrow> n \<le> k \<and> k \<le> n + sz \<and> unknown_block (take (k - n) buffer)
     \<and> (2 \<le> sz \<or> header \<noteq> None \<longrightarrow> h \<noteq> None) \<and> (sz < 2 \<longrightarrow> k = n \<and> h = header)"

lemma skip_extra_spec:
  assumes "sz \<le> length buffer"
  shows "\<exists>s. skip_extra buffer sz header n = Some s \<and> skip_ok buffer sz header n s"
  using assms
proof (induction sz arbitrary: buffer header n rule: less_induct)
  case (less sz)
  show ?case
  proof (cases "sz < 2")
    case True
    then show ?thesis by (simp add: skip_extra_short)
  next
    case False
    then have l: "2 \<le> length buffer" "2 \<le> sz" using less.prems by simp_all
    let ?n = "unat (buffer ! 0)"
    consider "buffer ! 0 < 2" | "2 \<le> buffer ! 0" "sz < ?n" | "2 \<le> buffer ! 0" "?n \<le> sz" "is_known_descriptor_type (buffer ! 1)"
      | (step) "2 \<le> buffer ! 0" "?n \<le> sz" "\<not> is_known_descriptor_type (buffer ! 1)"
      by (meson linorder_not_less)
    then show ?thesis
    proof cases
      case step
      have n2: "2 \<le> ?n" using step(1) by (simp add: word_le_nat_alt)
      let ?b = "drop ?n buffer"
      have "sz - ?n < sz" "sz - ?n \<le> length ?b" using n2 l less.prems by simp_all
      from less.IH [OF this, of "Some (buffer ! 1)" "n + ?n"] obtain s where
        s: "skip_extra ?b (sz - ?n) (Some (buffer ! 1)) (n + ?n) = Some s"
        "skip_ok ?b (sz - ?n) (Some (buffer ! 1)) (n + ?n) s"
        by blast
      have e: "skip_extra buffer sz header n = Some s"
        using s(1) step by (simp add: skip_extra_step l linorder_not_less [THEN iffD2])
      have u: "unknown_block (take (k - n) buffer)" if "n + ?n \<le> k" "k \<le> n + sz"
        "unknown_block (take (k - (n + ?n)) ?b)" for k
      proof -
        have "drop ?n (take (k - n) buffer) = take (k - (n + ?n)) ?b"
          by (simp add: drop_take)
        moreover have "length (take (k - n) buffer) = k - n" using that less.prems by simp
        moreover have "?n \<le> k - n" "2 \<le> k - n" using that n2 by simp_all
        ultimately show ?thesis using that(3) step
          by (subst unknown_block_iff) (simp add: l(1))
      qed
      show ?thesis using e s(2) u step(2) False
        by (cases s) auto
    qed (use l in \<open>auto simp: skip_extra_step linorder_not_less\<close>)
  qed
qed

text \<open>A block of unknown descriptors is skipped whole, up to a known one or the end.\<close>

definition known_head :: "u8 list \<Rightarrow> bool" where
  "known_head bs \<longleftrightarrow> bs = [] \<or> 2 \<le> length bs \<and> 2 \<le> bs ! 0 \<and> unat (bs ! 0) \<le> length bs \<and> is_known_descriptor_type (bs ! 1)"

lemma skip_extra_block:
  assumes "unknown_block bs" "known_head rest"
  shows "\<exists>h. skip_extra (bs @ rest) (length bs + length rest) header n = Some (Skipped (n + length bs) h)
    \<and> (rest \<noteq> [] \<longrightarrow> h = Some (rest ! 1))"
  using assms(1)
proof (induction "length bs" arbitrary: bs header n rule: less_induct)
  case less
  show ?case
  proof (cases "bs = []")
    case True
    then show ?thesis using assms(2)
      by (cases "rest = []") (simp_all add: skip_extra_short skip_extra_step known_head_def linorder_not_less)
  next
    case False
    from less.prems [unfolded unknown_block_iff [of bs]] False
    have b: "2 \<le> length bs" "2 \<le> bs ! 0" "unat (bs ! 0) \<le> length bs" "\<not> is_known_descriptor_type (bs ! 1)"
      "unknown_block (drop (unat (bs ! 0)) bs)" by simp_all
    let ?n = "unat (bs ! 0)"
    have n2: "2 \<le> ?n" using b(2) by (simp add: word_le_nat_alt)
    have "length (drop ?n bs) < length bs" using b n2 by simp
    from less.hyps [OF this b(5), of "Some (bs ! 1)" "n + ?n"] obtain h where
      "skip_extra (drop ?n bs @ rest) (length bs - ?n + length rest) (Some (bs ! 1)) (n + ?n)
         = Some (Skipped (n + ?n + (length bs - ?n)) h)" "rest \<noteq> [] \<longrightarrow> h = Some (rest ! 1)" by auto
    moreover have "length bs - ?n + length rest = length bs + length rest - ?n" using b(3) by simp
    moreover have "(bs @ rest) ! 0 = bs ! 0" "(bs @ rest) ! 1 = bs ! 1"
      using b(1) False by (simp_all add: nth_append)
    ultimately show ?thesis using b False
      by (simp add: skip_extra_step linorder_not_less)
  qed
qed

section \<open>What the parser gives\<close>

definition endpoint_ok :: "endpoint_descriptor \<Rightarrow> bool" where
  "endpoint_ok e \<longleftrightarrow> ed_bDescriptorType e = LIBUSB_DT_ENDPOINT \<and> 7 \<le> ed_bLength e \<and> unknown_block (ed_extra e)"

text \<open>
  An altsetting is whole when its endpoints are as many as it says; one that ends in a
  descriptor longer than the bytes left has none, whatever it says.
\<close>

definition altsetting_ok :: "interface_descriptor \<Rightarrow> bool" where
  "altsetting_ok a \<longleftrightarrow> id_bDescriptorType a = LIBUSB_DT_INTERFACE \<and> 9 \<le> id_bLength a \<and> id_bNumEndpoints a \<le> 32
     \<and> unknown_block (id_extra a) \<and> (\<forall>e \<in> set (id_endpoint a). endpoint_ok e)"

definition altsetting_whole :: "interface_descriptor \<Rightarrow> bool" where
  "altsetting_whole a \<longleftrightarrow> length (id_endpoint a) = unat (id_bNumEndpoints a)"

definition same_interface :: "interface_descriptor list \<Rightarrow> bool" where
  "same_interface alts \<longleftrightarrow> (\<forall>a \<in> set alts. \<forall>b \<in> set alts. id_bInterfaceNumber a = id_bInterfaceNumber b)"

definition interface_ok :: "interface_descriptor list \<Rightarrow> bool" where
  "interface_ok alts \<longleftrightarrow> (\<forall>a \<in> set alts. altsetting_ok a) \<and> (\<forall>a \<in> set (butlast alts). altsetting_whole a) \<and> same_interface alts"

lemma parse_endpoint_total:
  assumes "sz \<le> length buffer"
  shows "\<exists>r ep w'. parse_endpoint alloc buffer sz w = Some (r, ep, w') \<and> r \<le> int sz
    \<and> (0 < r \<longrightarrow> 7 \<le> r \<and> endpoint_ok ep)"
proof (cases "sz < 2")
  case True
  then show ?thesis by (simp add: parse_endpoint_def)
next
  case False
  let ?n = "unat (buffer ! 0)"
  have b: "rd buffer 0 = Some (buffer ! 0)" "rd buffer 1 = Some (buffer ! 1)"
    using False assms by (auto intro!: rd_in)
  show ?thesis
  proof (cases "buffer ! 1 = LIBUSB_DT_ENDPOINT \<and> ?n \<le> sz \<and> 7 \<le> buffer ! 0")
    case bad: False
    then show ?thesis
      using False b by (auto simp: parse_endpoint_def linorder_not_less linorder_not_le)
  next
    case True
    let ?fmt = "if 9 \<le> buffer ! 0 then ''bbbbwbbb'' else ''bbbbwb''"
    have n7: "7 \<le> ?n" "9 \<le> buffer ! 0 \<longrightarrow> 9 \<le> ?n" using True by (auto simp: word_le_nat_alt)
    have "sum_list (map field_bytes ?fmt) \<le> length buffer"
      using n7 True assms by (auto simp: field_bytes_def)
    from parse_descriptor_total [OF this] obtain fs where fs: "usbi_parse_descriptor buffer ?fmt = Some fs" ..
    have "fld fs 0 = buffer ! 0 \<and> fld fs (Suc 0) = buffer ! 1"
      using fs parse_bb [of buffer "''bbwbbb''" fs] parse_bb [of buffer "''bbwb''" fs] by (simp split: if_splits)
    then have e: "endpoint_ok ((endpoint_of fs)\<lparr>ed_extra := extra\<rparr>)" if "unknown_block extra" for extra
      using True that by (simp add: endpoint_ok_def endpoint_of_def)
    have e0: "endpoint_ok (endpoint_of fs)" using e [of "[]"] by (simp add: endpoint_of_def)
    have "sz - ?n \<le> length (drop ?n buffer)" using assms by simp
    from skip_extra_spec [OF this, of "Some (buffer ! 1)" 0] obtain s where
      s: "skip_extra (drop ?n buffer) (sz - ?n) (Some (buffer ! 1)) 0 = Some s"
      "skip_ok (drop ?n buffer) (sz - ?n) (Some (buffer ! 1)) 0 s" by blast
    have p: "parse_endpoint alloc buffer sz w = (case s of
             Bad_length \<Rightarrow> Some (LIBUSB_ERROR_IO, endpoint_of fs, w)
           | Short_read k \<Rightarrow> Some (int (?n + k), endpoint_of fs, w)
           | Skipped k _ \<Rightarrow>
               if k = 0 then Some (int ?n, endpoint_of fs, w)
               else let (ok, w) = alloc w
                 in if \<not> ok then Some (LIBUSB_ERROR_NO_MEM, endpoint_of fs, w)
                    else do { extra \<leftarrow> rd_bytes buffer ?n k;
                              Some (int (?n + k), (endpoint_of fs)\<lparr>ed_extra := extra\<rparr>, w) })"
      using True False b fs s(1) unfolding parse_endpoint_def
      by (cases s) (simp_all add: linorder_not_less [THEN iffD2] linorder_not_le Let_def)
    obtain ok w1 where a: "alloc w = (ok, w1)" by (cases "alloc w")
    show ?thesis
    proof (cases s)
      case (Skipped k h)
      then have "k \<le> sz - ?n" "unknown_block (take k (drop ?n buffer))" using s(2) by simp_all
      then show ?thesis unfolding p using Skipped a e0 e n7 True assms
        by (cases "k = 0"; cases ok) (simp_all del: of_nat_unat)
    qed (use p s(2) e0 n7 True in \<open>auto simp del: of_nat_unat\<close>)
  qed
qed

lemma parse_endpoints_total:
  assumes "sz \<le> length buffer" "\<forall>e \<in> set eps. endpoint_ok e"
  shows "\<exists>r eps' m w'. parse_endpoints alloc k buffer sz eps parsed w = Some (r, eps', m, w') \<and> r \<le> 0
    \<and> parsed \<le> m \<and> m \<le> parsed + sz \<and> length eps' \<le> length eps + k \<and> (\<forall>e \<in> set eps'. endpoint_ok e)"
  using assms
proof (induction k arbitrary: buffer sz eps parsed w)
  case 0
  then show ?case by simp
next
  case (Suc k)
  obtain r ep w1 where p: "parse_endpoint alloc buffer sz w = Some (r, ep, w1)" "r \<le> int sz"
    "0 < r \<longrightarrow> 7 \<le> r \<and> endpoint_ok ep"
    using parse_endpoint_total [OF Suc.prems(1)] by metis
  show ?case
  proof (cases "0 < r")
    case False
    then show ?thesis using p(1) Suc.prems(2) by (cases "r = 0") auto
  next
    case True
    have "sz - nat r \<le> length (drop (nat r) buffer)" "\<forall>e \<in> set (eps @ [ep]). endpoint_ok e"
      using Suc.prems p True by auto
    from Suc.IH [OF this, of "parsed + nat r" w1] obtain r' eps' m w' where
      "parse_endpoints alloc k (drop (nat r) buffer) (sz - nat r) (eps @ [ep]) (parsed + nat r) w1
         = Some (r', eps', m, w')" "r' \<le> 0" "parsed + nat r \<le> m" "m \<le> parsed + nat r + (sz - nat r)"
      "length eps' \<le> length (eps @ [ep]) + k" "\<forall>e \<in> set eps'. endpoint_ok e" by blast
    then show ?thesis using p True by simp
  qed
qed

fun alt_outcome_ok :: "u8 list \<Rightarrow> nat \<Rightarrow> alt_outcome \<Rightarrow> bool" where
  "alt_outcome_ok buffer sz (Alt_fail r) \<longleftrightarrow> r < 0"
| "alt_outcome_ok buffer sz (Alt_stop n None) \<longleftrightarrow> n = 0"
| "alt_outcome_ok buffer sz (Alt_stop n (Some a)) \<longleftrightarrow>
     9 \<le> n \<and> n \<le> sz \<and> altsetting_ok a \<and> id_bInterfaceNumber a = buffer ! 2"
| "alt_outcome_ok buffer sz (Alt_next n a) \<longleftrightarrow>
     9 \<le> n \<and> n \<le> sz \<and> altsetting_ok a \<and> altsetting_whole a \<and> id_bInterfaceNumber a = buffer ! 2"

lemma alt_body_total:
  assumes "sz \<le> length buffer" "9 \<le> n" "n + k \<le> sz" "altsetting_ok ifp" "id_endpoint ifp = []"
    "id_bInterfaceNumber ifp = buffer ! 2" "unknown_block (take k (drop n buffer))"
  shows "\<exists>oc w'. alt_body alloc buffer sz n k ifp w = Some (oc, w') \<and> alt_outcome_ok buffer sz oc"
proof -
  obtain ok w1 where a: "(if k = 0 then (True, w) else alloc w) = (ok, w1)" by fastforce
  obtain ok2 w2 where a2: "alloc w1 = (ok2, w2)" by (cases "alloc w1")
  let ?f = "ifp\<lparr>id_extra := take k (drop n buffer)\<rparr>"
  have rd: "rd_bytes buffer n k = Some (take k (drop n buffer))" using assms by simp
  consider "\<not> ok" | "ok" "id_bNumEndpoints ifp = 0" | "ok" "id_bNumEndpoints ifp \<noteq> 0" "\<not> ok2"
    | (eps) "ok" "id_bNumEndpoints ifp \<noteq> 0" "ok2" by blast
  then show ?thesis
  proof cases
    case eps
    have "sz - (n + k) \<le> length (drop (n + k) buffer)" using assms(1) by simp
    from parse_endpoints_total [OF this, of "[]" alloc "unat (id_bNumEndpoints ifp)" 0 w2] obtain r es m w' where
      p: "parse_endpoints alloc (unat (id_bNumEndpoints ifp)) (drop (n + k) buffer) (sz - (n + k)) [] 0 w2
            = Some (r, es, m, w')"
        "r \<le> 0" "m \<le> sz - (n + k)" "length es \<le> unat (id_bNumEndpoints ifp)" "\<forall>e \<in> set es. endpoint_ok e"
      by auto
    have l: "length es \<le> 32" using p(4) assms(4) by (simp add: altsetting_ok_def word_le_nat_alt)
    then have u: "unat (of_nat (length es) :: u8) = length es" by (simp add: unat_of_nat)
    show ?thesis
    proof (cases "r < 0")
      case True
      then show ?thesis using a a2 rd eps p(1) by (simp add: alt_body_def Let_def)
    next
      case False
      then show ?thesis using a a2 rd eps p assms l u
        by (simp add: alt_body_def altsetting_ok_def altsetting_whole_def word_le_nat_alt Let_def)
    qed
  qed (use a a2 rd assms in \<open>simp_all add: alt_body_def altsetting_ok_def altsetting_whole_def Let_def\<close>)
qed

lemma parse_altsetting_total:
  assumes "sz \<le> length buffer" "9 \<le> sz"
  shows "\<exists>oc w'. parse_altsetting alloc buffer sz w = Some (oc, w') \<and> alt_outcome_ok buffer sz oc"
proof -
  have "sum_list (map field_bytes ''bbbbbbbbb'') \<le> length buffer" using assms by (simp add: field_bytes_def)
  from parse_descriptor_total [OF this] obtain fs where fs: "usbi_parse_descriptor buffer ''bbbbbbbbb'' = Some fs" ..
  let ?ifp = "interface_of fs"
  let ?n = "unat (id_bLength ?ifp)"
  have num: "id_bInterfaceNumber ?ifp = buffer ! 2" using parse_bbb [OF fs] by (simp add: interface_of_def numeral_2_eq_2)
  have e: "id_endpoint ?ifp = []" "id_extra ?ifp = []" by (simp_all add: interface_of_def)
  show ?thesis
  proof (cases "id_bDescriptorType ?ifp = LIBUSB_DT_INTERFACE \<and> 9 \<le> ?n \<and> ?n \<le> sz \<and> id_bNumEndpoints ?ifp \<le> 32")
    case False
    then show ?thesis unfolding parse_altsetting_def fs by (auto simp: Let_def linorder_not_less linorder_not_le)
  next
    case True
    then have ok: "altsetting_ok ?ifp" using e by (simp add: altsetting_ok_def word_le_nat_alt)
    have "sz - ?n \<le> length (drop ?n buffer)" using assms(1) by simp
    from skip_extra_spec [OF this, of "Some LIBUSB_DT_INTERFACE" 0] obtain s where
      s: "skip_extra (drop ?n buffer) (sz - ?n) (Some LIBUSB_DT_INTERFACE) 0 = Some s"
      "skip_ok (drop ?n buffer) (sz - ?n) (Some LIBUSB_DT_INTERFACE) 0 s" by blast
    have p: "parse_altsetting alloc buffer sz w = (case s of
               Bad_length \<Rightarrow> Some (Alt_fail LIBUSB_ERROR_IO, w)
             | Short_read k \<Rightarrow> Some (Alt_stop (?n + k) (Some ?ifp), w)
             | Skipped k _ \<Rightarrow> alt_body alloc buffer sz ?n k ?ifp w)"
      using True fs s(1) unfolding parse_altsetting_def
      by (cases s) (simp_all add: linorder_not_less [THEN iffD2] Let_def)
    show ?thesis
    proof (cases s)
      case (Skipped k h)
      then have "?n + k \<le> sz" "unknown_block (take k (drop ?n buffer))" using s(2) True by auto
      then show ?thesis using alt_body_total [OF assms(1) _ _ ok e(1) num, of ?n k alloc w] True p Skipped by simp
    qed (use p s(2) ok num True in auto)
  qed
qed

definition ample_mem :: "('w \<Rightarrow> bool \<times> 'w) \<Rightarrow> bool" where
  "ample_mem alloc \<longleftrightarrow> (\<forall>w. fst (alloc w))"

lemma interface_ok_snoc:
  assumes "\<forall>a \<in> set alts. altsetting_ok a \<and> altsetting_whole a \<and> id_bInterfaceNumber a = i"
    "altsetting_ok a" "id_bInterfaceNumber a = i"
  shows "interface_ok (alts @ [a])"
  using assms by (auto simp: interface_ok_def same_interface_def)

lemma interface_okI:
  assumes "\<forall>a \<in> set alts. altsetting_ok a \<and> altsetting_whole a \<and> id_bInterfaceNumber a = i"
  shows "interface_ok alts"
  using assms by (auto simp: interface_ok_def same_interface_def dest: in_set_butlastD)

lemma parse_altsettings_total:
  assumes "ample_mem alloc" "sz \<le> length buffer"
    "\<forall>a \<in> set alts. altsetting_ok a \<and> altsetting_whole a \<and> id_bInterfaceNumber a = i"
    "ifno = (if alts = [] then None else Some i)" "alts = [] \<or> sz < 9 \<or> buffer ! 2 = i"
  shows "\<exists>r alts' w'. parse_altsettings alloc alts ifno buffer sz parsed w = Some (r, alts', w')
    \<and> r \<le> int (parsed + sz) \<and> (0 \<le> r \<longrightarrow> interface_ok alts' \<and> int parsed \<le> r)"
  using assms(2-)
proof (induction sz arbitrary: buffer alts ifno i parsed w rule: less_induct)
  case (less sz)
  show ?case
  proof (cases "sz < 9")
    case True
    then show ?thesis using interface_okI [OF less.prems(2)] by (subst parse_altsettings.simps) simp
  next
    case False
    obtain ok w1 where a: "alloc w = (ok, w1)" by (cases "alloc w")
    have ok using assms(1) a unfolding ample_mem_def by (metis fst_conv)
    obtain oc w2 where p: "parse_altsetting alloc buffer sz w1 = Some (oc, w2)" "alt_outcome_ok buffer sz oc"
      using parse_altsetting_total [OF less.prems(1)] False by (metis linorder_not_less)
    have e: "parse_altsettings alloc alts ifno buffer sz parsed w = (case oc of
           Alt_fail r \<Rightarrow> Some (r, [], w2)
         | Alt_stop n a \<Rightarrow> Some (int (parsed + n), alts @ (case a of None \<Rightarrow> [] | Some a \<Rightarrow> [a]), w2)
         | Alt_next n a \<Rightarrow>
             let interface_number = (case ifno of None \<Rightarrow> id_bInterfaceNumber a | Some i \<Rightarrow> i)
             in if sz - n < 9 then Some (int (parsed + n), alts @ [a], w2)
             else do {
               ty \<leftarrow> rd buffer (n + 1);
               num \<leftarrow> rd buffer (n + 2);
               if ty \<noteq> LIBUSB_DT_INTERFACE \<or> num \<noteq> interface_number then Some (int (parsed + n), alts @ [a], w2)
               else parse_altsettings alloc (alts @ [a]) (Some interface_number) (drop n buffer) (sz - n)
                 (parsed + n) w2 })"
      using False a p(1) \<open>ok\<close> by (subst parse_altsettings.simps) (cases oc; simp add: Let_def)
    let ?i = "buffer ! 2"
    have old: "\<forall>a \<in> set alts. altsetting_ok a \<and> altsetting_whole a \<and> id_bInterfaceNumber a = ?i"
      using less.prems(2,4) False by (cases "alts = []") auto
    show ?thesis
    proof (cases oc)
      case (Alt_fail r)
      then show ?thesis using e p(2) by simp
    next
      case (Alt_stop n a)
      then show ?thesis using e p(2) interface_okI [OF old] interface_ok_snoc [OF old] by (cases a) auto
    next
      case (Alt_next n a)
      then have n: "9 \<le> n" "n \<le> sz" and ok: "altsetting_ok a" "altsetting_whole a" "id_bInterfaceNumber a = ?i"
        using p(2) by simp_all
      have num: "(case ifno of None \<Rightarrow> id_bInterfaceNumber a | Some i \<Rightarrow> i) = ?i"
        using less.prems(3,4) ok(3) False by (cases "alts = []") auto
      show ?thesis
      proof (cases "sz - n < 9")
        case True
        then show ?thesis using e Alt_next n interface_ok_snoc [OF old ok(1,3)] by simp
      next
        case more: False
        have r: "rd buffer (n + 1) = Some (buffer ! (n + 1))" "rd buffer (n + 2) = Some (buffer ! (n + 2))"
          using more less.prems(1) by (auto intro!: rd_in)
        show ?thesis
        proof (cases "buffer ! (n + 1) = LIBUSB_DT_INTERFACE \<and> buffer ! (n + 2) = ?i")
          case False
          then show ?thesis using e Alt_next n interface_ok_snoc [OF old ok(1,3)] more r num by auto
        next
          case True
          have all: "\<forall>a \<in> set (alts @ [a]). altsetting_ok a \<and> altsetting_whole a \<and> id_bInterfaceNumber a = ?i"
            using old ok by auto
          have "sz - n < sz" "sz - n \<le> length (drop n buffer)" "Some ?i = (if alts @ [a] = [] then None else Some ?i)"
            "alts @ [a] = [] \<or> sz - n < 9 \<or> drop n buffer ! 2 = ?i"
            using n less.prems(1) True more by auto
          from less.IH [OF this(1,2) all this(3,4), of "parsed + n" w2] obtain r alts' w' where
            "parse_altsettings alloc (alts @ [a]) (Some ?i) (drop n buffer) (sz - n) (parsed + n) w2 = Some (r, alts', w')"
            "r \<le> int (parsed + n + (sz - n))" "0 \<le> r \<longrightarrow> interface_ok alts' \<and> int (parsed + n) \<le> r" by blast
          then show ?thesis using e Alt_next n more r num True by auto
        qed
      qed
    qed
  qed
qed

lemma unknown_block_append:
  assumes "unknown_block bs" "unknown_block cs"
  shows "unknown_block (bs @ cs)"
  using assms(1)
proof (induction "length bs" arbitrary: bs rule: less_induct)
  case less
  show ?case
  proof (cases "bs = []")
    case False
    with less.prems [unfolded unknown_block_iff [of bs]]
    have b: "2 \<le> length bs" "2 \<le> bs ! 0" "unat (bs ! 0) \<le> length bs" "\<not> is_known_descriptor_type (bs ! 1)"
      "unknown_block (drop (unat (bs ! 0)) bs)" by simp_all
    have "length (drop (unat (bs ! 0)) bs) < length bs" using b False by (simp add: word_le_nat_alt)
    from less.hyps [OF this b(5)] show ?thesis using b False
      by (subst unknown_block_iff) (simp add: nth_append)
  qed (simp add: assms(2))
qed

definition config_ok :: "config_descriptor \<Rightarrow> bool" where
  "config_ok c \<longleftrightarrow> unat (cd_bNumInterfaces c) \<le> length (cd_interface c) \<and> length (cd_interface c) \<le> 32
     \<and> (\<forall>alts \<in> set (cd_interface c). interface_ok alts) \<and> unknown_block (cd_extra c)"

lemma config_ok_num: "config_ok c \<Longrightarrow> k \<le> unat (cd_bNumInterfaces c) \<Longrightarrow> config_ok (c\<lparr>cd_bNumInterfaces := of_nat k\<rparr>)"
  by (simp add: config_ok_def unat_of_nat)

lemma config_ok_extra: "config_ok c \<Longrightarrow> unknown_block bs \<Longrightarrow> config_ok (c\<lparr>cd_extra := cd_extra c @ bs\<rparr>)"
  by (simp add: config_ok_def unknown_block_append)

lemma config_ok_assoc: "config_ok (c\<lparr>cd_associations := as\<rparr>) \<longleftrightarrow> config_ok c"
  by (simp add: config_ok_def)

lemma config_ok_interface:
  "config_ok c \<Longrightarrow> interface_ok alts \<Longrightarrow> config_ok (c\<lparr>cd_interface := (cd_interface c)[i := alts]\<rparr>)"
  by (auto simp: config_ok_def dest: set_update_subset_insert [THEN subsetD])

lemma parse_association_total:
  assumes "sz \<le> length buffer" "config_ok config"
  shows "\<exists>r c w'. parse_association alloc config buffer sz w = Some (r, c, w') \<and> r \<le> int sz
    \<and> cd_bNumInterfaces c = cd_bNumInterfaces config \<and> (0 \<le> r \<longrightarrow> config_ok c)"
proof (cases "sz < 2")
  case True
  then show ?thesis by (simp add: parse_association_def)
next
  case False
  let ?n = "unat (buffer ! 0)"
  have b: "rd buffer 0 = Some (buffer ! 0)" "rd buffer 1 = Some (buffer ! 1)"
    using False assms(1) by (auto intro!: rd_in)
  obtain ok w1 where a: "alloc w = (ok, w1)" by (cases "alloc w")
  show ?thesis
  proof (cases "buffer ! 1 = LIBUSB_DT_ASSOCIATION \<and> ?n \<le> sz \<and> 8 \<le> buffer ! 0 \<and> ok")
    case bad: False
    then show ?thesis
      using False b a assms(2) by (auto simp: parse_association_def linorder_not_less linorder_not_le Let_def)
  next
    case True
    then have n8: "8 \<le> ?n" by (simp add: word_le_nat_alt)
    have "sum_list (map field_bytes ''bbbbbbbb'') \<le> length buffer"
      using n8 True assms(1) by (simp add: field_bytes_def)
    from parse_descriptor_total [OF this] obtain fs where fs: "usbi_parse_descriptor buffer ''bbbbbbbb'' = Some fs" ..
    have "sz - ?n \<le> length (drop ?n buffer)" using assms(1) by simp
    from skip_extra_spec [OF this, of "Some (buffer ! 1)" 0] obtain s where
      s: "skip_extra (drop ?n buffer) (sz - ?n) (Some (buffer ! 1)) 0 = Some s"
      "skip_ok (drop ?n buffer) (sz - ?n) (Some (buffer ! 1)) 0 s" by blast
    let ?c = "config\<lparr>cd_associations := cd_associations config @ [association_of fs]\<rparr>"
    have c: "config_ok ?c" using assms(2) by (simp add: config_ok_assoc)
    have p: "parse_association alloc config buffer sz w = (case s of
             Bad_length \<Rightarrow> Some (LIBUSB_ERROR_IO, ?c, w1)
           | Short_read k \<Rightarrow> Some (int (?n + k), ?c, w1)
           | Skipped k _ \<Rightarrow>
               if k = 0 then Some (int ?n, ?c, w1)
               else let (ok, w) = alloc w1
                 in if \<not> ok then Some (LIBUSB_ERROR_NO_MEM, ?c\<lparr>cd_extra := []\<rparr>, w)
                    else do { extra \<leftarrow> rd_bytes buffer ?n k;
                              Some (int (?n + k), ?c\<lparr>cd_extra := cd_extra ?c @ extra\<rparr>, w) })"
      using True False s(1) unfolding parse_association_def b a fs
      by (cases s) (simp_all add: linorder_not_less [THEN iffD2] Let_def del: of_nat_unat)
    obtain ok w2 where a2: "alloc w1 = (ok, w2)" by (cases "alloc w1")
    show ?thesis
    proof (cases s)
      case (Skipped k h)
      then have "k \<le> sz - ?n" "unknown_block (take k (drop ?n buffer))" using s(2) by simp_all
      moreover from config_ok_extra [OF c this(2)] have "config_ok (?c\<lparr>cd_extra := cd_extra ?c @ take k (drop ?n buffer)\<rparr>)" .
      ultimately show ?thesis unfolding p using Skipped a2 c n8 True assms(1)
        by (cases "k = 0"; cases ok) (simp_all del: of_nat_unat)
    qed (use p s(2) c n8 True in \<open>auto simp del: of_nat_unat\<close>)
  qed
qed

lemma parse_part_total:
  assumes "ample_mem alloc" "sz \<le> length buffer" "config_ok config" "header \<noteq> None"
  shows "\<exists>r k c w'. parse_part alloc config parsed_if header buffer sz w = Some (r, k, c, w') \<and> r \<le> int sz
    \<and> cd_bNumInterfaces c = cd_bNumInterfaces config \<and> k \<le> parsed_if + 1 \<and> (0 \<le> r \<longrightarrow> config_ok c)"
proof -
  obtain ty where ty: "header = Some ty" using assms(4) by blast
  show ?thesis
  proof (cases "ty = LIBUSB_DT_ASSOCIATION")
    case True
    obtain r c w' where "parse_association alloc config buffer sz w = Some (r, c, w')" "r \<le> int sz"
      "cd_bNumInterfaces c = cd_bNumInterfaces config" "0 \<le> r \<longrightarrow> config_ok c"
      using parse_association_total [OF assms(2,3)] by metis
    then show ?thesis using True ty by (simp add: parse_part_def)
  next
    case False
    obtain r alts w' where "parse_altsettings alloc [] None buffer sz 0 w = Some (r, alts, w')" "r \<le> int sz"
      "0 \<le> r \<longrightarrow> interface_ok alts"
      using parse_altsettings_total [OF assms(1,2), of "[]" undefined None 0 w] by auto
    then show ?thesis using False ty config_ok_interface [OF assms(3)] by (simp add: parse_part_def parse_interface_def)
  qed
qed

lemma parse_interfaces_total:
  assumes "ample_mem alloc" "sz \<le> length buffer" "config_ok config" "parsed_if \<le> unat (cd_bNumInterfaces config)"
    "header \<noteq> None \<or> sz \<noteq> 1 \<or> parsed_if = unat (cd_bNumInterfaces config)"
  shows "\<exists>r c w'. parse_interfaces alloc config parsed_if header buffer sz w = Some (r, c, w') \<and> r \<le> int sz
    \<and> (0 \<le> r \<longrightarrow> config_ok c)"
  using assms(2-)
proof (induction sz arbitrary: config parsed_if header buffer w rule: less_induct)
  case (less sz)
  show ?case
  proof (cases "parsed_if < unat (cd_bNumInterfaces config) \<and> 0 < sz")
    case False
    have "parse_interfaces alloc config parsed_if header buffer sz w = Some (int sz, config, w)"
      by (subst parse_interfaces.simps) (rule if_not_P [OF False])
    then show ?thesis using less.prems(2) by simp
  next
    case True
    obtain s where s: "skip_extra buffer sz header 0 = Some s" "skip_ok buffer sz header 0 s"
      using skip_extra_spec [OF less.prems(1)] by blast
    show ?thesis
    proof (cases s)
      case Bad_length
      then show ?thesis using True s(1) by (subst parse_interfaces.simps) simp
    next
      case (Short_read k)
      then show ?thesis using True s config_ok_num [OF less.prems(2,3)]
        by (subst parse_interfaces.simps) simp
    next
      case (Skipped k h)
      then have k: "k \<le> sz" "unknown_block (take k buffer)" "h \<noteq> None"
        using s(2) less.prems(4) True by auto
      obtain ok w1 where a: "(if k = 0 then (True, w) else alloc w) = (ok, w1)" by fastforce
      have ok using assms(1) a unfolding ample_mem_def by (metis fst_conv)
      let ?c = "config\<lparr>cd_extra := cd_extra config @ take k buffer\<rparr>"
      have c: "config_ok ?c" using config_ok_extra [OF less.prems(2) k(2)] .
      have "sz - k \<le> length (drop k buffer)" using less.prems(1) by simp
      from parse_part_total [OF assms(1) this c k(3), of parsed_if w1] obtain r p c' w2 where
        p: "parse_part alloc ?c parsed_if h (drop k buffer) (sz - k) w1 = Some (r, p, c', w2)" "r \<le> int (sz - k)"
          "cd_bNumInterfaces c' = cd_bNumInterfaces config" "p \<le> parsed_if + 1" "0 \<le> r \<longrightarrow> config_ok c'" by auto
      have e: "parse_interfaces alloc config parsed_if header buffer sz w =
          (if r < 0 then Some (r, c', w2)
           else if r = 0 then Some (int (sz - k), c'\<lparr>cd_bNumInterfaces := of_nat p\<rparr>, w2)
           else parse_interfaces alloc c' p h (drop (k + nat r) buffer) (sz - (k + nat r)) w2)"
        using True s(1) Skipped a \<open>ok\<close> p(1) k(1) less.prems(1) by (subst parse_interfaces.simps) (simp add: Let_def)
      show ?thesis
      proof (cases "0 < r")
        case False
        then show ?thesis using e p k(1) config_ok_num [of c' p] True by (cases "r = 0") auto
      next
        case pos: True
        let ?m = "k + nat r"
        have "sz - ?m < sz" "sz - ?m \<le> length (drop ?m buffer)" "config_ok c'" "p \<le> unat (cd_bNumInterfaces c')"
          "h \<noteq> None \<or> sz - ?m \<noteq> 1 \<or> p = unat (cd_bNumInterfaces c')"
          using pos True less.prems(1) p k(3) by auto
        from less.IH [OF this, of w2] obtain r' c'' w' where
          "parse_interfaces alloc c' p h (drop ?m buffer) (sz - ?m) w2 = Some (r', c'', w')" "r' \<le> int (sz - ?m)"
          "0 \<le> r' \<longrightarrow> config_ok c''" by blast
        then show ?thesis using e pos by simp
      qed
    qed
  qed
qed

text \<open>
  The only input the parser has no result for: one byte after the header of a configuration that
  announces interfaces, where no descriptor header has been read yet.
\<close>

definition stray_byte :: "u8 list \<Rightarrow> nat \<Rightarrow> bool" where
  "stray_byte buffer sz \<longleftrightarrow> 9 \<le> sz \<and> buffer ! 1 = LIBUSB_DT_CONFIG \<and> 9 \<le> buffer ! 0 \<and> sz = unat (buffer ! 0) + 1
     \<and> 0 < buffer ! 4 \<and> buffer ! 4 \<le> 32"

lemma config_fields:
  assumes "9 \<le> length buffer"
  shows "\<exists>fs. usbi_parse_descriptor buffer ''bbwbbbbb'' = Some fs \<and> cd_bLength (config_of_fields fs) = buffer ! 0
    \<and> cd_bDescriptorType (config_of_fields fs) = buffer ! 1 \<and> cd_bNumInterfaces (config_of_fields fs) = buffer ! 4"
proof -
  obtain b0 b1 b2 b3 b4 b5 b6 b7 b8 bs where "buffer = b0 # b1 # b2 # b3 # b4 # b5 # b6 # b7 # b8 # bs"
    using assms by (auto simp: Suc_le_length_iff numeral_eq_Suc)
  then show ?thesis by (simp add: config_of_fields_def)
qed

lemma parse_configuration_result:
  assumes "ample_mem alloc" "sz \<le> length buffer" "\<not> stray_byte buffer sz"
  shows "\<exists>r c w'. parse_configuration alloc buffer sz w = Some (r, c, w') \<and> r \<le> int sz \<and> (0 \<le> r \<longrightarrow> config_ok c)"
proof (cases "sz < 9")
  case True
  then show ?thesis by (simp add: parse_configuration_def)
next
  case False
  then obtain fs where fs: "usbi_parse_descriptor buffer ''bbwbbbbb'' = Some fs"
    "cd_bLength (config_of_fields fs) = buffer ! 0" "cd_bDescriptorType (config_of_fields fs) = buffer ! 1"
    "cd_bNumInterfaces (config_of_fields fs) = buffer ! 4"
    using config_fields [of buffer] assms(2) by auto
  let ?n = "unat (buffer ! 0)"
  let ?config = "config_of_fields fs"
  show ?thesis
  proof (cases "buffer ! 1 = LIBUSB_DT_CONFIG \<and> 9 \<le> ?n \<and> ?n \<le> sz \<and> buffer ! 4 \<le> 32")
    case bad: False
    then show ?thesis
      unfolding parse_configuration_def fs(1) using False fs(2-)
      by (auto simp: Let_def linorder_not_less linorder_not_le)
  next
    case True
    obtain ok w1 where a: "alloc w = (ok, w1)" by (cases "alloc w")
    have ok using assms(1) a unfolding ample_mem_def by (metis fst_conv)
    let ?c = "?config\<lparr>cd_interface := replicate (unat (buffer ! 4)) []\<rparr>"
    have e: "parse_configuration alloc buffer sz w = parse_interfaces alloc ?c 0 None (drop ?n buffer) (sz - ?n) w1"
      unfolding parse_configuration_def fs(1) using False fs(2-) True a \<open>ok\<close>
      by (simp add: Let_def linorder_not_less [THEN iffD2])
    have "unat (buffer ! 4) \<le> 32" using True by (simp add: word_le_nat_alt)
    then have c: "config_ok ?c"
      using fs(4) by (auto simp: config_ok_def interface_ok_def same_interface_def config_of_fields_def)
    have "None \<noteq> (None :: u8 option) \<or> sz - ?n \<noteq> 1 \<or> 0 = unat (cd_bNumInterfaces ?c)"
      using assms(3) True False fs(4) by (auto simp: stray_byte_def word_le_nat_alt word_gt_0 unat_eq_zero)
    moreover have "sz - ?n \<le> length (drop ?n buffer)" using assms(2) by simp
    ultimately obtain r c w' where "parse_interfaces alloc ?c 0 None (drop ?n buffer) (sz - ?n) w1 = Some (r, c, w')"
      "r \<le> int (sz - ?n)" "0 \<le> r \<longrightarrow> config_ok c"
      using parse_interfaces_total [OF assms(1) _ c, of "sz - ?n" "drop ?n buffer" 0 None w1] by auto
    then show ?thesis using e by auto
  qed
qed

text \<open>
  C22. The parser of a configuration returns for all bytes, save for one stray byte behind the header of
  a configuration that announces interfaces, and a configuration it accepts is well-formed: at most
  32 interfaces, each with altsettings of one interface number whose endpoints are endpoint
  descriptors, as many as announced in all altsettings but the last, and in every \<open>extra\<close> only whole
  descriptors of other types.
\<close>
theorem parse_configuration_total:
  assumes "ample_mem alloc" "sz \<le> length buffer"
  shows "(parse_configuration alloc buffer sz w = None \<longleftrightarrow> stray_byte buffer sz)
    \<and> (\<forall>r c w'. parse_configuration alloc buffer sz w = Some (r, c, w') \<and> 0 \<le> r \<longrightarrow> r \<le> int sz \<and> config_ok c)"
proof (cases "stray_byte buffer sz")
  case False
  then show ?thesis using parse_configuration_result [OF assms, of w] by auto
next
  case True
  then have "9 \<le> length buffer" using assms(2) by (simp add: stray_byte_def)
  then obtain fs where fs: "usbi_parse_descriptor buffer ''bbwbbbbb'' = Some fs"
    "cd_bLength (config_of_fields fs) = buffer ! 0" "cd_bDescriptorType (config_of_fields fs) = buffer ! 1"
    "cd_bNumInterfaces (config_of_fields fs) = buffer ! 4"
    using config_fields [of buffer] by auto
  obtain ok w1 where a: "alloc w = (ok, w1)" by (cases "alloc w")
  have ok using assms(1) a unfolding ample_mem_def by (metis fst_conv)
  have one: "parse_interfaces alloc c 0 None b (Suc 0) w1 = None" if "cd_bNumInterfaces c = buffer ! 4" for c b
    using that True by (subst parse_interfaces.simps) (simp add: skip_extra_short parse_part_def stray_byte_def word_gt_0 unat_gt_0)
  have "parse_configuration alloc buffer sz w = None"
    unfolding parse_configuration_def fs(1) using fs(2-) True a \<open>ok\<close> one
    by (simp add: Let_def stray_byte_def word_le_nat_alt linorder_not_less)
  then show ?thesis using True by simp
qed

section \<open>Round trip\<close>

definition encode_endpoint :: "endpoint_descriptor \<Rightarrow> u8 list" where
  "encode_endpoint e = [ed_bLength e, ed_bDescriptorType e, ed_bEndpointAddress e, ed_bmAttributes e]
     @ SHORT_TO_SW (ed_wMaxPacketSize e) @ [ed_bInterval e]
     @ (if ed_bLength e = 9 then [ed_bRefresh e, ed_bSynchAddress e] else []) @ ed_extra e"

definition encode_altsetting :: "interface_descriptor \<Rightarrow> u8 list" where
  "encode_altsetting a = [id_bLength a, id_bDescriptorType a, id_bInterfaceNumber a, id_bAlternateSetting a,
       id_bNumEndpoints a, id_bInterfaceClass a, id_bInterfaceSubClass a, id_bInterfaceProtocol a, id_iInterface a]
     @ id_extra a @ concat (map encode_endpoint (id_endpoint a))"

definition encode_association :: "association_descriptor \<Rightarrow> u8 list" where
  "encode_association a = [ia_bLength a, ia_bDescriptorType a, ia_bFirstInterface a, ia_bInterfaceCount a,
     ia_bFunctionClass a, ia_bFunctionSubClass a, ia_bFunctionProtocol a, ia_iFunction a]"

text \<open>A configuration is its header, unknown descriptors, and associations and interfaces in order.\<close>

datatype part = Association association_descriptor | Interface "interface_descriptor list"

fun encode_part :: "part \<Rightarrow> u8 list" where
  "encode_part (Association a) = encode_association a"
| "encode_part (Interface alts) = concat (map encode_altsetting alts)"

definition encode_config :: "config_descriptor \<Rightarrow> part list \<Rightarrow> u8 list" where
  "encode_config c ps = [cd_bLength c, cd_bDescriptorType c] @ SHORT_TO_SW (cd_wTotalLength c)
     @ [cd_bNumInterfaces c, cd_bConfigurationValue c, cd_iConfiguration c, cd_bmAttributes c, cd_MaxPower c]
     @ cd_extra c @ concat (map encode_part ps)"

fun part_interfaces :: "part list \<Rightarrow> interface_descriptor list list" where
  "part_interfaces [] = []"
| "part_interfaces (Association a # ps) = part_interfaces ps"
| "part_interfaces (Interface alts # ps) = alts # part_interfaces ps"

fun part_associations :: "part list \<Rightarrow> association_descriptor list" where
  "part_associations [] = []"
| "part_associations (Association a # ps) = a # part_associations ps"
| "part_associations (Interface alts # ps) = part_associations ps"

definition endpoint_wf :: "endpoint_descriptor \<Rightarrow> bool" where
  "endpoint_wf e \<longleftrightarrow> ed_bDescriptorType e = LIBUSB_DT_ENDPOINT \<and> unknown_block (ed_extra e)
     \<and> (ed_bLength e = 7 \<and> ed_bRefresh e = 0 \<and> ed_bSynchAddress e = 0 \<or> ed_bLength e = 9)"

definition altsetting_wf :: "interface_descriptor \<Rightarrow> bool" where
  "altsetting_wf a \<longleftrightarrow> id_bLength a = 9 \<and> id_bDescriptorType a = LIBUSB_DT_INTERFACE \<and> unknown_block (id_extra a)
     \<and> id_bNumEndpoints a \<le> 32 \<and> unat (id_bNumEndpoints a) = length (id_endpoint a)
     \<and> (\<forall>e \<in> set (id_endpoint a). endpoint_wf e)"

definition interface_wf :: "interface_descriptor list \<Rightarrow> bool" where
  "interface_wf alts \<longleftrightarrow> alts \<noteq> [] \<and> (\<forall>a \<in> set alts. altsetting_wf a \<and> id_bInterfaceNumber a = id_bInterfaceNumber (hd alts))"

definition association_wf :: "association_descriptor \<Rightarrow> bool" where
  "association_wf a \<longleftrightarrow> ia_bLength a = 8 \<and> ia_bDescriptorType a = LIBUSB_DT_ASSOCIATION"

text \<open>Associations precede their interfaces, and interfaces that follow each other have different numbers.\<close>

fun parts_wf :: "part list \<Rightarrow> bool" where
  "parts_wf [] \<longleftrightarrow> True"
| "parts_wf (Association a # ps) \<longleftrightarrow> association_wf a \<and> ps \<noteq> [] \<and> parts_wf ps"
| "parts_wf (Interface alts # ps) \<longleftrightarrow> interface_wf alts \<and> parts_wf ps
     \<and> (case ps of Interface alts' # _ \<Rightarrow> id_bInterfaceNumber (hd alts') \<noteq> id_bInterfaceNumber (hd alts) | _ \<Rightarrow> True)"

definition config_wf :: "config_descriptor \<Rightarrow> part list \<Rightarrow> bool" where
  "config_wf c ps \<longleftrightarrow> cd_bLength c = 9 \<and> cd_bDescriptorType c = LIBUSB_DT_CONFIG \<and> cd_bNumInterfaces c \<le> 32
     \<and> unat (cd_bNumInterfaces c) = length (part_interfaces ps) \<and> ps \<noteq> [] \<and> parts_wf ps
     \<and> unknown_block (cd_extra c) \<and> cd_interface c = part_interfaces ps \<and> cd_associations c = part_associations ps"

lemma DW_TO_INT_short [simp]: "ucast (DW_TO_INT (ucast s) (ucast (drop_bit 8 s)) 0 0) = s" for s :: u16
  by (rule bit_word_eqI) (auto simp: DW_TO_INT_def bit_simps)

lemma known_types: "is_known_descriptor_type LIBUSB_DT_ENDPOINT" "is_known_descriptor_type LIBUSB_DT_INTERFACE"
  "is_known_descriptor_type LIBUSB_DT_ASSOCIATION"
  by (simp_all add: is_known_descriptor_type_def)

lemma known_head_endpoint: "endpoint_wf e \<Longrightarrow> known_head (encode_endpoint e @ rest)"
  by (auto simp: known_head_def endpoint_wf_def encode_endpoint_def known_types)

lemma known_head_endpoints:
  "\<forall>e \<in> set es. endpoint_wf e \<Longrightarrow> known_head rest \<Longrightarrow> known_head (concat (map encode_endpoint es) @ rest)"
  by (cases es) (simp_all add: known_head_endpoint)

lemma known_head_altsetting: "altsetting_wf a \<Longrightarrow> known_head (encode_altsetting a @ rest)"
  by (auto simp: known_head_def altsetting_wf_def encode_altsetting_def known_types)

lemma known_head_part: "parts_wf (p # ps) \<Longrightarrow> known_head (encode_part p @ rest)"
proof (cases p)
  case (Association a)
  then show "parts_wf (p # ps) \<Longrightarrow> ?thesis"
    by (auto simp: known_head_def association_wf_def encode_association_def known_types)
next
  case (Interface alts)
  then show "parts_wf (p # ps) \<Longrightarrow> ?thesis"
    by (cases alts) (auto simp: interface_wf_def known_head_altsetting)
qed

lemma known_head_parts: "parts_wf ps \<Longrightarrow> known_head (concat (map encode_part ps))"
  by (cases ps) (simp add: known_head_def, simp add: known_head_part)

lemma ample_alloc: "ample_mem alloc \<Longrightarrow> \<exists>w'. alloc w = (True, w')"
  unfolding ample_mem_def by (metis prod.collapse)

lemma ample_alloc_if: "ample_mem alloc \<Longrightarrow> \<exists>w'. (if b then (True, w) else alloc w) = (True, w')"
  using ample_alloc [of alloc w] by simp

text \<open>Each parser reads back what its encoder wrote, whatever known descriptor follows.\<close>

lemma parse_endpoint_encode:
  assumes "ample_mem alloc" "endpoint_wf e" "known_head rest"
  shows "\<exists>w'. parse_endpoint alloc (encode_endpoint e @ rest) (length (encode_endpoint e @ rest)) w
    = Some (int (length (encode_endpoint e)), e, w')"
proof -
  obtain w1 where a: "alloc w = (True, w1)" using ample_alloc [OF assms(1)] by blast
  let ?b = "encode_endpoint e @ rest"
  let ?n = "unat (ed_bLength e)"
  let ?k = "length (ed_extra e)"
  have u: "unknown_block (ed_extra e)" using assms(2) by (simp add: endpoint_wf_def)
  have d: "drop ?n ?b = ed_extra e @ rest" "length (encode_endpoint e) = ?n + ?k"
    using assms(2) by (auto simp: endpoint_wf_def encode_endpoint_def)
  obtain h where s: "skip_extra (ed_extra e @ rest) (?k + length rest) (Some LIBUSB_DT_ENDPOINT) 0 = Some (Skipped ?k h)"
    using skip_extra_block [OF u assms(3), of "Some LIBUSB_DT_ENDPOINT" 0] by auto
  have fs: "\<exists>fs. usbi_parse_descriptor ?b (if 9 \<le> ed_bLength e then ''bbbbwbbb'' else ''bbbbwb'') = Some fs
      \<and> endpoint_of fs = e\<lparr>ed_extra := []\<rparr>"
    using assms(2) by (auto simp: endpoint_wf_def encode_endpoint_def SHORT_TO_SW_def endpoint_of_def)
  then obtain fs where fs: "usbi_parse_descriptor ?b (if 9 \<le> ed_bLength e then ''bbbbwbbb'' else ''bbbbwb'') = Some fs"
      "endpoint_of fs = e\<lparr>ed_extra := []\<rparr>" by blast
  have b: "rd ?b 0 = Some (ed_bLength e)" "rd ?b 1 = Some LIBUSB_DT_ENDPOINT"
    using assms(2) by (auto simp: endpoint_wf_def encode_endpoint_def rd_def)
  have l: "7 \<le> ed_bLength e" "2 \<le> length ?b" "?n \<le> length ?b" "length ?b - ?n = ?k + length rest"
    using assms(2) d(2) by (auto simp: endpoint_wf_def)
  have x: "rd_bytes ?b ?n ?k = Some (ed_extra e)" using d by (simp add: rd_bytes_def)
  show ?thesis
    unfolding parse_endpoint_def b using l fs a s d x
    by (simp add: linorder_not_less [THEN iffD2] linorder_not_le Let_def del: of_nat_unat)
qed

lemma parse_endpoints_encode:
  assumes "ample_mem alloc" "\<forall>e \<in> set es. endpoint_wf e" "known_head rest"
  shows "\<exists>w'. parse_endpoints alloc (length es) (concat (map encode_endpoint es) @ rest)
      (length (concat (map encode_endpoint es) @ rest)) acc m w
    = Some (0, acc @ es, m + length (concat (map encode_endpoint es)), w')"
  using assms(2)
proof (induction es arbitrary: acc m w)
  case Nil
  then show ?case by simp
next
  case (Cons e es)
  let ?r = "concat (map encode_endpoint es) @ rest"
  have e: "endpoint_wf e" using Cons.prems by simp
  have "known_head ?r" using known_head_endpoints Cons.prems assms(3) by simp
  from parse_endpoint_encode [OF assms(1) e this, of w] obtain w1 where
    p: "parse_endpoint alloc (encode_endpoint e @ ?r) (length (encode_endpoint e @ ?r)) w
      = Some (int (length (encode_endpoint e)), e, w1)" by blast
  have "0 < length (encode_endpoint e)" by (simp add: encode_endpoint_def)
  then show ?case using p Cons.IH [of "acc @ [e]" "m + length (encode_endpoint e)" w1] Cons.prems by (simp add: add.assoc)
qed

lemma parse_altsetting_encode:
  assumes "ample_mem alloc" "altsetting_wf a" "known_head rest"
  shows "\<exists>w'. parse_altsetting alloc (encode_altsetting a @ rest) (length (encode_altsetting a @ rest)) w
    = Some (Alt_next (length (encode_altsetting a)) a, w')"
proof -
  let ?b = "encode_altsetting a @ rest"
  let ?k = "length (id_extra a)"
  let ?es = "concat (map encode_endpoint (id_endpoint a))"
  have wf: "id_bLength a = 9" "id_bDescriptorType a = LIBUSB_DT_INTERFACE" "unknown_block (id_extra a)"
    "\<not> 32 < id_bNumEndpoints a" "unat (id_bNumEndpoints a) = length (id_endpoint a)" "\<forall>e \<in> set (id_endpoint a). endpoint_wf e"
    using assms(2) by (auto simp: altsetting_wf_def)
  have n: "(of_nat (length (id_endpoint a)) :: u8) = id_bNumEndpoints a" using wf(5) [symmetric] by simp
  have fs: "\<exists>fs. usbi_parse_descriptor ?b ''bbbbbbbbb'' = Some fs \<and> interface_of fs = a\<lparr>id_endpoint := [], id_extra := []\<rparr>"
    by (simp add: encode_altsetting_def interface_of_def)
  then obtain fs where fs: "usbi_parse_descriptor ?b ''bbbbbbbbb'' = Some fs"
    "interface_of fs = a\<lparr>id_endpoint := [], id_extra := []\<rparr>" by blast
  have d1: "drop 9 ?b = id_extra a @ ?es @ rest" by (simp add: encode_altsetting_def)
  then have "drop (9 + ?k) ?b = ?es @ rest" using drop_drop [of ?k 9 ?b] by (simp add: add.commute)
  with d1 have d: "drop 9 ?b = id_extra a @ ?es @ rest" "drop (9 + ?k) ?b = ?es @ rest"
    "length (encode_altsetting a) = 9 + ?k + length ?es"
    by (simp_all add: encode_altsetting_def)
  have x: "rd_bytes ?b 9 ?k = Some (id_extra a)" using d(1,3) by (simp add: rd_bytes_def)
  have kh: "known_head (?es @ rest)" using known_head_endpoints [OF wf(6) assms(3)] .
  obtain h where s: "skip_extra (id_extra a @ ?es @ rest) (?k + (length ?es + length rest)) (Some LIBUSB_DT_INTERFACE) 0
      = Some (Skipped ?k h)"
    using skip_extra_block [OF wf(3) kh, of "Some LIBUSB_DT_INTERFACE" 0] by auto
  obtain w1 where w1: "(if ?k = 0 then (True, w) else alloc w) = (True, w1)"
    using ample_alloc_if [OF assms(1)] by blast
  obtain w2 where w2: "alloc w1 = (True, w2)" using ample_alloc [OF assms(1)] by blast
  obtain w3 where p: "parse_endpoints alloc (length (id_endpoint a)) (?es @ rest) (length ?es + length rest) [] 0 w2
      = Some (0, id_endpoint a, length ?es, w3)"
    using parse_endpoints_encode [OF assms(1) wf(6) assms(3), of "[]" 0 w2] by auto
  let ?i = "a\<lparr>id_endpoint := [], id_extra := []\<rparr>"
  have body: "\<exists>w'. alt_body alloc ?b (length ?b) 9 ?k ?i w = Some (Alt_next (length (encode_altsetting a)) a, w')"
  proof (cases "id_endpoint a = []")
    case True
    then have z: "id_bNumEndpoints a = 0" using wf(5) by (simp add: unat_eq_zero)
    then show ?thesis using w1 x True d(3) by (simp add: alt_body_def)
  next
    case False
    then have "id_bNumEndpoints a \<noteq> 0" using wf(5) by auto
    then show ?thesis using w1 x d w2 p wf(5) n by (simp add: alt_body_def Let_def)
  qed
  have l: "length ?b - 9 = ?k + (length ?es + length rest)" "9 \<le> length ?b" using d(3) by simp_all
  show ?thesis unfolding parse_altsetting_def fs(1)
    using fs(2) wf(1,2,4) d(1) l s body by (simp add: Let_def linorder_not_less [THEN iffD2])
qed

lemma encode_altsetting_head:
  "length (encode_altsetting a) \<ge> 9" "(encode_altsetting a @ rest) ! 1 = id_bDescriptorType a"
  "(encode_altsetting a @ rest) ! 2 = id_bInterfaceNumber a"
  by (simp_all add: encode_altsetting_def)

text \<open>What ends an interface: anything but another altsetting of it.\<close>

definition ends_interface :: "u8 \<Rightarrow> u8 list \<Rightarrow> bool" where
  "ends_interface i rest \<longleftrightarrow> length rest < 9 \<or> rest ! 1 \<noteq> LIBUSB_DT_INTERFACE \<or> rest ! 2 \<noteq> i"

lemma parse_altsettings_encode:
  assumes "ample_mem alloc" "alts \<noteq> []" "\<forall>a \<in> set alts. altsetting_wf a \<and> id_bInterfaceNumber a = i"
    "known_head rest" "ends_interface i rest" "ifno = None \<or> ifno = Some i"
  shows "\<exists>w'. parse_altsettings alloc acc ifno (concat (map encode_altsetting alts) @ rest)
      (length (concat (map encode_altsetting alts) @ rest)) m w
    = Some (int (m + length (concat (map encode_altsetting alts))), acc @ alts, w')"
  using assms(2,3,6)
proof (induction alts arbitrary: acc ifno m w)
  case Nil
  then show ?case by simp
next
  case (Cons a alts)
  let ?r = "concat (map encode_altsetting alts) @ rest"
  let ?b = "encode_altsetting a @ ?r"
  let ?n = "length (encode_altsetting a)"
  have a: "altsetting_wf a" "id_bInterfaceNumber a = i" using Cons.prems by simp_all
  have kr: "known_head ?r" using Cons.prems assms(4) by (cases alts) (auto simp: known_head_altsetting)
  obtain w1 where w1: "alloc w = (True, w1)" using ample_alloc [OF assms(1)] by blast
  obtain w2 where p: "parse_altsetting alloc ?b (length ?b) w1 = Some (Alt_next ?n a, w2)"
    using parse_altsetting_encode [OF assms(1) a(1) kr] by blast
  have num: "(case ifno of None \<Rightarrow> id_bInterfaceNumber a | Some i \<Rightarrow> i) = i" using Cons.prems(3) a(2) by auto
  have l: "\<not> length ?b < 9" using encode_altsetting_head(1) [of a] by simp
  have e: "parse_altsettings alloc acc ifno ?b (length ?b) m w =
      (if length ?r < 9 then Some (int (m + ?n), acc @ [a], w2)
       else do {
         ty \<leftarrow> rd ?b (?n + 1);
         num \<leftarrow> rd ?b (?n + 2);
         if ty \<noteq> LIBUSB_DT_INTERFACE \<or> num \<noteq> i then Some (int (m + ?n), acc @ [a], w2)
         else parse_altsettings alloc (acc @ [a]) (Some i) ?r (length ?r) (m + ?n) w2 })"
    using l w1 p num by (subst parse_altsettings.simps) (simp add: Let_def)
  have rd: "rd ?b (?n + 1) = Some (?r ! 1)" "rd ?b (?n + 2) = Some (?r ! 2)" if "9 \<le> length ?r"
    using that unfolding rd_def nth_append by auto
  show ?case
  proof (cases "alts = []")
    case True
    then show ?thesis using e rd assms(5) by (cases "length rest < 9") (auto simp: ends_interface_def)
  next
    case False
    then obtain b bs where b: "alts = b # bs" by (cases alts) auto
    have h: "altsetting_wf b" "id_bInterfaceNumber b = i" using Cons.prems b by simp_all
    have r: "\<not> length ?r < 9" "?r ! 1 = LIBUSB_DT_INTERFACE" "?r ! 2 = i"
      using encode_altsetting_head [of b] h by (simp_all add: b altsetting_wf_def)
    have "\<forall>a \<in> set alts. altsetting_wf a \<and> id_bInterfaceNumber a = i" using Cons.prems by simp
    from Cons.IH [OF False this, of "Some i" "acc @ [a]" "m + ?n" w2] show ?thesis
      using e rd r by (simp add: add.assoc linorder_not_less)
  qed
qed

lemma parse_association_encode:
  assumes "ample_mem alloc" "association_wf a" "known_head rest"
  shows "\<exists>w'. parse_association alloc c (encode_association a @ rest) (length (encode_association a @ rest)) w
    = Some (8, c\<lparr>cd_associations := cd_associations c @ [a]\<rparr>, w')"
proof -
  let ?b = "encode_association a @ rest"
  obtain w1 where a: "alloc w = (True, w1)" using ample_alloc [OF assms(1)] by blast
  have b: "rd ?b 0 = Some 8" "rd ?b 1 = Some LIBUSB_DT_ASSOCIATION" "8 \<le> length ?b" "drop 8 ?b = rest" "length ?b = 8 + length rest"
    using assms(2) by (simp_all add: association_wf_def encode_association_def rd_def)
  have "\<exists>fs. usbi_parse_descriptor ?b ''bbbbbbbb'' = Some fs \<and> association_of fs = a"
    by (simp add: encode_association_def association_of_def)
  then obtain fs where fs: "usbi_parse_descriptor ?b ''bbbbbbbb'' = Some fs" "association_of fs = a" by blast
  obtain h where s: "skip_extra rest (length rest) (Some LIBUSB_DT_ASSOCIATION) 0 = Some (Skipped 0 h)"
    using skip_extra_block [of "[]" rest "Some LIBUSB_DT_ASSOCIATION" 0] assms(3) by auto
  show ?thesis unfolding parse_association_def b(1,2) fs(1) using b(3-) fs(2) s a
    by (simp add: Let_def linorder_not_less [THEN iffD2])
qed

lemma parts_wf_interfaces: "parts_wf ps \<Longrightarrow> ps \<noteq> [] \<Longrightarrow> part_interfaces ps \<noteq> []"
  by (induction ps rule: parts_wf.induct) auto

lemma interface_head:
  assumes "interface_wf alts"
  shows "9 \<le> length (encode_part (Interface alts))" "(encode_part (Interface alts) @ rest) ! 1 = LIBUSB_DT_INTERFACE"
    "(encode_part (Interface alts) @ rest) ! 2 = id_bInterfaceNumber (hd alts)"
  using assms encode_altsetting_head [of "hd alts"]
  by (cases alts; auto simp: interface_wf_def altsetting_wf_def)+

lemma association_head:
  assumes "association_wf a"
  shows "length (encode_part (Association a)) = 8" "(encode_part (Association a) @ rest) ! 1 = LIBUSB_DT_ASSOCIATION"
  using assms by (simp_all add: association_wf_def encode_association_def)

lemma ends_interface_parts:
  assumes "parts_wf (Interface alts # ps)"
  shows "ends_interface (id_bInterfaceNumber (hd alts)) (concat (map encode_part ps))"
proof (cases ps)
  case Nil
  then show ?thesis by (simp add: ends_interface_def)
next
  case (Cons p qs)
  show ?thesis
  proof (cases p)
    case (Association a)
    then show ?thesis using assms Cons association_head(2) [of a]
      by (simp add: ends_interface_def DT_defs)
  next
    case (Interface alts')
    then show ?thesis using assms Cons interface_head(3) [of alts']
      by (simp add: ends_interface_def)
  qed
qed

lemma parse_part_encode:
  assumes "ample_mem alloc" "parts_wf (p # ps)" "k < length (cd_interface c)"
  shows "\<exists>w'. parse_part alloc c k (Some ((encode_part p @ concat (map encode_part ps)) ! 1))
      (encode_part p @ concat (map encode_part ps)) (length (encode_part p @ concat (map encode_part ps))) w
    = Some (int (length (encode_part p)), k + length (part_interfaces [p]),
        c\<lparr>cd_interface := take k (cd_interface c) @ part_interfaces [p] @ drop (k + length (part_interfaces [p])) (cd_interface c),
          cd_associations := cd_associations c @ part_associations [p]\<rparr>, w')"
proof (cases p)
  case (Association a)
  have wf: "association_wf a" "parts_wf ps" using assms(2) Association by simp_all
  obtain w' where "parse_association alloc c (encode_association a @ concat (map encode_part ps))
      (length (encode_association a @ concat (map encode_part ps))) w
    = Some (8, c\<lparr>cd_associations := cd_associations c @ [a]\<rparr>, w')"
    using parse_association_encode [OF assms(1) wf(1) known_head_parts [OF wf(2)]] by blast
  then show ?thesis using Association association_head [OF wf(1)] by (simp add: parse_part_def)
next
  case (Interface alts)
  have wf: "interface_wf alts" "parts_wf ps" using assms(2) Interface by simp_all
  let ?i = "id_bInterfaceNumber (hd alts)"
  have a: "alts \<noteq> []" "\<forall>a \<in> set alts. altsetting_wf a \<and> id_bInterfaceNumber a = ?i"
    using wf(1) unfolding interface_wf_def by blast+
  have x: "ends_interface ?i (concat (map encode_part ps))"
    using ends_interface_parts assms(2) unfolding Interface by blast
  obtain w' where "parse_altsettings alloc [] None (encode_part p @ concat (map encode_part ps))
      (length (encode_part p @ concat (map encode_part ps))) 0 w = Some (int (length (encode_part p)), alts, w')"
    using parse_altsettings_encode [OF assms(1) a known_head_parts [OF wf(2)] x, of None "[]" 0 w]
    unfolding Interface encode_part.simps by auto
  then show ?thesis using Interface interface_head(2) [OF wf(1)] assms(3)
    by (simp add: parse_part_def parse_interface_def DT_defs upd_conv_take_nth_drop)
qed

lemma parse_interfaces_encode:
  assumes "ample_mem alloc" "parts_wf ps" "unknown_block extra" "ps = [] \<longrightarrow> extra = []"
    "k + length (part_interfaces ps) \<le> unat (cd_bNumInterfaces c)" "length (cd_interface c) = unat (cd_bNumInterfaces c)"
  shows "\<exists>w'. parse_interfaces alloc c k h (extra @ concat (map encode_part ps)) (length (extra @ concat (map encode_part ps))) w
    = Some (0, c\<lparr>cd_interface := take k (cd_interface c) @ part_interfaces ps @ drop (k + length (part_interfaces ps)) (cd_interface c),
        cd_associations := cd_associations c @ part_associations ps, cd_extra := cd_extra c @ extra\<rparr>, w')"
  using assms(2-)
proof (induction ps arbitrary: c k h extra w)
  case Nil
  then show ?case by (subst parse_interfaces.simps) simp
next
  case (Cons p ps)
  let ?r = "encode_part p @ concat (map encode_part ps)"
  let ?b = "extra @ ?r"
  let ?k = "length extra"
  have wf: "parts_wf ps" using Cons.prems(1) by (cases p) simp_all
  have k: "k < unat (cd_bNumInterfaces c)" "k < length (cd_interface c)"
    using parts_wf_interfaces [OF Cons.prems(1)] Cons.prems(4,5)
    by (cases "part_interfaces (p # ps)"; simp)+
  have kh: "known_head ?r" using known_head_part [OF Cons.prems(1)] .
  have len: "8 \<le> length (encode_part p)"
    using Cons.prems(1) interface_head(1) association_head(1) by (cases p) fastforce+
  then have ne: "?r \<noteq> []" by auto
  obtain w1 where w1: "(if ?k = 0 then (True, w) else alloc w) = (True, w1)"
    using ample_alloc_if [OF assms(1)] by blast
  have s: "skip_extra ?b (length ?b) h 0 = Some (Skipped ?k (Some (?r ! 1)))"
    using skip_extra_block [OF Cons.prems(2) kh, of h 0] ne by auto
  let ?c = "c\<lparr>cd_extra := cd_extra c @ extra\<rparr>"
  let ?n = "length (part_interfaces [p])"
  obtain w2 where p: "parse_part alloc ?c k (Some (?r ! 1)) ?r (length ?r) w1
    = Some (int (length (encode_part p)), k + ?n,
        ?c\<lparr>cd_interface := take k (cd_interface c) @ part_interfaces [p] @ drop (k + ?n) (cd_interface c),
          cd_associations := cd_associations c @ part_associations [p]\<rparr>, w2)"
    using parse_part_encode [OF assms(1) Cons.prems(1), of k ?c w1] k(2) by auto
  let ?c' = "?c\<lparr>cd_interface := take k (cd_interface c) @ part_interfaces [p] @ drop (k + ?n) (cd_interface c),
          cd_associations := cd_associations c @ part_associations [p]\<rparr>"
  have n: "part_interfaces (p # ps) = part_interfaces [p] @ part_interfaces ps"
    "part_associations (p # ps) = part_associations [p] @ part_associations ps" by (cases p; simp)+
  have l: "0 < length (encode_part p)" using len by linarith
  have e: "parse_interfaces alloc c k h ?b (length ?b) w
    = parse_interfaces alloc ?c' (k + ?n) (Some (?r ! 1)) (concat (map encode_part ps)) (length (concat (map encode_part ps))) w2"
    using k(1) s w1 p l by (subst parse_interfaces.simps) (simp add: Let_def rd_bytes_def)
  have c': "k + ?n + length (part_interfaces ps) \<le> unat (cd_bNumInterfaces ?c')"
    "length (cd_interface ?c') = unat (cd_bNumInterfaces ?c')"
    using Cons.prems(4,5) k(2) n by simp_all
  have t: "take (k + ?n) (cd_interface ?c') = take k (cd_interface c) @ part_interfaces [p]"
    "drop (k + ?n + m) (cd_interface ?c') = drop (k + ?n + m) (cd_interface c)" for m
    using k(2) by (simp_all add: min.absorb2 add_ac)
  from Cons.IH [OF wf _ _ c', of "[]" "Some (?r ! 1)" w2] show ?case
    using e n t k(2) by (simp add: min.absorb2 add.assoc)
qed

lemma encode_config_fields:
  shows "\<exists>fs. usbi_parse_descriptor (encode_config c ps @ rest) ''bbwbbbbb'' = Some fs
    \<and> config_of_fields fs = c\<lparr>cd_interface := [], cd_associations := [], cd_extra := []\<rparr>"
  by (simp add: encode_config_def SHORT_TO_SW_def config_of_fields_def)

text \<open>With more interfaces announced than there are, the rest of the array stays empty.\<close>

lemma parse_configuration_announced:
  assumes "ample_mem alloc" "config_wf c ps" "cd_bNumInterfaces c \<le> n" "n \<le> 32"
  shows "\<exists>w'. parse_configuration alloc (encode_config (c\<lparr>cd_bNumInterfaces := n\<rparr>) ps)
      (length (encode_config (c\<lparr>cd_bNumInterfaces := n\<rparr>) ps)) w
    = Some (0, c\<lparr>cd_bNumInterfaces := n,
        cd_interface := cd_interface c @ replicate (unat n - length (cd_interface c)) []\<rparr>, w')"
proof -
  let ?b = "encode_config (c\<lparr>cd_bNumInterfaces := n\<rparr>) ps"
  let ?ps = "concat (map encode_part ps)"
  obtain fs where fs: "usbi_parse_descriptor ?b ''bbwbbbbb'' = Some fs"
    "config_of_fields fs = c\<lparr>cd_bNumInterfaces := n, cd_interface := [], cd_associations := [], cd_extra := []\<rparr>"
    using encode_config_fields [of "c\<lparr>cd_bNumInterfaces := n\<rparr>" ps "[]"] by auto
  have wf: "cd_bLength c = 9" "cd_bDescriptorType c = LIBUSB_DT_CONFIG"
    "unat (cd_bNumInterfaces c) = length (part_interfaces ps)" "ps \<noteq> []" "parts_wf ps" "unknown_block (cd_extra c)"
    "cd_interface c = part_interfaces ps" "cd_associations c = part_associations ps"
    using assms(2) by (auto simp: config_wf_def)
  have n: "length (part_interfaces ps) \<le> unat n" using assms(3) wf(3) by (simp add: word_le_nat_alt)
  obtain w1 where w1: "alloc w = (True, w1)" using ample_alloc [OF assms(1)] by blast
  have l: "length ?b = 9 + length (cd_extra c) + length ?ps" "drop 9 ?b = cd_extra c @ ?ps"
    by (simp_all add: encode_config_def SHORT_TO_SW_def)
  let ?c = "c\<lparr>cd_bNumInterfaces := n, cd_associations := [], cd_extra := [], cd_interface := replicate (unat n) []\<rparr>"
  obtain w' where "parse_interfaces alloc ?c 0 None (cd_extra c @ ?ps) (length (cd_extra c @ ?ps)) w1
    = Some (0, c\<lparr>cd_bNumInterfaces := n,
        cd_interface := cd_interface c @ replicate (unat n - length (cd_interface c)) []\<rparr>, w')"
    using parse_interfaces_encode [OF assms(1) wf(5,6), of 0 ?c None w1] wf n by auto
  then show ?thesis unfolding parse_configuration_def fs(1) using fs(2) wf(1-2) l w1 assms(4)
    by (simp add: Let_def linorder_not_less [THEN iffD2])
qed

lemma parse_configuration_encode:
  assumes "ample_mem alloc" "config_wf c ps"
  shows "\<exists>w'. parse_configuration alloc (encode_config c ps) (length (encode_config c ps)) w = Some (0, c, w')"
proof -
  have "unat (cd_bNumInterfaces c) - length (cd_interface c) = 0" "cd_bNumInterfaces c \<le> 32"
    using assms(2) by (auto simp: config_wf_def)
  then show ?thesis using parse_configuration_announced [OF assms order.refl, of w] by simp
qed

lemma configuration_roundtrip:
  assumes "ample_mem alloc" "config_wf c ps"
  shows "\<exists>w'. raw_desc_to_config alloc (encode_config c ps) (length (encode_config c ps)) w = Some (0, Some c, w')"
proof -
  obtain w1 where "alloc w = (True, w1)" using ample_alloc [OF assms(1)] by blast
  then show ?thesis using parse_configuration_encode [OF assms, of w1] by (auto simp: raw_desc_to_config_def)
qed

section \<open>Configurations in the cache\<close>

text \<open>Bytes that are a sequence of descriptors, none of a configuration.\<close>

definition desc_block :: "u8 list \<Rightarrow> bool" where
  "desc_block bs \<longleftrightarrow> (\<exists>ds. bs = concat ds \<and> (\<forall>d \<in> set ds. 2 \<le> length d \<and> unat (d ! 0) = length d \<and> d ! 1 \<noteq> LIBUSB_DT_CONFIG))"

lemma desc_block_Nil [simp]: "desc_block []"
  unfolding desc_block_def by (intro exI [of _ "[]"]) simp

lemma desc_block_one: "2 \<le> length d \<Longrightarrow> unat (d ! 0) = length d \<Longrightarrow> d ! 1 \<noteq> LIBUSB_DT_CONFIG \<Longrightarrow> desc_block d"
  unfolding desc_block_def by (intro exI [of _ "[d]"]) simp

lemma desc_block_append: "desc_block bs \<Longrightarrow> desc_block cs \<Longrightarrow> desc_block (bs @ cs)"
proof -
  assume "desc_block bs" "desc_block cs"
  then obtain ds es where "bs = concat ds" "cs = concat es"
    "\<forall>d \<in> set (ds @ es). 2 \<le> length d \<and> unat (d ! 0) = length d \<and> d ! 1 \<noteq> LIBUSB_DT_CONFIG"
    unfolding desc_block_def by auto
  then show ?thesis unfolding desc_block_def by (intro exI [of _ "ds @ es"]) simp
qed

lemma desc_block_concat: "\<forall>b \<in> set bs. desc_block b \<Longrightarrow> desc_block (concat bs)"
  by (induction bs) (simp_all add: desc_block_append)

lemma desc_block_unknown: "unknown_block bs \<Longrightarrow> desc_block bs"
proof (induction "length bs" arbitrary: bs rule: less_induct)
  case less
  show ?case
  proof (cases "bs = []")
    case False
    let ?n = "unat (bs ! 0)"
    have b: "2 \<le> length bs" "2 \<le> bs ! 0" "?n \<le> length bs" "\<not> is_known_descriptor_type (bs ! 1)" "unknown_block (drop ?n bs)"
      using less.prems [unfolded unknown_block_iff [of bs]] False by simp_all
    have n2: "2 \<le> ?n" using b(2) by (simp add: word_le_nat_alt)
    then have "take ?n bs ! 0 = bs ! 0" "take ?n bs ! 1 = bs ! 1" by simp_all
    then have "desc_block (take ?n bs)"
      using b n2 by (intro desc_block_one) (simp_all add: is_known_descriptor_type_def)
    moreover have "desc_block (drop ?n bs)" using less.hyps [OF _ b(5)] n2 False by simp
    ultimately show ?thesis using desc_block_append [of "take ?n bs" "drop ?n bs"] by simp
  qed simp
qed

lemma desc_block_endpoint: "endpoint_wf e \<Longrightarrow> desc_block (encode_endpoint e)"
proof -
  assume e: "endpoint_wf e"
  let ?d = "take (unat (ed_bLength e)) (encode_endpoint e)"
  have "encode_endpoint e = ?d @ ed_extra e" "desc_block ?d"
    using e by (auto simp: endpoint_wf_def encode_endpoint_def SHORT_TO_SW_def DT_defs intro!: desc_block_one)
  then show ?thesis using e desc_block_append [of ?d "ed_extra e"] by (simp add: endpoint_wf_def desc_block_unknown)
qed

lemma desc_block_altsetting: "altsetting_wf a \<Longrightarrow> desc_block (encode_altsetting a)"
proof -
  assume a: "altsetting_wf a"
  let ?d = "take 9 (encode_altsetting a)"
  have "encode_altsetting a = ?d @ id_extra a @ concat (map encode_endpoint (id_endpoint a))" "desc_block ?d"
    using a by (auto simp: altsetting_wf_def encode_altsetting_def DT_defs intro!: desc_block_one)
  moreover have "desc_block (id_extra a @ concat (map encode_endpoint (id_endpoint a)))"
    using a by (intro desc_block_append [OF desc_block_unknown desc_block_concat])
      (auto simp: altsetting_wf_def desc_block_endpoint)
  ultimately show ?thesis by (metis desc_block_append)
qed

lemma desc_block_parts: "parts_wf ps \<Longrightarrow> desc_block (concat (map encode_part ps))"
proof (induction ps rule: parts_wf.induct)
  case (2 a ps)
  then have "desc_block (encode_association a)"
    by (auto simp: association_wf_def encode_association_def DT_defs intro!: desc_block_one)
  then show ?case using 2 by (simp add: desc_block_append)
next
  case (3 alts ps)
  then have "desc_block (concat (map encode_altsetting alts))"
    by (auto simp: interface_wf_def intro!: desc_block_concat desc_block_altsetting)
  then show ?case using 3 by (simp add: desc_block_append)
qed simp

text \<open>The search goes over such bytes to what follows them.\<close>

lemma seek_next_block:
  assumes "\<forall>d \<in> set ds. 2 \<le> length d \<and> unat (d ! 0) = length d \<and> d ! 1 \<noteq> LIBUSB_DT_CONFIG"
    "rest = [] \<or> 2 \<le> length rest \<and> rest ! 1 = LIBUSB_DT_CONFIG" "pre \<noteq> []"
  shows "seek_to_next_descriptor LIBUSB_DT_CONFIG (pre @ concat ds @ rest) (int (length (concat ds @ rest))) (length pre)
    = Some (if rest = [] then LIBUSB_ERROR_NOT_FOUND else int (length pre + length (concat ds)))"
  using assms(1,3)
proof (induction ds arbitrary: pre)
  case Nil
  show ?case
  proof (cases "rest = []")
    case False
    then have "rd (pre @ rest) (length pre) = Some (rest ! 0)" "rd (pre @ rest) (length pre + 1) = Some (rest ! 1)"
      using assms(2) by (auto simp: rd_def nth_append)
    then show ?thesis using False assms(2) Nil by (subst seek_to_next_descriptor.simps) auto
  qed (subst seek_to_next_descriptor.simps, simp)
next
  case (Cons d ds)
  let ?b = "pre @ d @ concat ds @ rest"
  have d: "2 \<le> length d" "unat (d ! 0) = length d" "d ! 1 \<noteq> LIBUSB_DT_CONFIG" using Cons.prems(1) by simp_all
  then have r: "rd ?b (length pre) = Some (d ! 0)" "rd ?b (length pre + 1) = Some (d ! 1)"
    by (auto simp: rd_def nth_append)
  have u: "uint (d ! 0) = int (length d)" using d(2) by (metis of_nat_unat)
  have "seek_to_next_descriptor LIBUSB_DT_CONFIG ?b (int (length (d @ concat ds @ rest))) (length pre)
    = seek_to_next_descriptor LIBUSB_DT_CONFIG ?b (int (length (concat ds @ rest))) (length pre + length d)"
    using r d u by (subst seek_to_next_descriptor.simps) simp
  then show ?case using Cons.IH [of "pre @ d"] Cons.prems d by (simp add: add.assoc)
qed

lemma encode_config_split:
  assumes "config_wf c ps"
  shows "\<exists>ds. encode_config c ps = take 9 (encode_config c ps) @ concat ds
    \<and> (\<forall>d \<in> set ds. 2 \<le> length d \<and> unat (d ! 0) = length d \<and> d ! 1 \<noteq> LIBUSB_DT_CONFIG)"
proof -
  have "encode_config c ps = take 9 (encode_config c ps) @ cd_extra c @ concat (map encode_part ps)"
    by (simp add: encode_config_def SHORT_TO_SW_def)
  moreover have "desc_block (cd_extra c @ concat (map encode_part ps))"
    using assms by (intro desc_block_append desc_block_unknown desc_block_parts) (simp_all add: config_wf_def)
  ultimately show ?thesis unfolding desc_block_def by metis
qed

lemma encode_config_length: "9 \<le> length (encode_config c ps)"
  by (simp add: encode_config_def)

text \<open>The end of a configuration, with \<^verbatim>\<open>sysfs\<close> and without.\<close>

lemma seek_to_next_config_encode:
  assumes "config_wf c ps" "rest = [] \<or> 2 \<le> length rest \<and> rest ! 1 = LIBUSB_DT_CONFIG"
    "unat (cd_wTotalLength c) = length (encode_config c ps)"
  shows "seek_to_next_config sysfs (encode_config c ps @ rest) (int (length (encode_config c ps @ rest)))
    = Some (int (length (encode_config c ps)))"
proof -
  let ?b = "encode_config c ps"
  obtain fs where fs: "usbi_parse_descriptor (?b @ rest) ''bbwbbbbb'' = Some fs"
    "config_of_fields fs = c\<lparr>cd_interface := [], cd_associations := [], cd_extra := []\<rparr>"
    using encode_config_fields by blast
  obtain ds where ds: "?b = take 9 ?b @ concat ds"
    "\<forall>d \<in> set ds. 2 \<le> length d \<and> unat (d ! 0) = length d \<and> d ! 1 \<noteq> LIBUSB_DT_CONFIG"
    using encode_config_split [OF assms(1)] by blast
  let ?h = "take 9 ?b"
  have ty: "cd_bDescriptorType c = LIBUSB_DT_CONFIG" "cd_bLength c = 9" using assms(1) by (simp_all add: config_wf_def)
  have l: "length ?h = 9" "?h \<noteq> []" using encode_config_length [of c ps] by auto
  have r: "rd (?b @ rest) 0 = Some 9" "rd (?b @ rest) 1 = Some LIBUSB_DT_CONFIG"
    using ty by (simp_all add: encode_config_def rd_def)
  have b: "?h @ concat ds @ rest = ?b @ rest" using ds(1) by (metis append.assoc)
  then have n: "int (length (?b @ rest)) - 9 = int (length (concat ds @ rest))"
    using l(1) by (metis length_append add_diff_cancel_left' of_nat_add of_nat_numeral)
  have "seek_to_next_descriptor LIBUSB_DT_CONFIG (?b @ rest) (int (length (?b @ rest))) 0
    = seek_to_next_descriptor LIBUSB_DT_CONFIG (?b @ rest) (int (length (concat ds @ rest))) 9"
    using encode_config_length [of c ps] r unfolding n [symmetric] by (subst seek_to_next_descriptor.simps) simp
  then have s: "seek_to_next_descriptor LIBUSB_DT_CONFIG (?b @ rest) (int (length (?b @ rest))) 0
    = Some (if rest = [] then LIBUSB_ERROR_NOT_FOUND else int (9 + length (concat ds)))"
    using seek_next_block [OF ds(2) assms(2) l(2)] unfolding b l(1) by simp
  have lb: "9 + length (concat ds) = length ?b" using ds(1) l(1) by (metis length_append)
  have t: "uint (cd_wTotalLength c) = int (length ?b)" using assms(3) by (metis of_nat_unat)
  show ?thesis unfolding seek_to_next_config_def fs(1)
    using fs(2) ty s lb t encode_config_length [of c ps] l(2)
    by (cases "rest = []"; cases sysfs) (auto simp: word_less_nat_alt assms(3) Let_def)
qed

text \<open>
  C21. Reading the first configuration out of the cached descriptors gives back the record that was
  encoded there, with its interfaces, altsettings, endpoints, associations and unknown descriptors,
  whichever of the two ways of finding its end is used.
\<close>
theorem cached_configuration:
  assumes "ample_mem alloc" "config_wf c ps" "rest = [] \<or> 2 \<le> length rest \<and> rest ! 1 = LIBUSB_DT_CONFIG"
    "unat (cd_wTotalLength c) = length (encode_config c ps)"
    "length dev = 18" "uc_descriptors uc = dev @ encode_config c ps @ rest" "0 < uc_num_configurations uc"
  shows "\<exists>w'. libusb_get_config_descriptor alloc sysfs uc 0 w = Some (0, Some c, w')"
proof -
  let ?b = "encode_config c ps"
  let ?n = "length ?b"
  have ty: "cd_bDescriptorType c = LIBUSB_DT_CONFIG" "cd_bLength c = 9" using assms(2) by (simp_all add: config_wf_def)
  have d: "drop 18 (uc_descriptors uc) = ?b @ rest" "int (length (uc_descriptors uc)) - 18 = int (length (?b @ rest))"
    using assms(5,6) by simp_all
  have r: "rd (?b @ rest) 0 = Some 9" "rd (?b @ rest) 1 = Some LIBUSB_DT_CONFIG"
    using ty by (simp_all add: encode_config_def rd_def)
  have f: "seek_to_first_descriptor LIBUSB_DT_CONFIG (?b @ rest) (int (length (?b @ rest))) 0 = Some 0"
    using encode_config_length [of c ps] r by (subst seek_to_first_descriptor.simps) simp
  have op: "op_get_config_descriptor sysfs uc 0 len = Some (int (min len ?n), take (min len ?n) ?b)" for len
    unfolding op_get_config_descriptor_def Let_def d f
    using seek_to_next_config_encode [OF assms(2-4), of sysfs] by (simp add: rd_bytes_def min_def)
  have fs: "\<exists>fs. usbi_parse_descriptor (take 9 ?b) ''bbw'' = Some fs \<and> fld fs 2 = cd_wTotalLength c"
    by (simp add: encode_config_def SHORT_TO_SW_def numeral_2_eq_2)
  then obtain fs where fs: "usbi_parse_descriptor (take 9 ?b) ''bbw'' = Some fs" "fld fs 2 = cd_wTotalLength c" by blast
  obtain w1 where w1: "alloc w = (True, w1)" using ample_alloc [OF assms(1)] by blast
  obtain w2 where w2: "alloc w1 = (True, w2)" using ample_alloc [OF assms(1)] by blast
  obtain w3 where w3: "parse_configuration alloc ?b ?n w2 = Some (0, c, w3)"
    using parse_configuration_encode [OF assms(1,2)] by blast
  have n: "min 9 ?n = 9" using encode_config_length [of c ps] by simp
  show ?thesis
    unfolding libusb_get_config_descriptor_def read_config_def op n
    using fs assms(4,7) w1 w2 w3
    by (simp add: raw_desc_to_config_def linorder_not_le [THEN iffD2] del: usbi_parse_descriptor.simps word_neq_0_conv)
qed

lemma seek_first_moves:
  assumes "seek_to_first_descriptor ty buffer sz i = Some r"
  shows "\<not> (2 \<le> sz \<and> buffer ! i = 0 \<and> buffer ! (i + 1) \<noteq> ty)"
proof (rule seek_to_first_descriptor.raw_induct
    [where P = "\<lambda>ty buffer sz i r. \<not> (2 \<le> sz \<and> buffer ! i = 0 \<and> buffer ! (i + 1) \<noteq> ty)", OF _ assms])
  fix f :: "u8 \<Rightarrow> u8 list \<Rightarrow> int \<Rightarrow> nat \<Rightarrow> int option" and ty buffer sz i r
  assume IH: "\<And>ty buffer sz i r. f ty buffer sz i = Some r \<Longrightarrow> \<not> (2 \<le> sz \<and> buffer ! i = 0 \<and> buffer ! (i + 1) \<noteq> ty)"
    and e: "(if sz < 0 then Some LIBUSB_ERROR_IO
      else if sz = 0 then Some LIBUSB_ERROR_NOT_FOUND
      else if sz < 2 then Some LIBUSB_ERROR_IO
      else do {
        bLength \<leftarrow> rd buffer i;
        t \<leftarrow> rd buffer (i + 1);
        if t = ty then Some (int i) else f ty buffer (sz - uint bLength) (i + unat bLength) }) = Some r"
  show "\<not> (2 \<le> sz \<and> buffer ! i = 0 \<and> buffer ! (i + 1) \<noteq> ty)"
  proof
    assume a: "2 \<le> sz \<and> buffer ! i = 0 \<and> buffer ! (i + 1) \<noteq> ty"
    then have "f ty buffer sz i = Some r" using e by (auto simp: ub_simps)
    from IH [OF this] a show False by simp
  qed
qed

lemma seek_next_moves:
  assumes "seek_to_next_descriptor ty buffer sz i = Some r"
  shows "\<not> (i \<noteq> 0 \<and> 2 \<le> sz \<and> buffer ! i = 0 \<and> buffer ! (i + 1) \<noteq> ty)"
proof (rule seek_to_next_descriptor.raw_induct
    [where P = "\<lambda>ty buffer sz i r. \<not> (i \<noteq> 0 \<and> 2 \<le> sz \<and> buffer ! i = 0 \<and> buffer ! (i + 1) \<noteq> ty)", OF _ assms])
  fix f :: "u8 \<Rightarrow> u8 list \<Rightarrow> int \<Rightarrow> nat \<Rightarrow> int option" and ty buffer sz i r
  assume IH: "\<And>ty buffer sz i r. f ty buffer sz i = Some r \<Longrightarrow> \<not> (i \<noteq> 0 \<and> 2 \<le> sz \<and> buffer ! i = 0 \<and> buffer ! (i + 1) \<noteq> ty)"
    and e: "(if sz < 0 then Some LIBUSB_ERROR_IO
      else if sz = 0 then Some LIBUSB_ERROR_NOT_FOUND
      else if sz < 2 then Some LIBUSB_ERROR_IO
      else do {
        bLength \<leftarrow> rd buffer i;
        t \<leftarrow> rd buffer (i + 1);
        if i \<noteq> 0 \<and> t = ty then Some (int i) else f ty buffer (sz - uint bLength) (i + unat bLength) }) = Some r"
  show "\<not> (i \<noteq> 0 \<and> 2 \<le> sz \<and> buffer ! i = 0 \<and> buffer ! (i + 1) \<noteq> ty)"
  proof
    assume a: "i \<noteq> 0 \<and> 2 \<le> sz \<and> buffer ! i = 0 \<and> buffer ! (i + 1) \<noteq> ty"
    then have "f ty buffer sz i = Some r" using e by (auto simp: ub_simps)
    from IH [OF this] a show False by simp
  qed
qed

text \<open>
  A length byte of zero that is not the type looked for: the search makes no progress.
\<close>
theorem seek_stuck:
  assumes "2 \<le> sz" "buffer ! i = 0" "buffer ! (i + 1) \<noteq> ty"
  shows "seek_to_first_descriptor ty buffer sz i = None \<and> (i \<noteq> 0 \<longrightarrow> seek_to_next_descriptor ty buffer sz i = None)"
  using assms seek_first_moves [of ty buffer sz i] seek_next_moves [of ty buffer sz i]
  by (cases "seek_to_first_descriptor ty buffer sz i"; cases "seek_to_next_descriptor ty buffer sz i") auto

section \<open>Announced and missing interfaces\<close>

text \<open>The records that \<^verbatim>\<open>libuvc\<close> reads of a parsed configuration.\<close>

definition usb_endpoint_of :: "endpoint_descriptor \<Rightarrow> usb_endpoint" where
  "usb_endpoint_of e = \<lparr>ep_bEndpointAddress = ed_bEndpointAddress e, ep_wMaxPacketSize = ed_wMaxPacketSize e, ep_extra = ed_extra e\<rparr>"

definition usb_altsetting_of :: "interface_descriptor \<Rightarrow> usb_altsetting" where
  "usb_altsetting_of a = \<lparr>as_bInterfaceNumber = id_bInterfaceNumber a, as_bAlternateSetting = id_bAlternateSetting a,
     as_bInterfaceClass = id_bInterfaceClass a, as_bInterfaceSubClass = id_bInterfaceSubClass a,
     as_endpoints = map usb_endpoint_of (id_endpoint a), as_extra = id_extra a\<rparr>"

definition usb_config_of :: "config_descriptor \<Rightarrow> usb_config" where
  "usb_config_of c = map (map usb_altsetting_of) (take (unat (cd_bNumInterfaces c)) (cd_interface c))"


section \<open>Capabilities and strings\<close>

definition cap_ok :: "u8 list \<Rightarrow> bool" where
  "cap_ok cap \<longleftrightarrow> 3 \<le> length cap \<and> unat (cap ! 0) = length cap \<and> cap ! 1 = LIBUSB_DT_DEVICE_CAPABILITY"

lemma parse_caps_ok:
  assumes "sz \<le> length buffer" "\<forall>c \<in> set caps. cap_ok c"
  shows "\<exists>r caps' w'. parse_caps alloc k buffer sz caps w = Some (r, caps', w') \<and> r \<le> 0
    \<and> (\<forall>c \<in> set caps'. cap_ok c) \<and> length caps' \<le> length caps + k"
  using assms
proof (induction k arbitrary: buffer sz caps w)
  case 0
  then show ?case by simp
next
  case (Suc k)
  show ?case
  proof (cases "sz < 3")
    case True
    then show ?thesis using Suc.prems(2) by simp
  next
    case False
    have "sum_list (map field_bytes ''bbb'') \<le> length buffer" using False Suc.prems(1) by (simp add: field_bytes_def)
    from parse_descriptor_total [OF this] obtain fs where fs: "usbi_parse_descriptor buffer ''bbb'' = Some fs" ..
    have b: "fld fs 0 = buffer ! 0" "fld fs 1 = buffer ! 1" using parse_bb [OF fs] by simp_all
    let ?n = "unat (buffer ! 0)"
    obtain ok w1 where a: "alloc w = (ok, w1)" by (cases "alloc w")
    have e: "parse_caps alloc (Suc k) buffer sz caps w =
       (if buffer ! 1 \<noteq> LIBUSB_DT_DEVICE_CAPABILITY then Some (0, caps, w)
        else if ?n < 3 then Some (LIBUSB_ERROR_IO, [], w)
        else if sz < ?n then Some (0, caps, w)
        else if \<not> ok then Some (LIBUSB_ERROR_NO_MEM, [], w1)
        else do { cap \<leftarrow> rd_bytes buffer 0 ?n;
                  parse_caps alloc k (drop ?n buffer) (sz - ?n) (caps @ [cap]) w1 })"
      unfolding parse_caps.simps fs using False b a by (simp add: Let_def)
    show ?thesis
    proof (cases "buffer ! 1 = LIBUSB_DT_DEVICE_CAPABILITY \<and> 3 \<le> ?n \<and> ?n \<le> sz \<and> ok")
      case bad: False
      then show ?thesis unfolding e using Suc.prems(2) by auto
    next
      case True
      have "cap_ok (take ?n buffer)" using True Suc.prems(1) by (simp add: cap_ok_def)
      then have "sz - ?n \<le> length (drop ?n buffer)" "\<forall>c \<in> set (caps @ [take ?n buffer]). cap_ok c"
        using Suc.prems by auto
      from Suc.IH [OF this, of w1] show ?thesis unfolding e using True Suc.prems(1) by (auto simp: linorder_not_less)
    qed
  qed
qed

lemma parse_bos_ok:
  assumes "sz \<le> length buffer"
  shows "\<exists>r bos w'. parse_bos alloc buffer sz w = Some (r, bos, w') \<and> r \<le> 0 \<and> (r = 0 \<longleftrightarrow> bos \<noteq> None)
    \<and> (\<forall>b. bos = Some b \<longrightarrow> unat (bos_bNumDeviceCaps b) = length (bos_dev_capability b) \<and> (\<forall>c \<in> set (bos_dev_capability b). cap_ok c))"
proof (cases "sz < 5")
  case True
  then show ?thesis by (simp add: parse_bos_def)
next
  case False
  have "sum_list (map field_bytes ''bbwb'') \<le> length buffer" using False assms by (simp add: field_bytes_def)
  from parse_descriptor_total [OF this] obtain fs where fs: "usbi_parse_descriptor buffer ''bbwb'' = Some fs" ..
  let ?bos = "bos_of fs"
  let ?n = "unat (bos_bLength ?bos)"
  obtain ok w1 where a: "alloc w = (ok, w1)" by (cases "alloc w")
  show ?thesis
  proof (cases "bos_bDescriptorType ?bos = LIBUSB_DT_BOS \<and> 5 \<le> ?n \<and> ?n \<le> sz \<and> ok")
    case bad: False
    then show ?thesis unfolding parse_bos_def fs using False a by (auto simp: Let_def)
  next
    case True
    have "sz - ?n \<le> length (drop ?n buffer)" "\<forall>c \<in> set []. cap_ok c" using assms by simp_all
    from parse_caps_ok [OF this, of alloc "unat (bos_bNumDeviceCaps ?bos)" w1] obtain r caps w' where
      p: "parse_caps alloc (unat (bos_bNumDeviceCaps ?bos)) (drop ?n buffer) (sz - ?n) [] w1 = Some (r, caps, w')"
        "r \<le> 0" "\<forall>c \<in> set caps. cap_ok c" "length caps \<le> unat (bos_bNumDeviceCaps ?bos)" by auto
    have "unat (bos_bNumDeviceCaps ?bos) < 2 ^ LENGTH(8)" by (rule unsigned_less)
    then have "length caps < 256" using p(4) by simp
    then have "unat (of_nat (length caps) :: u8) = length caps" by (simp add: unat_of_nat)
    then show ?thesis unfolding parse_bos_def fs using False a True p by (cases "r < 0") (auto simp: Let_def)
  qed
qed

lemma cap_fields:
  assumes "sum_list (map field_bytes fmt) \<le> unat (cap ! 0)" "cap_ok cap"
  shows "\<exists>fs. usbi_parse_descriptor cap fmt = Some fs"
  using assms parse_descriptor_total [of fmt cap] by (simp add: cap_ok_def)

lemma usb_2_0_extension_total:
  "cap_ok cap \<Longrightarrow> libusb_get_usb_2_0_extension_descriptor alloc cap w \<noteq> None"
proof -
  assume c: "cap_ok cap"
  have "rd cap 2 = Some (cap ! 2)" "rd cap 0 = Some (cap ! 0)" using c by (auto simp: cap_ok_def intro!: rd_in)
  moreover have "7 \<le> cap ! 0 \<Longrightarrow> \<exists>fs. usbi_parse_descriptor cap ''bbbd'' = Some fs"
    using c by (intro cap_fields) (simp_all add: field_bytes_def word_le_nat_alt)
  ultimately show ?thesis unfolding libusb_get_usb_2_0_extension_descriptor_def
    by (cases "alloc w") (auto simp: Let_def linorder_not_less simp del: usbi_parse_descriptor.simps)
qed

lemma ss_usb_device_capability_total:
  "cap_ok cap \<Longrightarrow> libusb_get_ss_usb_device_capability_descriptor alloc cap w \<noteq> None"
proof -
  assume c: "cap_ok cap"
  have "rd cap 2 = Some (cap ! 2)" "rd cap 0 = Some (cap ! 0)" using c by (auto simp: cap_ok_def intro!: rd_in)
  moreover have "10 \<le> cap ! 0 \<Longrightarrow> \<exists>fs. usbi_parse_descriptor cap ''bbbbwbbw'' = Some fs"
    using c by (intro cap_fields) (simp_all add: field_bytes_def word_le_nat_alt)
  ultimately show ?thesis unfolding libusb_get_ss_usb_device_capability_descriptor_def
    by (cases "alloc w") (auto simp: Let_def linorder_not_less simp del: usbi_parse_descriptor.simps)
qed

lemma container_id_total:
  "cap_ok cap \<Longrightarrow> libusb_get_container_id_descriptor alloc cap w \<noteq> None"
proof -
  assume c: "cap_ok cap"
  have "rd cap 2 = Some (cap ! 2)" "rd cap 0 = Some (cap ! 0)" using c by (auto simp: cap_ok_def intro!: rd_in)
  moreover have "20 \<le> cap ! 0 \<Longrightarrow> \<exists>fs. usbi_parse_descriptor cap ''bbbbu'' = Some fs"
    using c by (intro cap_fields) (simp_all add: field_bytes_def word_le_nat_alt)
  ultimately show ?thesis unfolding libusb_get_container_id_descriptor_def
    by (cases "alloc w") (auto simp: Let_def linorder_not_less simp del: usbi_parse_descriptor.simps)
qed

text \<open>
  Over a control pipe the BOS descriptor is read or an error comes back, and each capability of
  it can be handed to any of the three functions that interpret one.
\<close>
theorem bos_capabilities:
  assumes "control_pipe (libusb_control_transfer u)"
  shows "\<exists>r bos w'. libusb_get_bos_descriptor u w = Some (r, bos, w') \<and>
    (\<forall>b. bos = Some b \<longrightarrow> unat (bos_bNumDeviceCaps b) = length (bos_dev_capability b)
      \<and> (\<forall>cap \<in> set (bos_dev_capability b). \<forall>alloc (v :: 'v).
          libusb_get_usb_2_0_extension_descriptor alloc cap v \<noteq> None
          \<and> libusb_get_ss_usb_device_capability_descriptor alloc cap v \<noteq> None
          \<and> libusb_get_container_id_descriptor alloc cap v \<noteq> None))"
proof -
  obtain r h w1 where g: "libusb_get_descriptor u LIBUSB_DT_BOS 0 (replicate 5 0) 5 w = Some (r, h, w1)" "length h = 5"
    using control_pipe.xfer_returns [OF assms, of 5 "replicate 5 0"] unfolding libusb_get_descriptor_def by fastforce
  have "sum_list (map field_bytes ''bbwb'') \<le> length h" using g(2) by (simp add: field_bytes_def)
  from parse_descriptor_total [OF this] obtain fs where fs: "usbi_parse_descriptor h ''bbwb'' = Some fs" ..
  let ?n = "bos_wTotalLength (bos_of fs)"
  obtain ok w2 where a: "usb_malloc u (unat ?n) w1 = (ok, w2)" by (cases "usb_malloc u (unat ?n) w1")
  obtain r2 d w3 where g2: "libusb_get_descriptor u LIBUSB_DT_BOS 0 (replicate (unat ?n) 0) ?n w2 = Some (r2, d, w3)"
      "length d = unat ?n" "r2 \<le> int (unat ?n)"
    using control_pipe.xfer_returns [OF assms, of ?n "replicate (unat ?n) 0"] unfolding libusb_get_descriptor_def by fastforce
  have caps: "cap_ok cap \<Longrightarrow> libusb_get_usb_2_0_extension_descriptor alloc cap v \<noteq> None
          \<and> libusb_get_ss_usb_device_capability_descriptor alloc cap v \<noteq> None
          \<and> libusb_get_container_id_descriptor alloc cap v \<noteq> None" for cap alloc and v :: 'v
    using usb_2_0_extension_total ss_usb_device_capability_total container_id_total by metis
  have "nat r2 \<le> length d" using g2(2,3) by linarith
  from parse_bos_ok [OF this, of "usb_malloc u 0" w3] obtain r3 bos w4 where
    p: "parse_bos (usb_malloc u 0) d (nat r2) w3 = Some (r3, bos, w4)"
      "\<forall>b. bos = Some b \<longrightarrow> unat (bos_bNumDeviceCaps b) = length (bos_dev_capability b) \<and> (\<forall>c \<in> set (bos_dev_capability b). cap_ok c)"
    by blast
  have e: "libusb_get_bos_descriptor u w =
    (if r < 0 then Some (r, None, w1) else if r < 5 then Some (LIBUSB_ERROR_IO, None, w1)
     else if \<not> ok then Some (LIBUSB_ERROR_NO_MEM, None, w2)
     else if 0 \<le> r2 then Some (r3, bos, w4) else Some (r2, None, w3))"
    unfolding libusb_get_bos_descriptor_def using g(1) fs a g2(1) p(1)
    by (simp add: Let_def del: usbi_parse_descriptor.simps)
  show ?thesis unfolding e using p(2) caps by (simp split: if_splits)
qed

text \<open>The character for a UTF-16 unit, and how many fit.\<close>

definition ascii_char :: "u8 list \<Rightarrow> nat \<Rightarrow> u8" where
  "ascii_char tbuf i = (if tbuf ! (2 + 2 * i) AND 0x80 = 0 \<and> tbuf ! (3 + 2 * i) = 0 then tbuf ! (2 + 2 * i) else 0x3F)"

definition string_count :: "u8 list \<Rightarrow> int \<Rightarrow> nat" where
  "string_count tbuf n = min ((unat (tbuf ! 0) - 1) div 2) (nat (n - 1))"

lemma string_chars_result:
  assumes "length tbuf = 255" "n \<le> int (length data)" "tbuf ! 0 \<noteq> 255" "di \<le> string_count tbuf n"
  shows "string_chars tbuf n (map (ascii_char tbuf) [0..<di] @ drop di data) di (2 + 2 * di)
    = Some (map (ascii_char tbuf) [0..<string_count tbuf n] @ drop (string_count tbuf n) data, string_count tbuf n)"
  using assms(4)
proof (induction "string_count tbuf n - di" arbitrary: di)
  case 0
  then have di: "di = string_count tbuf n" by simp
  have stop: "unat (tbuf ! 0) \<le> 2 + 2 * di \<or> n - 1 \<le> int di"
    unfolding di string_count_def by linarith
  have "rd tbuf 0 = Some (tbuf ! 0)" using assms(1) by (intro rd_in) simp
  then show ?case using stop unfolding di by (subst string_chars.simps) auto
next
  case (Suc m)
  then have lt: "di < string_count tbuf n" by simp
  let ?L = "unat (tbuf ! 0)"
  have L: "?L < 255"
  proof -
    have "?L < 2 ^ LENGTH(8)" by (rule unsigned_less)
    moreover have "?L \<noteq> 255" using assms(3) by (simp add: word_unat_eq_iff)
    ultimately show ?thesis by simp
  qed
  have si: "3 + 2 * di \<le> ?L" and n: "int di < n - 1" using lt unfolding string_count_def by linarith+
  have r: "rd tbuf 0 = Some (tbuf ! 0)" "rd tbuf (2 + 2 * di) = Some (tbuf ! (2 + 2 * di))"
    "rd tbuf (3 + 2 * di) = Some (tbuf ! (3 + 2 * di))"
    using assms(1) si L by (auto intro!: rd_in)
  have go: "\<not> (?L \<le> 2 + 2 * di \<or> n - 1 \<le> int di)" using si n by auto
  let ?d = "map (ascii_char tbuf) [0..<di] @ drop di data"
  have len: "di < length data" using n assms(2) by simp
  have w: "wr ?d di (ascii_char tbuf di) = Some (map (ascii_char tbuf) [0..<Suc di] @ drop (Suc di) data)"
    using len by (simp add: wr_def list_update_append Cons_nth_drop_Suc [symmetric])
  have "string_chars tbuf n ?d di (2 + 2 * di)
    = string_chars tbuf n (map (ascii_char tbuf) [0..<Suc di] @ drop (Suc di) data) (Suc di) (2 + 2 * Suc di)"
    using r go w by (subst string_chars.simps) (auto simp: ascii_char_def numeral_3_eq_3 split: if_splits)
  also have "\<dots> = Some (map (ascii_char tbuf) [0..<string_count tbuf n] @ drop (string_count tbuf n) data, string_count tbuf n)"
    using Suc.hyps(1) [of "Suc di"] Suc.hyps(2) lt by simp
  finally show ?case .
qed

lemma ascii_char_7bit: "ascii_char tbuf i AND 0x80 = 0"
  by (simp add: ascii_char_def)

text \<open>
  The string read is the characters of the descriptor, cut to the buffer and ended by a zero
  byte; the device must not send a descriptor of odd length 255, which would make the loop read
  behind the array.
\<close>
theorem string_descriptor_ascii:
  assumes "control_pipe (libusb_control_transfer u)" "length tbuf = 255" "0 < n" "n \<le> int (length data)" "desc_index \<noteq> 0"
    "\<And>langid d w r d' w'. libusb_get_string_descriptor u desc_index langid d 255 w = Some (255, d', w') \<Longrightarrow> d' ! 0 \<noteq> 255"
  shows "\<exists>r data' w'. libusb_get_string_descriptor_ascii u desc_index data n tbuf w = Some (r, data', w')
    \<and> length data' = length data \<and> (r < 0 \<longrightarrow> data' = data)
    \<and> (0 \<le> r \<longrightarrow> r < n \<and> data' ! nat r = 0 \<and> drop (Suc (nat r)) data' = drop (Suc (nat r)) data
        \<and> (\<forall>i < nat r. data' ! i AND 0x80 = 0))"
proof -
  let ?get = "libusb_get_string_descriptor u"
  have get: "\<exists>r d' w'. ?get i l d 255 w = Some (r, d', w') \<and> length d' = 255 \<and> r \<le> 255" if "length d = 255" for i l d w
    using control_pipe.xfer_returns [OF assms(1), of 255 d] that unfolding libusb_get_string_descriptor_def by fastforce
  obtain r1 t1 w1 where g1: "?get 0 0 tbuf 255 w = Some (r1, t1, w1)" "length t1 = 255" using get [OF assms(2)] by blast
  obtain r2 t2 w2 where g2: "?get desc_index (SW_TO_SHORT (t1 ! 2) (t1 ! 3)) t1 255 w1 = Some (r2, t2, w2)" "length t2 = 255" "r2 \<le> 255"
    using get [OF g1(2)] by blast
  let ?k = "string_count t2 n"
  let ?d = "map (ascii_char t2) [0..<?k] @ drop ?k data"
  have k: "int ?k < n" using assms(3) unfolding string_count_def by linarith
  have len: "length ?d = length data" "?k < length data" using k assms(4) by simp_all
  have e: "libusb_get_string_descriptor_ascii u desc_index data n tbuf w =
      (if r1 < 0 then Some (r1, data, w1) else if r1 < 4 then Some (LIBUSB_ERROR_IO, data, w1)
       else if r2 < 0 then Some (r2, data, w2) else if t2 ! 1 \<noteq> LIBUSB_DT_STRING \<or> r2 < uint (t2 ! 0) then Some (LIBUSB_ERROR_IO, data, w2)
       else do { (data, di) \<leftarrow> string_chars t2 n data 0 2; data \<leftarrow> wr data di 0; Some (int di, data, w2) })"
    unfolding libusb_get_string_descriptor_ascii_def using assms(5) g1 g2 by simp
  show ?thesis
  proof (cases "r1 < 4 \<or> r2 < 0 \<or> t2 ! 1 \<noteq> LIBUSB_DT_STRING \<or> r2 < uint (t2 ! 0)")
    case True
    then show ?thesis unfolding e by auto
  next
    case False
    have "t2 ! 0 \<noteq> 255"
    proof
      assume z: "t2 ! 0 = 255"
      then have "r2 = 255" using False g2(3) by simp
      then show False using assms(6) [of "SW_TO_SHORT (t1 ! 2) (t1 ! 3)" t1 w1] g2(1) z by simp
    qed
    from string_chars_result [OF g2(2) assms(4) this, of 0]
    have s: "string_chars t2 n data 0 2 = Some (?d, ?k)" by simp
    have w: "wr ?d ?k 0 = Some (?d[?k := 0])" using len by (simp add: wr_def)
    have "libusb_get_string_descriptor_ascii u desc_index data n tbuf w = Some (int ?k, ?d[?k := 0], w2)"
      unfolding e s using False w by simp
    moreover have "\<forall>i < ?k. ?d[?k := 0] ! i AND 0x80 = 0" by (simp add: nth_append ascii_char_7bit)
    moreover have "drop (Suc ?k) (?d[?k := 0]) = drop (Suc ?k) data" by simp
    ultimately show ?thesis using k len by simp
  qed
qed

text \<open>With the length 255 and an ASCII byte at the end of the array, the byte behind it is read.\<close>
lemma string_descriptor_overrun:
  "string_chars (255 # 3 # concat (replicate 126 [0x41, 0]) @ [0x41]) 200 (replicate 200 0) 0 2 = None"
  by code_simp

section \<open>A camera\<close>

text \<open>
  The configuration of a small camera: an association, a VideoControl interface with
  class-specific bytes and an interrupt endpoint, and a VideoStreaming interface with two altsettings.
\<close>

definition sample_association :: association_descriptor where
  "sample_association = \<lparr>ia_bLength = 8, ia_bDescriptorType = 11, ia_bFirstInterface = 0, ia_bInterfaceCount = 2,
     ia_bFunctionClass = 14, ia_bFunctionSubClass = 3, ia_bFunctionProtocol = 0, ia_iFunction = 0\<rparr>"

definition sample_endpoint :: "u8 \<Rightarrow> u16 \<Rightarrow> endpoint_descriptor" where
  "sample_endpoint address packet = \<lparr>ed_bLength = 7, ed_bDescriptorType = 5, ed_bEndpointAddress = address,
     ed_bmAttributes = 3, ed_wMaxPacketSize = packet, ed_bInterval = 8, ed_bRefresh = 0, ed_bSynchAddress = 0,
     ed_extra = [5, 0x25, 3, 0x10, 0]\<rparr>"

definition sample_altsetting :: "u8 \<Rightarrow> u8 \<Rightarrow> u8 \<Rightarrow> u8 list \<Rightarrow> endpoint_descriptor list \<Rightarrow> interface_descriptor" where
  "sample_altsetting number alternate subclass extra eps = \<lparr>id_bLength = 9, id_bDescriptorType = 4,
     id_bInterfaceNumber = number, id_bAlternateSetting = alternate, id_bNumEndpoints = of_nat (length eps),
     id_bInterfaceClass = 14, id_bInterfaceSubClass = subclass, id_bInterfaceProtocol = 0, id_iInterface = 0,
     id_endpoint = eps, id_extra = extra\<rparr>"

definition sample_parts :: "part list" where
  "sample_parts = [Association sample_association,
     Interface [sample_altsetting 0 0 1 [13, 0x24, 1, 0x00, 0x01, 13, 0, 0, 0, 0, 0, 1, 1] [sample_endpoint 0x83 16]],
     Interface [sample_altsetting 1 0 2 [] [], sample_altsetting 1 1 2 [] [sample_endpoint 0x81 1024]]]"

definition sample_config :: config_descriptor where
  "sample_config = \<lparr>cd_bLength = 9, cd_bDescriptorType = 2, cd_wTotalLength = 81, cd_bNumInterfaces = 2,
     cd_bConfigurationValue = 1, cd_iConfiguration = 0, cd_bmAttributes = 0x80, cd_MaxPower = 250,
     cd_interface = part_interfaces sample_parts, cd_associations = part_associations sample_parts, cd_extra = []\<rparr>"

definition always :: "nat \<Rightarrow> bool \<times> nat" where
  "always w = (True, w + 1)"

lemma always_ample: "ample_mem always"
  by (simp add: ample_mem_def always_def)

lemma sample_wf: "config_wf sample_config sample_parts"
  by code_simp

theorem parse_configuration_total_witness:
  "parse_configuration always [9, 2, 10, 0, 1, 1, 0, 0x80, 50, 7] 10 0 = None"
  using parse_configuration_total [OF always_ample, of 10 "[9, 2, 10, 0, 1, 1, 0, 0x80, 50, 7]" 0]
  by (simp add: stray_byte_def LIBUSB_DT_CONFIG_def)

definition sample_cache :: usb_cache where
  "sample_cache = \<lparr>uc_descriptors = replicate 18 0 @ encode_config sample_config sample_parts @ [], uc_num_configurations = 1,
     uc_active = 1\<rparr>"

lemma sample_total: "unat (cd_wTotalLength sample_config) = length (encode_config sample_config sample_parts)"
  by code_simp

theorem cached_configuration_witness:
  "\<exists>w'. libusb_get_config_descriptor always True sample_cache 0 0 = Some (0, Some sample_config, w')"
  by (rule cached_configuration [where rest = "[]" and dev = "replicate 18 0", OF always_ample sample_wf _ sample_total])
    (simp_all add: sample_cache_def)

theorem seek_stuck_witness: "seek_to_first_descriptor LIBUSB_DT_CONFIG [0, 6, 0, 2] 4 0 = None"
  using seek_stuck [of 4 "[0, 6, 0, 2]" 0 LIBUSB_DT_CONFIG] by (simp add: LIBUSB_DT_CONFIG_def)

definition hid_parts :: "part list" where
  "hid_parts = [Interface [(sample_altsetting 0 0 0 [] [sample_endpoint 0x81 8])\<lparr>id_bInterfaceClass := 3\<rparr>]]"

definition hid_config :: config_descriptor where
  "hid_config = sample_config\<lparr>cd_bNumInterfaces := 1, cd_interface := part_interfaces hid_parts, cd_associations := []\<rparr>"


theorem bos_capabilities_witness:
  "\<exists>r bos w'. libusb_get_bos_descriptor echo_usb ((\<lambda>_. []), False) = Some (r, bos, w') \<and>
    (\<forall>b. bos = Some b \<longrightarrow> unat (bos_bNumDeviceCaps b) = length (bos_dev_capability b)
      \<and> (\<forall>cap \<in> set (bos_dev_capability b). \<forall>alloc (v :: nat).
          libusb_get_usb_2_0_extension_descriptor alloc cap v \<noteq> None
          \<and> libusb_get_ss_usb_device_capability_descriptor alloc cap v \<noteq> None
          \<and> libusb_get_container_id_descriptor alloc cap v \<noteq> None))"
  by (rule bos_capabilities [OF echo.pipe.control_pipe_axioms])

text \<open>A device that answers every request with the same bytes.\<close>

definition const_usb :: "u8 list \<Rightarrow> unit usb" where
  "const_usb reply = mute_usb\<lparr>usb_outcome := \<lambda>t w.
     let k = min (length reply) (min (length (t_buffer t) - 8) (nat (t_length t - 8)))
     in \<lparr>x_status = TRANSFER_COMPLETED, x_actual = int k,
         x_buffer = take 8 (t_buffer t) @ take k reply @ drop (8 + k) (t_buffer t)\<rparr>\<rparr>"

interpretation const: usb_backend "const_usb reply" "\<lambda>w. 0" for reply
  by unfold_locales (auto simp: const_usb_def mute_usb_def Let_def min_def)

lemma const_transfer_bound:
  assumes "libusb_control_transfer (const_usb reply) rt rq v i data n tmo w = Some (r, d, w')"
  shows "r \<le> int (length reply)"
proof -
  have "sync_transfer_wait_for_completion (const_usb reply) w = Some w" for w
    by (subst sync_transfer_wait_for_completion.simps) (simp add: const_usb_def mute_usb_def)
  with assms show ?thesis
    by (auto simp: libusb_control_transfer_def const_usb_def mute_usb_def Let_def ub_simps)
qed

theorem string_descriptor_ascii_witness:
  "\<exists>r data' w'. libusb_get_string_descriptor_ascii (const_usb [6, 3, 0x41, 0, 0xE9, 0]) 1 (replicate 8 0x7A) 8 (replicate 255 0) ()
      = Some (r, data', w')
    \<and> length data' = length (replicate 8 (0x7A :: u8)) \<and> (r < 0 \<longrightarrow> data' = replicate 8 0x7A)
    \<and> (0 \<le> r \<longrightarrow> r < 8 \<and> data' ! nat r = 0 \<and> drop (Suc (nat r)) data' = drop (Suc (nat r)) (replicate 8 0x7A)
        \<and> (\<forall>i < nat r. data' ! i AND 0x80 = 0))"
proof (rule string_descriptor_ascii)
  show "control_pipe (libusb_control_transfer (const_usb [6, 3, 0x41, 0, 0xE9, 0]))"
    by (rule const.pipe.control_pipe_axioms)
  fix langid d w d' w'
  assume "libusb_get_string_descriptor (const_usb [6, 3, 0x41, 0, 0xE9, 0]) 1 langid d 255 w = Some (255, d', w')"
  then have "(255 :: int) \<le> int (length [6, 3, 0x41, 0, 0xE9, 0 :: u8])"
    unfolding libusb_get_string_descriptor_def by (rule const_transfer_bound)
  then show "d' ! 0 \<noteq> 255" by simp
qed simp_all

end
