(* ===== verification/Rtmp_Session.thy ===== *)
theory Rtmp_Session
  imports C_Prelude
begin

text \<open>
  What the two RTMP clients of \<^verbatim>\<open>AnyCore\<close> share: the search for the parts of a key frame
  (\<^verbatim>\<open>SetH264Data\<close> of \<^verbatim>\<open>anyrtmpush.cc\<close> and \<^verbatim>\<open>RescanVideoframe\<close> of \<^verbatim>\<open>anyrtmpull.cc\<close> have the
  same loop), and the life of a connection with its retries as an abstract machine. The locale
  \<open>rtmp_client\<close> says that a client follows the machine.
\<close>

section \<open>The parts of a key frame\<close>

definition start_code :: "u8 list \<Rightarrow> nat \<Rightarrow> bool" where
  "start_code p i \<longleftrightarrow> p ! i = 0 \<and> p ! (i + 1) = 0 \<and> p ! (i + 2) = 0 \<and> p ! (i + 3) = 1
     \<or> p ! i = 0 \<and> p ! (i + 1) = 0 \<and> p ! (i + 2) = 1"

definition head01 :: "u8 list \<Rightarrow> nat \<Rightarrow> nat" where
  "head01 p i = (if p ! (i + 2) = 1 then 3 else 4)"

text \<open>
  The loop: \<open>find7\<close> and \<open>find8\<close> are the variables of the code, with 0 for not found; the third
  part of the result is where \<^verbatim>\<open>ptr5\<close> starts. The guard keeps all accesses inside the data.
\<close>

function find_nals :: "u8 list \<Rightarrow> nat \<Rightarrow> nat \<Rightarrow> nat \<Rightarrow> nat \<times> nat \<times> nat option" where
  "find_nals p i find7 find8 =
     (if i + 4 < length p
      then if start_code p i
           then if find7 = 0 then find_nals p (i + 2) i find8
                else if find8 = 0
                then if p ! (i + head01 p i) AND 0x1f = 5 then (find7, i, Some i)
                     else find_nals p (i + 1) find7 i
                else (find7, find8, Some i)
           else find_nals p (i + 1) find7 find8
      else (find7, find8, None))"
  by pat_completeness auto
termination by (relation "measure (\<lambda>(p, i, _). length p - i)") auto

declare find_nals.simps [simp del]

definition nals_of :: "u8 list \<Rightarrow> nat \<times> nat \<times> nat option" where
  "nals_of p = find_nals p 4 0 0"

text \<open>\<^verbatim>\<open>ptr7\<close> and \<^verbatim>\<open>ptr8\<close> with their sizes; a null pointer comes with size 0.\<close>

definition nal_sps :: "u8 list \<Rightarrow> u8 list" where
  "nal_sps p = (let (find7, _, _) = nals_of p in take find7 p)"

definition nal_pps :: "u8 list \<Rightarrow> u8 list" where
  "nal_pps p = (let (find7, find8, _) = nals_of p in drop find7 (take find8 p))"

section \<open>What the search finds\<close>

lemma find_nals_bounds:
  assumes "find_nals p i f7 f8 = (g7, g8, r)" "f7 < i" "f8 \<noteq> 0 \<longrightarrow> f7 \<noteq> 0 \<and> f7 < f8 \<and> f8 < i"
  shows "(f7 \<noteq> 0 \<longrightarrow> g7 = f7) \<and> (g7 \<noteq> 0 \<longrightarrow> f7 \<noteq> 0 \<or> i \<le> g7 \<and> start_code p g7 \<and> g7 + 4 < length p)
    \<and> (f8 \<noteq> 0 \<longrightarrow> g8 = f8) \<and> (g8 \<noteq> 0 \<longrightarrow> g7 \<noteq> 0 \<and> g7 < g8 \<and> (f8 = 0 \<longrightarrow> i \<le> g8 \<and> start_code p g8 \<and> g8 + 4 < length p))
    \<and> (\<forall>k. r = Some k \<longrightarrow> g8 \<noteq> 0 \<and> g8 \<le> k \<and> i \<le> k \<and> k + 4 < length p \<and> start_code p k)"
  using assms
proof (induction p i f7 f8 arbitrary: g7 g8 r rule: find_nals.induct)
  case (1 p i f7 f8)
  note e = 1(4)
  note inv = 1(5,6)
  show ?case
  proof (cases "i + 4 < length p \<and> (start_code p i \<longrightarrow> f7 = 0 \<or> f8 = 0 \<and> p ! (i + head01 p i) AND 0x1f \<noteq> 5)")
    case False
    then show ?thesis using e inv by (subst (asm) find_nals.simps) (auto split: if_splits)
  next
    case True
    then consider (first) "start_code p i" "f7 = 0" "find_nals p (i + 2) i f8 = (g7, g8, r)"
      | (second) "start_code p i" "f7 \<noteq> 0" "f8 = 0" "p ! (i + head01 p i) AND 0x1f \<noteq> 5" "find_nals p (i + 1) f7 i = (g7, g8, r)"
      | (other) "\<not> start_code p i" "find_nals p (i + 1) f7 f8 = (g7, g8, r)"
      using e by (subst (asm) find_nals.simps) (auto split: if_splits)
    then show ?thesis
    proof cases
      case first
      then show ?thesis using True inv 1(1) [of g7 g8 r] by fastforce
    next
      case second
      then show ?thesis using True inv 1(2) [of g7 g8 r] by fastforce
    next
      case other
      then show ?thesis using True inv 1(3) [of g7 g8 r] by fastforce
    qed
  qed
qed

text \<open>A NAL unit behind its start code, as H.264 defines it: no start code inside, no zero at the end.\<close>

definition nal_body :: "u8 list \<Rightarrow> bool" where
  "nal_body b \<longleftrightarrow> b \<noteq> [] \<and> last b \<noteq> 0
     \<and> (\<forall>j. j + 2 < length b \<longrightarrow> \<not> (b ! j = 0 \<and> b ! (j + 1) = 0 \<and> (b ! (j + 2) = 0 \<or> b ! (j + 2) = 1)))"

definition nal_code :: "u8 list \<Rightarrow> bool" where
  "nal_code c \<longleftrightarrow> c = [0, 0, 1] \<or> c = [0, 0, 0, 1]"

lemma no_start_in_body:
  assumes "nal_body b" "length u \<le> j" "j < length u + length b"
  shows "\<not> start_code (u @ b @ v) j"
proof -
  let ?p = "u @ b @ v"
  obtain k where k: "j = length u + k" "k < length b" using assms(2,3) by (metis le_Suc_ex nat_add_left_cancel_less)
  have at: "?p ! (j + m) = b ! (k + m)" if "k + m < length b" for m
    using that by (simp add: k(1) nth_append)
  show ?thesis
  proof (cases "k + 2 < length b")
    case True
    then show ?thesis using at [of 0] at [of 1] at [of 2] assms(1) unfolding nal_body_def start_code_def by auto
  next
    case False
    have l: "b ! (length b - 1) \<noteq> 0" using assms(1) last_conv_nth [of b] unfolding nal_body_def by metis
    consider "length b = k + 1" | "length b = k + 2" using False k(2) by linarith
    then have "?p ! j \<noteq> 0 \<or> ?p ! (j + 1) \<noteq> 0"
    proof cases
      case 1
      then show ?thesis using l at [of 0] by simp
    next
      case 2
      then show ?thesis using l at [of 1] by simp
    qed
    then show ?thesis by (auto simp: start_code_def)
  qed
qed

lemma start_at_code:
  assumes "nal_code c" "v \<noteq> []"
  shows "start_code (u @ c @ v) (length u)" "head01 (u @ c @ v) (length u) = length c"
    "\<not> start_code (u @ c @ v) (length u + 2)" "length c = 4 \<Longrightarrow> \<not> start_code (u @ c @ v) (length u + 3)"
  using assms by (auto simp: nal_code_def start_code_def head01_def nth_append nth_Cons split: nat.splits)

lemma find_nals_skip:
  "\<forall>j. i \<le> j \<and> j < k \<longrightarrow> \<not> start_code p j \<Longrightarrow> i \<le> k \<Longrightarrow> k + 3 < length p \<Longrightarrow> find_nals p i f7 f8 = find_nals p k f7 f8"
proof (induction "k - i" arbitrary: i)
  case (Suc n)
  then have "find_nals p (i + 1) f7 f8 = find_nals p k f7 f8" by simp
  moreover have "\<not> start_code p i" "i + 4 < length p" using Suc.prems Suc.hyps(2) by simp_all
  ultimately show ?case by (subst find_nals.simps) simp
qed simp

text \<open>The search takes apart what an encoder puts together: parameter sets and a key slice.\<close>

lemma nals_found:
  assumes "nal_body b7" "nal_body b8" "b5 \<noteq> []" "nal_code c8" "nal_code c5" "length c5 = 3 \<longrightarrow> 2 \<le> length b5"
    "b5 ! 0 AND 0x1f = 5" and p: "p = [0, 0, 0, 1] @ b7 @ c8 @ b8 @ c5 @ b5"
  shows "nals_of p = (4 + length b7, 4 + length b7 + length c8 + length b8, Some (4 + length b7 + length c8 + length b8))"
    "head01 p (4 + length b7 + length c8 + length b8) = length c5"
proof -
  let ?u7 = "[0, 0, 0, 1] :: u8 list" and ?u8 = "[0, 0, 0, 1] @ b7" and ?u5 = "[0, 0, 0, 1] @ b7 @ c8 @ b8"
  let ?f7 = "length ?u8" and ?f8 = "length ?u5"
  have c: "length c8 = 3 \<or> length c8 = 4" "length c5 = 3 \<or> length c5 = 4" using assms(4,5) by (auto simp: nal_code_def)
  have len: "length p = ?f8 + length c5 + length b5" "0 < length b5" "?f8 + 4 < length p" "?f7 + 4 < length p"
    using c assms(3,6) by (auto simp: p Suc_le_eq)
  have s8: "start_code p ?f7" "\<not> start_code p (?f7 + 2)" "length c8 = 4 \<Longrightarrow> \<not> start_code p (?f7 + 3)"
    using start_at_code [OF assms(4), of "b8 @ c5 @ b5" ?u8] assms(3) by (auto simp: p)
  have s5: "start_code p ?f8" "head01 p ?f8 = length c5"
    using start_at_code [OF assms(5), of b5 ?u5] assms(3) by (auto simp: p)
  have n7: "\<not> start_code p j" if "4 \<le> j" "j < ?f7" for j
    using no_start_in_body [OF assms(1), of ?u7 j "c8 @ b8 @ c5 @ b5"] that by (simp add: p)
  have n8: "\<not> start_code p j" if "?f7 + 2 \<le> j" "j < ?f8" for j
  proof (cases "?f7 + length c8 \<le> j")
    case True
    then show ?thesis using no_start_in_body [OF assms(2), of "[0, 0, 0, 1] @ b7 @ c8" j "c5 @ b5"] that by (simp add: p)
  next
    case False
    then have "j = ?f7 + 2 \<or> j = ?f7 + 3 \<and> length c8 = 4" using that c(1) by linarith
    then show ?thesis using s8 by blast
  qed
  have h: "p ! (?f8 + length c5) = b5 ! 0" using assms(3) by (simp add: p nth_append)
  have f7: "?f7 \<noteq> 0" by simp
  have l: "?f8 = 4 + length b7 + length c8 + length b8" by simp
  have "nals_of p = find_nals p ?f7 0 0"
    unfolding nals_of_def using n7 len(4) by (intro find_nals_skip) auto
  also have "\<dots> = find_nals p (?f7 + 2) ?f7 0"
    using s8(1) len(4) by (subst find_nals.simps) (simp only: if_True simp_thms)
  also have "\<dots> = find_nals p ?f8 ?f7 0"
    using n8 len(3) c(1) by (intro find_nals_skip) auto
  also have "\<dots> = (?f7, ?f8, Some ?f8)"
    using s5 len(3) h f7 assms(7) by (subst find_nals.simps) (simp only: if_True if_False simp_thms)
  finally show "nals_of p = (4 + length b7, 4 + length b7 + length c8 + length b8, Some (4 + length b7 + length c8 + length b8))" by simp
  show "head01 p (4 + length b7 + length c8 + length b8) = length c5"
    using s5(2) l by (simp only:)
qed

section \<open>The life of a connection\<close>

text \<open>
  Three requests lead to a stream: handshake, connect, and publish or play. A failure at any point
  starts over, at most three times in a row; then the client gives up for good.
\<close>

datatype connection = Trying nat nat | Online | Gone | Shut

datatype conn_event = Up | Retry int | Down

inductive conn_step :: "connection \<Rightarrow> conn_event list \<Rightarrow> connection \<Rightarrow> bool" where
  stay: "conn_step c [] c"
| advance: "k < 2 \<Longrightarrow> conn_step (Trying k r) [] (Trying (k + 1) r)"
| connect: "conn_step (Trying 2 r) [Up] Online"
| retry: "r < 3 \<Longrightarrow> conn_step (Trying k r) [Retry (int r + 1)] (Trying 0 (r + 1))"
| lost: "conn_step Online [Retry 1] (Trying 0 1)"
| give_up: "conn_step (Trying k 3) [Down] Gone"
| shut: "conn_step c [] Shut"

inductive_simps conn_step_done: "conn_step Gone es c" "conn_step Shut es c"

inductive conn_run :: "connection \<Rightarrow> conn_event list \<Rightarrow> connection \<Rightarrow> bool" where
  conn_nil: "conn_run c [] c"
| conn_snoc: "conn_run c es c' \<Longrightarrow> conn_step c' fs c'' \<Longrightarrow> conn_run c (es @ fs) c''"

lemma conn_one: "conn_step c es c' \<Longrightarrow> conn_run c es c'"
  using conn_snoc [OF conn_nil] by simp

lemma conn_trans:
  assumes "conn_run c es c'" "conn_run c' fs c''"
  shows "conn_run c (es @ fs) c''"
  using assms(2,1) by (induction rule: conn_run.induct) (auto simp flip: append_assoc intro: conn_run.intros)

text \<open>
  The events up to a point: the retries since the last connection or the start, and before the end
  always three of them.
\<close>

definition fresh_start :: "conn_event list \<Rightarrow> bool" where
  "fresh_start es \<longleftrightarrow> (es = [] \<or> last es = Up) \<and> Down \<notin> set es"

definition given_up :: "conn_event list \<Rightarrow> bool" where
  "given_up es \<longleftrightarrow> (\<exists>pre. es = pre @ [Retry 1, Retry 2, Retry 3, Down] \<and> fresh_start pre)"

fun conn_shape :: "connection \<Rightarrow> conn_event list \<Rightarrow> bool" where
  "conn_shape (Trying k r) es \<longleftrightarrow> r \<le> 3 \<and> (\<exists>pre. es = pre @ map (\<lambda>n. Retry (int n)) [1..<r + 1] \<and> fresh_start pre)"
| "conn_shape Online es \<longleftrightarrow> es \<noteq> [] \<and> fresh_start es"
| "conn_shape Gone es \<longleftrightarrow> given_up es"
| "conn_shape Shut es \<longleftrightarrow> (Down \<in> set es \<longrightarrow> given_up es)"

lemma conn_shape_down: "conn_shape c es \<Longrightarrow> Down \<in> set es \<Longrightarrow> given_up es"
  by (cases c) (auto simp: fresh_start_def)

lemma conn_shape_step:
  assumes "conn_step c fs c'" "conn_shape c es"
  shows "conn_shape c' (es @ fs)"
  using assms
proof (cases rule: conn_step.cases)
  case (retry r k)
  then show ?thesis using assms(2) by (auto simp: upt_Suc_append)
next
  case (give_up k)
  then show ?thesis using assms(2) by (auto simp: eval_nat_numeral given_up_def)
next
  case shut
  then show ?thesis using conn_shape_down [OF assms(2)] by simp
qed (auto simp: fresh_start_def)

lemma conn_run_shape:
  assumes "conn_run (Trying 0 0) es c"
  shows "conn_shape c es"
proof -
  have "conn_shape c es" if "conn_run c0 es c" "c0 = Trying 0 0" for c0
    using that by (induction rule: conn_run.induct) (auto intro: conn_shape_step simp: fresh_start_def)
  then show ?thesis using assms by blast
qed

lemma conn_run_retries:
  assumes "conn_run (Trying 0 0) es c" "Retry n \<in> set es"
  shows "1 \<le> n \<and> n \<le> 3"
proof -
  have "\<forall>n. Retry n \<in> set es \<longrightarrow> 1 \<le> n \<and> n \<le> 3" if "conn_run c0 es c" "c0 = Trying 0 0" for c0
    using that by (induction rule: conn_run.induct) (auto elim!: conn_step.cases)
  then show ?thesis using assms by blast
qed

lemma gone_forever:
  assumes "conn_run Gone es c"
  shows "es = []"
proof -
  have "es = [] \<and> c \<in> {Gone, Shut}" if "conn_run c0 es c" "c0 = Gone" for c0
    using that by (induction rule: conn_run.induct) (auto simp: conn_step_done)
  then show ?thesis using assms by blast
qed

section \<open>A client that follows the machine\<close>

lemma map_filter_append [simp]: "List.map_filter f (xs @ ys) = List.map_filter f xs @ List.map_filter f ys"
  by (simp add: List.map_filter_def)

text \<open>A run of calls, each of which adds to the log.\<close>

fun log_run :: "('a \<Rightarrow> 's \<Rightarrow> ('e list \<times> 's) option) \<Rightarrow> 'a list \<Rightarrow> 's \<Rightarrow> ('e list \<times> 's) option" where
  "log_run act [] s = Some ([], s)"
| "log_run act (a # as) s = do { (es, s) \<leftarrow> act a s; (fs, s) \<leftarrow> log_run act as s; Some (es @ fs, s) }"

lemma log_run_Cons [ub_simps]:
  "log_run act (a # as) s = Some (es, s') \<longleftrightarrow>
     (\<exists>es1 s1 es2. act a s = Some (es1, s1) \<and> log_run act as s1 = Some (es2, s') \<and> es = es1 @ es2)"
  by (auto simp: ub_simps)

text \<open>A property of the log so far and the state that every step keeps.\<close>

lemma log_run_invariant:
  assumes "\<And>a log s w es s' w'. I log s \<Longrightarrow> ok a \<Longrightarrow> act a (s, w) = Some (es, s', w') \<Longrightarrow> I (log @ es) s'"
  shows "log_run act as (s, w) = Some (es, s', w') \<Longrightarrow> \<forall>a \<in> set as. ok a \<Longrightarrow> I log s \<Longrightarrow> I (log @ es) s'"
proof (induction as arbitrary: log s w es)
  case (Cons a as)
  then obtain es1 s1 w1 es2 where 1: "act a (s, w) = Some (es1, s1, w1)" "log_run act as (s1, w1) = Some (es2, s', w')" "es = es1 @ es2"
    by (auto simp: ub_simps)
  have "I (log @ es1) s1" using assms [OF Cons.prems(3) _ 1(1)] Cons.prems(2) by simp
  with Cons.IH [OF 1(2), of "log @ es1"] Cons.prems(2) show ?case by (simp add: 1(3))
qed simp

lemma log_run_append:
  "log_run act (as @ bs) s = do { (es, s) \<leftarrow> log_run act as s; (fs, s) \<leftarrow> log_run act bs s; Some (es @ fs, s) }"
  by (induction as arbitrary: s) (auto split: option.splits Option.bind_splits)

text \<open>The part of a log behind the last \<open>x\<close>.\<close>

definition since_last :: "'a \<Rightarrow> 'a list \<Rightarrow> 'a list" where
  "since_last x l = rev (takeWhile (\<lambda>y. y \<noteq> x) (rev l))"

lemma since_last_append: "since_last x (l @ l') = (if x \<in> set l' then since_last x l' else since_last x l @ l')"
  by (induction l' rule: rev_induct) (auto simp: since_last_def)

lemma since_last_none: "x \<notin> set l \<Longrightarrow> since_last x l = l"
  using since_last_append [of x "[]" l] by (simp add: since_last_def)

section \<open>The interface of the RTMP library\<close>

text \<open>
  The functions of \<^verbatim>\<open>srs_librtmp\<close> over a world \<open>'w\<close>: those both clients call. The handle of
  a connection is part of the world; a client only knows whether it has one.
\<close>

record 'w srs =
  srs_rtmp_create :: "'w \<Rightarrow> 'w"
  srs_rtmp_destroy :: "'w \<Rightarrow> 'w"
  srs_rtmp_handshake :: "'w \<Rightarrow> int \<times> 'w"
  srs_rtmp_connect_app :: "'w \<Rightarrow> int \<times> 'w"
  srs_time :: "'w \<Rightarrow> int \<times> 'w"

section \<open>A client of the library\<close>

text \<open>
  \<open>act\<close> is any call or any turn of the client's thread; it gives a log of what it did, in which
  \<open>conn_of\<close> finds the events of the connection.
\<close>

locale rtmp_client =
  fixes act :: "'a \<Rightarrow> 's \<Rightarrow> ('e list \<times> 's) option"
    and phase :: "'s \<Rightarrow> connection"
    and consistent :: "'s \<Rightarrow> bool"
    and conn_of :: "'e \<Rightarrow> conn_event option"
  assumes follows: "consistent s \<Longrightarrow> act a s = Some (es, s')
    \<Longrightarrow> conn_step (phase s) (List.map_filter conn_of es) (phase s') \<and> consistent s'"
begin

lemma acts_run:
  "consistent s \<Longrightarrow> log_run act as s = Some (es, s') \<Longrightarrow> conn_run (phase s) (List.map_filter conn_of es) (phase s')"
proof (induction as arbitrary: s es)
  case Nil
  then show ?case by (simp add: conn_nil)
next
  case (Cons a as)
  then obtain es1 s1 es2 where "act a s = Some (es1, s1)" "log_run act as s1 = Some (es2, s')" "es = es1 @ es2"
    by (auto simp: ub_simps)
  then show ?case using conn_trans [OF conn_one] follows [OF Cons.prems(1)] Cons.IH by fastforce
qed

text \<open>Whoever gives up has tried three times in a row, and nothing comes after.\<close>

lemma gives_up:
  assumes "consistent s" "phase s = Trying 0 0" "log_run act as s = Some (es, s')" "e \<in> set es" "conn_of e = Some Down"
  shows "given_up (List.map_filter conn_of es)"
proof -
  have "Down \<in> set (List.map_filter conn_of es)" using assms(4,5) by (force simp: List.map_filter_def)
  then show ?thesis using conn_shape_down [OF conn_run_shape] acts_run [OF assms(1,3)] assms(2) by metis
qed

lemma retries_bounded:
  assumes "consistent s" "phase s = Trying 0 0" "log_run act as s = Some (es, s')" "e \<in> set es" "conn_of e = Some (Retry n)"
  shows "1 \<le> n \<and> n \<le> 3"
proof -
  have "Retry n \<in> set (List.map_filter conn_of es)" using assms(4,5) by (force simp: List.map_filter_def)
  then show ?thesis using conn_run_retries acts_run [OF assms(1,3)] assms(2) by metis
qed

lemma stays_gone:
  assumes "consistent s" "phase s = Gone" "log_run act as s = Some (es, s')"
  shows "List.map_filter conn_of es = []"
  using gone_forever acts_run [OF assms(1,3)] assms(2) by metis

end

end
