(* ===== verification/Av_Audio.thy ===== *)
theory Av_Audio
  imports Rtmp_Session
begin

text \<open>
  The sound of the streamer: \<^verbatim>\<open>AnyCore/aacencode.cc\<close>, which cuts the sound into blocks of the
  size the AAC encoder wants, and \<^verbatim>\<open>A_AACEncoder\<close> of \<^verbatim>\<open>avcodec.cc\<close> over it. The encoder itself
  (faac), the resampler and the clock are parameters. Sound is a list of bytes, two for a sample.
\<close>

section \<open>Blocks of samples\<close>

text \<open>\<open>pPCM\<close> is the array of \<open>nPcmSize\<close> bytes, of which the first \<open>nPcmALen\<close> are in use.\<close>

record aac_enc =
  nPcmSize :: nat
  pPCM :: "u8 list"
  nPcmALen :: nat

text \<open>
  What faac answers to \<^verbatim>\<open>faacEncOpen\<close> (the number of samples of a block) is an argument, as is the
  content of the new array.
\<close>

definition aac_encoder_open :: "nat \<Rightarrow> nat \<Rightarrow> (nat \<Rightarrow> u8 list) \<Rightarrow> aac_enc" where
  "aac_encoder_open nInputSamples u32PCMBitSize fresh =
     (let n = nInputSamples * u32PCMBitSize div 8
      in \<lparr>nPcmSize = n, pPCM = fresh n, nPcmALen = 0\<rparr>)"

text \<open>
  \<open>faac\<close> encodes a block; an answer without bytes stands for a result that is not positive. \<open>cap\<close>
  is the size of the caller's array.
\<close>

definition aac_encoder_encode_frame ::
  "(u8 list \<Rightarrow> 'w \<Rightarrow> u8 list \<times> 'w) \<Rightarrow> nat \<Rightarrow> u8 list \<Rightarrow> aac_enc \<times> 'w \<Rightarrow> (int \<times> u8 list \<times> aac_enc \<times> 'w) option" where
  "aac_encoder_encode_frame faac cap inbuf ew =
     (let (e, w) = ew; inlen = length inbuf
      in if (int (nPcmALen e) + int inlen) mod 2 ^ 32 < int (nPcmSize e)
         then do { p \<leftarrow> wr_bytes (pPCM e) (nPcmALen e) inbuf;
                   Some (0, [], e\<lparr>pPCM := p, nPcmALen := nPcmALen e + inlen\<rparr>, w) }
         else do {
           let need = nPcmSize e - nPcmALen e;
           d \<leftarrow> rd_bytes inbuf 0 need;
           p \<leftarrow> wr_bytes (pPCM e) (nPcmALen e) d;
           let (out, w) = faac p w;
           _ \<leftarrow> (if length out \<le> cap then Some () else None);
           rest \<leftarrow> rd_bytes inbuf need (inlen - need);
           p \<leftarrow> wr_bytes p 0 rest;
           Some (int (nPcmALen e), out, e\<lparr>pPCM := p, nPcmALen := inlen - need\<rparr>, w) })"

section \<open>The audio encoder\<close>

text \<open>
  \<open>aac_enc\<close> is \<^verbatim>\<open>encoder_\<close>, with \<open>None\<close> for the null pointer. The list \<^verbatim>\<open>audio_buffer_\<close> is only ever
  emptied and is left out.
\<close>

record a_aac_encoder =
  aac_encoder_of :: "aac_enc option"
  a_muted :: bool
  a_encoded :: bool
  audio_record_sample_hz :: int
  audio_record_channels :: int

definition new_a_aac_encoder :: a_aac_encoder where
  "new_a_aac_encoder = \<lparr>aac_encoder_of = None, a_muted = False, a_encoded = False,
     audio_record_sample_hz = 44100, audio_record_channels = 2\<rparr>"

definition a_Init :: "(int \<Rightarrow> int \<Rightarrow> nat) \<Rightarrow> (nat \<Rightarrow> u8 list) \<Rightarrow> int \<Rightarrow> int \<Rightarrow> nat \<Rightarrow> a_aac_encoder \<Rightarrow> bool \<times> a_aac_encoder" where
  "a_Init samples fresh num_channels sample_rate pcm_bit_size a =
     (if aac_encoder_of a \<noteq> None then (False, a)
      else (True, a\<lparr>audio_record_sample_hz := sample_rate, audio_record_channels := num_channels,
             aac_encoder_of := Some (aac_encoder_open (samples sample_rate num_channels) pcm_bit_size fresh)\<rparr>))"

definition a_Muted :: "bool \<Rightarrow> a_aac_encoder \<Rightarrow> a_aac_encoder" where
  "a_Muted enable a = a\<lparr>a_muted := enable\<rparr>"

definition a_StartEncoder :: "a_aac_encoder \<Rightarrow> a_aac_encoder" where
  "a_StartEncoder a = a\<lparr>a_encoded := True\<rparr>"

definition a_StopEncoder :: "a_aac_encoder \<Rightarrow> a_aac_encoder" where
  "a_StopEncoder a = a\<lparr>a_encoded := False\<rparr>"

text \<open>
  The library below: the clock, faac, and the resampler, which gives the content of the array
  \<^verbatim>\<open>temp_output\<close> of 3840 samples after the call.
\<close>

record 'w audio_env =
  rtc_Time :: "'w \<Rightarrow> u32 \<times> 'w"
  faacEncEncode :: "u8 list \<Rightarrow> 'w \<Rightarrow> u8 list \<times> 'w"
  Resample10Msec :: "u8 list \<Rightarrow> int \<Rightarrow> int \<Rightarrow> 'w \<Rightarrow> u8 list \<times> 'w"

text \<open>What \<^verbatim>\<open>OnEncodeDataCallback\<close> gets.\<close>

datatype encoded_data = Encoded_audio "u8 list" u32 | Encoded_video "u8 list" u32

text \<open>The first \<open>n\<close> bytes of the samples are encoded.\<close>

definition a_Encode ::
  "('w, 'm) audio_env_scheme \<Rightarrow> u8 list \<Rightarrow> nat \<Rightarrow> a_aac_encoder \<times> 'w \<Rightarrow> (int \<times> encoded_data list \<times> a_aac_encoder \<times> 'w) option" where
  "a_Encode v samples n aw =
     (let (a, w) = aw in case aac_encoder_of a of
        None \<Rightarrow> Some (0, [], a, w)
      | Some e \<Rightarrow> do {
          let (curtime, w) = rtc_Time v w;
          d \<leftarrow> rd_bytes samples 0 n;
          let d = (if a_muted a then replicate n 0 else d);
          (status, out, e, w) \<leftarrow> aac_encoder_encode_frame (faacEncEncode v) 1024 d (e, w);
          Some (status, if out = [] then [] else [Encoded_audio out curtime], a\<lparr>aac_encoder_of := Some e\<rparr>, w) })"

record audio_data =
  ad_data :: "u8 list"
  ad_samples_per_channel :: nat
  ad_sample_rate :: int
  ad_channels :: int

definition a_OnData ::
  "('w, 'm) audio_env_scheme \<Rightarrow> audio_data \<Rightarrow> a_aac_encoder \<times> 'w \<Rightarrow> (encoded_data list \<times> a_aac_encoder \<times> 'w) option" where
  "a_OnData v audio aw =
     (let (a, w) = aw
      in if \<not> a_encoded a then Some ([], a, w)
         else if audio_record_sample_hz a \<noteq> ad_sample_rate audio \<or> ad_channels audio \<noteq> audio_record_channels a
         then do { let (temp, w) = Resample10Msec v (ad_data audio) (ad_sample_rate audio * ad_channels audio)
                                     (audio_record_sample_hz a * audio_record_channels a) w;
                   (_, l, a, w) \<leftarrow> a_Encode v temp (nat (audio_record_sample_hz a div 100) * 2 * nat (audio_record_channels a)) (a, w);
                   Some (l, a, w) }
         else do { (_, l, a, w) \<leftarrow> a_Encode v (ad_data audio) (ad_samples_per_channel audio * 2 * nat (audio_record_channels a)) (a, w);
                   Some (l, a, w) })"

lemma a_OnData_same:
  assumes "a_OnData v d (a, w) = Some (l, a', w')"
  shows "a_encoded a' = a_encoded a" "a_muted a' = a_muted a"
  using assms by (auto simp: a_OnData_def a_Encode_def ub_simps Let_def split: if_splits option.splits prod.splits)

section \<open>What reaches the encoder\<close>

text \<open>The complete blocks of \<open>n\<close> bytes of a stream.\<close>

definition full_blocks :: "nat \<Rightarrow> 'a list \<Rightarrow> 'a list list" where
  "full_blocks n xs = map (\<lambda>i. take n (drop (i * n) xs)) [0..<length xs div n]"

definition leftover :: "nat \<Rightarrow> 'a list \<Rightarrow> 'a list" where
  "leftover n xs = drop (length xs div n * n) xs"

lemma blocks_short: "length xs < n \<Longrightarrow> full_blocks n xs = [] \<and> leftover n xs = xs"
  by (simp add: full_blocks_def leftover_def)

lemma blocks_step:
  assumes "0 < n" "length b = n"
  shows "full_blocks n (b @ xs) = b # full_blocks n xs" "leftover n (b @ xs) = leftover n xs"
proof -
  have d: "length (b @ xs) div n = Suc (length xs div n)" using assms by (simp add: div_add_self1)
  have "[0..<Suc k] = 0 # map Suc [0..<k]" for k by (simp add: map_Suc_upt upt_conv_Cons)
  then show "full_blocks n (b @ xs) = b # full_blocks n xs"
    unfolding full_blocks_def d using assms(2) by (simp add: comp_def)
  show "leftover n (b @ xs) = leftover n xs" unfolding leftover_def d using assms(2) by simp
qed

lemma length_leftover: "0 < n \<Longrightarrow> length (leftover n xs) < n"
  by (simp add: leftover_def minus_div_mult_eq_mod)

text \<open>Cutting a stream in two steps.\<close>

lemma blocks_append:
  assumes "0 < n"
  shows "full_blocks n (xs @ ys) = full_blocks n xs @ full_blocks n (leftover n xs @ ys)"
    "leftover n (xs @ ys) = leftover n (leftover n xs @ ys)"
proof -
  have "full_blocks n (xs @ ys) = full_blocks n xs @ full_blocks n (leftover n xs @ ys)
    \<and> leftover n (xs @ ys) = leftover n (leftover n xs @ ys)"
  proof (induction "length xs" arbitrary: xs rule: less_induct)
    case less
    show ?case
    proof (cases "length xs < n")
      case True
      then show ?thesis using blocks_short [of xs n] by simp
    next
      case False
      define b r where "b = take n xs" and "r = drop n xs"
      have x: "xs = b @ r" "length b = n" "length r < length xs" using False assms by (auto simp: b_def r_def)
      show ?thesis using less [OF x(3)] blocks_step [OF assms x(2)] unfolding x(1) by simp
    qed
  qed
  then show "full_blocks n (xs @ ys) = full_blocks n xs @ full_blocks n (leftover n xs @ ys)"
    "leftover n (xs @ ys) = leftover n (leftover n xs @ ys)" by auto
qed

text \<open>The state between two calls: the array holds the rest of the stream so far.\<close>

definition holds_rest :: "nat \<Rightarrow> aac_enc \<Rightarrow> u8 list \<Rightarrow> bool" where
  "holds_rest n e xs \<longleftrightarrow> nPcmSize e = n \<and> length (pPCM e) = n \<and> nPcmALen e = length xs \<and> length xs < n
     \<and> take (length xs) (pPCM e) = xs"

lemma encode_frame_blocks:
  assumes "holds_rest n e rest" "length d \<le> n" "2 * n \<le> 2 ^ 32" "\<And>b w. length (fst (faac b w)) \<le> cap"
  shows "\<exists>ret e' w' out. aac_encoder_encode_frame faac cap d (e, w) = Some (ret, out, e', w')
    \<and> holds_rest n e' (leftover n (rest @ d))
    \<and> (full_blocks n (rest @ d) = [] \<and> out = [] \<and> w' = w
       \<or> (\<exists>b. full_blocks n (rest @ d) = [b] \<and> faac b w = (out, w')))"
proof -
  have n: "nPcmSize e = n" "length (pPCM e) = n" "nPcmALen e = length rest" "length rest < n"
    and t: "take (length rest) (pPCM e) = rest" using assms(1) by (simp_all add: holds_rest_def)
  have m: "(int (length rest) + int (length d)) mod 2 ^ 32 = int (length rest) + int (length d)"
    using n(4) assms(2,3) by (intro mod_pos_pos_trivial) auto
  show ?thesis
  proof (cases "length rest + length d < n")
    case True
    let ?p = "rest @ d @ drop (length rest + length d) (pPCM e)"
    have "wr_bytes (pPCM e) (length rest) d = Some ?p" using True n t by (simp add: wr_bytes_def)
    then have "aac_encoder_encode_frame faac cap d (e, w) = Some (0, [], e\<lparr>pPCM := ?p, nPcmALen := length rest + length d\<rparr>, w)"
      unfolding aac_encoder_encode_frame_def using True n m by (simp add: Let_def)
    moreover have "holds_rest n (e\<lparr>pPCM := ?p, nPcmALen := length rest + length d\<rparr>) (rest @ d)"
      using n True by (simp add: holds_rest_def)
    ultimately show ?thesis using blocks_short [of "rest @ d" n] True by auto
  next
    case False
    define need where "need = n - length rest"
    define b where "b = rest @ take need d"
    define r where "r = drop need d"
    have nd: "need \<le> length d" "length b = n" "rest @ d = b @ r" "length r < n"
      using False n(4) assms(2) by (simp_all add: need_def b_def r_def)
    have w1: "wr_bytes (pPCM e) (length rest) (take need d) = Some b"
      using nd n t by (simp add: wr_bytes_def b_def need_def)
    obtain out w2 where f: "faac b w = (out, w2)" by (cases "faac b w")
    have cap: "length out \<le> cap" using assms(4) [of b w] f by simp
    have w3: "wr_bytes b 0 r = Some (r @ drop (length r) b)" using nd by (simp add: wr_bytes_def)
    let ?e = "e\<lparr>pPCM := r @ drop (length r) b, nPcmALen := length d - need\<rparr>"
    have "aac_encoder_encode_frame faac cap d (e, w) = Some (int (length rest), out, ?e, w2)"
      unfolding aac_encoder_encode_frame_def using False n m nd w1 f cap w3
      by (simp add: need_def [symmetric] r_def Let_def)
    moreover have "holds_rest n ?e (leftover n (rest @ d))"
      using n nd blocks_step(2) [OF _ nd(2), of r] blocks_short [OF nd(4)] by (simp add: holds_rest_def r_def)
    moreover have "full_blocks n (rest @ d) = [b]"
      using nd blocks_step(1) [OF _ nd(2), of r] blocks_short [OF nd(4)] n(4) by simp
    ultimately show ?thesis using f by auto
  qed
qed

section \<open>A session\<close>

datatype audio_act = Audio_data audio_data | Audio_muted bool | Audio_start | Audio_stop

fun audio_step ::
  "('w, 'm) audio_env_scheme \<Rightarrow> audio_act \<Rightarrow> a_aac_encoder \<times> 'w \<Rightarrow> (encoded_data list \<times> a_aac_encoder \<times> 'w) option" where
  "audio_step v (Audio_data d) aw = a_OnData v d aw"
| "audio_step v (Audio_muted b) (a, w) = Some ([], a_Muted b a, w)"
| "audio_step v Audio_start (a, w) = Some ([], a_StartEncoder a, w)"
| "audio_step v Audio_stop (a, w) = Some ([], a_StopEncoder a, w)"

text \<open>
  The sound of a session in the format of the encoder, whose samples of all channels take \<open>k\<close> bytes:
  what comes while encoding is on, silence where it is muted.
\<close>

fun sound_of :: "nat \<Rightarrow> bool \<Rightarrow> bool \<Rightarrow> audio_act list \<Rightarrow> u8 list" where
  "sound_of k on muted [] = []"
| "sound_of k on muted (Audio_data d # as) =
     (let n = ad_samples_per_channel d * k
      in if \<not> on then [] else if muted then replicate n 0 else take n (ad_data d)) @ sound_of k on muted as"
| "sound_of k on muted (Audio_muted b # as) = sound_of k on b as"
| "sound_of k on muted (Audio_start # as) = sound_of k True muted as"
| "sound_of k on muted (Audio_stop # as) = sound_of k False muted as"

text \<open>Data in the format of the encoder, not longer than a block.\<close>

definition plain_data :: "int \<Rightarrow> int \<Rightarrow> nat \<Rightarrow> audio_data \<Rightarrow> bool" where
  "plain_data hz ch n d \<longleftrightarrow> ad_sample_rate d = hz \<and> ad_channels d = ch
     \<and> (let k = ad_samples_per_channel d * 2 * nat ch in k \<le> length (ad_data d) \<and> k \<le> n)"

text \<open>
  \<open>coded\<close> is what the world remembers of faac: the blocks with their answers. The clock leaves it alone.
\<close>

definition faac_history :: "('w, 'm) audio_env_scheme \<Rightarrow> ('w \<Rightarrow> (u8 list \<times> u8 list) list) \<Rightarrow> bool" where
  "faac_history v coded \<longleftrightarrow> (\<forall>w. coded (snd (rtc_Time v w)) = coded w)
     \<and> (\<forall>b w. coded (snd (faacEncEncode v b w)) = coded w @ [(b, fst (faacEncEncode v b w))])
     \<and> (\<forall>b w. length (fst (faacEncEncode v b w)) \<le> 1024)"

definition audio_holds :: "nat \<Rightarrow> int \<Rightarrow> int \<Rightarrow> a_aac_encoder \<Rightarrow> u8 list \<Rightarrow> bool" where
  "audio_holds n hz ch a rest \<longleftrightarrow> audio_record_sample_hz a = hz \<and> audio_record_channels a = ch
     \<and> (\<exists>e. aac_encoder_of a = Some e \<and> holds_rest n e rest)"

lemma Encode_blocks:
  assumes "faac_history v coded" "audio_holds n hz ch a rest" "k \<le> length samples" "k \<le> n" "2 * n \<le> 2 ^ 32"
  shows "\<exists>st l a' w' cs. a_Encode v samples k (a, w) = Some (st, l, a', w') \<and> coded w' = coded w @ cs
    \<and> map fst cs = full_blocks n (rest @ (if a_muted a then replicate k 0 else take k samples))
    \<and> (\<exists>t. l = map (\<lambda>x. Encoded_audio x t) (filter (\<lambda>x. x \<noteq> []) (map snd cs)))
    \<and> audio_holds n hz ch a' (leftover n (rest @ (if a_muted a then replicate k 0 else take k samples)))
    \<and> a_muted a' = a_muted a \<and> a_encoded a' = a_encoded a"
proof -
  let ?d = "if a_muted a then replicate k 0 else take k samples"
  obtain e where e: "aac_encoder_of a = Some e" "holds_rest n e rest" using assms(2) by (auto simp: audio_holds_def)
  obtain t w1 where t: "rtc_Time v w = (t, w1)" by (cases "rtc_Time v w")
  then have t': "coded w1 = coded w" using assms(1) by (metis faac_history_def snd_conv)
  have len: "length ?d \<le> n" using assms(3,4) by simp
  obtain ret out e' w' where f: "aac_encoder_encode_frame (faacEncEncode v) 1024 ?d (e, w1) = Some (ret, out, e', w')"
    and h: "holds_rest n e' (leftover n (rest @ ?d))"
    and c: "full_blocks n (rest @ ?d) = [] \<and> out = [] \<and> w' = w1
       \<or> (\<exists>b. full_blocks n (rest @ ?d) = [b] \<and> faacEncEncode v b w1 = (out, w'))"
    using encode_frame_blocks [OF e(2) len assms(5), of "faacEncEncode v" 1024 w1] assms(1) by (auto simp: faac_history_def)
  have E: "a_Encode v samples k (a, w)
      = Some (ret, if out = [] then [] else [Encoded_audio out t], a\<lparr>aac_encoder_of := Some e'\<rparr>, w')"
    unfolding a_Encode_def using e(1) t f assms(3) by (simp add: Let_def)
  have H: "audio_holds n hz ch (a\<lparr>aac_encoder_of := Some e'\<rparr>) (leftover n (rest @ ?d))"
    using assms(2) h by (simp add: audio_holds_def)
  from c show ?thesis
  proof
    assume "full_blocks n (rest @ ?d) = [] \<and> out = [] \<and> w' = w1"
    then show ?thesis using E H t' by (intro exI conjI [rotated]) (auto intro: exI [of _ "[]"])
  next
    assume "\<exists>b. full_blocks n (rest @ ?d) = [b] \<and> faacEncEncode v b w1 = (out, w')"
    then obtain b where b: "full_blocks n (rest @ ?d) = [b]" "faacEncEncode v b w1 = (out, w')" by blast
    then have "coded w' = coded w @ [(b, out)]" using assms(1) t' by (metis faac_history_def fst_conv snd_conv)
    then show ?thesis using E H b(1)
      by (intro exI [of _ ret] exI [of _ "if out = [] then [] else [Encoded_audio out t]"]
          exI [of _ "a\<lparr>aac_encoder_of := Some e'\<rparr>"] exI [of _ w'] exI [of _ "[(b, out)]"]) auto
  qed
qed

definition coded_bytes :: "encoded_data \<Rightarrow> u8 list" where
  "coded_bytes x = (case x of Encoded_audio b _ \<Rightarrow> b | Encoded_video b _ \<Rightarrow> b)"

lemma audio_run_blocks:
  assumes "faac_history v coded" "2 * n \<le> 2 ^ 32"
  shows "audio_holds n hz ch a rest \<Longrightarrow> \<forall>d. Audio_data d \<in> set as \<longrightarrow> plain_data hz ch n d \<Longrightarrow>
    \<exists>l a' w' cs. log_run (audio_step v) as (a, w) = Some (l, a', w') \<and> coded w' = coded w @ cs
      \<and> map fst cs = full_blocks n (rest @ sound_of (2 * nat ch) (a_encoded a) (a_muted a) as)
      \<and> map coded_bytes l = filter (\<lambda>x. x \<noteq> []) (map snd cs)
      \<and> audio_holds n hz ch a' (leftover n (rest @ sound_of (2 * nat ch) (a_encoded a) (a_muted a) as))"
proof (induction as arbitrary: a w rest)
  case Nil
  then have "length rest < n" by (auto simp: audio_holds_def holds_rest_def)
  then show ?case using Nil blocks_short [of rest n] by (simp add: exI [of _ "[]"])
next
  case (Cons x as)
  have n: "0 < n" using Cons.prems(1) by (auto simp: audio_holds_def holds_rest_def)
  have pl: "\<forall>d. Audio_data d \<in> set as \<longrightarrow> plain_data hz ch n d" using Cons.prems(2) by (metis list.set_intros(2))
  have pd: "plain_data hz ch n d" if "x = Audio_data d" for d using Cons.prems(2) list.set_intros(1) [of x as] that by blast
  have quiet: ?case if "audio_step v x (a, w) = Some ([], a1, w)" "audio_holds n hz ch a1 rest"
    "sound_of (2 * nat ch) (a_encoded a) (a_muted a) (x # as) = sound_of (2 * nat ch) (a_encoded a1) (a_muted a1) as" for a1
    using Cons.IH [OF that(2) pl, of w] that(1,3) by (simp add: log_run_Cons)
  show ?case
  proof (cases x)
    case (Audio_data d)
    let ?k = "ad_samples_per_channel d * 2 * nat ch"
    have p: "ad_sample_rate d = hz" "ad_channels d = ch" "?k \<le> length (ad_data d)" "?k \<le> n"
      using pd [OF Audio_data] by (simp_all add: plain_data_def Let_def)
    have f: "audio_record_sample_hz a = hz" "audio_record_channels a = ch" using Cons.prems(1) by (simp_all add: audio_holds_def)
    show ?thesis
    proof (cases "a_encoded a")
      case False
      then show ?thesis by (intro quiet [of a]) (simp_all add: Audio_data a_OnData_def Cons.prems(1))
    next
      case True
      let ?s = "if a_muted a then replicate ?k 0 else take ?k (ad_data d)"
      obtain st l1 a1 w1 c1 where e: "a_Encode v (ad_data d) ?k (a, w) = Some (st, l1, a1, w1)"
        and c1: "coded w1 = coded w @ c1" "map fst c1 = full_blocks n (rest @ ?s)"
        and l1: "\<exists>t. l1 = map (\<lambda>x. Encoded_audio x t) (filter (\<lambda>x. x \<noteq> []) (map snd c1))"
        and h1: "audio_holds n hz ch a1 (leftover n (rest @ ?s))" "a_muted a1 = a_muted a" "a_encoded a1 = a_encoded a"
        using Encode_blocks [OF assms(1) Cons.prems(1) p(3,4) assms(2), of w] by (elim exE conjE) (rule that, assumption+, rule exI, assumption+)
      have s1: "audio_step v x (a, w) = Some (l1, a1, w1)" using e p f True by (simp add: Audio_data a_OnData_def)
      obtain l2 a2 w2 c2 where r: "log_run (audio_step v) as (a1, w1) = Some (l2, a2, w2)" "coded w2 = coded w1 @ c2"
        "map fst c2 = full_blocks n (leftover n (rest @ ?s) @ sound_of (2 * nat ch) (a_encoded a1) (a_muted a1) as)"
        "map coded_bytes l2 = filter (\<lambda>x. x \<noteq> []) (map snd c2)"
        "audio_holds n hz ch a2 (leftover n (leftover n (rest @ ?s) @ sound_of (2 * nat ch) (a_encoded a1) (a_muted a1) as))"
        using Cons.IH [OF h1(1) pl, of w1] by (elim exE conjE) (rule that)
      have so: "sound_of (2 * nat ch) (a_encoded a) (a_muted a) (x # as) = ?s @ sound_of (2 * nat ch) (a_encoded a1) (a_muted a1) as"
        using True h1 by (simp add: Audio_data Let_def ac_simps)
      have b: "full_blocks n (rest @ sound_of (2 * nat ch) (a_encoded a) (a_muted a) (x # as)) = map fst (c1 @ c2)"
        "leftover n (rest @ sound_of (2 * nat ch) (a_encoded a) (a_muted a) (x # as))
          = leftover n (leftover n (rest @ ?s) @ sound_of (2 * nat ch) (a_encoded a1) (a_muted a1) as)"
        unfolding so using blocks_append [OF n, of "rest @ ?s"] c1(2) r(3) by simp_all
      have "map coded_bytes l1 = filter (\<lambda>x. x \<noteq> []) (map snd c1)" using l1 by (auto simp: coded_bytes_def comp_def)
      with r c1(1) b s1 show ?thesis
        by (intro exI [of _ "l1 @ l2"] exI [of _ a2] exI [of _ w2] exI [of _ "c1 @ c2"]) (simp add: log_run_Cons)
    qed
  next
    case (Audio_muted m)
    then show ?thesis using Cons.prems(1) by (intro quiet [of "a_Muted m a"]) (simp_all add: a_Muted_def audio_holds_def)
  next
    case Audio_start
    then show ?thesis using Cons.prems(1) by (intro quiet [of "a_StartEncoder a"]) (simp_all add: a_StartEncoder_def audio_holds_def)
  next
    case Audio_stop
    then show ?thesis using Cons.prems(1) by (intro quiet [of "a_StopEncoder a"]) (simp_all add: a_StopEncoder_def audio_holds_def)
  qed
qed


section \<open>A sample\<close>

definition sample_sound :: "(u8 list \<times> u8 list) list audio_env" where
  "sample_sound = \<lparr>rtc_Time = \<lambda>w. (0, w), faacEncEncode = \<lambda>b w. ([0xff], w @ [(b, [0xff])]), Resample10Msec = \<lambda>d _ _ w. (d, w)\<rparr>"

definition sample_pcm :: "u8 list \<Rightarrow> audio_data" where
  "sample_pcm d = \<lparr>ad_data = d, ad_samples_per_channel = length d div 2, ad_sample_rate = 44100, ad_channels = 1\<rparr>"


end
