(* ===== verification/Av_Video.thy ===== *)
theory Av_Video
  imports Av_Audio "HOL-Library.Sublist" "HOL-Library.Signed_Division"
begin

text \<open>
  The video of the streamer: \<^verbatim>\<open>VideoRenderFrames\<close> of WebRTC, the queue that frames wait in, and
  \<^verbatim>\<open>V_H264Encoder\<close> of \<^verbatim>\<open>AnyCore/avcodec.cc\<close>: the thread that encodes them, key frames on request,
  and the bitrate that follows the delay of the network. The encoders (one of the device, one in
  software) and the clock are parameters.
\<close>

section \<open>The queue of frames\<close>

record 'f video_frame =
  frame_width :: int
  frame_height :: int
  frame_render_time_ms :: int
  frame_pixels :: 'f

record video_codec =
  startBitrate :: u32
  targetBitrate :: u32
  maxBitrate :: u32
  maxFramerate :: u8
  codec_width :: u16
  codec_height :: u16
  keyFrameInterval :: int

text \<open>\<^verbatim>\<open>encoder_\<close> is an encoder of the factory or the one in software.\<close>

datatype video_encoder = Hardware | Software

record ('w, 'f) video_env = "'w audio_env" +
  rtc_TimeMillis :: "'w \<Rightarrow> int \<times> 'w"
  factory_CreateVideoEncoder :: "'w \<Rightarrow> bool \<times> 'w"
  venc_InitEncode :: "video_encoder \<Rightarrow> video_codec \<Rightarrow> 'w \<Rightarrow> int \<times> 'w"
  venc_Encode :: "video_encoder \<Rightarrow> 'f video_frame \<Rightarrow> bool \<Rightarrow> 'w \<Rightarrow> (int \<times> u8 list list) \<times> 'w"
  venc_SetRates :: "video_encoder \<Rightarrow> int \<Rightarrow> u8 \<Rightarrow> 'w \<Rightarrow> 'w"
  venc_Release :: "video_encoder \<Rightarrow> 'w \<Rightarrow> 'w"

definition EnsureValidRenderDelay :: "u32 \<Rightarrow> u32" where
  "EnsureValidRenderDelay d = (if d < 10 \<or> 500 < d then 10 else d)"

definition render_delay_ms :: int where
  "render_delay_ms = uint (EnsureValidRenderDelay 0)"

definition AddFrame :: "('w, 'f, 'm) video_env_scheme \<Rightarrow> 'f video_frame \<Rightarrow> 'f video_frame list \<times> 'w \<Rightarrow> int \<times> 'f video_frame list \<times> 'w" where
  "AddFrame v new_frame fw =
     (let (incoming_frames, w) = fw; (time_now, w) = rtc_TimeMillis v w
      in if incoming_frames \<noteq> [] \<and> frame_render_time_ms new_frame + 500 < time_now then (- 1, incoming_frames, w)
         else if frame_render_time_ms new_frame > time_now + 10000 then (- 1, incoming_frames, w)
         else (int (length (incoming_frames @ [new_frame])), incoming_frames @ [new_frame], w))"

definition TimeToNextFrameRelease :: "('w, 'f, 'm) video_env_scheme \<Rightarrow> 'f video_frame list \<Rightarrow> 'w \<Rightarrow> u32 \<times> 'w" where
  "TimeToNextFrameRelease v incoming_frames w =
     (case incoming_frames of [] \<Rightarrow> (200, w)
      | f # _ \<Rightarrow> (let (now, w) = rtc_TimeMillis v w; time_to_release = frame_render_time_ms f - render_delay_ms - now
                 in (if time_to_release < 0 then 0 else word_of_int time_to_release, w)))"

fun FrameToRender ::
  "('w, 'f, 'm) video_env_scheme \<Rightarrow> 'f video_frame option \<Rightarrow> 'f video_frame list \<Rightarrow> 'w \<Rightarrow> 'f video_frame option \<times> 'f video_frame list \<times> 'w" where
  "FrameToRender v render_frame [] w = (render_frame, [], w)"
| "FrameToRender v render_frame (f # fs) w =
     (let (t, w) = TimeToNextFrameRelease v (f # fs) w
      in if t \<le> 0 then FrameToRender v (Some f) fs w else (render_frame, f # fs, w))"

section \<open>The encoder\<close>

record 'f v_h264_encoder =
  v_need_keyframe :: bool
  v_encoded :: bool
  video_bitrate :: int
  delay_ms :: int
  adjust_v_bitrate :: int
  h264 :: video_codec
  video_encoder_factory :: bool
  video_encoder_of :: "video_encoder option"
  render_buffers :: "'f video_frame list"

definition new_v_h264_encoder :: "'f v_h264_encoder" where
  "new_v_h264_encoder = \<lparr>v_need_keyframe = True, v_encoded = False, video_bitrate = 768, delay_ms = 0, adjust_v_bitrate = 768,
     h264 = \<lparr>startBitrate = 768, targetBitrate = 768, maxBitrate = 1024, maxFramerate = 20, codec_width = 640,
       codec_height = 480, keyFrameInterval = 60\<rparr>,
     video_encoder_factory = False, video_encoder_of = None, render_buffers = []\<rparr>"

definition v_Init :: "bool \<Rightarrow> 'f v_h264_encoder \<Rightarrow> 'f v_h264_encoder" where
  "v_Init factory s = s\<lparr>video_encoder_factory := factory\<rparr>"

definition v_SetParameter :: "int \<Rightarrow> int \<Rightarrow> int \<Rightarrow> int \<Rightarrow> 'f v_h264_encoder \<Rightarrow> 'f v_h264_encoder" where
  "v_SetParameter width height fps bitrate s = s\<lparr>h264 := (h264 s)\<lparr>startBitrate := word_of_int bitrate,
     targetBitrate := word_of_int bitrate, maxBitrate := word_of_int bitrate, maxFramerate := word_of_int fps,
     codec_width := word_of_int width, codec_height := word_of_int height\<rparr>\<rparr>"

definition v_SetRates :: "('w, 'f, 'm) video_env_scheme \<Rightarrow> int \<Rightarrow> 'f v_h264_encoder \<times> 'w \<Rightarrow> 'f v_h264_encoder \<times> 'w" where
  "v_SetRates v bitrate sw =
     (let (s, w) = sw;
          s = s\<lparr>video_bitrate := bitrate, h264 := (h264 s)\<lparr>startBitrate := word_of_int bitrate,
                targetBitrate := word_of_int bitrate, maxBitrate := word_of_int bitrate\<rparr>\<rparr>
      in (s, case video_encoder_of s of None \<Rightarrow> w | Some e \<Rightarrow> venc_SetRates v e bitrate (maxFramerate (h264 s)) w))"

definition v_SetAutoAdjustBit :: "bool \<Rightarrow> 'f v_h264_encoder \<Rightarrow> 'f v_h264_encoder" where
  "v_SetAutoAdjustBit enabled s = (if enabled then s\<lparr>adjust_v_bitrate := video_bitrate s\<rparr> else s)"

text \<open>The rates at the delays 3000, 5000 and 10000.\<close>

definition set_delay ::
  "('w, 'f, 'm) video_env_scheme \<Rightarrow> int \<Rightarrow> 'f v_h264_encoder \<times> 'w \<Rightarrow> ('f v_h264_encoder \<times> 'w) option" where
  "set_delay v level sw = (let (s, w) = sw; s = s\<lparr>delay_ms := level\<rparr>; b = adjust_v_bitrate s in do {
     rate \<leftarrow> (if level = 0 then Some b
             else if level = 3000 then do { x \<leftarrow> c_int (b * 3); Some (x sdiv 4) }
             else if level = 5000 then Some (b sdiv 2)
             else Some (b sdiv 3));
     Some (v_SetRates v rate (s, w)) })"

definition SetNetDelay ::
  "('w, 'f, 'm) video_env_scheme \<Rightarrow> int \<Rightarrow> 'f v_h264_encoder \<times> 'w \<Rightarrow> ('f v_h264_encoder \<times> 'w) option" where
  "SetNetDelay v delayMs sw =
     (let l = delay_ms (fst sw)
      in if 0 \<le> delayMs \<and> delayMs < 3000
         then if l \<noteq> 0 \<and> delayMs \<le> 1000 then set_delay v 0 sw else Some sw
         else if 3000 \<le> delayMs \<and> delayMs < 5000
         then if l = 0 then set_delay v 3000 sw
              else if 5000 \<le> l then if delayMs \<le> 4000 then set_delay v 3000 sw else Some sw
              else Some sw
         else if 5000 \<le> delayMs \<and> delayMs < 10000
         then if l \<le> 3000 then set_delay v 5000 sw
              else if 10000 \<le> l then if delayMs \<le> 7000 then set_delay v 5000 sw else Some sw
              else Some sw
         else if 10000 \<le> delayMs
         then if l \<le> 5000 then set_delay v 10000 sw else Some sw
         else Some sw)"

text \<open>\<^verbatim>\<open>CreateVideoEncoder\<close>, which is called without an encoder; the assertion is part of the model.\<close>

definition CreateVideoEncoder ::
  "('w, 'f, 'm) video_env_scheme \<Rightarrow> 'f v_h264_encoder \<times> 'w \<Rightarrow> ('f v_h264_encoder \<times> 'w) option" where
  "CreateVideoEncoder v sw =
     (let (s, w) = sw;
          (extern, w) = (if video_encoder_factory s then factory_CreateVideoEncoder v w else (False, w));
          (r, w) = (if extern then venc_InitEncode v Hardware (h264 s) w else (- 1, w));
          s = (if extern \<and> r = 0 then s\<lparr>video_encoder_of := Some Hardware\<rparr> else s)
      in if video_encoder_of s \<noteq> None then Some (s, w)
         else (let (r, w) = venc_InitEncode v Software (h264 s) w
               in if r \<noteq> 0 then None else Some (s\<lparr>video_encoder_of := Some Software\<rparr>, w)))"

definition v_StartEncoder :: "'f v_h264_encoder \<Rightarrow> 'f v_h264_encoder" where
  "v_StartEncoder s = s\<lparr>v_need_keyframe := True, v_encoded := True\<rparr>"

definition v_StopEncoder :: "'f v_h264_encoder \<Rightarrow> 'f v_h264_encoder" where
  "v_StopEncoder s = s\<lparr>v_encoded := False\<rparr>"

definition v_RequestKeyFrame :: "'f v_h264_encoder \<Rightarrow> 'f v_h264_encoder" where
  "v_RequestKeyFrame s = s\<lparr>v_need_keyframe := True\<rparr>"

text \<open>
  The log: frames that enter the queue, frames given to the encoder (with the request for a key frame
  and the answer), data that comes out, and the pauses of the thread.
\<close>

datatype 'f video_log = Frame_added "'f video_frame" | Frame_encoded "'f video_frame" bool int
  | Image encoded_data | Slept int

text \<open>A frame of the camera: width, height and pixels, or no buffer.\<close>

definition v_OnFrame ::
  "('w, 'f, 'm) video_env_scheme \<Rightarrow> (int \<times> int \<times> 'f) option \<Rightarrow> 'f v_h264_encoder \<times> 'w \<Rightarrow> 'f video_log list \<times> 'f v_h264_encoder \<times> 'w" where
  "v_OnFrame v frame sw =
     (let (s, w) = sw
      in if \<not> v_encoded s then ([], s, w)
         else (let (now, w) = rtc_TimeMillis v w
               in case frame of None \<Rightarrow> ([], s, w)
                  | Some (x, y, pixels) \<Rightarrow>
                      (let f = \<lparr>frame_width = x, frame_height = y, frame_render_time_ms = now + 150, frame_pixels = pixels\<rparr>;
                           (r, fs, w) = AddFrame v f (render_buffers s, w)
                       in (if r = - 1 then [] else [Frame_added f], s\<lparr>render_buffers := fs\<rparr>, w))))"

definition v_Encoded :: "('w, 'f, 'm) video_env_scheme \<Rightarrow> u8 list \<Rightarrow> 'w \<Rightarrow> encoded_data \<times> 'w" where
  "v_Encoded v img w = (let (t, w) = rtc_Time v w in (Encoded_video img t, w))"

fun v_images :: "('w, 'f, 'm) video_env_scheme \<Rightarrow> u8 list list \<Rightarrow> 'w \<Rightarrow> encoded_data list \<times> 'w" where
  "v_images v [] w = ([], w)"
| "v_images v (b # bs) w = (let (x, w) = v_Encoded v b w; (xs, w) = v_images v bs w in (x # xs, w))"

text \<open>
  The body of the loop of \<^verbatim>\<open>Run\<close> for a frame that is due: an encoder for another size is given up,
  one is made where there is none, and the frame is encoded.
\<close>

definition fit_encoder :: "('w, 'f, 'm) video_env_scheme \<Rightarrow> 'f video_frame \<Rightarrow> 'f v_h264_encoder \<times> 'w \<Rightarrow> 'f v_h264_encoder \<times> 'w" where
  "fit_encoder v f sw = (let (s, w) = sw
     in if uint (codec_width (h264 s)) \<noteq> frame_width f \<or> uint (codec_height (h264 s)) \<noteq> frame_height f
        then (s\<lparr>h264 := (h264 s)\<lparr>codec_width := word_of_int (frame_width f), codec_height := word_of_int (frame_height f)\<rparr>,
                video_encoder_of := None\<rparr>,
              case video_encoder_of s of Some e \<Rightarrow> venc_Release v e w | None \<Rightarrow> w)
        else (s, w))"

definition encode_with ::
  "('w, 'f, 'm) video_env_scheme \<Rightarrow> 'f video_frame \<Rightarrow> 'f v_h264_encoder \<times> 'w \<Rightarrow> 'f video_log list \<times> 'f v_h264_encoder \<times> 'w" where
  "encode_with v f sw = (let (s, w) = sw; key = v_need_keyframe s; s = s\<lparr>v_need_keyframe := False\<rparr>
     in case video_encoder_of s of None \<Rightarrow> ([], s, w)
        | Some e \<Rightarrow> (let ((ret, images), w) = venc_Encode v e f key w; (xs, w) = v_images v images w
                    in (Frame_encoded f key ret # map Image xs, s, w)))"

definition encode_video_frame ::
  "('w, 'f, 'm) video_env_scheme \<Rightarrow> 'f video_frame \<Rightarrow> 'f v_h264_encoder \<times> 'w \<Rightarrow> ('f video_log list \<times> 'f v_h264_encoder \<times> 'w) option" where
  "encode_video_frame v f sw = (let (s, w) = fit_encoder v f sw in do {
       sw \<leftarrow> (if video_encoder_of s = None then CreateVideoEncoder v (s, w) else Some (s, w));
       Some (encode_with v f sw) })"

definition v_wait :: "u32 \<Rightarrow> u64 \<Rightarrow> u32" where
  "v_wait wait_time slapTime = (let t = (if wait_time > 100 then 100 else wait_time)
     in if ucast t \<ge> slapTime then ucast (ucast t - slapTime) else 1)"

definition v_turn :: "('w, 'f, 'm) video_env_scheme \<Rightarrow> 'f v_h264_encoder \<times> 'w \<Rightarrow> ('f video_log list \<times> 'f v_h264_encoder \<times> 'w) option" where
  "v_turn v sw = (let (s, w) = sw;
       (cur_time, w) = rtc_TimeMillis v w;
       (frame, fs, w) = FrameToRender v None (render_buffers s) w;
       (wait_time, w) = TimeToNextFrameRelease v fs w;
       s = s\<lparr>render_buffers := fs\<rparr>
     in do {
       (l, s, w) \<leftarrow> (case frame of None \<Rightarrow> Some ([], s, w) | Some f \<Rightarrow> encode_video_frame v f (s, w));
       let (now, w) = rtc_TimeMillis v w;
       let t = v_wait wait_time (word_of_int (now - cur_time));
       Some (l @ (if t > 0 then [Slept (uint t)] else []), s, w) })"

text \<open>Any call, a frame of the camera, a turn of the thread, or data that an encoder gives later.\<close>

datatype 'f video_act = Video_rates int | Video_parameter int int int int | Video_auto bool | Video_delay int | Video_start | Video_stop | Video_key
  | Video_frame "(int \<times> int \<times> 'f) option" | Video_turn | Video_image "u8 list"

fun video_step ::
  "('w, 'f, 'm) video_env_scheme \<Rightarrow> 'f video_act \<Rightarrow> 'f v_h264_encoder \<times> 'w \<Rightarrow> ('f video_log list \<times> 'f v_h264_encoder \<times> 'w) option" where
  "video_step v (Video_rates b) sw = Some ([], v_SetRates v b sw)"
| "video_step v (Video_parameter x y f b) (s, w) = Some ([], v_SetParameter x y f b s, w)"
| "video_step v (Video_auto b) (s, w) = Some ([], v_SetAutoAdjustBit b s, w)"
| "video_step v (Video_delay d) sw = do { sw \<leftarrow> SetNetDelay v d sw; Some ([], sw) }"
| "video_step v Video_start (s, w) = Some ([], v_StartEncoder s, w)"
| "video_step v Video_stop (s, w) = Some ([], v_StopEncoder s, w)"
| "video_step v Video_key (s, w) = Some ([], v_RequestKeyFrame s, w)"
| "video_step v (Video_frame f) sw = Some (v_OnFrame v f sw)"
| "video_step v Video_turn sw = v_turn v sw"
| "video_step v (Video_image b) (s, w) = (let (x, w) = v_Encoded v b w in Some ([Image x], s, w))"

section \<open>The rate and the delay\<close>

text \<open>The levels of delay, and the part of the rate that is used at each.\<close>

definition rate_at :: "int \<Rightarrow> int \<Rightarrow> int" where
  "rate_at level b = (if level = 0 then b else if level = 3000 then b * 3 div 4 else if level = 5000 then b div 2 else b div 3)"

definition needed_level :: "int \<Rightarrow> int" where
  "needed_level d = (if d < 3000 then 0 else if d < 5000 then 3000 else if d < 10000 then 5000 else 10000)"

lemma needed_nonneg: "0 \<le> needed_level d"
  by (simp add: needed_level_def)

text \<open>The rate is the one of the level, in the settings of the encoder too.\<close>

definition adjusted :: "int \<Rightarrow> 'f v_h264_encoder \<Rightarrow> bool" where
  "adjusted b s \<longleftrightarrow> adjust_v_bitrate s = b \<and> delay_ms s \<in> {0, 3000, 5000, 10000} \<and> video_bitrate s = rate_at (delay_ms s) b
     \<and> startBitrate (h264 s) = word_of_int (video_bitrate s) \<and> targetBitrate (h264 s) = word_of_int (video_bitrate s)
     \<and> maxBitrate (h264 s) = word_of_int (video_bitrate s)"

lemma set_delay_result:
  assumes "adjusted b s" "0 \<le> b" "3 * b < 2 ^ 31" "level \<in> {0, 3000, 5000, 10000}"
  shows "\<exists>s' w'. set_delay v level (s, w) = Some (s', w') \<and> adjusted b s' \<and> delay_ms s' = level"
proof -
  have "c_int (b * 3) = Some (b * 3)" using assms(2,3) by (simp add: c_int_def)
  moreover have "(b * 3) sdiv 4 = b * 3 div 4" "b sdiv 2 = b div 2" "b sdiv 3 = b div 3"
    using assms(2) by (simp_all add: signed_divide_int_def sgn_if)
  ultimately show ?thesis using assms(1,4)
    by (auto simp: set_delay_def adjusted_def rate_at_def v_SetRates_def Let_def)
qed

lemma SetNetDelay_result:
  assumes "adjusted b s" "0 \<le> b" "3 * b < 2 ^ 31" "0 \<le> d"
  shows "\<exists>s' w'. SetNetDelay v d (s, w) = Some (s', w') \<and> adjusted b s'
    \<and> needed_level d \<le> delay_ms s' \<and> delay_ms s' \<le> max (delay_ms s) (needed_level d) \<and> (d \<le> 1000 \<longrightarrow> delay_ms s' = 0)"
proof -
  note r = set_delay_result [OF assms(1-3), of _ v w]
  have l: "delay_ms s \<in> {0, 3000, 5000, 10000}" using assms(1) by (simp add: adjusted_def)
  consider "d \<le> 1000" | "1000 < d" "d < 3000" | "3000 \<le> d" "d \<le> 4000" | "4000 < d" "d < 5000"
    | "5000 \<le> d" "d \<le> 7000" | "7000 < d" "d < 10000" | "10000 \<le> d" by linarith
  then show ?thesis
    using l r [of 0] r [of 3000] r [of 5000] r [of 10000] assms(1,4)
    by cases (auto simp: SetNetDelay_def needed_level_def)
qed

fun delays :: "('w, 'f, 'm) video_env_scheme \<Rightarrow> int list \<Rightarrow> 'f v_h264_encoder \<times> 'w \<Rightarrow> ('f v_h264_encoder \<times> 'w) option" where
  "delays v [] sw = Some sw"
| "delays v (d # ds) sw = do { sw \<leftarrow> SetNetDelay v d sw; delays v ds sw }"

lemma delays_result:
  "adjusted b s \<Longrightarrow> 0 \<le> b \<Longrightarrow> 3 * b < 2 ^ 31 \<Longrightarrow> \<forall>d \<in> set ds. 0 \<le> d \<Longrightarrow>
    \<exists>s' w'. delays v ds (s, w) = Some (s', w') \<and> adjusted b s'
      \<and> (if ds = [] then delay_ms s' = delay_ms s
         else needed_level (last ds) \<le> delay_ms s' \<and> (last ds \<le> 1000 \<longrightarrow> delay_ms s' = 0))
      \<and> (delay_ms s' = delay_ms s \<or> (\<exists>d \<in> set ds. delay_ms s' \<le> needed_level d) \<or> delay_ms s' \<le> delay_ms s)"
proof (induction ds arbitrary: s w)
  case (Cons d ds)
  obtain s1 w1 where 1: "SetNetDelay v d (s, w) = Some (s1, w1)" "adjusted b s1" "needed_level d \<le> delay_ms s1"
    "delay_ms s1 \<le> max (delay_ms s) (needed_level d)" "d \<le> 1000 \<longrightarrow> delay_ms s1 = 0"
    using SetNetDelay_result [OF Cons.prems(1-3), of d v w] Cons.prems(4) by auto
  obtain s2 w2 where 2: "delays v ds (s1, w1) = Some (s2, w2)" "adjusted b s2"
    "if ds = [] then delay_ms s2 = delay_ms s1
     else needed_level (last ds) \<le> delay_ms s2 \<and> (last ds \<le> 1000 \<longrightarrow> delay_ms s2 = 0)"
    "delay_ms s2 = delay_ms s1 \<or> (\<exists>d \<in> set ds. delay_ms s2 \<le> needed_level d) \<or> delay_ms s2 \<le> delay_ms s1"
    using Cons.IH [OF 1(2) Cons.prems(2,3), of w1] Cons.prems(4) by auto
  have "delay_ms s2 = delay_ms s \<or> (\<exists>d \<in> set (d # ds). delay_ms s2 \<le> needed_level d) \<or> delay_ms s2 \<le> delay_ms s"
    using 1(4) 2(4) by (auto simp: max_def split: if_splits)
  then show ?case using 1 2 by (auto split: if_splits)
qed simp

text \<open>
  C30. With the adjustment switched on at rate \<open>b\<close>, whatever delays are reported: the rate of the encoder
  is the whole, three quarters, a half or a third of \<open>b\<close>; it is never more than the last delay
  allows, never less than the worst delay asks for, and \<open>b\<close> again as soon as the delay is at most a
  second.
\<close>
theorem net_delay_rate:
  assumes "delay_ms s = 0" "0 \<le> b" "3 * b < 2 ^ 31" "\<forall>d \<in> set ds. 0 \<le> d" "ds \<noteq> []"
    and "v_SetRates v b (s, w) = (s1, w1)"
  shows "\<exists>s' w' level. delays v ds (v_SetAutoAdjustBit True s1, w1) = Some (s', w')
    \<and> video_bitrate s' = rate_at level b \<and> targetBitrate (h264 s') = word_of_int (rate_at level b)
    \<and> level \<in> {0, 3000, 5000, 10000} \<and> needed_level (last ds) \<le> level \<and> (\<exists>d \<in> set ds. level \<le> needed_level d)
    \<and> (last ds \<le> 1000 \<longrightarrow> level = 0)"
proof -
  have "adjusted b (v_SetAutoAdjustBit True s1)" "delay_ms (v_SetAutoAdjustBit True s1) = 0"
    using assms(1,6) by (auto simp: v_SetRates_def v_SetAutoAdjustBit_def adjusted_def rate_at_def Let_def)
  from delays_result [OF this(1) assms(2-4), of v w1] this(2)
  obtain s' w' where r: "delays v ds (v_SetAutoAdjustBit True s1, w1) = Some (s', w')" "adjusted b s'"
    "needed_level (last ds) \<le> delay_ms s'" "last ds \<le> 1000 \<longrightarrow> delay_ms s' = 0"
    "delay_ms s' \<le> 0 \<or> (\<exists>d \<in> set ds. delay_ms s' \<le> needed_level d)" using assms(5) by auto
  have "\<exists>d \<in> set ds. delay_ms s' \<le> needed_level d"
    using r(5) assms(5) by (cases ds) (auto intro: order_trans [OF _ needed_nonneg])
  with r show ?thesis by (auto simp: adjusted_def)
qed

text \<open>
  From the lowest rate a delay of two seconds raises nothing, though a delay of three and a half
  would: the branch below 3000 wants at most 1000, whatever the level.
\<close>

lemma low_rate_stays:
  assumes "adjusted b s" "0 \<le> b" "3 * b < 2 ^ 31" "delay_ms s = 10000"
  shows "SetNetDelay v 2000 (s, w) = Some (s, w)"
    "\<exists>s' w'. SetNetDelay v 3500 (s, w) = Some (s', w') \<and> video_bitrate s' = b * 3 div 4"
  using assms set_delay_result [OF assms(1-3), of 3000 v w] by (auto simp: SetNetDelay_def adjusted_def rate_at_def)

text \<open>Switching the adjustment on again while the rate is reduced makes the reduced rate the full one.\<close>

lemma snapshot_ratchets:
  assumes "adjusted b s" "0 \<le> b" "3 * b < 2 ^ 31" "delay_ms s = 10000"
  shows "\<exists>s' w'. SetNetDelay v 0 (v_SetAutoAdjustBit True s, w) = Some (s', w') \<and> video_bitrate s' = b div 3"
  using assms by (auto simp: SetNetDelay_def adjusted_def rate_at_def v_SetAutoAdjustBit_def set_delay_def v_SetRates_def Let_def)

text \<open>A rate that the application sets meanwhile is undone by the next adjustment.\<close>

lemma new_rate_undone:
  assumes "adjusted b s" "delay_ms s \<noteq> 0" "v_SetRates v c (s, w) = (s1, w1)"
  shows "\<exists>s' w'. SetNetDelay v 0 (s1, w1) = Some (s', w') \<and> video_bitrate s' = b"
  using assms by (auto simp: SetNetDelay_def adjusted_def set_delay_def v_SetRates_def Let_def)

section \<open>From the camera to the encoder\<close>

definition added :: "'f video_log list \<Rightarrow> 'f video_frame list" where
  "added l = List.map_filter (\<lambda>x. case x of Frame_added f \<Rightarrow> Some f | _ \<Rightarrow> None) l"

definition given :: "'f video_log list \<Rightarrow> ('f video_frame \<times> bool) list" where
  "given l = List.map_filter (\<lambda>x. case x of Frame_encoded f key _ \<Rightarrow> Some (f, key) | _ \<Rightarrow> None) l"

definition came_out :: "'f video_log list \<Rightarrow> encoded_data list" where
  "came_out l = List.map_filter (\<lambda>x. case x of Image d \<Rightarrow> Some d | _ \<Rightarrow> None) l"

lemma added_simps [simp]:
  "added [] = []" "added (Frame_added f # l) = f # added l" "added (Frame_encoded f k r # l) = added l"
  "added (Image d # l) = added l" "added (Slept n # l) = added l" "added (l @ l') = added l @ added l'" "added (map Image ds) = []"
  by (simp_all add: added_def) (induction ds; simp)

lemma given_simps [simp]:
  "given [] = []" "given (Frame_added f # l) = given l" "given (Frame_encoded f k r # l) = (f, k) # given l"
  "given (Image d # l) = given l" "given (Slept n # l) = given l" "given (l @ l') = given l @ given l'" "given (map Image ds) = []"
  by (simp_all add: given_def) (induction ds; simp)

lemma came_out_simps [simp]:
  "came_out [] = []" "came_out (Frame_added f # l) = came_out l" "came_out (Frame_encoded f k r # l) = came_out l"
  "came_out (Image d # l) = d # came_out l" "came_out (Slept n # l) = came_out l"
  "came_out (l @ l') = came_out l @ came_out l'" "came_out (map Image ds) = ds"
  by (simp_all add: came_out_def) (induction ds; simp)

lemma FrameToRender_result:
  "FrameToRender v r fs w = (r', fs', w') \<Longrightarrow> \<exists>due. fs = due @ fs' \<and> r' = (if due = [] then r else Some (last due))"
proof (induction v r fs w rule: FrameToRender.induct)
  case (2 v r f fs w)
  obtain t w1 where t: "TimeToNextFrameRelease v (f # fs) w = (t, w1)" by (cases "TimeToNextFrameRelease v (f # fs) w")
  show ?case
  proof (cases "t \<le> 0")
    case True
    then have "FrameToRender v (Some f) fs w1 = (r', fs', w')" using 2(2) t by simp
    from 2(1) [OF t [symmetric] refl True this] obtain due where "fs = due @ fs'" "r' = (if due = [] then Some f else Some (last due))" by blast
    then show ?thesis by (intro exI [of _ "f # due"]) simp
  next
    case False
    then show ?thesis using 2(2) t by (intro exI [of _ "[]"]) simp
  qed
qed simp

lemma CreateVideoEncoder_result:
  assumes "CreateVideoEncoder v (s, w) = Some (s', w')"
  shows "video_encoder_of s' \<noteq> None" "v_need_keyframe s' = v_need_keyframe s" "render_buffers s' = render_buffers s"
    "v_encoded s' = v_encoded s"
  using assms by (auto simp: CreateVideoEncoder_def Let_def split: if_splits prod.splits)

lemma encode_video_frame_result:
  assumes "encode_video_frame v f (s, w) = Some (l, s', w')"
  shows "\<exists>ret ds. l = Frame_encoded f (v_need_keyframe s) ret # map Image ds" "\<not> v_need_keyframe s'"
    "render_buffers s' = render_buffers s" "v_encoded s' = v_encoded s"
proof -
  obtain s1 w1 where 1: "fit_encoder v f (s, w) = (s1, w1)" by (cases "fit_encoder v f (s, w)")
  then have k: "v_need_keyframe s1 = v_need_keyframe s" "render_buffers s1 = render_buffers s" "v_encoded s1 = v_encoded s"
    by (auto simp: fit_encoder_def split: if_splits)
  obtain s2 w2 where c: "(if video_encoder_of s1 = None then CreateVideoEncoder v (s1, w1) else Some (s1, w1)) = Some (s2, w2)"
    and rest: "encode_with v f (s2, w2) = (l, s', w')"
    using assms 1 by (auto simp: encode_video_frame_def ub_simps)
  have 2: "video_encoder_of s2 \<noteq> None" "v_need_keyframe s2 = v_need_keyframe s" "render_buffers s2 = render_buffers s"
    "v_encoded s2 = v_encoded s"
    using c k CreateVideoEncoder_result [of v s1 w1 s2 w2] by (auto split: if_splits)
  then show "\<exists>ret ds. l = Frame_encoded f (v_need_keyframe s) ret # map Image ds" "\<not> v_need_keyframe s'"
    "render_buffers s' = render_buffers s" "v_encoded s' = v_encoded s"
    using rest by (auto simp: encode_with_def split: prod.splits) (rule exI, rule refl)+
qed

lemma v_turn_result:
  assumes "v_turn v (s, w) = Some (l, s', w')"
  shows "\<exists>due. render_buffers s = due @ render_buffers s' \<and> added l = []
    \<and> (if due = [] then given l = [] \<and> v_need_keyframe s' = v_need_keyframe s
       else given l = [(last due, v_need_keyframe s)] \<and> \<not> v_need_keyframe s') \<and> v_encoded s' = v_encoded s"
proof -
  obtain c w1 where 1: "rtc_TimeMillis v w = (c, w1)" by (cases "rtc_TimeMillis v w")
  obtain r fs w2 where 2: "FrameToRender v None (render_buffers s) w1 = (r, fs, w2)" by (cases "FrameToRender v None (render_buffers s) w1")
  obtain t w3 where 3: "TimeToNextFrameRelease v fs w2 = (t, w3)" by (cases "TimeToNextFrameRelease v fs w2")
  obtain l1 s4 w4 where 4: "(case r of None \<Rightarrow> Some ([], s\<lparr>render_buffers := fs\<rparr>, w3)
      | Some f \<Rightarrow> encode_video_frame v f (s\<lparr>render_buffers := fs\<rparr>, w3)) = Some (l1, s4, w4)"
    using assms 1 2 3 by (auto simp: v_turn_def Let_def ub_simps)
  obtain now w5 where 5: "rtc_TimeMillis v w4 = (now, w5)" by (cases "rtc_TimeMillis v w4")
  have l: "l = l1 @ (if v_wait t (word_of_int (now - c)) > 0 then [Slept (uint (v_wait t (word_of_int (now - c))))] else [])" "s4 = s'"
    using assms by (auto simp: v_turn_def 1 2 3 4 5 Let_def)
  note 4 = 4 [unfolded l(2)]
  have g: "given l = given l1" "added l = added l1" by (simp_all add: l)
  obtain due where due: "render_buffers s = due @ fs" "r = (if due = [] then None else Some (last due))"
    using FrameToRender_result [OF 2] by blast
  show ?thesis
  proof (cases "due = []")
    case True
    then show ?thesis using 4 due g by auto
  next
    case False
    then have e: "encode_video_frame v (last due) (s\<lparr>render_buffers := fs\<rparr>, w3) = Some (l1, s', w4)" using 4 due by simp
    from encode_video_frame_result [OF e] False due show ?thesis by (intro exI [of _ due]) (auto simp: g)
  qed
qed

lemma v_OnFrame_result:
  assumes "v_OnFrame v fr (s, w) = (l, s', w')"
  shows "render_buffers s' = render_buffers s @ added l" "given l = []" "v_need_keyframe s' = v_need_keyframe s"
    "v_encoded s' = v_encoded s" "v_encoded s \<or> l = []" "came_out l = []"
  using assms by (auto simp: v_OnFrame_def AddFrame_def Let_def split: if_splits option.splits prod.splits)

lemma SetNetDelay_same:
  assumes "SetNetDelay v d (s, w) = Some (s', w')"
  shows "render_buffers s' = render_buffers s" "v_need_keyframe s' = v_need_keyframe s" "v_encoded s' = v_encoded s"
  using assms by (auto simp: SetNetDelay_def set_delay_def v_SetRates_def ub_simps Let_def split: if_splits)

text \<open>What one step does to the queue and to the request for a key frame.\<close>

lemma video_step_result:
  assumes "video_step v a (s, w) = Some (l, s', w')"
  obtains due where "render_buffers s @ added l = due @ render_buffers s'"
    "map fst (given l) = (if given l = [] then [] else [last due])" "given l \<noteq> [] \<longrightarrow> due \<noteq> []"
    "given l = [] \<longrightarrow> a \<noteq> Video_start \<longrightarrow> a \<noteq> Video_key \<longrightarrow> v_need_keyframe s' = v_need_keyframe s"
    "given l \<noteq> [] \<longrightarrow> map snd (given l) = [v_need_keyframe s] \<and> \<not> v_need_keyframe s'"
    "a = Video_start \<or> a = Video_key \<longrightarrow> given l = [] \<and> v_need_keyframe s'"
proof -
  note result = that
  have quiet: thesis if "render_buffers s' = render_buffers s @ added l" "given l = []"
    "if a = Video_start \<or> a = Video_key then v_need_keyframe s' else v_need_keyframe s' = v_need_keyframe s"
    by (rule result [of "[]"]) (use that(1-3) in \<open>auto split: if_splits\<close>)
  show thesis
  proof (cases a)
    case (Video_frame fr)
    then show ?thesis using assms v_OnFrame_result [of v fr s w l s' w'] by (intro quiet) auto
  next
    case (Video_delay d)
    then have "SetNetDelay v d (s, w) = Some (s', w')" "l = []" using assms by (auto simp: ub_simps)
    then show ?thesis using SetNetDelay_same [of v d s w s' w'] Video_delay by (intro quiet) auto
  next
    case Video_turn
    then have "v_turn v (s, w) = Some (l, s', w')" using assms by simp
    from v_turn_result [OF this] obtain due where "render_buffers s = due @ render_buffers s'" "added l = []"
      "if due = [] then given l = [] \<and> v_need_keyframe s' = v_need_keyframe s
         else given l = [(last due, v_need_keyframe s)] \<and> \<not> v_need_keyframe s'" by blast
    then show ?thesis by (intro that [of due]) (auto simp: Video_turn split: if_splits)
  next
    case (Video_image b)
    then show ?thesis using assms by (intro quiet) (auto split: prod.splits)
  qed (rule quiet; use assms in \<open>auto simp: v_SetRates_def v_SetParameter_def v_SetAutoAdjustBit_def v_StartEncoder_def
    v_StopEncoder_def v_RequestKeyFrame_def Let_def split: if_splits\<close>)+
qed

lemma video_run_frames:
  "log_run (video_step v) as (s, w) = Some (l, s', w') \<Longrightarrow>
     \<exists>done. render_buffers s @ added l = done @ render_buffers s' \<and> subseq (map fst (given l)) done"
proof (induction as arbitrary: s w l)
  case (Cons a as)
  obtain l1 s1 w1 l2 where 1: "video_step v a (s, w) = Some (l1, s1, w1)" and 2: "log_run (video_step v) as (s1, w1) = Some (l2, s', w')"
    and l: "l = l1 @ l2" using Cons.prems by (auto simp: ub_simps)
  from 1 obtain due where d: "render_buffers s @ added l1 = due @ render_buffers s1"
    "map fst (given l1) = (if given l1 = [] then [] else [last due])" "given l1 \<noteq> [] \<longrightarrow> due \<noteq> []"
    by (rule video_step_result)
  obtain dn where n: "render_buffers s1 @ added l2 = dn @ render_buffers s'" "subseq (map fst (given l2)) dn"
    using Cons.IH [OF 2] by blast
  have "subseq (map fst (given l1)) due"
    using d(2,3) by (cases due rule: rev_cases) auto
  then have "subseq (map fst (given l)) (due @ dn)" using n(2) by (simp add: l list_emb_append_mono)
  moreover have "render_buffers s @ added l = (due @ dn) @ render_buffers s'"
    using d(1) n(1) by (simp add: l) (metis append_assoc)
  ultimately show ?case by blast
qed (auto intro: exI [of _ "[]"])

text \<open>
  Whatever calls and turns come between: the frames that the encoder gets are frames that were taken
  from the camera, each at most once and in their order, and the frames not yet looked at wait.
\<close>
theorem frames_in_order:
  assumes "log_run (video_step v) acts (new_v_h264_encoder, w) = Some (l, s', w')"
  shows "\<exists>done. added l = done @ render_buffers s' \<and> subseq (map fst (given l)) done"
  using video_run_frames [OF assms] by (simp add: new_v_h264_encoder_def)

lemma video_run_keys:
  "log_run (video_step v) as (s, w) = Some (l, s', w') \<Longrightarrow> Video_start \<notin> set as \<Longrightarrow> Video_key \<notin> set as \<Longrightarrow>
     (given l = [] \<longrightarrow> v_need_keyframe s' = v_need_keyframe s)
     \<and> (given l \<noteq> [] \<longrightarrow> hd (map snd (given l)) = v_need_keyframe s \<and> True \<notin> set (tl (map snd (given l))) \<and> \<not> v_need_keyframe s')"
proof (induction as arbitrary: s w l)
  case (Cons a as)
  obtain l1 s1 w1 l2 where 1: "video_step v a (s, w) = Some (l1, s1, w1)" and 2: "log_run (video_step v) as (s1, w1) = Some (l2, s', w')"
    and l: "l = l1 @ l2" using Cons.prems(1) by (auto simp: ub_simps)
  note IH = Cons.IH [OF 2]
  from 1 obtain due where d: "given l1 = [] \<longrightarrow> v_need_keyframe s1 = v_need_keyframe s"
    "given l1 \<noteq> [] \<longrightarrow> map snd (given l1) = [v_need_keyframe s] \<and> \<not> v_need_keyframe s1"
    by (rule video_step_result) (use Cons.prems in auto)
  show ?case
  proof (cases "given l1 = []")
    case True
    then show ?thesis using IH d Cons.prems by (simp add: l)
  next
    case False
    then obtain f where g: "given l1 = [(f, v_need_keyframe s)]" "\<not> v_need_keyframe s1" using d(2) by (cases "given l1") auto
    then show ?thesis using IH Cons.prems by (cases "given l2") (auto simp: l)
  qed
qed simp

text \<open>
  After every start of the encoder the first frame that is encoded, and it alone until the next
  start or request, is asked for as a key frame.
\<close>
theorem start_asks_key_frame:
  assumes "log_run (video_step v) (Video_start # acts) (s, w) = Some (l, s', w')"
    "Video_start \<notin> set acts" "Video_key \<notin> set acts" "given l = (f, key) # rest"
  shows "key \<and> (\<forall>(g, k) \<in> set rest. \<not> k)"
proof -
  have r: "log_run (video_step v) acts (v_StartEncoder s, w) = Some (l, s', w')" using assms(1) by (auto simp: ub_simps)
  from video_run_keys [OF r assms(2,3)] assms(4) show ?thesis by (force simp: v_StartEncoder_def)
qed

section \<open>A sample\<close>

text \<open>
  A world that is a clock, which moves on by 200 milliseconds whenever it is read, and an encoder that
  answers a request for a key frame with one.
\<close>

definition sample_video :: "(nat, 'f) video_env" where
  "sample_video = \<lparr>rtc_Time = \<lambda>n. (of_nat n, n), faacEncEncode = \<lambda>b n. ([0xff], n), Resample10Msec = \<lambda>d _ _ n. (d, n),
     rtc_TimeMillis = \<lambda>n. (int n * 200, n + 1), factory_CreateVideoEncoder = \<lambda>n. (False, n), venc_InitEncode = \<lambda>_ _ n. (0, n),
     venc_Encode = \<lambda>_ _ key n. ((0, [if key then [0, 0, 0, 1, 0x67, 1, 0, 0, 1, 0x68, 1, 0, 0, 1, 0x65, 2] else [0, 0, 0, 1, 0x41, 7]]), n),
     venc_SetRates = \<lambda>_ _ _ n. n, venc_Release = \<lambda>_ n. n\<rparr>"

abbreviation "unit_encoder \<equiv> new_v_h264_encoder :: unit v_h264_encoder"

theorem net_delay_rate_witness:
  "\<exists>s' w'. delays sample_video [12000, 6000, 3500] (v_SetAutoAdjustBit True (fst (v_SetRates sample_video 800 (unit_encoder, 0))),
      snd (v_SetRates sample_video 800 (unit_encoder, 0))) = Some (s', w') \<and> video_bitrate s' = 600"
proof -
  have "\<exists>s' w' level. delays sample_video [12000, 6000, 3500] (v_SetAutoAdjustBit True (fst (v_SetRates sample_video 800 (unit_encoder, 0))),
      snd (v_SetRates sample_video 800 (unit_encoder, 0))) = Some (s', w')
    \<and> video_bitrate s' = rate_at level 800 \<and> targetBitrate (h264 s') = word_of_int (rate_at level 800)
    \<and> level \<in> {0, 3000, 5000, 10000} \<and> needed_level (last [12000, 6000, 3500]) \<le> level
    \<and> (\<exists>d \<in> set [12000, 6000, 3500]. level \<le> needed_level d) \<and> (last [12000, 6000, 3500 :: int] \<le> 1000 \<longrightarrow> level = 0)"
    by (rule net_delay_rate [where s = unit_encoder and w = 0]) (simp_all add: new_v_h264_encoder_def)
  moreover have "case delays sample_video [12000, 6000, 3500] (v_SetAutoAdjustBit True (fst (v_SetRates sample_video 800 (unit_encoder, 0))),
      snd (v_SetRates sample_video 800 (unit_encoder, 0))) of Some (s, w) \<Rightarrow> video_bitrate s = 600 | None \<Rightarrow> False" by code_simp
  ultimately show ?thesis by auto
qed

definition sample_video_acts :: "unit video_act list" where
  "sample_video_acts = [Video_start, Video_frame (Some (640, 480, ())), Video_frame None, Video_turn, Video_frame (Some (320, 240, ())), Video_turn]"

lemma sample_video_run:
  "case log_run (video_step sample_video) sample_video_acts (new_v_h264_encoder, 0) of
     Some (l, s, w) \<Rightarrow> map (\<lambda>(f, k). (frame_width f, k)) (given l) = [(640, True), (320, False)] \<and> map frame_width (added l) = [640, 320]
   | None \<Rightarrow> False"
  by code_simp

theorem frames_in_order_witness:
  "\<exists>l s w. log_run (video_step sample_video) sample_video_acts (new_v_h264_encoder, 0) = Some (l, s, w)
    \<and> map frame_width (added l) = [640, 320] \<and> (\<exists>done. added l = done @ render_buffers s \<and> subseq (map fst (given l)) done)"
proof -
  obtain l s w where r: "log_run (video_step sample_video) sample_video_acts (new_v_h264_encoder, 0) = Some (l, s, w)"
    "map frame_width (added l) = [640, 320]" using sample_video_run by (auto split: option.splits)
  from frames_in_order [OF r(1)] r show ?thesis by (intro exI [of _ l] exI [of _ s] exI [of _ w]) simp
qed

theorem start_asks_key_frame_witness:
  "\<exists>l s w f rest. log_run (video_step sample_video) sample_video_acts (new_v_h264_encoder, 0) = Some (l, s, w)
    \<and> given l = (f, True) # rest \<and> length rest = 1 \<and> (\<forall>(g, k) \<in> set rest. \<not> k)"
proof -
  obtain l s w where r: "log_run (video_step sample_video) sample_video_acts (new_v_h264_encoder, 0) = Some (l, s, w)"
    "map (\<lambda>(f, k). (frame_width f, k)) (given l) = [(640, True), (320, False)]" using sample_video_run by (auto split: option.splits)
  then obtain f k rest where g: "given l = (f, k) # rest" "length rest = 1" by (auto simp: Cons_eq_map_conv map_eq_Cons_conv)
  have "k \<and> (\<forall>(g, k) \<in> set rest. \<not> k)"
    by (rule start_asks_key_frame [OF r(1) [unfolded sample_video_acts_def] _ _ g(1)]) simp_all
  with r(1) g show ?thesis by (intro exI [of _ l] exI [of _ s] exI [of _ w] exI [of _ f] exI [of _ rest]) simp
qed

end
