(* ===== verification/Rtmp_Push.thy ===== *)
theory Rtmp_Push
  imports Rtmp_Session
begin

text \<open>
  The streamer's connection to the server, \<^verbatim>\<open>AnyCore/anyrtmpush.cc\<close>: the queue of encoded audio
  and video, the gate that waits for a key frame, and the thread that connects, sends and
  reconnects. Callbacks and packets go to a log. A step is a call or one turn of the thread's loop.
  A copy of zero bytes from a null pointer is taken for a copy of nothing.
\<close>

section \<open>State\<close>

text \<open>
  \<open>video_format\<close> are width, height, frame rate and data rate, which are not initialised before
  \<open>SetVideoParameter\<close>; nor is the sampling rate before \<open>SetAudioParameter\<close>.
\<close>

datatype enc_data_type = VIDEO_DATA | AUDIO_DATA | META_DATA

record enc_data =
  enc_data :: "u8 list"
  enc_bVideo :: bool
  enc_dts :: u32
  enc_type :: enc_data_type

datatype rtmp_status = RS_STM_Init | RS_STM_Handshaked | RS_STM_Connected | RS_STM_Published | RS_STM_Closed

record rtmp_push =
  need_keyframe :: bool
  only_audio_mode :: bool
  push_retrys :: int
  stat_time :: u32
  net_band :: u32
  lst_enc_data :: "enc_data list"
  sound_format :: u8
  sound_rate :: u8
  sound_size :: u8
  sound_type :: u8
  push_status :: rtmp_status
  push_rtmp :: bool
  video_format :: "(int \<times> int \<times> int \<times> int) option"
  sound_samplerate :: "int option"

definition new_rtmp_push :: rtmp_push where
  "new_rtmp_push = \<lparr>need_keyframe = True, only_audio_mode = False, push_retrys = 0, stat_time = 0, net_band = 0,
     lst_enc_data = [], sound_format = 10, sound_rate = 3, sound_size = 1, sound_type = 1,
     push_status = RS_STM_Init, push_rtmp = True, video_format = None, sound_samplerate = None\<rparr>"

text \<open>What the thread calls of the library besides the shared part.\<close>

record 'w push_srs = "'w srs" +
  srs_rtmp_publish_stream :: "'w \<Rightarrow> int \<times> 'w"
  srs_h264_write_raw_frames :: "u8 list \<Rightarrow> u32 \<Rightarrow> u32 \<Rightarrow> 'w \<Rightarrow> int \<times> 'w"
  srs_h264_is_dvbsp_error :: "int \<Rightarrow> bool"
  srs_h264_is_duplicated_sps_error :: "int \<Rightarrow> bool"
  srs_h264_is_duplicated_pps_error :: "int \<Rightarrow> bool"
  srs_audio_write_raw_frame :: "u8 \<Rightarrow> u8 \<Rightarrow> u8 \<Rightarrow> u8 \<Rightarrow> u8 list \<Rightarrow> u32 \<Rightarrow> 'w \<Rightarrow> int \<times> 'w"
  srs_rtmp_write_script :: "u32 \<Rightarrow> u8 list \<Rightarrow> 'w \<Rightarrow> int \<times> 'w"

datatype push_callback = OnRtmpConnected | OnRtmpReconnecting int | OnRtmpDisconnect | OnRtmpStatusEvent int int

text \<open>The log: data put into the queue, data handed to the library with its answer, callbacks.\<close>

datatype push_log = Queued enc_data | Written enc_data int | Called push_callback

section \<open>Calls\<close>

definition EnableOnlyAudioMode :: "rtmp_push \<Rightarrow> rtmp_push" where
  "EnableOnlyAudioMode s = s\<lparr>only_audio_mode := True\<rparr>"

definition SetVideoParameter :: "int \<Rightarrow> int \<Rightarrow> int \<Rightarrow> int \<Rightarrow> rtmp_push \<Rightarrow> rtmp_push" where
  "SetVideoParameter width height videodatarate framerate s =
     s\<lparr>video_format := Some (width, height, framerate, videodatarate)\<rparr>"

text \<open>The assertions of \<open>SetAudioParameter\<close> are part of the model.\<close>

definition SetAudioParameter :: "int \<Rightarrow> int \<Rightarrow> int \<Rightarrow> rtmp_push \<Rightarrow> rtmp_push option" where
  "SetAudioParameter samplerate pcmbitsize channel s =
     do { rate \<leftarrow> (if samplerate = 44100 then Some 3 else if samplerate = 22050 then Some 2
                     else if samplerate = 11025 then Some 1 else None);
          sz \<leftarrow> (if pcmbitsize = 8 then Some 0 else if pcmbitsize = 16 then Some 1 else None);
          ty \<leftarrow> (if channel = 1 then Some 0 else if channel = 2 then Some 1 else None);
          Some (s\<lparr>sound_samplerate := Some samplerate, sound_rate := rate, sound_size := sz, sound_type := ty\<rparr>) }"

definition enqueue :: "enc_data \<Rightarrow> rtmp_push \<Rightarrow> push_log list \<times> rtmp_push" where
  "enqueue pdata s = ([Queued pdata], s\<lparr>lst_enc_data := lst_enc_data s @ [pdata]\<rparr>)"

definition GotH264Nal :: "u8 list \<Rightarrow> u32 \<Rightarrow> rtmp_push \<Rightarrow> push_log list \<times> rtmp_push" where
  "GotH264Nal pData ts s =
     enqueue \<lparr>enc_data = pData, enc_bVideo = True, enc_dts = ts, enc_type = VIDEO_DATA\<rparr> s"

text \<open>\<^verbatim>\<open>ptr5\<close> with its size.\<close>

definition nal_idr :: "u8 list \<Rightarrow> u8 list" where
  "nal_idr p = (case nals_of p of (_, _, None) \<Rightarrow> [] | (_, _, Some i) \<Rightarrow> drop i p)"

definition SetH264Data :: "u8 list \<Rightarrow> u32 \<Rightarrow> rtmp_push \<Rightarrow> (push_log list \<times> rtmp_push) option" where
  "SetH264Data p ts s = do {
     t \<leftarrow> rd p 4;
     let nal_type = t AND 0x1f;
     let s = (if nal_type = 7 then s\<lparr>need_keyframe := False\<rparr> else s);
     if need_keyframe s then Some ([], s)
     else if nal_type = 7
     then (let (l7, s) = GotH264Nal (nal_sps p) ts s;
               (l8, s) = GotH264Nal (nal_pps p) ts s;
               (l5, s) = GotH264Nal (nal_idr p) ts s
           in Some (l7 @ l8 @ l5, s))
     else Some (GotH264Nal p ts s) }"

definition SetAacData :: "u8 list \<Rightarrow> u32 \<Rightarrow> rtmp_push \<Rightarrow> push_log list \<times> rtmp_push" where
  "SetAacData pData ts s =
     (if need_keyframe s \<and> \<not> only_audio_mode s then ([], s)
      else enqueue \<lparr>enc_data = pData, enc_bVideo = False, enc_dts = ts, enc_type = AUDIO_DATA\<rparr> s)"

section \<open>The thread\<close>

definition push_CallConnect :: "rtmp_push \<Rightarrow> push_log list \<times> rtmp_push" where
  "push_CallConnect s =
     ([Called OnRtmpConnected], s\<lparr>need_keyframe := True, push_retrys := 0, lst_enc_data := []\<rparr>)"

definition push_CallDisconnect ::
  "('w, 'm) push_srs_scheme \<Rightarrow> rtmp_push \<times> 'w \<Rightarrow> push_log list \<times> rtmp_push \<times> 'w" where
  "push_CallDisconnect u sw =
     (let (s, w) = sw; s = s\<lparr>need_keyframe := True\<rparr>;
          w = (if push_rtmp s then srs_rtmp_destroy u w else w);
          s = s\<lparr>push_rtmp := False\<rparr>
      in if push_status s \<noteq> RS_STM_Closed
         then (let s = s\<lparr>push_status := RS_STM_Init, push_retrys := push_retrys s + 1\<rparr>
               in if push_retrys s \<le> 3
                  then ([Called (OnRtmpReconnecting (push_retrys s))], s\<lparr>push_rtmp := True\<rparr>, srs_rtmp_create u w)
                  else ([Called OnRtmpDisconnect], s, w))
         else ([], s, w))"

definition push_stats :: "('w, 'm) push_srs_scheme \<Rightarrow> rtmp_push \<times> 'w \<Rightarrow> push_log list \<times> rtmp_push \<times> 'w" where
  "push_stats u sw =
     (let (s, w) = sw; (now, w) = srs_time u w
      in if uint (stat_time s) \<le> now
         then (let (now, w) = srs_time u w;
                   delayMs = (if lst_enc_data s = [] then 0
                              else enc_dts (last (lst_enc_data s)) - enc_dts (hd (lst_enc_data s)))
               in ([Called (OnRtmpStatusEvent (sint delayMs) (sint (net_band s * (8 + 1))))],
                   s\<lparr>stat_time := word_of_int (now + 1000), net_band := 0\<rparr>, w))
         else ([], s, w))"

text \<open>Whether an answer to a video packet is one that is ignored.\<close>

definition h264_ignored :: "('w, 'm) push_srs_scheme \<Rightarrow> int \<Rightarrow> bool" where
  "h264_ignored u r \<longleftrightarrow> r = 0 \<or> srs_h264_is_dvbsp_error u r \<or> srs_h264_is_duplicated_sps_error u r
     \<or> srs_h264_is_duplicated_pps_error u r"

definition DoSendData :: "('w, 'm) push_srs_scheme \<Rightarrow> rtmp_push \<times> 'w \<Rightarrow> push_log list \<times> rtmp_push \<times> 'w" where
  "DoSendData u sw =
     (let (s, w) = sw in case lst_enc_data s of
        [] \<Rightarrow> push_stats u (s, w)
      | d # rest \<Rightarrow>
          (let s = s\<lparr>lst_enc_data := rest\<rparr>;
               (ret, w) = (case enc_type d of
                   VIDEO_DATA \<Rightarrow> srs_h264_write_raw_frames u (enc_data d) (enc_dts d) (enc_dts d) w
                 | AUDIO_DATA \<Rightarrow> srs_audio_write_raw_frame u (sound_format s) (sound_rate s) (sound_size s) (sound_type s)
                     (enc_data d) (enc_dts d) w
                 | META_DATA \<Rightarrow> srs_rtmp_write_script u (enc_dts d) (enc_data d) w)
           in if enc_type d = META_DATA then ([Written d ret], s, w)
              else if enc_type d = VIDEO_DATA \<and> \<not> h264_ignored u ret \<or> enc_type d = AUDIO_DATA \<and> ret \<noteq> 0
              then (let (l, s, w) = push_CallDisconnect u (s, w) in (Written d ret # l, s, w))
              else (let (l, s, w) = push_stats u (s\<lparr>net_band := net_band s + of_nat (length (enc_data d))\<rparr>, w)
                    in (Written d ret # l, s, w))))"

text \<open>One turn of the loop of \<^verbatim>\<open>Run\<close>.\<close>

definition push_turn :: "('w, 'm) push_srs_scheme \<Rightarrow> rtmp_push \<times> 'w \<Rightarrow> push_log list \<times> rtmp_push \<times> 'w" where
  "push_turn u sw =
     (let (s, w) = sw
      in if \<not> push_rtmp s then ([], s, w)
         else case push_status s of
             RS_STM_Init \<Rightarrow>
               (let (r, w) = srs_rtmp_handshake u w
                in if r = 0 then ([], s\<lparr>push_status := RS_STM_Handshaked\<rparr>, w) else push_CallDisconnect u (s, w))
           | RS_STM_Handshaked \<Rightarrow>
               (let (r, w) = srs_rtmp_connect_app u w
                in if r = 0 then ([], s\<lparr>push_status := RS_STM_Connected\<rparr>, w) else push_CallDisconnect u (s, w))
           | RS_STM_Connected \<Rightarrow>
               (let (r, w) = srs_rtmp_publish_stream u w
                in if r = 0 then (let (l, s) = push_CallConnect (s\<lparr>push_status := RS_STM_Published\<rparr>) in (l, s, w))
                   else push_CallDisconnect u (s, w))
           | RS_STM_Published \<Rightarrow> DoSendData u (s, w)
           | RS_STM_Closed \<Rightarrow> ([], s, w))"

text \<open>Any call, a turn of the thread, or the start of the destructor.\<close>

datatype push_act = Set_video "u8 list" u32 | Set_audio "u8 list" u32 | Audio_only | Audio_format int int int
  | Video_format int int int int | Push_turn | Push_close

fun push_step ::
  "('w, 'm) push_srs_scheme \<Rightarrow> push_act \<Rightarrow> rtmp_push \<times> 'w \<Rightarrow> (push_log list \<times> rtmp_push \<times> 'w) option" where
  "push_step u (Set_video p ts) (s, w) = do { (l, s) \<leftarrow> SetH264Data p ts s; Some (l, s, w) }"
| "push_step u (Set_audio p ts) (s, w) = (let (l, s) = SetAacData p ts s in Some (l, s, w))"
| "push_step u Audio_only (s, w) = Some ([], EnableOnlyAudioMode s, w)"
| "push_step u (Audio_format r b c) (s, w) = do { s \<leftarrow> SetAudioParameter r b c s; Some ([], s, w) }"
| "push_step u (Video_format x y b f) (s, w) = Some ([], SetVideoParameter x y b f s, w)"
| "push_step u Push_turn sw = Some (push_turn u sw)"
| "push_step u Push_close (s, w) = Some ([], s\<lparr>push_status := RS_STM_Closed\<rparr>, w)"

abbreviation push_run where "push_run u \<equiv> log_run (push_step u)"

section \<open>The connection\<close>

fun phase_of :: "rtmp_status \<Rightarrow> bool \<Rightarrow> int \<Rightarrow> connection" where
  "phase_of RS_STM_Closed rtmp n = Shut"
| "phase_of RS_STM_Published rtmp n = (if rtmp then Online else Gone)"
| "phase_of RS_STM_Connected rtmp n = (if rtmp then Trying 2 (nat n) else Gone)"
| "phase_of RS_STM_Handshaked rtmp n = (if rtmp then Trying 1 (nat n) else Gone)"
| "phase_of RS_STM_Init rtmp n = (if rtmp then Trying 0 (nat n) else Gone)"

definition push_phase :: "rtmp_push \<times> 'w \<Rightarrow> connection" where
  "push_phase sw = phase_of (push_status (fst sw)) (push_rtmp (fst sw)) (push_retrys (fst sw))"

definition push_consistent :: "rtmp_push \<times> 'w \<Rightarrow> bool" where
  "push_consistent sw \<longleftrightarrow> (let s = fst sw in push_status s \<noteq> RS_STM_Closed \<and> push_rtmp s \<longrightarrow>
     0 \<le> push_retrys s \<and> push_retrys s \<le> 3 \<and> (push_status s = RS_STM_Published \<longrightarrow> push_retrys s = 0))"

fun push_conn :: "push_log \<Rightarrow> conn_event option" where
  "push_conn (Called OnRtmpConnected) = Some Up"
| "push_conn (Called (OnRtmpReconnecting n)) = Some (Retry n)"
| "push_conn (Called OnRtmpDisconnect) = Some Down"
| "push_conn _ = None"

text \<open>What the calls and the statistics leave alone.\<close>

definition same_link :: "rtmp_push \<Rightarrow> rtmp_push \<Rightarrow> bool" where
  "same_link s s' \<longleftrightarrow> push_status s' = push_status s \<and> push_rtmp s' = push_rtmp s \<and> push_retrys s' = push_retrys s"

lemma same_link_step:
  assumes "same_link s s'" "List.map_filter push_conn l = []" "push_consistent (s, w)"
  shows "conn_step (push_phase (s, w)) (List.map_filter push_conn l) (push_phase (s', w')) \<and> push_consistent (s', w')"
  using assms by (simp add: same_link_def push_phase_def push_consistent_def Let_def conn_step.stay)

lemma SetH264Data_link:
  assumes "SetH264Data p ts s = Some (l, s')"
  shows "same_link s s'" "List.map_filter push_conn l = []"
  using assms
  by (auto simp: SetH264Data_def ub_simps Let_def GotH264Nal_def enqueue_def same_link_def split: if_splits)

lemma SetAacData_link:
  assumes "SetAacData p ts s = (l, s')"
  shows "same_link s s'" "List.map_filter push_conn l = []"
  using assms by (auto simp: SetAacData_def enqueue_def same_link_def split: if_splits)

lemma push_stats_result:
  assumes "push_stats u (s, w) = (l, s', w')"
  shows "same_link s s' \<and> List.map_filter push_conn l = [] \<and> lst_enc_data s' = lst_enc_data s
    \<and> need_keyframe s' = need_keyframe s \<and> only_audio_mode s' = only_audio_mode s \<and> (\<forall>x \<in> set l. \<exists>d n. x = Called (OnRtmpStatusEvent d n))"
  using assms by (auto simp: push_stats_def same_link_def Let_def split: if_splits prod.splits)

lemma push_CallDisconnect_result:
  assumes "push_CallDisconnect u (s, w) = (l, s', w')" "push_status s \<noteq> RS_STM_Closed"
  shows "push_status s' = RS_STM_Init" "push_retrys s' = push_retrys s + 1" "push_rtmp s' = (push_retrys s < 3)"
    "lst_enc_data s' = lst_enc_data s" "only_audio_mode s' = only_audio_mode s"
    "l = [Called (if push_retrys s < 3 then OnRtmpReconnecting (push_retrys s + 1) else OnRtmpDisconnect)]"
  using assms by (auto simp: push_CallDisconnect_def Let_def split: if_splits)

text \<open>
  A turn that sends: the first of the queue is handed over and taken off, and either nothing happens
  to the connection or it is lost.
\<close>

lemma DoSendData_result:
  assumes "DoSendData u (s, w) = (l, s', w')" "push_status s = RS_STM_Published"
  obtains (idle) "lst_enc_data s = []" "lst_enc_data s' = []" "same_link s s'" "need_keyframe s' = need_keyframe s"
      "only_audio_mode s' = only_audio_mode s"
      "\<forall>x \<in> set l. \<exists>d n. x = Called (OnRtmpStatusEvent d n)"
    | (sent) d rest r l2 where "lst_enc_data s = d # rest" "lst_enc_data s' = rest" "l = Written d r # l2" "same_link s s'"
        "need_keyframe s' = need_keyframe s" "only_audio_mode s' = only_audio_mode s" "\<forall>x \<in> set l2. \<exists>d n. x = Called (OnRtmpStatusEvent d n)"
    | (failed) d rest r where "lst_enc_data s = d # rest" "lst_enc_data s' = rest" "push_status s' = RS_STM_Init"
        "push_retrys s' = push_retrys s + 1" "push_rtmp s' = (push_retrys s < 3)" "only_audio_mode s' = only_audio_mode s"
        "l = [Written d r, Called (if push_retrys s < 3 then OnRtmpReconnecting (push_retrys s + 1) else OnRtmpDisconnect)]"
proof (cases "lst_enc_data s")
  case Nil
  then have "push_stats u (s, w) = (l, s', w')" using assms by (simp add: DoSendData_def)
  from push_stats_result [OF this] show ?thesis using Nil idle by simp
next
  case (Cons d rest)
  let ?s = "s\<lparr>lst_enc_data := rest\<rparr>"
  obtain r w1 where w1: "(case enc_type d of
                   VIDEO_DATA \<Rightarrow> srs_h264_write_raw_frames u (enc_data d) (enc_dts d) (enc_dts d) w
                 | AUDIO_DATA \<Rightarrow> srs_audio_write_raw_frame u (sound_format s) (sound_rate s) (sound_size s) (sound_type s)
                     (enc_data d) (enc_dts d) w
                 | META_DATA \<Rightarrow> srs_rtmp_write_script u (enc_dts d) (enc_data d) w) = (r, w1)"
    using prod.exhaust by blast
  consider (meta) "enc_type d = META_DATA"
    | (err) "enc_type d \<noteq> META_DATA" "enc_type d = VIDEO_DATA \<and> \<not> h264_ignored u r \<or> enc_type d = AUDIO_DATA \<and> r \<noteq> 0"
    | (ok) "enc_type d \<noteq> META_DATA" "\<not> (enc_type d = VIDEO_DATA \<and> \<not> h264_ignored u r \<or> enc_type d = AUDIO_DATA \<and> r \<noteq> 0)"
    by blast
  then show ?thesis
  proof cases
    case meta
    have "l = [Written d r]" "s' = ?s" using assms(1) Cons w1 meta by (auto simp: DoSendData_def Let_def)
    then show ?thesis using sent [OF Cons, of r "[]"] by (simp add: same_link_def)
  next
    case err
    obtain l2 s2 w2 where d: "push_CallDisconnect u (?s, w1) = (l2, s2, w2)" by (cases "push_CallDisconnect u (?s, w1)")
    have "l = Written d r # l2" "s' = s2" using assms(1) Cons w1 err d by (cases "enc_type d"; simp add: DoSendData_def Let_def)+
    then show ?thesis using push_CallDisconnect_result [OF d] assms(2) failed [OF Cons, of r] by simp
  next
    case ok
    let ?s2 = "?s\<lparr>net_band := net_band s + of_nat (length (enc_data d))\<rparr>"
    obtain l2 s2 w2 where d: "push_stats u (?s2, w1) = (l2, s2, w2)" by (cases "push_stats u (?s2, w1)")
    have "l = Written d r # l2" "s' = s2" using assms(1) Cons w1 ok d by (cases "enc_type d"; simp add: DoSendData_def Let_def)+
    then show ?thesis using push_stats_result [OF d] sent [OF Cons, of r l2] by (simp add: same_link_def)
  qed
qed

lemma status_events_silent:
  "\<forall>x \<in> set l. \<exists>d n. x = Called (OnRtmpStatusEvent d n) \<Longrightarrow> List.map_filter push_conn l = []"
  by (auto simp: List.map_filter_def filter_empty_conv)

lemma push_turn_follows:
  assumes "push_consistent (s, w)" "push_turn u (s, w) = (l, s', w')"
  shows "conn_step (push_phase (s, w)) (List.map_filter push_conn l) (push_phase (s', w')) \<and> push_consistent (s', w')"
proof (cases "push_rtmp s \<and> push_status s \<noteq> RS_STM_Closed")
  case False
  then have "same_link s s' \<and> l = []" using assms(2) by (cases "push_status s") (auto simp: push_turn_def same_link_def split: if_splits)
  then show ?thesis using same_link_step [OF _ _ assms(1), of s' "[]" w'] by simp
next
  case True
  then have r: "push_rtmp s" "push_status s \<noteq> RS_STM_Closed" "0 \<le> push_retrys s" "push_retrys s \<le> 3"
    using assms(1) by (simp_all add: push_consistent_def Let_def)
  have fail: "conn_step (push_phase (s, w)) (List.map_filter push_conn l) (push_phase (s', w')) \<and> push_consistent (s', w')"
    if cd: "push_CallDisconnect u (s, w1) = (l, s', w')" and np: "push_status s \<noteq> RS_STM_Published" for w1
  proof -
    note d = push_CallDisconnect_result [OF cd r(2)]
    obtain k where k: "push_phase (s, w) = Trying k (nat (push_retrys s))"
      using r np by (cases "push_status s") (auto simp: push_phase_def Let_def)
    show ?thesis
    proof (cases "push_retrys s < 3")
      case True
      have "push_phase (s', w') = Trying 0 (nat (push_retrys s) + 1)"
        using d True r(3) by (simp add: push_phase_def nat_add_distrib)
      then show ?thesis using conn_step.retry [of "nat (push_retrys s)" k] True d k r(3)
        by (simp add: push_consistent_def List.map_filter_def)
    next
      case False
      then have "push_retrys s = 3" using r(4) by simp
      then show ?thesis using conn_step.give_up [of k] d k by (simp add: push_consistent_def push_phase_def List.map_filter_def)
    qed
  qed
  show ?thesis
  proof (cases "push_status s")
    case RS_STM_Init
    then show ?thesis using assms(2) r fail conn_step.advance [of 0 "nat (push_retrys s)"]
      by (cases "srs_rtmp_handshake u w") (auto simp: push_turn_def push_phase_def push_consistent_def split: if_splits)
  next
    case RS_STM_Handshaked
    have "conn_step (Trying 1 (nat (push_retrys s))) [] (Trying 2 (nat (push_retrys s)))"
      using conn_step.advance [of 1] by (metis one_add_one one_less_numeral_iff semiring_norm(76))
    with RS_STM_Handshaked show ?thesis using assms(2) r fail
      by (cases "srs_rtmp_connect_app u w") (auto simp: push_turn_def push_phase_def push_consistent_def split: if_splits)
  next
    case RS_STM_Connected
    then show ?thesis using assms(2) r fail conn_step.connect [of "nat (push_retrys s)"]
      by (cases "srs_rtmp_publish_stream u w")
        (auto simp: push_turn_def push_phase_def push_consistent_def push_CallConnect_def List.map_filter_def split: if_splits)
  next
    case RS_STM_Published
    then have z: "push_retrys s = 0" using assms(1) r by (simp add: push_consistent_def)
    have d: "DoSendData u (s, w) = (l, s', w')" using RS_STM_Published assms(2) r by (simp add: push_turn_def)
    from d RS_STM_Published show ?thesis
    proof (cases rule: DoSendData_result)
      case idle
      show ?thesis by (rule same_link_step [OF idle(3) status_events_silent [OF idle(6)] assms(1)])
    next
      case (sent d rest r l2)
      then show ?thesis using same_link_step [OF _ _ assms(1), of s' l] status_events_silent [of l2] by simp
    next
      case (failed d rest r)
      then show ?thesis using conn_step.lost z RS_STM_Published \<open>push_rtmp s\<close>
        by (simp add: push_phase_def push_consistent_def List.map_filter_def)
    qed
  next
    case RS_STM_Closed
    then show ?thesis using r by simp
  qed
qed

interpretation push: rtmp_client "push_step u" push_phase push_consistent push_conn for u :: "('w, 'm) push_srs_scheme"
proof
  fix a :: push_act and s :: "rtmp_push \<times> 'w" and es s'
  assume c: "push_consistent s" and e: "push_step u a s = Some (es, s')"
  obtain t w t' w' where s: "s = (t, w)" "s' = (t', w')" by (cases s; cases s')
  show "conn_step (push_phase s) (List.map_filter push_conn es) (push_phase s') \<and> push_consistent s'"
  proof (cases a)
    case (Set_video p ts)
    then show ?thesis using c e s SetH264Data_link [of p ts t es t'] same_link_step [of t t' es w w'] by (auto simp: ub_simps)
  next
    case (Set_audio p ts)
    then show ?thesis using c e s SetAacData_link [of p ts t es t'] same_link_step [of t t' es w w'] by (auto split: prod.splits)
  next
    case Audio_only
    then have "same_link t t'" "es = []" using e s by (auto simp: EnableOnlyAudioMode_def same_link_def)
    then show ?thesis using c s same_link_step [of t t' "[]" w w'] by simp
  next
    case (Audio_format r b k)
    then have "same_link t t'" "es = []" using e s by (auto simp: ub_simps SetAudioParameter_def same_link_def)
    then show ?thesis using c s same_link_step [of t t' "[]" w w'] by simp
  next
    case (Video_format x y b f)
    then have "same_link t t'" "es = []" using e s by (auto simp: SetVideoParameter_def same_link_def)
    then show ?thesis using c s same_link_step [of t t' "[]" w w'] by simp
  next
    case Push_turn
    then show ?thesis using c e s push_turn_follows [of t w u es t' w'] by simp
  next
    case Push_close
    then show ?thesis using c e s conn_step.shut by (auto simp: push_phase_def push_consistent_def)
  qed
qed

text \<open>
  C23. Whatever is called and whatever the server answers: the callback that the connection is given up
  comes after three attempts in a row that were announced as the first, second and third, and no
  callback about the connection comes after it.
\<close>
theorem push_gives_up:
  assumes "push_run u acts (new_rtmp_push, w) = Some (log, s')" "Called OnRtmpDisconnect \<in> set log"
  shows "\<exists>pre. List.map_filter push_conn log = pre @ [Retry 1, Retry 2, Retry 3, Down] \<and> Down \<notin> set pre
    \<and> (pre = [] \<or> last pre = Up)"
proof -
  have "push_consistent (new_rtmp_push, w)" "push_phase (new_rtmp_push, w) = Trying 0 0"
    by (simp_all add: push_consistent_def push_phase_def new_rtmp_push_def)
  from push.gives_up [OF this assms(1,2)] show ?thesis by (auto simp: given_up_def fresh_start_def)
qed

lemma push_new_retries:
  assumes "push_run u acts (new_rtmp_push, w) = Some (log, s')" "Called (OnRtmpReconnecting n) \<in> set log"
  shows "1 \<le> n \<and> n \<le> 3"
  using push.retries_bounded [of "(new_rtmp_push, w)" u acts log s' "Called (OnRtmpReconnecting n)" n] assms
  by (simp add: push_consistent_def push_phase_def new_rtmp_push_def)

text \<open>
  A server that answers is reached in at most three turns of the thread, from wherever it is.\<close>
theorem push_connects:
  assumes "\<And>w. fst (srs_rtmp_handshake u w) = 0" "\<And>w. fst (srs_rtmp_connect_app u w) = 0"
    "\<And>w. fst (srs_rtmp_publish_stream u w) = 0"
    and "push_rtmp s" "push_status s \<in> {RS_STM_Init, RS_STM_Handshaked, RS_STM_Connected}"
  shows "\<exists>n s' w'. n \<le> 3 \<and> push_run u (replicate n Push_turn) (s, w) = Some ([Called OnRtmpConnected], s', w')
    \<and> push_status s' = RS_STM_Published \<and> push_retrys s' = 0 \<and> need_keyframe s' \<and> lst_enc_data s' = []"
proof -
  have ok: "\<exists>w'. srs_rtmp_handshake u w = (0, w')" "\<exists>w'. srs_rtmp_connect_app u w = (0, w')"
    "\<exists>w'. srs_rtmp_publish_stream u w = (0, w')" for w
    using assms(1-3) [of w] by (metis prod.collapse)+
  have c: "\<exists>s' w'. push_run u [Push_turn] (s, w) = Some ([Called OnRtmpConnected], s', w')
      \<and> push_status s' = RS_STM_Published \<and> push_retrys s' = 0 \<and> need_keyframe s' \<and> lst_enc_data s' = []"
    if "push_status s = RS_STM_Connected" "push_rtmp s" for s w
    using that ok(3) [of w] by (auto simp: push_turn_def push_CallConnect_def)
  have h: "\<exists>s' w'. push_run u [Push_turn, Push_turn] (s, w) = Some ([Called OnRtmpConnected], s', w')
      \<and> push_status s' = RS_STM_Published \<and> push_retrys s' = 0 \<and> need_keyframe s' \<and> lst_enc_data s' = []"
    if p: "push_status s = RS_STM_Handshaked" "push_rtmp s" for s w
  proof -
    obtain w1 where "push_turn u (s, w) = ([], s\<lparr>push_status := RS_STM_Connected\<rparr>, w1)"
      using p ok(2) [of w] by (auto simp: push_turn_def)
    then show ?thesis using c [of "s\<lparr>push_status := RS_STM_Connected\<rparr>" w1] p by simp
  qed
  have i: "\<exists>s' w'. push_run u [Push_turn, Push_turn, Push_turn] (s, w) = Some ([Called OnRtmpConnected], s', w')
      \<and> push_status s' = RS_STM_Published \<and> push_retrys s' = 0 \<and> need_keyframe s' \<and> lst_enc_data s' = []"
    if p: "push_status s = RS_STM_Init" "push_rtmp s" for s w
  proof -
    obtain w1 where "push_turn u (s, w) = ([], s\<lparr>push_status := RS_STM_Handshaked\<rparr>, w1)"
      using p ok(1) [of w] by (auto simp: push_turn_def)
    then show ?thesis using h [of "s\<lparr>push_status := RS_STM_Handshaked\<rparr>" w1] p by simp
  qed
  consider "push_status s = RS_STM_Init" | "push_status s = RS_STM_Handshaked" | "push_status s = RS_STM_Connected"
    using assms(5) by blast
  then show ?thesis
  proof cases
    case 1
    from i [OF this assms(4), of w] show ?thesis by (intro exI [of _ 3]) (simp add: eval_nat_numeral)
  next
    case 2
    from h [OF this assms(4), of w] show ?thesis by (intro exI [of _ 2]) (simp add: eval_nat_numeral)
  next
    case 3
    from c [OF this assms(4), of w] show ?thesis by (intro exI [of _ 1]) simp
  qed
qed

text \<open>A server that never shakes hands makes the client give up after four turns, for good.\<close>

lemma push_unreachable:
  assumes "\<And>w. fst (srs_rtmp_handshake u w) \<noteq> 0"
  shows "\<exists>s' w'. push_run u (replicate 4 Push_turn) (new_rtmp_push, w)
      = Some ([Called (OnRtmpReconnecting 1), Called (OnRtmpReconnecting 2), Called (OnRtmpReconnecting 3), Called OnRtmpDisconnect], s', w')
    \<and> \<not> push_rtmp s'"
proof -
  have e: "\<exists>w'. push_turn u (s, w) = ([Called (OnRtmpReconnecting (push_retrys s + 1))], s\<lparr>need_keyframe := True, push_retrys := push_retrys s + 1\<rparr>, w')"
    if "push_status s = RS_STM_Init" "push_rtmp s" "push_retrys s < 3" for s w
    using that assms [of w] by (cases "srs_rtmp_handshake u w") (simp add: push_turn_def push_CallDisconnect_def Let_def)
  have f: "\<exists>s' w'. push_turn u (s, w) = ([Called OnRtmpDisconnect], s', w') \<and> \<not> push_rtmp s'"
    if "push_status s = RS_STM_Init" "push_rtmp s" "push_retrys s = 3" for s w
    using that assms [of w] by (cases "srs_rtmp_handshake u w") (simp add: push_turn_def push_CallDisconnect_def Let_def)
  obtain w1 where w1: "push_turn u (new_rtmp_push, w) = ([Called (OnRtmpReconnecting 1)], new_rtmp_push\<lparr>push_retrys := 1\<rparr>, w1)"
    using e [of new_rtmp_push w] by (auto simp: new_rtmp_push_def)
  obtain w2 where w2: "push_turn u (new_rtmp_push\<lparr>push_retrys := 1\<rparr>, w1) = ([Called (OnRtmpReconnecting 2)], new_rtmp_push\<lparr>push_retrys := 2\<rparr>, w2)"
    using e [of "new_rtmp_push\<lparr>push_retrys := 1\<rparr>" w1] by (auto simp: new_rtmp_push_def)
  obtain w3 where w3: "push_turn u (new_rtmp_push\<lparr>push_retrys := 2\<rparr>, w2) = ([Called (OnRtmpReconnecting 3)], new_rtmp_push\<lparr>push_retrys := 3\<rparr>, w3)"
    using e [of "new_rtmp_push\<lparr>push_retrys := 2\<rparr>" w2] by (auto simp: new_rtmp_push_def)
  obtain s4 w4 where w4: "push_turn u (new_rtmp_push\<lparr>push_retrys := 3\<rparr>, w3) = ([Called OnRtmpDisconnect], s4, w4)" "\<not> push_rtmp s4"
    using f [of "new_rtmp_push\<lparr>push_retrys := 3\<rparr>" w3] by (auto simp: new_rtmp_push_def)
  show ?thesis using w1 w2 w3 w4 by (simp add: eval_nat_numeral)
qed

text \<open>
  The stream is published from the callback that says so until the next callback about the connection.
\<close>

definition published :: "rtmp_push \<Rightarrow> bool" where
  "published s \<longleftrightarrow> push_status s = RS_STM_Published \<and> push_rtmp s"

lemma push_turn_published:
  assumes "push_turn u (s, w) = (l, s', w')"
  obtains (same) "List.map_filter push_conn l = []" "published s' = published s"
    | (up) "List.map_filter push_conn l = [Up]" "published s'"
    | (down) e where "List.map_filter push_conn l = [e]" "e \<noteq> Up" "\<not> published s'"
proof -
  note kinds = that
  have fail: thesis if cd: "push_CallDisconnect u (s, w1) = (l, s', w')" and np: "push_status s \<noteq> RS_STM_Closed" for w1
    by (rule kinds(3) [of "if push_retrys s < 3 then Retry (push_retrys s + 1) else Down"])
      (use push_CallDisconnect_result [OF cd np] in \<open>simp_all add: published_def List.map_filter_def\<close>)
  show thesis
  proof (cases "push_rtmp s")
    case False
    then show thesis using assms by (intro kinds(1)) (auto simp: push_turn_def)
  next
    case True
    show thesis
    proof (cases "push_status s")
      case RS_STM_Init
      then show thesis using assms True fail kinds(1)
        by (cases "srs_rtmp_handshake u w") (auto simp: push_turn_def published_def split: if_splits)
    next
      case RS_STM_Handshaked
      then show thesis using assms True fail kinds(1)
        by (cases "srs_rtmp_connect_app u w") (auto simp: push_turn_def published_def split: if_splits)
    next
      case RS_STM_Connected
      then show thesis using assms True fail kinds(2)
        by (cases "srs_rtmp_publish_stream u w")
          (auto simp: push_turn_def push_CallConnect_def published_def List.map_filter_def split: if_splits)
    next
      case RS_STM_Published
      then have d: "DoSendData u (s, w) = (l, s', w')" using assms True by (simp add: push_turn_def)
      from d RS_STM_Published show thesis
      proof (cases rule: DoSendData_result)
        case idle
        then show thesis using status_events_silent [OF idle(6)] by (intro kinds(1)) (auto simp: same_link_def published_def)
      next
        case (sent d rest r l2)
        then show thesis using status_events_silent [OF sent(7)] by (intro kinds(1)) (auto simp: same_link_def published_def)
      next
        case (failed d rest r)
        then show thesis by (intro kinds(3) [of "if push_retrys s < 3 then Retry (push_retrys s + 1) else Down"])
          (simp_all add: published_def List.map_filter_def)
      qed
    next
      case RS_STM_Closed
      then show thesis using assms True by (intro kinds(1)) (auto simp: push_turn_def)
    qed
  qed
qed

section \<open>The queue\<close>

definition queued :: "push_log list \<Rightarrow> enc_data list" where
  "queued l = List.map_filter (\<lambda>x. case x of Queued d \<Rightarrow> Some d | _ \<Rightarrow> None) l"

definition handed :: "push_log list \<Rightarrow> enc_data list" where
  "handed l = List.map_filter (\<lambda>x. case x of Written d _ \<Rightarrow> Some d | _ \<Rightarrow> None) l"

lemma queued_simps [simp]:
  "queued [] = []" "queued (Queued d # l) = d # queued l" "queued (Written d r # l) = queued l" "queued (Called c # l) = queued l"
  "queued (l @ l') = queued l @ queued l'"
  by (simp_all add: queued_def)

lemma handed_simps [simp]:
  "handed [] = []" "handed (Queued d # l) = handed l" "handed (Written d r # l) = d # handed l" "handed (Called c # l) = handed l"
  "handed (l @ l') = handed l @ handed l'"
  by (simp_all add: handed_def)

lemma handed_mem: "Written d r \<in> set l \<Longrightarrow> d \<in> set (handed l)"
  by (induction l) (auto simp: handed_def List.map_filter_def)

lemma status_events_plain:
  "\<forall>x \<in> set l. \<exists>d n. x = Called (OnRtmpStatusEvent d n) \<Longrightarrow> queued l = [] \<and> handed l = [] \<and> Called OnRtmpConnected \<notin> set l"
  by (induction l) auto

text \<open>A step that does not connect moves data from the log to the queue and from the queue to the log.\<close>

lemma push_turn_queue:
  assumes "push_turn u (s, w) = (l, s', w')"
  shows "l = [Called OnRtmpConnected] \<and> lst_enc_data s' = [] \<and> need_keyframe s' \<and> only_audio_mode s' = only_audio_mode s
    \<or> Called OnRtmpConnected \<notin> set l \<and> queued l = [] \<and> handed l @ lst_enc_data s' = lst_enc_data s
      \<and> only_audio_mode s' = only_audio_mode s \<and> (handed l = [] \<longrightarrow> need_keyframe s \<longrightarrow> need_keyframe s')"
proof -
  have fail: ?thesis if cd: "push_CallDisconnect u (s, w1) = (l, s', w')" and np: "push_status s \<noteq> RS_STM_Closed" for w1
    using push_CallDisconnect_result [OF cd np] cd by (auto simp: push_CallDisconnect_def Let_def split: if_splits)
  show ?thesis
  proof (cases "push_rtmp s")
    case False
    then show ?thesis using assms by (simp add: push_turn_def)
  next
    case True
    show ?thesis
    proof (cases "push_status s")
      case RS_STM_Init
      then show ?thesis using assms True fail by (cases "srs_rtmp_handshake u w") (auto simp: push_turn_def split: if_splits)
    next
      case RS_STM_Handshaked
      then show ?thesis using assms True fail by (cases "srs_rtmp_connect_app u w") (auto simp: push_turn_def split: if_splits)
    next
      case RS_STM_Connected
      then show ?thesis using assms True fail
        by (cases "srs_rtmp_publish_stream u w") (auto simp: push_turn_def push_CallConnect_def split: if_splits)
    next
      case RS_STM_Published
      then have d: "DoSendData u (s, w) = (l, s', w')" using assms True by (simp add: push_turn_def)
      from d RS_STM_Published show ?thesis
      proof (cases rule: DoSendData_result)
        case idle
        then show ?thesis using status_events_plain [OF idle(6)] by simp
      next
        case (sent d rest r l2)
        then show ?thesis using status_events_plain [OF sent(7)] by simp
      next
        case (failed d rest r)
        then show ?thesis by simp
      qed
    next
      case RS_STM_Closed
      then show ?thesis using assms True by (simp add: push_turn_def)
    qed
  qed
qed

lemma enqueue_queue:
  "enqueue d s = (l, s') \<Longrightarrow> handed l = [] \<and> lst_enc_data s' = lst_enc_data s @ queued l \<and> Called OnRtmpConnected \<notin> set l"
  by (auto simp: enqueue_def)

lemma SetH264Data_queue:
  assumes "SetH264Data p ts s = Some (l, s')"
  shows "handed l = [] \<and> lst_enc_data s' = lst_enc_data s @ queued l \<and> Called OnRtmpConnected \<notin> set l"
  using assms by (auto simp: SetH264Data_def ub_simps Let_def GotH264Nal_def enqueue_def split: if_splits)

lemma push_step_queue:
  assumes "push_step u a (s, w) = Some (l, s', w')"
  shows "l = [Called OnRtmpConnected] \<and> lst_enc_data s' = []
    \<or> Called OnRtmpConnected \<notin> set l \<and> handed l @ lst_enc_data s' = lst_enc_data s @ queued l"
proof (cases a)
  case (Set_video p ts)
  then show ?thesis using assms SetH264Data_queue [of p ts s l s'] by (auto simp: ub_simps)
next
  case (Set_audio p ts)
  then show ?thesis using assms by (auto simp: SetAacData_def enqueue_def split: if_splits)
next
  case Audio_only
  then show ?thesis using assms by (auto simp: EnableOnlyAudioMode_def)
next
  case (Audio_format r b c)
  then show ?thesis using assms by (auto simp: ub_simps SetAudioParameter_def)
next
  case (Video_format x y b f)
  then show ?thesis using assms by (auto simp: SetVideoParameter_def)
next
  case Push_turn
  then show ?thesis using assms push_turn_queue [of u s w l s' w'] by auto
next
  case Push_close
  then show ?thesis using assms by auto
qed

text \<open>The log since the last connection.\<close>

abbreviation since_connect :: "push_log list \<Rightarrow> push_log list" where
  "since_connect \<equiv> since_last (Called OnRtmpConnected)"

lemma push_run_queue:
  "push_run u as (s, w) = Some (l, s', w') \<Longrightarrow>
     handed (since_connect l) @ lst_enc_data s'
       = (if Called OnRtmpConnected \<in> set l then [] else lst_enc_data s) @ queued (since_connect l)"
proof (induction as arbitrary: s w l)
  case Nil
  then show ?case by (simp add: since_last_def)
next
  case (Cons a as)
  then obtain l1 s1 w1 l2 where 1: "push_step u a (s, w) = Some (l1, s1, w1)" and 2: "push_run u as (s1, w1) = Some (l2, s', w')"
    and l: "l = l1 @ l2" by (auto simp: ub_simps)
  from push_step_queue [OF 1] Cons.IH [OF 2] show ?case
    by (auto simp: l since_last_append since_last_none simp flip: append_assoc) (simp_all add: since_last_def)
qed

text \<open>
  C14. Between two connections nothing is lost, repeated or reordered: what was handed to the
  library since the last connection, with what still waits, is what was accepted since then.
\<close>
theorem push_fifo:
  assumes "push_run u acts (new_rtmp_push, w) = Some (log, s', w')"
  shows "handed (since_connect log) @ lst_enc_data s' = queued (since_connect log)"
  using push_run_queue [OF assms] by (simp add: new_rtmp_push_def)

section \<open>The gate\<close>

text \<open>The first part of a key frame: a sequence parameter set, or nothing when it was not taken apart.\<close>

definition key_start :: "enc_data \<Rightarrow> bool" where
  "key_start d \<longleftrightarrow> enc_bVideo d \<and> (enc_data d = [] \<or> enc_data d ! 4 AND 0x1f = 7)"

definition gate :: "rtmp_push \<Rightarrow> bool" where
  "gate s \<longleftrightarrow> \<not> only_audio_mode s \<and> (if lst_enc_data s = [] then need_keyframe s else key_start (hd (lst_enc_data s)))"

lemma nal_sps_type:
  assumes "4 < length p" "p ! 4 AND 0x1f = 7"
  shows "nal_sps p = [] \<or> nal_sps p ! 4 AND 0x1f = 7"
proof -
  obtain f7 f8 r where n: "nals_of p = (f7, f8, r)" by (cases "nals_of p")
  have "f7 = 0 \<or> 4 \<le> f7 \<and> start_code p f7"
    using find_nals_bounds [of p 4 0 0 f7 f8 r] n by (auto simp: nals_of_def)
  moreover have "\<not> start_code p 4" using assms(2) by (auto simp: start_code_def)
  ultimately have "f7 = 0 \<or> 4 < f7" using le_neq_implies_less by blast
  then show ?thesis using n assms by (auto simp: nal_sps_def)
qed

lemma SetH264Data_gate:
  assumes "SetH264Data p ts s = Some (l, s')" "gate s"
  shows "gate s'"
proof -
  have p: "4 < length p" using assms(1) by (auto simp: SetH264Data_def ub_simps)
  note n = nal_sps_type [OF p]
  show ?thesis using assms p n
    by (cases "lst_enc_data s")
      (auto simp: SetH264Data_def ub_simps Let_def GotH264Nal_def enqueue_def gate_def key_start_def split: if_splits)
qed

lemma SetAacData_gate: "SetAacData p ts s = (l, s') \<Longrightarrow> gate s \<Longrightarrow> gate s'"
  by (cases "lst_enc_data s") (auto simp: SetAacData_def enqueue_def gate_def split: if_splits)

lemma push_step_gate:
  assumes "push_step u a (s, w) = Some (l, s', w')" "a \<noteq> Audio_only" "gate s" "handed l = []"
  shows "gate s'"
proof (cases a)
  case (Set_video p ts)
  then show ?thesis using assms SetH264Data_gate [of p ts s l s'] by (auto simp: ub_simps)
next
  case (Set_audio p ts)
  then show ?thesis using assms SetAacData_gate [of p ts s l s'] by (auto split: prod.splits)
next
  case Audio_only
  then show ?thesis using assms(2) by simp
next
  case (Audio_format r b c)
  then show ?thesis using assms by (auto simp: ub_simps SetAudioParameter_def gate_def)
next
  case (Video_format x y b f)
  then show ?thesis using assms by (auto simp: SetVideoParameter_def gate_def)
next
  case Push_turn
  then show ?thesis using assms push_turn_queue [of u s w l s' w'] by (auto simp: gate_def)
next
  case Push_close
  then show ?thesis using assms by (auto simp: gate_def)
qed

lemma push_step_only_audio:
  assumes "push_step u a (s, w) = Some (l, s', w')" "a \<noteq> Audio_only"
  shows "only_audio_mode s' = only_audio_mode s"
proof (cases a)
  case Push_turn
  then show ?thesis using assms push_turn_queue [of u s w l s' w'] by auto
qed (use assms in \<open>auto simp: ub_simps SetH264Data_def SetAacData_def SetAudioParameter_def SetVideoParameter_def GotH264Nal_def enqueue_def Let_def
  split: if_splits\<close>)

lemma push_step_connected:
  assumes "push_step u a (s, w) = Some (l, s', w')" "Called OnRtmpConnected \<in> set l" "\<not> only_audio_mode s"
  shows "l = [Called OnRtmpConnected] \<and> gate s'"
proof (cases a)
  case Push_turn
  then show ?thesis using assms push_turn_queue [of u s w l s' w'] by (auto simp: gate_def)
qed (use assms push_step_queue [OF assms(1)] in
  \<open>auto simp: ub_simps SetH264Data_def SetAacData_def SetAudioParameter_def SetVideoParameter_def GotH264Nal_def enqueue_def Let_def split: if_splits\<close>)

text \<open>What a closed gate lets through first.\<close>

lemma push_step_first:
  assumes "push_step u a (s, w) = Some (l, s', w')" "handed l \<noteq> []" "gate s"
  shows "key_start (hd (handed l))"
proof -
  have "a = Push_turn" using assms(1,2) SetH264Data_queue
    by (cases a) (auto simp: ub_simps SetAacData_def enqueue_def split: if_splits)
  then have "handed l @ lst_enc_data s' = lst_enc_data s" using assms(1,2) push_turn_queue [of u s w l s' w'] by auto
  then have "hd (handed l) = hd (lst_enc_data s)" "lst_enc_data s \<noteq> []" using assms(2) by (metis hd_append2, auto)
  then show ?thesis using assms(3) by (simp add: gate_def)
qed

lemma push_run_gate:
  assumes "push_run u as (s, w) = Some (l, s', w')" "Audio_only \<notin> set as" "\<not> only_audio_mode s"
    "handed (since_connect l) \<noteq> []" "Called OnRtmpConnected \<in> set l \<or> gate s"
  shows "key_start (hd (handed (since_connect l)))"
  using assms
proof (induction as arbitrary: s w l)
  case Nil
  then show ?case by (simp add: since_last_def)
next
  case (Cons a as)
  then obtain l1 s1 w1 l2 where 1: "push_step u a (s, w) = Some (l1, s1, w1)" and 2: "push_run u as (s1, w1) = Some (l2, s', w')"
    and l: "l = l1 @ l2" by (auto simp: ub_simps)
  have o: "Audio_only \<notin> set as" "\<not> only_audio_mode s1" "a \<noteq> Audio_only"
    using Cons.prems push_step_only_audio [OF 1] by auto
  note IH = Cons.IH [OF 2 o(1,2)]
  show ?case
  proof (cases "Called OnRtmpConnected \<in> set l2")
    case True
    then show ?thesis using IH Cons.prems(4) by (simp add: l since_last_append)
  next
    case none: False
    show ?thesis
    proof (cases "Called OnRtmpConnected \<in> set l1")
      case True
      then have "l1 = [Called OnRtmpConnected]" "gate s1" using push_step_connected [OF 1 True Cons.prems(3)] by auto
      moreover have "since_connect l = since_connect l1 @ l2" using none by (simp add: l since_last_append)
      ultimately have "since_connect l = l2" by (simp add: since_last_def)
      then show ?thesis using IH Cons.prems(4) none \<open>gate s1\<close> by (simp add: since_last_none)
    next
      case False
      then have s: "since_connect l = l1 @ l2" "gate s"
        using Cons.prems(5) none by (simp_all add: l since_last_append since_last_none)
      show ?thesis
      proof (cases "handed l1 = []")
        case True
        then show ?thesis using IH Cons.prems(4) none push_step_gate [OF 1 o(3) s(2) True] s(1)
          by (simp add: since_last_none)
      next
        case w: False
        then show ?thesis using push_step_first [OF 1 w s(2)] s(1) by simp
      qed
    qed
  qed
qed

text \<open>
  Unless only audio is sent, the first data of every connection is the start of a key frame: no
  audio and no other slice goes out before it.
\<close>
theorem push_starts_with_key_frame:
  assumes "push_run u acts (new_rtmp_push, w) = Some (log, s', w')" "Audio_only \<notin> set acts"
    "handed (since_connect log) = d # ds"
  shows "key_start d"
  using push_run_gate [OF assms(1,2)] assms(3) by (simp add: new_rtmp_push_def gate_def)

section \<open>Key frames\<close>

text \<open>
  C24. A key frame that an encoder puts together, two parameter sets and a slice behind start codes,
  is queued as its three parts, and opens the gate.
\<close>
theorem key_frame_queued:
  assumes "nal_body b7" "nal_body b8" "b5 \<noteq> []" "nal_code c8" "nal_code c5" "length c5 = 3 \<longrightarrow> 2 \<le> length b5"
    "b7 ! 0 AND 0x1f = 7" "b5 ! 0 AND 0x1f = 5"
  shows "\<exists>log s'. SetH264Data ([0, 0, 0, 1] @ b7 @ c8 @ b8 @ c5 @ b5) ts s = Some (log, s') \<and> \<not> need_keyframe s'
    \<and> lst_enc_data s' = lst_enc_data s @ map (\<lambda>d. \<lparr>enc_data = d, enc_bVideo = True, enc_dts = ts, enc_type = VIDEO_DATA\<rparr>)
         [[0, 0, 0, 1] @ b7, c8 @ b8, c5 @ b5]"
proof -
  let ?p = "[0, 0, 0, 1] @ b7 @ c8 @ b8 @ c5 @ b5"
  note n = nals_found(1) [OF assms(1-6,8) refl]
  have "b7 \<noteq> []" using assms(1) by (simp add: nal_body_def)
  then have t: "rd ?p 4 = Some (b7 ! 0)" by (simp add: rd_def nth_append)
  have parts: "nal_sps ?p = [0, 0, 0, 1] @ b7" "nal_pps ?p = c8 @ b8" "nal_idr ?p = c5 @ b5"
    unfolding nal_sps_def nal_pps_def nal_idr_def n by (simp_all add: take_Cons' drop_Cons')
  show ?thesis using assms(7) unfolding SetH264Data_def t parts
    by (simp add: parts [simplified] Let_def GotH264Nal_def enqueue_def)
qed

text \<open>
  A packet that starts with a sequence parameter set but holds no three parts is queued as empty
  packets and is lost.
\<close>

lemma lone_parameter_set_lost:
  assumes "nal_body b7" "b7 ! 0 AND 0x1f = 7"
  shows "\<exists>log s'. SetH264Data ([0, 0, 0, 1] @ b7) ts s = Some (log, s') \<and> map enc_data (queued log) = [[], [], []]"
proof -
  let ?p = "[0, 0, 0, 1] @ b7"
  have "b7 \<noteq> []" using assms(1) by (simp add: nal_body_def)
  then have t: "rd ?p 4 = Some (b7 ! 0)" by (simp add: rd_def nth_append)
  have "\<not> start_code ?p j" if "4 \<le> j" "j < length ?p" for j
    using no_start_in_body [OF assms(1), of "[0, 0, 0, 1]" j "[]"] that by simp
  then have "length b7 \<ge> 4 \<Longrightarrow> find_nals ?p 4 0 0 = find_nals ?p (length b7) 0 0"
    by (intro find_nals_skip) auto
  then have "find_nals ?p 4 0 0 = (0, 0, None)"
    by (cases "4 \<le> length b7"; simp add: find_nals.simps [of _ 4] find_nals.simps [of _ "length b7"])
  then have "nals_of ?p = (0, 0, None)" by (simp add: nals_of_def)
  then have parts: "nal_sps ?p = []" "nal_pps ?p = []" "nal_idr ?p = []"
    by (simp_all add: nal_sps_def nal_pps_def nal_idr_def)
  show ?thesis using assms(2) unfolding SetH264Data_def t parts
    by (simp add: parts [simplified] Let_def GotH264Nal_def enqueue_def)
qed

section \<open>A streamer\<close>

text \<open>A server that counts what it is sent and always answers.\<close>

definition kind_server :: "nat push_srs" where
  "kind_server = \<lparr>srs_rtmp_create = \<lambda>n. n, srs_rtmp_destroy = \<lambda>n. n, srs_rtmp_handshake = \<lambda>n. (0, n),
     srs_rtmp_connect_app = \<lambda>n. (0, n), srs_time = \<lambda>n. (int n, n), srs_rtmp_publish_stream = \<lambda>n. (0, n),
     srs_h264_write_raw_frames = \<lambda>_ _ _ n. (0, n + 1), srs_h264_is_dvbsp_error = \<lambda>_. False,
     srs_h264_is_duplicated_sps_error = \<lambda>_. False, srs_h264_is_duplicated_pps_error = \<lambda>_. False,
     srs_audio_write_raw_frame = \<lambda>_ _ _ _ _ _ n. (0, n + 1), srs_rtmp_write_script = \<lambda>_ _ n. (0, n + 1)\<rparr>"

definition dead_server :: "nat push_srs" where
  "dead_server = kind_server\<lparr>srs_rtmp_handshake := \<lambda>n. (- 1, n)\<rparr>"

definition sample_acts :: "push_act list" where
  "sample_acts = [Push_turn, Push_turn, Push_turn, Set_audio [1] 9, Set_video [0, 0, 0, 1, 0x67, 1, 0, 0, 1, 0x68, 1, 0, 0, 1, 0x65, 2] 10,
     Set_audio [3] 11, Push_turn]"

lemma push_sample_log:
  "case push_run kind_server sample_acts (new_rtmp_push, 0) of
     Some (l, s, w) \<Rightarrow> map enc_data (handed (since_connect l)) = [[0, 0, 0, 1, 0x67, 1]] \<and> map enc_data (queued l) =
       [[0, 0, 0, 1, 0x67, 1], [0, 0, 1, 0x68, 1], [0, 0, 1, 0x65, 2], [3]] | None \<Rightarrow> False"
  by code_simp

theorem push_gives_up_witness:
  "\<exists>log s' pre. push_run dead_server (replicate 4 Push_turn) (new_rtmp_push, 0) = Some (log, s')
    \<and> List.map_filter push_conn log = pre @ [Retry 1, Retry 2, Retry 3, Down]"
proof -
  have "\<exists>s' w'. push_run dead_server (replicate 4 Push_turn) (new_rtmp_push, 0)
      = Some ([Called (OnRtmpReconnecting 1), Called (OnRtmpReconnecting 2), Called (OnRtmpReconnecting 3), Called OnRtmpDisconnect], s', w')
    \<and> \<not> push_rtmp s'"
    by (rule push_unreachable) (simp add: dead_server_def)
  then obtain s' where r: "push_run dead_server (replicate 4 Push_turn) (new_rtmp_push, 0)
      = Some ([Called (OnRtmpReconnecting 1), Called (OnRtmpReconnecting 2), Called (OnRtmpReconnecting 3), Called OnRtmpDisconnect], s')"
    by blast
  from push_gives_up [OF r] show ?thesis using r by auto
qed

theorem push_connects_witness:
  "\<exists>n s' w'. push_run kind_server (replicate n Push_turn) (new_rtmp_push, 0) = Some ([Called OnRtmpConnected], s', w')
    \<and> push_status s' = RS_STM_Published"
proof -
  have "\<exists>n s' w'. n \<le> 3 \<and> push_run kind_server (replicate n Push_turn) (new_rtmp_push, 0) = Some ([Called OnRtmpConnected], s', w')
    \<and> push_status s' = RS_STM_Published \<and> push_retrys s' = 0 \<and> need_keyframe s' \<and> lst_enc_data s' = []"
    by (rule push_connects) (simp_all add: kind_server_def new_rtmp_push_def)
  then show ?thesis by blast
qed

lemma push_sample_run:
  obtains l s w where "push_run kind_server sample_acts (new_rtmp_push, 0) = Some (l, s, w)"
    "map enc_data (handed (since_connect l)) = [[0, 0, 0, 1, 0x67, 1]]"
  using push_sample_log by (auto split: option.splits)

theorem push_fifo_witness:
  "\<exists>l s w. push_run kind_server sample_acts (new_rtmp_push, 0) = Some (l, s, w)
    \<and> handed (since_connect l) @ lst_enc_data s = queued (since_connect l)"
proof -
  obtain l s w where r: "push_run kind_server sample_acts (new_rtmp_push, 0) = Some (l, s, w)" by (rule push_sample_run)
  from push_fifo [OF r] r show ?thesis by blast
qed

theorem push_starts_with_key_frame_witness:
  "\<exists>l s w d. push_run kind_server sample_acts (new_rtmp_push, 0) = Some (l, s, w) \<and> handed (since_connect l) = [d] \<and> key_start d"
proof -
  obtain l s w where r: "push_run kind_server sample_acts (new_rtmp_push, 0) = Some (l, s, w)"
    "map enc_data (handed (since_connect l)) = [[0, 0, 0, 1, 0x67, 1]]" by (rule push_sample_run)
  then obtain d where d: "handed (since_connect l) = [d]" by auto
  have "key_start d" by (rule push_starts_with_key_frame [OF r(1) _ d]) (simp add: sample_acts_def)
  with r(1) d show ?thesis by blast
qed

theorem key_frame_queued_witness:
  "\<exists>log s'. SetH264Data [0, 0, 0, 1, 0x67, 1, 0, 0, 1, 0x68, 1, 0, 0, 1, 0x65, 2] 10 new_rtmp_push = Some (log, s')
    \<and> map enc_data (lst_enc_data s') = [[0, 0, 0, 1, 0x67, 1], [0, 0, 1, 0x68, 1], [0, 0, 1, 0x65, 2]]"
  using key_frame_queued [of "[0x67, 1]" "[0x68, 1]" "[0x65, 2]" "[0, 0, 1]" "[0, 0, 1]" 10 new_rtmp_push]
  by (auto simp: nal_body_def nal_code_def new_rtmp_push_def)

end
