(* ===== verification/Rtmp_Streamer.thy ===== *)
theory Rtmp_Streamer
  imports Av_Video Rtmp_Push
begin

text \<open>
  The streamer, \<^verbatim>\<open>AnyCore/anyrtmpstreamer.cc\<close>: the object between the encoders (\<open>Av_Audio\<close>,
  \<open>Av_Video\<close>) and the connection (\<open>Rtmp_Push\<close>). It starts and stops the encoders as the connection
  comes and goes, passes what they give to the connection, and lets the bitrate follow the delay.
  What the application is told, and what the parts log, goes to a log.
\<close>

section \<open>State\<close>

text \<open>\<^verbatim>\<open>a_enabled_\<close> is never used and is left out. \<open>av_rtmp\<close> is \<open>None\<close> for the null pointer.\<close>

record 'f rtmp_streamer =
  rtmp_connected :: bool
  auto_adjust_bit :: bool
  a_aac_encoder_of :: a_aac_encoder
  str_muted :: bool
  str_sample_hz :: int
  str_channels :: int
  v_h264_encoder_of :: "'f v_h264_encoder"
  str_width :: int
  str_height :: int
  str_framerate :: int
  str_bitrate :: int
  av_rtmp :: "rtmp_push option"

text \<open>
  The constructor: the audio encoder for one channel of 16 bits at 44100 Hz, the video encoder with the
  factory of the application, if any.
\<close>

definition new_rtmp_streamer :: "(int \<Rightarrow> int \<Rightarrow> nat) \<Rightarrow> (nat \<Rightarrow> u8 list) \<Rightarrow> bool \<Rightarrow> 'f rtmp_streamer" where
  "new_rtmp_streamer samples fresh factory = \<lparr>rtmp_connected = False, auto_adjust_bit = False,
     a_aac_encoder_of = a_Muted False (snd (a_Init samples fresh 1 44100 16 new_a_aac_encoder)),
     str_muted = False, str_sample_hz = 44100, str_channels = 1,
     v_h264_encoder_of = v_SetParameter 640 480 20 768 (v_Init factory new_v_h264_encoder),
     str_width = 640, str_height = 480, str_framerate = 20, str_bitrate = 768, av_rtmp = None\<rparr>"

datatype 'f stream_log = OnStreamOk | OnStreamReconnecting int | OnStreamFailed int | OnStreamClosed | OnStreamStatus int int
  | Pushed push_log | Filmed "'f video_log" | Coded encoded_data

section \<open>Calls\<close>

definition SetAudioEnable :: "bool \<Rightarrow> 'f rtmp_streamer \<Rightarrow> 'f rtmp_streamer" where
  "SetAudioEnable enabled s = s\<lparr>str_muted := \<not> enabled, a_aac_encoder_of := a_Muted (\<not> enabled) (a_aac_encoder_of s)\<rparr>"

definition SetVideoEnable :: "bool \<Rightarrow> 'f rtmp_streamer \<Rightarrow> 'f rtmp_streamer" where
  "SetVideoEnable enabled s = (if \<not> enabled then s\<lparr>av_rtmp := map_option EnableOnlyAudioMode (av_rtmp s)\<rparr> else s)"

definition SetAutoAdjustBit :: "bool \<Rightarrow> 'f rtmp_streamer \<Rightarrow> 'f rtmp_streamer" where
  "SetAutoAdjustBit enabled s =
     s\<lparr>auto_adjust_bit := enabled, v_h264_encoder_of := v_SetAutoAdjustBit enabled (v_h264_encoder_of s)\<rparr>"

definition SetBitrate :: "('w, 'f, 'm) video_env_scheme \<Rightarrow> int \<Rightarrow> 'f rtmp_streamer \<times> 'w \<Rightarrow> 'f rtmp_streamer \<times> 'w" where
  "SetBitrate v bitrate sw = (let (s, w) = sw; (e, w) = v_SetRates v bitrate (v_h264_encoder_of s, w)
     in (s\<lparr>v_h264_encoder_of := e, str_bitrate := bitrate\<rparr>, w))"

definition streamer_SetVideoParameter ::
  "('w, 'f, 'm) video_env_scheme \<Rightarrow> int \<Rightarrow> int \<Rightarrow> int \<Rightarrow> 'f rtmp_streamer \<times> 'w \<Rightarrow> 'f rtmp_streamer \<times> 'w" where
  "streamer_SetVideoParameter v width height bitrate sw =
     (let (s, w) = sw; s = s\<lparr>str_width := width, str_height := height\<rparr>;
          (e, w) = v_SetRates v bitrate (v_h264_encoder_of s, w)
      in (s\<lparr>v_h264_encoder_of := e, str_bitrate := bitrate\<rparr>, w))"

definition StartStream :: "('w, 'n) push_srs_scheme \<Rightarrow> 'f rtmp_streamer \<times> 'w \<Rightarrow> ('f rtmp_streamer \<times> 'w) option" where
  "StartStream u sw =
     (let (s, w) = sw;
          (p, w) = (case av_rtmp s of None \<Rightarrow> (new_rtmp_push, srs_rtmp_create u w) | Some p \<Rightarrow> (p, w))
      in do { p \<leftarrow> SetAudioParameter (str_sample_hz s) 16 (str_channels s) p;
              let p = SetVideoParameter (str_width s) (str_height s) (str_bitrate s) (str_framerate s) p;
              Some (s\<lparr>av_rtmp := Some p\<rparr>, w) })"

definition StartEncoder :: "'f rtmp_streamer \<Rightarrow> 'f rtmp_streamer" where
  "StartEncoder s = s\<lparr>v_h264_encoder_of := v_StartEncoder (v_h264_encoder_of s),
     a_aac_encoder_of := a_StartEncoder (a_aac_encoder_of s)\<rparr>"

definition StopEncoder :: "'f rtmp_streamer \<Rightarrow> 'f rtmp_streamer" where
  "StopEncoder s = s\<lparr>v_h264_encoder_of := v_StopEncoder (v_h264_encoder_of s),
     a_aac_encoder_of := a_StopEncoder (a_aac_encoder_of s)\<rparr>"

text \<open>Deleting the connection ends its thread and frees its end of the library.\<close>

definition StopStream :: "('w, 'n) push_srs_scheme \<Rightarrow> 'f rtmp_streamer \<times> 'w \<Rightarrow> 'f rtmp_streamer \<times> 'w" where
  "StopStream u sw =
     (let (s, w) = sw;
          w = (case av_rtmp s of None \<Rightarrow> w | Some p \<Rightarrow> if push_rtmp p then srs_rtmp_destroy u w else w)
      in (StopEncoder (s\<lparr>av_rtmp := None\<rparr>), w))"

section \<open>Callbacks\<close>

definition OnAACData :: "u8 list \<Rightarrow> u32 \<Rightarrow> 'f rtmp_streamer \<Rightarrow> push_log list \<times> 'f rtmp_streamer" where
  "OnAACData pData ts s = (case av_rtmp s of
       None \<Rightarrow> ([], s)
     | Some p \<Rightarrow> (let (l, p) = SetAacData pData ts p in (l, s\<lparr>av_rtmp := Some p\<rparr>)))"

definition OnH264Data :: "u8 list \<Rightarrow> u32 \<Rightarrow> 'f rtmp_streamer \<Rightarrow> (push_log list \<times> 'f rtmp_streamer) option" where
  "OnH264Data pData ts s = (case av_rtmp s of
       None \<Rightarrow> Some ([], s)
     | Some p \<Rightarrow> do { (l, p) \<leftarrow> SetH264Data pData ts p; Some (l, s\<lparr>av_rtmp := Some p\<rparr>) })"

fun OnEncodeDataCallback :: "encoded_data \<Rightarrow> 'f rtmp_streamer \<Rightarrow> (push_log list \<times> 'f rtmp_streamer) option" where
  "OnEncodeDataCallback (Encoded_audio p ts) s = Some (OnAACData p ts s)"
| "OnEncodeDataCallback (Encoded_video p ts) s = OnH264Data p ts s"

fun encoder_data :: "encoded_data list \<Rightarrow> 'f rtmp_streamer \<Rightarrow> ('f stream_log list \<times> 'f rtmp_streamer) option" where
  "encoder_data [] s = Some ([], s)"
| "encoder_data (d # ds) s = do { (l, s) \<leftarrow> OnEncodeDataCallback d s; (ls, s) \<leftarrow> encoder_data ds s;
     Some (Coded d # map Pushed l @ ls, s) }"

fun streamer_called ::
  "('w, 'f, 'm) video_env_scheme \<Rightarrow> push_callback \<Rightarrow> 'f rtmp_streamer \<times> 'w \<Rightarrow> ('f stream_log list \<times> 'f rtmp_streamer \<times> 'w) option" where
  "streamer_called v OnRtmpConnected (s, w) = Some ([OnStreamOk], StartEncoder s, w)"
| "streamer_called v (OnRtmpReconnecting n) (s, w) = Some ([OnStreamReconnecting n], StopEncoder s, w)"
| "streamer_called v OnRtmpDisconnect (s, w) =
     (let s = StopEncoder s
      in Some ([if rtmp_connected s then OnStreamClosed else OnStreamFailed 1], s\<lparr>rtmp_connected := False\<rparr>, w))"
| "streamer_called v (OnRtmpStatusEvent delayMs netBand) (s, w) = do {
     (s, w) \<leftarrow> (if auto_adjust_bit s then do { (e, w) \<leftarrow> SetNetDelay v delayMs (v_h264_encoder_of s, w);
                                        Some (s\<lparr>v_h264_encoder_of := e\<rparr>, w) }
               else Some (s, w));
     Some ([OnStreamStatus delayMs netBand], s, w) }"

text \<open>
  A turn of the connection's thread with the callbacks it makes. They touch the encoders and not the
  connection, so that they can be made after the turn.
\<close>

fun callbacks_of ::
  "('w, 'f, 'm) video_env_scheme \<Rightarrow> push_log list \<Rightarrow> 'f rtmp_streamer \<times> 'w \<Rightarrow> ('f stream_log list \<times> 'f rtmp_streamer \<times> 'w) option" where
  "callbacks_of v [] sw = Some ([], sw)"
| "callbacks_of v (Called c # l) sw = do { (l1, sw) \<leftarrow> streamer_called v c sw; (l2, sw) \<leftarrow> callbacks_of v l sw;
     Some (Pushed (Called c) # l1 @ l2, sw) }"
| "callbacks_of v (x # l) sw = do { (l2, sw) \<leftarrow> callbacks_of v l sw; Some (Pushed x # l2, sw) }"

definition streamer_turn ::
  "('w, 'n) push_srs_scheme \<Rightarrow> ('w, 'f, 'm) video_env_scheme \<Rightarrow> 'f rtmp_streamer \<times> 'w \<Rightarrow> ('f stream_log list \<times> 'f rtmp_streamer \<times> 'w) option" where
  "streamer_turn u v sw = (let (s, w) = sw in case av_rtmp s of
       None \<Rightarrow> Some ([], s, w)
     | Some p \<Rightarrow> (let (l, p, w) = push_turn u (p, w) in callbacks_of v l (s\<lparr>av_rtmp := Some p\<rparr>, w)))"

definition streamer_video ::
  "('w, 'f, 'm) video_env_scheme \<Rightarrow> 'f video_act \<Rightarrow> 'f rtmp_streamer \<times> 'w \<Rightarrow> ('f stream_log list \<times> 'f rtmp_streamer \<times> 'w) option" where
  "streamer_video v a sw = (let (s, w) = sw in do {
     (l, e, w) \<leftarrow> video_step v a (v_h264_encoder_of s, w);
     (ls, s) \<leftarrow> encoder_data (came_out l) (s\<lparr>v_h264_encoder_of := e\<rparr>);
     Some (map Filmed l @ ls, s, w) })"

definition streamer_sound ::
  "('w, 'f, 'm) video_env_scheme \<Rightarrow> audio_data \<Rightarrow> 'f rtmp_streamer \<times> 'w \<Rightarrow> ('f stream_log list \<times> 'f rtmp_streamer \<times> 'w) option" where
  "streamer_sound v d sw = (let (s, w) = sw in do {
     (l, e, w) \<leftarrow> a_OnData v d (a_aac_encoder_of s, w);
     (ls, s) \<leftarrow> encoder_data l (s\<lparr>a_aac_encoder_of := e\<rparr>);
     Some (ls, s, w) })"

text \<open>Calls of the application, and what the threads and devices do.\<close>

datatype 'f stream_act = Audio_enable bool | Video_enable bool | Auto_adjust bool | Video_params int int int | Bitrate int
  | Start_stream | Stop_stream | Sound audio_data | Camera "(int \<times> int \<times> 'f) option" | Encoder_turn | Late_image "u8 list" | Push_thread

fun streamer_step ::
  "('w, 'n) push_srs_scheme \<Rightarrow> ('w, 'f, 'm) video_env_scheme \<Rightarrow> 'f stream_act \<Rightarrow> 'f rtmp_streamer \<times> 'w
     \<Rightarrow> ('f stream_log list \<times> 'f rtmp_streamer \<times> 'w) option" where
  "streamer_step u v (Audio_enable b) (s, w) = Some ([], SetAudioEnable b s, w)"
| "streamer_step u v (Video_enable b) (s, w) = Some ([], SetVideoEnable b s, w)"
| "streamer_step u v (Auto_adjust b) (s, w) = Some ([], SetAutoAdjustBit b s, w)"
| "streamer_step u v (Video_params x y b) sw = Some ([], streamer_SetVideoParameter v x y b sw)"
| "streamer_step u v (Bitrate b) sw = Some ([], SetBitrate v b sw)"
| "streamer_step u v Start_stream sw = do { sw \<leftarrow> StartStream u sw; Some ([], sw) }"
| "streamer_step u v Stop_stream sw = Some ([], StopStream u sw)"
| "streamer_step u v (Sound d) sw = streamer_sound v d sw"
| "streamer_step u v (Camera f) sw = streamer_video v (Video_frame f) sw"
| "streamer_step u v Encoder_turn sw = streamer_video v Video_turn sw"
| "streamer_step u v (Late_image b) sw = streamer_video v (Video_image b) sw"
| "streamer_step u v Push_thread sw = streamer_turn u v sw"

abbreviation "streamer_run u v \<equiv> log_run (streamer_step u v)"

section \<open>The logs of the parts\<close>

definition pushed :: "'f stream_log list \<Rightarrow> push_log list" where
  "pushed l = List.map_filter (\<lambda>x. case x of Pushed p \<Rightarrow> Some p | _ \<Rightarrow> None) l"

definition filmed :: "'f stream_log list \<Rightarrow> 'f video_log list" where
  "filmed l = List.map_filter (\<lambda>x. case x of Filmed p \<Rightarrow> Some p | _ \<Rightarrow> None) l"

definition coded_data :: "'f stream_log list \<Rightarrow> encoded_data list" where
  "coded_data l = List.map_filter (\<lambda>x. case x of Coded d \<Rightarrow> Some d | _ \<Rightarrow> None) l"

lemma map_filter_none: "\<forall>x \<in> set l. f x = None \<Longrightarrow> List.map_filter f l = []"
  by (induction l) (auto simp: List.map_filter_simps)

lemma map_filter_all: "List.map_filter f (map g l) = l" if "\<And>x. f (g x) = Some x"
  by (induction l) (simp_all add: List.map_filter_simps that)

lemmas log_parts = pushed_def filmed_def coded_data_def

lemma pushed_simps [simp]:
  "pushed [] = []" "pushed (Pushed p # l) = p # pushed l" "pushed (Coded d # l) = pushed l" "pushed (Filmed x # l) = pushed l"
  "pushed (l @ l') = pushed l @ pushed l'" "pushed (map Pushed ps) = ps" "pushed (map Filmed fs) = []"
  by (simp_all add: pushed_def map_filter_none map_filter_all)

lemma filmed_simps [simp]:
  "filmed [] = []" "filmed (Pushed p # l) = filmed l" "filmed (Coded d # l) = filmed l" "filmed (Filmed x # l) = x # filmed l"
  "filmed (l @ l') = filmed l @ filmed l'" "filmed (map Pushed ps) = []" "filmed (map Filmed fs) = fs"
  by (simp_all add: filmed_def map_filter_none map_filter_all)

lemma coded_data_simps [simp]:
  "coded_data [] = []" "coded_data (Pushed p # l) = coded_data l" "coded_data (Coded d # l) = d # coded_data l"
  "coded_data (Filmed x # l) = coded_data l" "coded_data (l @ l') = coded_data l @ coded_data l'"
  "coded_data (map Pushed ps) = []" "coded_data (map Filmed fs) = []"
  by (simp_all add: coded_data_def map_filter_none map_filter_all)

section \<open>What a step does\<close>

definition streaming :: "'f rtmp_streamer \<Rightarrow> bool" where
  "streaming s \<longleftrightarrow> (case av_rtmp s of None \<Rightarrow> False | Some p \<Rightarrow> published p)"

definition encoders_on :: "bool \<Rightarrow> 'f rtmp_streamer \<Rightarrow> bool" where
  "encoders_on b s \<longleftrightarrow> v_encoded (v_h264_encoder_of s) = b \<and> a_encoded (a_aac_encoder_of s) = b"

text \<open>Data of an encoder changes the connection and nothing else.\<close>

definition same_but_link :: "'f rtmp_streamer \<Rightarrow> 'f rtmp_streamer \<Rightarrow> bool" where
  "same_but_link s s' \<longleftrightarrow> s' = s\<lparr>av_rtmp := av_rtmp s'\<rparr>"

lemma same_but_link_fields:
  "same_but_link s s' \<Longrightarrow> rtmp_connected s' = rtmp_connected s \<and> v_h264_encoder_of s' = v_h264_encoder_of s
     \<and> a_aac_encoder_of s' = a_aac_encoder_of s"
  by (cases s; cases s') (simp add: same_but_link_def)

lemma same_but_link_trans: "same_but_link s s1 \<Longrightarrow> same_but_link s1 s' \<Longrightarrow> same_but_link s s'"
  by (cases s; cases s1; cases s') (simp add: same_but_link_def)

text \<open>The parts that data of an encoder is queued as.\<close>

definition parts_of :: "encoded_data \<Rightarrow> enc_data list" where
  "parts_of d = (case d of
       Encoded_audio b t \<Rightarrow> [\<lparr>enc_data = b, enc_bVideo = False, enc_dts = t, enc_type = AUDIO_DATA\<rparr>]
     | Encoded_video b t \<Rightarrow> map (\<lambda>x. \<lparr>enc_data = x, enc_bVideo = True, enc_dts = t, enc_type = VIDEO_DATA\<rparr>)
         (if b ! 4 AND 0x1f = 7 then [nal_sps b, nal_pps b, nal_idr b] else [b]))"

text \<open>One call of the connection, for what the three parts of the development know of it.\<close>

definition link_step :: "rtmp_push option \<Rightarrow> push_log list \<Rightarrow> rtmp_push option \<Rightarrow> bool" where
  "link_step p l p' \<longleftrightarrow> (case p of None \<Rightarrow> l = [] \<and> p' = None
     | Some q \<Rightarrow> (\<exists>q'. p' = Some q' \<and> published q' = published q \<and> handed l = [] \<and> lst_enc_data q' = lst_enc_data q @ queued l
         \<and> Called OnRtmpConnected \<notin> set l \<and> List.map_filter push_conn l = [] \<and> only_audio_mode q' = only_audio_mode q
         \<and> (gate q \<longrightarrow> gate q')))"

lemma OnEncodeDataCallback_result:
  assumes "OnEncodeDataCallback d s = Some (l, s')"
  shows "same_but_link s s'" "link_step (av_rtmp s) l (av_rtmp s')" "subseq (queued l) (parts_of d)"
proof -
  have "same_but_link s s' \<and> link_step (av_rtmp s) l (av_rtmp s') \<and> subseq (queued l) (parts_of d)"
  proof (cases "av_rtmp s")
    case None
    then show ?thesis using assms by (cases d) (auto simp: OnAACData_def OnH264Data_def same_but_link_def link_step_def)
  next
    case (Some p)
    show ?thesis
    proof (cases d)
      case (Encoded_audio b t)
      obtain l1 p1 where 1: "SetAacData b t p = (l1, p1)" by (cases "SetAacData b t p")
      then have e: "l = l1" "s' = s\<lparr>av_rtmp := Some p1\<rparr>" using assms Some Encoded_audio by (auto simp: OnAACData_def)
      show ?thesis using 1 e Some Encoded_audio SetAacData_link [OF 1] SetAacData_gate [OF 1]
        by (auto simp: same_but_link_def link_step_def published_def same_link_def SetAacData_def enqueue_def parts_of_def split: if_splits)
    next
      case (Encoded_video b t)
      then obtain p1 where 1: "SetH264Data b t p = Some (l, p1)" and e: "s' = s\<lparr>av_rtmp := Some p1\<rparr>"
        using assms Some by (auto simp: OnH264Data_def ub_simps)
      have q: "subseq (queued l) (parts_of d)" "only_audio_mode p1 = only_audio_mode p"
        using 1 Encoded_video by (auto simp: SetH264Data_def ub_simps Let_def GotH264Nal_def enqueue_def parts_of_def split: if_splits)
      show ?thesis using SetH264Data_link [OF 1] SetH264Data_queue [OF 1] SetH264Data_gate [OF 1] q e Some
        by (auto simp: same_but_link_def link_step_def published_def same_link_def)
    qed
  qed
  then show "same_but_link s s'" "link_step (av_rtmp s) l (av_rtmp s')" "subseq (queued l) (parts_of d)" by auto
qed

lemma link_step_trans:
  assumes "link_step p l q" "link_step q l' r"
  shows "link_step p (l @ l') r"
  using assms by (cases p) (auto simp: link_step_def)

lemma link_step_refl: "link_step p [] p"
  by (cases p) (auto simp: link_step_def)

lemma encoder_data_result:
  "encoder_data ds s = Some (l, s') \<Longrightarrow> same_but_link s s' \<and> link_step (av_rtmp s) (pushed l) (av_rtmp s')
     \<and> subseq (queued (pushed l)) (concat (map parts_of ds)) \<and> coded_data l = ds \<and> filmed l = []
     \<and> (\<forall>x \<in> set l. (\<exists>p. x = Pushed p) \<or> (\<exists>d. x = Coded d))"
proof (induction ds arbitrary: s l)
  case Nil
  then show ?case by (simp add: same_but_link_def link_step_refl)
next
  case (Cons d ds)
  then obtain l1 s1 l2 where 1: "OnEncodeDataCallback d s = Some (l1, s1)" and 2: "encoder_data ds s1 = Some (l2, s')"
    and l: "l = Coded d # map Pushed l1 @ l2" by (auto simp: ub_simps)
  note r1 = OnEncodeDataCallback_result [OF 1]
  note r2 = Cons.IH [OF 2]
  have "same_but_link s s'" using r1(1) r2 by (blast intro: same_but_link_trans)
  then show ?case using link_step_trans [OF r1(2)] r1(3) r2 by (auto simp: l intro!: list_emb_append_mono)
qed

text \<open>The callbacks about the connection switch the encoders.\<close>

lemma SetNetDelay_encoder:
  assumes "SetNetDelay v d (s, w) = Some (s', w')"
  shows "v_encoded s' = v_encoded s" "v_need_keyframe s' = v_need_keyframe s" "render_buffers s' = render_buffers s"
  using SetNetDelay_same [OF assms] by simp_all

lemma streamer_called_result:
  assumes "streamer_called v c (s, w) = Some (l, s', w')" "encoders_on b s" "\<not> rtmp_connected s"
  shows "av_rtmp s' = av_rtmp s" "\<not> rtmp_connected s'" "pushed l = []" "filmed l = []" "coded_data l = []" "OnStreamClosed \<notin> set l"
    "encoders_on (case push_conn (Called c) of None \<Rightarrow> b | Some e \<Rightarrow> e = Up) s'"
    "OnStreamOk \<in> set l \<longleftrightarrow> c = OnRtmpConnected"
    "v_need_keyframe (v_h264_encoder_of s') \<longleftrightarrow> c = OnRtmpConnected \<or> v_need_keyframe (v_h264_encoder_of s)"
    "render_buffers (v_h264_encoder_of s') = render_buffers (v_h264_encoder_of s)"
  using assms SetNetDelay_encoder
  by (cases c; fastforce simp: StartEncoder_def StopEncoder_def v_StartEncoder_def v_StopEncoder_def a_StartEncoder_def a_StopEncoder_def
      encoders_on_def Let_def ub_simps log_parts List.map_filter_simps split: if_splits)+

definition last_up :: "bool \<Rightarrow> conn_event list \<Rightarrow> bool" where
  "last_up b es = foldl (\<lambda>_ e. e = Up) b es"

lemma last_up_simps [simp]: "last_up b [] = b" "last_up b (e # es) = last_up (e = Up) es"
  by (simp_all add: last_up_def)

lemma callbacks_of_result:
  "callbacks_of v l (s, w) = Some (ls, s', w') \<Longrightarrow> encoders_on b s \<Longrightarrow> \<not> rtmp_connected s \<Longrightarrow>
     av_rtmp s' = av_rtmp s \<and> \<not> rtmp_connected s' \<and> pushed ls = l \<and> filmed ls = [] \<and> coded_data ls = [] \<and> OnStreamClosed \<notin> set ls
     \<and> encoders_on (last_up b (List.map_filter push_conn l)) s' \<and> (OnStreamOk \<in> set ls \<longleftrightarrow> Called OnRtmpConnected \<in> set l)
     \<and> (v_need_keyframe (v_h264_encoder_of s') \<longleftrightarrow> Called OnRtmpConnected \<in> set l \<or> v_need_keyframe (v_h264_encoder_of s))
     \<and> render_buffers (v_h264_encoder_of s') = render_buffers (v_h264_encoder_of s)"
proof (induction l arbitrary: s w ls b)
  case Nil
  then show ?case by (simp add: List.map_filter_simps)
next
  case (Cons x l)
  show ?case
  proof (cases x)
    case (Called c)
    then obtain l1 s1 w1 l2 where 1: "streamer_called v c (s, w) = Some (l1, s1, w1)" and 2: "callbacks_of v l (s1, w1) = Some (l2, s', w')"
      and ls: "ls = Pushed x # l1 @ l2" using Cons.prems(1) by (auto simp: ub_simps)
    note r1 = streamer_called_result [OF 1 Cons.prems(2,3)]
    show ?thesis using Cons.IH [OF 2 r1(7,2)] r1
      by (cases "push_conn (Called c)") (auto simp: ls Called List.map_filter_simps)
  next
    case (Queued d)
    then obtain l2 where "callbacks_of v l (s, w) = Some (l2, s', w')" "ls = Pushed x # l2" using Cons.prems(1) by (auto simp: ub_simps)
    then show ?thesis using Cons.IH [OF _ Cons.prems(2,3)] Queued by (simp add: List.map_filter_simps)
  next
    case (Written d r)
    then obtain l2 where "callbacks_of v l (s, w) = Some (l2, s', w')" "ls = Pushed x # l2" using Cons.prems(1) by (auto simp: ub_simps)
    then show ?thesis using Cons.IH [OF _ Cons.prems(2,3)] Written by (simp add: List.map_filter_simps)
  qed
qed

definition streamer_inv :: "'f rtmp_streamer \<Rightarrow> bool" where
  "streamer_inv s \<longleftrightarrow> encoders_on (streaming s) s \<and> \<not> rtmp_connected s"

lemma link_step_streaming: "link_step (av_rtmp s) l (av_rtmp s') \<Longrightarrow> streaming s' = streaming s"
  by (auto simp: link_step_def streaming_def split: option.splits)

lemma video_step_encoded:
  assumes "video_step v a (s, w) = Some (l, s', w')" "a = Video_frame f \<or> a = Video_turn \<or> a = Video_image b"
  shows "v_encoded s' = v_encoded s"
  using assms v_OnFrame_result(4) [of v f s w l s' w'] v_turn_result [of v s w l s' w'] by (auto split: prod.splits)

text \<open>Video and sound: what the encoders give goes to the connection, and nothing else changes.\<close>

lemma streamer_video_result:
  assumes "streamer_video v a (s, w) = Some (l, s', w')" "a = Video_frame f \<or> a = Video_turn \<or> a = Video_image b"
  obtains lv e where "video_step v a (v_h264_encoder_of s, w) = Some (lv, e, w')"
    "v_h264_encoder_of s' = e" "v_encoded e = v_encoded (v_h264_encoder_of s)" "a_aac_encoder_of s' = a_aac_encoder_of s"
    "rtmp_connected s' = rtmp_connected s" "link_step (av_rtmp s) (pushed l) (av_rtmp s')" "filmed l = lv" "coded_data l = came_out lv"
    "subseq (queued (pushed l)) (concat (map parts_of (coded_data l)))" "OnStreamOk \<notin> set l" "OnStreamClosed \<notin> set l"
proof -
  obtain lv e ls where 1: "video_step v a (v_h264_encoder_of s, w) = Some (lv, e, w')"
    and 2: "encoder_data (came_out lv) (s\<lparr>v_h264_encoder_of := e\<rparr>) = Some (ls, s')" and l: "l = map Filmed lv @ ls"
    using assms(1) by (auto simp: streamer_video_def ub_simps)
  note r = encoder_data_result [OF 2]
  have s': "v_h264_encoder_of s' = e" "a_aac_encoder_of s' = a_aac_encoder_of s" "rtmp_connected s' = rtmp_connected s"
    using same_but_link_fields [OF conjunct1 [OF r]] by simp_all
  show thesis
    by (rule that [OF 1 s'(1) video_step_encoded [OF 1 assms(2)] s'(2,3)]) (use r in \<open>auto simp: l\<close>)
qed

lemma streamer_sound_result:
  assumes "streamer_sound v d (s, w) = Some (l, s', w')"
  shows "v_h264_encoder_of s' = v_h264_encoder_of s" "a_encoded (a_aac_encoder_of s') = a_encoded (a_aac_encoder_of s)"
    "rtmp_connected s' = rtmp_connected s" "link_step (av_rtmp s) (pushed l) (av_rtmp s')" "filmed l = []"
    "subseq (queued (pushed l)) (concat (map parts_of (coded_data l)))" "OnStreamOk \<notin> set l" "OnStreamClosed \<notin> set l"
proof -
  obtain lv e where 1: "a_OnData v d (a_aac_encoder_of s, w) = Some (lv, e, w')"
    and 2: "encoder_data lv (s\<lparr>a_aac_encoder_of := e\<rparr>) = Some (l, s')"
    using assms by (auto simp: streamer_sound_def ub_simps)
  note r = encoder_data_result [OF 2]
  have s': "v_h264_encoder_of s' = v_h264_encoder_of s" "a_aac_encoder_of s' = e" "rtmp_connected s' = rtmp_connected s"
    using same_but_link_fields [OF conjunct1 [OF r]] by simp_all
  then show "v_h264_encoder_of s' = v_h264_encoder_of s" "a_encoded (a_aac_encoder_of s') = a_encoded (a_aac_encoder_of s)"
    "rtmp_connected s' = rtmp_connected s" "link_step (av_rtmp s) (pushed l) (av_rtmp s')" "filmed l = []"
    "subseq (queued (pushed l)) (concat (map parts_of (coded_data l)))" "OnStreamOk \<notin> set l" "OnStreamClosed \<notin> set l"
    using r a_OnData_same [OF 1] by auto
qed

lemma streamer_turn_result:
  assumes "streamer_turn u v (s, w) = Some (l, s', w')" "streamer_inv s"
  shows "streamer_inv s' \<and> filmed l = [] \<and> coded_data l = [] \<and> OnStreamClosed \<notin> set l
    \<and> (OnStreamOk \<in> set l \<longleftrightarrow> Called OnRtmpConnected \<in> set (pushed l))
    \<and> (v_need_keyframe (v_h264_encoder_of s') \<longleftrightarrow> OnStreamOk \<in> set l \<or> v_need_keyframe (v_h264_encoder_of s))
    \<and> render_buffers (v_h264_encoder_of s') = render_buffers (v_h264_encoder_of s)
    \<and> (case av_rtmp s of None \<Rightarrow> pushed l = [] \<and> av_rtmp s' = None
       | Some p \<Rightarrow> \<exists>p' w1. push_turn u (p, w) = (pushed l, p', w1) \<and> av_rtmp s' = Some p')"
proof (cases "av_rtmp s")
  case None
  then show ?thesis using assms by (simp add: streamer_turn_def)
next
  case (Some p)
  obtain lp p' w1 where 1: "push_turn u (p, w) = (lp, p', w1)" by (cases "push_turn u (p, w)")
  have 2: "callbacks_of v lp (s\<lparr>av_rtmp := Some p'\<rparr>, w1) = Some (l, s', w')" using assms(1) Some 1 by (simp add: streamer_turn_def)
  have on: "encoders_on (published p) (s\<lparr>av_rtmp := Some p'\<rparr>)" "\<not> rtmp_connected (s\<lparr>av_rtmp := Some p'\<rparr>)"
    using assms(2) Some by (simp_all add: streamer_inv_def streaming_def encoders_on_def)
  note r = callbacks_of_result [OF 2 on]
  have "last_up (published p) (List.map_filter push_conn lp) = published p'"
    using 1 by (cases rule: push_turn_published) auto
  then show ?thesis using r 1 Some by (auto simp: streamer_inv_def streaming_def)
qed

lemma formats_same:
  assumes "SetAudioParameter r b c p = Some q"
  shows "published (SetVideoParameter x y d f q) = published p" "lst_enc_data (SetVideoParameter x y d f q) = lst_enc_data p"
    "only_audio_mode (SetVideoParameter x y d f q) = only_audio_mode p" "gate (SetVideoParameter x y d f q) = gate p"
  using assms by (auto simp: SetAudioParameter_def SetVideoParameter_def ub_simps published_def gate_def)

lemma StartStream_result:
  assumes "StartStream u (s, w) = Some (s', w')"
  shows "\<exists>p. av_rtmp s' = Some p \<and> same_but_link s s' \<and> (let q = (case av_rtmp s of None \<Rightarrow> new_rtmp_push | Some q \<Rightarrow> q)
     in published p = published q \<and> lst_enc_data p = lst_enc_data q \<and> only_audio_mode p = only_audio_mode q \<and> gate p = gate q)"
proof -
  obtain q w1 where q: "(case av_rtmp s of None \<Rightarrow> (new_rtmp_push, srs_rtmp_create u w) | Some p \<Rightarrow> (p, w)) = (q, w1)"
    using prod.exhaust by blast
  then have "q = (case av_rtmp s of None \<Rightarrow> new_rtmp_push | Some q \<Rightarrow> q)" by (auto split: option.splits)
  moreover obtain p where "SetAudioParameter (str_sample_hz s) 16 (str_channels s) q = Some p"
    "s' = s\<lparr>av_rtmp := Some (SetVideoParameter (str_width s) (str_height s) (str_bitrate s) (str_framerate s) p)\<rparr>"
    using assms by (auto simp: StartStream_def q ub_simps)
  ultimately show ?thesis using formats_same [of "str_sample_hz s" 16 "str_channels s" q p] by (simp add: same_but_link_def)
qed

lemma fresh_push: "\<not> published new_rtmp_push" "lst_enc_data new_rtmp_push = []" "\<not> only_audio_mode new_rtmp_push" "gate new_rtmp_push"
  by (simp_all add: published_def new_rtmp_push_def gate_def)

text \<open>The calls that set something.\<close>

definition is_setting :: "'f stream_act \<Rightarrow> bool" where
  "is_setting a \<longleftrightarrow> (case a of Audio_enable _ \<Rightarrow> True | Video_enable _ \<Rightarrow> True | Auto_adjust _ \<Rightarrow> True | Video_params _ _ _ \<Rightarrow> True
     | Bitrate _ \<Rightarrow> True | _ \<Rightarrow> False)"

lemma streamer_setting_result:
  assumes "streamer_step u v a (s, w) = Some (l, s', w')" "is_setting a"
  shows "l = []" "rtmp_connected s' = rtmp_connected s" "v_encoded (v_h264_encoder_of s') = v_encoded (v_h264_encoder_of s)"
    "a_encoded (a_aac_encoder_of s') = a_encoded (a_aac_encoder_of s)"
    "v_need_keyframe (v_h264_encoder_of s') = v_need_keyframe (v_h264_encoder_of s)" "render_buffers (v_h264_encoder_of s') = render_buffers (v_h264_encoder_of s)"
    "av_rtmp s' = (if a = Video_enable False then map_option EnableOnlyAudioMode (av_rtmp s) else av_rtmp s)"
proof -
  have "l = [] \<and> rtmp_connected s' = rtmp_connected s \<and> v_encoded (v_h264_encoder_of s') = v_encoded (v_h264_encoder_of s)
    \<and> a_encoded (a_aac_encoder_of s') = a_encoded (a_aac_encoder_of s)
    \<and> v_need_keyframe (v_h264_encoder_of s') = v_need_keyframe (v_h264_encoder_of s) \<and> render_buffers (v_h264_encoder_of s') = render_buffers (v_h264_encoder_of s)
    \<and> av_rtmp s' = (if a = Video_enable False then map_option EnableOnlyAudioMode (av_rtmp s) else av_rtmp s)"
  proof (cases a)
    case (Audio_enable b)
    then show ?thesis using assms by (auto simp: SetAudioEnable_def a_Muted_def)
  next
    case (Video_enable b)
    then show ?thesis using assms by (auto simp: SetVideoEnable_def)
  next
    case (Auto_adjust b)
    then show ?thesis using assms by (cases b) (auto simp: SetAutoAdjustBit_def v_SetAutoAdjustBit_def)
  next
    case (Video_params x y b)
    then show ?thesis using assms by (auto simp: streamer_SetVideoParameter_def v_SetRates_def Let_def)
  next
    case (Bitrate b)
    then show ?thesis using assms by (auto simp: SetBitrate_def v_SetRates_def Let_def)
  qed (use assms(2) in \<open>simp_all add: is_setting_def\<close>)
  then show "l = []" "rtmp_connected s' = rtmp_connected s" "v_encoded (v_h264_encoder_of s') = v_encoded (v_h264_encoder_of s)"
    "a_encoded (a_aac_encoder_of s') = a_encoded (a_aac_encoder_of s)"
    "v_need_keyframe (v_h264_encoder_of s') = v_need_keyframe (v_h264_encoder_of s)" "render_buffers (v_h264_encoder_of s') = render_buffers (v_h264_encoder_of s)"
    "av_rtmp s' = (if a = Video_enable False then map_option EnableOnlyAudioMode (av_rtmp s) else av_rtmp s)" by auto
qed

lemma only_audio_keeps:
  "published (EnableOnlyAudioMode p) = published p" "lst_enc_data (EnableOnlyAudioMode p) = lst_enc_data p"
  by (simp_all add: EnableOnlyAudioMode_def published_def)


lemma streamer_step_inv:
  assumes "streamer_step u v a (s, w) = Some (l, s', w')" "streamer_inv s"
  shows "streamer_inv s' \<and> OnStreamClosed \<notin> set l"
proof (cases a)
  case (Sound d)
  then have "streamer_sound v d (s, w) = Some (l, s', w')" using assms(1) by simp
  from streamer_sound_result [OF this] link_step_streaming show ?thesis
    using assms(2) by (auto simp: streamer_inv_def encoders_on_def)
next
  case (Camera f)
  then have "streamer_video v (Video_frame f) (s, w) = Some (l, s', w')" using assms(1) by simp
  then show ?thesis by (rule streamer_video_result [where f = f])
    (use assms(2) link_step_streaming in \<open>auto simp: streamer_inv_def encoders_on_def\<close>)
next
  case Encoder_turn
  then have "streamer_video v Video_turn (s, w) = Some (l, s', w')" using assms(1) by simp
  then show ?thesis by (rule streamer_video_result)
    (use assms(2) link_step_streaming in \<open>auto simp: streamer_inv_def encoders_on_def\<close>)
next
  case (Late_image b)
  then have "streamer_video v (Video_image b) (s, w) = Some (l, s', w')" using assms(1) by simp
  then show ?thesis by (rule streamer_video_result [where b = b])
    (use assms(2) link_step_streaming in \<open>auto simp: streamer_inv_def encoders_on_def\<close>)
next
  case Push_thread
  then show ?thesis using assms streamer_turn_result [of u v s w l s' w'] by simp
next
  case Start_stream
  then have "StartStream u (s, w) = Some (s', w')" "l = []" using assms(1) by (auto simp: ub_simps)
  with StartStream_result [OF this(1)] show ?thesis using assms(2) same_but_link_fields [of s s']
    by (cases "av_rtmp s") (auto simp: streamer_inv_def encoders_on_def streaming_def fresh_push Let_def)
next
  case Stop_stream
  then show ?thesis using assms
    by (auto simp: streamer_inv_def encoders_on_def streaming_def StopStream_def StopEncoder_def v_StopEncoder_def a_StopEncoder_def Let_def)
qed (use assms streamer_setting_result [OF assms(1)] in \<open>auto simp: is_setting_def streamer_inv_def encoders_on_def streaming_def
  only_audio_keeps split: option.splits if_splits\<close>)

lemma new_streamer_inv: "streamer_inv (new_rtmp_streamer samples fresh factory)"
  by (simp add: streamer_inv_def new_rtmp_streamer_def encoders_on_def streaming_def a_Muted_def a_Init_def new_a_aac_encoder_def
    v_SetParameter_def v_Init_def new_v_h264_encoder_def)

lemma streamer_run_inv:
  assumes "streamer_run u v acts (s, w) = Some (log, s', w')" "streamer_inv s"
  shows "streamer_inv s' \<and> OnStreamClosed \<notin> set log"
proof -
  have "streamer_inv s' \<and> OnStreamClosed \<notin> set ([] @ log)"
  proof (rule log_run_invariant [where ok = "\<lambda>_. True", OF _ assms(1)])
    show "streamer_inv y \<and> OnStreamClosed \<notin> set (log @ es)"
      if "streamer_inv x \<and> OnStreamClosed \<notin> set log" "streamer_step u v a (x, w) = Some (es, y, w')" for a log x w es y w'
      using streamer_step_inv [OF that(2)] that(1) by simp
  qed (use assms(2) in simp_all)
  then show ?thesis by simp
qed

text \<open>
  C13. Whatever the application, the devices, the threads and the server do: the encoders of sound and of
  video are switched on exactly while the stream is published.
\<close>
theorem encoders_follow_connection:
  assumes "streamer_run u v acts (new_rtmp_streamer samples fresh factory, w) = Some (log, s', w')"
  shows "(v_encoded (v_h264_encoder_of s') \<longleftrightarrow> streaming s') \<and> (a_encoded (a_aac_encoder_of s') \<longleftrightarrow> streaming s')"
  using streamer_run_inv [OF assms new_streamer_inv] by (simp add: streamer_inv_def encoders_on_def)

text \<open>
  A lost stream is never reported as closed: the flag that would say that it was connected is never
  set, and the application is told that it failed.
\<close>
theorem never_closed:
  assumes "streamer_run u v acts (new_rtmp_streamer samples fresh factory, w) = Some (log, s', w')"
  shows "OnStreamClosed \<notin> set log"
  using streamer_run_inv [OF assms new_streamer_inv] by simp

section \<open>From the encoders to the server\<close>

definition waits :: "'f rtmp_streamer \<Rightarrow> enc_data list" where
  "waits s = (case av_rtmp s of None \<Rightarrow> [] | Some p \<Rightarrow> lst_enc_data p)"

lemma link_step_waits: "link_step (av_rtmp s) l (av_rtmp s') \<Longrightarrow> handed l = [] \<and> waits s' = waits s @ queued l"
  by (auto simp: link_step_def waits_def split: option.splits)

definition order_step :: "'f rtmp_streamer \<Rightarrow> 'f stream_log list \<Rightarrow> 'f rtmp_streamer \<Rightarrow> bool" where
  "order_step s l s' \<longleftrightarrow> subseq (handed (pushed l) @ waits s') (waits s @ queued (pushed l))
     \<and> subseq (queued (pushed l)) (concat (map parts_of (coded_data l)))"

lemma order_step_call: "subseq (waits s') (waits s) \<Longrightarrow> order_step s [] s'"
  by (simp add: order_step_def)

lemma streamer_step_order:
  assumes "streamer_step u v a (s, w) = Some (l, s', w')" "streamer_inv s"
  shows "order_step s l s'"
proof (cases a)
  case (Sound d)
  then have "streamer_sound v d (s, w) = Some (l, s', w')" using assms(1) by simp
  from streamer_sound_result(4,6) [OF this] show ?thesis using link_step_waits [of s "pushed l" s'] by (simp add: order_step_def)
next
  case (Camera f)
  then have "streamer_video v (Video_frame f) (s, w) = Some (l, s', w')" using assms(1) by simp
  then show ?thesis by (rule streamer_video_result [where f = f]) (use link_step_waits [of s "pushed l" s'] in \<open>simp_all add: order_step_def\<close>)
next
  case Encoder_turn
  then have "streamer_video v Video_turn (s, w) = Some (l, s', w')" using assms(1) by simp
  then show ?thesis by (rule streamer_video_result) (use link_step_waits [of s "pushed l" s'] in \<open>simp_all add: order_step_def\<close>)
next
  case (Late_image b)
  then have "streamer_video v (Video_image b) (s, w) = Some (l, s', w')" using assms(1) by simp
  then show ?thesis by (rule streamer_video_result [where b = b]) (use link_step_waits [of s "pushed l" s'] in \<open>simp_all add: order_step_def\<close>)
next
  case Push_thread
  then have r: "coded_data l = []" "case av_rtmp s of None \<Rightarrow> pushed l = [] \<and> av_rtmp s' = None
       | Some p \<Rightarrow> \<exists>p' w1. push_turn u (p, w) = (pushed l, p', w1) \<and> av_rtmp s' = Some p'"
    using streamer_turn_result [of u v s w l s' w'] assms by simp_all
  show ?thesis
  proof (cases "av_rtmp s")
    case None
    then show ?thesis using r by (simp add: order_step_def waits_def)
  next
    case (Some p)
    then obtain p' w1 where t: "push_turn u (p, w) = (pushed l, p', w1)" "av_rtmp s' = Some p'" using r(2) by auto
    from push_turn_queue [OF t(1)] show ?thesis using Some t(2) r(1) by (auto simp: order_step_def waits_def)
  qed
next
  case Start_stream
  then have "StartStream u (s, w) = Some (s', w')" "l = []" using assms(1) by (auto simp: ub_simps)
  with StartStream_result [OF this(1)] show ?thesis
    by (cases "av_rtmp s") (auto simp: order_step_def waits_def fresh_push Let_def)
next
  case Stop_stream
  then show ?thesis using assms by (auto simp: StopStream_def StopEncoder_def waits_def Let_def intro!: order_step_call)
qed (use streamer_setting_result [OF assms(1)] in \<open>auto simp: is_setting_def waits_def only_audio_keeps intro!: order_step_call
  split: option.splits if_splits\<close>)

lemma order_kept:
  assumes "subseq (handed (pushed log) @ waits s) (concat (map parts_of (coded_data log)))" "order_step s l s'"
  shows "subseq (handed (pushed (log @ l)) @ waits s') (concat (map parts_of (coded_data (log @ l))))"
proof -
  have o: "subseq (handed (pushed l) @ waits s') (waits s @ queued (pushed l))"
    "subseq (queued (pushed l)) (concat (map parts_of (coded_data l)))" using assms(2) by (simp_all add: order_step_def)
  have "subseq (handed (pushed log) @ handed (pushed l) @ waits s') ((handed (pushed log) @ waits s) @ queued (pushed l))"
    using list_emb_append_mono [OF subseq_order.order_refl o(1)] by simp
  moreover have "subseq ((handed (pushed log) @ waits s) @ queued (pushed l))
      (concat (map parts_of (coded_data log)) @ concat (map parts_of (coded_data l)))"
    using assms(1) o(2) by (blast intro: list_emb_append_mono)
  ultimately show ?thesis by (simp add: subseq_order.order_trans)
qed

lemma handed_in_order:
  "subseq (handed (pushed log) @ waits s) ys \<Longrightarrow> subseq (handed (pushed log)) ys"
  by (rule subseq_order.order_trans [OF subseq_rev_drop_many [OF subseq_order.order_refl]])

text \<open>
  Through all connections, stops and restarts: what is handed to the server is taken, in order and
  each part once, from what the encoders gave, key frames in their three parts.
\<close>
theorem streamed_in_order:
  assumes "streamer_run u v acts (new_rtmp_streamer samples fresh factory, w) = Some (log, s', w')"
  shows "subseq (handed (pushed log)) (concat (map parts_of (coded_data log)))"
proof -
  let ?I = "\<lambda>log s. streamer_inv s \<and> subseq (handed (pushed log) @ waits s) (concat (map parts_of (coded_data log)))"
  have "?I ([] @ log) s'"
  proof (rule log_run_invariant [where ok = "\<lambda>_. True", OF _ assms])
    show "?I (log @ es) y" if i: "?I log x" and st: "streamer_step u v a (x, w) = Some (es, y, w')" for a log x w es y w'
    proof
      show "streamer_inv y" using streamer_step_inv [OF st] i by blast
      show "subseq (handed (pushed (log @ es)) @ waits y) (concat (map parts_of (coded_data (log @ es))))"
        using order_kept [OF _ streamer_step_order [OF st]] i by blast
    qed
  qed (simp_all add: new_streamer_inv, simp add: waits_def new_rtmp_streamer_def)
  then have "subseq (handed (pushed log) @ waits s') (concat (map parts_of (coded_data log)))" by simp
  then show ?thesis by (rule handed_in_order)
qed

section \<open>Key frames\<close>

text \<open>
  What a step does to the gate of the connection; \<open>since_connect\<close> looks at the log since the last
  connection.
\<close>

definition closed_gate :: "'f rtmp_streamer \<Rightarrow> bool" where
  "closed_gate s \<longleftrightarrow> (case av_rtmp s of None \<Rightarrow> True | Some p \<Rightarrow> gate p)"

definition sends_video :: "'f rtmp_streamer \<Rightarrow> bool" where
  "sends_video s \<longleftrightarrow> (case av_rtmp s of None \<Rightarrow> True | Some p \<Rightarrow> \<not> only_audio_mode p)"

definition gate_step :: "'f rtmp_streamer \<Rightarrow> 'f stream_log list \<Rightarrow> 'f rtmp_streamer \<Rightarrow> bool" where
  "gate_step s l s' \<longleftrightarrow> sends_video s'
     \<and> (Called OnRtmpConnected \<in> set (pushed l) \<longrightarrow> handed (since_connect (pushed l)) = [] \<and> closed_gate s')
     \<and> (Called OnRtmpConnected \<notin> set (pushed l) \<longrightarrow> closed_gate s \<longrightarrow>
         (if handed (pushed l) = [] then closed_gate s' else key_start (hd (handed (pushed l)))))"

lemma link_step_gate: "link_step (av_rtmp s) (pushed l) (av_rtmp s') \<Longrightarrow> sends_video s \<Longrightarrow> gate_step s l s'"
  by (auto simp: link_step_def gate_step_def closed_gate_def sends_video_def split: option.splits)

lemma gate_step_call: "sends_video s' \<Longrightarrow> (closed_gate s \<Longrightarrow> closed_gate s') \<Longrightarrow> gate_step s [] s'"
  by (simp add: gate_step_def)

lemma streamer_step_gate:
  assumes "streamer_step u v a (s, w) = Some (l, s', w')" "streamer_inv s" "sends_video s" "a \<noteq> Video_enable False"
  shows "gate_step s l s'"
proof (cases a)
  case (Sound d)
  then have "streamer_sound v d (s, w) = Some (l, s', w')" using assms(1) by simp
  from streamer_sound_result(4) [OF this] show ?thesis using link_step_gate assms(3) by blast
next
  case (Camera f)
  then have "streamer_video v (Video_frame f) (s, w) = Some (l, s', w')" using assms(1) by simp
  then show ?thesis by (rule streamer_video_result [where f = f]) (use link_step_gate assms(3) in blast)+
next
  case Encoder_turn
  then have "streamer_video v Video_turn (s, w) = Some (l, s', w')" using assms(1) by simp
  then show ?thesis by (rule streamer_video_result) (use link_step_gate assms(3) in blast)+
next
  case (Late_image b)
  then have "streamer_video v (Video_image b) (s, w) = Some (l, s', w')" using assms(1) by simp
  then show ?thesis by (rule streamer_video_result [where b = b]) (use link_step_gate assms(3) in blast)+
next
  case Push_thread
  then have r: "case av_rtmp s of None \<Rightarrow> pushed l = [] \<and> av_rtmp s' = None
       | Some p \<Rightarrow> \<exists>p' w1. push_turn u (p, w) = (pushed l, p', w1) \<and> av_rtmp s' = Some p'"
    using streamer_turn_result [of u v s w l s' w'] assms by simp
  show ?thesis
  proof (cases "av_rtmp s")
    case None
    then show ?thesis using r by (simp add: gate_step_def sends_video_def closed_gate_def)
  next
    case (Some p)
    then obtain p' w1 where t: "push_step u Push_turn (p, w) = Some (pushed l, p', w1)" "av_rtmp s' = Some p'" using r by auto
    have o: "\<not> only_audio_mode p" using assms(3) Some by (simp add: sends_video_def)
    then have o': "\<not> only_audio_mode p'" using push_step_only_audio [OF t(1)] by simp
    show ?thesis
    proof (cases "Called OnRtmpConnected \<in> set (pushed l)")
      case True
      from push_step_connected [OF t(1) True o] show ?thesis
        using t(2) o' by (simp add: gate_step_def sends_video_def closed_gate_def since_last_def)
    next
      case False
      then show ?thesis using push_step_gate [OF t(1)] push_step_first [OF t(1)] o' Some t(2)
        by (simp add: gate_step_def sends_video_def closed_gate_def)
    qed
  qed
next
  case Start_stream
  then have "StartStream u (s, w) = Some (s', w')" "l = []" using assms(1) by (auto simp: ub_simps)
  with StartStream_result [OF this(1)] assms(3) show ?thesis
    by (cases "av_rtmp s") (auto simp: sends_video_def closed_gate_def fresh_push Let_def intro!: gate_step_call)
next
  case Stop_stream
  then show ?thesis using assms by (auto simp: StopStream_def StopEncoder_def sends_video_def closed_gate_def Let_def intro!: gate_step_call)
qed (use assms(3,4) streamer_setting_result [OF assms(1)] in \<open>auto simp: is_setting_def sends_video_def closed_gate_def
  intro!: gate_step_call split: if_splits\<close>)

text \<open>What a step does to the request for a key frame.\<close>

definition since_ok :: "'f stream_log list \<Rightarrow> ('f video_frame \<times> bool) list" where
  "since_ok log = given (filmed (since_last OnStreamOk log))"

definition key_step :: "'f rtmp_streamer \<Rightarrow> 'f stream_log list \<Rightarrow> 'f rtmp_streamer \<Rightarrow> bool" where
  "key_step s l s' \<longleftrightarrow> (let need = v_need_keyframe (v_h264_encoder_of s); need' = v_need_keyframe (v_h264_encoder_of s') in
     if OnStreamOk \<in> set l then need' \<and> filmed l = []
     else if given (filmed l) = [] then need' = need else \<exists>f. given (filmed l) = [(f, need)])"

lemma streamer_video_key:
  assumes "streamer_video v a (s, w) = Some (l, s', w')" "a = Video_frame f \<or> a = Video_turn \<or> a = Video_image b"
  shows "key_step s l s'"
  using assms
proof (rule streamer_video_result)
  fix lv e
  assume 1: "video_step v a (v_h264_encoder_of s, w) = Some (lv, e, w')" and s': "v_h264_encoder_of s' = e" "filmed l = lv" "OnStreamOk \<notin> set l"
  from 1 show ?thesis
  proof (rule video_step_result)
    fix due
    assume "given lv = [] \<longrightarrow> a \<noteq> Video_start \<longrightarrow> a \<noteq> Video_key \<longrightarrow> v_need_keyframe e = v_need_keyframe (v_h264_encoder_of s)"
      "given lv \<noteq> [] \<longrightarrow> map snd (given lv) = [v_need_keyframe (v_h264_encoder_of s)] \<and> \<not> v_need_keyframe e"
    then show ?thesis using s' assms(2) by (auto simp: key_step_def Let_def)
  qed
qed

lemma streamer_step_key:
  assumes "streamer_step u v a (s, w) = Some (l, s', w')" "streamer_inv s"
  shows "key_step s l s'"
proof (cases a)
  case (Sound d)
  then have "streamer_sound v d (s, w) = Some (l, s', w')" using assms(1) by simp
  from streamer_sound_result(1,5,7) [OF this] show ?thesis by (simp add: key_step_def)
next
  case (Camera f)
  then show ?thesis using assms(1) streamer_video_key [of v "Video_frame f" s w l s' w' f "[]"] by simp
next
  case Encoder_turn
  then show ?thesis using assms(1) streamer_video_key [of v Video_turn s w l s' w' None "[]"] by simp
next
  case (Late_image b)
  then show ?thesis using assms(1) streamer_video_key [of v "Video_image b" s w l s' w' None b] by simp
next
  case Push_thread
  then show ?thesis using streamer_turn_result [of u v s w l s' w'] assms by (simp add: key_step_def)
next
  case Start_stream
  then have "StartStream u (s, w) = Some (s', w')" "l = []" using assms(1) by (auto simp: ub_simps)
  with StartStream_result [OF this(1)] show ?thesis using same_but_link_fields [of s s'] by (auto simp: key_step_def)
next
  case Stop_stream
  then show ?thesis using assms by (auto simp: key_step_def StopStream_def StopEncoder_def v_StopEncoder_def Let_def)
qed (use streamer_setting_result [OF assms(1)] in \<open>auto simp: is_setting_def key_step_def\<close>)

text \<open>
  C12. Unless the video is switched off, after every connection the first frame that is encoded is asked for
  as a key frame, and the first data that goes to the server is the start of a key frame.
\<close>
theorem stream_starts_with_key_frame:
  assumes "streamer_run u v acts (new_rtmp_streamer samples fresh factory, w) = Some (log, s', w')" "Video_enable False \<notin> set acts"
  shows "(since_ok log \<noteq> [] \<longrightarrow> snd (hd (since_ok log)))
    \<and> (handed (since_connect (pushed log)) \<noteq> [] \<longrightarrow> key_start (hd (handed (since_connect (pushed log)))))"
proof -
  let ?I = "\<lambda>log s. streamer_inv s \<and> sends_video s
      \<and> (if handed (since_connect (pushed log)) = [] then closed_gate s else key_start (hd (handed (since_connect (pushed log)))))
      \<and> (if since_ok log = [] then v_need_keyframe (v_h264_encoder_of s) else snd (hd (since_ok log)))"
  have "?I ([] @ log) s'"
  proof (rule log_run_invariant [where ok = "\<lambda>a. a \<noteq> Video_enable False", OF _ assms(1)])
    show "?I (log @ es) y" if i: "?I log x" and ok: "a \<noteq> Video_enable False" and st: "streamer_step u v a (x, w) = Some (es, y, w')"
      for a log x w es y w'
    proof -
      have g: "gate_step x es y" and k: "key_step x es y" and n: "streamer_inv y"
        using streamer_step_gate [OF st _ _ ok] streamer_step_key [OF st] streamer_step_inv [OF st] i by blast+
      have "sends_video y" using g by (simp add: gate_step_def)
      moreover have "if handed (since_connect (pushed (log @ es))) = [] then closed_gate y
          else key_start (hd (handed (since_connect (pushed (log @ es)))))"
        using g i by (auto simp: gate_step_def since_last_append split: if_splits)
      moreover have "if since_ok (log @ es) = [] then v_need_keyframe (v_h264_encoder_of y) else snd (hd (since_ok (log @ es)))"
      proof (cases "OnStreamOk \<in> set es")
        case True
        then have "filmed (since_last OnStreamOk es) = []"
          using k by (auto simp: key_step_def Let_def since_last_def filmed_def List.map_filter_def filter_empty_conv dest: set_takeWhileD)
        then show ?thesis using True k by (simp add: since_ok_def since_last_append key_step_def Let_def)
      next
        case False
        then show ?thesis using k i
          by (auto simp: since_ok_def since_last_append key_step_def Let_def split: if_splits)
      qed
      ultimately show ?thesis using n by simp
    qed
  qed (use assms(2) in \<open>auto simp: new_streamer_inv\<close>,
    simp_all add: sends_video_def closed_gate_def since_last_def since_ok_def new_rtmp_streamer_def v_SetParameter_def v_Init_def new_v_h264_encoder_def)
  then show ?thesis by (auto split: if_splits)
qed

section \<open>From the camera to the encoder\<close>

text \<open>What a step does to the frames; \<open>pixels_in\<close> is what a camera gives in a step.\<close>

fun pixels_in :: "'f stream_act \<Rightarrow> 'f list" where
  "pixels_in (Camera (Some (x, y, p))) = [p]"
| "pixels_in _ = []"

definition frame_step :: "'f list \<Rightarrow> 'f rtmp_streamer \<Rightarrow> 'f stream_log list \<Rightarrow> 'f rtmp_streamer \<Rightarrow> bool" where
  "frame_step ps s l s' \<longleftrightarrow> subseq (map frame_pixels (added (filmed l))) ps
     \<and> (\<exists>due. render_buffers (v_h264_encoder_of s) @ added (filmed l) = due @ render_buffers (v_h264_encoder_of s')
         \<and> subseq (map fst (given (filmed l))) due)"

lemma frame_step_still:
  "render_buffers (v_h264_encoder_of s') = render_buffers (v_h264_encoder_of s) \<Longrightarrow> filmed l = [] \<Longrightarrow> frame_step ps s l s'"
  by (auto simp: frame_step_def intro: exI [of _ "[]"])

lemma video_step_added:
  assumes "video_step v a (s, w) = Some (l, s', w')"
  shows "subseq (map frame_pixels (added l)) (case a of Video_frame (Some (x, y, p)) \<Rightarrow> [p] | _ \<Rightarrow> [])"
proof (cases a)
  case (Video_frame f)
  then show ?thesis using assms
    by (auto simp: v_OnFrame_def AddFrame_def Let_def split: if_splits option.splits prod.splits)
next
  case Video_turn
  then have "v_turn v (s, w) = Some (l, s', w')" using assms by simp
  from v_turn_result [OF this] show ?thesis by (auto simp: Video_turn)
qed (use assms in \<open>auto simp: ub_simps split: prod.splits\<close>)

lemma streamer_video_frames:
  assumes "streamer_video v a (s, w) = Some (l, s', w')" "a = Video_frame f \<or> a = Video_turn \<or> a = Video_image b"
  shows "frame_step (case a of Video_frame (Some (x, y, p)) \<Rightarrow> [p] | _ \<Rightarrow> []) s l s'"
  using assms
proof (rule streamer_video_result)
  fix lv e
  assume 1: "video_step v a (v_h264_encoder_of s, w) = Some (lv, e, w')" and s': "v_h264_encoder_of s' = e" "filmed l = lv"
  from 1 show ?thesis
  proof (rule video_step_result)
    fix due
    assume "render_buffers (v_h264_encoder_of s) @ added lv = due @ render_buffers e"
      "map fst (given lv) = (if given lv = [] then [] else [last due])" "given lv \<noteq> [] \<longrightarrow> due \<noteq> []"
    moreover have "subseq (if given lv = [] then [] else [last due]) due" if "given lv \<noteq> [] \<longrightarrow> due \<noteq> []"
      using that by (cases due rule: rev_cases) auto
    ultimately show ?thesis using video_step_added [OF 1] s' by (auto simp: frame_step_def)
  qed
qed

lemma streamer_step_frames:
  assumes "streamer_step u v a (s, w) = Some (l, s', w')" "streamer_inv s"
  shows "frame_step (pixels_in a) s l s'"
proof (cases a)
  case (Sound d)
  then have "streamer_sound v d (s, w) = Some (l, s', w')" using assms(1) by simp
  from streamer_sound_result(1,5) [OF this] show ?thesis by (simp add: frame_step_still)
next
  case (Camera f)
  then show ?thesis using assms(1) streamer_video_frames [of v "Video_frame f" s w l s' w' f "[]"]
    by (cases f) auto
next
  case Encoder_turn
  then show ?thesis using assms(1) streamer_video_frames [of v Video_turn s w l s' w' None "[]"] by simp
next
  case (Late_image b)
  then show ?thesis using assms(1) streamer_video_frames [of v "Video_image b" s w l s' w' None b] by simp
next
  case Push_thread
  then show ?thesis using streamer_turn_result [of u v s w l s' w'] assms by (simp add: frame_step_still)
next
  case Start_stream
  then have "StartStream u (s, w) = Some (s', w')" "l = []" using assms(1) by (auto simp: ub_simps)
  with StartStream_result [OF this(1)] show ?thesis using same_but_link_fields [of s s'] by (auto simp: frame_step_still)
next
  case Stop_stream
  then show ?thesis using assms
    by (intro frame_step_still) (auto simp: StopStream_def StopEncoder_def v_StopEncoder_def Let_def)
qed (use streamer_setting_result [OF assms(1)] in \<open>auto simp: is_setting_def intro!: frame_step_still\<close>)

text \<open>The frames so far: those the encoder got, those that wait, those that were passed over.\<close>

definition frames_kept :: "'f list \<Rightarrow> 'f stream_log list \<Rightarrow> 'f rtmp_streamer \<Rightarrow> bool" where
  "frames_kept ps log s \<longleftrightarrow> subseq (map frame_pixels (added (filmed log))) ps
     \<and> (\<exists>done. added (filmed log) = done @ render_buffers (v_h264_encoder_of s) \<and> subseq (map fst (given (filmed log))) done)"

lemma frames_kept_step:
  assumes "frames_kept ps log s" "frame_step qs s l s'"
  shows "frames_kept (ps @ qs) (log @ l) s'"
proof -
  obtain d where d: "added (filmed log) = d @ render_buffers (v_h264_encoder_of s)" "subseq (map fst (given (filmed log))) d"
    using assms(1) by (auto simp: frames_kept_def)
  obtain e where e: "render_buffers (v_h264_encoder_of s) @ added (filmed l) = e @ render_buffers (v_h264_encoder_of s')"
    "subseq (map fst (given (filmed l))) e" using assms(2) by (auto simp: frame_step_def)
  have "added (filmed (log @ l)) = (d @ e) @ render_buffers (v_h264_encoder_of s')" using d(1) e(1) by simp
  moreover have "subseq (map fst (given (filmed (log @ l)))) (d @ e)" using d(2) e(2) by (simp add: list_emb_append_mono)
  moreover have "subseq (map frame_pixels (added (filmed (log @ l)))) (ps @ qs)"
    using list_emb_append_mono [of "(=)" "map frame_pixels (added (filmed log))" ps "map frame_pixels (added (filmed l))" qs] assms
    by (simp add: frames_kept_def frame_step_def)
  ultimately show ?thesis unfolding frames_kept_def by blast
qed

lemma frames_kept_given:
  assumes "frames_kept ps log s"
  shows "subseq (map (frame_pixels \<circ> fst) (given (filmed log))) ps"
proof -
  obtain d where "added (filmed log) = d @ render_buffers (v_h264_encoder_of s)" "subseq (map fst (given (filmed log))) d"
    using assms by (auto simp: frames_kept_def)
  then have "subseq (map fst (given (filmed log))) (added (filmed log))" by (simp add: subseq_rev_drop_many)
  then have "subseq (map frame_pixels (map fst (given (filmed log)))) (map frame_pixels (added (filmed log)))" by (rule subseq_map)
  moreover have "subseq (map frame_pixels (added (filmed log))) ps" using assms by (simp add: frames_kept_def)
  ultimately show ?thesis using subseq_order.order_trans by fastforce
qed

lemma new_streamer_frames: "frames_kept [] [] (new_rtmp_streamer samples fresh factory)"
  by (simp add: frames_kept_def new_rtmp_streamer_def v_SetParameter_def v_Init_def new_v_h264_encoder_def)

section \<open>A stream\<close>

abbreviation "sample_streamer \<equiv> new_rtmp_streamer (\<lambda>_ _. 2) (\<lambda>n. replicate n 0) False :: unit rtmp_streamer"

definition sample_stream :: "unit stream_act list" where
  "sample_stream = [Start_stream, Sound (sample_pcm [9, 9, 9, 9]), Push_thread, Push_thread, Push_thread, Sound (sample_pcm [1, 2]),
     Camera (Some (640, 480, ())), Encoder_turn, Sound (sample_pcm [3, 4]), Camera (Some (640, 480, ())), Encoder_turn,
     Push_thread, Push_thread, Push_thread, Push_thread]"

lemma sample_stream_log:
  "case streamer_run kind_server sample_video sample_stream (sample_streamer, 0) of
     Some (l, s, w) \<Rightarrow> map enc_data (handed (since_connect (pushed l)))
         = [[0, 0, 0, 1, 0x67, 1], [0, 0, 1, 0x68, 1], [0, 0, 1, 0x65, 2], [0xff]]
       \<and> map snd (since_ok l) = [True, False] \<and> length (coded_data l) = 3
       \<and> handed (pushed l) = handed (since_connect (pushed l)) \<and> streaming s
   | None \<Rightarrow> False"
  by code_simp

lemma sample_stream_run:
  obtains l s w where "streamer_run kind_server sample_video sample_stream (sample_streamer, 0) = Some (l, s, w)"
    "map enc_data (handed (since_connect (pushed l))) = [[0, 0, 0, 1, 0x67, 1], [0, 0, 1, 0x68, 1], [0, 0, 1, 0x65, 2], [0xff]]"
    "map snd (since_ok l) = [True, False]" "length (coded_data l) = 3" "handed (pushed l) = handed (since_connect (pushed l))" "streaming s"
  using sample_stream_log by (auto split: option.splits)

theorem encoders_follow_connection_witness:
  "\<exists>l s w. streamer_run kind_server sample_video sample_stream (sample_streamer, 0) = Some (l, s, w)
    \<and> v_encoded (v_h264_encoder_of s) \<and> a_encoded (a_aac_encoder_of s)"
proof (rule sample_stream_run)
  fix l s w
  assume r: "streamer_run kind_server sample_video sample_stream (sample_streamer, 0) = Some (l, s, w)" and "streaming s"
  with encoders_follow_connection [OF r] show ?thesis by blast
qed

theorem never_closed_witness:
  "\<exists>l s w. streamer_run (dead_server\<lparr>srs_rtmp_handshake := \<lambda>n. (- 1, n)\<rparr>) sample_video
      (Start_stream # replicate 4 Push_thread) (sample_streamer, 0) = Some (l, s, w)
    \<and> OnStreamFailed 1 \<in> set l \<and> OnStreamClosed \<notin> set l"
proof -
  have "case streamer_run (dead_server\<lparr>srs_rtmp_handshake := \<lambda>n. (- 1, n)\<rparr>) sample_video
      (Start_stream # replicate 4 Push_thread) (sample_streamer, 0) of
      Some (l, s, w) \<Rightarrow> OnStreamFailed 1 \<in> set l | None \<Rightarrow> False" by code_simp
  then obtain l s w where r: "streamer_run (dead_server\<lparr>srs_rtmp_handshake := \<lambda>n. (- 1, n)\<rparr>) sample_video
      (Start_stream # replicate 4 Push_thread) (sample_streamer, 0) = Some (l, s, w)" "OnStreamFailed 1 \<in> set l"
    by (auto split: option.splits)
  from never_closed [OF r(1)] r show ?thesis by blast
qed

theorem streamed_in_order_witness:
  "\<exists>l s w. streamer_run kind_server sample_video sample_stream (sample_streamer, 0) = Some (l, s, w)
    \<and> length (handed (pushed l)) = 4 \<and> subseq (handed (pushed l)) (concat (map parts_of (coded_data l)))"
proof (rule sample_stream_run)
  fix l s w
  assume r: "streamer_run kind_server sample_video sample_stream (sample_streamer, 0) = Some (l, s, w)"
    and h: "map enc_data (handed (since_connect (pushed l))) = [[0, 0, 0, 1, 0x67, 1], [0, 0, 1, 0x68, 1], [0, 0, 1, 0x65, 2], [0xff]]"
      "handed (pushed l) = handed (since_connect (pushed l))"
  have "length (handed (pushed l)) = 4" using arg_cong [OF h(1), of length] h(2) by simp
  with streamed_in_order [OF r] r show ?thesis by blast
qed

theorem stream_starts_with_key_frame_witness:
  "\<exists>l s w. streamer_run kind_server sample_video sample_stream (sample_streamer, 0) = Some (l, s, w)
    \<and> since_ok l \<noteq> [] \<and> snd (hd (since_ok l))
    \<and> handed (since_connect (pushed l)) \<noteq> [] \<and> key_start (hd (handed (since_connect (pushed l))))"
proof (rule sample_stream_run)
  fix l s w
  assume r: "streamer_run kind_server sample_video sample_stream (sample_streamer, 0) = Some (l, s, w)"
    and h: "map enc_data (handed (since_connect (pushed l))) = [[0, 0, 0, 1, 0x67, 1], [0, 0, 1, 0x68, 1], [0, 0, 1, 0x65, 2], [0xff]]"
      "map snd (since_ok l) = [True, False]"
  have "Video_enable False \<notin> set sample_stream" by (simp add: sample_stream_def)
  from stream_starts_with_key_frame [OF r this] r h show ?thesis by auto
qed

end
