(* ===== verification/Video_Filter.thy ===== *)
theory Video_Filter
  imports C_Prelude
begin

text \<open>
  What lies between the camera and the encoder of the streamer, \<^verbatim>\<open>AnyCore/videofilter.cc\<close>: every
  third frame is dropped, and a frame in portrait format is cut to the middle 9:16 of its height. A
  plane of a frame is a list of bytes, and an access outside it has no defined result. The code takes
  the width of a frame for the distance of its rows, and so does the model.
\<close>

section \<open>Cutting a frame\<close>

record i420 =
  i_width :: nat
  i_height :: nat
  i_DataY :: "u8 list"
  i_DataU :: "u8 list"
  i_DataV :: "u8 list"

text \<open>\<^verbatim>\<open>InitToEmptyBuffer\<close>: planes without a defined content, which is an argument.\<close>

definition InitToEmptyBuffer :: "(nat \<Rightarrow> u8 list) \<Rightarrow> nat \<Rightarrow> nat \<Rightarrow> i420" where
  "InitToEmptyBuffer fresh w h = \<lparr>i_width = w, i_height = h, i_DataY = fresh (w * h),
     i_DataU = fresh ((w + 1) div 2 * ((h + 1) div 2)), i_DataV = fresh ((w + 1) div 2 * ((h + 1) div 2))\<rparr>"

text \<open>A loop of copies: \<open>n\<close> bytes, then on by the width of a row on either side.\<close>

fun copy_rows :: "nat \<Rightarrow> nat \<Rightarrow> nat \<Rightarrow> u8 list \<Rightarrow> nat \<Rightarrow> u8 list \<Rightarrow> nat \<Rightarrow> u8 list option" where
  "copy_rows 0 n step src i dst j = Some dst"
| "copy_rows (Suc k) n step src i dst j = do {
     r \<leftarrow> rd_bytes src i n; dst \<leftarrow> wr_bytes dst j r; copy_rows k n step src (i + step) dst (j + n) }"

definition dst_width :: "nat \<Rightarrow> nat \<Rightarrow> nat" where
  "dst_width w h = (if w < h then h * 9 div 16 else w)"

definition cut_frame :: "(nat \<Rightarrow> u8 list) \<Rightarrow> i420 \<Rightarrow> i420 option" where
  "cut_frame fresh f =
     (let w = i_width f; dh = i_height f; dw = dst_width w dh; out = InitToEmptyBuffer fresh dw dh;
          offsetW = (max dw w - min dw w) div 2; offsetH = (max dh (i_height f) - min dh (i_height f)) div 2
      in do {
        y \<leftarrow> copy_rows dh dw w (i_DataY f) (w * offsetH + offsetW) (i_DataY out) 0;
        u \<leftarrow> copy_rows (dh div 2) (dw div 2) (w div 2) (i_DataU f) (w * offsetH div 4 + offsetW div 2) (i_DataU out) 0;
        v \<leftarrow> copy_rows (dh div 2) (dw div 2) (w div 2) (i_DataV f) (w * offsetH div 4 + offsetW div 2) (i_DataV out) 0;
        Some (out\<lparr>i_DataY := y, i_DataU := u, i_DataV := v\<rparr>) })"

text \<open>A frame of the camera, on Android: the counter goes on, and every third frame is dropped.\<close>

definition filter_OnFrame :: "(nat \<Rightarrow> u8 list) \<Rightarrow> i420 \<Rightarrow> u32 \<Rightarrow> (i420 option \<times> u32) option" where
  "filter_OnFrame fresh f sFpsCt =
     (if sFpsCt mod 3 = 0 then Some (None, sFpsCt + 1)
      else do { g \<leftarrow> cut_frame fresh f; Some (Some g, sFpsCt + 1) })"

fun filter_run :: "(nat \<Rightarrow> u8 list) \<Rightarrow> i420 list \<Rightarrow> u32 \<Rightarrow> (i420 list \<times> u32) option" where
  "filter_run fresh [] c = Some ([], c)"
| "filter_run fresh (f # fs) c = do { (g, c) \<leftarrow> filter_OnFrame fresh f c; (gs, c) \<leftarrow> filter_run fresh fs c;
     Some (case_option [] (\<lambda>x. [x]) g @ gs, c) }"

section \<open>What is cut out\<close>

text \<open>The rows of a plane from column \<open>i\<close>, \<open>n\<close> bytes of each.\<close>

definition columns :: "nat \<Rightarrow> nat \<Rightarrow> nat \<Rightarrow> nat \<Rightarrow> u8 list \<Rightarrow> u8 list" where
  "columns k n step i src = concat (map (\<lambda>r. take n (drop (i + r * step) src)) [0..<k])"

lemma columns_Suc: "columns (Suc k) n step i src = take n (drop i src) @ columns k n step (i + step) src"
proof -
  have "[0..<Suc k] = 0 # map Suc [0..<k]" by (simp add: map_Suc_upt upt_conv_Cons)
  then show ?thesis by (simp add: columns_def comp_def ac_simps)
qed

lemma copy_rows_columns:
  assumes "i + k * step \<le> length src + (step - n)" "n \<le> step" "j + k * n \<le> length dst"
  shows "copy_rows k n step src i dst j = Some (take j dst @ columns k n step i src @ drop (j + k * n) dst)"
  using assms
proof (induction k arbitrary: i dst j)
  case 0
  then show ?case by (simp add: columns_def)
next
  case (Suc k)
  let ?dst = "take j dst @ take n (drop i src) @ drop (j + n) dst"
  have b: "i + n \<le> length src" using Suc.prems by simp
  then have m: "min (length src - i) n = n" by simp
  then have w: "wr_bytes dst j (take n (drop i src)) = Some ?dst" using Suc.prems(3) by (simp add: wr_bytes_def)
  have l: "length (take n (drop i src)) = n" "length (take j dst) = j" using b Suc.prems(3) by simp_all
  have "copy_rows k n step src (i + step) ?dst (j + n)
      = Some (take (j + n) ?dst @ columns k n step (i + step) src @ drop (j + n + k * n) ?dst)"
    by (rule Suc.IH) (use Suc.prems b in auto)
  moreover have "take (j + n) ?dst = take j dst @ take n (drop i src)" using l by simp
  moreover have "drop (j + n + k * n) ?dst = drop (j + Suc k * n) dst" using l by (simp add: ac_simps)
  ultimately show ?case using b w by (simp add: columns_Suc)
qed

lemma length_columns:
  "i + k * step \<le> length src + (step - n) \<Longrightarrow> n \<le> step \<Longrightarrow> length (columns k n step i src) = k * n"
proof (induction k arbitrary: i)
  case (Suc k)
  then have "i + n \<le> length src" by simp
  then show ?case using Suc by (simp add: columns_Suc)
qed (simp add: columns_def)

definition whole_frame :: "i420 \<Rightarrow> bool" where
  "whole_frame f \<longleftrightarrow> length (i_DataY f) = i_width f * i_height f
     \<and> length (i_DataU f) = (i_width f + 1) div 2 * ((i_height f + 1) div 2)
     \<and> length (i_DataV f) = (i_width f + 1) div 2 * ((i_height f + 1) div 2)"

text \<open>The rows of all three planes.\<close>

lemma cut_result:
  assumes "whole_frame f" "even (i_width f)" "even (i_height f)" "even d" "d \<le> i_width f"
    and "d = dst_width (i_width f) (i_height f)" "\<And>n. length (fresh n) = n"
  shows "\<exists>g. cut_frame fresh f = Some g \<and> whole_frame g \<and> i_width g = d \<and> i_height g = i_height f
    \<and> i_DataY g = columns (i_height f) d (i_width f) ((i_width f - d) div 2) (i_DataY f)
    \<and> i_DataU g = columns (i_height f div 2) (d div 2) (i_width f div 2) ((i_width f - d) div 2 div 2) (i_DataU f)
    \<and> i_DataV g = columns (i_height f div 2) (d div 2) (i_width f div 2) ((i_width f - d) div 2 div 2) (i_DataV f)"
proof -
  obtain w h where wh: "i_width f = 2 * w" "i_height f = 2 * h" using assms(2,3) by (auto elim!: evenE)
  obtain e where e: "d = 2 * e" using assms(4) by (auto elim!: evenE)
  have le: "e \<le> w" using assms(5) wh e by simp
  have c: "copy_rows k n step src i (fresh (k * n)) 0 = Some (columns k n step i src)"
    if "i + k * step \<le> length src + (step - n)" "n \<le> step" for k n step src i
    using copy_rows_columns [OF that, of 0 "fresh (k * n)"] assms(7) by simp
  have y: "copy_rows (2 * h) (2 * e) (2 * w) (i_DataY f) (w - e) (fresh (2 * h * (2 * e))) 0
      = Some (columns (2 * h) (2 * e) (2 * w) (w - e) (i_DataY f))"
    by (rule c) (use assms(1) wh le in \<open>auto simp: whole_frame_def ac_simps\<close>)
  have uv: "copy_rows h e w p ((w - e) div 2) (fresh (h * e)) 0 = Some (columns h e w ((w - e) div 2) p)"
    if "length p = w * h" for p by (rule c) (use that le in \<open>auto simp: ac_simps\<close>)
  have u: "length (i_DataU f) = w * h" "length (i_DataV f) = w * h" using assms(1) wh by (simp_all add: whole_frame_def)
  have dw: "dst_width (2 * w) (2 * h) = 2 * e" using assms(6) e wh by simp
  let ?g = "\<lparr>i_width = 2 * e, i_height = 2 * h, i_DataY = columns (2 * h) (2 * e) (2 * w) (w - e) (i_DataY f),
    i_DataU = columns h e w ((w - e) div 2) (i_DataU f), i_DataV = columns h e w ((w - e) div 2) (i_DataV f)\<rparr>"
  have off: "(max (2 * e) (2 * w) - min (2 * e) (2 * w)) div 2 = w - e" "2 * w - 2 * e = 2 * (w - e)" using le by simp_all
  have half: "(2 * n + 1) div 2 = n" "2 * n div 2 = n" for n :: nat by simp_all
  have "cut_frame fresh f = Some ?g"
    unfolding cut_frame_def Let_def wh dw InitToEmptyBuffer_def off(1) half
    using y uv [OF u(1)] uv [OF u(2)] by (simp add: mult.commute [of e h] mult.commute [of "2 * e" "2 * h"])
  moreover have "whole_frame ?g"
    using length_columns [of "w - e" "2 * h" "2 * w" "i_DataY f" "2 * e"]
      length_columns [of "(w - e) div 2" h w "i_DataU f" e] length_columns [of "(w - e) div 2" h w "i_DataV f" e] u assms(1) wh le
    by (simp add: whole_frame_def ac_simps)
  ultimately show ?thesis by (simp add: wh e off half)
qed

text \<open>A frame in landscape format is copied as it is.\<close>

lemma columns_all: "length src = k * n \<Longrightarrow> columns k n n 0 src = src"
proof (induction k arbitrary: src)
  case (Suc k)
  have "columns k n n (0 + n) src = columns k n n 0 (drop n src)"
    by (simp add: columns_def ac_simps)
  also have "\<dots> = drop n src" by (rule Suc.IH) (use Suc.prems in simp)
  finally show ?case by (simp add: columns_Suc)
qed (simp add: columns_def)

lemma landscape_copied:
  assumes "whole_frame f" "even (i_width f)" "even (i_height f)" "i_height f \<le> i_width f" "\<And>n. length (fresh n) = n"
  shows "cut_frame fresh f = Some f"
proof -
  obtain w h where wh: "i_width f = 2 * w" "i_height f = 2 * h" using assms(2,3) by (auto elim!: evenE)
  have d: "2 * w = dst_width (i_width f) (i_height f)" using assms(4) wh by (simp add: dst_width_def)
  obtain g where "cut_frame fresh f = Some g" "i_width g = i_width f" "i_height g = i_height f"
    "i_DataY g = columns (i_height f) (2 * w) (i_width f) ((i_width f - 2 * w) div 2) (i_DataY f)"
    "i_DataU g = columns (i_height f div 2) (2 * w div 2) (i_width f div 2) ((i_width f - 2 * w) div 2 div 2) (i_DataU f)"
    "i_DataV g = columns (i_height f div 2) (2 * w div 2) (i_width f div 2) ((i_width f - 2 * w) div 2 div 2) (i_DataV f)"
    using cut_result [OF assms(1-3) _ _ d, of fresh] assms(5) wh by auto
  moreover have "i_DataY g = i_DataY f \<and> i_DataU g = i_DataU f \<and> i_DataV g = i_DataV f"
    using calculation(4-6) assms(1) wh columns_all [of "i_DataY f" "2 * h" "2 * w"] columns_all [of "i_DataU f" h w]
      columns_all [of "i_DataV f" h w]
    by (simp add: whole_frame_def ac_simps)
  ultimately show ?thesis by simp
qed

text \<open>
  C31. A frame of even width and height that is at least 9:16: in portrait format the result is the middle
  of each row in all three planes, of the width that belongs to the height (if that is even); in
  landscape format it is the frame.
\<close>
theorem middle_cut_out:
  assumes "whole_frame f" "even (i_width f)" "even (i_height f)" "\<And>n. length (fresh n) = n"
    and "d = (if i_width f < i_height f then i_height f * 9 div 16 else i_width f)" "even d" "d \<le> i_width f"
  shows "\<exists>g. cut_frame fresh f = Some g \<and> whole_frame g \<and> i_width g = d \<and> i_height g = i_height f
    \<and> i_DataY g = columns (i_height f) d (i_width f) ((i_width f - d) div 2) (i_DataY f)
    \<and> i_DataU g = columns (i_height f div 2) (d div 2) (i_width f div 2) ((i_width f - d) div 2 div 2) (i_DataU f)
    \<and> i_DataV g = columns (i_height f div 2) (d div 2) (i_width f div 2) ((i_width f - d) div 2 div 2) (i_DataV f)
    \<and> (i_height f \<le> i_width f \<longrightarrow> g = f)"
proof -
  have "d = dst_width (i_width f) (i_height f)" using assms(5) by (simp add: dst_width_def)
  from cut_result [OF assms(1-3,6,7) this, of fresh] assms(4) landscape_copied [OF assms(1-3), of fresh] show ?thesis by auto
qed

text \<open>
  A portrait that is narrower than 9:16 is read outside its rows, and the last row outside the plane.
\<close>

lemma copy_rows_outside:
  "0 < k \<Longrightarrow> length src < i + (k - 1) * step + n \<Longrightarrow> copy_rows k n step src i dst j = None"
proof (induction k arbitrary: i dst j)
  case (Suc k)
  show ?case
  proof (cases k)
    case 0
    then show ?thesis using Suc.prems by (simp add: rd_bytes_def)
  next
    case (Suc m)
    then have "copy_rows k n step src (i + step) d (j + n) = None" for d
      by (intro Suc.IH) (use Suc.prems in auto)
    then show ?thesis by (simp add: ub_simps)
  qed
qed simp

lemma narrow_portrait_outside:
  assumes "whole_frame f" "0 < i_height f" "i_width f < i_height f * 9 div 16"
  shows "cut_frame fresh f = None"
proof -
  let ?w = "i_width f" and ?h = "i_height f"
  have p: "?w < ?h" using assms(3) by linarith
  have "?w * ?h = ?w + (?h - 1) * ?w" using assms(2) by (cases ?h) simp_all
  then have "length (i_DataY f) < (?h * 9 div 16 - ?w) div 2 + (?h - 1) * ?w + ?h * 9 div 16"
    using assms(1,3) by (simp add: whole_frame_def)
  then have "copy_rows ?h (?h * 9 div 16) ?w (i_DataY f) ((?h * 9 div 16 - ?w) div 2) dst 0 = None" for dst
    by (intro copy_rows_outside assms(2))
  then show ?thesis using p assms(3) by (simp add: cut_frame_def dst_width_def Let_def max_def min_def)
qed

text \<open>Of three frames in a row one is dropped.\<close>

lemma filter_OnFrame_count:
  assumes "filter_OnFrame fresh f c = Some (g, c')"
  shows "c' = c + 1" "g = None \<longleftrightarrow> unat c mod 3 = 0"
proof -
  have "c mod 3 = 0 \<longleftrightarrow> unat c mod 3 = 0" by (simp add: word_unat_eq_iff unat_mod)
  then show "c' = c + 1" "g = None \<longleftrightarrow> unat c mod 3 = 0"
    using assms by (auto simp: filter_OnFrame_def ub_simps split: if_splits)
qed

lemma third_dropped:
  assumes "unat c + 2 < 2 ^ 32" "filter_run fresh [f1, f2, f3] c = Some (gs, c')"
  shows "length gs = 2"
proof -
  obtain g1 c1 g2 c2 g3 where 1: "filter_OnFrame fresh f1 c = Some (g1, c1)" and 2: "filter_OnFrame fresh f2 c1 = Some (g2, c2)"
    and 3: "filter_OnFrame fresh f3 c2 = Some (g3, c')"
    and gs: "gs = case_option [] (\<lambda>x. [x]) g1 @ case_option [] (\<lambda>x. [x]) g2 @ case_option [] (\<lambda>x. [x]) g3"
    using assms(2) by (auto simp: ub_simps)
  have u: "unat c1 = unat c + 1" "unat c2 = unat c + 2"
    using assms(1) filter_OnFrame_count(1) [OF 1] filter_OnFrame_count(1) [OF 2] by (simp_all add: unat_word_ariths)
  have "unat c mod 3 = 0 \<and> (unat c + 1) mod 3 \<noteq> 0 \<and> (unat c + 2) mod 3 \<noteq> 0
    \<or> unat c mod 3 \<noteq> 0 \<and> (unat c + 1) mod 3 = 0 \<and> (unat c + 2) mod 3 \<noteq> 0
    \<or> unat c mod 3 \<noteq> 0 \<and> (unat c + 1) mod 3 \<noteq> 0 \<and> (unat c + 2) mod 3 = 0" by presburger
  with filter_OnFrame_count(2) [OF 1] filter_OnFrame_count(2) [OF 2] filter_OnFrame_count(2) [OF 3] u
  have "g1 = None \<and> g2 \<noteq> None \<and> g3 \<noteq> None \<or> g1 \<noteq> None \<and> g2 = None \<and> g3 \<noteq> None \<or> g1 \<noteq> None \<and> g2 \<noteq> None \<and> g3 = None"
    by simp
  then show ?thesis by (auto simp: gs)
qed

section \<open>A frame\<close>

definition sample_frame :: i420 where
  "sample_frame = \<lparr>i_width = 6, i_height = 8, i_DataY = map word_of_nat [0..<48], i_DataU = map word_of_nat [0..<12],
     i_DataV = map word_of_nat [100..<112]\<rparr>"

theorem middle_cut_out_witness:
  "\<exists>g. cut_frame (\<lambda>n. replicate n 0) sample_frame = Some g \<and> i_width g = 4 \<and> i_height g = 8
    \<and> i_DataU g = columns 4 2 3 0 (i_DataU sample_frame) \<and> i_DataY g = columns 8 4 6 1 (i_DataY sample_frame)"
proof -
  have "\<exists>g. cut_frame (\<lambda>n. replicate n 0) sample_frame = Some g \<and> whole_frame g \<and> i_width g = 4 \<and> i_height g = i_height sample_frame
    \<and> i_DataY g = columns (i_height sample_frame) 4 (i_width sample_frame) ((i_width sample_frame - 4) div 2) (i_DataY sample_frame)
    \<and> i_DataU g = columns (i_height sample_frame div 2) (4 div 2) (i_width sample_frame div 2) ((i_width sample_frame - 4) div 2 div 2) (i_DataU sample_frame)
    \<and> i_DataV g = columns (i_height sample_frame div 2) (4 div 2) (i_width sample_frame div 2) ((i_width sample_frame - 4) div 2 div 2) (i_DataV sample_frame)
    \<and> (i_height sample_frame \<le> i_width sample_frame \<longrightarrow> g = sample_frame)"
    by (rule middle_cut_out) (simp_all add: sample_frame_def whole_frame_def)
  then show ?thesis by (auto simp: sample_frame_def)
qed

end
