(* ===== verification/Ply_Buffer.thy ===== *)
theory Ply_Buffer
  imports C_Prelude
begin

text \<open>
  The playing side of the RTMP player, \<^verbatim>\<open>AnyCore/plybuffer.cc\<close> and \<^verbatim>\<open>AnyCore/plydecoder.cc\<close>:
  \<open>PlyBuffer\<close> queues decoded audio and undecoded video by their times, starts, pauses and
  resumes, and hands out what is due; \<open>PlyDecoder\<close> is its callback, feeds it and cuts decoded
  audio into frames of ten milliseconds. The clock and the codecs are parameters over a world \<open>'w\<close>.
  A step is a whole call.
\<close>

section \<open>Packets and state\<close>

record ply_packet =
  pk_data :: "u8 list"
  pk_b_video :: bool
  pk_dts :: u32

definition SetData :: "u8 list \<Rightarrow> int \<Rightarrow> u32 \<Rightarrow> ply_packet \<Rightarrow> ply_packet option" where
  "SetData pdata len ts pkt =
     (if 0 < len then do { d \<leftarrow> rd_bytes pdata 0 (nat len); Some (pkt\<lparr>pk_dts := ts, pk_data := d\<rparr>) }
      else Some (pkt\<lparr>pk_dts := ts\<rparr>))"

datatype ply_status = PS_Fast | PS_Normal | PS_Cache

record ply_buffer =
  got_audio :: bool
  cache_time :: int
  cache_delta :: int
  buf_cache_time :: int
  ply_status :: ply_status
  sys_fast_video_time :: u32
  rtmp_fast_video_time :: u32
  rtmp_cache_time :: u32
  play_cur_time :: u32
  lst_audio_buffer :: "ply_packet list"
  lst_video_buffer :: "ply_packet list"

definition new_ply_buffer :: ply_buffer where
  "new_ply_buffer = \<lparr>got_audio = False, cache_time = 1000, cache_delta = 1, buf_cache_time = 0, ply_status = PS_Fast,
     sys_fast_video_time = 0, rtmp_fast_video_time = 0, rtmp_cache_time = 0, play_cur_time = 0,
     lst_audio_buffer = [], lst_video_buffer = []\<rparr>"

text \<open>
  What the buffer calls: the clock, whose 64 bit time is mostly cut to the 32 bits of a field, and the
  three functions of its callback.
\<close>

record 'w ply_callback =
  cb_time :: "'w \<Rightarrow> int \<times> 'w"
  OnPlay :: "'w \<Rightarrow> 'w"
  OnPause :: "'w \<Rightarrow> 'w"
  OnNeedDecodeData :: "ply_packet \<Rightarrow> 'w \<Rightarrow> (bool \<times> 'w) option"

abbreviation (input) "PLY_RED_TIME \<equiv> 250 :: u32"
abbreviation (input) "PLY_MAX_DELAY \<equiv> 1000 :: u32"
abbreviation (input) "PLY_MAX_CACHE \<equiv> 16 :: int"

section \<open>Queueing and reading\<close>

definition SetCacheSize :: "int \<Rightarrow> ply_buffer \<Rightarrow> ply_buffer" where
  "SetCacheSize miliseconds b = (if 500 < miliseconds \<and> miliseconds \<le> 600000 then b\<lparr>cache_time := miliseconds\<rparr> else b)"

text \<open>The audio that was copied to the caller, if any; its length is the return value.\<close>

definition GetPlayAudio :: "ply_buffer \<Rightarrow> ply_packet option \<times> ply_buffer" where
  "GetPlayAudio b = (case lst_audio_buffer b of
       [] \<Rightarrow> (None, b)
     | pkt_front # rest \<Rightarrow> (Some pkt_front, b\<lparr>play_cur_time := pk_dts pkt_front, lst_audio_buffer := rest\<rparr>))"

definition CacheH264Data :: "'w ply_callback \<Rightarrow> u8 list \<Rightarrow> int \<Rightarrow> u32 \<Rightarrow> ply_buffer \<times> 'w \<Rightarrow> (ply_buffer \<times> 'w) option" where
  "CacheH264Data cb pdata len ts s =
     (let (b, w) = s in do {
        pkt \<leftarrow> SetData pdata len ts \<lparr>pk_data = [], pk_b_video = True, pk_dts = 0\<rparr>;
        let (b, w) = (if sys_fast_video_time b = 0
                      then (let (t, w) = cb_time cb w in (b\<lparr>sys_fast_video_time := word_of_int t, rtmp_fast_video_time := ts\<rparr>, w))
                      else (b, w));
        Some (b\<lparr>lst_video_buffer := lst_video_buffer b @ [pkt]\<rparr>, w) })"

text \<open>The time between the first and the last packet of a list, modulo the width of the clock.\<close>

definition media_span :: "ply_packet list \<Rightarrow> u32" where
  "media_span ps = (if ps = [] then 0 else pk_dts (last ps) - pk_dts (hd ps))"

definition CachePcmData :: "'w ply_callback \<Rightarrow> u8 list \<Rightarrow> int \<Rightarrow> u32 \<Rightarrow> ply_buffer \<times> 'w \<Rightarrow> (ply_buffer \<times> 'w) option" where
  "CachePcmData cb pdata len ts s =
     (let (b, w) = s in do {
        pkt \<leftarrow> SetData pdata len ts \<lparr>pk_data = [], pk_b_video = False, pk_dts = 0\<rparr>;
        let b = b\<lparr>got_audio := True, lst_audio_buffer := lst_audio_buffer b @ [pkt]\<rparr>;
        Some (if sys_fast_video_time b = 0 \<and> PLY_MAX_DELAY \<le> media_span (lst_audio_buffer b)
              then (let (t, w) = cb_time cb w in (b\<lparr>sys_fast_video_time := word_of_int t, rtmp_fast_video_time := ts\<rparr>, w))
              else (b, w)) })"

section \<open>The tick\<close>

text \<open>
  The three states of \<open>DoDecode\<close>. The second part of a result is the packet \<^verbatim>\<open>pkt_video\<close> that
  was handed to the callback.
\<close>

definition start_play :: "'w ply_callback \<Rightarrow> ply_packet \<Rightarrow> ply_buffer \<times> 'w \<Rightarrow> ply_buffer \<times> 'w" where
  "start_play cb pkt_front s =
     (let (b, w) = s in (b\<lparr>ply_status := PS_Normal, play_cur_time := pk_dts pkt_front\<rparr>, OnPlay cb w))"

definition decode_fast :: "'w ply_callback \<Rightarrow> u32 \<Rightarrow> ply_buffer \<times> 'w \<Rightarrow> ply_buffer \<times> 'w" where
  "decode_fast cb curTime s =
     (let (b, w) = s; videoSysGap = curTime - sys_fast_video_time b
      in if PLY_RED_TIME \<le> videoSysGap
         then (case lst_audio_buffer b of
                 pkt_front # _ \<Rightarrow>
                   if PLY_RED_TIME < media_span (lst_audio_buffer b) then start_play cb pkt_front (b, w) else (b, w)
               | [] \<Rightarrow>
                   if PLY_RED_TIME * 4 \<le> videoSysGap
                   then (case lst_video_buffer b of pkt_front # _ \<Rightarrow> start_play cb pkt_front (b, w) | [] \<Rightarrow> (b, w))
                   else (b, w))
         else (b, w))"

text \<open>What is buffered and what is due: audio leads unless none was ever received.\<close>

definition media_buf_time :: "ply_buffer \<Rightarrow> u32" where
  "media_buf_time b =
     (let audio = media_span (lst_audio_buffer b)
      in if audio = 0 \<and> \<not> got_audio b then media_span (lst_video_buffer b) else audio)"

definition play_video_time :: "u32 \<Rightarrow> ply_buffer \<Rightarrow> u32" where
  "play_video_time curTime b =
     (if media_span (lst_audio_buffer b) = 0 \<and> \<not> got_audio b \<and> lst_video_buffer b \<noteq> []
      then rtmp_fast_video_time b + (curTime - sys_fast_video_time b) else play_cur_time b)"

definition pause_play :: "'w ply_callback \<Rightarrow> ply_buffer \<times> 'w \<Rightarrow> ply_buffer \<times> 'w" where
  "pause_play cb s =
     (let (b, w) = s; w = OnPause cb w;
          b = b\<lparr>ply_status := PS_Cache, cache_time := cache_delta b * 1000,
                cache_delta := (if cache_delta b < PLY_MAX_CACHE then cache_delta b * 2 else cache_delta b)\<rparr>;
          (t, w) = cb_time cb w
      in (b\<lparr>rtmp_cache_time := word_of_int (t + cache_time b)\<rparr>, w))"

definition decode_normal ::
  "'w ply_callback \<Rightarrow> u32 \<Rightarrow> ply_buffer \<times> 'w \<Rightarrow> (ply_packet option \<times> ply_buffer \<times> 'w) option" where
  "decode_normal cb curTime s =
     (let (b, w) = s; buf_time = media_buf_time b; play_time = play_video_time curTime b;
          (pkt_video, b) = (case lst_video_buffer b of
              [] \<Rightarrow> (None, b)
            | pkt # rest \<Rightarrow> if pk_dts pkt \<le> play_time then (Some pkt, b\<lparr>lst_video_buffer := rest\<rparr>) else (None, b))
      in do {
        w \<leftarrow> (case pkt_video of None \<Rightarrow> Some w | Some pkt \<Rightarrow> do { (_, w) \<leftarrow> OnNeedDecodeData cb pkt w; Some w });
        let (b, w) = (if buf_time \<le> PLY_RED_TIME then pause_play cb (b, w) else (b, w));
        Some (pkt_video, b\<lparr>buf_cache_time := sint buf_time\<rparr>, w) })"

definition decode_cache :: "'w ply_callback \<Rightarrow> ply_buffer \<times> 'w \<Rightarrow> ply_buffer \<times> 'w" where
  "decode_cache cb s =
     (let (b, w) = s; (t, w) = cb_time cb w
      in if uint (rtmp_cache_time b) \<le> t
         then (let buf_time = media_buf_time b;
                   (b, w) = (if word_of_int (cache_time b) - PLY_RED_TIME \<le> buf_time
                             then (b\<lparr>ply_status := PS_Normal,
                                     cache_delta := (if cache_delta b = PLY_MAX_CACHE then cache_delta b div 2 else cache_delta b)\<rparr>,
                                   OnPlay cb w)
                             else (let (t, w) = cb_time cb w
                                   in (b\<lparr>rtmp_cache_time := word_of_int (t + cache_time b)\<rparr>, w)));
                   b = (if got_audio b then b
                        else b\<lparr>sys_fast_video_time := sys_fast_video_time b + word_of_int (cache_time b)\<rparr>)
               in (b\<lparr>buf_cache_time := sint buf_time\<rparr>, w))
         else (b, w))"

definition DoDecode :: "'w ply_callback \<Rightarrow> ply_buffer \<times> 'w \<Rightarrow> (ply_packet option \<times> ply_buffer \<times> 'w) option" where
  "DoDecode cb s =
     (let (b, w) = s; (t, w) = cb_time cb w; curTime = word_of_int t
      in if sys_fast_video_time b = 0 then Some (None, b, w)
         else case ply_status b of
             PS_Fast \<Rightarrow> Some (None, decode_fast cb curTime (b, w))
           | PS_Normal \<Rightarrow> decode_normal cb curTime (b, w)
           | PS_Cache \<Rightarrow> Some (None, decode_cache cb (b, w)))"

section \<open>The decoder\<close>

text \<open>
  \<open>audio_cache\<close> is the array of 8192 bytes. \<open>aac_decoder\<close> says that the audio decoder is open.
\<close>

record ply_decoder =
  playing :: bool
  lst_h264_buffer :: "ply_packet list"
  aac_decoder :: bool
  audio_cache :: "u8 list"
  a_cache_len :: nat
  aac_sample_hz :: u32
  aac_channels :: u8
  aac_frame_per10ms_size :: u32

definition per10ms :: "u32 \<Rightarrow> u8 \<Rightarrow> u32" where
  "per10ms hz channels = hz div 100 * 2 * ucast channels"

definition new_ply_decoder :: "u8 list \<Rightarrow> ply_decoder" where
  "new_ply_decoder cache = \<lparr>playing = False, lst_h264_buffer = [], aac_decoder = False, audio_cache = cache,
     a_cache_len = 0, aac_sample_hz = 44100, aac_channels = 2, aac_frame_per10ms_size = per10ms 44100 2\<rparr>"

definition decoder_OnPlay :: "ply_decoder \<Rightarrow> ply_decoder" where
  "decoder_OnPlay d = d\<lparr>playing := True\<rparr>"

definition decoder_OnPause :: "ply_decoder \<Rightarrow> ply_decoder" where
  "decoder_OnPause d = d\<lparr>playing := False\<rparr>"

text \<open>A sequence parameter set makes the packets that wait superfluous.\<close>

definition decoder_OnNeedDecodeData :: "ply_packet \<Rightarrow> ply_decoder \<Rightarrow> (bool \<times> ply_decoder) option" where
  "decoder_OnNeedDecodeData pkt d =
     (if pk_b_video pkt
      then do { t \<leftarrow> rd (pk_data pkt) 4;
                Some (True, d\<lparr>lst_h264_buffer := (if t AND 0x1f = 7 then [] else lst_h264_buffer d) @ [pkt]\<rparr>) }
      else Some (True, d))"

text \<open>One turn of the decoding thread: the bytes and whether they start a key frame go to the codec.\<close>

definition decoder_Run :: "(u8 list \<Rightarrow> bool \<Rightarrow> 'c \<Rightarrow> 'c) \<Rightarrow> ply_decoder \<times> 'c \<Rightarrow> (ply_decoder \<times> 'c) option" where
  "decoder_Run h264 s =
     (let (d, c) = s in case lst_h264_buffer d of
        [] \<Rightarrow> Some (d, c)
      | pkt # rest \<Rightarrow> do { t \<leftarrow> rd (pk_data pkt) 4;
                           Some (d\<lparr>lst_h264_buffer := rest\<rparr>, h264 (pk_data pkt) (t AND 0x1f = 7) c) })"

text \<open>The decoder as the callback of the buffer, with a clock.\<close>

definition decoder_callback :: "('c \<Rightarrow> int \<times> 'c) \<Rightarrow> (ply_decoder \<times> 'c) ply_callback" where
  "decoder_callback clock = \<lparr>
     cb_time = \<lambda>(d, c). let (t, c) = clock c in (t, d, c),
     OnPlay = \<lambda>(d, c). (decoder_OnPlay d, c),
     OnPause = \<lambda>(d, c). (decoder_OnPause d, c),
     OnNeedDecodeData = \<lambda>pkt (d, c). do { (ok, d) \<leftarrow> decoder_OnNeedDecodeData pkt d; Some (ok, d, c) }\<rparr>"

definition IsPlaying :: "ply_buffer \<Rightarrow> bool" where
  "IsPlaying b \<longleftrightarrow> ply_status b \<noteq> PS_Cache"

definition GetPcmData :: "ply_decoder \<Rightarrow> ply_buffer \<Rightarrow> ply_packet option \<times> ply_buffer" where
  "GetPcmData d b = (if playing d then GetPlayAudio b else (None, b))"

text \<open>
  Cutting the decoded audio: \<open>ct\<close> frames have been taken, \<open>n\<close> bytes are left. A frame size
  of zero never ends, a negative one runs out of the array.
\<close>

partial_function (option) cut_frames ::
  "'w ply_callback \<Rightarrow> int \<Rightarrow> u32 \<Rightarrow> u8 list \<Rightarrow> nat \<Rightarrow> nat \<Rightarrow> ply_buffer \<times> 'w \<Rightarrow> (nat \<times> nat \<times> ply_buffer \<times> 'w) option" where
  "cut_frames cb fsize ts cache n ct s =
     (if fsize < int n
      then if fsize < 0 then None
           else do { s \<leftarrow> CachePcmData cb (drop (ct * nat fsize) cache) fsize ts s;
                     cut_frames cb fsize ts cache (n - nat fsize) (ct + 1) s }
      else Some (n, ct, s))"

declare cut_frames.simps [code]

text \<open>
  \<open>aac_open\<close> gives whether the decoder opened, the channels and the sample rate; \<open>aac_decode\<close> the
  decoded bytes, which are written behind those in the array.
\<close>

definition AddAACData ::
  "('c \<Rightarrow> int \<times> 'c) \<Rightarrow> (u8 list \<Rightarrow> 'c \<Rightarrow> (bool \<times> u8 \<times> u32) \<times> 'c) \<Rightarrow> (u8 list \<Rightarrow> 'c \<Rightarrow> u8 list \<times> 'c)
     \<Rightarrow> u8 list \<Rightarrow> u32 \<Rightarrow> ply_buffer \<times> ply_decoder \<times> 'c \<Rightarrow> (ply_buffer \<times> ply_decoder \<times> 'c) option" where
  "AddAACData clock aac_open aac_decode pdata ts s =
     (let (b, d, c) = s
      in if \<not> aac_decoder d
         then (let ((opened, channels, hz), c) = aac_open pdata c;
                   channels = (if channels = 0 then 1 else channels)
               in Some (b, d\<lparr>aac_decoder := opened, aac_channels := channels, aac_sample_hz := hz,
                     aac_frame_per10ms_size := per10ms hz channels\<rparr>, c))
         else (let (pcm, c) = aac_decode pdata c
               in if pcm = [] then Some (b, d, c)
                  else if length (audio_cache d) < a_cache_len d + length pcm then None
                  else do {
                    let cache = take (a_cache_len d) (audio_cache d) @ pcm @ drop (a_cache_len d + length pcm) (audio_cache d);
                    let fsize = sint (aac_frame_per10ms_size d);
                    (n, ct, b, d, c) \<leftarrow> cut_frames (decoder_callback clock) fsize ts cache (a_cache_len d + length pcm) 0 (b, d, c);
                    left \<leftarrow> rd_bytes cache (ct * nat fsize) n;
                    Some (b, d\<lparr>audio_cache := left @ drop n cache, a_cache_len := n\<rparr>, c) }))"

definition AddH264Data ::
  "('c \<Rightarrow> int \<times> 'c) \<Rightarrow> u8 list \<Rightarrow> u32 \<Rightarrow> ply_buffer \<times> ply_decoder \<times> 'c \<Rightarrow> (ply_buffer \<times> ply_decoder \<times> 'c) option" where
  "AddH264Data clock pdata ts s = CacheH264Data (decoder_callback clock) pdata (int (length pdata)) ts s"

section \<open>Runs\<close>

datatype ply_event = Got_video "u8 list" u32 | Got_audio "u8 list" u32 | Play_audio | Tick | Cache_size int

text \<open>A step gives the audio handed to the speaker and the video handed to the callback.\<close>

fun ply_step ::
  "'w ply_callback \<Rightarrow> ply_event \<Rightarrow> ply_buffer \<times> 'w \<Rightarrow> (ply_packet option \<times> ply_packet option \<times> ply_buffer \<times> 'w) option" where
  "ply_step cb (Got_video d ts) s = do { s \<leftarrow> CacheH264Data cb d (int (length d)) ts s; Some (None, None, s) }"
| "ply_step cb (Got_audio d ts) s = do { s \<leftarrow> CachePcmData cb d (int (length d)) ts s; Some (None, None, s) }"
| "ply_step cb Play_audio (b, w) = (let (a, b) = GetPlayAudio b in Some (a, None, b, w))"
| "ply_step cb Tick s = do { (v, s) \<leftarrow> DoDecode cb s; Some (None, v, s) }"
| "ply_step cb (Cache_size n) (b, w) = Some (None, None, SetCacheSize n b, w)"

fun ply_run ::
  "'w ply_callback \<Rightarrow> ply_event list \<Rightarrow> ply_buffer \<times> 'w \<Rightarrow> (ply_packet list \<times> ply_packet list \<times> ply_buffer \<times> 'w) option" where
  "ply_run cb [] s = Some ([], [], s)"
| "ply_run cb (e # es) s =
     do { (a, v, s) \<leftarrow> ply_step cb e s;
          (as, vs, s) \<leftarrow> ply_run cb es s;
          Some ((case a of None \<Rightarrow> as | Some p \<Rightarrow> p # as), (case v of None \<Rightarrow> vs | Some p \<Rightarrow> p # vs), s) }"

definition packet :: "bool \<Rightarrow> u8 list \<Rightarrow> u32 \<Rightarrow> ply_packet" where
  "packet video d ts = \<lparr>pk_data = d, pk_b_video = video, pk_dts = ts\<rparr>"

fun audio_in :: "ply_event list \<Rightarrow> ply_packet list" where
  "audio_in [] = []"
| "audio_in (Got_audio d ts # es) = packet False d ts # audio_in es"
| "audio_in (_ # es) = audio_in es"

fun video_in :: "ply_event list \<Rightarrow> ply_packet list" where
  "video_in [] = []"
| "video_in (Got_video d ts # es) = packet True d ts # video_in es"
| "video_in (_ # es) = video_in es"

lemma SetData_all: "SetData d (int (length d)) ts \<lparr>pk_data = [], pk_b_video = v, pk_dts = 0\<rparr> = Some (packet v d ts)"
  by (cases d) (simp_all add: SetData_def packet_def rd_bytes_def)

section \<open>What the tick leaves alone\<close>

lemma start_play_lists [simp]:
  "lst_audio_buffer (fst (start_play cb p s)) = lst_audio_buffer (fst s)"
  "lst_video_buffer (fst (start_play cb p s)) = lst_video_buffer (fst s)"
  by (cases s; simp add: start_play_def)+

lemma decode_fast_lists:
  "lst_audio_buffer (fst (decode_fast cb t s)) = lst_audio_buffer (fst s)"
  "lst_video_buffer (fst (decode_fast cb t s)) = lst_video_buffer (fst s)"
  by (cases s; simp add: decode_fast_def Let_def split: list.splits)+

lemma decode_cache_lists:
  "lst_audio_buffer (fst (decode_cache cb s)) = lst_audio_buffer (fst s)"
  "lst_video_buffer (fst (decode_cache cb s)) = lst_video_buffer (fst s)"
  by (cases s; simp add: decode_cache_def Let_def split_beta)+

lemma pause_play_lists [simp]:
  "lst_audio_buffer (fst (pause_play cb s)) = lst_audio_buffer (fst s)"
  "lst_video_buffer (fst (pause_play cb s)) = lst_video_buffer (fst s)"
  by (cases s; simp add: pause_play_def Let_def split_beta)+

text \<open>The packet that is due, and what becomes of the lists.\<close>

definition due_video :: "u32 \<Rightarrow> ply_buffer \<Rightarrow> ply_packet option" where
  "due_video curTime b =
     (if sys_fast_video_time b \<noteq> 0 \<and> ply_status b = PS_Normal \<and> lst_video_buffer b \<noteq> []
         \<and> pk_dts (hd (lst_video_buffer b)) \<le> play_video_time curTime b
      then Some (hd (lst_video_buffer b)) else None)"

lemma decode_normal_lists:
  assumes "decode_normal cb t (b, w) = Some (v, b', w')"
  shows "lst_audio_buffer b' = lst_audio_buffer b \<and> lst_video_buffer b = (case v of None \<Rightarrow> [] | Some p \<Rightarrow> [p]) @ lst_video_buffer b'
    \<and> v = (if lst_video_buffer b \<noteq> [] \<and> pk_dts (hd (lst_video_buffer b)) \<le> play_video_time t b then Some (hd (lst_video_buffer b)) else None)"
proof -
  have fin: "v' = v0 \<and> lst_audio_buffer b'' = lst_audio_buffer b0 \<and> lst_video_buffer b'' = lst_video_buffer b0"
    if "(let (b, w) = (if c then pause_play cb (b0, w0) else (b0, w0)) in Some (v0, b\<lparr>buf_cache_time := x\<rparr>, w)) = Some (v', b'', w'')"
    for c b0 w0 x v0 v' b'' w''
    using that pause_play_lists [of cb "(b0, w0)"] by (cases "pause_play cb (b0, w0)"; cases c) auto
  show ?thesis
  proof (cases "lst_video_buffer b")
    case Nil
    then show ?thesis using assms fin [of "media_buf_time b \<le> PLY_RED_TIME" b w None "sint (media_buf_time b)" v b' w']
      by (simp add: decode_normal_def Let_def)
  next
    case (Cons p rest)
    show ?thesis
    proof (cases "pk_dts p \<le> play_video_time t b")
      case True
      then obtain ok w1 where "OnNeedDecodeData cb p w = Some (ok, w1)"
        using assms Cons by (auto simp: decode_normal_def Let_def ub_simps)
      then show ?thesis using assms Cons True
          fin [of "media_buf_time b \<le> PLY_RED_TIME" "b\<lparr>lst_video_buffer := rest\<rparr>" w1 "Some p" "sint (media_buf_time b)" v b' w']
        by (simp add: decode_normal_def Let_def)
    next
      case False
      then show ?thesis using assms Cons fin [of "media_buf_time b \<le> PLY_RED_TIME" b w None "sint (media_buf_time b)" v b' w']
        by (simp add: decode_normal_def Let_def)
    qed
  qed
qed

lemma DoDecode_lists:
  assumes "DoDecode cb (b, w) = Some (v, b', w')"
  shows "lst_audio_buffer b' = lst_audio_buffer b \<and> lst_video_buffer b = (case v of None \<Rightarrow> [] | Some p \<Rightarrow> [p]) @ lst_video_buffer b'
    \<and> v = due_video (word_of_int (fst (cb_time cb w))) b"
proof -
  obtain t w1 where t: "cb_time cb w = (t, w1)" by (cases "cb_time cb w")
  show ?thesis
  proof (cases "sys_fast_video_time b = 0")
    case True
    then show ?thesis using assms t by (simp add: DoDecode_def due_video_def)
  next
    case False
    show ?thesis
    proof (cases "ply_status b")
      case PS_Fast
      then show ?thesis using assms t False decode_fast_lists [of cb "word_of_int t" "(b, w1)"] by (simp add: DoDecode_def due_video_def)
    next
      case PS_Normal
      then have "decode_normal cb (word_of_int t) (b, w1) = Some (v, b', w')" using assms t False by (simp add: DoDecode_def)
      moreover have "due_video (word_of_int t) b = (if lst_video_buffer b \<noteq> [] \<and> pk_dts (hd (lst_video_buffer b)) \<le> play_video_time (word_of_int t) b
          then Some (hd (lst_video_buffer b)) else None)"
        using False PS_Normal by (simp add: due_video_def)
      ultimately show ?thesis using decode_normal_lists unfolding t fst_conv by metis
    next
      case PS_Cache
      then show ?thesis using assms t False decode_cache_lists [of cb "(b, w1)"] by (simp add: DoDecode_def due_video_def)
    qed
  qed
qed

lemma ply_step_lists:
  assumes "ply_step cb e (b, w) = Some (a, v, b', w')"
  shows "lst_audio_buffer b @ audio_in [e] = (case a of None \<Rightarrow> [] | Some p \<Rightarrow> [p]) @ lst_audio_buffer b'
    \<and> lst_video_buffer b @ video_in [e] = (case v of None \<Rightarrow> [] | Some p \<Rightarrow> [p]) @ lst_video_buffer b'"
proof (cases e)
  case (Got_video d ts)
  then show ?thesis using assms by (auto simp: CacheH264Data_def SetData_all Let_def split_beta split: if_splits)
next
  case (Got_audio d ts)
  then show ?thesis using assms by (auto simp: CachePcmData_def SetData_all Let_def split_beta split: if_splits)
next
  case Play_audio
  then show ?thesis using assms by (auto simp: GetPlayAudio_def split: list.splits)
next
  case Tick
  then show ?thesis using assms DoDecode_lists by (fastforce simp: ub_simps split_beta)
next
  case (Cache_size n)
  then show ?thesis using assms by (auto simp: SetCacheSize_def)
qed

lemma in_Cons: "audio_in (e # es) = audio_in [e] @ audio_in es" "video_in (e # es) = video_in [e] @ video_in es"
  by (cases e; simp)+

lemma ply_run_lists:
  assumes "ply_run cb es (b, w) = Some (as, vs, b', w')"
  shows "as @ lst_audio_buffer b' = lst_audio_buffer b @ audio_in es \<and> vs @ lst_video_buffer b' = lst_video_buffer b @ video_in es"
  using assms
proof (induction es arbitrary: b w as vs)
  case Nil
  then show ?case by simp
next
  case (Cons e es)
  then obtain a v b1 w1 as' vs' where s: "ply_step cb e (b, w) = Some (a, v, b1, w1)"
    and r: "ply_run cb es (b1, w1) = Some (as', vs', b', w')"
    and o: "as = (case a of None \<Rightarrow> as' | Some p \<Rightarrow> p # as')" "vs = (case v of None \<Rightarrow> vs' | Some p \<Rightarrow> p # vs')"
    by (auto simp: ub_simps)
  show ?case
    using ply_step_lists [OF s] Cons.IH [OF r] unfolding o in_Cons [of e es]
    by (cases a; cases v) (auto simp flip: append_assoc)
qed

text \<open>
  Whatever the clock does and whenever the player pauses, the audio played and the video handed to
  the decoder are what was received, in order, without loss or repetition; what is missing is still
  queued.
\<close>
theorem ply_order:
  assumes "ply_run cb es (new_ply_buffer, w) = Some (as, vs, b, w')"
  shows "as @ lst_audio_buffer b = audio_in es \<and> vs @ lst_video_buffer b = video_in es"
  using ply_run_lists [OF assms] by (simp add: new_ply_buffer_def)

text \<open>
  A tick hands out the first waiting packet exactly when the player runs and the packet's time has
  come, by the audio that plays or, without any audio, by the clock; the rest of the queue is kept.
\<close>
theorem video_due:
  assumes "DoDecode cb (b, w) = Some (v, b', w')"
  shows "v = due_video (word_of_int (fst (cb_time cb w))) b \<and> lst_video_buffer b' = (if v = None then lst_video_buffer b else tl (lst_video_buffer b))"
proof -
  have "lst_video_buffer b = (case v of None \<Rightarrow> [] | Some p \<Rightarrow> [p]) @ lst_video_buffer b'" "v = due_video (word_of_int (fst (cb_time cb w))) b"
    using DoDecode_lists [OF assms] by blast+
  moreover from this(1) have "lst_video_buffer b' = (if v = None then lst_video_buffer b else tl (lst_video_buffer b))"
    by (cases v) simp_all
  ultimately show ?thesis by blast
qed

section \<open>The contract of the callback\<close>

text \<open>
  What the buffer asks of its callback: starting and pausing are seen by \<open>plays\<close>, and taking a
  packet that \<open>fits\<close> succeeds without starting or pausing.
\<close>

locale ply_sink =
  fixes cb :: "'w ply_callback" and plays :: "'w \<Rightarrow> bool" and fits :: "ply_packet \<Rightarrow> bool"
  assumes time_plays: "plays (snd (cb_time cb w)) = plays w"
    and play_plays: "plays (OnPlay cb w)"
    and pause_plays: "\<not> plays (OnPause cb w)"
    and need_plays: "fits p \<Longrightarrow> \<exists>ok w'. OnNeedDecodeData cb p w = Some (ok, w') \<and> plays w' = plays w"
begin

definition in_step :: "ply_buffer \<times> 'w \<Rightarrow> bool" where
  "in_step s \<longleftrightarrow> plays (snd s) = (ply_status (fst s) = PS_Normal) \<and> cache_delta (fst s) \<in> {1, 2, 4, 8, 16}
     \<and> 250 < cache_time (fst s) \<and> cache_time (fst s) \<le> 600000 \<and> (\<forall>p \<in> set (lst_video_buffer (fst s)). fits p)"

lemma time_step: "plays (snd (cb_time cb w)) = plays w" "cb_time cb w = (t, w') \<Longrightarrow> plays w' = plays w"
  using time_plays [of w] by auto

lemma in_step_start: "in_step (b, w) \<Longrightarrow> in_step (start_play cb p (b, w))"
  by (simp add: in_step_def start_play_def play_plays)

lemma in_step_fast:
  assumes "in_step (b, w)"
  shows "in_step (decode_fast cb t (b, w))"
  using assms in_step_start [OF assms] by (simp add: decode_fast_def Let_def split: list.splits)

lemma in_step_pause:
  assumes "in_step (b, w)"
  shows "in_step (pause_play cb (b, w))"
proof -
  obtain t w1 where "cb_time cb (OnPause cb w) = (t, w1)" by (cases "cb_time cb (OnPause cb w)")
  with time_step(2) [OF this] show ?thesis using assms pause_plays [of w]
    by (auto simp: in_step_def pause_play_def Let_def)
qed

lemma in_step_buf: "in_step (b\<lparr>buf_cache_time := x\<rparr>, w) \<longleftrightarrow> in_step (b, w)"
  "in_step (b\<lparr>sys_fast_video_time := y\<rparr>, w) \<longleftrightarrow> in_step (b, w)"
  by (simp_all add: in_step_def)

lemma in_step_cache:
  assumes "in_step (b, w)"
  shows "in_step (decode_cache cb (b, w))"
proof -
  obtain t w1 where t: "cb_time cb w = (t, w1)" by (cases "cb_time cb w")
  obtain t2 w2 where t2: "cb_time cb w1 = (t2, w2)" by (cases "cb_time cb w1")
  have "plays w1 = plays w" "plays w2 = plays w" using time_step(2) [OF t] time_step(2) [OF t2] by auto
  then show ?thesis using assms t t2 play_plays [of w1]
    by (auto simp: in_step_def decode_cache_def Let_def)
qed

lemma in_step_normal:
  assumes "in_step (b, w)"
  shows "\<exists>v s. decode_normal cb t (b, w) = Some (v, s) \<and> in_step s"
proof -
  have fin: "\<exists>s. (let (b, w) = (if c then pause_play cb (bb, ww) else (bb, ww)) in Some (vid, b\<lparr>buf_cache_time := x\<rparr>, w)) = Some (vid, s) \<and> in_step s"
    if "in_step (bb, ww)" for c bb ww x and vid :: "ply_packet option"
    using that in_step_pause [OF that] by (cases "pause_play cb (bb, ww)"; cases c) (auto simp: in_step_buf)
  show ?thesis
  proof (cases "lst_video_buffer b \<noteq> [] \<and> pk_dts (hd (lst_video_buffer b)) \<le> play_video_time t b")
    case True
    then obtain p rest where p: "lst_video_buffer b = p # rest" "pk_dts p \<le> play_video_time t b" by (cases "lst_video_buffer b") auto
    have "fits p" using assms p(1) by (simp add: in_step_def)
    from need_plays [OF this] obtain ok w1 where n: "OnNeedDecodeData cb p w = Some (ok, w1)" "plays w1 = plays w" by blast
    have "in_step (b\<lparr>lst_video_buffer := rest\<rparr>, w1)" using assms p(1) n(2) by (simp add: in_step_def)
    from fin [where c = "media_buf_time b \<le> PLY_RED_TIME" and x = "sint (media_buf_time b)" and vid = "Some p", OF this]
    show ?thesis using p n(1) by (cases "media_buf_time b \<le> PLY_RED_TIME"; simp add: decode_normal_def Let_def; blast)
  next
    case False
    from fin [where c = "media_buf_time b \<le> PLY_RED_TIME" and x = "sint (media_buf_time b)" and vid = None, OF assms]
    show ?thesis using False by (cases "lst_video_buffer b"; cases "media_buf_time b \<le> PLY_RED_TIME"; simp add: decode_normal_def Let_def; blast)
  qed
qed

lemma in_step_tick:
  assumes "in_step s"
  shows "\<exists>v s'. DoDecode cb s = Some (v, s') \<and> in_step s'"
proof -
  obtain b w where s: "s = (b, w)" by (cases s)
  obtain t w1 where t: "cb_time cb w = (t, w1)" by (cases "cb_time cb w")
  have i: "in_step (b, w1)" using assms time_step(2) [OF t] by (simp add: s in_step_def)
  show ?thesis
  proof (cases "sys_fast_video_time b = 0")
    case True
    then show ?thesis using i by (simp add: s DoDecode_def t)
  next
    case False
    then show ?thesis using in_step_fast [OF i, of "word_of_int t"] in_step_cache [OF i] in_step_normal [OF i, of "word_of_int t"]
      by (cases "ply_status b"; cases "decode_fast cb (word_of_int t) (b, w1)"; cases "decode_cache cb (b, w1)")
        (auto simp: s DoDecode_def t)
  qed
qed

fun event_fits :: "ply_event \<Rightarrow> bool" where
  "event_fits (Got_video d ts) \<longleftrightarrow> fits (packet True d ts)"
| "event_fits _ \<longleftrightarrow> True"

lemma in_step_event:
  assumes "in_step s" "event_fits e"
  shows "\<exists>a v s'. ply_step cb e s = Some (a, v, s') \<and> in_step s'"
proof -
  obtain b w where s: "s = (b, w)" by (cases s)
  obtain t w1 where t: "cb_time cb w = (t, w1)" by (cases "cb_time cb w")
  have w1: "plays w1 = plays w" using time_step(2) [OF t] .
  show ?thesis
  proof (cases e)
    case (Got_video d ts)
    then show ?thesis using assms w1 by (auto simp: s CacheH264Data_def SetData_all t Let_def in_step_def)
  next
    case (Got_audio d ts)
    then show ?thesis using assms w1 by (auto simp: s CachePcmData_def SetData_all t Let_def in_step_def)
  next
    case Play_audio
    then show ?thesis using assms by (auto simp: s GetPlayAudio_def in_step_def split: list.splits)
  next
    case Tick
    then show ?thesis using in_step_tick [OF assms(1)] by fastforce
  next
    case (Cache_size n)
    then show ?thesis using assms by (auto simp: s SetCacheSize_def in_step_def)
  qed
qed

lemma in_step_run:
  assumes "in_step s" "\<forall>e \<in> set es. event_fits e"
  shows "\<exists>as vs s'. ply_run cb es s = Some (as, vs, s') \<and> in_step s'"
  using assms
proof (induction es arbitrary: s)
  case Nil
  then show ?case by simp
next
  case (Cons e es)
  obtain a v s1 where s1: "ply_step cb e s = Some (a, v, s1)" "in_step s1"
    using in_step_event [OF Cons.prems(1)] Cons.prems(2) by force
  then show ?case using Cons.IH [OF s1(2)] Cons.prems(2) by fastforce
qed

lemma in_step_new: "\<not> plays w \<Longrightarrow> in_step (new_ply_buffer, w)"
  by (simp add: in_step_def new_ply_buffer_def)

end

text \<open>The decoder keeps the contract for packets that have a fifth byte.\<close>

interpretation decoder: ply_sink "decoder_callback clock" "\<lambda>(d, c). playing d" "\<lambda>p. 5 \<le> length (pk_data p)" for clock
  by unfold_locales
    (auto simp: decoder_callback_def decoder_OnPlay_def decoder_OnPause_def decoder_OnNeedDecodeData_def split: prod.splits)

text \<open>
  C27. The player over its decoder: no run over video packets of at least five bytes fails, the decoder
  plays exactly while the buffer is in its running state, and the cache time stays between 0.25 s
  and ten minutes, with a step of 1, 2, 4, 8 or 16 s.
\<close>
theorem ply_in_step:
  assumes "\<not> playing d" "\<forall>x ts. Got_video x ts \<in> set es \<longrightarrow> 5 \<le> length x"
  shows "\<exists>as vs b d' c'. ply_run (decoder_callback clock) es (new_ply_buffer, d, c) = Some (as, vs, b, d', c')
    \<and> playing d' = (ply_status b = PS_Normal) \<and> cache_delta b \<in> {1, 2, 4, 8, 16} \<and> 250 < cache_time b \<and> cache_time b \<le> 600000"
proof -
  have "\<forall>e \<in> set es. decoder.event_fits e"
  proof
    fix e assume "e \<in> set es"
    then show "decoder.event_fits e" using assms(2) by (cases e rule: ply_event.exhaust) (auto simp: packet_def)
  qed
  moreover have "decoder.in_step (new_ply_buffer, d, c)" using assms(1) by (intro decoder.in_step_new) simp
  ultimately obtain as vs s' where "ply_run (decoder_callback clock) es (new_ply_buffer, d, c) = Some (as, vs, s')"
    "decoder.in_step s'"
    using decoder.in_step_run by blast
  then show ?thesis by (cases s') (auto simp: decoder.in_step_def)
qed

section \<open>When the audio ends\<close>

lemma stalled_step:
  assumes "ply_status b = PS_Cache" "got_audio b" "lst_audio_buffer b = []" "250 < cache_time b" "cache_time b \<le> 600000"
    "ply_step cb e (b, w) = Some (a, v, b', w')" "\<forall>d ts. e \<noteq> Got_audio d ts"
  shows "v = None \<and> ply_status b' = PS_Cache \<and> got_audio b' \<and> lst_audio_buffer b' = [] \<and> 250 < cache_time b' \<and> cache_time b' \<le> 600000"
proof (cases e)
  case (Got_video d ts)
  then show ?thesis using assms by (auto simp: CacheH264Data_def SetData_all Let_def split_beta split: if_splits)
next
  case (Got_audio d ts)
  then show ?thesis using assms(7) by simp
next
  case Play_audio
  then show ?thesis using assms by (auto simp: GetPlayAudio_def)
next
  case Tick
  have z: "media_buf_time b = 0" using assms(2,3) by (simp add: media_buf_time_def media_span_def)
  have "(word_of_int (cache_time b) :: u32) - 250 = word_of_int (cache_time b - 250)" by simp
  moreover have "uint (word_of_int (cache_time b - 250) :: u32) = cache_time b - 250"
    using assms(4,5) by (subst uint_word_of_int) (simp add: take_bit_int_eq_self)
  ultimately have "\<not> (word_of_int (cache_time b) - 250 \<le> (0 :: u32))"
    using assms(4) by (simp add: word_le_def)
  then show ?thesis using Tick assms z
    by (auto simp: DoDecode_def decode_cache_def Let_def split_beta split: if_splits)
next
  case (Cache_size n)
  then show ?thesis using assms by (auto simp: SetCacheSize_def)
qed

text \<open>
  C37. Once audio was received, a player that waits with an empty audio queue waits until more audio
  comes: no video is shown, however much is queued and however much time passes.
\<close>
theorem audio_end_stalls:
  assumes "ply_status b = PS_Cache" "got_audio b" "lst_audio_buffer b = []" "250 < cache_time b" "cache_time b \<le> 600000"
    "ply_run cb es (b, w) = Some (as, vs, b', w')" "\<forall>d ts. Got_audio d ts \<notin> set es"
  shows "vs = [] \<and> ply_status b' = PS_Cache \<and> lst_video_buffer b' = lst_video_buffer b @ video_in es"
proof -
  have "vs = [] \<and> ply_status b' = PS_Cache"
    using assms
  proof (induction es arbitrary: b w as vs)
    case (Cons e es)
    then obtain a v b1 w1 as' vs' where s: "ply_step cb e (b, w) = Some (a, v, b1, w1)"
      and r: "ply_run cb es (b1, w1) = Some (as', vs', b', w')"
      and o: "vs = (case v of None \<Rightarrow> vs' | Some p \<Rightarrow> p # vs')"
      by (auto simp: ub_simps)
    have "\<forall>d ts. e \<noteq> Got_audio d ts" "\<forall>d ts. Got_audio d ts \<notin> set es" using Cons.prems(7) by auto
    with stalled_step [OF Cons.prems(1-5) s this(1)] Cons.IH [OF _ _ _ _ _ r] show ?case unfolding o by simp
  qed simp
  then show ?thesis using ply_run_lists [OF assms(6)] by simp
qed

section \<open>Cutting decoded audio\<close>

lemma CachePcm_frame:
  assumes "0 < fsize" "nat fsize \<le> length data"
  shows "\<exists>b' w'. CachePcmData cb data fsize ts (b, w) = Some (b', w')
    \<and> lst_audio_buffer b' = lst_audio_buffer b @ [packet False (take (nat fsize) data) ts]
    \<and> lst_video_buffer b' = lst_video_buffer b"
proof -
  have "SetData data fsize ts \<lparr>pk_data = [], pk_b_video = False, pk_dts = 0\<rparr> = Some (packet False (take (nat fsize) data) ts)"
    using assms by (simp add: SetData_def packet_def rd_bytes_def)
  then show ?thesis by (simp add: CachePcmData_def Let_def split_beta)
qed

text \<open>The frames are the bytes of the array one after the other, all of the frame size, until at most one is left.\<close>

lemma cut_frames_result:
  assumes "0 < fsize" "ct * nat fsize + n \<le> length cache"
  shows "\<exists>n' ct' b' w' ps. cut_frames cb fsize ts cache n ct (b, w) = Some (n', ct', b', w')
    \<and> lst_audio_buffer b' = lst_audio_buffer b @ map (\<lambda>d. packet False d ts) ps
    \<and> concat ps @ take n' (drop (ct' * nat fsize) cache) = take n (drop (ct * nat fsize) cache)
    \<and> (\<forall>d \<in> set ps. length d = nat fsize) \<and> int n' \<le> fsize \<and> n' \<le> n \<and> ct' * nat fsize + n' = ct * nat fsize + n
    \<and> lst_video_buffer b' = lst_video_buffer b"
  using assms(2)
proof (induction n arbitrary: ct b w rule: less_induct)
  case (less n)
  let ?f = "nat fsize"
  show ?case
  proof (cases "fsize < int n")
    case False
    then show ?thesis by (subst cut_frames.simps) (auto intro!: exI [of _ "[]"])
  next
    case True
    have f: "0 < ?f" "?f < n" using assms(1) True by auto
    have "?f \<le> length (drop (ct * ?f) cache)" using less.prems f by simp
    from CachePcm_frame [OF assms(1) this, of cb ts b w] obtain b1 w1 where
      c: "CachePcmData cb (drop (ct * ?f) cache) fsize ts (b, w) = Some (b1, w1)"
        "lst_audio_buffer b1 = lst_audio_buffer b @ [packet False (take ?f (drop (ct * ?f) cache)) ts]"
        "lst_video_buffer b1 = lst_video_buffer b" by blast
    have "n - ?f < n" "(ct + 1) * ?f + (n - ?f) \<le> length cache" using f less.prems by (simp_all add: add.commute)
    from less.IH [OF this, of b1 w1] obtain n' ct' b' w' ps where
      r: "cut_frames cb fsize ts cache (n - ?f) (ct + 1) (b1, w1) = Some (n', ct', b', w')"
        "lst_audio_buffer b' = lst_audio_buffer b1 @ map (\<lambda>d. packet False d ts) ps"
        "concat ps @ take n' (drop (ct' * ?f) cache) = take (n - ?f) (drop ((ct + 1) * ?f) cache)"
        "\<forall>d \<in> set ps. length d = ?f" "int n' \<le> fsize" "n' \<le> n - ?f" "ct' * ?f + n' = (ct + 1) * ?f + (n - ?f)"
        "lst_video_buffer b' = lst_video_buffer b1" by blast
    have e: "cut_frames cb fsize ts cache n ct (b, w) = Some (n', ct', b', w')"
      using True assms(1) c(1) r(1) by (subst cut_frames.simps) simp
    let ?p = "take ?f (drop (ct * ?f) cache)"
    have "take n (drop (ct * ?f) cache) = take (?f + (n - ?f)) (drop (ct * ?f) cache)" using f by simp
    also have "\<dots> = ?p @ take (n - ?f) (drop ((ct + 1) * ?f) cache)" unfolding take_add by (simp add: add.commute)
    finally have "take n (drop (ct * ?f) cache) = ?p @ take (n - ?f) (drop ((ct + 1) * ?f) cache)" .
    then have "concat (?p # ps) @ take n' (drop (ct' * ?f) cache) = take n (drop (ct * ?f) cache)"
      using r(3) by (simp only: concat.simps append_assoc)
    moreover have "lst_audio_buffer b' = lst_audio_buffer b @ map (\<lambda>d. packet False d ts) (?p # ps)" using c(2) r(2) by simp
    moreover have "\<forall>d \<in> set (?p # ps). length d = ?f" using f less.prems r(4) by simp
    moreover have "n' \<le> n" "ct' * ?f + n' = ct * ?f + n" using r(6,7) f(2) by (simp_all add: add_mult_distrib)
    moreover have "lst_video_buffer b' = lst_video_buffer b" using c(3) r(8) by simp
    ultimately show ?thesis using e r(5) by blast
  qed
qed

text \<open>
  C28. Decoded audio is cut without loss: the frames queued and the bytes left over are the bytes that were
  left before and the newly decoded ones; all frames are ten milliseconds long, and at most one
  frame's worth is left over. It needs room in the array and a frame size above zero.
\<close>
theorem pcm_frames:
  assumes "aac_decoder d" "aac_decode pdata c = (pcm, c1)" "0 < sint (aac_frame_per10ms_size d)"
    "a_cache_len d + length pcm \<le> length (audio_cache d)" "int (a_cache_len d) \<le> sint (aac_frame_per10ms_size d)"
  shows "\<exists>b' d' c' ps. AddAACData clock aac_open aac_decode pdata ts (b, d, c) = Some (b', d', c')
    \<and> lst_audio_buffer b' = lst_audio_buffer b @ map (\<lambda>x. packet False x ts) ps
    \<and> concat ps @ take (a_cache_len d') (audio_cache d') = take (a_cache_len d) (audio_cache d) @ pcm
    \<and> (\<forall>x \<in> set ps. int (length x) = sint (aac_frame_per10ms_size d))
    \<and> int (a_cache_len d') \<le> sint (aac_frame_per10ms_size d) \<and> length (audio_cache d') = length (audio_cache d)"
proof (cases "pcm = []")
  case True
  then show ?thesis using assms by (intro exI [of _ b] exI [of _ d] exI [of _ c1] exI [of _ "[]"]) (simp add: AddAACData_def)
next
  case False
  let ?f = "sint (aac_frame_per10ms_size d)"
  define cache where "cache = take (a_cache_len d) (audio_cache d) @ pcm @ drop (a_cache_len d + length pcm) (audio_cache d)"
  let ?n = "a_cache_len d + length pcm"
  have len: "length cache = length (audio_cache d)" "0 * nat ?f + ?n \<le> length cache" using assms(4) by (simp_all add: cache_def)
  from cut_frames_result [OF assms(3) len(2), of "decoder_callback clock" ts b "(d, c1)", unfolded mult_0 drop_0 add_0]
  obtain n' ct' b' d' c' ps where
    r: "cut_frames (decoder_callback clock) ?f ts cache ?n 0 (b, d, c1) = Some (n', ct', b', d', c')"
      "lst_audio_buffer b' = lst_audio_buffer b @ map (\<lambda>x. packet False x ts) ps"
      "concat ps @ take n' (drop (ct' * nat ?f) cache) = take ?n cache"
      "\<forall>x \<in> set ps. length x = nat ?f" "int n' \<le> ?f" "ct' * nat ?f + n' = ?n"
    by (metis surj_pair)
  define left where "left = take n' (drop (ct' * nat ?f) cache)"
  have l: "rd_bytes cache (ct' * nat ?f) n' = Some left" "length left = n'"
    using r(6) len by (simp_all add: rd_bytes_def left_def)
  let ?d = "d'\<lparr>audio_cache := left @ drop n' cache, a_cache_len := n'\<rparr>"
  have e: "AddAACData clock aac_open aac_decode pdata ts (b, d, c) = Some (b', ?d, c')"
    using assms(1,2,4) False r(1) l(1) by (simp add: AddAACData_def Let_def cache_def)
  have "take ?n cache = take (a_cache_len d) (audio_cache d) @ pcm" using assms(4) by (simp add: cache_def)
  moreover have "take (a_cache_len ?d) (audio_cache ?d) = left" using l(2) by simp
  ultimately have "concat ps @ take (a_cache_len ?d) (audio_cache ?d) = take (a_cache_len d) (audio_cache d) @ pcm"
    using r(3) unfolding left_def by (simp only:)
  moreover have "length (audio_cache ?d) = length (audio_cache d)" using r(6) len l(2) by simp
  moreover have "int (a_cache_len ?d) \<le> ?f" using r(5) by simp
  moreover have "\<forall>x \<in> set ps. int (length x) = ?f" using r(4) assms(3) by simp
  ultimately show ?thesis using e r(2) by blast
qed

text \<open>A frame size of zero, which a sample rate below 100 Hz gives, makes the cutting loop for ever.\<close>

lemma cut_frames_zero:
  assumes "cut_frames cb 0 ts cache n ct s = Some r"
  shows "n = 0"
proof -
  have "fs = 0 \<longrightarrow> m = 0" if "cut_frames cb fs ts cache m k s = Some r" for fs m k s
  proof (rule cut_frames.raw_induct [where P = "\<lambda>cb fs ts cache m k s r. fs = 0 \<longrightarrow> m = 0", OF _ that])
    fix f cb fs ts cache m k s r
    assume IH: "\<And>cb fs ts cache m k s r. f cb fs ts cache m k s = Some r \<Longrightarrow> fs = 0 \<longrightarrow> m = 0"
      and e: "(if fs < int m then if fs < 0 then None
           else do { s \<leftarrow> CachePcmData cb (drop (k * nat fs) cache) fs ts s;
                     f cb fs ts cache (m - nat fs) (k + 1) s }
      else Some (m, k, s)) = Some r"
    show "fs = 0 \<longrightarrow> m = 0"
      using e by (auto simp: ub_simps split: if_splits dest!: IH)
  qed
  then show ?thesis using assms by blast
qed

lemma silent_rate_stuck:
  assumes "aac_decoder d" "aac_decode pdata c = (pcm, c1)" "pcm \<noteq> []" "aac_sample_hz d < 100"
    "aac_frame_per10ms_size d = per10ms (aac_sample_hz d) (aac_channels d)"
  shows "AddAACData clock aac_open aac_decode pdata ts (b, d, c) = None"
proof -
  have "aac_sample_hz d div 100 = 0" using assms(4) by (simp add: div_word_less)
  then have z: "sint (aac_frame_per10ms_size d) = 0" by (simp add: assms(5) per10ms_def)
  have "cut_frames (decoder_callback clock) 0 ts cache (a_cache_len d + length pcm) 0 (b, d, c1) = None" for cache
    using cut_frames_zero [of "decoder_callback clock" ts cache "a_cache_len d + length pcm" 0 "(b, d, c1)"] assms(3)
    by (cases "cut_frames (decoder_callback clock) 0 ts cache (a_cache_len d + length pcm) 0 (b, d, c1)") auto
  then show ?thesis using assms(1-3) z by (simp add: AddAACData_def Let_def)
qed

section \<open>A player\<close>

definition tick_clock :: "nat \<Rightarrow> int \<times> nat" where
  "tick_clock n = (int (1000 + 5 * n), n + 1)"

definition sample_events :: "ply_event list" where
  "sample_events = [Got_video [0, 0, 0, 1, 0x67] 40, Got_audio [1, 2] 40, Got_audio [3, 4] 400, Tick, Tick, Play_audio]"

lemma sample_run:
  "case ply_run (decoder_callback tick_clock) sample_events (new_ply_buffer, new_ply_decoder [], 0) of
     Some (as, vs, b, w) \<Rightarrow> as = [packet False [1, 2] 40] | None \<Rightarrow> False"
  by code_simp

theorem ply_order_witness:
  "case ply_run (decoder_callback tick_clock) sample_events (new_ply_buffer, new_ply_decoder [], 0) of
     Some (as, vs, b, w) \<Rightarrow> as @ lst_audio_buffer b = audio_in sample_events \<and> vs @ lst_video_buffer b = video_in sample_events
   | None \<Rightarrow> False"
proof -
  obtain as vs b w where "ply_run (decoder_callback tick_clock) sample_events (new_ply_buffer, new_ply_decoder [], 0) = Some (as, vs, b, w)"
    using sample_run by (auto split: option.splits)
  with ply_order [OF this] show ?thesis by simp
qed

theorem video_due_witness:
  "\<exists>v b' w'. DoDecode (decoder_callback tick_clock) (new_ply_buffer, new_ply_decoder [], 0) = Some (v, b', w')
    \<and> v = due_video 1000 new_ply_buffer \<and> lst_video_buffer b' = []"
proof -
  have "\<exists>v b' w'. DoDecode (decoder_callback tick_clock) (new_ply_buffer, new_ply_decoder [], 0) = Some (v, b', w')"
    by (simp add: DoDecode_def decoder_callback_def tick_clock_def new_ply_buffer_def)
  then obtain v b' w' where d: "DoDecode (decoder_callback tick_clock) (new_ply_buffer, new_ply_decoder [], 0) = Some (v, b', w')" by blast
  from video_due [OF d] d show ?thesis by (simp add: decoder_callback_def tick_clock_def new_ply_buffer_def)
qed

theorem ply_in_step_witness:
  "\<exists>as vs b d' c'. ply_run (decoder_callback tick_clock) sample_events (new_ply_buffer, new_ply_decoder [], 0) = Some (as, vs, b, d', c')
    \<and> playing d' = (ply_status b = PS_Normal)"
  using ply_in_step [of "new_ply_decoder []" sample_events tick_clock 0]
  by (auto simp: new_ply_decoder_def sample_events_def)

definition stalled :: ply_buffer where
  "stalled = new_ply_buffer\<lparr>ply_status := PS_Cache, got_audio := True, sys_fast_video_time := 1000\<rparr>"

theorem audio_end_stalls_witness:
  "\<exists>as vs b d c. ply_run (decoder_callback tick_clock) [Got_video [0, 0, 0, 1, 0x65] 80, Tick, Tick] (stalled, new_ply_decoder [], 0)
      = Some (as, vs, b, d, c) \<and> vs = [] \<and> lst_video_buffer b = [packet True [0, 0, 0, 1, 0x65] 80]"
proof -
  have "case ply_run (decoder_callback tick_clock) [Got_video [0, 0, 0, 1, 0x65] 80, Tick, Tick] (stalled, new_ply_decoder [], 0) of
      Some _ \<Rightarrow> True | None \<Rightarrow> False" by code_simp
  then obtain as vs b d c where r: "ply_run (decoder_callback tick_clock) [Got_video [0, 0, 0, 1, 0x65] 80, Tick, Tick]
      (stalled, new_ply_decoder [], 0) = Some (as, vs, b, d, c)" by (auto split: option.splits)
  have "vs = [] \<and> ply_status b = PS_Cache \<and> lst_video_buffer b = lst_video_buffer stalled @ video_in [Got_video [0, 0, 0, 1, 0x65] 80, Tick, Tick]"
    by (rule audio_end_stalls [OF _ _ _ _ _ r]) (simp_all add: stalled_def new_ply_buffer_def)
  with r show ?thesis by (simp add: stalled_def new_ply_buffer_def)
qed

text \<open>Audio of 100 Hz in mono has two bytes in ten milliseconds.\<close>

definition mono_decoder :: ply_decoder where
  "mono_decoder = (new_ply_decoder [7, 0, 0, 0, 0, 0])\<lparr>aac_decoder := True, a_cache_len := 1, aac_frame_per10ms_size := per10ms 100 1\<rparr>"

theorem pcm_frames_witness:
  "\<exists>b d c ps. AddAACData tick_clock (\<lambda>_ c. ((True, 1, 100), c)) (\<lambda>x c. (x, c)) [8, 9, 10] 5 (new_ply_buffer, mono_decoder, 0) = Some (b, d, c)
    \<and> concat ps @ take (a_cache_len d) (audio_cache d) = [7, 8, 9, 10]"
proof -
  have "per10ms 100 1 = 2" by (simp add: per10ms_def)
  then have m: "aac_decoder mono_decoder" "sint (aac_frame_per10ms_size mono_decoder) = 2" "a_cache_len mono_decoder = 1"
    "audio_cache mono_decoder = [7, 0, 0, 0, 0, 0]"
    by (simp_all add: mono_decoder_def new_ply_decoder_def)
  show ?thesis
    using pcm_frames [of mono_decoder "\<lambda>x c. (x, c)" "[8, 9, 10]" "0::nat" "[8, 9, 10]" 0 tick_clock "\<lambda>_ c. ((True, 1, 100), c)" 5 new_ply_buffer]
    unfolding m by (simp add: m) blast
qed

end
