(* ===== verification/Rtmp_Pull.thy ===== *)
theory Rtmp_Pull
  imports Rtmp_Session
begin

text \<open>
  The player's connection to the server, \<^verbatim>\<open>AnyCore/anyrtmpull.cc\<close>: the thread that connects and
  reads, and the two functions that turn samples of the stream into H.264 with start codes and into
  AAC with ADTS headers. What the library demultiplexes is a parameter. Callbacks go to a log.
\<close>

section \<open>Payload buffers\<close>

text \<open>\<^verbatim>\<open>DemuxData\<close>: the bytes in use and the size of the array. What does not fit is left out.\<close>

record demux_data =
  dd_data :: "u8 list"
  dd_size :: nat

definition demux_append :: "u8 list \<Rightarrow> demux_data \<Rightarrow> demux_data" where
  "demux_append pData d =
     (if dd_size d < length (dd_data d) + length pData then d else d\<lparr>dd_data := dd_data d @ pData\<rparr>)"

definition demux_reset :: "demux_data \<Rightarrow> demux_data" where
  "demux_reset d = d\<lparr>dd_data := []\<rparr>"

section \<open>Samples\<close>

text \<open>A unit is a pointer, perhaps null, and a size; the enumerations are those of the code.\<close>

record sample_unit =
  su_bytes :: "u8 list option"
  su_size :: int

record codec_sample =
  sample_units :: "sample_unit list"
  frame_type :: nat
  avc_packet_type :: nat
  has_idr :: bool
  acodec :: nat
  aac_packet_type :: nat

record srs_codec =
  video_codec_id :: nat
  audio_codec_id :: nat
  spsNALUnit :: "u8 list"
  ppsNALUnit :: "u8 list"
  aac_object :: nat
  aac_sample_rate :: u8
  aac_channels :: u8

abbreviation (input) "SrsCodecVideoAVC \<equiv> 7 :: nat"
abbreviation (input) "SrsCodecVideoAVCFrameKeyFrame \<equiv> 1 :: nat"
abbreviation (input) "SrsCodecVideoAVCFrameVideoInfoFrame \<equiv> 5 :: nat"
abbreviation (input) "SrsCodecVideoAVCTypeSequenceHeader \<equiv> 0 :: nat"
abbreviation (input) "SrsCodecAudioMP3 \<equiv> 2 :: nat"
abbreviation (input) "SrsCodecAudioAAC \<equiv> 10 :: nat"
abbreviation (input) "SrsCodecAudioTypeSequenceHeader \<equiv> 0 :: nat"
abbreviation (input) "SrsAacObjectTypeReserved \<equiv> 0 :: nat"
abbreviation (input) "SRS_RTMP_TYPE_AUDIO \<equiv> 8 :: nat"
abbreviation (input) "SRS_RTMP_TYPE_VIDEO \<equiv> 9 :: nat"

definition fresh_nalu_header :: "u8 list" where "fresh_nalu_header = [0, 0, 0, 1]"
definition cont_nalu_header :: "u8 list" where "cont_nalu_header = [0, 0, 1]"

section \<open>State\<close>

datatype rtmplayer_status = RS_PLY_Init | RS_PLY_Handshaked | RS_PLY_Connected | RS_PLY_Played | RS_PLY_Closed

record rtmp_pull =
  pull_codec :: srs_codec
  pull_connected :: bool
  retry_ct :: int
  pull_status :: rtmplayer_status
  pull_rtmp :: bool
  audio_payload :: demux_data
  video_payload :: demux_data

definition new_rtmp_pull :: "srs_codec \<Rightarrow> rtmp_pull" where
  "new_rtmp_pull codec = \<lparr>pull_codec = codec, pull_connected = False, retry_ct = 0, pull_status = RS_PLY_Init,
     pull_rtmp = True, audio_payload = \<lparr>dd_data = [], dd_size = 1024\<rparr>, video_payload = \<lparr>dd_data = [], dd_size = 384 * 1024\<rparr>\<rparr>"

datatype pull_log = OnRtmpullConnected | OnRtmpullFailed | OnRtmpullDisconnect
  | OnRtmpullH264Data "u8 list" u32 | OnRtmpullAACData "u8 list" u32 | Recreated int

section \<open>Video\<close>

definition append_video :: "u8 list \<Rightarrow> rtmp_pull \<Rightarrow> rtmp_pull" where
  "append_video d s = s\<lparr>video_payload := demux_append d (video_payload s)\<rparr>"

text \<open>The callback with what the payload holds, which is then emptied.\<close>

definition give_video :: "u32 \<Rightarrow> rtmp_pull \<Rightarrow> pull_log list \<times> rtmp_pull" where
  "give_video ts s = ([OnRtmpullH264Data (dd_data (video_payload s)) ts], s\<lparr>video_payload := demux_reset (video_payload s)\<rparr>)"

text \<open>\<^verbatim>\<open>ptr5\<close> of the search in a packet that still has its start codes.\<close>

definition nal_slice :: "u8 list \<Rightarrow> u8 list" where
  "nal_slice p = (case nals_of p of (_, _, None) \<Rightarrow> [] | (_, _, Some i) \<Rightarrow> drop (i + head01 p i) p)"

definition RescanVideoframe :: "u8 list \<Rightarrow> u32 \<Rightarrow> rtmp_pull \<Rightarrow> (pull_log list \<times> rtmp_pull) option" where
  "RescanVideoframe p ts s = do {
     t \<leftarrow> rd p 4;
     if t AND 0x1f = 7
     then Some (give_video ts (append_video (nal_slice p) (append_video fresh_nalu_header
            (append_video (nal_pps p) (append_video (nal_sps p) s)))))
     else Some (give_video ts (append_video p s)) }"

definition sps_pps :: "rtmp_pull \<Rightarrow> rtmp_pull" where
  "sps_pps s =
     (let c = pull_codec s;
          s = (if spsNALUnit c \<noteq> [] then append_video (spsNALUnit c) (append_video fresh_nalu_header s) else s)
      in if ppsNALUnit c \<noteq> [] then append_video (ppsNALUnit c) (append_video fresh_nalu_header s) else s)"

fun video_units :: "u32 \<Rightarrow> sample_unit list \<Rightarrow> rtmp_pull \<Rightarrow> (int \<times> pull_log list \<times> rtmp_pull) option" where
  "video_units ts [] s = Some (0, [], s)"
| "video_units ts (unit # rest) s =
     (case su_bytes unit of None \<Rightarrow> Some (- 1, [], s)
      | Some bytes \<Rightarrow>
          if su_size unit \<le> 0 then Some (- 1, [], s)
          else do {
            data \<leftarrow> rd_bytes bytes 0 (nat (su_size unit));
            let nal_unit_type = hd data AND 0x1f;
            if nal_unit_type \<in> {7, 8, 6, 9} then video_units ts rest s
            else do {
              (l, s) \<leftarrow> (if nal_unit_type = 0 then RescanVideoframe data ts s
                          else Some (give_video ts (append_video data
                            (append_video (if nal_unit_type = 5 then cont_nalu_header else fresh_nalu_header) s))));
              (r, l', s) \<leftarrow> video_units ts rest s;
              Some (r, l @ l', s) } })"

definition GotVideoSample :: "u32 \<Rightarrow> codec_sample \<Rightarrow> rtmp_pull \<Rightarrow> (int \<times> pull_log list \<times> rtmp_pull) option" where
  "GotVideoSample ts sample s =
     (if frame_type sample = SrsCodecVideoAVCFrameVideoInfoFrame then Some (0, [], s)
      else if frame_type sample = SrsCodecVideoAVCFrameKeyFrame
        \<and> avc_packet_type sample = SrsCodecVideoAVCTypeSequenceHeader then Some (0, [], s)
      else video_units ts (sample_units sample) (if has_idr sample then sps_pps s else s))"

section \<open>Audio\<close>

definition srs_codec_aac_rtmp2ts :: "nat \<Rightarrow> u8" where
  "srs_codec_aac_rtmp2ts object_type =
     (if object_type = 1 then 0 else if object_type \<in> {5, 29, 2} then 1 else if object_type = 3 then 2 else 3)"

definition adts_header :: "srs_codec \<Rightarrow> u32 \<Rightarrow> u8 list" where
  "adts_header c frame_length =
     [0xff, 0xf9,
      (push_bit 6 (srs_codec_aac_rtmp2ts (aac_object c)) AND 0xc0) OR (push_bit 2 (aac_sample_rate c) AND 0x3c)
        OR (drop_bit 2 (aac_channels c) AND 1),
      (push_bit 6 (aac_channels c) AND 0xc0) OR ucast (drop_bit 11 frame_length AND 3),
      ucast (drop_bit 3 frame_length),
      ucast (push_bit 5 frame_length AND 0xe0) OR 0x1f,
      0xfc]"

definition append_audio :: "u8 list \<Rightarrow> rtmp_pull \<Rightarrow> rtmp_pull" where
  "append_audio d s = s\<lparr>audio_payload := demux_append d (audio_payload s)\<rparr>"

fun audio_units :: "u32 \<Rightarrow> sample_unit list \<Rightarrow> rtmp_pull \<Rightarrow> (int \<times> pull_log list \<times> rtmp_pull) option" where
  "audio_units ts [] s = Some (0, [], s)"
| "audio_units ts (unit # rest) s =
     (case su_bytes unit of None \<Rightarrow> Some (- 1, [], s)
      | Some bytes \<Rightarrow>
          if su_size unit \<le> 0 \<or> 0x1fff < su_size unit then Some (- 1, [], s)
          else do {
            data \<leftarrow> rd_bytes bytes 0 (nat (su_size unit));
            let s = append_audio data (append_audio (adts_header (pull_codec s) (word_of_int (su_size unit + 7))) s);
            let l = OnRtmpullAACData (dd_data (audio_payload s)) ts;
            (r, l', s) \<leftarrow> audio_units ts rest (s\<lparr>audio_payload := demux_reset (audio_payload s)\<rparr>);
            Some (r, l # l', s) })"

definition GotAudioSample :: "u32 \<Rightarrow> codec_sample \<Rightarrow> rtmp_pull \<Rightarrow> (int \<times> pull_log list \<times> rtmp_pull) option" where
  "GotAudioSample ts sample s = audio_units ts (sample_units sample) s"

section \<open>The thread\<close>

text \<open>
  A packet that was read has a result, a type, a time and its bytes; after a failure the library
  leaves type 0 and no bytes. The demultiplexers give a result, a sample, and the new state of the
  codec.
\<close>

record 'w pull_srs = "'w srs" +
  srs_rtmp_play_stream :: "'w \<Rightarrow> int \<times> 'w"
  srs_rtmp_read_packet :: "'w \<Rightarrow> (int \<times> nat \<times> u32 \<times> u8 list) \<times> 'w"
  video_avc_demux :: "u8 list \<Rightarrow> srs_codec \<Rightarrow> int \<times> codec_sample \<times> srs_codec"
  audio_aac_demux :: "u8 list \<Rightarrow> srs_codec \<Rightarrow> int \<times> codec_sample \<times> srs_codec"
  audio_mp3_demux :: "u8 list \<Rightarrow> srs_codec \<Rightarrow> int \<times> codec_sample \<times> srs_codec"

definition DoReadData :: "('w, 'm) pull_srs_scheme \<Rightarrow> rtmp_pull \<times> 'w \<Rightarrow> (pull_log list \<times> rtmp_pull \<times> 'w) option" where
  "DoReadData u sw =
     (let (s, w) = sw; ((_, ty, ts, data), w) = srs_rtmp_read_packet u w
      in if ty = SRS_RTMP_TYPE_VIDEO
         then (let (r, sample, codec) = video_avc_demux u data (pull_codec s); s = s\<lparr>pull_codec := codec\<rparr>
               in if r = 0 \<and> video_codec_id codec = SrsCodecVideoAVC
                  then do { (_, l, s) \<leftarrow> GotVideoSample ts sample s; Some (l, s, w) }
                  else Some ([], s, w))
         else if ty = SRS_RTMP_TYPE_AUDIO
         then (let (r, sample, codec) = audio_aac_demux u data (pull_codec s); s = s\<lparr>pull_codec := codec\<rparr>
               in if r \<noteq> 0
                  then (if acodec sample = SrsCodecAudioMP3
                        then (let (_, _, codec) = audio_mp3_demux u data codec in Some ([], s\<lparr>pull_codec := codec\<rparr>, w))
                        else Some ([], s, w))
                  else if audio_codec_id codec \<noteq> SrsCodecAudioAAC \<and> audio_codec_id codec \<noteq> SrsCodecAudioMP3
                  then Some ([], s, w)
                  else if audio_codec_id codec = SrsCodecAudioAAC \<and> aac_packet_type sample = SrsCodecAudioTypeSequenceHeader
                    \<or> aac_object codec = SrsAacObjectTypeReserved then Some ([], s, w)
                  else do { (_, l, s) \<leftarrow> GotAudioSample ts sample s; Some (l, s, w) })
         else Some ([], s, w))"

definition pull_CallConnect :: "rtmp_pull \<Rightarrow> pull_log list \<times> rtmp_pull" where
  "pull_CallConnect s = ([OnRtmpullConnected], s\<lparr>retry_ct := 0, pull_connected := True\<rparr>)"

definition pull_CallDisconnect ::
  "('w, 'm) pull_srs_scheme \<Rightarrow> rtmp_pull \<times> 'w \<Rightarrow> pull_log list \<times> rtmp_pull \<times> 'w" where
  "pull_CallDisconnect u sw =
     (let (s, w) = sw; w = (if pull_rtmp s then srs_rtmp_destroy u w else w); s = s\<lparr>pull_rtmp := False\<rparr>
      in if pull_status s \<noteq> RS_PLY_Closed
         then (let s = s\<lparr>pull_status := RS_PLY_Init, retry_ct := retry_ct s + 1\<rparr>
               in if retry_ct s \<le> 3 then ([Recreated (retry_ct s)], s\<lparr>pull_rtmp := True\<rparr>, srs_rtmp_create u w)
                  else ([if pull_connected s then OnRtmpullDisconnect else OnRtmpullFailed], s, w))
         else ([], s, w))"

definition pull_turn :: "('w, 'm) pull_srs_scheme \<Rightarrow> rtmp_pull \<times> 'w \<Rightarrow> (pull_log list \<times> rtmp_pull \<times> 'w) option" where
  "pull_turn u sw =
     (let (s, w) = sw
      in if \<not> pull_rtmp s then Some ([], s, w)
         else case pull_status s of
             RS_PLY_Init \<Rightarrow>
               (let (r, w) = srs_rtmp_handshake u w
                in Some (if r = 0 then ([], s\<lparr>pull_status := RS_PLY_Handshaked\<rparr>, w) else pull_CallDisconnect u (s, w)))
           | RS_PLY_Handshaked \<Rightarrow>
               (let (r, w) = srs_rtmp_connect_app u w
                in Some (if r = 0 then ([], s\<lparr>pull_status := RS_PLY_Connected\<rparr>, w) else pull_CallDisconnect u (s, w)))
           | RS_PLY_Connected \<Rightarrow>
               (let (r, w) = srs_rtmp_play_stream u w
                in Some (if r = 0 then (let (l, s) = pull_CallConnect (s\<lparr>pull_status := RS_PLY_Played\<rparr>) in (l, s, w))
                         else pull_CallDisconnect u (s, w)))
           | RS_PLY_Played \<Rightarrow> DoReadData u (s, w)
           | RS_PLY_Closed \<Rightarrow> Some ([], s, w))"

text \<open>A turn of the thread, or the start of the destructor.\<close>

datatype pull_act = Pull_turn | Pull_close

fun pull_step :: "('w, 'm) pull_srs_scheme \<Rightarrow> pull_act \<Rightarrow> rtmp_pull \<times> 'w \<Rightarrow> (pull_log list \<times> rtmp_pull \<times> 'w) option" where
  "pull_step u Pull_turn sw = pull_turn u sw"
| "pull_step u Pull_close (s, w) = Some ([], s\<lparr>pull_status := RS_PLY_Closed\<rparr>, w)"

abbreviation pull_run where "pull_run u \<equiv> log_run (pull_step u)"

section \<open>The connection\<close>

fun pull_phase_of :: "rtmplayer_status \<Rightarrow> bool \<Rightarrow> int \<Rightarrow> connection" where
  "pull_phase_of RS_PLY_Closed rtmp n = Shut"
| "pull_phase_of RS_PLY_Played rtmp n = (if rtmp then Online else Gone)"
| "pull_phase_of RS_PLY_Connected rtmp n = (if rtmp then Trying 2 (nat n) else Gone)"
| "pull_phase_of RS_PLY_Handshaked rtmp n = (if rtmp then Trying 1 (nat n) else Gone)"
| "pull_phase_of RS_PLY_Init rtmp n = (if rtmp then Trying 0 (nat n) else Gone)"

definition pull_phase :: "rtmp_pull \<times> 'w \<Rightarrow> connection" where
  "pull_phase sw = pull_phase_of (pull_status (fst sw)) (pull_rtmp (fst sw)) (retry_ct (fst sw))"

definition pull_consistent :: "rtmp_pull \<times> 'w \<Rightarrow> bool" where
  "pull_consistent sw \<longleftrightarrow> (let s = fst sw in pull_status s \<noteq> RS_PLY_Closed \<and> pull_rtmp s \<longrightarrow>
     0 \<le> retry_ct s \<and> retry_ct s \<le> 3 \<and> (pull_status s = RS_PLY_Played \<longleftrightarrow> pull_connected s))"

fun pull_conn :: "pull_log \<Rightarrow> conn_event option" where
  "pull_conn OnRtmpullConnected = Some Up"
| "pull_conn (Recreated n) = Some (Retry n)"
| "pull_conn OnRtmpullDisconnect = Some Down"
| "pull_conn OnRtmpullFailed = Some Down"
| "pull_conn _ = None"

definition only_data :: "pull_log list \<Rightarrow> bool" where
  "only_data l \<longleftrightarrow> (\<forall>x \<in> set l. \<exists>d ts. x = OnRtmpullH264Data d ts \<or> x = OnRtmpullAACData d ts)"

lemma only_data_simps [simp]:
  "only_data []" "only_data (x # l) \<longleftrightarrow> (\<exists>d ts. x = OnRtmpullH264Data d ts \<or> x = OnRtmpullAACData d ts) \<and> only_data l"
  "only_data (l @ l') \<longleftrightarrow> only_data l \<and> only_data l'"
  by (auto simp: only_data_def)

lemma only_data_silent: "only_data l \<Longrightarrow> List.map_filter pull_conn l = [] \<and> OnRtmpullDisconnect \<notin> set l"
  by (induction l) auto

text \<open>What a sample changes: the payloads.\<close>

definition same_pull :: "rtmp_pull \<Rightarrow> rtmp_pull \<Rightarrow> bool" where
  "same_pull s s' \<longleftrightarrow> pull_status s' = pull_status s \<and> pull_rtmp s' = pull_rtmp s \<and> retry_ct s' = retry_ct s
     \<and> pull_connected s' = pull_connected s"

lemma same_pull_trans: "same_pull s s1 \<Longrightarrow> same_pull s1 s2 \<Longrightarrow> same_pull s s2"
  by (simp add: same_pull_def)

lemma same_pull_simps [simp]:
  "same_pull s s" "same_pull s (append_video d t) \<longleftrightarrow> same_pull s t" "same_pull s (append_audio d t) \<longleftrightarrow> same_pull s t"
  "same_pull s (t\<lparr>video_payload := p\<rparr>) \<longleftrightarrow> same_pull s t" "same_pull s (t\<lparr>audio_payload := p\<rparr>) \<longleftrightarrow> same_pull s t"
  "same_pull s (t\<lparr>pull_codec := c\<rparr>) \<longleftrightarrow> same_pull s t"
  by (simp_all add: same_pull_def append_video_def append_audio_def)

lemma Rescan_data: "RescanVideoframe p ts s = Some (l, s') \<Longrightarrow> only_data l \<and> same_pull s s'"
  by (auto simp: RescanVideoframe_def ub_simps give_video_def split: if_splits)

lemma video_units_data: "video_units ts us s = Some (r, l, s') \<Longrightarrow> only_data l \<and> same_pull s s'"
proof (induction ts us s arbitrary: r l s' rule: video_units.induct)
  case (2 ts unit rest s)
  show ?case
  proof (cases "su_bytes unit = None \<or> su_size unit \<le> 0")
    case True
    then show ?thesis using "2.prems" by (cases "su_bytes unit") auto
  next
    case False
    then obtain b where b: "su_bytes unit = Some b" "\<not> su_size unit \<le> 0" by auto
    from "2.prems" b obtain d where d: "rd_bytes b 0 (nat (su_size unit)) = Some d" by (auto simp: ub_simps)
    show ?thesis
    proof (cases "hd d AND 0x1f \<in> {7, 8, 6, 9}")
      case True
      then show ?thesis using "2.IH"(1) [OF b d refl True] "2.prems" b d by simp
    next
      case False
      then obtain l1 s1 l2 where 1: "(if hd d AND 0x1f = 0 then RescanVideoframe d ts s
            else Some (give_video ts (append_video d
              (append_video (if hd d AND 0x1f = 5 then cont_nalu_header else fresh_nalu_header) s)))) = Some (l1, s1)"
          "video_units ts rest s1 = Some (r, l2, s')" "l = l1 @ l2"
        using "2.prems" b d by (auto simp: ub_simps Let_def)
      have "only_data l1 \<and> same_pull s s1"
        using 1(1) Rescan_data by (auto simp: give_video_def split: if_splits)
      moreover have "only_data l2 \<and> same_pull s1 s'"
        using "2.IH"(2) [OF b d refl False] 1(1,2) by fastforce
      ultimately show ?thesis using 1(3) same_pull_trans by auto
    qed
  qed
qed simp

lemma audio_units_data: "audio_units ts us s = Some (r, l, s') \<Longrightarrow> only_data l \<and> same_pull s s'"
proof (induction us arbitrary: r l s s')
  case (Cons unit rest)
  show ?case
  proof (cases "su_bytes unit = None \<or> su_size unit \<le> 0 \<or> 0x1fff < su_size unit")
    case True
    then show ?thesis using Cons.prems by (cases "su_bytes unit") auto
  next
    case False
    then obtain b d l2 where "su_bytes unit = Some b" "rd_bytes b 0 (nat (su_size unit)) = Some d"
      and r: "audio_units ts rest ((append_audio d (append_audio (adts_header (pull_codec s) (word_of_int (su_size unit + 7))) s))
          \<lparr>audio_payload := demux_reset (audio_payload (append_audio d (append_audio (adts_header (pull_codec s) (word_of_int (su_size unit + 7))) s)))\<rparr>)
        = Some (r, l2, s')"
      and l: "\<exists>x. l = OnRtmpullAACData x ts # l2"
      using Cons.prems by (auto simp: ub_simps Let_def)
    from Cons.IH [OF r] have "only_data l2" "same_pull s s'" by (simp_all add: same_pull_def append_audio_def)
    with l show ?thesis by auto
  qed
qed simp

lemma DoReadData_data:
  assumes "DoReadData u (s, w) = Some (l, s', w')"
  shows "only_data l \<and> same_pull s s'"
proof -
  obtain r ty ts data w1 where rd: "srs_rtmp_read_packet u w = ((r, ty, ts, data), w1)" by (metis prod.exhaust)
  obtain rv sv cv where v: "video_avc_demux u data (pull_codec s) = (rv, sv, cv)" by (metis prod.exhaust)
  obtain ra sa ca where a: "audio_aac_demux u data (pull_codec s) = (ra, sa, ca)" by (metis prod.exhaust)
  obtain rm sm cm where m: "audio_mp3_demux u data ca = (rm, sm, cm)" by (metis prod.exhaust)
  consider (video) "ty = SRS_RTMP_TYPE_VIDEO" "rv = 0 \<and> video_codec_id cv = SrsCodecVideoAVC"
    | (audio) "ty = SRS_RTMP_TYPE_AUDIO" "ra = 0" "audio_codec_id ca = SrsCodecAudioAAC \<or> audio_codec_id ca = SrsCodecAudioMP3"
      "\<not> (audio_codec_id ca = SrsCodecAudioAAC \<and> aac_packet_type sa = SrsCodecAudioTypeSequenceHeader
                    \<or> aac_object ca = SrsAacObjectTypeReserved)"
    | (other) "l = []" "same_pull s s'"
    using assms rd v a m
    by (auto simp: DoReadData_def Let_def split: if_splits)
  then show ?thesis
  proof cases
    case video
    then obtain k where "GotVideoSample ts sv (s\<lparr>pull_codec := cv\<rparr>) = Some (k, l, s')"
      using assms rd v by (auto simp: DoReadData_def Let_def ub_simps)
    then show ?thesis using video_units_data
      by (fastforce simp: GotVideoSample_def sps_pps_def Let_def same_pull_def append_video_def split: if_splits)
  next
    case audio
    then obtain k where "GotAudioSample ts sa (s\<lparr>pull_codec := ca\<rparr>) = Some (k, l, s')"
      using assms rd a by (auto simp: DoReadData_def Let_def ub_simps)
    from audio_units_data [OF this [unfolded GotAudioSample_def]] show ?thesis by (simp add: same_pull_def)
  next
    case other
    then show ?thesis by simp
  qed
qed

lemma pull_turn_follows:
  assumes "pull_consistent (s, w)" "pull_turn u (s, w) = Some (l, s', w')"
  shows "conn_step (pull_phase (s, w)) (List.map_filter pull_conn l) (pull_phase (s', w')) \<and> pull_consistent (s', w')
    \<and> OnRtmpullDisconnect \<notin> set l"
proof (cases "pull_rtmp s \<and> pull_status s \<noteq> RS_PLY_Closed")
  case False
  then have "s' = s \<and> l = []" using assms(2) by (cases "pull_status s") (auto simp: pull_turn_def split: if_splits)
  then show ?thesis using assms(1) by (simp add: pull_phase_def pull_consistent_def conn_step.stay)
next
  case True
  then have r: "pull_rtmp s" "pull_status s \<noteq> RS_PLY_Closed" "0 \<le> retry_ct s" "retry_ct s \<le> 3"
      "pull_status s = RS_PLY_Played \<longleftrightarrow> pull_connected s"
    using assms(1) by (simp_all add: pull_consistent_def Let_def)
  have fail: "conn_step (pull_phase (s, w)) (List.map_filter pull_conn l) (pull_phase (s', w')) \<and> pull_consistent (s', w')
      \<and> OnRtmpullDisconnect \<notin> set l"
    if cd: "pull_CallDisconnect u (s, w1) = (l, s', w')" and np: "pull_status s \<noteq> RS_PLY_Played" for w1
  proof -
    obtain k where k: "pull_phase (s, w) = Trying k (nat (retry_ct s))"
      using r np by (cases "pull_status s") (auto simp: pull_phase_def)
    show ?thesis
    proof (cases "retry_ct s < 3")
      case True
      then have "l = [Recreated (retry_ct s + 1)]" "s' = s\<lparr>pull_status := RS_PLY_Init, retry_ct := retry_ct s + 1, pull_rtmp := True\<rparr>"
        using cd r by (auto simp: pull_CallDisconnect_def Let_def)
      then show ?thesis using conn_step.retry [of "nat (retry_ct s)" k] True k r np
        by (simp add: pull_consistent_def pull_phase_def nat_add_distrib)
    next
      case False
      then have "retry_ct s = 3" using r(4) by simp
      then show ?thesis using conn_step.give_up [of k] cd k r np
        by (auto simp: pull_CallDisconnect_def Let_def pull_consistent_def pull_phase_def)
    qed
  qed
  show ?thesis
  proof (cases "pull_status s")
    case RS_PLY_Init
    then show ?thesis using assms(2) r fail conn_step.advance [of 0 "nat (retry_ct s)"]
      by (cases "srs_rtmp_handshake u w") (auto simp: pull_turn_def pull_phase_def pull_consistent_def split: if_splits)
  next
    case RS_PLY_Handshaked
    have "conn_step (Trying 1 (nat (retry_ct s))) [] (Trying 2 (nat (retry_ct s)))"
      using conn_step.advance [of 1] by (metis one_add_one one_less_numeral_iff semiring_norm(76))
    with RS_PLY_Handshaked show ?thesis using assms(2) r fail
      by (cases "srs_rtmp_connect_app u w") (auto simp: pull_turn_def pull_phase_def pull_consistent_def split: if_splits)
  next
    case RS_PLY_Connected
    then show ?thesis using assms(2) r fail conn_step.connect [of "nat (retry_ct s)"]
      by (cases "srs_rtmp_play_stream u w")
        (auto simp: pull_turn_def pull_phase_def pull_consistent_def pull_CallConnect_def split: if_splits)
  next
    case RS_PLY_Played
    then have "DoReadData u (s, w) = Some (l, s', w')" using assms(2) r by (simp add: pull_turn_def)
    from DoReadData_data [OF this] have d: "only_data l" "same_pull s s'" by auto
    from d(2) assms(1) have "pull_phase (s', w') = pull_phase (s, w)" "pull_consistent (s', w')"
      by (simp_all add: same_pull_def pull_phase_def pull_consistent_def Let_def)
    then show ?thesis using only_data_silent [OF d(1)] by (simp add: conn_step.stay)
  next
    case RS_PLY_Closed
    then show ?thesis using r by simp
  qed
qed

lemma pull_step_follows:
  assumes "pull_consistent s" "pull_step u a s = Some (l, s')"
  shows "conn_step (pull_phase s) (List.map_filter pull_conn l) (pull_phase s') \<and> pull_consistent s' \<and> OnRtmpullDisconnect \<notin> set l"
proof (cases a)
  case Pull_turn
  then show ?thesis using assms pull_turn_follows [of "fst s" "snd s" u l "fst s'" "snd s'"] by simp
next
  case Pull_close
  then show ?thesis using assms by (cases s) (auto simp: pull_phase_def pull_consistent_def conn_step.shut)
qed

interpretation pull: rtmp_client "pull_step u" pull_phase pull_consistent pull_conn for u :: "('w, 'm) pull_srs_scheme"
  by unfold_locales (use pull_step_follows in blast)

lemma pull_new: "pull_consistent (new_rtmp_pull c, w)" "pull_phase (new_rtmp_pull c, w) = Trying 0 0"
  by (simp_all add: pull_consistent_def pull_phase_def new_rtmp_pull_def)

text \<open>Once the stream plays it plays for ever, as far as the connection goes.\<close>

lemma pull_step_online:
  assumes "pull_step u a s = Some (l, s')" "pull_phase s \<in> {Online, Shut}"
  shows "List.map_filter pull_conn l = [] \<and> pull_phase s' \<in> {Online, Shut}"
proof (cases a)
  case Pull_turn
  obtain t w t' w' where s: "s = (t, w)" "s' = (t', w')" by (cases s; cases s')
  have "pull_status t = RS_PLY_Played \<and> pull_rtmp t \<or> pull_status t = RS_PLY_Closed"
    using assms(2) s by (cases "pull_status t") (auto simp: pull_phase_def split: if_splits)
  then show ?thesis
  proof
    assume p: "pull_status t = RS_PLY_Played \<and> pull_rtmp t"
    then have "DoReadData u (t, w) = Some (l, t', w')" using assms(1) Pull_turn s by (simp add: pull_turn_def)
    from DoReadData_data [OF this] show ?thesis using only_data_silent p s by (simp add: pull_phase_def same_pull_def)
  next
    assume "pull_status t = RS_PLY_Closed"
    then show ?thesis using assms Pull_turn s by (auto simp: pull_turn_def split: if_splits)
  qed
next
  case Pull_close
  then show ?thesis using assms by (cases s) (auto simp: pull_phase_def)
qed

lemma pull_run_online:
  "pull_run u as s = Some (l, s') \<Longrightarrow> pull_phase s \<in> {Online, Shut} \<Longrightarrow> List.map_filter pull_conn l = []"
proof (induction as arbitrary: s l)
  case (Cons a as)
  then obtain l1 s1 l2 where "pull_step u a s = Some (l1, s1)" "pull_run u as s1 = Some (l2, s')" "l = l1 @ l2"
    by (auto simp: ub_simps)
  moreover from pull_step_online [OF this(1) Cons.prems(2)]
  have "List.map_filter pull_conn l1 = []" "pull_phase s1 \<in> {Online, Shut}" by blast+
  moreover from Cons.IH [OF calculation(2) this(2)] have "List.map_filter pull_conn l2 = []" .
  ultimately show ?case by simp
qed simp

lemma pull_run_up:
  "pull_run u as s = Some (l, s') \<Longrightarrow> pull_consistent s \<Longrightarrow> Up \<in> set (List.map_filter pull_conn l)
     \<Longrightarrow> last (List.map_filter pull_conn l) = Up"
proof (induction as arbitrary: s l)
  case (Cons a as)
  then obtain l1 s1 l2 where 1: "pull_step u a s = Some (l1, s1)" and 2: "pull_run u as s1 = Some (l2, s')" and l: "l = l1 @ l2"
    by (auto simp: ub_simps)
  from pull_step_follows [OF Cons.prems(2) 1]
  have st: "conn_step (pull_phase s) (List.map_filter pull_conn l1) (pull_phase s1)" "pull_consistent s1" by auto
  show ?case
  proof (cases "Up \<in> set (List.map_filter pull_conn l1)")
    case True
    with st(1) have "List.map_filter pull_conn l1 = [Up]" "pull_phase s1 = Online" by (auto elim: conn_step.cases)
    then show ?thesis using pull_run_online [OF 2] by (simp add: l)
  next
    case False
    then show ?thesis using Cons.IH [OF 2 st(2)] Cons.prems(3) by (auto simp: l last_append)
  qed
qed simp

lemma pull_run_no_disconnect:
  "pull_run u as s = Some (l, s') \<Longrightarrow> pull_consistent s \<Longrightarrow> OnRtmpullDisconnect \<notin> set l"
proof (induction as arbitrary: s l)
  case (Cons a as)
  then obtain l1 s1 l2 where "pull_step u a s = Some (l1, s1)" "pull_run u as s1 = Some (l2, s')" "l = l1 @ l2"
    by (auto simp: ub_simps)
  then show ?case using pull_step_follows [OF Cons.prems(2)] Cons.IH by fastforce
qed simp

text \<open>
  C39. The player is told of a failure only when the server was tried again three times in a row without
  success, and of a lost connection never: once the stream plays, no failure of reading is noticed.
\<close>
theorem pull_never_disconnects:
  assumes "pull_run u acts (new_rtmp_pull c, w) = Some (log, s')"
  shows "OnRtmpullDisconnect \<notin> set log
    \<and> (OnRtmpullFailed \<in> set log \<longrightarrow> List.map_filter pull_conn log = [Retry 1, Retry 2, Retry 3, Down])"
proof (intro conjI impI)
  show "OnRtmpullDisconnect \<notin> set log" by (rule pull_run_no_disconnect [OF assms pull_new(1)])
  assume f: "OnRtmpullFailed \<in> set log"
  obtain pre where p: "List.map_filter pull_conn log = pre @ [Retry 1, Retry 2, Retry 3, Down]" "fresh_start pre"
    using pull.gives_up [OF pull_new assms f] by (auto simp: given_up_def)
  have "Up \<notin> set pre" using pull_run_up [OF assms pull_new(1)] p(1) by auto
  then have "pre = []" using p(2) last_in_set unfolding fresh_start_def by metis
  with p show "List.map_filter pull_conn log = [Retry 1, Retry 2, Retry 3, Down]" by simp
qed

section \<open>Audio frames\<close>

text \<open>The fields of an ADTS header as a decoder reads them.\<close>

definition adts_profile :: "u8 list \<Rightarrow> u8" where
  "adts_profile h = drop_bit 6 (h ! 2)"

definition adts_rate :: "u8 list \<Rightarrow> u8" where
  "adts_rate h = drop_bit 2 (h ! 2) AND 15"

definition adts_channels :: "u8 list \<Rightarrow> u8" where
  "adts_channels h = (push_bit 2 (h ! 2) AND 4) OR drop_bit 6 (h ! 3)"

definition adts_length :: "u8 list \<Rightarrow> u32" where
  "adts_length h = push_bit 11 (ucast (h ! 3) AND 3) OR push_bit 3 (ucast (h ! 4)) OR drop_bit 5 (ucast (h ! 5))"

lemma adts_fields:
  "adts_profile (adts_header c n) = srs_codec_aac_rtmp2ts (aac_object c) AND 3"
  "adts_rate (adts_header c n) = aac_sample_rate c AND 15"
  "adts_channels (adts_header c n) = aac_channels c AND 7"
  "adts_length (adts_header c n) = take_bit 13 n"
proof -
  have 3: "n < 2 \<longleftrightarrow> n = 0 \<or> n = Suc 0" and 8: "n < 8 \<longleftrightarrow> n = 0 \<or> n = 1 \<or> n = 2 \<or> n = 3 \<or> n = 4 \<or> n = 5 \<or> n = 6 \<or> n = 7" for n :: nat by auto
  show "adts_profile (adts_header c n) = srs_codec_aac_rtmp2ts (aac_object c) AND 3"
    by (rule bit_word_eqI) (simp add: adts_profile_def adts_header_def bit_simps 8, auto simp: bit_simps bit_numeral_rec)
  show "adts_rate (adts_header c n) = aac_sample_rate c AND 15"
    by (rule bit_word_eqI) (simp add: adts_rate_def adts_header_def bit_simps 8, auto simp: bit_simps bit_numeral_rec)
  show "adts_channels (adts_header c n) = aac_channels c AND 7"
    by (rule bit_word_eqI) (simp add: adts_channels_def adts_header_def bit_simps 8, auto simp: bit_simps bit_numeral_rec numeral_2_eq_2)
  have 32: "m < 32 \<longleftrightarrow> m < 8 \<or> m \<in> {8, 9, 10, 11, 12} \<or> 13 \<le> m \<and> m < 32" for m :: nat by auto
  show "adts_length (adts_header c n) = take_bit 13 n"
  proof (rule bit_word_eqI)
    fix m :: nat assume "m < LENGTH(32)"
    then consider "m < 8" | "m \<in> {8, 9, 10, 11, 12}" | "13 \<le> m" using 32 by auto
    then show "bit (adts_length (adts_header c n)) m \<longleftrightarrow> bit (take_bit 13 n) m"
    proof cases
      case 1
      then show ?thesis
        by (simp add: adts_length_def adts_header_def bit_simps 8, auto simp: bit_simps bit_numeral_rec eval_nat_numeral)
    next
      case 2
      have "bit (3 :: u32) 0" "bit (3 :: u32) 1" by (simp_all add: bit_numeral_rec)
      with 2 show ?thesis
        by (elim insertE emptyE; simp add: adts_length_def adts_header_def bit_simps bit_numeral_rec)
    next
      case 3
      have "\<not> bit (3 :: u32) (m - 11)" using 3 by (auto simp: bit_numeral_rec bit_1_iff split: nat.splits simp flip: numeral_3_eq_3)
      moreover from this have "\<not> bit (push_bit 11 (3 :: u32)) m" unfolding bit_push_bit_iff by blast
      then have "\<not> bit (6144 :: u32) m" by simp
      ultimately show ?thesis using 3 by (auto simp: adts_length_def adts_header_def bit_simps)
    qed
  qed
qed

text \<open>The units that the demultiplexer gives: bytes with their size, at least one.\<close>

definition unit_of :: "u8 list \<Rightarrow> sample_unit" where
  "unit_of b = \<lparr>su_bytes = Some b, su_size = int (length b)\<rparr>"

definition adts_frame :: "srs_codec \<Rightarrow> u8 list \<Rightarrow> u8 list" where
  "adts_frame c b = adts_header c (of_nat (length b + 7)) @ b"

lemma adts_header_length [simp]: "length (adts_header c n) = 7"
  by (simp add: adts_header_def)

lemma audio_units_frames:
  assumes "\<forall>b \<in> set bs. b \<noteq> [] \<and> length b + 7 \<le> dd_size (audio_payload s)" "dd_size (audio_payload s) \<le> 8198"
    "dd_data (audio_payload s) = []"
  shows "audio_units ts (map unit_of bs) s = Some (0, map (\<lambda>b. OnRtmpullAACData (adts_frame (pull_codec s) b) ts) bs, s)"
  using assms(1)
proof (induction bs)
  case (Cons b bs)
  let ?h = "adts_header (pull_codec s) (of_nat (length b + 7))"
  have "word_of_int (int (length b) + 7) = (of_nat (length b + 7) :: u32)" by simp
  moreover have "(append_audio b (append_audio ?h s))\<lparr>audio_payload := demux_reset (audio_payload (append_audio b (append_audio ?h s)))\<rparr> = s"
    using Cons.prems assms(3) by (cases s; cases "audio_payload s") (simp add: append_audio_def demux_append_def demux_reset_def)
  moreover have "dd_data (audio_payload (append_audio b (append_audio ?h s))) = adts_frame (pull_codec s) b"
    using Cons.prems assms(3) by (simp add: append_audio_def demux_append_def adts_frame_def)
  moreover have "0 < length b" "length b \<le> 8191" using Cons.prems assms(2) by auto
  ultimately show ?case using Cons by (simp add: unit_of_def Let_def)
qed simp

text \<open>
  C26. Audio reaches the player as it came, in order, each unit behind a header that states the profile,
  the rate, the channels and the length of the frame, for units of up to 1017 bytes.
\<close>
theorem audio_frames:
  assumes "sample_units sample = map unit_of bs" "\<forall>b \<in> set bs. b \<noteq> [] \<and> length b \<le> 1017"
    "audio_payload s = \<lparr>dd_data = [], dd_size = 1024\<rparr>"
  shows "GotAudioSample ts sample s = Some (0, map (\<lambda>b. OnRtmpullAACData (adts_frame (pull_codec s) b) ts) bs, s)
    \<and> (\<forall>b \<in> set bs. let f = adts_frame (pull_codec s) b in drop 7 f = b \<and> unat (adts_length f) = length f
        \<and> adts_profile f = srs_codec_aac_rtmp2ts (aac_object (pull_codec s)) AND 3
        \<and> adts_rate f = aac_sample_rate (pull_codec s) AND 15 \<and> adts_channels f = aac_channels (pull_codec s) AND 7)"
proof
  show "GotAudioSample ts sample s = Some (0, map (\<lambda>b. OnRtmpullAACData (adts_frame (pull_codec s) b) ts) bs, s)"
    using audio_units_frames [of bs s ts] assms by (fastforce simp: GotAudioSample_def)
  have f: "adts_length (h @ b) = adts_length h" "adts_profile (h @ b) = adts_profile h" "adts_rate (h @ b) = adts_rate h"
    "adts_channels (h @ b) = adts_channels h" if "length h = 7" for h b
    using that by (simp_all add: adts_length_def adts_profile_def adts_rate_def adts_channels_def nth_append)
  show "\<forall>b \<in> set bs. let f = adts_frame (pull_codec s) b in drop 7 f = b \<and> unat (adts_length f) = length f
        \<and> adts_profile f = srs_codec_aac_rtmp2ts (aac_object (pull_codec s)) AND 3
        \<and> adts_rate f = aac_sample_rate (pull_codec s) AND 15 \<and> adts_channels f = aac_channels (pull_codec s) AND 7"
  proof
    fix b assume "b \<in> set bs"
    then have n: "length b + 7 < 8192" using assms(2) by auto
    have "unat (of_nat (length b + 7) :: u32) = length b + 7" using n unfolding unat_of_nat by simp
    then have "unat (take_bit 13 (of_nat (length b + 7) :: u32)) = length b + 7"
      using n by (simp add: unsigned_take_bit_eq take_bit_nat_eq_self_iff del: of_nat_add)
    then show "let f = adts_frame (pull_codec s) b in drop 7 f = b \<and> unat (adts_length f) = length f
        \<and> adts_profile f = srs_codec_aac_rtmp2ts (aac_object (pull_codec s)) AND 3
        \<and> adts_rate f = aac_sample_rate (pull_codec s) AND 15 \<and> adts_channels f = aac_channels (pull_codec s) AND 7"
      by (simp add: Let_def adts_frame_def f adts_fields)
  qed
qed

text \<open>
  A longer unit does not fit the payload of 1024 bytes and is left out without a sign: the player
  gets a header alone, whose length promises the data.
\<close>

lemma long_audio_unit:
  assumes "1017 < length b" "length b \<le> 8191" "audio_payload s = \<lparr>dd_data = [], dd_size = 1024\<rparr>"
  shows "audio_units ts [unit_of b] s = Some (0, [OnRtmpullAACData (adts_header (pull_codec s) (of_nat (length b + 7))) ts], s)"
proof -
  let ?h = "adts_header (pull_codec s) (of_nat (length b + 7))"
  have "append_audio b (append_audio ?h s) = s\<lparr>audio_payload := \<lparr>dd_data = ?h, dd_size = 1024\<rparr>\<rparr>"
    using assms by (simp add: append_audio_def demux_append_def)
  moreover have "word_of_int (int (length b) + 7) = (of_nat (length b + 7) :: u32)" by simp
  moreover have "s\<lparr>audio_payload := \<lparr>dd_data = [], dd_size = 1024\<rparr>\<rparr> = s" using assms(3) by (cases s) simp
  moreover have "b \<noteq> []" using assms(1) by auto
  ultimately show ?thesis using assms(1,2) by (simp add: unit_of_def Let_def demux_reset_def)
qed

section \<open>Video samples\<close>

text \<open>What is sent on of a sample: its slices, each behind a start code, and before a key frame the parameter sets.\<close>

definition slices :: "u8 list list \<Rightarrow> u8 list list" where
  "slices bs = filter (\<lambda>b. hd b AND 0x1f \<notin> {7, 8, 6, 9}) bs"

definition headed :: "u8 list \<Rightarrow> u8 list" where
  "headed b = (if hd b AND 0x1f = 5 then cont_nalu_header else fresh_nalu_header) @ b"

definition parameter_sets :: "srs_codec \<Rightarrow> u8 list" where
  "parameter_sets c = (if spsNALUnit c = [] then [] else fresh_nalu_header @ spsNALUnit c)
     @ (if ppsNALUnit c = [] then [] else fresh_nalu_header @ ppsNALUnit c)"

definition with_video :: "u8 list \<Rightarrow> rtmp_pull \<Rightarrow> rtmp_pull" where
  "with_video d s = s\<lparr>video_payload := (video_payload s)\<lparr>dd_data := d\<rparr>\<rparr>"

lemma with_video_simps [simp]:
  "dd_data (video_payload (with_video d s)) = d" "dd_size (video_payload (with_video d s)) = dd_size (video_payload s)"
  "pull_codec (with_video d s) = pull_codec s" "with_video d (with_video e s) = with_video d s"
  by (simp_all add: with_video_def)

lemma with_video_same: "dd_data (video_payload s) = d \<Longrightarrow> with_video d s = s"
  by (cases s; cases "video_payload s") (auto simp: with_video_def)

lemma append_video_fits:
  "length (dd_data (video_payload s)) + length d \<le> dd_size (video_payload s)
     \<Longrightarrow> append_video d s = with_video (dd_data (video_payload s) @ d) s"
  by (simp add: append_video_def demux_append_def with_video_def)

lemma give_video_with: "give_video ts s = ([OnRtmpullH264Data (dd_data (video_payload s)) ts], with_video [] s)"
  by (simp add: give_video_def with_video_def demux_reset_def)

lemma headed_length: "length (headed b) \<le> 4 + length b"
  by (simp add: headed_def cont_nalu_header_def fresh_nalu_header_def)

lemma video_units_slices:
  assumes "\<forall>b \<in> set bs. b \<noteq> [] \<and> hd b AND 0x1f \<noteq> 0"
    "\<forall>b \<in> set (slices bs). length pre + 4 + length b \<le> dd_size (video_payload s)" "dd_data (video_payload s) = pre"
  shows "video_units ts (map unit_of bs) s
    = (case slices bs of [] \<Rightarrow> Some (0, [], s)
       | b # r \<Rightarrow> Some (0, OnRtmpullH264Data (pre @ headed b) ts # map (\<lambda>b. OnRtmpullH264Data (headed b) ts) r, with_video [] s))"
  using assms
proof (induction bs arbitrary: s pre)
  case (Cons b bs)
  have u: "su_bytes (unit_of b) = Some b" "nat (su_size (unit_of b)) = length b" "\<not> su_size (unit_of b) \<le> 0"
    "rd_bytes b 0 (length b) = Some b"
    using Cons.prems(1) by (simp_all add: unit_of_def)
  show ?case
  proof (cases "hd b AND 0x1f \<in> {7, 8, 6, 9}")
    case True
    then have "slices (b # bs) = slices bs" by (simp add: slices_def)
    then show ?thesis using True u Cons.IH [of pre s] Cons.prems by (simp del: insert_iff)
  next
    case False
    then have sl: "slices (b # bs) = b # slices bs" by (auto simp: slices_def)
    let ?h = "if hd b AND 0x1f = 5 then cont_nalu_header else fresh_nalu_header"
    have n: "length pre + 4 + length b \<le> dd_size (video_payload s)" using Cons.prems(2) sl by simp
    have h: "length ?h \<le> 4" by (simp add: cont_nalu_header_def fresh_nalu_header_def)
    have "append_video ?h s = with_video (pre @ ?h) s"
      using n h Cons.prems(3) by (subst append_video_fits) auto
    moreover have "append_video b (with_video (pre @ ?h) s) = with_video (pre @ headed b) s"
      using n h by (subst append_video_fits) (auto simp: headed_def)
    ultimately have g: "give_video ts (append_video b (append_video ?h s)) = ([OnRtmpullH264Data (pre @ headed b) ts], with_video [] s)"
      by (simp add: give_video_with)
    have "\<forall>b \<in> set (slices bs). length ([] :: u8 list) + 4 + length b \<le> dd_size (video_payload (with_video [] s))"
      using Cons.prems(2) sl by auto
    then have r: "video_units ts (map unit_of bs) (with_video [] s)
        = Some (0, map (\<lambda>b. OnRtmpullH264Data (headed b) ts) (slices bs), with_video [] s)"
      using Cons.IH [of "[]" "with_video [] s"] Cons.prems(1) by (cases "slices bs") simp_all
    have "hd b AND 0x1f \<noteq> 0" using Cons.prems(1) by simp
    then show ?thesis using False u g r sl by (simp add: Let_def del: insert_iff)
  qed
qed (simp add: slices_def)

lemma sps_pps_appends:
  assumes "length (parameter_sets (pull_codec s)) \<le> dd_size (video_payload s)" "dd_data (video_payload s) = []"
  shows "sps_pps s = with_video (parameter_sets (pull_codec s)) s"
proof -
  let ?c = "pull_codec s"
  let ?s = "with_video (if spsNALUnit ?c = [] then [] else fresh_nalu_header @ spsNALUnit ?c) s"
  have "(if spsNALUnit ?c \<noteq> [] then append_video (spsNALUnit ?c) (append_video fresh_nalu_header s) else s) = ?s"
    using assms with_video_same [of s "[]"] by (simp add: append_video_fits parameter_sets_def split: if_splits)
  then show ?thesis using assms
    by (simp add: sps_pps_def Let_def append_video_fits parameter_sets_def split: if_splits)
qed

text \<open>
  C25. Each slice of a sample reaches the player in order and once, behind a start code, the first of a
  sample with a key frame behind the parameter sets; all else of the sample is left out. The
  parameter sets of a sample without a slice stay in the payload.
\<close>
theorem video_sample:
  assumes "sample_units sample = map unit_of bs" "\<forall>b \<in> set bs. b \<noteq> [] \<and> hd b AND 0x1f \<noteq> 0"
    "frame_type sample \<noteq> SrsCodecVideoAVCFrameVideoInfoFrame"
    "frame_type sample = SrsCodecVideoAVCFrameKeyFrame \<longrightarrow> avc_packet_type sample \<noteq> SrsCodecVideoAVCTypeSequenceHeader"
    and d: "dd_data (video_payload s) = []" "pre = (if has_idr sample then parameter_sets (pull_codec s) else [])"
    and n: "length pre \<le> dd_size (video_payload s)" "\<forall>b \<in> set (slices bs). length pre + 4 + length b \<le> dd_size (video_payload s)"
  shows "GotVideoSample ts sample s = (case slices bs of
      [] \<Rightarrow> Some (0, [], with_video pre s)
    | b # r \<Rightarrow> Some (0, OnRtmpullH264Data (pre @ headed b) ts # map (\<lambda>b. OnRtmpullH264Data (headed b) ts) r, s))"
proof -
  have "(if has_idr sample then sps_pps s else s) = with_video pre s"
    using sps_pps_appends [of s] n(1) d with_video_same [OF d(1)] by (cases "has_idr sample") simp_all
  moreover have "with_video [] s = s" by (rule with_video_same [OF d(1)])
  ultimately show ?thesis
    using assms(1,3,4) video_units_slices [OF assms(2), of pre "with_video pre s" ts] n(2)
    by (auto simp: GotVideoSample_def split: list.splits)
qed

text \<open>
  A sample that still has the start codes of the encoder is taken apart and put together again: the
  parameter sets as they came, the slice behind a start code of its own.
\<close>
theorem rescanned_key_frame:
  assumes "nal_body b7" "nal_body b8" "b5 \<noteq> []" "nal_code c8" "nal_code c5" "length c5 = 3 \<longrightarrow> 2 \<le> length b5"
    "b7 ! 0 AND 0x1f = 7" "b5 ! 0 AND 0x1f = 5"
    and d: "dd_data (video_payload s) = []" "12 + length b7 + length b8 + length b5 \<le> dd_size (video_payload s)"
  shows "RescanVideoframe ([0, 0, 0, 1] @ b7 @ c8 @ b8 @ c5 @ b5) ts s
    = Some ([OnRtmpullH264Data ([0, 0, 0, 1] @ b7 @ c8 @ b8 @ [0, 0, 0, 1] @ b5) ts], s)"
proof -
  let ?p = "[0, 0, 0, 1] @ b7 @ c8 @ b8 @ c5 @ b5"
  note n = nals_found [OF assms(1-6,8) refl]
  have "b7 \<noteq> []" using assms(1) by (simp add: nal_body_def)
  then have t: "rd ?p 4 = Some (b7 ! 0)" by (simp add: rd_def nth_append)
  have h: "drop (4 + length b7 + length c8 + length b8 + length c5) ?p = b5"
    by (simp add: drop_Cons')
  have parts: "nal_sps ?p = [0, 0, 0, 1] @ b7" "nal_pps ?p = c8 @ b8" "nal_slice ?p = b5"
    unfolding nal_sps_def nal_pps_def nal_slice_def n using h n(2) by (simp_all add: take_Cons' drop_Cons')
  have c8: "length c8 \<le> 4" using assms(4) by (auto simp: nal_code_def)
  have "append_video (nal_slice ?p) (append_video fresh_nalu_header (append_video (nal_pps ?p) (append_video (nal_sps ?p) s)))
      = with_video ([0, 0, 0, 1] @ b7 @ c8 @ b8 @ [0, 0, 0, 1] @ b5) s"
    unfolding parts using d c8 by (simp add: append_video_fits fresh_nalu_header_def)
  then show ?thesis using assms(7) d(1) unfolding RescanVideoframe_def t
    by (simp add: give_video_with with_video_same)
qed

section \<open>A player's connection\<close>

definition sample_codec :: srs_codec where
  "sample_codec = \<lparr>video_codec_id = 7, audio_codec_id = 10, spsNALUnit = [0x67, 1], ppsNALUnit = [0x68, 2],
     aac_object = 2, aac_sample_rate = 4, aac_channels = 2\<rparr>"

definition sample_of :: "u8 list list \<Rightarrow> codec_sample" where
  "sample_of bs = \<lparr>sample_units = map unit_of bs, frame_type = 1, avc_packet_type = 1, has_idr = True, acodec = 10, aac_packet_type = 1\<rparr>"

text \<open>A server that never shakes hands, and one that sends a key frame again and again.\<close>

definition deaf_server :: "unit pull_srs" where
  "deaf_server = \<lparr>srs_rtmp_create = \<lambda>w. w, srs_rtmp_destroy = \<lambda>w. w, srs_rtmp_handshake = \<lambda>w. (- 1, w),
     srs_rtmp_connect_app = \<lambda>w. (0, w), srs_time = \<lambda>w. (0, w), srs_rtmp_play_stream = \<lambda>w. (0, w),
     srs_rtmp_read_packet = \<lambda>w. ((0, 9, 40, [0x17]), w), video_avc_demux = \<lambda>_ c. (0, sample_of [[0x65, 9]], c),
     audio_aac_demux = \<lambda>_ c. (0, sample_of [[1, 2, 3]], c), audio_mp3_demux = \<lambda>_ c. (0, sample_of [], c)\<rparr>"

lemma deaf_run:
  "case pull_run deaf_server [Pull_turn, Pull_turn, Pull_turn, Pull_turn] (new_rtmp_pull sample_codec, ()) of
     Some (l, s) \<Rightarrow> l = [Recreated 1, Recreated 2, Recreated 3, OnRtmpullFailed] | None \<Rightarrow> False"
  by (simp add: pull_turn_def pull_CallDisconnect_def deaf_server_def new_rtmp_pull_def Let_def)

theorem pull_never_disconnects_witness:
  "\<exists>l s. pull_run deaf_server [Pull_turn, Pull_turn, Pull_turn, Pull_turn] (new_rtmp_pull sample_codec, ()) = Some (l, s) \<and> OnRtmpullFailed \<in> set l
    \<and> List.map_filter pull_conn l = [Retry 1, Retry 2, Retry 3, Down]"
proof -
  obtain l s where r: "pull_run deaf_server [Pull_turn, Pull_turn, Pull_turn, Pull_turn] (new_rtmp_pull sample_codec, ()) = Some (l, s)"
    "OnRtmpullFailed \<in> set l" using deaf_run by (auto split: option.splits)
  from pull_never_disconnects [OF r(1)] r show ?thesis by blast
qed

theorem audio_frames_witness:
  "GotAudioSample 40 (sample_of [[1, 2, 3]]) (new_rtmp_pull sample_codec)
    = Some (0, [OnRtmpullAACData (adts_frame sample_codec [1, 2, 3]) 40], new_rtmp_pull sample_codec)"
proof -
  have s: "sample_units (sample_of [[1, 2, 3]]) = map unit_of [[1, 2, 3]]" "\<forall>b \<in> set [[1, 2, 3 :: u8]]. b \<noteq> [] \<and> length b \<le> 1017"
    "audio_payload (new_rtmp_pull sample_codec) = \<lparr>dd_data = [], dd_size = 1024\<rparr>"
    "pull_codec (new_rtmp_pull sample_codec) = sample_codec"
    by (simp_all add: sample_of_def new_rtmp_pull_def)
  from audio_frames [OF s(1-3), THEN conjunct1, of 40] show ?thesis by (simp only: s(4) list.map)
qed

theorem video_sample_witness:
  "\<exists>s. GotVideoSample 40 (sample_of [[6, 1], [0x65, 9], [0x41, 8]]) (new_rtmp_pull sample_codec)
    = Some (0, [OnRtmpullH264Data [0, 0, 0, 1, 0x67, 1, 0, 0, 0, 1, 0x68, 2, 0, 0, 1, 0x65, 9] 40, OnRtmpullH264Data [0, 0, 0, 1, 0x41, 8] 40], s)"
  using video_sample [of "sample_of [[6, 1], [0x65, 9], [0x41, 8]]" "[[6, 1], [0x65, 9], [0x41, 8]]" "new_rtmp_pull sample_codec"
      "parameter_sets sample_codec" 40]
  by (simp add: sample_of_def new_rtmp_pull_def slices_def headed_def parameter_sets_def sample_codec_def
    fresh_nalu_header_def cont_nalu_header_def)

theorem rescanned_key_frame_witness:
  "\<exists>s. RescanVideoframe [0, 0, 0, 1, 0x67, 1, 0, 0, 0, 1, 0x68, 1, 0, 0, 1, 0x65, 2] 40 (new_rtmp_pull sample_codec)
    = Some ([OnRtmpullH264Data [0, 0, 0, 1, 0x67, 1, 0, 0, 0, 1, 0x68, 1, 0, 0, 0, 1, 0x65, 2] 40], s)"
  using rescanned_key_frame [of "[0x67, 1]" "[0x68, 1]" "[0x65, 2]" "[0, 0, 0, 1]" "[0, 0, 1]" "new_rtmp_pull sample_codec" 40]
  by (simp add: nal_body_def nal_code_def new_rtmp_pull_def All_less_Suc)

end
