(* ===== verification/Rtmp_Player.thy ===== *)
theory Rtmp_Player
  imports Ply_Buffer Rtmp_Pull
begin

text \<open>
  The player, \<^verbatim>\<open>AnyCore/anyrtmplayer.cc\<close>: the object between the connection (\<open>Rtmp_Pull\<close>) and the
  decoder with its buffer (\<open>Ply_Buffer\<close>), with the messages it posts to its own thread. The clock and
  the codecs are parameters; what the application and the speaker get goes to a log.
\<close>

section \<open>State\<close>

datatype player_message = PLY_START | PLY_STOP | PLY_TICK

text \<open>\<open>posted\<close> are the messages in the queue of the thread.\<close>

record rtmp_player =
  ply_decoder_of :: "(ply_buffer \<times> ply_decoder) option"
  has_pull :: bool
  cur_bitrate :: int
  posted :: "player_message list"

definition new_rtmp_player :: rtmp_player where
  "new_rtmp_player = \<lparr>ply_decoder_of = None, has_pull = False, cur_bitrate = 0, posted = []\<rparr>"

text \<open>The clock, the content of a fresh array, and the audio codec.\<close>

record 'c player_env =
  env_clock :: "'c \<Rightarrow> int \<times> 'c"
  env_cache :: "u8 list"
  env_aac_open :: "u8 list \<Rightarrow> 'c \<Rightarrow> (bool \<times> u8 \<times> u32) \<times> 'c"
  env_aac_decode :: "u8 list \<Rightarrow> 'c \<Rightarrow> u8 list \<times> 'c"

datatype player_log = OnRtmplayerOK | OnRtmplayerClose int | OnRtmplayerStatus int int | OnRtmplayerCache int
  | Shown ply_packet | Heard ply_packet

section \<open>Calls and messages\<close>

definition StartPlay :: "rtmp_player \<Rightarrow> rtmp_player" where
  "StartPlay p = p\<lparr>posted := posted p @ [PLY_START, PLY_TICK]\<rparr>"

definition StopPlay :: "rtmp_player \<Rightarrow> player_log list \<times> rtmp_player" where
  "StopPlay p = ([OnRtmplayerClose 0], p\<lparr>posted := filter (\<lambda>m. m \<noteq> PLY_TICK) (posted p) @ [PLY_STOP]\<rparr>)"

fun OnMessage :: "'c player_env \<Rightarrow> player_message \<Rightarrow> rtmp_player \<Rightarrow> player_log list \<times> rtmp_player" where
  "OnMessage v PLY_START p =
     ([], p\<lparr>ply_decoder_of := (case ply_decoder_of p of
          None \<Rightarrow> Some (new_ply_buffer, new_ply_decoder (env_cache v)) | Some d \<Rightarrow> Some d), has_pull := True\<rparr>)"
| "OnMessage v PLY_STOP p = ([], p\<lparr>has_pull := False, ply_decoder_of := None\<rparr>)"
| "OnMessage v PLY_TICK p =
     (let (l, p) = (case ply_decoder_of p of
          None \<Rightarrow> ([], p)
        | Some (b, d) \<Rightarrow>
            if IsPlaying b then ([OnRtmplayerStatus (buf_cache_time b) (cur_bitrate p)], p\<lparr>cur_bitrate := 0\<rparr>)
            else ([OnRtmplayerCache (buf_cache_time b)], p))
      in (l, p\<lparr>posted := posted p @ [PLY_TICK]\<rparr>))"

section \<open>Callbacks of the connection\<close>

definition player_H264Data :: "'c player_env \<Rightarrow> u8 list \<Rightarrow> u32 \<Rightarrow> rtmp_player \<times> 'c \<Rightarrow> (rtmp_player \<times> 'c) option" where
  "player_H264Data v pdata ts pc =
     (let (p, c) = pc in do {
        (p, c) \<leftarrow> (case ply_decoder_of p of
            None \<Rightarrow> Some (p, c)
          | Some (b, d) \<Rightarrow> do { (b, d, c) \<leftarrow> AddH264Data (env_clock v) pdata ts (b, d, c);
                             Some (p\<lparr>ply_decoder_of := Some (b, d)\<rparr>, c) });
        Some (p\<lparr>cur_bitrate := cur_bitrate p + int (length pdata)\<rparr>, c) })"

definition player_AACData :: "'c player_env \<Rightarrow> u8 list \<Rightarrow> u32 \<Rightarrow> rtmp_player \<times> 'c \<Rightarrow> (rtmp_player \<times> 'c) option" where
  "player_AACData v pdata ts pc =
     (let (p, c) = pc in do {
        (p, c) \<leftarrow> (case ply_decoder_of p of
            None \<Rightarrow> Some (p, c)
          | Some (b, d) \<Rightarrow> do { (b, d, c) \<leftarrow> AddAACData (env_clock v) (env_aac_open v) (env_aac_decode v) pdata ts (b, d, c);
                             Some (p\<lparr>ply_decoder_of := Some (b, d)\<rparr>, c) });
        Some (p\<lparr>cur_bitrate := cur_bitrate p + int (length pdata)\<rparr>, c) })"

fun player_pulled :: "'c player_env \<Rightarrow> pull_log \<Rightarrow> rtmp_player \<times> 'c \<Rightarrow> (player_log list \<times> rtmp_player \<times> 'c) option" where
  "player_pulled v OnRtmpullConnected (p, c) = Some ([OnRtmplayerOK], p, c)"
| "player_pulled v OnRtmpullFailed (p, c) = (let (l, p) = StopPlay p in Some (l @ [OnRtmplayerClose (- 1)], p, c))"
| "player_pulled v OnRtmpullDisconnect (p, c) = (let (l, p) = StopPlay p in Some (l @ [OnRtmplayerClose (- 2)], p, c))"
| "player_pulled v (OnRtmpullH264Data d ts) pc = do { pc \<leftarrow> player_H264Data v d ts pc; Some ([], pc) }"
| "player_pulled v (OnRtmpullAACData d ts) pc = do { pc \<leftarrow> player_AACData v d ts pc; Some ([], pc) }"
| "player_pulled v (Recreated n) pc = Some ([], pc)"

definition GetNeedPlayAudio :: "rtmp_player \<Rightarrow> player_log list \<times> rtmp_player" where
  "GetNeedPlayAudio p = (case ply_decoder_of p of
       None \<Rightarrow> ([], p)
     | Some (b, d) \<Rightarrow> (let (a, b) = GetPcmData d b
                     in ((case a of None \<Rightarrow> [] | Some x \<Rightarrow> [Heard x]), p\<lparr>ply_decoder_of := Some (b, d)\<rparr>)))"

text \<open>The tick of the buffer, every 5 milliseconds of the decoder's thread.\<close>

definition player_decode :: "'c player_env \<Rightarrow> rtmp_player \<times> 'c \<Rightarrow> (player_log list \<times> rtmp_player \<times> 'c) option" where
  "player_decode v pc =
     (let (p, c) = pc in case ply_decoder_of p of
        None \<Rightarrow> Some ([], p, c)
      | Some (b, d) \<Rightarrow> do {
          (x, b, d, c) \<leftarrow> DoDecode (decoder_callback (env_clock v)) (b, d, c);
          Some ((case x of None \<Rightarrow> [] | Some q \<Rightarrow> [Shown q]), p\<lparr>ply_decoder_of := Some (b, d)\<rparr>, c) })"

datatype player_act = Start_play | Stop_play | Message nat | Pulled pull_log | Need_audio | Decode_tick

fun player_step :: "'c player_env \<Rightarrow> player_act \<Rightarrow> rtmp_player \<times> 'c \<Rightarrow> (player_log list \<times> rtmp_player \<times> 'c) option" where
  "player_step v Start_play (p, c) = Some ([], StartPlay p, c)"
| "player_step v Stop_play (p, c) = (let (l, p) = StopPlay p in Some (l, p, c))"
| "player_step v (Message i) (p, c) =
     (if i < length (posted p)
      then (let (l, q) = OnMessage v (posted p ! i) (p\<lparr>posted := take i (posted p) @ drop (i + 1) (posted p)\<rparr>) in Some (l, q, c))
      else Some ([], p, c))"
| "player_step v (Pulled x) pc = player_pulled v x pc"
| "player_step v Need_audio (p, c) = (let (l, p) = GetNeedPlayAudio p in Some (l, p, c))"
| "player_step v Decode_tick pc = player_decode v pc"

section \<open>From the connection to the screen\<close>

text \<open>The video that a list of callbacks brings, and the video that a log shows.\<close>

fun pulled_video :: "player_act list \<Rightarrow> ply_packet list" where
  "pulled_video [] = []"
| "pulled_video (Pulled (OnRtmpullH264Data d ts) # as) = packet True d ts # pulled_video as"
| "pulled_video (_ # as) = pulled_video as"

definition shown :: "player_log list \<Rightarrow> ply_packet list" where
  "shown l = List.map_filter (\<lambda>x. case x of Shown p \<Rightarrow> Some p | _ \<Rightarrow> None) l"

lemma shown_simps [simp]:
  "shown [] = []" "shown (Shown p # l) = p # shown l" "shown (Heard p # l) = shown l" "shown (OnRtmplayerOK # l) = shown l"
  "shown (OnRtmplayerClose n # l) = shown l" "shown (OnRtmplayerStatus m n # l) = shown l" "shown (OnRtmplayerCache n # l) = shown l"
  "shown (l @ l') = shown l @ shown l'"
  by (simp_all add: shown_def)

text \<open>What waits in the buffer.\<close>

definition waiting :: "rtmp_player \<Rightarrow> ply_packet list" where
  "waiting p = (case ply_decoder_of p of None \<Rightarrow> [] | Some (b, d) \<Rightarrow> lst_video_buffer b)"

lemma CachePcmData_video:
  "CachePcmData cb d n ts (b, w) = Some (b', w') \<Longrightarrow> lst_video_buffer b' = lst_video_buffer b"
  by (auto simp: CachePcmData_def ub_simps Let_def split: if_splits prod.splits)

lemma cut_frames_video:
  assumes "cut_frames cb fsize ts cache n ct (b, w) = Some (n', ct', b', w')"
  shows "lst_video_buffer b' = lst_video_buffer b"
proof -
  have "lst_video_buffer (fst (snd (snd r))) = lst_video_buffer (fst s)" if "cut_frames cb fs ts cache m k s = Some r" for fs m k s r
  proof (rule cut_frames.raw_induct [where P = "\<lambda>cb fs ts cache m k s r. lst_video_buffer (fst (snd (snd r))) = lst_video_buffer (fst s)", OF _ that])
    fix f cb fs ts cache m k s r
    assume IH: "\<And>cb fs ts cache m k s r. f cb fs ts cache m k s = Some r \<Longrightarrow> lst_video_buffer (fst (snd (snd r))) = lst_video_buffer (fst s)"
      and e: "(if fs < int m then if fs < 0 then None
           else do { s \<leftarrow> CachePcmData cb (drop (k * nat fs) cache) fs ts s;
                     f cb fs ts cache (m - nat fs) (k + 1) s }
      else Some (m, k, s)) = Some r"
    obtain b w where s: "s = (b, w)" by (cases s)
    show "lst_video_buffer (fst (snd (snd r))) = lst_video_buffer (fst s)"
    proof (cases "fs < int m")
      case False
      then show ?thesis using e by auto
    next
      case True
      then obtain b1 w1 where "CachePcmData cb (drop (k * nat fs) cache) fs ts (b, w) = Some (b1, w1)"
        "f cb fs ts cache (m - nat fs) (k + 1) (b1, w1) = Some r" using e s by (auto simp: ub_simps split: if_splits)
      from IH [OF this(2)] CachePcmData_video [OF this(1)] show ?thesis by (simp add: s)
    qed
  qed
  from this [OF assms] show ?thesis by simp
qed

lemma AddAACData_video:
  assumes "AddAACData clock op dec pdata ts (b, d, c) = Some (b', d', c')"
  shows "lst_video_buffer b' = lst_video_buffer b"
proof (cases "aac_decoder d \<and> fst (dec pdata c) \<noteq> []")
  case False
  then show ?thesis using assms by (cases "dec pdata c"; cases "op pdata c") (auto simp: AddAACData_def Let_def split: if_splits)
next
  case True
  obtain pcm c1 where p: "dec pdata c = (pcm, c1)" by (cases "dec pdata c")
  then obtain cache fs n n' ct d1 b1 c2 where
    cf: "cut_frames (decoder_callback clock) fs ts cache n 0 (b, d, c1) = Some (n', ct, b1, d1, c2)" and b: "b' = b1"
    using assms True by (auto simp: AddAACData_def Let_def ub_simps split: if_splits)
  from cut_frames_video [OF cf] show ?thesis by (simp add: b)
qed

lemma AddH264Data_video:
  assumes "AddH264Data clock pdata ts (b, d, c) = Some (b', d', c')"
  shows "lst_video_buffer b' = lst_video_buffer b @ [packet True pdata ts]"
  using assms by (auto simp: AddH264Data_def CacheH264Data_def SetData_all Let_def split: if_splits prod.splits)

text \<open>
  A step that leaves the decoder running adds to what waits the video that was pulled, and takes
  from it what is shown.
\<close>

definition running :: "rtmp_player \<Rightarrow> bool" where
  "running p \<longleftrightarrow> ply_decoder_of p \<noteq> None"

lemma waiting_simps [simp]:
  "waiting (p\<lparr>cur_bitrate := n\<rparr>) = waiting p" "waiting (p\<lparr>posted := ms\<rparr>) = waiting p"
  "waiting (p\<lparr>ply_decoder_of := Some (b, d)\<rparr>) = lst_video_buffer b" "waiting (p\<lparr>has_pull := h\<rparr>) = waiting p"
  by (simp_all add: waiting_def)

lemma running_simps [simp]:
  "running (p\<lparr>cur_bitrate := n\<rparr>) = running p" "running (p\<lparr>posted := ms\<rparr>) = running p"
  "running (p\<lparr>ply_decoder_of := Some x\<rparr>)" "running (p\<lparr>has_pull := h\<rparr>) = running p" "\<not> running (p\<lparr>ply_decoder_of := None\<rparr>)"
  by (simp_all add: running_def)

lemma OnMessage_video:
  assumes "OnMessage v m p = (l, p')" "running p" "running p'"
  shows "shown l = [] \<and> waiting p' = waiting p"
  using assms by (cases m) (auto simp: running_def waiting_def split: if_splits)

lemma player_pulled_video:
  assumes "player_pulled v x (p, c) = Some (l, p', c')" "running p"
  shows "running p' \<and> shown l = [] \<and> waiting p' = waiting p @ pulled_video [Pulled x]"
proof -
  obtain b d where d: "ply_decoder_of p = Some (b, d)" using assms(2) by (auto simp: running_def)
  then have w: "waiting p = lst_video_buffer b" by (simp add: waiting_def)
  show ?thesis
  proof (cases x)
    case (OnRtmpullH264Data data ts)
    then obtain b1 d1 c1 where "AddH264Data (env_clock v) data ts (b, d, c) = Some (b1, d1, c1)" "l = []"
      "p' = p\<lparr>ply_decoder_of := Some (b1, d1), cur_bitrate := cur_bitrate p + int (length data)\<rparr>"
      using assms(1) d by (auto simp: player_H264Data_def ub_simps)
    then show ?thesis using AddH264Data_video w OnRtmpullH264Data by fastforce
  next
    case (OnRtmpullAACData data ts)
    then obtain b1 d1 c1 where "AddAACData (env_clock v) (env_aac_open v) (env_aac_decode v) data ts (b, d, c) = Some (b1, d1, c1)" "l = []"
      "p' = p\<lparr>ply_decoder_of := Some (b1, d1), cur_bitrate := cur_bitrate p + int (length data)\<rparr>"
      using assms(1) d by (auto simp: player_AACData_def ub_simps)
    then show ?thesis using AddAACData_video w OnRtmpullAACData by fastforce
  qed (use assms in \<open>auto simp: StopPlay_def\<close>)
qed

lemma player_step_video:
  assumes "player_step v a (p, c) = Some (l, p', c')" "running p" "running p'"
  shows "shown l @ waiting p' = waiting p @ pulled_video [a]"
proof -
  obtain b d where d: "ply_decoder_of p = Some (b, d)" using assms(2) by (auto simp: running_def)
  then have w: "waiting p = lst_video_buffer b" by (simp add: waiting_def)
  show ?thesis
  proof (cases a)
    case Start_play
    then show ?thesis using assms by (auto simp: StartPlay_def)
  next
    case Stop_play
    then show ?thesis using assms by (auto simp: StopPlay_def)
  next
    case (Message i)
    let ?q = "p\<lparr>posted := take i (posted p) @ drop (i + 1) (posted p)\<rparr>"
    show ?thesis
    proof (cases "i < length (posted p)")
      case True
      then have "OnMessage v (posted p ! i) ?q = (l, p')" using assms(1) Message
        by (cases "OnMessage v (posted p ! i) ?q") simp
      from OnMessage_video [OF this] show ?thesis using assms(2,3) Message by simp
    next
      case False
      then show ?thesis using assms(1) Message by simp
    qed
  next
    case (Pulled x)
    then show ?thesis using player_pulled_video [of v x p c l p' c'] assms by simp
  next
    case Need_audio
    have "shown (case y of None \<Rightarrow> [] | Some x \<Rightarrow> [Heard x]) = []" for y by (cases y) simp_all
    moreover have "lst_video_buffer (snd (GetPcmData d b)) = lst_video_buffer b"
      by (simp add: GetPcmData_def GetPlayAudio_def split: list.split)
    ultimately show ?thesis using assms(1) Need_audio d w by (auto simp: GetNeedPlayAudio_def split: prod.splits)
  next
    case Decode_tick
    then obtain x b1 d1 where "DoDecode (decoder_callback (env_clock v)) (b, d, c) = Some (x, b1, d1, c')"
      "l = (case x of None \<Rightarrow> [] | Some q \<Rightarrow> [Shown q])" "p' = p\<lparr>ply_decoder_of := Some (b1, d1)\<rparr>"
      using assms(1) d by (auto simp: player_decode_def ub_simps)
    then show ?thesis using DoDecode_lists [of "decoder_callback (env_clock v)" b "(d, c)" x b1 "(d1, c')"] w Decode_tick
      by (cases x) simp_all
  qed
qed

lemma pulled_video_Cons: "pulled_video (a # as) = pulled_video [a] @ pulled_video as"
proof (cases a)
  case (Pulled x)
  then show ?thesis by (cases x) simp_all
qed simp_all

text \<open>What makes a player stop: a call of the application, or the end of the connection.\<close>

definition stops :: "player_act \<Rightarrow> bool" where
  "stops a \<longleftrightarrow> a \<in> {Stop_play, Pulled OnRtmpullFailed, Pulled OnRtmpullDisconnect}"

lemma OnMessage_goes_on:
  assumes "OnMessage v m p = (l, p')" "running p" "m \<noteq> PLY_STOP" "PLY_STOP \<notin> set (posted p)"
  shows "running p' \<and> PLY_STOP \<notin> set (posted p')"
  using assms by (cases m) (auto simp: running_def split: if_splits)

lemma player_pulled_posted:
  assumes "player_pulled v x (p, c) = Some (l, p', c')" "\<not> stops (Pulled x)"
  shows "posted p' = posted p"
  using assms by (cases x) (auto simp: stops_def player_H264Data_def player_AACData_def ub_simps split: option.splits)

lemma player_step_goes_on:
  assumes "player_step v a (p, c) = Some (l, p', c')" "running p" "PLY_STOP \<notin> set (posted p)" "\<not> stops a"
  shows "running p' \<and> PLY_STOP \<notin> set (posted p')"
proof (cases a)
  case Start_play
  then show ?thesis using assms by (auto simp: StartPlay_def)
next
  case Stop_play
  then show ?thesis using assms(4) by (simp add: stops_def)
next
  case (Message i)
  let ?q = "p\<lparr>posted := take i (posted p) @ drop (i + 1) (posted p)\<rparr>"
  show ?thesis
  proof (cases "i < length (posted p)")
    case True
    then have m: "OnMessage v (posted p ! i) ?q = (l, p')" using assms(1) Message
      by (cases "OnMessage v (posted p ! i) ?q") simp
    have "posted p ! i \<noteq> PLY_STOP" using True assms(3) nth_mem by metis
    moreover have "PLY_STOP \<notin> set (posted ?q)" using assms(3) by (auto dest: in_set_takeD in_set_dropD)
    ultimately show ?thesis using OnMessage_goes_on [OF m] assms(2) by simp
  next
    case False
    then show ?thesis using assms Message by simp
  qed
next
  case (Pulled x)
  then show ?thesis using player_pulled_video [of v x p c l p' c'] player_pulled_posted [of v x p c l p' c'] assms by simp
next
  case Need_audio
  then show ?thesis using assms by (auto simp: GetNeedPlayAudio_def running_def split: option.splits prod.splits)
next
  case Decode_tick
  then show ?thesis using assms by (auto simp: player_decode_def ub_simps running_def split: option.splits)
qed

lemma player_run_video:
  "log_run (player_step v) as (p, c) = Some (l, p', c') \<Longrightarrow> running p \<Longrightarrow> PLY_STOP \<notin> set (posted p)
     \<Longrightarrow> \<forall>a \<in> set as. \<not> stops a \<Longrightarrow> shown l @ waiting p' = waiting p @ pulled_video as"
proof (induction as arbitrary: p c l)
  case (Cons a as)
  then obtain l1 p1 c1 l2 where 1: "player_step v a (p, c) = Some (l1, p1, c1)"
    and 2: "log_run (player_step v) as (p1, c1) = Some (l2, p', c')" and l: "l = l1 @ l2" by (auto simp: ub_simps)
  have r: "running p1" "PLY_STOP \<notin> set (posted p1)" using player_step_goes_on [OF 1 Cons.prems(2,3)] Cons.prems(4) by auto
  have "shown l2 @ waiting p' = waiting p1 @ pulled_video as" using Cons.IH [OF 2 r] Cons.prems(4) by simp
  with player_step_video [OF 1 Cons.prems(2) r(1)] show ?case
    unfolding pulled_video_Cons [of a as] l by (metis append_assoc shown_simps(8))
qed simp

text \<open>The video in a log of the connection.\<close>

definition video_of :: "pull_log list \<Rightarrow> ply_packet list" where
  "video_of l = List.map_filter (\<lambda>x. case x of OnRtmpullH264Data d ts \<Rightarrow> Some (packet True d ts) | _ \<Rightarrow> None) l"

definition pulls :: "player_act list \<Rightarrow> pull_log list" where
  "pulls as = List.map_filter (\<lambda>a. case a of Pulled x \<Rightarrow> Some x | _ \<Rightarrow> None) as"

lemma pulled_video_of: "pulled_video as = video_of (pulls as)"
proof (induction as)
  case Nil
  then show ?case by (simp add: video_of_def pulls_def)
next
  case (Cons a as)
  show ?case
  proof (cases a)
    case (Pulled x)
    then show ?thesis using Cons by (cases x) (simp_all add: video_of_def pulls_def)
  qed (use Cons in \<open>simp_all add: video_of_def pulls_def\<close>)
qed

lemma pulls_mem: "Pulled x \<in> set as \<Longrightarrow> x \<in> set (pulls as)"
  by (force simp: pulls_def List.map_filter_def)

text \<open>
  C10. From the server to the screen. As long as the application does not stop and the connection does not
  fail, whatever the callbacks of the connection are interleaved with (messages, ticks, requests for
  audio): the video shown so far and what still waits are the video that the connection gave, in
  order, without loss or repetition.
\<close>
theorem pulled_video_shown:
  assumes "pull_run u pacts (new_rtmp_pull codec, w) = Some (log, s')" "OnRtmpullFailed \<notin> set log"
    and "pulls acts = log" "Stop_play \<notin> set acts"
    and "log_run (player_step v) acts (snd (OnMessage v PLY_START new_rtmp_player), c) = Some (l, p', c')"
  shows "shown l @ waiting p' = video_of log"
proof -
  let ?p = "snd (OnMessage v PLY_START new_rtmp_player)"
  have "OnRtmpullDisconnect \<notin> set log" by (rule pull_run_no_disconnect [OF assms(1) pull_new(1)])
  then have "\<forall>a \<in> set acts. \<not> stops a" using assms(2-4) pulls_mem by (fastforce simp: stops_def)
  moreover have "running ?p" "PLY_STOP \<notin> set (posted ?p)" "waiting ?p = []"
    by (simp_all add: new_rtmp_player_def running_def waiting_def new_ply_buffer_def)
  ultimately show ?thesis using player_run_video [OF assms(5)] by (simp add: pulled_video_of assms(3))
qed

text \<open>
  A connection that cannot be made is reported to the application twice: first as a stop without an
  error, then with the error.
\<close>
lemma failure_reported_twice:
  "player_pulled v OnRtmpullFailed (p, c) = Some ([OnRtmplayerClose 0, OnRtmplayerClose (- 1)],
     p\<lparr>posted := filter (\<lambda>m. m \<noteq> PLY_TICK) (posted p) @ [PLY_STOP]\<rparr>, c)"
  by (simp add: StopPlay_def)

section \<open>A player\<close>

definition sample_env :: "nat player_env" where
  "sample_env = \<lparr>env_clock = tick_clock, env_cache = [0, 0, 0, 0], env_aac_open = \<lambda>_ c. ((True, 2, 44100), c),
     env_aac_decode = \<lambda>d c. ([], c)\<rparr>"

definition kind_stream :: "unit pull_srs" where
  "kind_stream = deaf_server\<lparr>srs_rtmp_handshake := \<lambda>w. (0, w)\<rparr>"

lemma kind_stream_run:
  "\<exists>s. pull_run kind_stream [Pull_turn, Pull_turn, Pull_turn, Pull_turn] (new_rtmp_pull sample_codec, ())
    = Some ([OnRtmpullConnected, OnRtmpullH264Data ([0, 0, 0, 1, 0x67, 1, 0, 0, 0, 1, 0x68, 2, 0, 0, 1, 0x65, 9]) 40], s)"
  by (simp add: pull_turn_def kind_stream_def deaf_server_def new_rtmp_pull_def pull_CallConnect_def DoReadData_def
    sample_of_def sample_codec_def GotVideoSample_def unit_of_def sps_pps_def append_video_fits give_video_with
    fresh_nalu_header_def cont_nalu_header_def Let_def with_video_def)

theorem pulled_video_shown_witness:
  "\<exists>l p' c'. log_run (player_step sample_env)
      [Pulled OnRtmpullConnected, Decode_tick, Pulled (OnRtmpullH264Data [0, 0, 0, 1, 0x67, 1, 0, 0, 0, 1, 0x68, 2, 0, 0, 1, 0x65, 9] 40), Decode_tick]
      (snd (OnMessage sample_env PLY_START new_rtmp_player), 0) = Some (l, p', c')
    \<and> shown l @ waiting p' = [packet True [0, 0, 0, 1, 0x67, 1, 0, 0, 0, 1, 0x68, 2, 0, 0, 1, 0x65, 9] 40]"
proof -
  let ?d = "[0, 0, 0, 1, 0x67, 1, 0, 0, 0, 1, 0x68, 2, 0, 0, 1, 0x65, 9] :: u8 list"
  let ?as = "[Pulled OnRtmpullConnected, Decode_tick, Pulled (OnRtmpullH264Data ?d 40), Decode_tick]"
  obtain s where s: "pull_run kind_stream [Pull_turn, Pull_turn, Pull_turn, Pull_turn] (new_rtmp_pull sample_codec, ())
      = Some ([OnRtmpullConnected, OnRtmpullH264Data ?d 40], s)" using kind_stream_run by blast
  have "case log_run (player_step sample_env) ?as (snd (OnMessage sample_env PLY_START new_rtmp_player), 0) of
      Some _ \<Rightarrow> True | None \<Rightarrow> False" by code_simp
  then obtain l p' c' where r: "log_run (player_step sample_env) ?as (snd (OnMessage sample_env PLY_START new_rtmp_player), 0)
      = Some (l, p', c')" by (auto split: option.splits)
  have "shown l @ waiting p' = video_of [OnRtmpullConnected, OnRtmpullH264Data ?d 40]"
    by (rule pulled_video_shown [OF s _ _ _ r]) (simp_all add: pulls_def)
  with r show ?thesis by (simp add: video_of_def)
qed

end
