(* ===== verification/Rtmp_Host.thy ===== *)
theory Rtmp_Host
  imports Rtmp_Streamer Video_Filter Rtmp_Player
begin

text \<open>
  The two objects that an application makes, \<^verbatim>\<open>AnyCore/RtmpHosterImpl.cc\<close> for sending and
  \<^verbatim>\<open>AnyCore/RtmpGuesterImpl.cc\<close> for receiving, over the shared \<^verbatim>\<open>AnyCore/anyrtmpcore.cc\<close> with the audio
  device and the thread whose message queue (\<^verbatim>\<open>webrtc/base/messagequeue.cc\<close>) carries the requests to start
  and to stop. The renderers and the address of the server are left out.
\<close>

section \<open>The queue of a thread\<close>

text \<open>Messages to handle now, and messages with the time they become due, soonest first.\<close>

record 'm message_queue =
  msgq :: "'m list"
  dmsgq :: "(int \<times> 'm) list"

definition Post :: "'m \<Rightarrow> 'm message_queue \<Rightarrow> 'm message_queue" where
  "Post m q = q\<lparr>msgq := msgq q @ [m]\<rparr>"

fun delay_insert :: "int \<times> 'm \<Rightarrow> (int \<times> 'm) list \<Rightarrow> (int \<times> 'm) list" where
  "delay_insert x [] = [x]"
| "delay_insert x (y # ys) = (if fst x < fst y then x # y # ys else y # delay_insert x ys)"

definition PostDelayed :: "int \<Rightarrow> int \<Rightarrow> 'm \<Rightarrow> 'm message_queue \<Rightarrow> 'm message_queue" where
  "PostDelayed now cmsDelay m q = q\<lparr>dmsgq := delay_insert (now + cmsDelay, m) (dmsgq q)\<rparr>"

text \<open>\<^verbatim>\<open>Get\<close>: what is due moves to the end of the first list, whose head is taken.\<close>

definition due_moved :: "int \<Rightarrow> 'm message_queue \<Rightarrow> 'm message_queue" where
  "due_moved now q = \<lparr>msgq = msgq q @ map snd (takeWhile (\<lambda>x. fst x \<le> now) (dmsgq q)),
     dmsgq = dropWhile (\<lambda>x. fst x \<le> now) (dmsgq q)\<rparr>"

definition Get :: "int \<Rightarrow> 'm message_queue \<Rightarrow> 'm option \<times> 'm message_queue" where
  "Get now q = (let q = due_moved now q in case msgq q of
       [] \<Rightarrow> (None, q)
     | m # ms \<Rightarrow> (Some m, q\<lparr>msgq := ms\<rparr>))"

section \<open>The audio device\<close>

record 'w audio_device =
  adm_Recording :: "'w \<Rightarrow> bool"
  adm_StartRecording :: "'w \<Rightarrow> 'w"
  adm_StopRecording :: "'w \<Rightarrow> 'w"
  adm_Playing :: "'w \<Rightarrow> bool"
  adm_StartPlayout :: "'w \<Rightarrow> 'w"
  adm_StopPlayout :: "'w \<Rightarrow> 'w"

text \<open>
  The core: whether there is a callback for recorded sound and one for sound to play, with the
  formats. Initialising a device is part of starting it.
\<close>

record rtmp_core =
  audio_record_callback :: bool
  core_record_hz :: int
  core_record_channels :: int
  audio_track_callback :: bool
  core_track_hz :: int
  core_track_channels :: int

definition new_rtmp_core :: rtmp_core where
  "new_rtmp_core = \<lparr>audio_record_callback = False, core_record_hz = 44100, core_record_channels = 2,
     audio_track_callback = False, core_track_hz = 44100, core_track_channels = 2\<rparr>"

definition StartAudioRecord :: "('w, 'k) audio_device_scheme \<Rightarrow> int \<Rightarrow> int \<Rightarrow> rtmp_core \<times> 'w \<Rightarrow> rtmp_core \<times> 'w" where
  "StartAudioRecord d sampleHz channel cw = (let (c, w) = cw in
     (c\<lparr>audio_record_callback := True, core_record_hz := sampleHz, core_record_channels := channel\<rparr>,
      if adm_Recording d w then w else adm_StartRecording d w))"

definition StopAudioRecord :: "('w, 'k) audio_device_scheme \<Rightarrow> rtmp_core \<times> 'w \<Rightarrow> rtmp_core \<times> 'w" where
  "StopAudioRecord d cw = (let (c, w) = cw in
     (c\<lparr>audio_record_callback := False\<rparr>, if adm_Recording d w then adm_StopRecording d w else w))"

definition StartAudioTrack :: "('w, 'k) audio_device_scheme \<Rightarrow> rtmp_core \<times> 'w \<Rightarrow> rtmp_core \<times> 'w" where
  "StartAudioTrack d cw = (let (c, w) = cw in
     (c\<lparr>audio_track_callback := True\<rparr>, if adm_Playing d w then w else adm_StartPlayout d w))"

definition StopAudioTrack :: "('w, 'k) audio_device_scheme \<Rightarrow> rtmp_core \<times> 'w \<Rightarrow> rtmp_core \<times> 'w" where
  "StopAudioTrack d cw = (let (c, w) = cw in
     (c\<lparr>audio_track_callback := False\<rparr>, if adm_Playing d w then adm_StopPlayout d w else w))"

text \<open>
  Recorded sound goes to the callback in the format it asked for. \<open>Resample10Msec\<close> gives the content
  of the array \<^verbatim>\<open>temp_output\<close>.
\<close>

definition RecordedDataIsAvailable ::
  "('w, 'm) audio_env_scheme \<Rightarrow> audio_data \<Rightarrow> rtmp_core \<times> 'w \<Rightarrow> audio_data option \<times> 'w" where
  "RecordedDataIsAvailable v a cw = (let (c, w) = cw in
     if \<not> audio_record_callback c then (None, w)
     else if core_record_hz c \<noteq> ad_sample_rate a \<or> ad_channels a \<noteq> core_record_channels c
     then (let (temp, w) = Resample10Msec v (ad_data a) (ad_sample_rate a * ad_channels a) (core_record_hz c * core_record_channels c) w
           in (Some \<lparr>ad_data = temp, ad_samples_per_channel = nat (core_record_hz c div 100), ad_sample_rate = core_record_hz c,
                    ad_channels = core_record_channels c\<rparr>, w))
     else (Some a, w))"

section \<open>The sender\<close>

datatype hoster_message = MSG_START_RTMP | MSG_STOP_RTMP

record rtmp_hoster =
  av_rtmp_started :: bool
  hst_streamer :: "i420 rtmp_streamer"
  req_size :: "int \<times> int"
  hst_size :: "int \<times> int"
  video_capturer :: bool
  capturing :: bool
  filter_count :: u32
  video_sink :: bool
  hst_core :: rtmp_core
  hst_queue :: "hoster_message message_queue"
  hst_now :: int

datatype RTMPVideoMode = RTMP_Video_720P | RTMP_Video_HD | RTMP_Video_QHD | RTMP_Video_SD | RTMP_Video_Low

text \<open>
  The sizes asked of the camera and of the encoder, and the bitrate. \<open>mobile\<close> says whether the program
  is built for Android or iOS.
\<close>

fun mode_sizes :: "bool \<Rightarrow> RTMPVideoMode \<Rightarrow> (int \<times> int) \<times> (int \<times> int) \<times> int" where
  "mode_sizes mobile RTMP_Video_720P = ((1280, 720), if mobile then (720, 1280) else (1280, 720), 1280)"
| "mode_sizes mobile RTMP_Video_HD = ((1280, 720), if mobile then (540, 960) else (960, 540), 1024)"
| "mode_sizes mobile RTMP_Video_QHD = ((640, 480), if mobile then (360, 640) else (640, 360), 768)"
| "mode_sizes mobile RTMP_Video_SD = ((640, 480), if mobile then (360, 640) else (640, 360), 512)"
| "mode_sizes mobile RTMP_Video_Low = ((640, 480), if mobile then (360, 640) else (640, 360), 384)"

text \<open>What is below: the library, the encoders, the devices, the content of fresh buffers, the build.\<close>

record 'w host_env =
  he_push :: "'w push_srs"
  he_video :: "('w, i420) video_env"
  he_audio :: "'w audio_device"
  he_fresh :: "nat \<Rightarrow> u8 list"
  he_android :: bool

type_synonym 'w host_result = "(i420 stream_log list \<times> rtmp_hoster \<times> 'w) option"

definition on_streamer :: "'w host_env \<Rightarrow> i420 stream_act \<Rightarrow> rtmp_hoster \<times> 'w \<Rightarrow> 'w host_result" where
  "on_streamer e a hw = (let (h, w) = hw in do {
     (l, s, w) \<leftarrow> streamer_step (he_push e) (he_video e) a (hst_streamer h, w);
     Some (l, h\<lparr>hst_streamer := s\<rparr>, w) })"

definition SetVideoMode :: "'w host_env \<Rightarrow> RTMPVideoMode \<Rightarrow> rtmp_hoster \<times> 'w \<Rightarrow> 'w host_result" where
  "SetVideoMode e m hw = (let (h, w) = hw; (req, (x, y), bitrate) = mode_sizes (he_android e) m
     in on_streamer e (Video_params x y bitrate) (h\<lparr>req_size := req, hst_size := (x, y)\<rparr>, w))"

definition hoster_SetAudioEnable :: "'w host_env \<Rightarrow> bool \<Rightarrow> rtmp_hoster \<times> 'w \<Rightarrow> 'w host_result" where
  "hoster_SetAudioEnable e enabled hw = on_streamer e (Audio_enable enabled) hw"

text \<open>
  \<open>Some best\<close> is a camera, with whether it has a format that suits; without one it does not capture.
  The call is carried out on the thread while the caller waits.
\<close>

definition SetVideoCapturer :: "bool option \<Rightarrow> rtmp_hoster \<Rightarrow> rtmp_hoster" where
  "SetVideoCapturer handle h = (case handle of
       None \<Rightarrow> h\<lparr>video_capturer := False, capturing := False\<rparr>
     | Some best \<Rightarrow> h\<lparr>video_capturer := True, capturing := best\<rparr>)"

definition StartRtmpStream :: "'w host_env \<Rightarrow> rtmp_hoster \<times> 'w \<Rightarrow> rtmp_hoster \<times> 'w" where
  "StartRtmpStream e hw = (let (h, w) = hw in
     if av_rtmp_started h then (h, w)
     else (let (c, w) = StartAudioRecord (he_audio e) 44100 2 (hst_core h, w)
           in (h\<lparr>av_rtmp_started := True, video_sink := True, hst_core := c,
                 hst_queue := PostDelayed (hst_now h) 500 MSG_START_RTMP (hst_queue h)\<rparr>, w)))"

definition StopRtmpStream :: "'w host_env \<Rightarrow> rtmp_hoster \<times> 'w \<Rightarrow> rtmp_hoster \<times> 'w" where
  "StopRtmpStream e hw = (let (h, w) = hw in
     if \<not> av_rtmp_started h then (h, w)
     else (let (c, w) = StopAudioRecord (he_audio e) (hst_core h, w)
           in (h\<lparr>av_rtmp_started := False, video_sink := False, hst_core := c, hst_queue := Post MSG_STOP_RTMP (hst_queue h)\<rparr>, w)))"

fun hoster_OnMessage :: "'w host_env \<Rightarrow> hoster_message \<Rightarrow> rtmp_hoster \<times> 'w \<Rightarrow> 'w host_result" where
  "hoster_OnMessage e MSG_START_RTMP hw = do {
     (l, h, w) \<leftarrow> on_streamer e Start_stream hw;
     (l', h, w) \<leftarrow> (if video_capturer h then Some ([], h, w) else on_streamer e (Video_enable False) (h, w));
     Some (l @ l', h, w) }"
| "hoster_OnMessage e MSG_STOP_RTMP hw = on_streamer e Stop_stream hw"

definition OnRecordAudio :: "'w host_env \<Rightarrow> audio_data \<Rightarrow> rtmp_hoster \<times> 'w \<Rightarrow> 'w host_result" where
  "OnRecordAudio e a hw = on_streamer e (Sound a) hw"

text \<open>A frame of the camera goes through the filter to the encoder that is subscribed to it.\<close>

definition camera_frame :: "'w host_env \<Rightarrow> i420 \<Rightarrow> rtmp_hoster \<times> 'w \<Rightarrow> 'w host_result" where
  "camera_frame e f hw = (let (h, w) = hw in
     if \<not> capturing h then Some ([], h, w)
     else do { (g, c) \<leftarrow> (if he_android e then filter_OnFrame (he_fresh e) f (filter_count h)
                         else do { g \<leftarrow> cut_frame (he_fresh e) f; Some (Some g, filter_count h) });
               let h = h\<lparr>filter_count := c\<rparr>;
               case g of None \<Rightarrow> Some ([], h, w)
               | Some g \<Rightarrow> if video_sink h then on_streamer e (Camera (Some (int (i_width g), int (i_height g), g))) (h, w)
                          else Some ([], h, w) })"

text \<open>Calls of the application, the thread, the devices, and the threads of the streamer.\<close>

datatype host_act = Host_mode RTMPVideoMode | Host_audio bool | Host_capturer "bool option" | Host_start | Host_stop | Host_wait nat
  | Host_message | Host_record audio_data | Host_camera i420 | Host_encoder | Host_image "u8 list" | Host_push

fun host_step :: "'w host_env \<Rightarrow> host_act \<Rightarrow> rtmp_hoster \<times> 'w \<Rightarrow> 'w host_result" where
  "host_step e (Host_mode m) hw = SetVideoMode e m hw"
| "host_step e (Host_audio b) hw = hoster_SetAudioEnable e b hw"
| "host_step e (Host_capturer c) (h, w) = Some ([], SetVideoCapturer c h, w)"
| "host_step e Host_start hw = Some ([], StartRtmpStream e hw)"
| "host_step e Host_stop hw = Some ([], StopRtmpStream e hw)"
| "host_step e (Host_wait n) (h, w) = Some ([], h\<lparr>hst_now := hst_now h + int n\<rparr>, w)"
| "host_step e Host_message (h, w) =
     (let (m, q) = Get (hst_now h) (hst_queue h); h = h\<lparr>hst_queue := q\<rparr>
      in case m of None \<Rightarrow> Some ([], h, w) | Some m \<Rightarrow> hoster_OnMessage e m (h, w))"
| "host_step e (Host_record a) (h, w) =
     (let (d, w) = RecordedDataIsAvailable (he_video e) a (hst_core h, w)
      in case d of None \<Rightarrow> Some ([], h, w) | Some d \<Rightarrow> OnRecordAudio e d (h, w))"
| "host_step e (Host_camera f) hw = camera_frame e f hw"
| "host_step e Host_encoder hw = on_streamer e Encoder_turn hw"
| "host_step e (Host_image b) hw = on_streamer e (Late_image b) hw"
| "host_step e Host_push hw = on_streamer e Push_thread hw"

text \<open>The constructor sets the mode of standard definition.\<close>

definition new_rtmp_hoster ::
  "'w host_env \<Rightarrow> (int \<Rightarrow> int \<Rightarrow> nat) \<Rightarrow> bool \<Rightarrow> 'w \<Rightarrow> (rtmp_hoster \<times> 'w) option" where
  "new_rtmp_hoster e samples factory w = do {
     (_, h, w) \<leftarrow> SetVideoMode e RTMP_Video_SD
       (\<lparr>av_rtmp_started = False, hst_streamer = new_rtmp_streamer samples (he_fresh e) factory, req_size = (0, 0), hst_size = (640, 480),
         video_capturer = False, capturing = False, filter_count = 0, video_sink = False, hst_core = new_rtmp_core,
         hst_queue = \<lparr>msgq = [], dmsgq = []\<rparr>, hst_now = 0\<rparr>, w);
     Some (h, w) }"

abbreviation "host_run e \<equiv> log_run (host_step e)"

section \<open>The sender does what the streamer does\<close>

text \<open>
  A step of the sender does at most two steps of its streamer. \<open>ps\<close> are the frames of the camera as the
  filter cuts them.
\<close>

fun frames_of :: "'w host_env \<Rightarrow> host_act \<Rightarrow> i420 list" where
  "frames_of e (Host_camera f) = (case cut_frame (he_fresh e) f of None \<Rightarrow> [] | Some g \<Rightarrow> [g])"
| "frames_of e _ = []"

definition host_inv :: "i420 list \<Rightarrow> i420 stream_log list \<Rightarrow> rtmp_hoster \<Rightarrow> bool" where
  "host_inv ps log h \<longleftrightarrow> streamer_inv (hst_streamer h) \<and> frames_kept ps log (hst_streamer h)
     \<and> subseq (handed (pushed log) @ waits (hst_streamer h)) (concat (map parts_of (coded_data log)))"

lemma on_streamer_inv:
  assumes "on_streamer e a (h, w) = Some (l, h', w')" "host_inv ps log h"
  shows "host_inv (ps @ pixels_in a) (log @ l) h'" "av_rtmp_started h' = av_rtmp_started h"
proof -
  obtain s' where 1: "streamer_step (he_push e) (he_video e) a (hst_streamer h, w) = Some (l, s', w')" "h' = h\<lparr>hst_streamer := s'\<rparr>"
    using assms(1) by (auto simp: on_streamer_def ub_simps)
  have i: "streamer_inv (hst_streamer h)" using assms(2) by (simp add: host_inv_def)
  show "host_inv (ps @ pixels_in a) (log @ l) h'"
    using streamer_step_inv [OF 1(1) i] frames_kept_step [OF _ streamer_step_frames [OF 1(1) i], of ps log]
      order_kept [OF _ streamer_step_order [OF 1(1) i], of log] assms(2)
    by (simp add: host_inv_def 1(2))
  show "av_rtmp_started h' = av_rtmp_started h" by (simp add: 1(2))
qed

lemma host_inv_cong: "hst_streamer h' = hst_streamer h \<Longrightarrow> host_inv ps log h' = host_inv ps log h"
  by (simp add: host_inv_def)

lemma host_inv_more: "host_inv ps log h \<Longrightarrow> host_inv (ps @ qs) log h"
  by (auto simp: host_inv_def frames_kept_def intro: subseq_rev_drop_many)

lemma hoster_OnMessage_inv:
  assumes "hoster_OnMessage e m (h, w) = Some (l, h', w')" "host_inv ps log h"
  shows "host_inv ps (log @ l) h'"
proof (cases m)
  case MSG_STOP_RTMP
  then show ?thesis using assms on_streamer_inv(1) [of e Stop_stream h w l h' w' ps log] by simp
next
  case MSG_START_RTMP
  then obtain l1 h1 w1 l2 where 1: "on_streamer e Start_stream (h, w) = Some (l1, h1, w1)"
    and 2: "(if video_capturer h1 then Some ([], h1, w1) else on_streamer e (Video_enable False) (h1, w1)) = Some (l2, h', w')"
    and l: "l = l1 @ l2" using assms(1) by (auto simp: ub_simps)
  have i: "host_inv ps (log @ l1) h1" using on_streamer_inv(1) [OF 1 assms(2)] by simp
  then show ?thesis using 2 on_streamer_inv(1) [of e "Video_enable False" h1 w1 l2 h' w' ps "log @ l1"]
    by (auto simp: l split: if_splits)
qed

lemma camera_frame_inv:
  assumes "camera_frame e f (h, w) = Some (l, h', w')" "host_inv ps log h"
  shows "host_inv (ps @ frames_of e (Host_camera f)) (log @ l) h'"
proof (cases "capturing h")
  case False
  then show ?thesis using assms host_inv_more by (auto simp: camera_frame_def)
next
  case True
  then obtain g c where g: "(if he_android e then filter_OnFrame (he_fresh e) f (filter_count h)
      else do { g \<leftarrow> cut_frame (he_fresh e) f; Some (Some g, filter_count h) }) = Some (g, c)"
    and r: "(case g of None \<Rightarrow> Some ([], h\<lparr>filter_count := c\<rparr>, w)
       | Some g \<Rightarrow> if video_sink (h\<lparr>filter_count := c\<rparr>)
           then on_streamer e (Camera (Some (int (i_width g), int (i_height g), g))) (h\<lparr>filter_count := c\<rparr>, w)
           else Some ([], h\<lparr>filter_count := c\<rparr>, w)) = Some (l, h', w')"
    using assms(1) by (auto simp: camera_frame_def ub_simps Let_def split: if_splits)
  have i: "host_inv ps log (h\<lparr>filter_count := c\<rparr>)" using assms(2) host_inv_cong [of "h\<lparr>filter_count := c\<rparr>" h] by simp
  show ?thesis
  proof (cases g)
    case None
    then show ?thesis using r i host_inv_more by auto
  next
    case (Some x)
    then have "cut_frame (he_fresh e) f = Some x" using g by (auto simp: filter_OnFrame_def ub_simps split: if_splits)
    then have f: "frames_of e (Host_camera f) = [x]" by simp
    show ?thesis
    proof (cases "video_sink h")
      case True
      then have "on_streamer e (Camera (Some (int (i_width x), int (i_height x), x))) (h\<lparr>filter_count := c\<rparr>, w) = Some (l, h', w')"
        using r Some by simp
      from on_streamer_inv(1) [OF this i] show ?thesis unfolding f by simp
    next
      case False
      then have "l = []" "h' = h\<lparr>filter_count := c\<rparr>" using r Some by simp_all
      then show ?thesis using host_inv_more [OF i, of "[x]"] unfolding f by simp
    qed
  qed
qed

lemma host_step_inv:
  assumes "host_step e a (h, w) = Some (l, h', w')" "host_inv ps log h"
  shows "host_inv (ps @ frames_of e a) (log @ l) h'"
proof (cases a)
  case (Host_mode m)
  obtain req xy b where m: "mode_sizes (he_android e) m = (req, xy, b)" by (cases "mode_sizes (he_android e) m")
  obtain x y where "xy = (x, y)" by (cases xy)
  then show ?thesis using assms m Host_mode host_inv_cong [of "h\<lparr>req_size := req, hst_size := (x, y)\<rparr>" h ps log]
      on_streamer_inv(1) [of e "Video_params x y b" "h\<lparr>req_size := req, hst_size := (x, y)\<rparr>" w l h' w' ps log]
    by (simp add: SetVideoMode_def)
next
  case (Host_audio b)
  then show ?thesis using assms on_streamer_inv(1) [of e "Audio_enable b" h w l h' w' ps log] by (simp add: hoster_SetAudioEnable_def)
next
  case (Host_capturer c)
  then show ?thesis using assms host_inv_cong [of "SetVideoCapturer c h" h] by (auto simp: SetVideoCapturer_def split: option.splits)
next
  case Host_start
  then have "hst_streamer h' = hst_streamer h" "l = []"
    using assms(1) by (auto simp: StartRtmpStream_def StartAudioRecord_def Let_def split: if_splits)
  then show ?thesis using assms(2) host_inv_cong [of h' h ps log] Host_start by simp
next
  case Host_stop
  then have "hst_streamer h' = hst_streamer h" "l = []"
    using assms(1) by (auto simp: StopRtmpStream_def StopAudioRecord_def Let_def split: if_splits)
  then show ?thesis using assms(2) host_inv_cong [of h' h ps log] Host_stop by simp
next
  case (Host_wait n)
  then show ?thesis using assms host_inv_cong [of "h\<lparr>hst_now := hst_now h + int n\<rparr>" h] by auto
next
  case Host_message
  obtain m q where g: "Get (hst_now h) (hst_queue h) = (m, q)" by (cases "Get (hst_now h) (hst_queue h)")
  have i: "host_inv ps log (h\<lparr>hst_queue := q\<rparr>)" using assms(2) host_inv_cong [of "h\<lparr>hst_queue := q\<rparr>" h] by simp
  show ?thesis using assms(1) Host_message g i hoster_OnMessage_inv [OF _ i, of e _ w l h' w'] by (auto simp: Let_def split: option.splits)
next
  case (Host_record d)
  obtain x w1 where r: "RecordedDataIsAvailable (he_video e) d (hst_core h, w) = (x, w1)"
    by (cases "RecordedDataIsAvailable (he_video e) d (hst_core h, w)")
  show ?thesis
  proof (cases x)
    case None
    then show ?thesis using assms Host_record r by auto
  next
    case (Some y)
    then show ?thesis using assms Host_record r on_streamer_inv(1) [of e "Sound y" h w1 l h' w' ps log] by (simp add: OnRecordAudio_def)
  qed
next
  case (Host_camera f)
  then show ?thesis using assms camera_frame_inv [of e f h w l h' w' ps log] by simp
next
  case Host_encoder
  then show ?thesis using assms on_streamer_inv(1) [of e Encoder_turn h w l h' w' ps log] by simp
next
  case (Host_image b)
  then show ?thesis using assms on_streamer_inv(1) [of e "Late_image b" h w l h' w' ps log] by simp
next
  case Host_push
  then show ?thesis using assms on_streamer_inv(1) [of e Push_thread h w l h' w' ps log] by simp
qed

lemma host_run_inv:
  "host_run e as (h, w) = Some (l, h', w') \<Longrightarrow> host_inv ps log h \<Longrightarrow> host_inv (ps @ concat (map (frames_of e) as)) (log @ l) h'"
proof (induction as arbitrary: h w l ps log)
  case (Cons a as)
  then obtain l1 h1 w1 l2 where 1: "host_step e a (h, w) = Some (l1, h1, w1)" "host_run e as (h1, w1) = Some (l2, h', w')" "l = l1 @ l2"
    by (auto simp: ub_simps)
  from Cons.IH [OF 1(2) host_step_inv [OF 1(1) Cons.prems(2)]] show ?case by (simp add: 1(3))
qed simp

lemma new_hoster_inv:
  assumes "new_rtmp_hoster e samples factory w = Some (h, w0)"
  shows "host_inv [] [] h"
proof -
  let ?h = "\<lparr>av_rtmp_started = False, hst_streamer = new_rtmp_streamer samples (he_fresh e) factory, req_size = (0, 0), hst_size = (640, 480),
         video_capturer = False, capturing = False, filter_count = 0, video_sink = False, hst_core = new_rtmp_core,
         hst_queue = \<lparr>msgq = [], dmsgq = []\<rparr>, hst_now = 0\<rparr>"
  have "waits (hst_streamer ?h) = []" by (simp add: waits_def new_rtmp_streamer_def)
  then have i: "host_inv [] [] ?h" by (simp add: host_inv_def new_streamer_inv new_streamer_frames)
  obtain l where l: "host_step e (Host_mode RTMP_Video_SD) (?h, w) = Some (l, h, w0)"
    using assms by (auto simp: new_rtmp_hoster_def ub_simps)
  have "l = []" using l by (auto simp: SetVideoMode_def on_streamer_def ub_simps Let_def split: if_splits prod.splits)
  with host_step_inv [OF l i] show ?thesis by simp
qed

text \<open>
  C11. From the camera to the server, whatever the application, the devices and the threads do: the frames
  that are encoded are frames of the camera as the filter cuts them, in order and each at most once;
  the data that goes to the server is data of the encoders, in order and each part at most once; and
  the encoders run exactly while the stream is published.
\<close>
theorem camera_to_server:
  assumes "new_rtmp_hoster e samples factory w = Some (h, w0)" "host_run e acts (h, w0) = Some (log, h', w')"
  shows "subseq (map (frame_pixels \<circ> fst) (given (filmed log))) (concat (map (frames_of e) acts))
    \<and> subseq (handed (pushed log)) (concat (map parts_of (coded_data log)))
    \<and> (v_encoded (v_h264_encoder_of (hst_streamer h')) \<longleftrightarrow> streaming (hst_streamer h'))"
proof -
  have "host_inv (concat (map (frames_of e) acts)) log h'" using host_run_inv [OF assms(2) new_hoster_inv [OF assms(1)]] by simp
  then show ?thesis unfolding host_inv_def
    by (auto simp: streamer_inv_def encoders_on_def dest: frames_kept_given handed_in_order)
qed

section \<open>Starting and stopping\<close>

text \<open>A sender at rest.\<close>

definition host_at_rest :: "rtmp_hoster \<Rightarrow> bool" where
  "host_at_rest h \<longleftrightarrow> \<not> av_rtmp_started h \<and> msgq (hst_queue h) = [] \<and> dmsgq (hst_queue h) = [] \<and> av_rtmp (hst_streamer h) = None
     \<and> str_sample_hz (hst_streamer h) = 44100 \<and> str_channels (hst_streamer h) = 1"

lemma new_hoster_at_rest: "new_rtmp_hoster e samples factory w = Some (h, w0) \<Longrightarrow> host_at_rest h"
  by (auto simp: new_rtmp_hoster_def SetVideoMode_def on_streamer_def ub_simps Let_def host_at_rest_def new_rtmp_streamer_def
      streamer_SetVideoParameter_def v_SetRates_def split: if_splits)

lemma start_message_links:
  assumes "str_sample_hz (hst_streamer h) = 44100" "str_channels (hst_streamer h) = 1"
  shows "\<exists>l h' w'. hoster_OnMessage e MSG_START_RTMP (h, w) = Some (l, h', w') \<and> av_rtmp (hst_streamer h') \<noteq> None
    \<and> av_rtmp_started h' = av_rtmp_started h \<and> hst_queue h' = hst_queue h \<and> hst_now h' = hst_now h"
  using assms
  by (cases "av_rtmp (hst_streamer h)")
    (auto simp: on_streamer_def StartStream_def SetAudioParameter_def SetVideoEnable_def Let_def)

lemma stop_message_unlinks:
  "\<exists>l h' w'. hoster_OnMessage e MSG_STOP_RTMP (h, w) = Some (l, h', w') \<and> av_rtmp (hst_streamer h') = None
    \<and> av_rtmp_started h' = av_rtmp_started h \<and> hst_queue h' = hst_queue h \<and> hst_now h' = hst_now h
    \<and> str_sample_hz (hst_streamer h') = str_sample_hz (hst_streamer h) \<and> str_channels (hst_streamer h') = str_channels (hst_streamer h)"
  by (auto simp: on_streamer_def StopStream_def StopEncoder_def Let_def)

text \<open>What a start and a stop do to the queue, and when the message of a start is due.\<close>

lemma start_posts:
  assumes "host_at_rest h"
  shows "\<exists>h' w'. StartRtmpStream e (h, w) = (h', w') \<and> av_rtmp_started h' \<and> hst_streamer h' = hst_streamer h
    \<and> hst_queue h' = \<lparr>msgq = [], dmsgq = [(hst_now h + 500, MSG_START_RTMP)]\<rparr> \<and> hst_now h' = hst_now h"
  using assms by (cases "hst_queue h") (auto simp: host_at_rest_def StartRtmpStream_def PostDelayed_def Let_def split: prod.splits)

lemma stop_posts:
  assumes "av_rtmp_started h"
  shows "\<exists>h' w'. StopRtmpStream e (h, w) = (h', w') \<and> \<not> av_rtmp_started h' \<and> hst_streamer h' = hst_streamer h
    \<and> hst_queue h' = Post MSG_STOP_RTMP (hst_queue h) \<and> hst_now h' = hst_now h"
  using assms by (auto simp: StopRtmpStream_def Let_def split: prod.splits)

text \<open>A message that is taken and handled.\<close>

lemma host_message_step:
  assumes "Get (hst_now h) (hst_queue h) = (Some m, q)" "hoster_OnMessage e m (h\<lparr>hst_queue := q\<rparr>, w) = Some (l, h', w')"
  shows "host_step e Host_message (h, w) = Some (l, h', w')"
  using assms by simp


section \<open>The receiver\<close>

record rtmp_guester =
  gst_started :: bool
  gst_player :: rtmp_player
  gst_core :: rtmp_core

definition new_rtmp_guester :: rtmp_guester where
  "new_rtmp_guester = \<lparr>gst_started = False, gst_player = new_rtmp_player, gst_core = new_rtmp_core\<rparr>"

text \<open>\<open>ge_resample\<close> gives the number of samples, or -1, and the content of \<^verbatim>\<open>temp_output\<close>.\<close>

record 'c guest_env =
  ge_player :: "'c player_env"
  ge_audio :: "'c audio_device"
  ge_resample :: "u8 list \<Rightarrow> int \<Rightarrow> int \<Rightarrow> 'c \<Rightarrow> (int \<times> u8 list) \<times> 'c"

definition StartRtmpPlay :: "'c guest_env \<Rightarrow> rtmp_guester \<times> 'c \<Rightarrow> rtmp_guester \<times> 'c" where
  "StartRtmpPlay e gc = (let (g, c) = gc in
     if gst_started g then (g, c)
     else (let g = g\<lparr>gst_started := True, gst_player := StartPlay (gst_player g)\<rparr>;
               (k, c) = StartAudioTrack (ge_audio e) (gst_core g, c)
           in (g\<lparr>gst_core := k\<rparr>, c)))"

definition StopRtmpPlay :: "'c guest_env \<Rightarrow> rtmp_guester \<times> 'c \<Rightarrow> player_log list \<times> rtmp_guester \<times> 'c" where
  "StopRtmpPlay e gc = (let (g, c) = gc in
     if \<not> gst_started g then ([], g, c)
     else (let (k, c) = StopAudioTrack (ge_audio e) (gst_core g, c); (l, p) = StopPlay (gst_player g)
           in (l, g\<lparr>gst_started := False, gst_core := k, gst_player := p\<rparr>, c)))"

text \<open>The destructor up to the deletion of the player.\<close>

definition destroy_guester :: "'c guest_env \<Rightarrow> rtmp_guester \<times> 'c \<Rightarrow> player_log list \<times> rtmp_guester \<times> 'c" where
  "destroy_guester e gc = (let (l, g, c) = StopRtmpPlay e gc; (l', p) = StopPlay (gst_player g)
     in (l @ l', g\<lparr>gst_player := p\<rparr>, c))"

text \<open>The audio of the player: what was copied, the sampling rate, the channels.\<close>

definition OnNeedPlayAudio :: "rtmp_guester \<Rightarrow> (u8 list \<times> int \<times> int) \<times> player_log list \<times> rtmp_guester" where
  "OnNeedPlayAudio g =
     (let (hz, ch) = (case ply_decoder_of (gst_player g) of
            Some (b, d) \<Rightarrow> if playing d then (uint (aac_sample_hz d), uint (ply_decoder.aac_channels d)) else (0, 0) | None \<Rightarrow> (0, 0));
          (l, p) = GetNeedPlayAudio (gst_player g)
      in ((case l of [Heard x] \<Rightarrow> pk_data x | _ \<Rightarrow> [], hz, ch), l, g\<lparr>gst_player := p\<rparr>))"

text \<open>
  The request of the device for 10 milliseconds of sound: what is put into its buffer, if anything, and
  the number of samples. The array between has 1920 bytes.
\<close>

definition NeedMorePlayData ::
  "'c guest_env \<Rightarrow> int \<Rightarrow> int \<Rightarrow> rtmp_guester \<times> 'c \<Rightarrow> ((u8 list \<times> int) option \<times> player_log list \<times> rtmp_guester \<times> 'c) option" where
  "NeedMorePlayData e nChannels samplesPerSec gc = (let (g, c) = gc in
     if \<not> audio_track_callback (gst_core g) then Some (None, [], g, c)
     else (let ((aac, hz, ch), l, g) = OnNeedPlayAudio g;
               g = g\<lparr>gst_core := (gst_core g)\<lparr>core_track_hz := hz, core_track_channels := ch\<rparr>\<rparr>
           in if 1920 < length aac then None
              else if aac \<noteq> []
              then (let ((n, temp), c) = ge_resample e aac (hz * ch) (samplesPerSec * nChannels) c
                    in if 0 < n then Some (Some (take (2 * nat n) temp, n div nChannels), l, g, c) else Some (None, l, g, c))
              else (let n = samplesPerSec div 100
                    in if 0 < n then Some (Some (replicate (nat n * 2 * nat nChannels) 0, n), l, g, c) else Some (None, l, g, c))))"

text \<open>A receiver that plays is told about the end of it twice when it is deleted, one that never played once.\<close>

lemma destroyed_twice_closed:
  "gst_started g \<Longrightarrow> fst (destroy_guester e (g, c)) = [OnRtmplayerClose 0, OnRtmplayerClose 0]"
  "\<not> gst_started g \<Longrightarrow> fst (destroy_guester e (g, c)) = [OnRtmplayerClose 0]"
  by (auto simp: destroy_guester_def StopRtmpPlay_def StopAudioTrack_def StopPlay_def Let_def)

text \<open>
  A sound frame of more than 1920 bytes, as 10 milliseconds of 96 kHz stereo have, runs out of the array.
\<close>

lemma wide_sound_overruns:
  assumes "audio_track_callback (gst_core g)" "ply_decoder_of (gst_player g) = Some (b, d)" "playing d"
    "lst_audio_buffer b = p # ps" "1920 < length (pk_data p)"
  shows "NeedMorePlayData e ch hz (g, c) = None"
  using assms by (simp add: NeedMorePlayData_def OnNeedPlayAudio_def GetNeedPlayAudio_def GetPcmData_def GetPlayAudio_def Let_def)

text \<open>Without sound the device gets silence of the length it wants.\<close>

lemma no_sound_silence:
  assumes "audio_track_callback (gst_core g)" "ply_decoder_of (gst_player g) = Some (b, d)" "\<not> playing d \<or> lst_audio_buffer b = []"
    "100 \<le> hz" "0 < ch"
  shows "\<exists>g'. NeedMorePlayData e ch hz (g, c) = Some (Some (replicate (nat (hz div 100) * 2 * nat ch) 0, hz div 100), [], g', c)"
proof -
  have "0 < hz div 100" using assms(4) by simp
  moreover have "GetNeedPlayAudio (gst_player g) = ([], (gst_player g)\<lparr>ply_decoder_of := Some (b, d)\<rparr>)"
    using assms(2,3) by (auto simp: GetNeedPlayAudio_def GetPcmData_def GetPlayAudio_def)
  ultimately show ?thesis using assms(1,2) by (simp add: NeedMorePlayData_def OnNeedPlayAudio_def Let_def)
qed

section \<open>A sender\<close>

text \<open>A device that records whatever it is asked, and an application that sends a little.\<close>

definition sample_host :: "nat host_env" where
  "sample_host = \<lparr>he_push = kind_server, he_video = sample_video,
     he_audio = \<lparr>adm_Recording = \<lambda>_. False, adm_StartRecording = \<lambda>n. n, adm_StopRecording = \<lambda>n. n, adm_Playing = \<lambda>_. False,
       adm_StartPlayout = \<lambda>n. n, adm_StopPlayout = \<lambda>n. n\<rparr>,
     he_fresh = \<lambda>n. replicate n 0, he_android = False\<rparr>"

definition small_frame :: i420 where
  "small_frame = \<lparr>i_width = 2, i_height = 2, i_DataY = [1, 2, 3, 4], i_DataU = [5], i_DataV = [6]\<rparr>"

definition sample_host_acts :: "host_act list" where
  "sample_host_acts = [Host_capturer (Some True), Host_start, Host_camera small_frame, Host_wait 500, Host_message, Host_push, Host_push,
     Host_push, Host_camera small_frame, Host_encoder, Host_push, Host_push]"

lemma sample_host_log:
  "case do { hw \<leftarrow> new_rtmp_hoster sample_host (\<lambda>_ _. 2) False 0; host_run sample_host sample_host_acts hw } of
     Some (l, h, w) \<Rightarrow> map (i_DataY \<circ> frame_pixels \<circ> fst) (given (filmed l)) = [[1, 2, 3, 4]]
       \<and> map enc_data (handed (pushed l)) = [[0, 0, 0, 1, 0x67, 1], [0, 0, 1, 0x68, 1]]
   | None \<Rightarrow> False"
  by code_simp

theorem camera_to_server_witness:
  "\<exists>h w0 l h' w'. new_rtmp_hoster sample_host (\<lambda>_ _. 2) False 0 = Some (h, w0)
    \<and> host_run sample_host sample_host_acts (h, w0) = Some (l, h', w')
    \<and> length (given (filmed l)) = 1 \<and> subseq (map (frame_pixels \<circ> fst) (given (filmed l))) (concat (map (frames_of sample_host) sample_host_acts))
    \<and> length (handed (pushed l)) = 2 \<and> subseq (handed (pushed l)) (concat (map parts_of (coded_data l)))"
proof -
  obtain h w0 l h' w' where r: "new_rtmp_hoster sample_host (\<lambda>_ _. 2) False 0 = Some (h, w0)"
    "host_run sample_host sample_host_acts (h, w0) = Some (l, h', w')"
    "map (i_DataY \<circ> frame_pixels \<circ> fst) (given (filmed l)) = [[1, 2, 3, 4]]"
    "map enc_data (handed (pushed l)) = [[0, 0, 0, 1, 0x67, 1], [0, 0, 1, 0x68, 1]]"
    using sample_host_log by (auto split: option.splits Option.bind_splits)
  have "length (given (filmed l)) = 1" "length (handed (pushed l)) = 2"
    using arg_cong [OF r(3), of length] arg_cong [OF r(4), of length] by simp_all
  with camera_to_server [OF r(1,2)] r(1,2) show ?thesis
    by (intro exI [of _ h] exI [of _ w0] exI [of _ l] exI [of _ h'] exI [of _ w']) simp
qed


end
