(* ===== verification/Spec2Isabelle.thy ===== *)
theory Spec2Isabelle
  imports Rc522 Sensor_Devices Uvc_Frame Uvc_Device Libusb_Descriptor Rtmp_Host
begin

text \<open>
  The terminal of this repository takes pictures with USB cameras and reads sensors: C code under
  \<^verbatim>\<open>src/sensordriver/src/main/jni\<close> talks to an RFID reader, an ADC, lights and motion sensors, and
  C code under \<^verbatim>\<open>src/libuvccamera/src/main/jni\<close> (\<^verbatim>\<open>libusb\<close> and \<^verbatim>\<open>libuvc\<close>, both patched for Android)
  finds, opens and controls cameras and turns what they send into frames. This development models
  these two parts and a third, the RTMP clients. A camera is found in libusb's list of devices and opened (\<open>Libusb_Core\<close>,
  \<open>Uvc_Device\<close>); its descriptors are parsed (\<open>Uvc_Descriptors\<close>); a format, a size and a rate are
  negotiated (\<open>Uvc_Stream_Ctrl\<close>) by control transfers (\<open>Libusb_Sync\<close>), through which its controls
  are also set (\<open>Uvc_Controls\<close>); a stream is opened and started (\<open>Uvc_Stream\<close>), whose transfers
  carry payloads that are put together to frames (\<open>Uvc_Payload\<close>) and handed to the user, who
  converts them (\<open>Uvc_Frame\<close>). What the terminal shows of its advertisements and sends of its
  camera goes over RTMP: the C++ classes under \<^verbatim>\<open>src/anyrtc/jni/AnyCore\<close>. A sender (\<open>Rtmp_Host\<close>) passes
  the frames of a camera through a filter (\<open>Video_Filter\<close>) and the sound of a microphone to a streamer
  (\<open>Rtmp_Streamer\<close>), whose encoders (\<open>Av_Audio\<close>, \<open>Av_Video\<close>) feed the connection that pushes them to a
  server (\<open>Rtmp_Push\<close>). A receiver (\<open>Rtmp_Host\<close>) pulls a stream (\<open>Rtmp_Pull\<close>) into a player (\<open>Rtmp_Player\<close>)
  with its buffer and decoder (\<open>Ply_Buffer\<close>).

  Throughout, undefined behaviour of C (an access outside an object, to a freed struct or through
  a null pointer, a division by zero, a failed assertion) and a loop that never ends are the value
  \<^theory_text>\<open>None\<close>; errors that the code returns are numbers, as in C. Integers are words of their width where
  they can wrap, bytes are lists of 8 bit words, and structs are records with the names of their
  fields after a prefix. What is not in the repository (the kernel, the USB host controller, the
  asynchronous half of libusb, memory allocation) is a record of functions over a world of any
  type, and theorems state what they assume of it. A struct that is shared and counted is a name
  in a partial map that says whether it is still allocated.

  The theories, in the order of their imports:

  \<^item> \<open>C_Prelude\<close>: arrays with bounds, little-endian numbers, the collection \<open>ub_simps\<close> that opens the
    option monad; \<open>Posix_Dev\<close>: the kernel below the sensor drivers.
  \<^item> \<open>Rc522\<close> (\<^verbatim>\<open>com_bupt_sensordriver_rfid.c\<close>): registers over SPI frames, the exchange of a command with
    the chip, reading a card, and the JNI entry points. The polling loop runs at most 6000 times, which
    is a counter of the code. The exchange always returns, keeps its 18 bytes, and ends with the
    chip idle; a serial number that is read agrees with its check byte.
  \<^item> \<open>Sensor_Devices\<close> (\<^verbatim>\<open>_adc.c\<close>, \<^verbatim>\<open>_led.c\<close>, \<^verbatim>\<open>_sensor.c\<close>): the small drivers.
  \<^item> \<open>Libusb_Sync\<close> (\<^verbatim>\<open>libusb/sync.c\<close>): synchronous transfers; waiting is a partial function, and it is
    total exactly when the backend completes the transfer (locale \<open>usb_backend\<close>).
  \<^item> \<open>Libusb_Core\<close> (\<^verbatim>\<open>core.c\<close>, and parts of \<^verbatim>\<open>os/android_usbfs.c\<close>, \<^verbatim>\<open>io.c\<close>, \<^verbatim>\<open>descriptor.c\<close>): devices, lists,
    handles, and hotplug messages. The relation \<open>lib_step\<close> is any order of calls and events; the
    invariant \<open>refs_ok\<close> says that every count is the number of owners, and the theorems about
    ownership refine the counts to it. The contract \<open>ref_counter\<close> of a counted resource is shared
    with \<open>Uvc_Device\<close>.
  \<^item> \<open>Uvc_Types\<close> (\<^verbatim>\<open>libuvc.h\<close>, \<^verbatim>\<open>libuvc_internal.h\<close>): the structs and byte order macros.
  \<^item> \<open>Uvc_Controls\<close> (\<^verbatim>\<open>ctrl.c\<close>): all getters and setters, over a contract for a device that keeps what it is
    told (locales \<open>control_pipe\<close>, \<open>control_store\<close>).
  \<^item> \<open>Uvc_Descriptors\<close> (\<^verbatim>\<open>device.c\<close>): the parser. It returns on well-formed bytes, whatever it
    returns on describes frames and formats consistently, and it inverts an encoder.
  \<^item> \<open>Uvc_Stream_Ctrl\<close> (\<^verbatim>\<open>stream.c\<close>): the table of formats, probe and commit, and the search, which finds
    a mode exactly when the description has one.
  \<^item> \<open>Uvc_Payload\<close> (\<^verbatim>\<open>stream.c\<close>): bulk and isochronous payloads; no byte leaves the two buffers, and the
    payloads of a frame are published as their concatenation.
  \<^item> \<open>Uvc_Stream\<close> (\<^verbatim>\<open>stream.c\<close>): open, start, callbacks, stop, polling, and the callback thread as a step
    relation against the arrival of payloads.
  \<^item> \<open>Uvc_Frame\<close> (\<^verbatim>\<open>frame.c\<close>): allocation, copies, and all conversions; the unrolled macros of groups of
    eight pixels are proved equal to a pixel by pixel reference (locale \<open>pixel_macro\<close>).
  \<^item> \<open>Uvc_Device\<close> (\<^verbatim>\<open>device.c\<close>, \<^verbatim>\<open>init.c\<close>): enumeration, lookup, reference counts, opening and closing, the
    event thread, status messages. The relation \<open>uvc_step\<close> is any order of calls and hotplug events,
    \<open>uvc_ok\<close> its invariant: counts over those of libusb, and every open handle has one of libusb.
  \<^item> \<open>Libusb_Descriptor\<close> (\<^verbatim>\<open>libusb/descriptor.c\<close>, the cache of \<^verbatim>\<open>os/android_usbfs.c\<close>): the parser of
    configurations, which returns on all bytes but one case and inverts an encoder, the search for a
    configuration in the cached descriptors, capabilities and strings. \<open>missing_interfaces\<close> follows
    a configuration that lies about its interfaces into the scan of \<^verbatim>\<open>libuvc\<close>.
  \<^item> \<open>Ply_Buffer\<close> (\<^verbatim>\<open>plybuffer.cc\<close>, \<^verbatim>\<open>plydecoder.cc\<close>): the queues of the player and its three states. The
    buffer is a client of its callback (locale \<open>ply_sink\<close>), which the decoder interprets; video and
    audio keep their order, the states of the two agree, decoded audio is cut without loss.
  \<^item> \<open>Rtmp_Session\<close>: what both RTMP clients share: taking a key frame apart, and the life of a
    connection as the relation \<open>conn_step\<close>. The locale \<open>rtmp_client\<close> says that a client follows it, and
    proves what can be in the log of one that does.
  \<^item> \<open>Rtmp_Push\<close> (\<^verbatim>\<open>anyrtmpush.cc\<close>): the calls and the thread of the streamer; it interprets \<open>rtmp_client\<close>, its
    queue is first-in first-out, and each connection starts with a key frame.
  \<^item> \<open>Rtmp_Pull\<close> (\<^verbatim>\<open>anyrtmpull.cc\<close>): the thread of the player's connection, another \<open>rtmp_client\<close>, and the
    conversion of samples to start codes and ADTS headers.
  \<^item> \<open>Rtmp_Player\<close> (\<^verbatim>\<open>anyrtmplayer.cc\<close>): the player between \<open>Rtmp_Pull\<close> and \<open>Ply_Buffer\<close>, and what comes of
    the video on the way from one to the other.
  \<^item> \<open>Av_Audio\<close> (\<^verbatim>\<open>aacencode.cc\<close>, \<^verbatim>\<open>A_AACEncoder\<close> of \<^verbatim>\<open>avcodec.cc\<close>): recorded sound is cut into the blocks of the coder,
    which are the blocks of the whole sound, in order and without loss.
  \<^item> \<open>Av_Video\<close> (\<^verbatim>\<open>V_H264Encoder\<close> of \<^verbatim>\<open>avcodec.cc\<close>, \<^verbatim>\<open>video_render_frames.cc\<close> of WebRTC): the queue of frames and the thread that
    encodes them; frames keep their order, a start asks for a key frame, and the rate follows the delay.
  \<^item> \<open>Rtmp_Streamer\<close> (\<^verbatim>\<open>anyrtmpstreamer.cc\<close>): the encoders over the connection. \<open>streamer_step\<close> is any order of
    calls, devices and threads; the encoders run exactly while the stream is published, and what goes to
    the server is what they put out, in order and from a key frame on.
  \<^item> \<open>Video_Filter\<close> (\<^verbatim>\<open>videofilter.cc\<close>): every third frame is dropped, upright frames are cut to their middle.
  \<^item> \<open>Rtmp_Host\<close> (\<^verbatim>\<open>RtmpHosterImpl.cc\<close>, \<^verbatim>\<open>RtmpGuesterImpl.cc\<close>, \<^verbatim>\<open>anyrtmpcore.cc\<close>, the queue of \<^verbatim>\<open>webrtc/base/messagequeue.cc\<close>): the
    sender and the receiver. \<open>host_step\<close> adds the camera, the microphone, the messages and the time to the
    streamer; the theorems follow a frame from the camera to the server, and a stop that overtakes its start.
  \<^item> \<open>Spec2Isabelle\<close>: what spans components, from descriptors to a negotiated mode and from
    payloads to a polled frame.

  There is no fuel: loops that are not structural are partial functions with the value \<^theory_text>\<open>None\<close> when
  they do not end, and that they end is proved where it is claimed.

  Not modelled: the parts of libusb that are a kernel interface (URBs, sysfs, netlink, poll), its
  hotplug callbacks, its remaining accessors and printing; the MJPEG conversion, a loop around libjpeg;
  diagnostics; freeing of memory that nothing refers to; the time stamps and user pointers that
  are passed through; the interleaving of threads below the granularity of a lock or a call. Of
  the RTMP part: the writers of metadata, which nothing calls; the capture devices, renderers, coders and
  the resampler, which are parameters; the wrapper of the AAC decoder. The camera classes in C++ (\<^verbatim>\<open>UVCCamera\<close>)
  and the JNI layers are glue over these libraries; WebRTC, \<^verbatim>\<open>srs_librtmp\<close>, x264, libyuv and
  libjpeg-turbo are third-party code.
\<close>

section \<open>From the descriptors to the negotiation\<close>

lemma info_ok_searchable:
  assumes "info_ok info" "si \<in> set (stream_ifs info)" "fm \<in> set (si_format_descs si)"
    "frame \<in> set (fm_frame_descs fm)"
    and "fr_intervals frame = None \<longrightarrow> fr_dwFrameIntervalStep frame \<noteq> 0"
  shows "searchable frame"
proof -
  have "frame_ok (fm_bBitsPerPixel fm) frame"
    using assms(1-4) by (simp add: info_ok_def stream_ok_def format_ok_def)
  then show ?thesis
  proof (cases "fr_intervals frame")
    case None
    with assms(5) show ?thesis by (simp add: searchable_def)
  next
    case (Some vs)
    with \<open>frame_ok _ frame\<close> have "length vs = unat (fr_bFrameIntervalType frame) + 1" "last vs = 0"
      by (simp_all add: frame_ok_def)
    then have "0 \<in> set vs" using last_in_set [of vs] by (cases vs) simp_all
    with Some show ?thesis by (simp add: searchable_def)
  qed
qed

text \<open>
  C3. From descriptors to a negotiated mode. When the control scan of whatever bytes a device
  sent has returned, and the device answers every request, a request for a size, a kind and a
  range of rates returns on the description the scan built: success exactly when it holds
  such a frame and interval. The only condition left on the device is that frames described
  by a range of intervals state a step.
\<close>
theorem scanned_negotiation:
  assumes "uvc_scan_control sb ids \<lparr>di_config = cfg, ctrl_if = zero_ctrl_if, stream_ifs = []\<rparr>
      = Some (r0, info)"
    and "obliging u devh" "dh_info devh = info" "- 2147483648 < min_fps"
    and "\<forall>si \<in> set (stream_ifs info). \<forall>fm \<in> set (si_format_descs si). \<forall>frame \<in> set (fm_frame_descs fm).
      fr_intervals frame = None \<longrightarrow> fr_dwFrameIntervalStep frame \<noteq> 0"
  shows "\<exists>r c w'. uvc_get_stream_ctrl_format_size_fps u devh cf width height min_fps max_fps w = Some (r, c, w')
    \<and> (r = UVC_SUCCESS \<longleftrightarrow> (\<exists>si \<in> set (stream_ifs info). \<exists>fm \<in> set (si_format_descs si).
         offers cf width height min_fps max_fps fm))"
proof -
  have "\<forall>si \<in> set (stream_ifs (dh_info devh)). \<forall>fm \<in> set (si_format_descs si).
      \<forall>frame \<in> set (fm_frame_descs fm). searchable frame"
    using info_ok_searchable [OF scan_control_info_ok [OF assms(1)]] assms(3,5) by blast
  from obliging_negotiation [OF assms(2) this assms(4), of cf width height max_fps w] show ?thesis
    by (auto simp: assms(3))
qed

lemma cam_scan:
  "case uvc_scan_control 32 None \<lparr>di_config = Some cam_config, ctrl_if = zero_ctrl_if, stream_ifs = []\<rparr> of
     None \<Rightarrow> False
   | Some (r, info) \<Rightarrow> r = 0
       \<and> (\<forall>si \<in> set (stream_ifs info). \<forall>fm \<in> set (si_format_descs si).
            \<forall>frame \<in> set (fm_frame_descs fm). fr_intervals frame \<noteq> None)
       \<and> (\<exists>si \<in> set (stream_ifs info). \<exists>fm \<in> set (si_format_descs si).
            \<exists>frame \<in> set (fm_frame_descs fm). fm_guidFormat fm = [0x4d, 0x4a, 0x50, 0x47, 0, 0, 0, 0, 0, 0, 0, 0, 0, 0, 0, 0]
              \<and> has_size 640 480 frame \<and> interval_fits frame 25 30 333333)"
  by code_simp

theorem scanned_negotiation_witness:
  "\<exists>info c w'. uvc_scan_control 32 None \<lparr>di_config = Some cam_config, ctrl_if = zero_ctrl_if, stream_ifs = []\<rparr>
      = Some (UVC_SUCCESS, info)
    \<and> uvc_get_stream_ctrl_format_size_fps echo_usb (demo_devh\<lparr>dh_info := info\<rparr>) UVC_FRAME_FORMAT_MJPEG
        640 480 25 30 (\<lambda>_. [], False) = Some (UVC_SUCCESS, c, w')"
proof -
  obtain info where s: "uvc_scan_control 32 None
      \<lparr>di_config = Some cam_config, ctrl_if = zero_ctrl_if, stream_ifs = []\<rparr> = Some (0, info)"
    and l: "\<forall>si \<in> set (stream_ifs info). \<forall>fm \<in> set (si_format_descs si).
      \<forall>frame \<in> set (fm_frame_descs fm). fr_intervals frame \<noteq> None"
    and e: "\<exists>si \<in> set (stream_ifs info). \<exists>fm \<in> set (si_format_descs si).
      \<exists>frame \<in> set (fm_frame_descs fm). fm_guidFormat fm = [0x4d, 0x4a, 0x50, 0x47, 0, 0, 0, 0, 0, 0, 0, 0, 0, 0, 0, 0]
        \<and> has_size 640 480 frame \<and> interval_fits frame 25 30 333333"
    using cam_scan by (auto split: option.splits prod.splits)
  have "frame_format_matches_guid UVC_FRAME_FORMAT_MJPEG
      [0x4d, 0x4a, 0x50, 0x47, 0, 0, 0, 0, 0, 0, 0, 0, 0, 0, 0, 0]"
    by (simp add: frame_format_matches_guid.simps FMT_def)
  with e have o: "\<exists>si \<in> set (stream_ifs info). \<exists>fm \<in> set (si_format_descs si).
      offers UVC_FRAME_FORMAT_MJPEG 640 480 25 30 fm"
    unfolding offers_def by metis
  have "\<exists>r c w'. uvc_get_stream_ctrl_format_size_fps echo_usb (demo_devh\<lparr>dh_info := info\<rparr>)
      UVC_FRAME_FORMAT_MJPEG 640 480 25 30 (\<lambda>_. [], False) = Some (r, c, w')
    \<and> (r = UVC_SUCCESS \<longleftrightarrow> (\<exists>si \<in> set (stream_ifs info). \<exists>fm \<in> set (si_format_descs si).
         offers UVC_FRAME_FORMAT_MJPEG 640 480 25 30 fm))"
    by (rule scanned_negotiation [OF s obliging_echo]) (use l in \<open>simp, simp, fastforce\<close>)
  with o s show ?thesis by auto
qed

section \<open>From payloads to a polled frame\<close>

lemma session_run:
  "run_payloads u devh ps s w = Some (s', w') \<Longrightarrow> session s' = session s"
  by (induction ps arbitrary: s w) (auto simp: ub_simps dest!: session_payload)

lemma session_polled: "session s' = session s \<Longrightarrow> st_last_polled_seq s' = st_last_polled_seq s"
  by (drule arg_cong [of _ _ st_last_polled_seq]) (simp add: session_def)

lemma held_length: "stream_inv s \<Longrightarrow> length (held s) = st_hold_bytes s"
  by (auto simp: stream_inv_def held_def)



end
